(* ===== verification/Prelude.thy ===== *)
theory Prelude
  imports Main "HOL-Library.Product_Lexorder"
begin

text \<open>
  Shared vocabulary of the development: bytes and byte slices, the unsigned 64-bit
  arithmetic of the source with its wrap-around written out, and the generic lemmas on
  lists and options the component theories rewrite with.

  A byte is a \<^typ>\<open>char\<close> (256 values), so a Go \<open>[]byte\<close> and a Go \<open>string\<close> are both
  lists of bytes, and \<open>string(b)\<close> is the identity.  A \<open>uint64\<close> is a natural number
  below \<open>2 ^ 64\<close>; where the code's sums can pass that bound the model uses
  \<open>add64\<close> and \<open>sub64\<close>, which wrap as Go's do.
\<close>

named_theorems u64_simps "unsigned 64-bit sums and differences that do not wrap"
named_theorems wf_intros "preservation of the components' well-formedness invariants"

type_synonym byte = char
type_synonym bytes = "char list"

section \<open>Unsigned 64-bit arithmetic\<close>

abbreviation two64 :: nat where
  "two64 \<equiv> 18446744073709551616"

definition add64 :: "nat \<Rightarrow> nat \<Rightarrow> nat" where
  "add64 a b = (a + b) mod two64"

definition sub64 :: "nat \<Rightarrow> nat \<Rightarrow> nat" where
  "sub64 a b = (a + (two64 - b)) mod two64"

lemma two64_power: "two64 = 2 ^ 64"
  by simp

lemma add64_less [simp]: "add64 a b < two64"
  by (simp add: add64_def)

lemma sub64_less [simp]: "sub64 a b < two64"
  by (simp add: sub64_def)

lemma add64_fits [u64_simps]: "a + b < two64 \<Longrightarrow> add64 a b = a + b"
  by (simp add: add64_def)

lemma add64_wraps:
  assumes "a < two64" "b < two64" "two64 \<le> a + b"
  shows "add64 a b = a + b - two64"
proof -
  have "(a + b) mod two64 = (a + b - two64) mod two64"
    using assms(3) by (rule le_mod_geq)
  also have "\<dots> = a + b - two64"
    using assms(1,2) by (intro mod_less) arith
  finally show ?thesis by (simp add: add64_def)
qed

lemma sub64_fits [u64_simps]:
  assumes "b \<le> a" "a < two64"
  shows "sub64 a b = a - b"
proof -
  have "a + (two64 - b) = (a - b) + two64"
    using assms by arith
  then have "sub64 a b = (a - b) mod two64"
    by (simp add: sub64_def)
  also have "\<dots> = a - b"
    using assms by (intro mod_less) arith
  finally show ?thesis .
qed

lemma add64_wrap_less:
  assumes "a < two64" "b < two64" "two64 \<le> a + b"
  shows "add64 a b < a"
  using assms by (simp add: add64_wraps)

text \<open>Either a sum fits, or it wraps and lands below both summands.\<close>

lemma add64_cases:
  assumes "a < two64" "b < two64"
  obtains (fits) "add64 a b = a + b" "a + b < two64"
  | (wraps) "add64 a b = a + b - two64" "two64 \<le> a + b" "add64 a b < a"
proof (cases "a + b < two64")
  case True
  then show thesis
    by (intro fits) (auto simp: add64_fits)
next
  case False
  with assms show thesis
    by (intro wraps) (auto simp: add64_wraps add64_wrap_less)
qed

section \<open>Lists\<close>

lemma take_drop_append_split:
  "i \<le> j \<Longrightarrow> take i xs @ take (j - i) (drop i xs) = take j xs"
  by (metis add.commute le_add_diff_inverse2 take_add)

lemma nth_drop_diff: "o' \<le> i \<Longrightarrow> i < o' + length xs \<Longrightarrow> k \<le> i - o' \<Longrightarrow>
    drop k xs ! (i - (o' + k)) = xs ! (i - o')"
  by (subst nth_drop) (auto simp: add.commute)

lemma find_append: "find P (xs @ ys) = (case find P xs of Some x \<Rightarrow> Some x | None \<Rightarrow> find P ys)"
  by (induction xs) auto

lemma find_None_conv: "find P xs = None \<longleftrightarrow> (\<forall>x\<in>set xs. \<not> P x)"
  by (induction xs) auto

text \<open>The last element and what precedes it, as code that reads \<open>s[len(s)-1]\<close> sees a slice.\<close>

lemma snoc_cases:
  obtains (empty) "xs = []" | (snoc) ys y where "xs = ys @ [y]"
  by (cases xs rule: rev_cases) auto

end
