(* ===== verification/Go_Strings.thy ===== *)
theory Go_Strings
  imports Prelude
begin

text \<open>
  The functions of Go's \<open>strings\<close> and \<open>strconv\<close> packages the observer calls, on byte
  lists: \<open>strings.IndexByte\<close>, \<open>strings.Split\<close> at one byte, \<open>strings.Trim\<close> with an ASCII
  cutset, \<open>strings.TrimSpace\<close>, \<open>strings.EqualFold\<close> and \<open>strings.ToLower\<close> where the result is compared with an
  ASCII literal, \<open>strconv.ParseUint\<close>, \<open>strconv.Atoi\<close> of digits and \<open>strconv.Itoa\<close>.

  Go compares and lowers by Unicode code point.  Three code points outside ASCII meet
  ASCII letters there: U+212A (Kelvin sign, bytes E2 84 AA) folds and lowers to \<open>k\<close>,
  U+017F (long s, bytes C5 BF) folds to \<open>s\<close>, and U+0130 (dotted capital I, bytes C4 B0)
  lowers to \<open>i\<close>.  No lead byte of those sequences is a continuation byte, so each is
  decoded wherever it occurs.  Every other non-ASCII code point, and every malformed
  sequence, differs from every ASCII byte before and after folding; the model leaves it
  as it is, which agrees with Go whenever the other side of the comparison is ASCII, as
  it is at every call site modelled.
\<close>

section \<open>Searching, splitting, trimming\<close>

fun index_byte :: "bytes \<Rightarrow> byte \<Rightarrow> nat option" where
  "index_byte [] c = None"
| "index_byte (x # xs) c = (if x = c then Some 0 else map_option Suc (index_byte xs c))"

fun split_byte :: "byte \<Rightarrow> bytes \<Rightarrow> bytes list" where
  "split_byte c [] = [[]]"
| "split_byte c (x # xs) =
     (if x = c then [] # split_byte c xs
      else (case split_byte c xs of [] \<Rightarrow> [[x]] | y # ys \<Rightarrow> (x # y) # ys))"

definition trim_bytes :: "byte list \<Rightarrow> bytes \<Rightarrow> bytes" where
  "trim_bytes cutset s =
     rev (dropWhile (\<lambda>c. c \<in> set cutset) (rev (dropWhile (\<lambda>c. c \<in> set cutset) s)))"

definition blanks :: "byte list" where
  "blanks = [CHR 0x20, CHR 0x09]"

text \<open>\<open>strings.TrimSpace\<close>: the encoded white space, taken off either end.\<close>

definition space_runes :: "bytes list" where
  "space_runes = map (\<lambda>c. [c]) [CHR 0x20, CHR 0x09, CHR 0x0A, CHR 0x0B, CHR 0x0C, CHR 0x0D]
     @ [[CHR 0xC2, CHR 0x85], [CHR 0xC2, CHR 0xA0], [CHR 0xE1, CHR 0x9A, CHR 0x80]]
     @ map (\<lambda>n. [CHR 0xE2, CHR 0x80, char_of n]) ([0x80..<0x8B] @ [0xA8, 0xA9, 0xAF :: nat])
     @ [[CHR 0xE2, CHR 0x81, CHR 0x9F], [CHR 0xE3, CHR 0x80, CHR 0x80]]"

function strip_runes :: "bytes list \<Rightarrow> bytes \<Rightarrow> bytes" where
  "strip_runes runes s =
     (case List.find (\<lambda>r. r \<noteq> [] \<and> take (length r) s = r) runes of
        None \<Rightarrow> s
      | Some r \<Rightarrow> strip_runes runes (drop (length r) s))"
  by pat_completeness auto
termination
proof (relation "measure (\<lambda>(runes, s). length s)")
  fix runes s r
  assume "List.find (\<lambda>r. r \<noteq> [] \<and> take (length r) s = r) runes = Some r"
  then have "r \<noteq> []" "take (length r) s = r" by (auto simp: find_Some_iff)
  then have "s \<noteq> []" by auto
  with \<open>r \<noteq> []\<close> show "((runes, drop (length r) s), (runes, s)) \<in> measure (\<lambda>(runes, s). length s)"
    by (cases r) auto
qed simp

declare strip_runes.simps [simp del]

definition trim_space :: "bytes \<Rightarrow> bytes" where
  "trim_space s = rev (strip_runes (map rev space_runes) (rev (strip_runes space_runes s)))"

section \<open>Case\<close>

definition ascii_lower :: "byte \<Rightarrow> byte" where
  "ascii_lower c =
     (let n = of_char c :: nat in if 65 \<le> n \<and> n \<le> 90 then char_of (n + 32) else c)"

fun fold_bytes :: "bytes \<Rightarrow> bytes" where
  "fold_bytes [] = []"
| "fold_bytes [a] = [ascii_lower a]"
| "fold_bytes [a, b] =
     (if a = CHR 0xC5 \<and> b = CHR 0xBF then [CHR ''s''] else ascii_lower a # fold_bytes [b])"
| "fold_bytes (a # b # c # s) =
     (if a = CHR 0xC5 \<and> b = CHR 0xBF then CHR ''s'' # fold_bytes (c # s)
      else if a = CHR 0xE2 \<and> b = CHR 0x84 \<and> c = CHR 0xAA then CHR ''k'' # fold_bytes s
      else ascii_lower a # fold_bytes (b # c # s))"

definition equal_fold :: "bytes \<Rightarrow> bytes \<Rightarrow> bool" where
  "equal_fold s t \<longleftrightarrow> fold_bytes s = fold_bytes t"

fun to_lower :: "bytes \<Rightarrow> bytes" where
  "to_lower [] = []"
| "to_lower [a] = [ascii_lower a]"
| "to_lower [a, b] =
     (if a = CHR 0xC4 \<and> b = CHR 0xB0 then [CHR ''i''] else ascii_lower a # to_lower [b])"
| "to_lower (a # b # c # s) =
     (if a = CHR 0xC4 \<and> b = CHR 0xB0 then CHR ''i'' # to_lower (c # s)
      else if a = CHR 0xE2 \<and> b = CHR 0x84 \<and> c = CHR 0xAA then CHR ''k'' # to_lower s
      else ascii_lower a # to_lower (b # c # s))"

section \<open>Numbers\<close>

definition digit_value :: "byte \<Rightarrow> nat option" where
  "digit_value c =
     (let n = of_char c :: nat
      in if 48 \<le> n \<and> n \<le> 57 then Some (n - 48)
         else if 97 \<le> n \<and> n \<le> 122 then Some (n - 97 + 10)
         else if 65 \<le> n \<and> n \<le> 90 then Some (n - 65 + 10)
         else None)"

fun digits_value :: "nat \<Rightarrow> nat \<Rightarrow> bytes \<Rightarrow> nat option" where
  "digits_value base acc [] = Some acc"
| "digits_value base acc (c # s) =
     (case digit_value c of
        None \<Rightarrow> None
      | Some d \<Rightarrow> if d < base then digits_value base (acc * base + d) s else None)"

definition parse_uint :: "bytes \<Rightarrow> nat \<Rightarrow> nat \<Rightarrow> nat option" where
  "parse_uint s base bits =
     (if s = [] then None
      else case digits_value base 0 s of
             None \<Rightarrow> None
           | Some n \<Rightarrow> if n < 2 ^ bits then Some n else None)"

fun itoa_acc :: "nat \<Rightarrow> bytes \<Rightarrow> bytes" where
  "itoa_acc n acc =
     (let acc' = char_of (48 + n mod 10) # acc
      in if n < 10 then acc' else itoa_acc (n div 10) acc')"

declare itoa_acc.simps [simp del]

definition itoa :: "nat \<Rightarrow> bytes" where
  "itoa n = itoa_acc n []"

section \<open>Lemmas\<close>

lemma index_byte_Some:
  "index_byte s c = Some i \<Longrightarrow> i < length s \<and> s ! i = c \<and> c \<notin> set (take i s)"
proof (induction s arbitrary: i)
  case (Cons x s)
  then show ?case by (cases i) (auto split: if_splits)
qed simp

lemma index_byte_None: "index_byte s c = None \<longleftrightarrow> c \<notin> set s"
  by (induction s) auto

lemma split_byte_nonempty [simp]: "split_byte c s \<noteq> []"
  by (induction s) (auto split: list.splits)

fun join_byte :: "byte \<Rightarrow> bytes list \<Rightarrow> bytes" where
  "join_byte c [] = []"
| "join_byte c [x] = x"
| "join_byte c (x # y # ys) = x @ c # join_byte c (y # ys)"

lemma join_byte_Cons: "ys \<noteq> [] \<Longrightarrow> join_byte c (x # ys) = x @ c # join_byte c ys"
  by (cases ys) auto

lemma join_split_byte [simp]: "join_byte c (split_byte c s) = s"
proof (induction s)
  case (Cons x s)
  obtain y ys where "split_byte c s = y # ys"
    using split_byte_nonempty by (meson list.exhaust)
  with Cons show ?case
    by (cases ys) (auto simp: join_byte_Cons)
qed simp

lemma split_byte_avoids: "p \<in> set (split_byte c s) \<Longrightarrow> c \<notin> set p"
proof (induction s arbitrary: p)
  case (Cons x s)
  then show ?case by (fastforce split: if_splits list.splits)
qed simp

lemma set_trim_bytes: "set (trim_bytes cs s) \<subseteq> set s"
proof
  fix x
  assume "x \<in> set (trim_bytes cs s)"
  then have "x \<in> set (dropWhile (\<lambda>c. c \<in> set cs) (rev (dropWhile (\<lambda>c. c \<in> set cs) s)))"
    by (simp add: trim_bytes_def)
  then have "x \<in> set (rev (dropWhile (\<lambda>c. c \<in> set cs) s))"
    by (rule set_dropWhileD)
  then have "x \<in> set (dropWhile (\<lambda>c. c \<in> set cs) s)"
    by simp
  then show "x \<in> set s"
    by (rule set_dropWhileD)
qed

lemma length_trim_bytes: "length (trim_bytes cs s) \<le> length s"
  unfolding trim_bytes_def by (metis length_dropWhile_le length_rev order_trans)

lemma digits_value_decimal_step:
  assumes "digit_value c = Some d" "d < base"
  shows "digits_value base acc (c # s) = digits_value base (acc * base + d) s"
  using assms by simp

lemma parse_uint_bound: "parse_uint s base bits = Some n \<Longrightarrow> n < 2 ^ bits"
  by (auto simp: parse_uint_def split: if_splits option.splits)

lemma equal_fold_refl [simp]: "equal_fold s s"
  by (simp add: equal_fold_def)

lemma equal_fold_sym: "equal_fold s t \<Longrightarrow> equal_fold t s"
  by (simp add: equal_fold_def)

lemma digits_value_append:
  "digits_value base acc (s @ t) = Option.bind (digits_value base acc s) (\<lambda>a. digits_value base a t)"
  by (induction s arbitrary: acc) (auto split: option.splits)

lemma itoa_acc_append: "itoa_acc n acc = itoa_acc n [] @ acc"
proof (induction n arbitrary: acc rule: less_induct)
  case (less n)
  show ?case
  proof (cases "n < 10")
    case True
    then show ?thesis by (simp add: itoa_acc.simps [of n])
  next
    case False
    then have "n div 10 < n" by simp
    from less.IH [OF this, of "char_of (48 + n mod 10) # acc"]
      less.IH [OF this, of "[char_of (48 + n mod 10)]"] False
    show ?thesis by (simp add: itoa_acc.simps [of n])
  qed
qed

lemma itoa_simps:
  "n < 10 \<Longrightarrow> itoa n = [char_of (48 + n)]"
  "\<not> n < 10 \<Longrightarrow> itoa n = itoa (n div 10) @ [char_of (48 + n mod 10)]"
  using itoa_acc_append [of "n div 10" "[char_of (48 + n mod 10)]"]
  by (simp_all add: itoa_def itoa_acc.simps [of n])

lemma digit_value_char: "d < 10 \<Longrightarrow> digit_value (char_of (48 + d)) = Some d"
  by (simp add: digit_value_def)

lemma digits_value_itoa: "digits_value 10 0 (itoa n) = Some n"
proof (induction n rule: less_induct)
  case (less n)
  show ?case
  proof (cases "n < 10")
    case True
    then show ?thesis by (simp add: itoa_simps digit_value_char)
  next
    case False
    with less.IH [of "n div 10"] show ?thesis
      by (simp add: itoa_simps(2) digits_value_append digit_value_char)
  qed
qed

lemma itoa_nonempty [simp]: "itoa n \<noteq> []"
  by (cases "n < 10") (simp_all add: itoa_simps)

lemma parse_uint_itoa: "n < 2 ^ bits \<Longrightarrow> parse_uint (itoa n) 10 bits = Some n"
  by (simp add: parse_uint_def digits_value_itoa)

lemma set_itoa: "c \<in> set (itoa n) \<Longrightarrow> \<exists>d<10::nat. c = char_of (48 + d)"
proof (induction n rule: less_induct)
  case (less n)
  show ?case
  proof (cases "n < 10")
    case True
    with less.prems show ?thesis by (auto simp: itoa_simps)
  next
    case False
    with less.prems less.IH [of "n div 10"] show ?thesis
      by (auto simp: itoa_simps intro: exI [of _ "n mod 10"])
  qed
qed

text \<open>Three decimal digits are printed back unless the first is a zero.\<close>

lemma char_digit_inverse:
  assumes "48 \<le> (of_char c :: nat)" "of_char c \<le> (57 :: nat)"
  shows "\<exists>d<10::nat. c = char_of (48 + d) \<and> digit_value c = Some d"
proof -
  let ?d = "of_char c - 48 :: nat"
  have "char_of (48 + ?d) = c" using assms by simp
  then show ?thesis
    using assms by (intro exI [of _ ?d]) (auto simp: digit_value_def)
qed

lemma itoa_three_digits:
  assumes "a < 10" "b < 10" "c < 10"
  shows "itoa (100 * a + 10 * b + c) = [char_of (48 + a), char_of (48 + b), char_of (48 + c)]
     \<longleftrightarrow> 0 < a"
proof -
  have e: "100 * a + 10 * b + c = c + 10 * (10 * a + b)" "10 * a + b = b + 10 * a"
    by simp_all
  have d: "(100 * a + 10 * b + c) div 10 = 10 * a + b" "(100 * a + 10 * b + c) mod 10 = c"
    "(10 * a + b) div 10 = a" "(10 * a + b) mod 10 = b"
    using assms unfolding e by (simp_all only: div_mult_self2 mod_mult_self2 div_less mod_less)
  have inj: "(char_of (48 + x) :: char) = char_of (48 + y) \<longleftrightarrow> x = y" if "x < 10" "y < 10" for x y :: nat
    using that digit_value_char [of x] digit_value_char [of y] by (metis option.inject)
  show ?thesis
  proof (cases "a = 0")
    case False
    then have "\<not> 100 * a + 10 * b + c < 10" "\<not> 10 * a + b < 10" by auto
    with False assms show ?thesis by (simp add: itoa_simps d)
  next
    case True
    then have "length (itoa (10 * b + c)) < 3"
      using assms d by (cases "10 * b + c < 10") (simp_all add: itoa_simps)
    with True show ?thesis by auto
  qed
qed

lemma trim_bytes_split:
  "\<exists>a b. s = a @ trim_bytes cs s @ b \<and> set a \<subseteq> set cs \<and> set b \<subseteq> set cs"
proof -
  let ?P = "\<lambda>c. c \<in> set cs"
  let ?t = "dropWhile ?P s"
  have "s = takeWhile ?P s @ ?t" by simp
  moreover have "?t = rev (dropWhile ?P (rev ?t)) @ rev (takeWhile ?P (rev ?t))"
    by (metis rev_append rev_rev_ident takeWhile_dropWhile_id)
  moreover have "set (takeWhile ?P s) \<subseteq> set cs" "set (rev (takeWhile ?P (rev ?t))) \<subseteq> set cs"
    by (auto dest: set_takeWhileD)
  ultimately show ?thesis
    by (intro exI [of _ "takeWhile ?P s"] exI [of _ "rev (takeWhile ?P (rev ?t))"])
      (auto simp: trim_bytes_def)
qed

lemma dropWhile_none: "\<forall>x\<in>set s. \<not> P x \<Longrightarrow> dropWhile P s = s"
  by (cases s) auto

lemma trim_bytes_id: "set s \<inter> set cs = {} \<Longrightarrow> trim_bytes cs s = s"
  unfolding trim_bytes_def by (subst (1 2) dropWhile_none) auto

lemma split_byte_single: "c \<notin> set s \<Longrightarrow> split_byte c s = [s]"
  by (induction s) auto
end
