(* ===== verification/Http_Syntax.thy ===== *)
theory Http_Syntax
  imports Go_Strings
begin

text \<open>
  Package \<open>http1\<close>, file \<open>http1.go\<close>: the messages, the limits, and the strict rules the
  parser applies to a start line, a field line, a chunk size and a field section.  A Go
  function that returns a value and \<open>ok\<close> is an option; \<open>frame\<close> returns its three values.
\<close>

datatype kind = UnknownKind | Request | Response

datatype framing = FramingNone | FramingContentLength | FramingChunked | FramingUntilClose | FramingAmbiguous

datatype defect =
  DefectNone | DefectStreamEnded | DefectHole | DefectMalformed | DefectAmbiguousFraming | DefectLimit

datatype header = Header (Name: bytes) (Value: bytes)

record message =
  m_kind :: kind
  m_method :: bytes
  m_target :: bytes
  m_protocol :: bytes
  m_status :: nat
  m_reason :: bytes
  m_headers :: "header list"
  m_framing :: framing
  m_body :: bytes
  m_body_length :: nat
  m_body_holed :: nat
  m_body_elided :: nat
  m_trailers :: "header list"
  m_complete :: bool
  m_framed :: bool
  m_defect :: defect
  m_detail :: bytes
  m_offset :: nat
  m_end :: nat

definition zero_message :: message where
  "zero_message =
     \<lparr>m_kind = UnknownKind, m_method = [], m_target = [], m_protocol = [], m_status = 0, m_reason = [],
      m_headers = [], m_framing = FramingNone, m_body = [], m_body_length = 0, m_body_holed = 0,
      m_body_elided = 0, m_trailers = [], m_complete = False, m_framed = False,
      m_defect = DefectNone, m_detail = [], m_offset = 0, m_end = 0\<rparr>"

record limits =
  MaxStartLine :: int
  MaxHeaderLine :: int
  MaxHeaders :: int
  MaxHeaderBytes :: int
  MaxBodyBytes :: int
  MaxChunks :: int
  MaxTrailers :: int

definition default_limits :: limits where
  "default_limits =
     \<lparr>MaxStartLine = 8192, MaxHeaderLine = 8192, MaxHeaders = 128, MaxHeaderBytes = 65536,
      MaxBodyBytes = 8388608, MaxChunks = 16384, MaxTrailers = 32\<rparr>"

definition or_default :: "int \<Rightarrow> int \<Rightarrow> int" where
  "or_default x d = (if x \<le> 0 then d else x)"

definition or_defaults :: "limits \<Rightarrow> limits" where
  "or_defaults l =
     \<lparr>MaxStartLine = or_default (MaxStartLine l) (MaxStartLine default_limits),
      MaxHeaderLine = or_default (MaxHeaderLine l) (MaxHeaderLine default_limits),
      MaxHeaders = or_default (MaxHeaders l) (MaxHeaders default_limits),
      MaxHeaderBytes = or_default (MaxHeaderBytes l) (MaxHeaderBytes default_limits),
      MaxBodyBytes = or_default (MaxBodyBytes l) (MaxBodyBytes default_limits),
      MaxChunks = or_default (MaxChunks l) (MaxChunks default_limits),
      MaxTrailers = or_default (MaxTrailers l) (MaxTrailers default_limits)\<rparr>"

section \<open>Bytes and tokens\<close>

definition is_alnum :: "byte \<Rightarrow> bool" where
  "is_alnum c =
     (let n = of_char c :: nat
      in 97 \<le> n \<and> n \<le> 122 \<or> 65 \<le> n \<and> n \<le> 90 \<or> 48 \<le> n \<and> n \<le> 57)"

definition token_marks :: bytes where
  "token_marks =
     [CHR ''!'', CHR ''#'', CHR ''$'', CHR ''%'', CHR ''&'', CHR 0x27, CHR ''*'', CHR ''+'', CHR ''-'',
      CHR ''.'', CHR 0x5E, CHR ''_'', CHR 0x60, CHR 0x7C, CHR 0x7E]"

definition is_token_byte :: "byte \<Rightarrow> bool" where
  "is_token_byte c \<longleftrightarrow> is_alnum c \<or> index_byte token_marks c \<noteq> None"

definition is_token :: "bytes \<Rightarrow> bool" where
  "is_token s \<longleftrightarrow> s \<noteq> [] \<and> list_all is_token_byte s"

definition is_visible_text :: "bytes \<Rightarrow> bool" where
  "is_visible_text s =
     list_all (\<lambda>c. \<not> ((of_char c :: nat) < 32 \<and> c \<noteq> CHR 0x09 \<or> c = CHR 0x7F)) s"

definition is_digit :: "byte \<Rightarrow> bool" where
  "is_digit c = (let n = of_char c :: nat in 48 \<le> n \<and> n \<le> 57)"

definition is_digits :: "bytes \<Rightarrow> bool" where
  "is_digits s \<longleftrightarrow> s \<noteq> [] \<and> list_all is_digit s"

definition is_hex :: "bytes \<Rightarrow> bool" where
  "is_hex s =
     list_all (\<lambda>c. let n = of_char c :: nat
                   in 48 \<le> n \<and> n \<le> 57 \<or> 97 \<le> n \<and> n \<le> 102 \<or> 65 \<le> n \<and> n \<le> 70) s"

definition is_version :: "bytes \<Rightarrow> bool" where
  "is_version s \<longleftrightarrow>
     length s = 8 \<and> take 5 s = ''HTTP/'' \<and> is_digit (s ! 5) \<and> s ! 6 = CHR ''.'' \<and> is_digit (s ! 7)"

section \<open>Lines\<close>

definition split_list :: "bytes \<Rightarrow> bytes list" where
  "split_list value = map (trim_bytes blanks) (split_byte (CHR '','') value)"

definition read_request_line :: "message \<Rightarrow> bytes \<Rightarrow> message option" where
  "read_request_line m line =
     (case split_byte (CHR '' '') line of
        [a, b, c] \<Rightarrow>
          if \<not> is_token a \<or> b = [] \<or> \<not> is_visible_text b \<or> \<not> is_version c then None
          else Some (m\<lparr>m_method := a, m_target := b, m_protocol := c\<rparr>)
      | _ \<Rightarrow> None)"

definition read_status_line :: "message \<Rightarrow> bytes \<Rightarrow> message option" where
  "read_status_line m line =
     (if length line < 12 \<or> \<not> is_version (take 8 line) \<or> line ! 8 \<noteq> CHR '' ''
         \<or> \<not> is_digits (take 3 (drop 9 line)) then None
      else
        let reason = (if length line = 12 then Some []
                      else if line ! 12 = CHR '' '' then Some (drop 13 line) else None)
        in case reason of
             None \<Rightarrow> None
           | Some why \<Rightarrow>
               if \<not> is_visible_text why then None
               else (case parse_uint (take 3 (drop 9 line)) 10 63 of
                       None \<Rightarrow> None
                     | Some status \<Rightarrow>
                         Some (m\<lparr>m_protocol := take 8 line, m_status := status, m_reason := why\<rparr>)))"

definition read_header :: "bytes \<Rightarrow> header option" where
  "read_header line =
     (case index_byte line (CHR '':'') of
        None \<Rightarrow> None
      | Some 0 \<Rightarrow> None
      | Some colon \<Rightarrow>
          (let name = take colon line; value = trim_bytes blanks (drop (colon + 1) line)
           in if \<not> is_token name then None
              else if \<not> is_visible_text value then None
              else Some (Header name value)))"

definition chunk_size_text :: "bytes \<Rightarrow> bytes" where
  "chunk_size_text line =
     (case index_byte line (CHR '';'') of None \<Rightarrow> line | Some semicolon \<Rightarrow> take semicolon line)"

definition chunk_size :: "bytes \<Rightarrow> nat option" where
  "chunk_size line =
     (let text = chunk_size_text line
      in if text = [] \<or> length text > 16 \<or> \<not> is_hex text then None else parse_uint text 16 63)"

section \<open>Messages\<close>

definition lookup_field :: "message \<Rightarrow> bytes \<Rightarrow> bytes option" where
  "lookup_field m name = map_option Value (List.find (\<lambda>h. equal_fold (Name h) name) (m_headers m))"

definition start_line :: "message \<Rightarrow> bytes" where
  "start_line m =
     (case m_kind m of
        Request \<Rightarrow> m_method m @ '' '' @ m_target m @ '' '' @ m_protocol m
      | Response \<Rightarrow>
          m_protocol m @ '' '' @ itoa (m_status m)
          @ (if m_reason m \<noteq> [] then '' '' @ m_reason m else [])
      | UnknownKind \<Rightarrow> [])"

definition status_forbids_body :: "nat \<Rightarrow> bool" where
  "status_forbids_body status \<longleftrightarrow> status \<ge> 100 \<and> status < 200 \<or> status = 204 \<or> status = 304"

definition is_length_field :: "header \<Rightarrow> bool" where
  "is_length_field h = equal_fold (Name h) ''content-length''"

definition is_encoding_field :: "header \<Rightarrow> bool" where
  "is_encoding_field h = (\<not> is_length_field h \<and> equal_fold (Name h) ''transfer-encoding'')"

definition lengths_of :: "header list \<Rightarrow> bytes list" where
  "lengths_of hs = concat (map (\<lambda>h. split_list (Value h)) (filter is_length_field hs))"

definition codings_of :: "header list \<Rightarrow> bytes list" where
  "codings_of hs =
     concat (map (\<lambda>h. map to_lower (split_list (Value h))) (filter is_encoding_field hs))"

definition declares_encoding :: "header list \<Rightarrow> bool" where
  "declares_encoding hs = list_ex is_encoding_field hs"

definition frame_encoding :: "kind \<Rightarrow> bytes list \<Rightarrow> framing \<times> nat \<times> bytes" where
  "frame_encoding kind codings =
     (if codings = [] then (FramingNone, 0, ''an empty transfer encoding'')
      else if last codings = ''chunked'' then
        (if ''chunked'' \<in> set (butlast codings)
         then (FramingNone, 0, ''chunked applied more than once'')
         else (FramingChunked, 0, []))
      else if ''chunked'' \<in> set codings
      then (FramingNone, 0, ''a transfer coding applied after chunked'')
      else if kind = Request
      then (FramingNone, 0, ''a request whose transfer encoding is not chunked'')
      else (FramingUntilClose, 0, []))"

definition frame_length :: "bytes list \<Rightarrow> framing \<times> nat \<times> bytes" where
  "frame_length lengths =
     (if list_ex (\<lambda>value. value \<noteq> hd lengths) (tl lengths)
      then (FramingNone, 0, ''two content lengths that disagree'')
      else case parse_uint (hd lengths) 10 63 of
             None \<Rightarrow> (FramingNone, 0, ''a content length that is not a decimal number'')
           | Some n \<Rightarrow>
               if \<not> is_digits (hd lengths)
               then (FramingNone, 0, ''a content length that is not a decimal number'')
               else (FramingContentLength, n, []))"

definition frame :: "message \<Rightarrow> kind \<Rightarrow> bool \<Rightarrow> framing \<times> nat \<times> bytes" where
  "frame m kind noBody =
     (let lengths = lengths_of (m_headers m); codings = codings_of (m_headers m)
      in if declares_encoding (m_headers m) \<and> length lengths > 0
         then (FramingAmbiguous, 0, ''the message declares both a length and a transfer encoding'')
         else if kind = Response \<and> (noBody \<or> status_forbids_body (m_status m))
         then (FramingNone, 0, [])
         else if declares_encoding (m_headers m) then frame_encoding kind codings
         else if length lengths > 0 then frame_length lengths
         else if kind = Response then (FramingUntilClose, 0, [])
         else (FramingNone, 0, []))"

section \<open>Lemmas\<close>

lemma is_digit_value: "is_digit c \<Longrightarrow> \<exists>d<10::nat. c = char_of (48 + d) \<and> digit_value c = Some d"
  by (rule char_digit_inverse) (auto simp: is_digit_def Let_def)

lemma is_digits_itoa: "is_digits (itoa n)"
  by (auto simp: is_digits_def is_digit_def list_all_iff dest!: set_itoa)

lemma visible_byte:
  "is_visible_text s \<Longrightarrow> c \<in> set s \<Longrightarrow> \<not> ((of_char c :: nat) < 32 \<and> c \<noteq> CHR 0x09 \<or> c = CHR 0x7F)"
  by (simp add: is_visible_text_def list_all_iff)

lemma visible_no_control:
  "is_visible_text s \<Longrightarrow> CHR 0x0D \<notin> set s \<and> CHR 0x0A \<notin> set s \<and> CHR 0x00 \<notin> set s"
  using visible_byte [of s "CHR 0x0D"] visible_byte [of s "CHR 0x0A"] visible_byte [of s "CHR 0x00"]
  by auto

lemma token_byte_visible:
  "is_token_byte c \<Longrightarrow> c \<noteq> CHR '' '' \<and> c \<noteq> CHR '':'' \<and> c \<noteq> CHR 0x0D \<and> c \<noteq> CHR 0x0A \<and> c \<noteq> CHR 0x09"
  by (auto simp: is_token_byte_def is_alnum_def token_marks_def Let_def)

lemma three_digits:
  assumes "is_digits s" "length s = 3"
  obtains a b c where "a < 10" "b < 10" "c < 10"
    "s = [char_of (48 + a), char_of (48 + b), char_of (48 + c)]"
    "parse_uint s 10 63 = Some (100 * a + 10 * b + c)"
proof -
  from assms(2) obtain x y z where s: "s = [x, y, z]"
    by (auto simp: length_Suc_conv numeral_3_eq_3)
  with assms(1) have "is_digit x" "is_digit y" "is_digit z" by (simp_all add: is_digits_def)
  then obtain a b c where "a < 10" "x = char_of (48 + a)" "digit_value x = Some a"
      and "b < 10" "y = char_of (48 + b)" "digit_value y = Some b"
      and "c < 10" "z = char_of (48 + c)" "digit_value z = Some c"
    using is_digit_value [of x] is_digit_value [of y] is_digit_value [of z] by blast
  moreover from calculation have "100 * a + 10 * b + c < 2 ^ 63" by simp
  ultimately show thesis
    by (intro that [of a b c]) (simp_all add: s parse_uint_def algebra_simps)
qed

lemma lengths_of_Nil: "lengths_of hs = [] \<longleftrightarrow> (\<forall>h\<in>set hs. \<not> is_length_field h)"
  by (auto simp: lengths_of_def split_list_def filter_empty_conv)

lemma set_lengths_of:
  "set (lengths_of hs) = (\<Union>h\<in>{h \<in> set hs. is_length_field h}. set (split_list (Value h)))"
  by (auto simp: lengths_of_def)


section \<open>Properties\<close>

text \<open>
  a request line that is accepted is kept whole.  The start line rendered from the
  method, target and version the parser stored is, byte for byte, the line that was read.
\<close>

theorem request_line_round_trip:
  assumes "read_request_line m line = Some m'" "m_kind m = Request"
  shows "start_line m' = line \<and> is_token (m_method m') \<and> is_version (m_protocol m')
     \<and> CHR '' '' \<notin> set (m_target m') \<and> is_visible_text (m_target m')"
proof -
  from assms(1) obtain a b c where s: "split_byte (CHR '' '') line = [a, b, c]"
    and ok: "is_token a" "is_visible_text b" "is_version c"
    and m': "m' = m\<lparr>m_method := a, m_target := b, m_protocol := c\<rparr>"
    by (auto simp: read_request_line_def split: list.splits if_splits)
  have "line = join_byte (CHR '' '') [a, b, c]"
    using join_split_byte [of "CHR '' ''" line] s by simp
  moreover have "CHR '' '' \<notin> set b"
    using split_byte_avoids [of b "CHR '' ''" line] s by simp
  ultimately show ?thesis
    using m' ok assms(2) by (simp add: start_line_def)
qed

theorem request_line_round_trip_witness:
  "start_line (the (read_request_line (zero_message\<lparr>m_kind := Request\<rparr>) ''GET /a HTTP/1.1''))
     = ''GET /a HTTP/1.1''"
proof -
  have r: "read_request_line (zero_message\<lparr>m_kind := Request\<rparr>) ''GET /a HTTP/1.1'' =
      Some (zero_message\<lparr>m_kind := Request, m_method := ''GET'', m_target := ''/a'',
                         m_protocol := ''HTTP/1.1''\<rparr>)"
    by (simp add: read_request_line_def zero_message_def is_token_def is_token_byte_def is_alnum_def
        is_visible_text_def is_version_def is_digit_def)
  then show ?thesis
    using request_line_round_trip [OF r] by simp
qed

text \<open>
  exactly which status lines \<open>StartLine\<close> renders back.  A response whose status line was
  accepted renders as the line that was sent if and only if the status is at least 100 and
  the line does not end in the single space after the status; the other accepted lines
  (a status with leading zeros, or an empty reason with its space) are rendered shorter.
\<close>

theorem status_line_rendering:
  assumes "read_status_line m line = Some m'" "m_kind m = Response"
  shows "start_line m' = line \<longleftrightarrow> 100 \<le> m_status m' \<and> length line \<noteq> 13"
proof -
  let ?d = "take 3 (drop 9 line)"
  from assms(1) have len: "12 \<le> length line" and sp: "line ! 8 = CHR '' ''" and dg: "is_digits ?d"
    and m': "m_protocol m' = take 8 line" "parse_uint ?d 10 63 = Some (m_status m')" "m_kind m' = m_kind m"
    and why: "length line = 12 \<and> m_reason m' = [] \<or>
      length line \<noteq> 12 \<and> line ! 12 = CHR '' '' \<and> m_reason m' = drop 13 line"
    by (auto simp: read_status_line_def Let_def split: if_splits option.splits)
  from dg len obtain a b c where d: "a < 10" "b < 10" "c < 10"
      "?d = [char_of (48 + a), char_of (48 + b), char_of (48 + c)]" "m_status m' = 100 * a + 10 * b + c"
    using m'(2) by (auto elim!: three_digits [of ?d])
  have "drop 8 line = CHR '' '' # drop 9 line" "drop 9 line = ?d @ drop 12 line"
    using len sp Cons_nth_drop_Suc [of 8 line] append_take_drop_id [of 3 "drop 9 line"] by auto
  then have line: "line = take 8 line @ CHR '' '' # ?d @ drop 12 line"
    by (metis append_take_drop_id)
  have status: "itoa (m_status m') = ?d \<longleftrightarrow> 100 \<le> m_status m'"
    using d itoa_three_digits [of a b c] by (cases "a = 0") auto
  define tail where "tail = (if m_reason m' \<noteq> [] then CHR '' '' # m_reason m' else [])"
  have "start_line m' = take 8 line @ CHR '' '' # itoa (m_status m') @ tail"
    using m' assms(2) by (simp add: start_line_def tail_def)
  then have "start_line m' = line \<longleftrightarrow>
      take 8 line @ CHR '' '' # itoa (m_status m') @ tail = take 8 line @ CHR '' '' # ?d @ drop 12 line"
    by (simp only: line [symmetric])
  then have iff: "start_line m' = line \<longleftrightarrow> itoa (m_status m') @ tail = ?d @ drop 12 line"
    by (simp only: same_append_eq list.inject simp_thms)
  consider "length line = 12" | "length line = 13" | "13 < length line" using len by linarith
  then show ?thesis
  proof cases
    case 1
    with why status iff show ?thesis by (simp add: tail_def)
  next
    case 2
    with why have "drop 12 line = [CHR '' '']" "tail = []"
      using Cons_nth_drop_Suc [of 12 line] by (auto simp: tail_def)
    moreover have "CHR '' '' \<notin> set (itoa (m_status m'))"
      using is_digits_itoa [of "m_status m'"] by (auto simp: is_digits_def is_digit_def list_all_iff)
    ultimately show ?thesis
      using 2 iff by (metis append_Nil2 in_set_conv_decomp)
  next
    case 3
    with why have "drop 12 line = tail"
      using Cons_nth_drop_Suc [of 12 line] by (auto simp: tail_def)
    with 3 status iff show ?thesis by simp
  qed
qed

theorem status_line_rendering_witness:
  "start_line (the (read_status_line (zero_message\<lparr>m_kind := Response\<rparr>) ''HTTP/1.1 200 '')) \<noteq> ''HTTP/1.1 200 ''"
proof -
  have r: "read_status_line (zero_message\<lparr>m_kind := Response\<rparr>) ''HTTP/1.1 200 '' =
      Some (zero_message\<lparr>m_kind := Response, m_protocol := ''HTTP/1.1'', m_status := 200\<rparr>)"
    by (simp add: read_status_line_def zero_message_def is_digits_def is_visible_text_def is_version_def
        is_digit_def parse_uint_def digit_value_def)
  show ?thesis
    using status_line_rendering [OF r] by (simp add: r)
qed

text \<open>
  An accepted field line cannot hide another.  Its name is a token, with no space and
  no colon in it; its value holds no carriage return, line feed or NUL and no blank at
  either end; and the line is the name, a colon, blanks, the value and blanks.
\<close>

theorem field_line_parts:
  assumes "read_header line = Some h"
  shows "is_token (Name h) \<and> CHR '' '' \<notin> set (Name h) \<and> CHR '':'' \<notin> set (Name h)
    \<and> CHR 0x0D \<notin> set (Value h) \<and> CHR 0x0A \<notin> set (Value h) \<and> CHR 0x00 \<notin> set (Value h)
    \<and> (\<exists>a b. line = Name h @ CHR '':'' # a @ Value h @ b \<and> set a \<subseteq> set blanks \<and> set b \<subseteq> set blanks)"
proof -
  from assms obtain colon where i: "index_byte line (CHR '':'') = Some colon"
    and tok: "is_token (take colon line)"
    and vis: "is_visible_text (trim_bytes blanks (drop (colon + 1) line))"
    and h: "h = Header (take colon line) (trim_bytes blanks (drop (colon + 1) line))"
    by (auto simp: read_header_def Let_def split: option.splits nat.splits if_splits)
  obtain a b where "drop (colon + 1) line = a @ Value h @ b" "set a \<subseteq> set blanks" "set b \<subseteq> set blanks"
    using trim_bytes_split [of "drop (colon + 1) line" blanks] h by auto
  moreover have "line = take colon line @ CHR '':'' # drop (colon + 1) line"
    using index_byte_Some [OF i] by (metis Suc_eq_plus1 id_take_nth_drop)
  ultimately have "\<exists>a b. line = Name h @ CHR '':'' # a @ Value h @ b \<and> set a \<subseteq> set blanks \<and> set b \<subseteq> set blanks"
    using h by (metis header.sel(1))
  moreover have "\<forall>c\<in>set (Name h). c \<noteq> CHR '' '' \<and> c \<noteq> CHR '':''"
    using tok h by (auto simp: is_token_def list_all_iff dest: token_byte_visible)
  moreover have "CHR 0x0D \<notin> set (Value h)" "CHR 0x0A \<notin> set (Value h)" "CHR 0x00 \<notin> set (Value h)"
    using visible_no_control [OF vis] h by simp_all
  ultimately show ?thesis
    using tok h by (metis header.sel(1))
qed

theorem field_line_parts_witness:
  "read_header ''Host:  a:b '' = Some (Header ''Host'' ''a:b'') \<and> CHR '':'' \<notin> set (Name (Header ''Host'' ''a:b''))"
proof -
  have r: "read_header ''Host:  a:b '' = Some (Header ''Host'' ''a:b'')"
    by (simp add: read_header_def is_token_def is_token_byte_def is_alnum_def is_visible_text_def
        trim_bytes_def blanks_def)
  show ?thesis
    using r field_line_parts [OF r] by blast
qed



text \<open>
  A declared length is read exactly.  A message whose one Content-Length field holds the
  decimal digits of \<open>n\<close>, below two to the sixty-third, and which declares no transfer
  encoding, is framed by a body of exactly \<open>n\<close> bytes.
\<close>

theorem content_length_round_trip:
  assumes "filter is_length_field (m_headers m) = [h]" "Value h = itoa n" "n < 2 ^ 63"
    and "\<not> declares_encoding (m_headers m)" "kind = Response \<longrightarrow> \<not> noBody \<and> \<not> status_forbids_body (m_status m)"
  shows "frame m kind noBody = (FramingContentLength, n, [])"
proof -
  have d: "\<forall>c\<in>set (itoa n). is_digit c"
    using is_digits_itoa [of n] by (simp add: is_digits_def list_all_iff)
  have "CHR '','' \<notin> set (itoa n)" "set (itoa n) \<inter> set blanks = {}"
    using d by (auto simp: is_digit_def blanks_def)
  then have "lengths_of (m_headers m) = [itoa n]"
    using assms(1,2) by (simp add: lengths_of_def split_list_def split_byte_single trim_bytes_id)
  then show ?thesis
    using assms(3-5) by (auto simp: frame_def Let_def frame_length_def parse_uint_itoa is_digits_itoa)
qed

theorem content_length_round_trip_witness:
  "frame (zero_message\<lparr>m_headers := [Header ''Content-Length'' (itoa 5)]\<rparr>) Request False
     = (FramingContentLength, 5, [])"
  by (rule content_length_round_trip [of _ "Header ''Content-Length'' (itoa 5)"])
    (simp_all add: zero_message_def declares_encoding_def is_encoding_field_def is_length_field_def
      equal_fold_def ascii_lower_def char_of_def bit_Suc_0_iff)

section \<open>Where the rules are looser than their comments\<close>

text \<open>
  A transfer coding is compared after \<open>strings.ToLower\<close>, which lowers the Kelvin sign to
  \<open>k\<close>: a coding that is not the token \<open>chunked\<close> frames the message as chunked.
\<close>

lemma kelvin_sign_is_chunked:
  "frame (zero_message\<lparr>m_headers :=
      [Header ''Transfer-Encoding'' (''chun'' @ [CHR 0xE2, CHR 0x84, CHR 0xAA] @ ''ed'')]\<rparr>) Request False
     = (FramingChunked, 0, [])"
  by (simp add: frame_def zero_message_def declares_encoding_def is_encoding_field_def is_length_field_def
      equal_fold_def ascii_lower_def char_of_def bit_Suc_0_iff lengths_of_def codings_of_def split_list_def trim_bytes_def blanks_def
      frame_encoding_def)

text \<open>\<open>isVisibleText\<close> accepts every byte from 0x80 on, none of which is visible ASCII.\<close>

lemma visible_text_beyond_ascii: "is_visible_text [CHR 0xE9, CHR 0xFF]"
  by (simp add: is_visible_text_def)

end
