(* ===== verification/Fragment.thy ===== *)
theory Fragment
  imports Prelude
begin

text \<open>
  Package \<open>fragment\<close>: the record capture publishes for one TLS library call, and the
  evidence a record carries about its connection.  Every validation rule of
  \<open>fragment.go\<close> and \<open>evidence.go\<close> is a branch of a definition here; an error is the value
  \<open>Some e\<close> naming the rule that failed, and no error is \<open>None\<close>.

  A Go \<open>time.Time\<close> is \<open>None\<close> when it is the zero time.  A pointer to shared control
  state (\<open>held.Slot\<close>, \<open>held.Loss\<close>) is the number of that object in its owner's store.
  \<open>Unknown\<close> stands for every direction value that is neither sent nor received.
\<close>

type_synonym time = "int option"

datatype direction = Unknown | Sent | Received

datatype process = Process (PID: int) (StartTime: nat)

type_synonym connection_id = nat

datatype stream_key =
  StreamKey (Key_Process: process) (Key_Connection: connection_id) (Key_Direction: direction)

section \<open>Evidence\<close>

datatype origin = OriginUnset | OriginBirth | OriginFirstRecorded | OriginUnestablished | OriginOther nat

record namespace =
  ns_device :: nat
  ns_inode :: nat

record start =
  st_ticks :: nat
  st_determined :: bool

record instance_rec =
  in_namespace :: namespace
  in_pid :: int
  in_start :: start
  in_generation :: nat
  in_executable :: bytes

record identity =
  id_connection :: connection_id
  id_process :: process
  id_instance :: instance_rec
  id_address :: nat
  id_generation :: nat
  id_network_device :: nat
  id_network_inode :: nat
  id_first_seen :: time
  id_opened :: time

record direction_evidence =
  de_limit :: nat
  de_cut :: bool
  de_from :: nat
  de_lost :: nat
  de_lost_uncounted :: bool
  de_first :: nat
  de_numbered :: nat
  de_resolved :: nat
  de_empties :: nat

definition no_direction_evidence :: direction_evidence where
  "no_direction_evidence =
     \<lparr>de_limit = 0, de_cut = False, de_from = 0, de_lost = 0, de_lost_uncounted = False,
      de_first = 0, de_numbered = 0, de_resolved = 0, de_empties = 0\<rparr>"

record evidence =
  ev_identity :: "identity option"
  ev_occupancy :: nat
  ev_origin :: origin
  ev_through :: nat
  ev_sent :: direction_evidence
  ev_received :: direction_evidence

definition no_evidence :: evidence where
  "no_evidence =
     \<lparr>ev_identity = None, ev_occupancy = 0, ev_origin = OriginUnset, ev_through = 0,
      ev_sent = no_direction_evidence, ev_received = no_direction_evidence\<rparr>"

definition direction_established :: "direction_evidence \<Rightarrow> nat" where
  "direction_established d = (if de_cut d then de_from d else de_limit d)"

definition evidence_taken :: "evidence \<Rightarrow> bool" where
  "evidence_taken e \<longleftrightarrow> ev_through e \<noteq> 0"

definition evidence_of :: "evidence \<Rightarrow> direction \<Rightarrow> direction_evidence" where
  "evidence_of e d =
     (case d of Sent \<Rightarrow> ev_sent e | Received \<Rightarrow> ev_received e | Unknown \<Rightarrow> no_direction_evidence)"

definition evidence_established :: "evidence \<Rightarrow> direction \<Rightarrow> nat" where
  "evidence_established e d =
     (if \<not> evidence_taken e then 0 else direction_established (evidence_of e d))"

definition evidence_usable :: "evidence \<Rightarrow> nat \<Rightarrow> bool" where
  "evidence_usable e held \<longleftrightarrow> evidence_taken e \<and> ev_through e \<le> held"

datatype direction_error =
    NotCutNamesOffset | CutPastLimit | NotCutCountsLost | FirstPastNumbered | NumberedNoFirst
  | ResolvedPastNumbered | ResolvedNotFromOne | EmptiesPastNumbered | UnresolvedNotCut

definition direction_validate :: "direction_evidence \<Rightarrow> direction_error option" where
  "direction_validate d =
     (if \<not> de_cut d \<and> de_from d \<noteq> 0 then Some NotCutNamesOffset
      else if de_cut d \<and> de_from d > de_limit d then Some CutPastLimit
      else if \<not> de_cut d \<and> (de_lost d \<noteq> 0 \<or> de_lost_uncounted d) then Some NotCutCountsLost
      else if de_first d > de_numbered d then Some FirstPastNumbered
      else if de_numbered d \<noteq> 0 \<and> de_first d = 0 then Some NumberedNoFirst
      else if de_resolved d > de_numbered d then Some ResolvedPastNumbered
      else if de_resolved d \<noteq> 0 \<and> de_first d \<noteq> 1 then Some ResolvedNotFromOne
      else if de_empties d > de_numbered d then Some EmptiesPastNumbered
      else if \<not> de_cut d \<and> de_resolved d \<noteq> de_numbered d then Some UnresolvedNotCut
      else None)"

datatype fragment_error =
    NoProcess | BadDirection | NothingTransferred | KeptMoreThanTransferred | NoCaptureTime
  | NoEvidenceTaken | NoIdentity | ConnectionZero | EvidenceNoProcess | OriginUnsaid
  | NoOccupancyWithOrigin | DirectionInvalid direction direction_error | UnestablishedNotCut direction
  | EvidenceOfAnother | EvidenceThroughAnother
  | CarriesNoEvidence | EndNotLimit | EmptiesAfterIt | UnnumberedEstablished
  | NumberedShort | UncutResolvesElsewhere

definition origin_known :: "origin \<Rightarrow> bool" where
  "origin_known or' = (case or' of OriginUnset \<Rightarrow> False | OriginOther n \<Rightarrow> False | _ \<Rightarrow> True)"

definition validate_direction_of :: "evidence \<Rightarrow> direction \<Rightarrow> fragment_error option" where
  "validate_direction_of e d =
     (let one = evidence_of e d
      in case direction_validate one of
           Some err \<Rightarrow> Some (DirectionInvalid d err)
         | None \<Rightarrow>
             if ev_origin e = OriginUnestablished \<and> (\<not> de_cut one \<or> de_from one \<noteq> 0)
             then Some (UnestablishedNotCut d) else None)"

definition evidence_validate :: "evidence \<Rightarrow> fragment_error option" where
  "evidence_validate e =
     (if \<not> evidence_taken e then Some NoEvidenceTaken
      else case ev_identity e of
        None \<Rightarrow> Some NoIdentity
      | Some i \<Rightarrow>
          if id_connection i = 0 then Some ConnectionZero
          else if PID (id_process i) \<le> 0 then Some EvidenceNoProcess
          else if \<not> origin_known (ev_origin e) then Some OriginUnsaid
          else if ev_occupancy e = 0 \<and> ev_origin e \<noteq> OriginUnestablished
          then Some NoOccupancyWithOrigin
          else (case validate_direction_of e Sent of
                  Some err \<Rightarrow> Some err
                | None \<Rightarrow> validate_direction_of e Received))"

section \<open>Records\<close>

record fragment_record =
  fr_process :: process
  fr_connection :: connection_id
  fr_direction :: direction
  fr_sequence :: nat
  fr_offset :: nat
  fr_length :: nat
  fr_produced :: nat
  fr_empties :: nat
  fr_payload :: bytes
  fr_at :: time
  fr_slot :: "nat option"
  fr_loss :: "nat option"
  fr_evidence :: evidence

definition record_stream :: "fragment_record \<Rightarrow> stream_key" where
  "record_stream r = StreamKey (fr_process r) (fr_connection r) (fr_direction r)"

definition record_end :: "fragment_record \<Rightarrow> nat" where
  "record_end r = add64 (fr_offset r) (fr_length r)"

definition record_truncated :: "fragment_record \<Rightarrow> bool" where
  "record_truncated r \<longleftrightarrow> length (fr_payload r) < fr_length r"

definition record_validate :: "fragment_record \<Rightarrow> fragment_error option" where
  "record_validate r =
     (if PID (fr_process r) \<le> 0 then Some NoProcess
      else if fr_direction r \<noteq> Sent \<and> fr_direction r \<noteq> Received then Some BadDirection
      else if fr_length r = 0 then Some NothingTransferred
      else if length (fr_payload r) > fr_length r then Some KeptMoreThanTransferred
      else if fr_at r = None then Some NoCaptureTime
      else if \<not> evidence_taken (fr_evidence r) then None
      else case evidence_validate (fr_evidence r) of
             Some err \<Rightarrow> Some err
           | None \<Rightarrow>
               (case ev_identity (fr_evidence r) of
                  None \<Rightarrow> Some NoIdentity
                | Some i \<Rightarrow>
                    if id_connection i \<noteq> fr_connection r \<or> id_process i \<noteq> fr_process r
                    then Some EvidenceOfAnother
                    else if ev_through (fr_evidence r) \<noteq> fr_sequence r
                    then Some EvidenceThroughAnother
                    else None))"

definition record_evidenced :: "fragment_record \<Rightarrow> fragment_error option" where
  "record_evidenced r =
     (case record_validate r of
        Some err \<Rightarrow> Some err
      | None \<Rightarrow>
          (let e = fr_evidence r; own = evidence_of e (fr_direction r)
           in if \<not> evidence_taken e then Some CarriesNoEvidence
              else if de_limit own \<noteq> record_end r then Some EndNotLimit
              else if de_empties own \<noteq> 0 then Some EmptiesAfterIt
              else if fr_produced r = 0 \<and> (\<not> de_cut own \<or> de_from own > fr_offset r)
              then Some UnnumberedEstablished
              else if fr_produced r \<noteq> 0 \<and> de_numbered own < fr_produced r
              then Some NumberedShort
              else if fr_produced r \<noteq> 0 \<and> \<not> de_cut own \<and> de_resolved own \<noteq> fr_produced r
              then Some UncutResolvesElsewhere
              else None))"

text \<open>The values the Go types of a record's positions can hold.\<close>

definition record_typed :: "fragment_record \<Rightarrow> bool" where
  "record_typed r \<longleftrightarrow>
     fr_offset r < two64 \<and> fr_length r < 2 ^ 32 \<and> fr_sequence r < two64"

section \<open>The order of streams\<close>

text \<open>
  \<open>less\<close> of \<open>stream.go\<close> orders streams by process number, start time, connection and
  direction.  It is a linear order, so the library's sorting applies to it.
\<close>

definition direction_rank :: "direction \<Rightarrow> nat" where
  "direction_rank d = (case d of Unknown \<Rightarrow> 0 | Sent \<Rightarrow> 1 | Received \<Rightarrow> 2)"

definition key_less :: "stream_key \<Rightarrow> stream_key \<Rightarrow> bool" where
  "key_less a b =
     (if PID (Key_Process a) \<noteq> PID (Key_Process b)
      then PID (Key_Process a) < PID (Key_Process b)
      else if StartTime (Key_Process a) \<noteq> StartTime (Key_Process b)
      then StartTime (Key_Process a) < StartTime (Key_Process b)
      else if Key_Connection a \<noteq> Key_Connection b
      then Key_Connection a < Key_Connection b
      else direction_rank (Key_Direction a) < direction_rank (Key_Direction b))"

lemma direction_rank_inj: "direction_rank a = direction_rank b \<longleftrightarrow> a = b"
  by (cases a; cases b) (simp_all add: direction_rank_def)

instantiation stream_key :: linorder
begin

definition less_stream_key :: "stream_key \<Rightarrow> stream_key \<Rightarrow> bool" where
  "less_stream_key a b = key_less a b"

definition less_eq_stream_key :: "stream_key \<Rightarrow> stream_key \<Rightarrow> bool" where
  "less_eq_stream_key a b = (a = b \<or> key_less a b)"

instance
proof
  fix x y z :: stream_key
  have eq: "x = y" if "\<not> key_less x y" "\<not> key_less y x" for x y
    using that
    by (cases x; cases y; cases "Key_Process x"; cases "Key_Process y")
      (auto simp: key_less_def direction_rank_inj split: if_splits)
  have trans: "key_less x z" if "key_less x y" "key_less y z"
    using that by (auto simp: key_less_def split: if_splits)
  have asym: "\<not> key_less y x" if "key_less x y" for x y
    using that by (auto simp: key_less_def split: if_splits)
  show "(x < y) = (x \<le> y \<and> \<not> y \<le> x)"
    using asym by (auto simp: less_stream_key_def less_eq_stream_key_def)
  show "x \<le> x"
    by (simp add: less_eq_stream_key_def)
  show "x \<le> y \<Longrightarrow> y \<le> z \<Longrightarrow> x \<le> z"
    using trans by (auto simp: less_eq_stream_key_def)
  show "x \<le> y \<Longrightarrow> y \<le> x \<Longrightarrow> x = y"
    using asym by (auto simp: less_eq_stream_key_def)
  show "x \<le> y \<or> y \<le> x"
    using eq by (auto simp: less_eq_stream_key_def)
qed

end

section \<open>What a valid record establishes\<close>

lemma record_validate_ok:
  assumes "record_validate r = None"
  shows "0 < PID (fr_process r)" "fr_direction r = Sent \<or> fr_direction r = Received"
    "0 < fr_length r" "length (fr_payload r) \<le> fr_length r" "fr_at r \<noteq> None"
  using assms by (auto simp: record_validate_def split: if_splits)

lemma direction_validate_uncut:
  assumes "direction_validate d = None" "\<not> de_cut d"
  shows "de_from d = 0" "de_lost d = 0" "\<not> de_lost_uncounted d" "de_resolved d = de_numbered d"
  using assms by (auto simp: direction_validate_def split: if_splits)

lemma direction_validate_established:
  "direction_validate d = None \<Longrightarrow> direction_established d \<le> de_limit d"
  by (auto simp: direction_validate_def direction_established_def split: if_splits)

lemma evidence_validate_direction:
  assumes "evidence_validate e = None" "d = Sent \<or> d = Received"
  shows "direction_validate (evidence_of e d) = None"
  using assms
  by (auto simp: evidence_validate_def validate_direction_of_def Let_def
      split: if_splits option.splits)

lemma evidence_validate_unestablished:
  assumes "evidence_validate e = None" "d = Sent \<or> d = Received" "ev_origin e = OriginUnestablished"
  shows "direction_established (evidence_of e d) = 0"
  using assms
  by (auto simp: evidence_validate_def validate_direction_of_def Let_def direction_established_def
      split: if_splits option.splits)

end
