(* ===== verification/Reassembly.thy ===== *)
theory Reassembly
  imports Fragment "HOL-Library.Multiset"
begin

text \<open>
  Package \<open>stream\<close>, file \<open>stream.go\<close>: one direction of one connection reassembled from its
  fragments, with every offset no fragment covered, and every tail capture did not keep,
  recorded as a hole.  \<open>assemble\<close> is \<open>Assemble\<close>, \<open>one_with_duplicates\<close> is
  \<open>oneWithDuplicates\<close> with its loop body as \<open>place_record\<close>, and \<open>part_validate\<close> is
  \<open>Part.Validate\<close>.  Offsets are unsigned 64-bit and wrap as the code's do.
\<close>

datatype gap_reason = GapNone | GapMissing | GapTruncated | GapOther nat

record part =
  pt_offset :: nat
  pt_length :: nat
  pt_gap :: gap_reason
  pt_bytes :: bytes

text \<open>
  The code compares \<open>p.Offset > math.MaxUint64 - p.Length\<close>, which is the sum below without
  its wrap-around.
\<close>

datatype part_error = CoversNothing | NotAHole | WrongBytes | HoleWithBytes | PastLastOffset

definition part_validate :: "part \<Rightarrow> part_error option" where
  "part_validate p =
     (if pt_length p = 0 then Some CoversNothing
      else if (case pt_gap p of GapOther n \<Rightarrow> True | _ \<Rightarrow> False) then Some NotAHole
      else if pt_gap p = GapNone \<and> length (pt_bytes p) \<noteq> pt_length p then Some WrongBytes
      else if pt_gap p \<noteq> GapNone \<and> length (pt_bytes p) \<noteq> 0 then Some HoleWithBytes
      else if pt_offset p + pt_length p > two64 - 1 then Some PastLastOffset
      else None)"

record conflict =
  cf_offset :: nat
  cf_length :: nat

record stream =
  sm_key :: stream_key
  sm_parts :: "part list"
  sm_start :: nat
  sm_end :: nat
  sm_conflicts :: "conflict list"

definition stream_bytes :: "stream \<Rightarrow> nat" where
  "stream_bytes s =
     fold (\<lambda>p n. if pt_gap p = GapNone then add64 n (pt_length p) else n) (sm_parts s) 0"

definition stream_gaps :: "stream \<Rightarrow> nat" where
  "stream_gaps s = sub64 (sub64 (sm_end s) (sm_start s)) (stream_bytes s)"

record duplicate =
  du_index :: nat
  du_offset :: nat
  du_length :: nat
  du_agrees :: bool

record assembled =
  as_streams :: "stream list"
  as_discards :: "(nat \<times> fragment_error) list"
  as_duplicates :: "duplicate list"

definition join_gap :: "part \<Rightarrow> part \<Rightarrow> bool" where
  "join_gap last' p \<longleftrightarrow>
     pt_gap p \<noteq> GapNone \<and> pt_gap last' = pt_gap p
     \<and> add64 (pt_offset last') (pt_length last') = pt_offset p"

definition append_part :: "part list \<Rightarrow> part \<Rightarrow> part list" where
  "append_part ps p =
     (if pt_length p = 0 then ps
      else if ps \<noteq> [] \<and> join_gap (last ps) p
      then butlast ps @ [(last ps)\<lparr>pt_length := add64 (pt_length (last ps)) (pt_length p)\<rparr>]
      else ps @ [p])"

fun agrees_at :: "part list \<Rightarrow> nat \<Rightarrow> bytes \<Rightarrow> bool" where
  "agrees_at [] offset want = True"
| "agrees_at (p # ps) offset want =
     (if want = [] then True
      else if offset \<ge> add64 (pt_offset p) (pt_length p) \<or> offset < pt_offset p
      then agrees_at ps offset want
      else let within = sub64 offset (pt_offset p);
               n = min (length want) (sub64 (pt_length p) within)
           in if pt_gap p = GapNone \<and> take n (drop within (pt_bytes p)) \<noteq> take n want then False
              else agrees_at ps (add64 offset n) (drop n want))"

record placing =
  pl_parts :: "part list"
  pl_conflicts :: "conflict list"
  pl_duplicates :: "duplicate list"
  pl_next :: nat

definition overlap_of :: "nat \<Rightarrow> fragment_record \<Rightarrow> nat" where
  "overlap_of nxt r =
     sub64 (min nxt (add64 (fr_offset r) (length (fr_payload r)))) (fr_offset r)"

definition agrees_with :: "placing \<Rightarrow> fragment_record \<Rightarrow> bool" where
  "agrees_with s r =
     (if fr_offset r < pl_next s \<and> length (fr_payload r) > 0
      then let overlap = overlap_of (pl_next s) r
           in \<not> (overlap > 0 \<and>
                 \<not> agrees_at (pl_parts s) (fr_offset r) (take overlap (fr_payload r)))
      else True)"

definition place_missing :: "fragment_record \<Rightarrow> placing \<Rightarrow> placing" where
  "place_missing r s =
     (if fr_offset r > pl_next s
      then s\<lparr>pl_parts := append_part (pl_parts s)
                \<lparr>pt_offset = pl_next s, pt_length = fr_offset r - pl_next s,
                 pt_gap = GapMissing, pt_bytes = []\<rparr>,
             pl_next := fr_offset r\<rparr>
      else s)"

definition place_kept :: "fragment_record \<Rightarrow> placing \<Rightarrow> placing" where
  "place_kept r s =
     (let kept = length (fr_payload r); skip = pl_next s - fr_offset r
      in if add64 (fr_offset r) kept > pl_next s
         then s\<lparr>pl_parts := append_part (pl_parts s)
                   \<lparr>pt_offset = pl_next s, pt_length = kept - skip,
                    pt_gap = GapNone, pt_bytes = drop skip (fr_payload r)\<rparr>,
                pl_next := add64 (fr_offset r) kept\<rparr>
         else s)"

definition place_truncated :: "fragment_record \<Rightarrow> placing \<Rightarrow> placing" where
  "place_truncated r s =
     (if record_end r > pl_next s
      then s\<lparr>pl_parts := append_part (pl_parts s)
                \<lparr>pt_offset = pl_next s, pt_length = record_end r - pl_next s,
                 pt_gap = GapTruncated, pt_bytes = []\<rparr>,
             pl_next := record_end r\<rparr>
      else s)"

definition note_conflict :: "fragment_record \<Rightarrow> placing \<Rightarrow> placing" where
  "note_conflict r s =
     (if agrees_with s r then s
      else s\<lparr>pl_conflicts := pl_conflicts s @
               [\<lparr>cf_offset = fr_offset r, cf_length = overlap_of (pl_next s) r\<rparr>]\<rparr>)"

definition place_record :: "placing \<Rightarrow> fragment_record \<times> nat \<Rightarrow> placing" where
  "place_record s ri =
     (let r = fst ri; s1 = note_conflict r s
      in if record_end r \<le> pl_next s1
         then s1\<lparr>pl_duplicates := pl_duplicates s1 @
                  [\<lparr>du_index = snd ri, du_offset = fr_offset r, du_length = fr_length r,
                    du_agrees = agrees_with s r\<rparr>]\<rparr>
         else place_truncated r (place_kept r (place_missing r s1)))"

definition one_with_duplicates ::
    "stream_key \<Rightarrow> (fragment_record \<times> nat) list \<Rightarrow> stream \<times> duplicate list" where
  "one_with_duplicates key held =
     (case held of
        [] \<Rightarrow> (\<lparr>sm_key = key, sm_parts = [], sm_start = 0, sm_end = 0, sm_conflicts = []\<rparr>, [])
      | (r0, i0) # rest \<Rightarrow>
          (let s0 = \<lparr>pl_parts = [], pl_conflicts = [], pl_duplicates = [], pl_next = fr_offset r0\<rparr>;
               s = foldl place_record s0 held
           in (\<lparr>sm_key = key, sm_parts = pl_parts s, sm_start = fr_offset r0, sm_end = pl_next s,
                sm_conflicts = pl_conflicts s\<rparr>, pl_duplicates s)))"

definition discards_of :: "(fragment_record \<times> nat) list \<Rightarrow> (nat \<times> fragment_error) list" where
  "discards_of ris =
     List.map_filter (\<lambda>(r, i). map_option (\<lambda>e. (i, e)) (record_validate r)) ris"

definition placeable :: "(fragment_record \<times> nat) list \<Rightarrow> (fragment_record \<times> nat) list" where
  "placeable ris = filter (\<lambda>(r, i). record_validate r = None) ris"

definition keys_of :: "(fragment_record \<times> nat) list \<Rightarrow> stream_key list" where
  "keys_of ris = sort (remdups (map (record_stream \<circ> fst) ris))"

definition held_order :: "fragment_record \<times> nat \<Rightarrow> nat \<times> nat \<times> nat" where
  "held_order ri = (fr_offset (fst ri), fr_sequence (fst ri), snd ri)"

definition bucket :: "stream_key \<Rightarrow> (fragment_record \<times> nat) list \<Rightarrow> (fragment_record \<times> nat) list" where
  "bucket key ris = sort_key held_order (filter (\<lambda>ri. record_stream (fst ri) = key) ris)"

definition assemble :: "fragment_record list \<Rightarrow> assembled" where
  "assemble records =
     (let ris = zip records [0..<length records];
          kept = placeable ris;
          results = map (\<lambda>key. one_with_duplicates key (bucket key kept)) (keys_of kept)
      in \<lparr>as_streams = map fst results,
          as_discards = discards_of ris,
          as_duplicates = concat (map snd results)\<rparr>)"

section \<open>Parts that tile an extent\<close>

text \<open>
  \<open>tiles a ps b\<close>: the parts follow one another from offset \<open>a\<close> to offset \<open>b\<close> with no
  overlap and no space.  \<open>cell_at\<close> is what a run of parts says about one offset.
\<close>

fun tiles :: "nat \<Rightarrow> part list \<Rightarrow> nat \<Rightarrow> bool" where
  "tiles a [] b \<longleftrightarrow> a = b"
| "tiles a (p # ps) b \<longleftrightarrow> pt_offset p = a \<and> tiles (a + pt_length p) ps b"

datatype cell = Carried byte | Hole gap_reason

definition part_cell :: "part \<Rightarrow> nat \<Rightarrow> cell" where
  "part_cell p i =
     (if pt_gap p = GapNone then Carried (pt_bytes p ! (i - pt_offset p)) else Hole (pt_gap p))"

fun cell_at :: "part list \<Rightarrow> nat \<Rightarrow> cell option" where
  "cell_at [] i = None"
| "cell_at (p # ps) i =
     (if pt_offset p \<le> i \<and> i < pt_offset p + pt_length p then Some (part_cell p i)
      else cell_at ps i)"

abbreviation all_valid :: "part list \<Rightarrow> bool" where
  "all_valid ps \<equiv> (\<forall>p\<in>set ps. part_validate p = None)"

lemma part_validate_ok:
  "part_validate p = None \<longleftrightarrow>
     0 < pt_length p \<and> (\<forall>n. pt_gap p \<noteq> GapOther n)
     \<and> (pt_gap p = GapNone \<longrightarrow> length (pt_bytes p) = pt_length p)
     \<and> (pt_gap p \<noteq> GapNone \<longrightarrow> pt_bytes p = [])
     \<and> pt_offset p + pt_length p < two64"
  by (cases "pt_gap p") (auto simp: part_validate_def split: if_splits)

lemma tiles_le: "tiles a ps b \<Longrightarrow> a \<le> b"
  by (induction ps arbitrary: a) fastforce+

lemma tiles_append: "tiles a (ps @ qs) c \<longleftrightarrow> (\<exists>b. tiles a ps b \<and> tiles b qs c)"
  by (induction ps arbitrary: a) auto

lemma tiles_snoc: "tiles a (ps @ [p]) b \<longleftrightarrow> tiles a ps (pt_offset p) \<and> b = pt_offset p + pt_length p"
  by (auto simp: tiles_append)

lemma cell_at_append:
  "cell_at (ps @ qs) i = (case cell_at ps i of Some c \<Rightarrow> Some c | None \<Rightarrow> cell_at qs i)"
  by (induction ps) auto

lemma cell_at_None: "tiles a ps b \<Longrightarrow> cell_at ps i = None \<longleftrightarrow> i < a \<or> b \<le> i"
proof (induction ps arbitrary: a)
  case (Cons p ps)
  then have t: "tiles (a + pt_length p) ps b" and "pt_offset p = a" by auto
  with Cons.IH [OF t] tiles_le [OF t] show ?case by auto
qed auto

lemma cell_at_covered: "tiles a ps b \<Longrightarrow> a \<le> i \<Longrightarrow> i < b \<Longrightarrow> \<exists>c. cell_at ps i = Some c"
  by (cases "cell_at ps i") (auto simp: cell_at_None)

lemma tiles_total: "tiles a ps b \<Longrightarrow> b = a + sum_list (map pt_length ps)"
  by (induction ps arbitrary: a) (fastforce simp: add.assoc)+

section \<open>Adding a part\<close>

lemma append_part_cases:
  obtains (none) "pt_length p = 0" "append_part ps p = ps"
  | (joined) qs q where "pt_length p \<noteq> 0" "ps = qs @ [q]" "join_gap q p"
      "append_part ps p = qs @ [q\<lparr>pt_length := add64 (pt_length q) (pt_length p)\<rparr>]"
  | (added) "pt_length p \<noteq> 0" "append_part ps p = ps @ [p]"
proof (cases "pt_length p = 0")
  case True
  then show thesis by (intro none) (auto simp: append_part_def)
next
  case False
  show thesis
  proof (cases "ps \<noteq> [] \<and> join_gap (last ps) p")
    case True
    with False joined [of "butlast ps" "last ps"] show thesis
      by (simp add: append_part_def)
  next
    case join: False
    with False added show thesis by (auto simp: append_part_def)
  qed
qed

lemma append_part_tiles:
  assumes "tiles a ps b" "all_valid ps" "pt_offset p = b" "b + pt_length p < two64"
  shows "tiles a (append_part ps p) (b + pt_length p)"
proof (cases rule: append_part_cases [of p ps])
  case (joined qs q)
  with assms show ?thesis by (auto simp: tiles_snoc add64_fits part_validate_ok)
qed (use assms in \<open>auto simp: tiles_append\<close>)

lemma append_part_valid:
  assumes "tiles a ps b" "all_valid ps" "pt_offset p = b"
    and "pt_length p = 0 \<or> part_validate p = None"
  shows "all_valid (append_part ps p)"
proof (cases rule: append_part_cases [of p ps])
  case (joined qs q)
  with assms show ?thesis
    by (auto simp: tiles_snoc add64_fits part_validate_ok join_gap_def)
qed (use assms in auto)

lemma append_part_cell:
  assumes t: "tiles a ps b" and v: "all_valid ps" and o: "pt_offset p = b"
    and p: "pt_length p = 0 \<or> part_validate p = None" and i: "a \<le> i"
  shows "cell_at (append_part ps p) i =
     (if i < b then cell_at ps i else if i < b + pt_length p then Some (part_cell p i) else None)"
proof (cases rule: append_part_cases [of p ps])
  case none
  with t i show ?thesis by (auto simp: cell_at_None)
next
  case added
  with t i o cell_at_None [OF t, of i] show ?thesis
    by (cases "cell_at ps i") (auto simp: cell_at_append)
next
  case (joined qs q)
  with t v o p have q: "tiles a qs (pt_offset q)" "b = pt_offset q + pt_length q"
      "add64 (pt_length q) (pt_length p) = pt_length q + pt_length p"
    and g: "pt_gap q = pt_gap p" "pt_gap p \<noteq> GapNone"
    by (auto simp: tiles_snoc add64_fits part_validate_ok join_gap_def)
  show ?thesis
  proof (cases "cell_at qs i")
    case None
    with q i have "pt_offset q \<le> i" by (auto simp: cell_at_None)
    with None q g joined(2,4) show ?thesis by (auto simp: cell_at_append part_cell_def)
  next
    case (Some c)
    with q i cell_at_None [OF q(1), of i] have "i < b" by auto
    with Some q joined(2,4) show ?thesis by (simp add: cell_at_append)
  qed
qed

section \<open>Placing a record\<close>

definition placed :: "nat \<Rightarrow> placing \<Rightarrow> bool" where
  "placed a s \<longleftrightarrow> tiles a (pl_parts s) (pl_next s) \<and> all_valid (pl_parts s) \<and> pl_next s < two64"

lemma note_conflict_frame [simp]:
  "pl_parts (note_conflict r s) = pl_parts s" "pl_next (note_conflict r s) = pl_next s"
  "pl_duplicates (note_conflict r s) = pl_duplicates s"
  by (simp_all add: note_conflict_def)

lemma placed_note_conflict [simp]: "placed a (note_conflict r s) = placed a s"
  by (simp add: placed_def)

text \<open>Each of the three ways a record extends the stream, as one extension by one part.\<close>

lemma placed_extend:
  assumes "placed a s" "pt_offset p = pl_next s" "part_validate p = None"
    and "pl_parts s' = append_part (pl_parts s) p" "pl_next s' = pl_next s + pt_length p"
  shows "placed a s'"
    and "a \<le> i \<Longrightarrow> cell_at (pl_parts s') i =
           (if i < pl_next s then cell_at (pl_parts s) i
            else if i < pl_next s' then Some (part_cell p i) else None)"
proof -
  have p: "pl_next s + pt_length p < two64"
    using assms(2,3) by (simp add: part_validate_ok)
  with assms append_part_valid [of a "pl_parts s" "pl_next s" p] show "placed a s'"
    by (auto simp: placed_def intro: append_part_tiles)
  show "a \<le> i \<Longrightarrow> cell_at (pl_parts s') i =
           (if i < pl_next s then cell_at (pl_parts s) i
            else if i < pl_next s' then Some (part_cell p i) else None)"
    using assms append_part_cell [of a "pl_parts s" "pl_next s" p i]
    by (simp add: placed_def)
qed

lemma place_missing_step:
  assumes "placed a s" "fr_offset r < two64"
  shows "placed a (place_missing r s)"
    and "pl_next (place_missing r s) = max (pl_next s) (fr_offset r)"
    and "a \<le> i \<Longrightarrow> i < pl_next (place_missing r s) \<Longrightarrow>
           cell_at (pl_parts (place_missing r s)) i =
           (if i < pl_next s then cell_at (pl_parts s) i else Some (Hole GapMissing))"
proof -
  let ?p = "\<lparr>pt_offset = pl_next s, pt_length = fr_offset r - pl_next s,
             pt_gap = GapMissing, pt_bytes = []\<rparr>"
  have v: "part_validate ?p = None" if "pl_next s < fr_offset r"
    using that assms(2) by (simp add: part_validate_ok)
  note ext = placed_extend [OF assms(1), of ?p "place_missing r s"]
  show next': "pl_next (place_missing r s) = max (pl_next s) (fr_offset r)"
    by (auto simp: place_missing_def)
  show "placed a (place_missing r s)"
    using ext(1) v assms(1) by (cases "pl_next s < fr_offset r") (auto simp: place_missing_def)
  show "a \<le> i \<Longrightarrow> i < pl_next (place_missing r s) \<Longrightarrow>
           cell_at (pl_parts (place_missing r s)) i =
           (if i < pl_next s then cell_at (pl_parts s) i else Some (Hole GapMissing))"
    using ext(2) v
    by (cases "pl_next s < fr_offset r") (auto simp: place_missing_def part_cell_def)
qed

lemma place_kept_step:
  assumes "placed a s" "fr_offset r \<le> pl_next s" "fr_offset r < two64" "length (fr_payload r) < two64"
  shows "placed a (place_kept r s)"
    and "pl_next (place_kept r s) = max (pl_next s) (add64 (fr_offset r) (length (fr_payload r)))"
    and "a \<le> i \<Longrightarrow> i < pl_next (place_kept r s) \<Longrightarrow>
           cell_at (pl_parts (place_kept r s)) i =
           (if i < pl_next s then cell_at (pl_parts s) i
            else Some (Carried (fr_payload r ! (i - fr_offset r))))"
proof -
  let ?kept = "length (fr_payload r)" and ?skip = "pl_next s - fr_offset r"
  let ?p = "\<lparr>pt_offset = pl_next s, pt_length = ?kept - ?skip,
             pt_gap = GapNone, pt_bytes = drop ?skip (fr_payload r)\<rparr>"
  have fits: "add64 (fr_offset r) ?kept = fr_offset r + ?kept" "fr_offset r + ?kept < two64"
    if "pl_next s < add64 (fr_offset r) ?kept"
    using assms(2-4) that add64_cases [OF assms(3,4)] by fastforce+
  have v: "part_validate ?p = None" if "pl_next s < add64 (fr_offset r) ?kept"
    using fits [OF that] that assms(2) by (simp add: part_validate_ok)
  note ext = placed_extend [OF assms(1), of ?p "place_kept r s"]
  show next': "pl_next (place_kept r s) = max (pl_next s) (add64 (fr_offset r) ?kept)"
    by (auto simp: place_kept_def Let_def)
  show "placed a (place_kept r s)"
    using ext(1) v fits assms(1,2)
    by (cases "pl_next s < add64 (fr_offset r) ?kept") (auto simp: place_kept_def Let_def)
  show "a \<le> i \<Longrightarrow> i < pl_next (place_kept r s) \<Longrightarrow>
           cell_at (pl_parts (place_kept r s)) i =
           (if i < pl_next s then cell_at (pl_parts s) i
            else Some (Carried (fr_payload r ! (i - fr_offset r))))"
    using ext(2) v fits assms(2)
    by (cases "pl_next s < add64 (fr_offset r) ?kept")
      (auto simp: place_kept_def Let_def part_cell_def)
qed

lemma place_truncated_step:
  assumes "placed a s"
  shows "placed a (place_truncated r s)"
    and "pl_next (place_truncated r s) = max (pl_next s) (record_end r)"
    and "a \<le> i \<Longrightarrow> i < pl_next (place_truncated r s) \<Longrightarrow>
           cell_at (pl_parts (place_truncated r s)) i =
           (if i < pl_next s then cell_at (pl_parts s) i else Some (Hole GapTruncated))"
proof -
  let ?p = "\<lparr>pt_offset = pl_next s, pt_length = record_end r - pl_next s,
             pt_gap = GapTruncated, pt_bytes = []\<rparr>"
  have v: "part_validate ?p = None" if "pl_next s < record_end r"
    using that add64_less by (simp add: part_validate_ok record_end_def)
  note ext = placed_extend [OF assms(1), of ?p "place_truncated r s"]
  show next': "pl_next (place_truncated r s) = max (pl_next s) (record_end r)"
    by (auto simp: place_truncated_def)
  show "placed a (place_truncated r s)"
    using ext(1) v assms(1) by (cases "pl_next s < record_end r") (auto simp: place_truncated_def)
  show "a \<le> i \<Longrightarrow> i < pl_next (place_truncated r s) \<Longrightarrow>
           cell_at (pl_parts (place_truncated r s)) i =
           (if i < pl_next s then cell_at (pl_parts s) i else Some (Hole GapTruncated))"
    using ext(2) v
    by (cases "pl_next s < record_end r") (auto simp: place_truncated_def part_cell_def)
qed

lemma placed_duplicates_update [simp]: "placed a (s\<lparr>pl_duplicates := d\<rparr>) = placed a s"
  by (simp add: placed_def)

lemma place_record_placed [wf_intros]:
  assumes "placed a s" "record_typed (fst ri)" "length (fr_payload (fst ri)) \<le> fr_length (fst ri)"
  shows "placed a (place_record s ri)"
proof -
  let ?r = "fst ri"
  have o: "fr_offset ?r < two64" and l: "length (fr_payload ?r) < two64"
    using assms(2,3) by (auto simp: record_typed_def)
  have "placed a (place_missing ?r (note_conflict ?r s))"
    using assms(1) o by (simp add: place_missing_step(1))
  moreover have "fr_offset ?r \<le> pl_next (place_missing ?r (note_conflict ?r s))"
    using assms(1) o by (simp add: place_missing_step(2))
  ultimately show ?thesis
    using assms(1) o l
    by (simp add: place_record_def Let_def place_truncated_step(1) place_kept_step(1))
qed

section \<open>The reference reading of a stream\<close>




definition record_fits :: "fragment_record \<Rightarrow> bool" where
  "record_fits r \<longleftrightarrow>
     length (fr_payload r) \<le> fr_length r \<and> fr_offset r + fr_length r < two64"

lemma record_end_fits: "record_fits r \<Longrightarrow> record_end r = fr_offset r + fr_length r"
  by (simp add: record_fits_def record_end_def add64_fits)






lemma placed_init: "a < two64 \<Longrightarrow>
    placed a \<lparr>pl_parts = [], pl_conflicts = [], pl_duplicates = [], pl_next = a\<rparr>"
  by (simp add: placed_def)

lemma placed_fold:
  assumes "placed a s"
    and "\<forall>ri\<in>set ris. record_typed (fst ri) \<and> length (fr_payload (fst ri)) \<le> fr_length (fst ri)"
  shows "placed a (foldl place_record s ris)"
  using assms by (induction ris arbitrary: s) (auto intro: wf_intros)

section \<open>Buckets\<close>

definition indexed :: "fragment_record list \<Rightarrow> (fragment_record \<times> nat) list" where
  "indexed records = zip records [0..<length records]"

definition stream_records :: "fragment_record list \<Rightarrow> stream_key \<Rightarrow> fragment_record list" where
  "stream_records records key = map fst (bucket key (placeable (indexed records)))"



lemma bucket_elem:
  "ri \<in> set (bucket key (placeable (indexed records))) \<Longrightarrow>
     fst ri \<in> set records \<and> record_validate (fst ri) = None \<and> record_stream (fst ri) = key"
  by (auto simp: bucket_def placeable_def indexed_def dest: set_zip_leftD)

lemma stream_of_assemble:
  assumes "s \<in> set (as_streams (assemble records))"
  obtains r0 i0 rest where "bucket (sm_key s) (placeable (indexed records)) = (r0, i0) # rest"
    "s = fst (one_with_duplicates (sm_key s) ((r0, i0) # rest))"
proof -
  from assms obtain key where key: "key \<in> set (keys_of (placeable (indexed records)))"
    and s: "s = fst (one_with_duplicates key (bucket key (placeable (indexed records))))"
    by (auto simp: assemble_def indexed_def Let_def)
  then have k: "sm_key s = key"
    by (auto simp: one_with_duplicates_def Let_def split: list.splits)
  from key have "bucket key (placeable (indexed records)) \<noteq> []"
    by (fastforce simp: keys_of_def bucket_def simp flip: set_empty)
  then obtain ri rest where "bucket key (placeable (indexed records)) = ri # rest"
    by (meson list.exhaust)
  then show thesis
    using that [of "fst ri" "snd ri" rest] s k by simp
qed

lemma one_with_duplicates_stream:
  "sm_parts (fst (one_with_duplicates key ((r0, i0) # rest))) =
     pl_parts (foldl place_record
       \<lparr>pl_parts = [], pl_conflicts = [], pl_duplicates = [], pl_next = fr_offset r0\<rparr> ((r0, i0) # rest))"
  "sm_end (fst (one_with_duplicates key ((r0, i0) # rest))) =
     pl_next (foldl place_record
       \<lparr>pl_parts = [], pl_conflicts = [], pl_duplicates = [], pl_next = fr_offset r0\<rparr> ((r0, i0) # rest))"
  "sm_start (fst (one_with_duplicates key ((r0, i0) # rest))) = fr_offset r0"
  by (simp_all add: one_with_duplicates_def Let_def)

lemma assemble_tiles:
  assumes typed: "\<forall>r\<in>set records. record_typed r" and s: "s \<in> set (as_streams (assemble records))"
  shows "all_valid (sm_parts s)" "tiles (sm_start s) (sm_parts s) (sm_end s)" "sm_end s < two64"
proof -
  from s obtain r0 i0 rest where b: "bucket (sm_key s) (placeable (indexed records)) = (r0, i0) # rest"
    and eq: "s = fst (one_with_duplicates (sm_key s) ((r0, i0) # rest))"
    by (rule stream_of_assemble)
  let ?s0 = "\<lparr>pl_parts = [], pl_conflicts = [], pl_duplicates = [], pl_next = fr_offset r0\<rparr>"
  have ok: "record_typed (fst ri) \<and> length (fr_payload (fst ri)) \<le> fr_length (fst ri)"
    if "ri \<in> set ((r0, i0) # rest)" for ri
    using bucket_elem [of ri "sm_key s" records] that typed record_validate_ok(4) unfolding b by blast
  then have "fr_offset r0 < two64" by (force simp: record_typed_def)
  then have "placed (fr_offset r0) (foldl place_record ?s0 ((r0, i0) # rest))"
    using ok by (intro placed_fold placed_init) auto
  moreover define t where "t = foldl place_record ?s0 ((r0, i0) # rest)"
  moreover have "sm_parts s = pl_parts t" "sm_end s = pl_next t" "sm_start s = fr_offset r0"
    using one_with_duplicates_stream [of "sm_key s" r0 i0 rest, folded eq] unfolding t_def by auto
  ultimately show "all_valid (sm_parts s)" "tiles (sm_start s) (sm_parts s) (sm_end s)" "sm_end s < two64"
    unfolding placed_def by metis+
qed

lemma stream_bytes_fold:
  assumes "tiles a ps b" "b < two64" "m + (b - a) < two64"
  shows "fold (\<lambda>p n. if pt_gap p = GapNone then add64 n (pt_length p) else n) ps m =
     m + sum_list (map pt_length (filter (\<lambda>p. pt_gap p = GapNone) ps))"
  using assms
proof (induction ps arbitrary: a m)
  case (Cons p ps)
  then have t: "tiles (a + pt_length p) ps b" by simp
  with tiles_le [OF t] Cons.prems
  have "m + pt_length p + (b - (a + pt_length p)) < two64" "m + (b - (a + pt_length p)) < two64"
    by auto
  with Cons.IH [OF t Cons.prems(2)] show ?case
    by (auto simp: add64_fits)
qed simp

lemma sum_list_split:
  "sum_list (map pt_length ps) =
     sum_list (map pt_length (filter (\<lambda>p. pt_gap p = GapNone) ps))
     + sum_list (map pt_length (filter (\<lambda>p. pt_gap p \<noteq> GapNone) ps))"
  by (induction ps) auto

section \<open>Independence of arrival order\<close>

text \<open>
  The position of a record in the input is reported with a duplicate and breaks ties; it
  never reaches the stream itself.
\<close>

definition same_stream :: "placing \<Rightarrow> placing \<Rightarrow> bool" where
  "same_stream s t \<longleftrightarrow> pl_parts s = pl_parts t \<and> pl_conflicts s = pl_conflicts t \<and> pl_next s = pl_next t"

lemma place_record_same:
  assumes "same_stream s t" "fst ri = fst rj"
  shows "same_stream (place_record s ri) (place_record t rj)"
  using assms
  by (auto simp: same_stream_def place_record_def note_conflict_def agrees_with_def place_missing_def
      place_kept_def place_truncated_def Let_def)

lemma place_fold_same:
  "same_stream s t \<Longrightarrow> map fst ris = map fst rjs \<Longrightarrow>
     same_stream (foldl place_record s ris) (foldl place_record t rjs)"
proof (induction ris arbitrary: s t rjs)
  case (Cons ri ris)
  then obtain rj rjs' where "rjs = rj # rjs'" by (cases rjs) auto
  with Cons show ?case by (auto intro: place_record_same)
qed simp

lemma one_with_duplicates_same:
  assumes "map fst ris = map fst rjs"
  shows "fst (one_with_duplicates key ris) = fst (one_with_duplicates key rjs)"
proof (cases ris)
  case Nil
  with assms show ?thesis by simp
next
  case (Cons ri ris')
  with assms obtain rj rjs' where rjs: "rjs = rj # rjs'" "fst rj = fst ri" by (cases rjs) auto
  define s0 where
    "s0 = \<lparr>pl_parts = [], pl_conflicts = [], pl_duplicates = [], pl_next = fr_offset (fst ri)\<rparr>"
  have "same_stream (foldl place_record s0 ris) (foldl place_record s0 rjs)"
    using assms by (intro place_fold_same) (simp_all add: same_stream_def)
  with rjs Cons show ?thesis
    by (auto simp: one_with_duplicates_def same_stream_def Let_def s0_def split: prod.splits)
qed

lemma set_placeable: "set (map fst (placeable (indexed rs))) = {r \<in> set rs. record_validate r = None}"
  by (force simp: placeable_def indexed_def in_set_zip in_set_conv_nth)

lemma map_fst_filter: "map fst (filter (\<lambda>ri. P (fst ri)) xs) = filter P (map fst xs)"
  by (induction xs) auto

lemma map_fst_placeable: "map fst (placeable (indexed rs)) = filter (\<lambda>r. record_validate r = None) rs"
proof -
  have "map fst (indexed rs) = rs" by (simp add: indexed_def)
  then show ?thesis
    using map_fst_filter [of "\<lambda>r. record_validate r = None" "indexed rs"]
    by (simp add: placeable_def case_prod_beta')
qed

definition position :: "fragment_record \<Rightarrow> nat \<times> nat" where
  "position r = (fr_offset r, fr_sequence r)"

lemma stream_records_mset:
  "mset (stream_records rs key) =
     mset (filter (\<lambda>r. record_stream r = key) (filter (\<lambda>r. record_validate r = None) rs))"
  by (simp add: stream_records_def bucket_def flip: map_fst_placeable map_fst_filter)

lemma stream_records_sorted: "sorted (map position (stream_records rs key))"
proof -
  have "sorted (map held_order ris) \<Longrightarrow> sorted (map (position \<circ> fst) ris)" for ris
    by (induction ris) (auto simp: held_order_def position_def)
  moreover have "sorted (map held_order (bucket key (placeable (indexed rs))))"
    by (simp add: bucket_def)
  ultimately show ?thesis by (simp add: stream_records_def)
qed

text \<open>Ties on offset and sequence number go to the earlier record: a stable sort of the records by position.\<close>

lemma sort_by_index:
  assumes "sorted_wrt (<) (map snd ris)"
  shows "map fst (sort_key held_order ris) = sort_key position (map fst ris)"
  using assms
proof (induction ris)
  case (Cons ri ris)
  have same: "insort_key held_order ri zs = insort_key (position \<circ> fst) ri zs" if "\<forall>z\<in>set zs. snd ri < snd z" for zs
    using that by (induction zs) (auto simp: held_order_def position_def)
  have unzip: "map fst (insort_key (position \<circ> fst) ri zs) = insort_key position (fst ri) (map fst zs)" for zs
    by (induction zs) auto
  from Cons have "\<forall>z\<in>set (sort_key held_order ris). snd ri < snd z" by auto
  from same [OF this] unzip Cons show ?case by simp
qed simp

lemma stream_records_sort:
  "stream_records rs key = sort_key position (filter (\<lambda>r. record_stream r = key) (filter (\<lambda>r. record_validate r = None) rs))"
proof -
  let ?ris = "filter (\<lambda>ri. record_stream (fst ri) = key) (placeable (indexed rs))"
  have "sorted_wrt (<) (map snd (indexed rs))" by (simp add: indexed_def)
  then have "sorted_wrt (\<lambda>x y. snd x < snd y) (indexed rs)" by (simp add: sorted_wrt_map)
  then have "sorted_wrt (\<lambda>x y. snd x < snd y) ?ris" by (simp add: placeable_def sorted_wrt_filter)
  then have "map fst (sort_key held_order ?ris) = sort_key position (map fst ?ris)"
    by (intro sort_by_index) (simp add: sorted_wrt_map)
  then show ?thesis
    using map_fst_filter [of "\<lambda>r. record_stream r = key" "placeable (indexed rs)"]
    by (simp add: stream_records_def bucket_def map_fst_placeable)
qed

lemma sort_key_same_ties:
  assumes "mset xs = mset ys" "\<And>k. filter (\<lambda>x. f x = k) xs = filter (\<lambda>x. f x = k) ys"
  shows "sort_key f xs = sort_key f ys"
proof (rule properties_for_sort_key)
  have sym: "(\<lambda>x. f k = f x) = (\<lambda>x. f x = f k)" for k by auto
  show "filter (\<lambda>x. f k = f x) (sort_key f ys) = filter (\<lambda>x. f k = f x) xs" for k
    unfolding sym assms(2) by (rule sort_key_stable)
qed (use assms(1) in simp_all)

lemma stream_records_perm:
  assumes "mset rs = mset rs'"
    and "\<And>r. filter (\<lambda>q. record_validate q = None \<and> record_stream q = record_stream r \<and> position q = position r) rs =
        filter (\<lambda>q. record_validate q = None \<and> record_stream q = record_stream r \<and> position q = position r) rs'"
  shows "stream_records rs key = stream_records rs' key"
  unfolding stream_records_sort
proof (rule sort_key_same_ties)
  fix k
  let ?tie = "\<lambda>q. record_validate q = None \<and> record_stream q = key \<and> position q = k"
  have "filter ?tie rs = filter ?tie rs'"
  proof (cases "\<exists>r \<in> set rs. record_stream r = key \<and> position r = k")
    case True
    then show ?thesis using assms(2) by auto
  next
    case False
    moreover have "set rs = set rs'" using assms(1) by (rule mset_eq_setD)
    ultimately show ?thesis by (auto simp: filter_empty_conv intro: trans [of _ "[]"])
  qed
  then show "filter (\<lambda>r. position r = k) (filter (\<lambda>r. record_stream r = key) (filter (\<lambda>r. record_validate r = None) rs)) =
      filter (\<lambda>r. position r = k) (filter (\<lambda>r. record_stream r = key) (filter (\<lambda>r. record_validate r = None) rs'))"
    by (simp add: conj_ac)
qed (simp add: assms(1))

lemma assemble_streams_alt:
  "as_streams (assemble rs) =
     map (\<lambda>key. fst (one_with_duplicates key (bucket key (placeable (indexed rs)))))
       (sorted_list_of_set (record_stream ` {r \<in> set rs. record_validate r = None}))"
proof -
  have "keys_of (placeable (indexed rs)) =
      sorted_list_of_set (set (map (record_stream \<circ> fst) (placeable (indexed rs))))"
    unfolding keys_of_def by (rule sorted_list_of_set_sort_remdups [symmetric])
  also have "set (map (record_stream \<circ> fst) (placeable (indexed rs))) =
      record_stream ` {r \<in> set rs. record_validate r = None}"
    using set_placeable [of rs] by (metis image_set list.map_comp)
  finally show ?thesis
    by (simp add: assemble_def indexed_def Let_def comp_def)
qed

section \<open>Properties\<close>

text \<open>A fragment with given position and payload, for evaluating the definitions.\<close>

definition sample_fragment :: "nat \<Rightarrow> nat \<Rightarrow> nat \<Rightarrow> bytes \<Rightarrow> fragment_record" where
  "sample_fragment sequence offset len payload =
     \<lparr>fr_process = Process 7 1, fr_connection = 1, fr_direction = Sent, fr_sequence = sequence,
      fr_offset = offset, fr_length = len, fr_produced = sequence, fr_empties = 0,
      fr_payload = payload, fr_at = Some 0, fr_slot = None, fr_loss = None,
      fr_evidence = no_evidence\<rparr>"

definition sample_capture :: "fragment_record list" where
  "sample_capture =
     [sample_fragment 3 10 4 ''wxyz'', sample_fragment 1 0 3 ''abc'', sample_fragment 2 2 4 ''cde'']"

definition sample_stream :: stream where
  "sample_stream =
     \<lparr>sm_key = StreamKey (Process 7 1) 1 Sent,
      sm_parts =
        [\<lparr>pt_offset = 0, pt_length = 3, pt_gap = GapNone, pt_bytes = ''abc''\<rparr>,
         \<lparr>pt_offset = 3, pt_length = 2, pt_gap = GapNone, pt_bytes = ''de''\<rparr>,
         \<lparr>pt_offset = 5, pt_length = 1, pt_gap = GapTruncated, pt_bytes = []\<rparr>,
         \<lparr>pt_offset = 6, pt_length = 4, pt_gap = GapMissing, pt_bytes = []\<rparr>,
         \<lparr>pt_offset = 10, pt_length = 4, pt_gap = GapNone, pt_bytes = ''wxyz''\<rparr>],
      sm_start = 0, sm_end = 14, sm_conflicts = []\<rparr>"

lemma sample_typed: "\<forall>r\<in>set sample_capture. record_typed r"
  by (simp add: sample_capture_def sample_fragment_def record_typed_def)

lemmas assemble_evals =
  assemble_def placeable_def keys_of_def bucket_def held_order_def record_stream_def
  record_validate_def evidence_taken_def no_evidence_def one_with_duplicates_def place_record_def
  note_conflict_def agrees_with_def overlap_of_def place_missing_def place_kept_def
  place_truncated_def append_part_def join_gap_def record_end_def add64_def sub64_def discards_of_def

lemma sample_assembled: "as_streams (assemble sample_capture) = [sample_stream]"
  by (simp add: assemble_evals sample_capture_def sample_fragment_def sample_stream_def upt_rec
      sort_key_def)

text \<open>
  C17: however the fragments of a capture overlap, repeat, leave holes or run past the last
  offset, every part of every stream \<open>Assemble\<close> returns passes \<open>Part.Validate\<close>, and a
  stream's parts follow one another from its start to its end with no overlap and no
  space.
\<close>

theorem assemble_parts_cover:
  assumes "\<forall>r\<in>set records. record_typed r" "s \<in> set (as_streams (assemble records))"
  shows "(\<forall>p\<in>set (sm_parts s). part_validate p = None) \<and>
     tiles (sm_start s) (sm_parts s) (sm_end s) \<and> sm_end s < two64"
  using assemble_tiles [OF assms] by blast

theorem assemble_parts_cover_witness:
  "sample_stream \<in> set (as_streams (assemble sample_capture)) \<and>
   tiles 0 (sm_parts sample_stream) 14"
proof -
  have s: "sample_stream \<in> set (as_streams (assemble sample_capture))"
    by (simp add: sample_assembled)
  show ?thesis
    using s assemble_parts_cover [OF sample_typed s] by (simp add: sample_stream_def)
qed



text \<open>
  the counts a stream reports are exact and never wrap: \<open>Bytes\<close> is the total length of
  the parts that carry bytes, \<open>Gaps\<close> the total length of the holes, and together they are
  the stream's extent.
\<close>

theorem stream_counts_exact:
  assumes "\<forall>r\<in>set records. record_typed r" "s \<in> set (as_streams (assemble records))"
  shows "stream_bytes s = sum_list (map pt_length (filter (\<lambda>p. pt_gap p = GapNone) (sm_parts s))) \<and>
    stream_gaps s = sum_list (map pt_length (filter (\<lambda>p. pt_gap p \<noteq> GapNone) (sm_parts s))) \<and>
    stream_bytes s + stream_gaps s = sm_end s - sm_start s"
proof -
  note t = assemble_tiles [OF assms]
  have le: "sm_start s \<le> sm_end s" using t(2) by (rule tiles_le)
  then have bytes: "stream_bytes s =
      sum_list (map pt_length (filter (\<lambda>p. pt_gap p = GapNone) (sm_parts s)))"
    using stream_bytes_fold [OF t(2,3), of 0] t(3) by (simp add: stream_bytes_def)
  have total: "sm_end s - sm_start s = stream_bytes s
      + sum_list (map pt_length (filter (\<lambda>p. pt_gap p \<noteq> GapNone) (sm_parts s)))"
    using tiles_total [OF t(2)] sum_list_split [of "sm_parts s"] bytes by simp
  have "stream_gaps s = (sm_end s - sm_start s) - stream_bytes s"
    using le t(3) total by (simp add: stream_gaps_def sub64_fits)
  with total bytes show ?thesis by simp
qed

theorem stream_counts_exact_witness:
  "stream_bytes sample_stream = 9 \<and> stream_gaps sample_stream = 5"
proof -
  have s: "sample_stream \<in> set (as_streams (assemble sample_capture))"
    by (simp add: sample_assembled)
  show ?thesis
    using stream_counts_exact [OF sample_typed s] by (simp add: sample_stream_def)
qed

text \<open>
  C18: The streams do not depend on the order the fragments arrived in, but for the order among usable
  fragments of one stream that share both offset and sequence number, where the earlier goes first.
  Every permutation of the input that keeps the order within each such group reassembles into the same
  streams, conflicts included; where no two usable fragments of a stream share offset and sequence
  number, every permutation does.
\<close>

theorem assemble_arrival_order:
  assumes "mset rs = mset rs'"
    and "\<forall>r. filter (\<lambda>q. record_validate q = None \<and> record_stream q = record_stream r
            \<and> fr_offset q = fr_offset r \<and> fr_sequence q = fr_sequence r) rs =
        filter (\<lambda>q. record_validate q = None \<and> record_stream q = record_stream r
            \<and> fr_offset q = fr_offset r \<and> fr_sequence q = fr_sequence r) rs'"
  shows "as_streams (assemble rs) = as_streams (assemble rs')"
proof -
  have "set rs = set rs'"
    using assms(1) by (rule mset_eq_setD)
  moreover have "fst (one_with_duplicates key (bucket key (placeable (indexed rs)))) =
      fst (one_with_duplicates key (bucket key (placeable (indexed rs'))))" for key
    using stream_records_perm [OF assms(1)] assms(2)
    by (intro one_with_duplicates_same) (simp add: stream_records_def position_def)
  ultimately show ?thesis
    unfolding assemble_streams_alt by simp
qed

theorem assemble_arrival_order_witness:
  "as_streams (assemble (rev sample_capture)) = [sample_stream]"
proof -
  have "mset sample_capture = mset (rev sample_capture)" by simp
  moreover have "\<forall>r. filter (\<lambda>q. record_validate q = None \<and> record_stream q = record_stream r
        \<and> fr_offset q = fr_offset r \<and> fr_sequence q = fr_sequence r) sample_capture =
      filter (\<lambda>q. record_validate q = None \<and> record_stream q = record_stream r
        \<and> fr_offset q = fr_offset r \<and> fr_sequence q = fr_sequence r) (rev sample_capture)"
    by (auto simp: sample_capture_def sample_fragment_def)
  ultimately have "as_streams (assemble sample_capture) = as_streams (assemble (rev sample_capture))"
    by (rule assemble_arrival_order)
  then show ?thesis by (simp add: sample_assembled)
qed

end
