(* ===== verification/Reserver.thy ===== *)
theory Reserver
  imports Prelude
begin

text \<open>
  The accounting interface of package \<open>http1\<close> (\<open>parser.go\<close>): the charge for state a parser
  or a pairing retains, and the \<open>Reserver\<close> its caller supplies.  A reserver is a pair of
  operations over a state of its own, passed through every call that may use it.

  The locale \<open>accounting\<close> is the interface's contract: a measure of what the reserver has
  granted and not been given back.  The parser's conservation lemmas are proved from it
  once; \<open>unaccounted\<close> (the reserver of \<open>Parse\<close>) and \<open>ceiling\<close> (the reserver of the
  processing worker) interpret it.
\<close>

datatype charge = Charge (Bytes: int) (Messages: int)

definition charge_add :: "charge \<Rightarrow> charge \<Rightarrow> charge" where
  "charge_add a b = Charge (Bytes a + Bytes b) (Messages a + Messages b)"

instantiation charge :: ab_group_add
begin

definition zero_charge :: charge where
  "zero_charge = Charge 0 0"

definition plus_charge :: "charge \<Rightarrow> charge \<Rightarrow> charge" where
  "plus_charge = charge_add"

definition uminus_charge :: "charge \<Rightarrow> charge" where
  "uminus_charge a = Charge (- Bytes a) (- Messages a)"

definition minus_charge :: "charge \<Rightarrow> charge \<Rightarrow> charge" where
  "minus_charge a b = Charge (Bytes a - Bytes b) (Messages a - Messages b)"

instance
  by standard
    (auto simp: zero_charge_def plus_charge_def charge_add_def uminus_charge_def minus_charge_def
      intro: charge.expand)

end

definition charge_is_zero :: "charge \<Rightarrow> bool" where
  "charge_is_zero c \<longleftrightarrow> c = Charge 0 0"

record 'r reserver =
  Reserve :: "'r \<Rightarrow> charge \<Rightarrow> bool \<times> 'r"
  Release :: "'r \<Rightarrow> charge \<Rightarrow> 'r"

definition nonneg_charge :: "charge \<Rightarrow> bool" where
  "nonneg_charge c \<longleftrightarrow> 0 \<le> Bytes c \<and> 0 \<le> Messages c"

text \<open>\<open>unaccounted\<close> grants everything: its state is nothing.\<close>

definition unaccounted :: "unit reserver" where
  "unaccounted = \<lparr>Reserve = (\<lambda>r c. (True, r)), Release = (\<lambda>r c. r)\<rparr>"

lemma charge_sel_simps [simp]:
  "Bytes (a + b) = Bytes a + Bytes b" "Messages (a + b) = Messages a + Messages b"
  "Bytes (a - b) = Bytes a - Bytes b" "Messages (a - b) = Messages a - Messages b"
  "Bytes (0 :: charge) = 0" "Messages (0 :: charge) = 0"
  by (simp_all add: plus_charge_def charge_add_def minus_charge_def zero_charge_def)

lemma charge_eq_iff: "(a :: charge) = b \<longleftrightarrow> Bytes a = Bytes b \<and> Messages a = Messages b"
  by (auto intro: charge.expand)

lemma nonneg_charge_simps [simp]:
  "nonneg_charge 0" "nonneg_charge (Charge x n) \<longleftrightarrow> 0 \<le> x \<and> 0 \<le> n"
  "nonneg_charge a \<Longrightarrow> nonneg_charge b \<Longrightarrow> nonneg_charge (a + b)"
  by (auto simp: nonneg_charge_def)

locale accounting =
  fixes R :: "'r reserver"
    and granted :: "'r \<Rightarrow> 'c :: ab_group_add"
    and price :: "charge \<Rightarrow> 'c"
  assumes price_add: "price (a + b) = price a + price b"
    and reserve_granted:
      "nonneg_charge c \<Longrightarrow> Reserve R r c = (True, r') \<Longrightarrow> granted r' = granted r + price c"
    and reserve_refused:
      "nonneg_charge c \<Longrightarrow> Reserve R r c = (False, r') \<Longrightarrow> granted r' = granted r"
    and release_returns:
      "nonneg_charge c \<Longrightarrow> granted (Release R r c) = granted r - price c"
begin

lemma price_zero: "price 0 = 0"
  using price_add [of 0 0] by simp

lemma price_diff: "price (a - b) = price a - price b"
  using price_add [of "a - b" b] by simp

lemma reserve_cases:
  assumes "nonneg_charge c"
  obtains (grant) r' where "Reserve R r c = (True, r')" "granted r' = granted r + price c"
  | (refuse) r' where "Reserve R r c = (False, r')" "granted r' = granted r"
  using assms reserve_granted reserve_refused
  by (cases "Reserve R r c"; cases "fst (Reserve R r c)") auto

end

text \<open>The reserver of \<open>Parse\<close> keeps no account: everything it granted measures nothing.\<close>

interpretation unaccounted_accounting: accounting unaccounted "\<lambda>_. 0 :: int" "\<lambda>_. 0"
  by unfold_locales simp_all

end
