(* ===== verification/Http_Parser.thy ===== *)
theory Http_Parser
  imports Http_Syntax Reassembly Reserver
begin

text \<open>
  Package \<open>http1\<close>, file \<open>parser.go\<close>: the resumable parser of one direction of one
  connection.  The \<open>Parser\<close> struct is the record \<open>parser\<close>; a method that mutates it takes
  the reserver's state and the parser and returns both.  A Go result \<open>(Progress, bool)\<close> is
  a \<open>progress option\<close>: \<open>None\<close> is no event, and the loop goes on.

  The message in progress is a pointer in the code, nil between messages; \<open>current\<close> reads
  it, and the invariant of the parser says it is there whenever the code follows it.  A
  \<open>uint64\<close> position is a natural number: a part passes \<open>Part.Validate\<close> before it is read,
  which keeps every position below \<open>2 ^ 64\<close> (shown below), so no sum wraps.
\<close>

datatype result =
  NeedInput | Head | NeedRequest | Framed | Malformed | Limit | Unsupported | Cut | End | Refused

definition result_stopped :: "result \<Rightarrow> bool" where
  "result_stopped r \<longleftrightarrow> r = Malformed \<or> r = Limit \<or> r = Unsupported \<or> r = Cut"

record progress =
  pg_consumed :: nat
  pg_result :: result
  pg_message :: "message option"
  pg_charge :: charge

definition plain_progress :: "result \<Rightarrow> progress" where
  "plain_progress res = \<lparr>pg_consumed = 0, pg_result = res, pg_message = None, pg_charge = 0\<rparr>"

datatype phase =
    betweenMessages | inStartLine | inFields | awaitingAnswer | inDeclaredBody | inChunkSize
  | inChunkData | inChunkEnd | inTrailers

record parser =
  ps_kind :: kind
  ps_limits :: limits
  ps_started :: bool
  ps_next :: nat
  ps_ended :: bool
  ps_stop :: result
  ps_settled :: nat
  ps_phase :: phase
  ps_message :: "message option"
  ps_charge :: charge
  ps_line :: bytes
  ps_saw_cr :: bool
  ps_header_bytes :: nat
  ps_remaining :: nat
  ps_chunks :: nat
  ps_chunk_start :: nat
  ps_chunk_size :: nat
  ps_chunk_kept :: nat
  ps_chunk_holed :: nat
  ps_chunk_elided :: nat
  ps_end_seen :: nat
  ps_end_first :: byte
  ps_examined :: nat

datatype parser_error = ErrKind | ErrEnded | ErrInvalidPart part_error | ErrOffset | ErrAnswer

definition new_parser :: "kind \<Rightarrow> limits \<Rightarrow> parser" where
  "new_parser kind limits =
     \<lparr>ps_kind = kind, ps_limits = or_defaults limits, ps_started = False, ps_next = 0,
      ps_ended = False, ps_stop = NeedInput, ps_settled = 0, ps_phase = betweenMessages,
      ps_message = None, ps_charge = 0, ps_line = [], ps_saw_cr = False, ps_header_bytes = 0,
      ps_remaining = 0, ps_chunks = 0, ps_chunk_start = 0, ps_chunk_size = 0, ps_chunk_kept = 0,
      ps_chunk_holed = 0, ps_chunk_elided = 0, ps_end_seen = 0, ps_end_first = CHR 0x00,
      ps_examined = 0\<rparr>"

text \<open>\<open>NewParser\<close> is given a reserver here, so its nil check has no counterpart.\<close>

definition checked_parser :: "kind \<Rightarrow> limits \<Rightarrow> parser_error + parser" where
  "checked_parser kind limits =
     (if kind \<noteq> Request \<and> kind \<noteq> Response then Inl ErrKind else Inr (new_parser kind limits))"

definition current :: "parser \<Rightarrow> message" where
  "current p = (case ps_message p of Some m \<Rightarrow> m | None \<Rightarrow> zero_message)"

definition set_current :: "parser \<Rightarrow> message \<Rightarrow> parser" where
  "set_current p m = p\<lparr>ps_message := Some m\<rparr>"

section \<open>Handing over and refusing\<close>

definition hand_over :: "parser \<Rightarrow> result \<Rightarrow> parser \<times> progress" where
  "hand_over p res =
     (let m = (current p)\<lparr>m_end := ps_next p\<rparr>
      in (p\<lparr>ps_message := None, ps_charge := 0, ps_phase := betweenMessages, ps_line := [],
            ps_saw_cr := False, ps_settled := m_end m\<rparr>,
          \<lparr>pg_consumed = 0, pg_result = res, pg_message = Some m, pg_charge = ps_charge p\<rparr>))"

definition stop_for :: "defect \<Rightarrow> result" where
  "stop_for d = (case d of DefectHole \<Rightarrow> Cut | DefectLimit \<Rightarrow> Limit | _ \<Rightarrow> Malformed)"

definition refuse :: "parser \<Rightarrow> defect \<Rightarrow> bytes \<Rightarrow> parser \<times> progress" where
  "refuse p d detail =
     (let p1 = (set_current p ((current p)\<lparr>m_defect := d, m_detail := detail\<rparr>))\<lparr>ps_stop := stop_for d\<rparr>
      in hand_over p1 (ps_stop p1))"

definition release :: "'r reserver \<Rightarrow> 'r \<Rightarrow> parser \<Rightarrow> int \<Rightarrow> 'r \<times> parser" where
  "release R r p n =
     (if n > 0 then (Release R r (Charge n 0), p\<lparr>ps_charge := ps_charge p - Charge n 0\<rparr>) else (r, p))"

definition drop_line :: "'r reserver \<Rightarrow> 'r \<Rightarrow> parser \<Rightarrow> 'r \<times> parser" where
  "drop_line R r p =
     (case release R r p (int (length (ps_line p))) of
        (r', p') \<Rightarrow> (r', p'\<lparr>ps_line := [], ps_saw_cr := False\<rparr>))"

definition take_line :: "parser \<Rightarrow> bytes \<times> parser" where
  "take_line p = (ps_line p, p\<lparr>ps_line := [], ps_saw_cr := False\<rparr>)"

text \<open>\<open>p.release\<close> then \<open>p.refuse\<close>: how a line already taken is refused.\<close>

definition release_refuse ::
    "'r reserver \<Rightarrow> 'r \<Rightarrow> parser \<Rightarrow> bytes \<Rightarrow> defect \<Rightarrow> bytes \<Rightarrow> 'r \<times> parser \<times> progress option" where
  "release_refuse R r p line d detail =
     (case release R r p (int (length line)) of
        (r', p') \<Rightarrow> (case refuse p' d detail of (p'', pr) \<Rightarrow> (r', p'', Some pr)))"

section \<open>Lines\<close>

record scanned =
  sc_consumed :: nat
  sc_done :: bool
  sc_too_long :: bool
  sc_prepend_cr :: bool
  sc_to :: nat
  sc_saw_cr :: bool

abbreviation CR :: byte where "CR \<equiv> CHR 0x0D"
abbreviation LF :: byte where "LF \<equiv> CHR 0x0A"

fun scan_from :: "bytes \<Rightarrow> nat \<Rightarrow> nat \<Rightarrow> bool \<Rightarrow> bool \<Rightarrow> int \<Rightarrow> scanned" where
  "scan_from [] i len sawCR prependCR max' =
     \<lparr>sc_consumed = i, sc_done = False, sc_too_long = False, sc_prepend_cr = prependCR,
      sc_to = (if sawCR then i - 1 else i), sc_saw_cr = sawCR\<rparr>"
| "scan_from (b # bs) i len sawCR prependCR max' =
     (if sawCR \<and> b = LF then
        \<lparr>sc_consumed = i + 1, sc_done = True, sc_too_long = False, sc_prepend_cr = prependCR,
         sc_to = (if i > 0 then i - 1 else 0), sc_saw_cr = False\<rparr>
      else
        let len1 = (if sawCR then len + 1 else len);
            pre1 = (if sawCR then prependCR \<or> i = 0 else prependCR);
            tooLong = \<lparr>sc_consumed = i + 1, sc_done = False, sc_too_long = True,
                       sc_prepend_cr = pre1, sc_to = 0, sc_saw_cr = False\<rparr>
        in if sawCR \<and> int len1 > max' then tooLong
           else if b = CR then scan_from bs (i + 1) len1 True pre1 max'
           else if int (len1 + 1) > max' then tooLong
           else scan_from bs (i + 1) (len1 + 1) False pre1 max')"

definition scan_line :: "bytes \<Rightarrow> nat \<Rightarrow> bool \<Rightarrow> int \<Rightarrow> scanned" where
  "scan_line input len sawCR max' = scan_from input 0 len sawCR False max'"

definition err_too_long :: bytes where
  "err_too_long = ''the read reached its bound''"

definition err_short :: bytes where
  "err_short = ''the stream ends inside the read''"

definition read_line ::
    "'r reserver \<Rightarrow> 'r \<Rightarrow> parser \<Rightarrow> bytes \<Rightarrow> int \<Rightarrow> bytes \<Rightarrow> 'r \<times> parser \<times> bool \<times> progress option" where
  "read_line R r p input max' context' =
     (let s = scan_line input (length (ps_line p)) (ps_saw_cr p) max';
          p1 = p\<lparr>ps_examined := ps_examined p + sc_consumed s\<rparr>
      in if sc_too_long s then
           (case drop_line R r (p1\<lparr>ps_next := ps_next p1 + sc_consumed s\<rparr>) of
              (r', p2) \<Rightarrow>
                (case refuse p2 DefectLimit (context' @ '': '' @ err_too_long) of
                   (p3, pr) \<Rightarrow> (r', p3, False, Some pr)))
         else
           let grow = int (sc_to s) + (if sc_prepend_cr s then 1 else 0);
               p2 = p1\<lparr>ps_line := ps_line p1 @ (if sc_prepend_cr s then [CR] else []) @ take (sc_to s) input,
                       ps_charge := ps_charge p1 + Charge grow 0,
                       ps_saw_cr := sc_saw_cr s,
                       ps_next := ps_next p1 + sc_consumed s\<rparr>
           in if grow > 0
              then (case Reserve R r (Charge grow 0) of
                      (False, r') \<Rightarrow> (r', p1, False, Some (plain_progress Refused))
                    | (True, r') \<Rightarrow> (r', p2, sc_done s, None))
              else (r, p2, sc_done s, None))"

section \<open>Bodies\<close>

definition hole_detail :: "message \<Rightarrow> bytes" where
  "hole_detail m =
     itoa (m_body_holed m) @ '' of the body's '' @ itoa (m_body_length m) @ '' bytes were never captured''"

text \<open>A message whose end is known, complete unless a hole took bytes of its body.\<close>

definition settle_body :: "message \<Rightarrow> message" where
  "settle_body m =
     (let m1 = m\<lparr>m_framed := True\<rparr>
      in if m_body_holed m1 > 0 then m1\<lparr>m_defect := DefectHole, m_detail := hole_detail m1\<rparr>
         else m1\<lparr>m_complete := True\<rparr>)"

definition body_step :: "parser \<Rightarrow> parser \<times> progress option" where
  "body_step p =
     (if ps_remaining p \<noteq> 0 then (p, None)
      else if ps_phase p = inChunkData then
        (let m = current p
         in ((set_current p (m\<lparr>m_body_length := m_body_length m + ps_chunk_size p,
                               m_body_holed := m_body_holed m + ps_chunk_holed p,
                               m_body_elided := m_body_elided m + ps_chunk_elided p\<rparr>))
               \<lparr>ps_phase := inChunkEnd, ps_end_seen := 0\<rparr>, None))
      else (case hand_over (set_current p (settle_body (current p))) Framed of
              (p', pr) \<Rightarrow> (p', Some pr)))"

definition body_take :: "parser \<Rightarrow> bytes \<Rightarrow> nat" where
  "body_take p input = min (length input) (ps_remaining p)"

definition body_keep :: "parser \<Rightarrow> bytes \<Rightarrow> nat" where
  "body_keep p input =
     (let room = MaxBodyBytes (ps_limits p) - int (length (m_body (current p)))
      in if room > 0 then min (body_take p input) (nat room) else 0)"

text \<open>What \<open>body\<close> does to the parser once the growth is granted.\<close>

definition body_taken :: "parser \<Rightarrow> bytes \<Rightarrow> parser" where
  "body_taken p input =
     (let m = current p; take' = body_take p input; keep = body_keep p input;
          m1 = m\<lparr>m_body := m_body m @ take keep input\<rparr>;
          p1 = p\<lparr>ps_charge := ps_charge p + Charge (int keep) 0,
                 ps_examined := ps_examined p + take', ps_next := ps_next p + take',
                 ps_remaining := ps_remaining p - take'\<rparr>
      in if ps_phase p = inDeclaredBody
         then set_current p1 (m1\<lparr>m_body_elided := m_body_elided m1 + (take' - keep)\<rparr>)
         else (set_current p1 m1)\<lparr>ps_chunk_kept := ps_chunk_kept p + keep,
                                  ps_chunk_elided := ps_chunk_elided p + (take' - keep)\<rparr>)"

definition body ::
    "'r reserver \<Rightarrow> 'r \<Rightarrow> parser \<Rightarrow> bytes \<Rightarrow> 'r \<times> parser \<times> progress option" where
  "body R r p input =
     (if body_keep p input > 0
      then (case Reserve R r (Charge (int (body_keep p input)) 0) of
              (False, r') \<Rightarrow> (r', p, Some (plain_progress Refused))
            | (True, r') \<Rightarrow> (case body_step (body_taken p input) of (p3, ev) \<Rightarrow> (r', p3, ev)))
      else (case body_step (body_taken p input) of (p3, ev) \<Rightarrow> (r, p3, ev)))"

definition chunk_size_next :: "parser \<Rightarrow> parser \<times> progress option" where
  "chunk_size_next p =
     (if int (ps_chunks p) \<ge> MaxChunks (ps_limits p)
      then (case refuse p DefectLimit (''more than '' @ itoa (nat (MaxChunks (ps_limits p))) @ '' chunks'') of
              (p', pr) \<Rightarrow> (p', Some pr))
      else (p\<lparr>ps_phase := inChunkSize\<rparr>, None))"

section \<open>Fields\<close>

definition head_progress :: "parser \<Rightarrow> progress" where
  "head_progress p = \<lparr>pg_consumed = 0, pg_result = Head, pg_message = Some (current p), pg_charge = 0\<rparr>"

definition close_detail :: bytes where
  "close_detail = ''the body ends with the connection, and a fragment carries no close''"

definition body_follows :: "parser \<Rightarrow> parser \<times> progress" where
  "body_follows p = (if ps_kind p = Response then (p, plain_progress NeedInput) else (p, head_progress p))"

definition frame_message :: "parser \<Rightarrow> bool \<Rightarrow> parser \<times> progress" where
  "frame_message p noBody =
     (case frame (current p) (ps_kind p) noBody of
        (framing, len, detail) \<Rightarrow>
          (let m = (current p)\<lparr>m_framing := framing\<rparr>; p1 = set_current p m
           in case framing of
                FramingAmbiguous \<Rightarrow> refuse p1 DefectAmbiguousFraming detail
              | FramingNone \<Rightarrow>
                  if detail \<noteq> [] then refuse p1 DefectMalformed detail
                  else hand_over (set_current p1 (m\<lparr>m_framed := True, m_complete := True\<rparr>)) Framed
              | FramingContentLength \<Rightarrow>
                  (let p2 = (set_current p1 (m\<lparr>m_body_length := len\<rparr>))
                              \<lparr>ps_remaining := len, ps_phase := inDeclaredBody\<rparr>
                   in if len = 0
                      then (case body_step p2 of
                              (p3, Some pr) \<Rightarrow> (p3, pr) | (p3, None) \<Rightarrow> body_follows p3)
                      else body_follows p2)
              | FramingChunked \<Rightarrow>
                  (case chunk_size_next p1 of
                     (p2, Some pr) \<Rightarrow> (p2, pr) | (p2, None) \<Rightarrow> body_follows p2)
              | FramingUntilClose \<Rightarrow>
                  hand_over ((set_current p1 (m\<lparr>m_defect := DefectStreamEnded, m_detail := close_detail\<rparr>))
                               \<lparr>ps_stop := Unsupported\<rparr>) Unsupported))"

definition fields_ended :: "parser \<Rightarrow> parser \<times> progress" where
  "fields_ended p =
     (if ps_kind p = Response
      then (let p1 = p\<lparr>ps_phase := awaitingAnswer\<rparr> in (p1, head_progress p1))
      else frame_message p False)"

definition read_start ::
    "'r reserver \<Rightarrow> 'r \<Rightarrow> parser \<Rightarrow> 'r \<times> parser \<times> progress option" where
  "read_start R r p =
     (case take_line p of
        (line, p1) \<Rightarrow>
          (case ps_kind p1 of
             UnknownKind \<Rightarrow> release_refuse R r p1 line DefectMalformed ''no kind of message was asked for''
           | Request \<Rightarrow>
               (case read_request_line (current p1) line of
                  None \<Rightarrow> release_refuse R r p1 line DefectMalformed ''the first line is not a request line''
                | Some m \<Rightarrow> (r, (set_current p1 m)\<lparr>ps_phase := inFields\<rparr>, None))
           | Response \<Rightarrow>
               (case read_status_line (current p1) line of
                  None \<Rightarrow> release_refuse R r p1 line DefectMalformed ''the first line is not a status line''
                | Some m \<Rightarrow> (r, (set_current p1 m)\<lparr>ps_phase := inFields\<rparr>, None))))"

definition field_line ::
    "'r reserver \<Rightarrow> 'r \<Rightarrow> parser \<Rightarrow> 'r \<times> parser \<times> progress option" where
  "field_line R r p =
     (case take_line p of
        (line, p1) \<Rightarrow>
          if line = [] then (case fields_ended p1 of (p2, pr) \<Rightarrow> (r, p2, Some pr))
          else if int (length (m_headers (current p1))) \<ge> MaxHeaders (ps_limits p1)
          then release_refuse R r p1 line DefectLimit
                 (''more than '' @ itoa (nat (MaxHeaders (ps_limits p1))) @ '' field lines'')
          else
            let p2 = p1\<lparr>ps_header_bytes := ps_header_bytes p1 + length line\<rparr>
            in if int (ps_header_bytes p2) > MaxHeaderBytes (ps_limits p2)
               then release_refuse R r p2 line DefectLimit
                      (''more than '' @ itoa (nat (MaxHeaderBytes (ps_limits p2))) @ '' bytes of field lines'')
               else (case read_header line of
                       None \<Rightarrow> release_refuse R r p2 line DefectMalformed
                                ''a field line no strict endpoint would accept''
                     | Some h \<Rightarrow>
                         (r, set_current p2 ((current p2)\<lparr>m_headers := m_headers (current p2) @ [h]\<rparr>), None)))"

definition trailer_line ::
    "'r reserver \<Rightarrow> 'r \<Rightarrow> parser \<Rightarrow> 'r \<times> parser \<times> progress option" where
  "trailer_line R r p =
     (case take_line p of
        (line, p1) \<Rightarrow>
          if line = [] then
            (case hand_over (set_current p1 (settle_body (current p1))) Framed of
               (p2, pr) \<Rightarrow> (r, p2, Some pr))
          else if int (length (m_trailers (current p1))) \<ge> MaxTrailers (ps_limits p1)
          then release_refuse R r p1 line DefectLimit
                 (''more than '' @ itoa (nat (MaxTrailers (ps_limits p1))) @ '' trailer fields'')
          else (case read_header line of
                  None \<Rightarrow> release_refuse R r p1 line DefectMalformed
                           ''a trailer field no strict endpoint would accept''
                | Some h \<Rightarrow>
                    (r, set_current p1 ((current p1)\<lparr>m_trailers := m_trailers (current p1) @ [h]\<rparr>), None)))"

section \<open>One step over bytes or over a hole\<close>

definition begin_message ::
    "'r reserver \<Rightarrow> 'r \<Rightarrow> parser \<Rightarrow> 'r \<times> parser \<times> progress option" where
  "begin_message R r p =
     (case Reserve R r (Charge 0 1) of
        (False, r') \<Rightarrow> (r', p, Some (plain_progress Refused))
      | (True, r') \<Rightarrow>
          (r', p\<lparr>ps_message := Some (zero_message\<lparr>m_kind := ps_kind p, m_offset := ps_next p\<rparr>),
                 ps_charge := Charge 0 1, ps_phase := inStartLine, ps_header_bytes := 0,
                 ps_chunks := 0\<rparr>, None))"

definition chunk_size_line ::
    "'r reserver \<Rightarrow> 'r \<Rightarrow> parser \<Rightarrow> 'r \<times> parser \<times> progress option" where
  "chunk_size_line R r p =
     (let size = chunk_size (ps_line p)
      in case drop_line R r p of
           (r', p1) \<Rightarrow>
             (case size of
                None \<Rightarrow> (case refuse p1 DefectMalformed ''a chunk size no decoder would accept'' of
                          (p2, pr) \<Rightarrow> (r', p2, Some pr))
              | Some n \<Rightarrow>
                  if n = 0 then (r', p1\<lparr>ps_phase := inTrailers\<rparr>, None)
                  else (r', p1\<lparr>ps_phase := inChunkData, ps_remaining := n,
                               ps_chunk_start := ps_next p1, ps_chunk_size := n,
                               ps_chunk_kept := 0, ps_chunk_holed := 0, ps_chunk_elided := 0\<rparr>, None)))"

definition chunk_end :: "parser \<Rightarrow> byte \<Rightarrow> parser \<times> progress option" where
  "chunk_end p b =
     (let p1 = p\<lparr>ps_examined := ps_examined p + 1, ps_next := ps_next p + 1\<rparr>
      in if ps_end_seen p1 = 0 then (p1\<lparr>ps_end_seen := 1, ps_end_first := b\<rparr>, None)
         else
           let p2 = p1\<lparr>ps_end_seen := 0\<rparr>
           in if ps_end_first p2 \<noteq> CR \<or> b \<noteq> LF
              then (case refuse p2 DefectMalformed ''a chunk not followed by CRLF'' of
                      (p3, pr) \<Rightarrow> (p3, Some pr))
              else chunk_size_next (p2\<lparr>ps_chunks := ps_chunks p2 + 1\<rparr>))"

text \<open>A line is read, and where it ended \<open>k\<close> goes on with it.\<close>

definition with_line ::
    "'r reserver \<Rightarrow> 'r \<Rightarrow> parser \<Rightarrow> bytes \<Rightarrow> int \<Rightarrow> bytes
     \<Rightarrow> ('r reserver \<Rightarrow> 'r \<Rightarrow> parser \<Rightarrow> 'r \<times> parser \<times> progress option)
     \<Rightarrow> 'r \<times> parser \<times> progress option" where
  "with_line R r p input max' context' k =
     (case read_line R r p input max' context' of
        (r', p', done, Some pr) \<Rightarrow> (r', p', Some pr)
      | (r', p', done, None) \<Rightarrow> if \<not> done then (r', p', None) else k R r' p')"

definition bytes_step ::
    "'r reserver \<Rightarrow> 'r \<Rightarrow> parser \<Rightarrow> bytes \<Rightarrow> 'r \<times> parser \<times> progress option" where
  "bytes_step R r p input =
     (case ps_phase p of
        betweenMessages \<Rightarrow> begin_message R r p
      | inStartLine \<Rightarrow>
          with_line R r p input (MaxStartLine (ps_limits p)) ''reading the start line'' read_start
      | inFields \<Rightarrow>
          with_line R r p input (MaxHeaderLine (ps_limits p)) ''reading a field line'' field_line
      | inDeclaredBody \<Rightarrow> body R r p input
      | inChunkData \<Rightarrow> body R r p input
      | inChunkSize \<Rightarrow>
          with_line R r p input (MaxHeaderLine (ps_limits p)) ''reading a chunk size'' chunk_size_line
      | inChunkEnd \<Rightarrow> (case chunk_end p (hd input) of (p', ev) \<Rightarrow> (r, p', ev))
      | inTrailers \<Rightarrow>
          with_line R r p input (MaxHeaderLine (ps_limits p)) ''reading a trailer field'' trailer_line
      | awaitingAnswer \<Rightarrow> (r, p, Some (plain_progress NeedRequest)))"

definition gap_string :: "gap_reason \<Rightarrow> bytes" where
  "gap_string g =
     (case g of GapNone \<Rightarrow> ''none'' | GapMissing \<Rightarrow> ''missing'' | GapTruncated \<Rightarrow> ''truncated''
      | GapOther n \<Rightarrow> ''gap('' @ itoa n @ '')'')"

definition phase_context :: "phase \<Rightarrow> bytes" where
  "phase_context ph =
     (case ph of inStartLine \<Rightarrow> ''reading the start line'' | inFields \<Rightarrow> ''reading a field line''
      | inChunkSize \<Rightarrow> ''reading a chunk size'' | inChunkEnd \<Rightarrow> ''reading the end of a chunk''
      | inTrailers \<Rightarrow> ''reading a trailer field'' | _ \<Rightarrow> [])"

definition hole_step ::
    "'r reserver \<Rightarrow> 'r \<Rightarrow> parser \<Rightarrow> gap_reason \<Rightarrow> nat \<Rightarrow> 'r \<times> parser \<times> progress option" where
  "hole_step R r p g n =
     (if ps_phase p = betweenMessages then begin_message R r p
      else if ps_phase p = inDeclaredBody \<or> ps_phase p = inChunkData then
        (let take' = min n (ps_remaining p);
             p1 = p\<lparr>ps_next := ps_next p + take', ps_remaining := ps_remaining p - take'\<rparr>;
             m = current p1;
             p2 = (if ps_phase p1 = inDeclaredBody
                   then set_current p1 (m\<lparr>m_body_holed := m_body_holed m + take'\<rparr>)
                   else p1\<lparr>ps_chunk_holed := ps_chunk_holed p1 + take'\<rparr>)
         in case body_step p2 of (p3, ev) \<Rightarrow> (r, p3, ev))
      else
        (case drop_line R r p of
           (r', p1) \<Rightarrow>
             (case refuse p1 DefectHole
                     (phase_context (ps_phase p) @ '': '' @ ''the read crosses a hole in the stream: ''
                      @ gap_string g @ '' at offset '' @ itoa (ps_next p1)) of
                (p2, pr) \<Rightarrow> (r', p2, Some pr))))"

section \<open>Every step moves on\<close>

text \<open>
  Where a step has no event it consumed input, or it left a phase that consumes nothing:
  the start of a message, or a chunk whose data is used up.  So the loop of \<open>Feed\<close> ends.
\<close>

definition step_rank :: "parser \<Rightarrow> nat" where
  "step_rank p =
     (case ps_phase p of betweenMessages \<Rightarrow> 1 | inChunkData \<Rightarrow> (if ps_remaining p = 0 then 1 else 0) | _ \<Rightarrow> 0)"

lemmas leaf_defs =
  hand_over_def refuse_def release_def drop_line_def take_line_def release_refuse_def set_current_def
  body_step_def chunk_size_next_def body_follows_def chunk_end_def split_beta Let_def

lemma leaf_next [simp]:
  "ps_next (fst (hand_over p res)) = ps_next p"
  "ps_next (fst (refuse p d detail)) = ps_next p"
  "ps_next (snd (release R r p n)) = ps_next p"
  "ps_next (snd (drop_line R r p)) = ps_next p"
  "ps_next (fst (snd (release_refuse R r p line d detail))) = ps_next p"
  "ps_next (fst (body_step p)) = ps_next p"
  "ps_next (fst (chunk_size_next p)) = ps_next p"
  "ps_next (fst (body_follows p)) = ps_next p"
  by (simp_all add: leaf_defs)

lemma chunk_end_next [simp]: "ps_next (fst (chunk_end p b)) = ps_next p + 1"
  by (simp add: leaf_defs)

lemma frame_message_next [simp]: "ps_next (fst (frame_message p noBody)) = ps_next p"
  by (simp add: frame_message_def leaf_defs split: framing.splits option.splits)

lemma fields_ended_next [simp]: "ps_next (fst (fields_ended p)) = ps_next p"
  by (simp add: fields_ended_def Let_def)

lemma line_handlers_next [simp]:
  "ps_next (fst (snd (read_start R r p))) = ps_next p"
  "ps_next (fst (snd (field_line R r p))) = ps_next p"
  "ps_next (fst (snd (trailer_line R r p))) = ps_next p"
  "ps_next (fst (snd (chunk_size_line R r p))) = ps_next p"
  by (simp_all add: read_start_def field_line_def trailer_line_def chunk_size_line_def take_line_def
      set_current_def Let_def split_beta split: kind.splits option.splits)

lemma scan_from_consumed:
  "i \<le> sc_consumed (scan_from bs i len saw pre max') \<and>
   sc_consumed (scan_from bs i len saw pre max') \<le> i + length bs \<and>
   (bs \<noteq> [] \<longrightarrow> i < sc_consumed (scan_from bs i len saw pre max'))"
proof (induction bs arbitrary: i len saw pre)
  case (Cons b bs)
  show ?case
    using Cons.IH [of "i + 1" "if saw then len + 1 else len" True "if saw then pre \<or> i = 0 else pre"]
      Cons.IH [of "i + 1" "(if saw then len + 1 else len) + 1" False "if saw then pre \<or> i = 0 else pre"]
    by (simp add: Let_def)
qed simp

lemma scan_line_consumed:
  "sc_consumed (scan_line input len saw max') \<le> length input"
  "input \<noteq> [] \<Longrightarrow> 0 < sc_consumed (scan_line input len saw max')"
  using scan_from_consumed [of 0 input len saw False max'] by (simp_all add: scan_line_def)

lemma read_line_next:
  assumes "read_line R r p input max' context' = (r', p', fin, None)"
  shows "ps_next p' = ps_next p + sc_consumed (scan_line input (length (ps_line p)) (ps_saw_cr p) max')"
  using assms
  by (auto simp: read_line_def Let_def split_beta split: if_splits prod.splits bool.splits)

lemma with_line_next:
  assumes "with_line R r p input max' context' k = (r', p', None)" "input \<noteq> []"
    and k: "\<And>r p. ps_next (fst (snd (k R r p))) = ps_next p"
  shows "ps_next p < ps_next p'"
proof -
  obtain r1 p1 fin ev where l: "read_line R r p input max' context' = (r1, p1, fin, ev)"
    by (metis prod_cases4)
  with assms(1) have ev: "ev = None" and "p' = (if fin then fst (snd (k R r1 p1)) else p1)"
    by (auto simp: with_line_def split: option.splits if_splits)
  then show ?thesis
    using k [of r1 p1] read_line_next [OF l [unfolded ev]] scan_line_consumed(2) [OF assms(2)] by auto
qed

lemma body_taken_sel [simp]:
  "ps_next (body_taken p input) = ps_next p + body_take p input"
  "ps_remaining (body_taken p input) = ps_remaining p - body_take p input"
  "ps_phase (body_taken p input) = ps_phase p"
  by (simp_all add: body_taken_def set_current_def Let_def)

lemma body_cases:
  obtains (refused) r' where "body_keep p input > 0" "Reserve R r (Charge (int (body_keep p input)) 0) = (False, r')"
      "body R r p input = (r', p, Some (plain_progress Refused))"
  | (granted) r' where "body_keep p input > 0" "Reserve R r (Charge (int (body_keep p input)) 0) = (True, r')"
      "body R r p input = (r', body_step (body_taken p input))"
  | (free) "body_keep p input = 0" "body R r p input = (r, body_step (body_taken p input))"
proof (cases "body_keep p input > 0")
  case True
  then show thesis
    using refused granted
    by (cases "Reserve R r (Charge (int (body_keep p input)) 0)"; cases "fst (Reserve R r (Charge (int (body_keep p input)) 0))")
      (auto simp: body_def split_beta)
next
  case False
  then show thesis using free by (simp add: body_def split_beta)
qed

lemma body_progress:
  assumes "body R r p input = (r', p', None)" "input \<noteq> []" "ps_phase p = inDeclaredBody \<or> ps_phase p = inChunkData"
  shows "ps_next p < ps_next p' \<or> ps_next p' = ps_next p \<and> step_rank p' < step_rank p"
proof -
  from assms(1) have b: "body_step (body_taken p input) = (p', None)"
    by (cases rule: body_cases [of p input R r]) auto
  then have "ps_next p' = ps_next p + body_take p input"
    using leaf_next(6) [of "body_taken p input"] by simp
  moreover have "step_rank p' < step_rank p" if "ps_remaining p = 0"
    using b that assms(3)
    by (auto simp: body_step_def set_current_def step_rank_def Let_def split: if_splits prod.splits)
  ultimately show ?thesis
    using assms(2) by (cases "ps_remaining p = 0") (auto simp: body_take_def)
qed

lemma bytes_step_progress:
  assumes "bytes_step R r p input = (r', p', None)" "input \<noteq> []"
  shows "ps_next p < ps_next p' \<or> ps_next p' = ps_next p \<and> step_rank p' < step_rank p"
proof (cases "ps_phase p")
  case betweenMessages
  with assms show ?thesis
    by (auto simp: bytes_step_def begin_message_def step_rank_def split: prod.splits bool.splits)
next
  case inChunkEnd
  with assms have "p' = fst (chunk_end p (hd input))" by (simp add: bytes_step_def split_beta)
  then show ?thesis by simp
qed (use assms with_line_next body_progress in \<open>fastforce simp: bytes_step_def\<close>)+

lemma hole_step_progress:
  assumes "hole_step R r p g n = (r', p', None)" "0 < n"
  shows "ps_next p < ps_next p' \<or> ps_next p' = ps_next p \<and> step_rank p' < step_rank p"
  using assms
  by (auto simp: hole_step_def begin_message_def body_step_def hand_over_def set_current_def step_rank_def
      Let_def split_beta split: prod.splits bool.splits if_splits)

section \<open>Feed, Answer and End\<close>

definition part_step ::
    "'r reserver \<Rightarrow> 'r \<Rightarrow> parser \<Rightarrow> part \<Rightarrow> 'r \<times> parser \<times> progress option" where
  "part_step R r p part =
     (if pt_gap part \<noteq> GapNone
      then hole_step R r p (pt_gap part) (pt_offset part + pt_length part - ps_next p)
      else bytes_step R r p (drop (ps_next p - pt_offset part) (pt_bytes part)))"

text \<open>
  The loop of \<open>Feed\<close>.  The code enters it only with a part that passed \<open>Part.Validate\<close>,
  standing inside that part; the first two conditions state that here.
\<close>

function feed_loop :: "'r reserver \<Rightarrow> 'r \<Rightarrow> parser \<Rightarrow> part \<Rightarrow> 'r \<times> parser \<times> progress" where
  "feed_loop R r p part =
     (if part_validate part = None \<and> pt_offset part \<le> ps_next p
         \<and> ps_next p < pt_offset part + pt_length part
      then (case part_step R r p part of
              (r', p', None) \<Rightarrow> feed_loop R r' p' part
            | (r', p', Some pr) \<Rightarrow>
                (let p'' = (if result_stopped (pg_result pr)
                            then p'\<lparr>ps_next := pt_offset part + pt_length part\<rparr> else p')
                 in (r', p'', pr\<lparr>pg_consumed := ps_next p'' - pt_offset part\<rparr>)))
      else (r, p, (plain_progress NeedInput)\<lparr>pg_consumed := pt_length part\<rparr>))"
  by pat_completeness auto

lemma part_step_progress:
  assumes "part_step R r p part = (r', p', None)" "part_validate part = None"
    and "pt_offset part \<le> ps_next p" "ps_next p < pt_offset part + pt_length part"
  shows "ps_next p < ps_next p' \<or> ps_next p' = ps_next p \<and> step_rank p' < step_rank p"
proof (cases "pt_gap part = GapNone")
  case True
  with assms(2-4) have "drop (ps_next p - pt_offset part) (pt_bytes part) \<noteq> []"
    by (auto simp: part_validate_ok)
  with True assms(1) show ?thesis
    by (auto simp: part_step_def dest: bytes_step_progress)
next
  case False
  with assms show ?thesis
    by (auto simp: part_step_def dest!: hole_step_progress)
qed

termination feed_loop
proof (relation "measures [\<lambda>(R, r, p, part). pt_offset part + pt_length part - ps_next p,
    \<lambda>(R, r, p, part). step_rank p]", goal_cases)
  case 2
  then show ?case by (auto dest!: sym [of "(_, _, _)"] dest: part_step_progress)
qed simp

declare feed_loop.simps [simp del]

definition admit :: "parser \<Rightarrow> part \<Rightarrow> parser_error option" where
  "admit p part =
     (if ps_ended p then Some ErrEnded
      else case part_validate part of
             Some e \<Rightarrow> Some (ErrInvalidPart e)
           | None \<Rightarrow> if ps_started p \<and> pt_offset part \<noteq> ps_next p then Some ErrOffset else None)"

definition feed ::
    "'r reserver \<Rightarrow> 'r \<Rightarrow> parser \<Rightarrow> part \<Rightarrow> parser_error + ('r \<times> parser \<times> progress)" where
  "feed R r p part =
     (case admit p part of
        Some e \<Rightarrow> Inl e
      | None \<Rightarrow>
          (let p1 = (if \<not> ps_started p
                     then p\<lparr>ps_started := True, ps_next := pt_offset part, ps_settled := pt_offset part\<rparr>
                     else p)
           in if ps_stop p1 \<noteq> NeedInput
              then Inr (r, p1\<lparr>ps_next := ps_next p1 + pt_length part\<rparr>,
                        (plain_progress (ps_stop p1))\<lparr>pg_consumed := pt_length part\<rparr>)
              else if ps_phase p1 = awaitingAnswer
              then Inr (r, p1, plain_progress NeedRequest)
              else Inr (feed_loop R r p1 part)))"

definition answer :: "parser \<Rightarrow> bytes \<Rightarrow> parser_error + (parser \<times> progress)" where
  "answer p method =
     (if ps_phase p \<noteq> awaitingAnswer \<or> ps_ended p then Inl ErrAnswer
      else Inr (frame_message p (equal_fold method ''HEAD'')))"

definition end_detail :: "parser \<Rightarrow> bytes" where
  "end_detail p =
     (case ps_phase p of
        inDeclaredBody \<Rightarrow>
          ''the stream ends '' @ itoa (m_body_length (current p) - ps_remaining p)
          @ '' bytes into a body of '' @ itoa (m_body_length (current p))
      | inChunkData \<Rightarrow> ''the stream ends inside a chunk of '' @ itoa (ps_chunk_size p) @ '' bytes''
      | inStartLine \<Rightarrow> ''reading the start line: '' @ err_short
      | inFields \<Rightarrow> ''reading a field line: '' @ err_short
      | inChunkSize \<Rightarrow> ''reading a chunk size: '' @ err_short
      | inTrailers \<Rightarrow> ''reading a trailer field: '' @ err_short
      | inChunkEnd \<Rightarrow> ''reading the end of a chunk: '' @ err_short
      | _ \<Rightarrow> [])"

definition in_line :: "phase \<Rightarrow> bool" where
  "in_line ph \<longleftrightarrow> ph = inStartLine \<or> ph = inFields \<or> ph = inChunkSize \<or> ph = inTrailers"

text \<open>The part of \<open>End\<close> that hands over the message in progress.\<close>

definition end_in_progress :: "'r reserver \<Rightarrow> 'r \<Rightarrow> parser \<Rightarrow> 'r \<times> parser \<times> progress" where
  "end_in_progress R r p =
     (let m = (current p)\<lparr>m_defect := DefectStreamEnded, m_end := ps_next p\<rparr>;
          detail = end_detail p;
          (r', p1, m1) =
            (if in_line (ps_phase p)
             then (case drop_line R r p of (r', p1) \<Rightarrow> (r', p1, m\<lparr>m_detail := detail\<rparr>))
             else if ps_phase p = inChunkData
             then (case release R r p (int (ps_chunk_kept p)) of
                     (r', p1) \<Rightarrow>
                       (r', p1, m\<lparr>m_body := take (length (m_body m) - ps_chunk_kept p) (m_body m),
                                  m_end := ps_chunk_start p, m_detail := detail\<rparr>))
             else if ps_phase p = inChunkEnd
             then (r, p, m\<lparr>m_end := ps_next p - ps_end_seen p, m_detail := detail\<rparr>)
             else (r, p, m\<lparr>m_detail := (if ps_phase p = inDeclaredBody then detail else m_detail m)\<rparr>))
      in (r', p1\<lparr>ps_message := None, ps_charge := 0, ps_phase := betweenMessages, ps_settled := m_end m1\<rparr>,
          \<lparr>pg_consumed = 0, pg_result = End, pg_message = Some m1, pg_charge = ps_charge p1\<rparr>))"

definition end_parser :: "'r reserver \<Rightarrow> 'r \<Rightarrow> parser \<Rightarrow> 'r \<times> parser \<times> progress" where
  "end_parser R r p =
     (if ps_ended p then (r, p, plain_progress End)
      else
        let (p1, answered) =
              (if ps_phase p = awaitingAnswer
               then (case answer p [] of Inr (p', pr) \<Rightarrow> (p', pr) | Inl e \<Rightarrow> (p, plain_progress NeedInput))
               else (p, plain_progress NeedInput))
        in if ps_phase p = awaitingAnswer \<and> pg_message answered \<noteq> None
           then (r, p1\<lparr>ps_ended := True\<rparr>, answered\<lparr>pg_result := End\<rparr>)
           else
             let p2 = p1\<lparr>ps_ended := True\<rparr>
             in if ps_message p2 = None then (r, p2, plain_progress End)
                else end_in_progress R r p2)"

definition parser_position :: "parser \<Rightarrow> nat \<times> bool" where
  "parser_position p = (ps_next p, ps_started p)"

definition retained :: "parser \<Rightarrow> charge" where
  "retained p = ps_charge p"

definition parser_unplaced :: "parser \<Rightarrow> nat" where
  "parser_unplaced p =
     (if ps_stop p = NeedInput \<and> \<not> ps_ended p then 0 else ps_next p - ps_settled p)"

end
