(* ===== verification/Cursor.thy ===== *)
theory Cursor
  imports Reassembly
begin

text \<open>
  Package \<open>stream\<close>, file \<open>cursor.go\<close>: reading a reassembled stream's offsets in order.
  A \<open>Cursor\<close> is the record \<open>cursor\<close>; each method returns the cursor it leaves behind.
  \<open>ReadLine\<close> loops for as long as the part it stands in gives it bytes, so it is a partial
  function: \<open>None\<close> is a call that never returns, which only a hand-made part shorter than it
  says can cause.  A slice taken out of range, a panic in the code, is an error value.

  The theory then reads a stream as the list of its cells, one per offset, and shows that on
  a stream \<open>Assemble\<close> can return each method is the list operation its comment promises.
\<close>

datatype cursor_error = ErrGap gap_reason nat | ErrShort | ErrTooLong | SliceOutOfRange

record cursor =
  cu_stream :: stream
  cu_pos :: nat
  cu_idx :: nat

definition new_cursor :: "stream \<Rightarrow> cursor" where
  "new_cursor s = \<lparr>cu_stream = s, cu_pos = sm_start s, cu_idx = 0\<rparr>"

definition cursor_remaining :: "cursor \<Rightarrow> nat" where
  "cursor_remaining c =
     (if cu_pos c \<ge> sm_end (cu_stream c) then 0 else sm_end (cu_stream c) - cu_pos c)"

definition at_end :: "cursor \<Rightarrow> bool" where
  "at_end c \<longleftrightarrow> cursor_remaining c = 0"

text \<open>The search of \<open>part\<close> through the parts not yet passed, from index \<open>idx\<close>.\<close>

fun seek :: "part list \<Rightarrow> nat \<Rightarrow> nat \<Rightarrow> nat \<times> part option" where
  "seek [] idx pos = (idx, None)"
| "seek (p # ps) idx pos =
     (if pos < add64 (pt_offset p) (pt_length p)
      then (idx, if pos < pt_offset p then None else Some p)
      else seek ps (idx + 1) pos)"

definition cursor_part :: "cursor \<Rightarrow> cursor \<times> part option" where
  "cursor_part c =
     (case seek (drop (cu_idx c) (sm_parts (cu_stream c))) (cu_idx c) (cu_pos c) of
        (i, found) \<Rightarrow> (c\<lparr>cu_idx := i\<rparr>, found))"

definition at_gap :: "cursor \<Rightarrow> cursor \<times> gap_reason option" where
  "at_gap c =
     (case cursor_part c of
        (c', Some p) \<Rightarrow> (c', if pt_gap p = GapNone then None else Some (pt_gap p))
      | (c', None) \<Rightarrow> (c', None))"

text \<open>
  The inner loop of \<open>ReadLine\<close> over the bytes at hand: the line so far, whether a carriage
  return waits on the byte after it, and the bytes left after the line ended or grew too long.
\<close>

datatype line_scan = Open bytes bool | Ended bytes bytes | Overlong bytes

fun line_bytes :: "int \<Rightarrow> bytes \<Rightarrow> bool \<Rightarrow> bytes \<Rightarrow> line_scan" where
  "line_bytes max' line sawCR [] = Open line sawCR"
| "line_bytes max' line sawCR (b # bs) =
     (if sawCR \<and> b = CHR 0x0A then Ended line bs
      else
        let line1 = (if sawCR then line @ [CHR 0x0D] else line)
        in if sawCR \<and> int (length line1) > max' then Overlong bs
           else if b = CHR 0x0D then line_bytes max' line1 True bs
           else if int (length (line1 @ [b])) > max' then Overlong bs
           else line_bytes max' (line1 @ [b]) False bs)"

partial_function (option) read_line_loop ::
    "int \<Rightarrow> cursor \<Rightarrow> bytes \<Rightarrow> bool \<Rightarrow> (cursor \<times> (cursor_error + bytes)) option" where
  "read_line_loop max' c line sawCR =
     (if at_end c then Some (c, Inl ErrShort)
      else case cursor_part c of
             (c1, None) \<Rightarrow> Some (c1, Inl ErrShort)
           | (c1, Some p) \<Rightarrow>
               if pt_gap p \<noteq> GapNone then Some (c1, Inl (ErrGap (pt_gap p) (cu_pos c1)))
               else
                 let within = cu_pos c1 - pt_offset p
                 in if within > length (pt_bytes p) then Some (c1, Inl SliceOutOfRange)
                    else
                      let input = drop within (pt_bytes p)
                      in case line_bytes max' line sawCR input of
                           Open line' saw' \<Rightarrow>
                             read_line_loop max' (c1\<lparr>cu_pos := add64 (cu_pos c1) (length input)\<rparr>) line' saw'
                         | Ended line' rest \<Rightarrow>
                             Some (c1\<lparr>cu_pos := add64 (cu_pos c1) (length input - length rest)\<rparr>, Inr line')
                         | Overlong rest \<Rightarrow>
                             Some (c1\<lparr>cu_pos := add64 (cu_pos c1) (length input - length rest)\<rparr>, Inl ErrTooLong))"

definition read_line_at :: "cursor \<Rightarrow> int \<Rightarrow> (cursor \<times> (cursor_error + bytes)) option" where
  "read_line_at c max' = read_line_loop max' c [] False"

lemma cursor_part_inside:
  assumes "cursor_part c = (c', Some p)"
  shows "c' = c\<lparr>cu_idx := cu_idx c'\<rparr>" "cu_pos c' = cu_pos c"
    "pt_offset p \<le> cu_pos c" "cu_pos c < add64 (pt_offset p) (pt_length p)"
proof -
  have "seek ps i pos = (j, Some p) \<Longrightarrow> pt_offset p \<le> pos \<and> pos < add64 (pt_offset p) (pt_length p)"
    for ps i j pos
    by (induction ps i pos rule: seek.induct) (auto split: if_splits)
  with assms show "c' = c\<lparr>cu_idx := cu_idx c'\<rparr>" "cu_pos c' = cu_pos c"
    "pt_offset p \<le> cu_pos c" "cu_pos c < add64 (pt_offset p) (pt_length p)"
    by (auto simp: cursor_part_def split: prod.splits)
qed

lemma cursor_part_progress:
  assumes "cursor_part c = (c', Some p)"
  shows "cu_pos c' - pt_offset p < pt_length p"
proof -
  have "add64 a b \<le> a + b" for a b by (simp add: add64_def)
  then have "cu_pos c < pt_offset p + pt_length p"
    using cursor_part_inside(4) [OF assms] by (meson less_le_trans)
  then show ?thesis
    using cursor_part_inside(2,3) [OF assms] by simp
qed

text \<open>The loops of \<open>ReadN\<close>, \<open>Take\<close> and \<open>Peek\<close> use up what they were asked for.\<close>

function read_n_loop :: "cursor \<Rightarrow> nat \<Rightarrow> bytes \<Rightarrow> cursor \<times> (cursor_error + bytes)" where
  "read_n_loop c n out =
     (if n = 0 then (c, Inr out)
      else case cursor_part c of
             (c1, None) \<Rightarrow> (c1, Inl ErrShort)
           | (c1, Some p) \<Rightarrow>
               if pt_gap p \<noteq> GapNone then (c1, Inl (ErrGap (pt_gap p) (cu_pos c1)))
               else
                 let within = cu_pos c1 - pt_offset p; take' = min n (pt_length p - within)
                 in if within + take' > length (pt_bytes p) then (c1, Inl SliceOutOfRange)
                    else read_n_loop (c1\<lparr>cu_pos := add64 (cu_pos c1) take'\<rparr>) (n - take')
                           (out @ take take' (drop within (pt_bytes p))))"
  by pat_completeness auto
termination
  by (relation "measure (\<lambda>(c, n, out). n)") (auto dest!: sym [of _ "cursor_part _"] cursor_part_progress)

declare read_n_loop.simps [simp del]

definition read_n :: "cursor \<Rightarrow> nat \<Rightarrow> cursor \<times> (cursor_error + bytes)" where
  "read_n c n = (if n > cursor_remaining c then (c, Inl ErrShort) else read_n_loop c n [])"

function take_loop ::
    "int \<Rightarrow> cursor \<Rightarrow> nat \<Rightarrow> bytes \<Rightarrow> nat \<Rightarrow> cursor \<times> (cursor_error + bytes \<times> nat)" where
  "take_loop keep c n data holed =
     (if n = 0 then (c, Inr (data, holed))
      else case cursor_part c of
             (c1, None) \<Rightarrow> (c1, Inl ErrShort)
           | (c1, Some p) \<Rightarrow>
               let within = cu_pos c1 - pt_offset p;
                   take' = min n (pt_length p - within);
                   room = keep - int (length data);
                   want = (if room > 0 then min take' (nat room) else 0);
                   c2 = c1\<lparr>cu_pos := add64 (cu_pos c1) take'\<rparr>
               in if pt_gap p \<noteq> GapNone then take_loop keep c2 (n - take') data (add64 holed take')
                  else if room > 0 \<and> within + want > length (pt_bytes p) then (c1, Inl SliceOutOfRange)
                  else take_loop keep c2 (n - take') (data @ take want (drop within (pt_bytes p))) holed)"
  by pat_completeness auto
termination
  by (relation "measure (\<lambda>(keep, c, n, data, holed). n)")
    (auto dest!: sym [of _ "cursor_part _"] cursor_part_progress)

declare take_loop.simps [simp del]

definition cursor_take :: "cursor \<Rightarrow> nat \<Rightarrow> int \<Rightarrow> cursor \<times> (cursor_error + bytes \<times> nat)" where
  "cursor_take c n keep =
     (if n > cursor_remaining c then (c, Inl ErrShort) else take_loop keep c n [] 0)"

function peek_loop :: "cursor \<Rightarrow> nat \<Rightarrow> bytes \<Rightarrow> cursor_error + bytes" where
  "peek_loop c n out =
     (if n \<le> length out then Inr out
      else case cursor_part c of
             (c1, None) \<Rightarrow> Inr out
           | (c1, Some p) \<Rightarrow>
               if pt_gap p \<noteq> GapNone then Inr out
               else
                 let within = cu_pos c1 - pt_offset p; take' = min (n - length out) (pt_length p - within)
                 in if within + take' > length (pt_bytes p) then Inl SliceOutOfRange
                    else peek_loop (c1\<lparr>cu_pos := add64 (cu_pos c1) take'\<rparr>) n
                           (out @ take take' (drop within (pt_bytes p))))"
  by pat_completeness auto
termination
proof (relation "measure (\<lambda>(c, n, out). n - length out)", goal_cases)
  case (2 c n out c1 found p within take')
  then have "within < pt_length p"
    using cursor_part_progress [of c c1 p] by simp
  with 2(1,6) have "0 < take'" by simp
  moreover have "take' \<le> length (drop within (pt_bytes p))"
    using 2(7) unfolding length_drop by linarith
  ultimately show ?case
    using 2(1) by auto
qed simp

declare peek_loop.simps [simp del]

text \<open>\<open>Peek\<close> puts the cursor back, so it returns only what it saw.\<close>

definition peek :: "cursor \<Rightarrow> nat \<Rightarrow> cursor_error + bytes" where
  "peek c n = peek_loop c n []"

section \<open>A stream as the list of its cells\<close>

definition part_cells :: "part \<Rightarrow> cell list" where
  "part_cells p =
     (if pt_gap p = GapNone then map Carried (pt_bytes p) else replicate (pt_length p) (Hole (pt_gap p)))"

definition stream_cells :: "part list \<Rightarrow> cell list" where
  "stream_cells ps = concat (map part_cells ps)"

text \<open>What a cursor has still to read.\<close>

definition unread :: "cursor \<Rightarrow> cell list" where
  "unread c = drop (cu_pos c - sm_start (cu_stream c)) (stream_cells (sm_parts (cu_stream c)))"

definition whole :: "stream \<Rightarrow> bool" where
  "whole s \<longleftrightarrow> all_valid (sm_parts s) \<and> tiles (sm_start s) (sm_parts s) (sm_end s) \<and> sm_end s < two64"

definition cursor_wf :: "cursor \<Rightarrow> bool" where
  "cursor_wf c \<longleftrightarrow>
     whole (cu_stream c) \<and> sm_start (cu_stream c) \<le> cu_pos c \<and> cu_pos c \<le> sm_end (cu_stream c)
     \<and> cu_idx c \<le> length (sm_parts (cu_stream c))
     \<and> (\<exists>b \<le> cu_pos c. tiles (sm_start (cu_stream c)) (take (cu_idx c) (sm_parts (cu_stream c))) b)"

lemma length_part_cells: "part_validate p = None \<Longrightarrow> length (part_cells p) = pt_length p"
  by (auto simp: part_cells_def part_validate_ok)

lemma length_stream_cells:
  "all_valid ps \<Longrightarrow> tiles a ps b \<Longrightarrow> length (stream_cells ps) = b - a"
proof (induction ps arbitrary: a)
  case (Cons p ps)
  then have "tiles (a + pt_length p) ps b" by simp
  with Cons length_part_cells [of p] tiles_le [of "a + pt_length p" ps b] show ?case
    by (fastforce simp: stream_cells_def)
qed (simp add: stream_cells_def)

lemma new_cursor_wf: "whole s \<Longrightarrow> cursor_wf (new_cursor s)"
  using tiles_le by (auto simp: cursor_wf_def new_cursor_def whole_def)

lemma length_unread: "cursor_wf c \<Longrightarrow> length (unread c) = cursor_remaining c"
  using length_stream_cells
  by (auto simp: cursor_wf_def whole_def unread_def cursor_remaining_def)

lemma seek_tiling:
  assumes "tiles a ps e" "all_valid ps" "a \<le> pos" "pos \<le> e" "e < two64"
  shows "(\<exists>qs p rs. ps = qs @ p # rs \<and> seek ps i pos = (i + length qs, Some p)
            \<and> tiles a qs (pt_offset p) \<and> pt_offset p \<le> pos \<and> pos < pt_offset p + pt_length p)
       \<or> seek ps i pos = (i + length ps, None) \<and> pos = e"
  using assms
proof (induction ps arbitrary: a i)
  case (Cons p ps)
  then have p: "part_validate p = None" "pt_offset p = a" and t: "tiles (a + pt_length p) ps e" by auto
  then have f: "add64 (pt_offset p) (pt_length p) = a + pt_length p"
    using tiles_le [OF t] Cons.prems(5) by (simp add: add64_fits)
  show ?case
  proof (cases "pos < a + pt_length p")
    case True
    with f p Cons.prems(3) have "seek (p # ps) i pos = (i + length [], Some p)" by simp
    with True p Cons.prems(3) show ?thesis
      by (intro disjI1 exI [of _ "[]"] exI [of _ p] exI [of _ ps]) auto
  next
    case False
    with f have s: "seek (p # ps) i pos = seek ps (i + 1) pos" by simp
    have "all_valid ps" using Cons.prems(2) by simp
    with Cons.IH [OF t this _ Cons.prems(4,5), of "i + 1"] False consider
        (found) qs q rs where "ps = qs @ q # rs" "seek ps (i + 1) pos = (i + 1 + length qs, Some q)"
          "tiles (a + pt_length p) qs (pt_offset q)" "pt_offset q \<le> pos" "pos < pt_offset q + pt_length q"
      | (none) "seek ps (i + 1) pos = (i + 1 + length ps, None)" "pos = e"
      by auto
    then show ?thesis
    proof cases
      case found
      with p s show ?thesis
        by (intro disjI1 exI [of _ "p # qs"] exI [of _ q] exI [of _ rs]) auto
    next
      case none
      with s show ?thesis by auto
    qed
  qed
qed auto

lemma stream_cells_append [simp]: "stream_cells (ps @ qs) = stream_cells ps @ stream_cells qs"
  by (simp add: stream_cells_def)

lemma stream_cells_Cons [simp]: "stream_cells (p # ps) = part_cells p @ stream_cells ps"
  by (simp add: stream_cells_def)

text \<open>\<open>part\<close> finds the part the cursor stands in, or that everything has been read.\<close>

lemma cursor_part_wf:
  assumes wf: "cursor_wf c"
  obtains (part) i p rest where "cursor_part c = (c\<lparr>cu_idx := i\<rparr>, Some p)" "cursor_wf (c\<lparr>cu_idx := i\<rparr>)"
      "part_validate p = None" "pt_offset p \<le> cu_pos c" "cu_pos c < pt_offset p + pt_length p"
      "unread c = drop (cu_pos c - pt_offset p) (part_cells p) @ rest"
  | (finished) i where "cursor_part c = (c\<lparr>cu_idx := i\<rparr>, None)" "unread c = []" "cursor_remaining c = 0"
proof -
  define s where "s = cu_stream c"
  define ps where "ps = drop (cu_idx c) (sm_parts s)"
  from wf obtain b where w: "whole s" "sm_start s \<le> cu_pos c" "cu_pos c \<le> sm_end s" "cu_idx c \<le> length (sm_parts s)"
    and b: "b \<le> cu_pos c" "tiles (sm_start s) (take (cu_idx c) (sm_parts s)) b"
    by (auto simp: cursor_wf_def s_def)
  have split: "sm_parts s = take (cu_idx c) (sm_parts s) @ ps" by (simp add: ps_def)
  have t: "tiles b ps (sm_end s)" and v: "all_valid ps" "all_valid (sm_parts s)" and e: "sm_end s < two64"
  proof -
    from w(1) have "tiles (sm_start s) (take (cu_idx c) (sm_parts s) @ ps) (sm_end s)"
      by (simp add: whole_def flip: split)
    with b(2) show "tiles b ps (sm_end s)" by (auto simp: tiles_append dest: tiles_total)
  qed (use w(1) in \<open>auto simp: whole_def ps_def dest: in_set_dropD\<close>)
  from seek_tiling [OF t v(1) b(1) w(3) e, of "cu_idx c"] consider
      (found) qs p rs where "ps = qs @ p # rs" "seek ps (cu_idx c) (cu_pos c) = (cu_idx c + length qs, Some p)"
        "tiles b qs (pt_offset p)" "pt_offset p \<le> cu_pos c" "cu_pos c < pt_offset p + pt_length p"
    | (none) "seek ps (cu_idx c) (cu_pos c) = (cu_idx c + length ps, None)" "cu_pos c = sm_end s"
    by blast
  then show thesis
  proof cases
    case found
    let ?before = "take (cu_idx c) (sm_parts s) @ qs"
    have parts: "sm_parts s = ?before @ p # rs" using split found(1) by simp
    have tb: "tiles (sm_start s) ?before (pt_offset p)"
      using b(2) found(3) by (auto simp: tiles_append)
    have i: "take (cu_idx c + length qs) (sm_parts s) = ?before"
      using parts w(4) by (metis append_eq_conv_conj length_append length_take min.absorb2)
    have p: "part_validate p = None" and vb: "all_valid ?before"
      using v found(1) by (auto dest: in_set_takeD)
    have l: "length (stream_cells ?before) = pt_offset p - sm_start s"
      by (rule length_stream_cells [OF vb tb])
    have "stream_cells (sm_parts s) = stream_cells ?before @ (part_cells p @ stream_cells rs)"
      by (subst parts) simp
    moreover have "cu_pos c - sm_start s - length (stream_cells ?before) = cu_pos c - pt_offset p"
      using found(4) tiles_le [OF tb] unfolding l by linarith
    ultimately have "unread c = drop (cu_pos c - pt_offset p) (part_cells p @ stream_cells rs)"
      using found(4) l unfolding unread_def s_def [symmetric]
      by (metis append_self_conv2 diff_le_mono drop_all drop_append)
    then have u: "unread c = drop (cu_pos c - pt_offset p) (part_cells p) @ stream_cells rs"
      using found(5) length_part_cells [OF p] by simp
    have "length ps = length (sm_parts s) - cu_idx c" by (simp add: ps_def)
    with found(1) w(4) have "cu_idx c + length qs \<le> length (sm_parts s)" by simp
    then have "cursor_wf (c\<lparr>cu_idx := cu_idx c + length qs\<rparr>)"
      using w tb found(4) i
      by (auto simp: cursor_wf_def s_def [symmetric] intro!: exI [of _ "pt_offset p"])
    with found u p show thesis
      by (intro part [of "cu_idx c + length qs" p]) (auto simp: cursor_part_def ps_def s_def)
  next
    case none
    with w v(2) have "unread c = []"
      using length_stream_cells [of "sm_parts s"] by (auto simp: unread_def whole_def s_def)
    with none show thesis
      by (intro finished [of "cu_idx c + length ps"])
        (auto simp: cursor_part_def ps_def s_def cursor_remaining_def)
  qed
qed

lemma cursor_advance:
  assumes "cursor_wf c" "n \<le> length (unread c)"
  shows "add64 (cu_pos c) n = cu_pos c + n" "cursor_wf (c\<lparr>cu_pos := add64 (cu_pos c) n\<rparr>)"
    "unread (c\<lparr>cu_pos := add64 (cu_pos c) n\<rparr>) = drop n (unread c)"
proof -
  have "cu_pos c + n \<le> sm_end (cu_stream c)" "sm_end (cu_stream c) < two64"
    using assms length_unread [OF assms(1)]
    by (auto simp: cursor_wf_def whole_def cursor_remaining_def split: if_splits)
  then show e: "add64 (cu_pos c) n = cu_pos c + n" by (simp add: add64_fits)
  show "cursor_wf (c\<lparr>cu_pos := add64 (cu_pos c) n\<rparr>)"
    using assms(1) \<open>cu_pos c + n \<le> _\<close> unfolding e by (auto simp: cursor_wf_def intro: le_trans trans_le_add1)
  show "unread (c\<lparr>cu_pos := add64 (cu_pos c) n\<rparr>) = drop n (unread c)"
    using assms(1) unfolding e by (simp add: unread_def cursor_wf_def add.commute)
qed

section \<open>Reading is a list operation on the cells\<close>

fun is_carried :: "cell \<Rightarrow> bool" where
  "is_carried (Carried b) = True"
| "is_carried (Hole g) = False"

fun cell_byte :: "cell \<Rightarrow> bytes" where
  "cell_byte (Carried b) = [b]"
| "cell_byte (Hole g) = []"

definition carried :: "cell list \<Rightarrow> bytes" where
  "carried cs = concat (map cell_byte cs)"

definition holes :: "cell list \<Rightarrow> nat" where
  "holes cs = length (filter (\<lambda>c. \<not> is_carried c) cs)"

lemma carried_simps [simp]:
  "carried [] = []" "carried (cs @ ds) = carried cs @ carried ds" "carried (map Carried bs) = bs"
  "carried (replicate n (Hole g)) = []" "carried (c # cs) = cell_byte c @ carried cs"
proof -
  show "carried (map Carried bs) = bs" by (induction bs) (auto simp: carried_def)
  show "carried (replicate n (Hole g)) = []" by (induction n) (auto simp: carried_def)
qed (simp_all add: carried_def)

lemma holes_simps [simp]:
  "holes [] = 0" "holes (cs @ ds) = holes cs + holes ds" "holes (map Carried bs) = 0"
  "holes (replicate n (Hole g)) = n"
  by (simp_all add: holes_def filter_empty_conv)

lemma carried_holes_length: "length (carried cs) + holes cs = length cs"
proof (induction cs)
  case (Cons c cs)
  then show ?case by (cases c) (simp_all add: holes_def)
qed simp

lemma part_cells_round:
  assumes "part_validate p = None" "k \<le> pt_length p - w"
  shows "pt_gap p = GapNone \<Longrightarrow> take k (drop w (part_cells p)) = map Carried (take k (drop w (pt_bytes p)))"
    and "pt_gap p \<noteq> GapNone \<Longrightarrow> take k (drop w (part_cells p)) = replicate k (Hole (pt_gap p))"
    and "length (drop w (part_cells p)) = pt_length p - w"
  using assms length_part_cells [of p]
  by (auto simp: part_cells_def take_map drop_map min_def)

text \<open>One round of a reading loop: \<open>k\<close> cells taken from the part the cursor stands in.\<close>

lemma cursor_round:
  assumes wf: "cursor_wf c" and n: "0 < n" "n \<le> length (unread c)"
  obtains i p w k c2 where "cursor_part c = (c\<lparr>cu_idx := i\<rparr>, Some p)" "w = cu_pos c - pt_offset p"
    "k = min n (pt_length p - w)" "0 < k" "k \<le> n" "pt_length p - w \<le> length (unread c)" "cursor_wf (c\<lparr>cu_idx := i\<rparr>)"
    "c2 = c\<lparr>cu_idx := i, cu_pos := add64 (cu_pos c) k\<rparr>" "cursor_wf c2" "cu_stream c2 = cu_stream c"
    "cu_pos c2 = cu_pos c + k" "unread c2 = drop k (unread c)" "n - k \<le> length (unread c2)"
    "pt_gap p = GapNone \<Longrightarrow> length (pt_bytes p) = pt_length p \<and> w + k \<le> length (pt_bytes p)
       \<and> take n (unread c) = map Carried (take k (drop w (pt_bytes p))) @ take (n - k) (unread c2)"
    "pt_gap p \<noteq> GapNone \<Longrightarrow> take n (unread c) = replicate k (Hole (pt_gap p)) @ take (n - k) (unread c2)"
  using wf
proof (cases rule: cursor_part_wf)
  case (part i p rest)
  define w where "w = cu_pos c - pt_offset p"
  define k where "k = min n (pt_length p - w)"
  define c1 where "c1 = c\<lparr>cu_idx := i\<rparr>"
  define c2 where "c2 = c1\<lparr>cu_pos := add64 (cu_pos c1) k\<rparr>"
  have u: "unread c1 = unread c" and eq: "cu_pos c1 = cu_pos c" by (simp_all add: c1_def unread_def)
  have k: "k \<le> pt_length p - w" "k \<le> n" "k \<le> length (unread c1)" "0 < k"
    using part(4,5) n u by (auto simp: k_def w_def)
  note cells = part_cells_round [OF part(3) k(1)]
  note adv = cursor_advance [OF part(2) [folded c1_def] k(3), folded c2_def]
  have "take n (unread c) = take k (unread c) @ take (n - k) (drop k (unread c))"
    using take_drop_append_split [of k n "unread c"] k(2) by simp
  moreover have "take k (unread c) = take k (drop w (part_cells p))"
    using part(6) k(1) cells(3) by (simp add: w_def)
  ultimately have t: "take n (unread c) = take k (drop w (part_cells p)) @ take (n - k) (unread c2)"
    using adv(3) u by simp
  show thesis
  proof (rule that)
    show "cursor_part c = (c\<lparr>cu_idx := i\<rparr>, Some p)" by (rule part(1))
    show "w = cu_pos c - pt_offset p" "k = min n (pt_length p - w)" by (fact w_def k_def)+
    show "0 < k" "k \<le> n" "cursor_wf (c\<lparr>cu_idx := i\<rparr>)" by (fact k part)+
    show "pt_length p - w \<le> length (unread c)"
      using part(6) cells(3) by (simp add: w_def)
    show "c2 = c\<lparr>cu_idx := i, cu_pos := add64 (cu_pos c) k\<rparr>" "cu_stream c2 = cu_stream c"
      by (simp_all add: c2_def c1_def)
    show "cursor_wf c2" "cu_pos c2 = cu_pos c + k" "unread c2 = drop k (unread c)"
      using adv u eq by (simp_all add: c2_def)
    then show "n - k \<le> length (unread c2)" using n(2) by simp
    show "length (pt_bytes p) = pt_length p \<and> w + k \<le> length (pt_bytes p)
        \<and> take n (unread c) = map Carried (take k (drop w (pt_bytes p))) @ take (n - k) (unread c2)"
      if "pt_gap p = GapNone"
    proof -
      have l: "length (pt_bytes p) = pt_length p" using that part(3) by (simp add: part_validate_ok)
      moreover have "w < pt_length p" using part(4,5) by (simp add: w_def)
      ultimately show ?thesis using that t cells(1) k(1) by simp
    qed
    show "take n (unread c) = replicate k (Hole (pt_gap p)) @ take (n - k) (unread c2)"
      if "pt_gap p \<noteq> GapNone"
      using that t cells(2) by simp
  qed
next
  case (finished i)
  with n show thesis by simp
qed

lemma take_loop_cells:
  assumes "cursor_wf c" "n \<le> length (unread c)" "length data \<le> nat keep" "holed + n < two64"
  shows "\<exists>c'. take_loop keep c n data holed =
      (c', Inr (data @ take (nat keep - length data) (carried (take n (unread c))), holed + holes (take n (unread c))))
      \<and> cursor_wf c' \<and> cu_stream c' = cu_stream c \<and> cu_pos c' = cu_pos c + n \<and> unread c' = drop n (unread c)"
  using assms
proof (induction n arbitrary: c data holed rule: less_induct)
  case (less n)
  show ?case
  proof (cases "n = 0")
    case True
    with less.prems show ?thesis by (simp add: take_loop.simps [of keep c 0 data holed])
  next
    case False
    then obtain i p w k c2 where r: "cursor_part c = (c\<lparr>cu_idx := i\<rparr>, Some p)" "w = cu_pos c - pt_offset p"
      "k = min n (pt_length p - w)" "0 < k" "k \<le> n" "c2 = c\<lparr>cu_idx := i, cu_pos := add64 (cu_pos c) k\<rparr>"
      "cursor_wf c2" "cu_stream c2 = cu_stream c" "cu_pos c2 = cu_pos c + k" "unread c2 = drop k (unread c)"
      "n - k \<le> length (unread c2)"
      and bytes: "pt_gap p = GapNone \<Longrightarrow> length (pt_bytes p) = pt_length p \<and> w + k \<le> length (pt_bytes p)
        \<and> take n (unread c) = map Carried (take k (drop w (pt_bytes p))) @ take (n - k) (unread c2)"
      and gap: "pt_gap p \<noteq> GapNone \<Longrightarrow> take n (unread c) = replicate k (Hole (pt_gap p)) @ take (n - k) (unread c2)"
      using cursor_round [OF less.prems(1) _ less.prems(2)] by (metis neq0_conv)
    define want where "want = min k (nat keep - length data)"
    have room: "nat (keep - int (length data)) = nat keep - length data"
      by (simp add: nat_diff_distrib')
    have smaller: "n - k < n" using r(4) False by simp
    show ?thesis
    proof (cases "pt_gap p = GapNone")
      case True
      let ?got = "take want (drop w (pt_bytes p))"
      have loop: "take_loop keep c n data holed = take_loop keep c2 (n - k) (data @ ?got) holed"
        using False True r(1) bytes [OF True]
        by (subst take_loop.simps)
          (auto simp: Let_def r(2) [symmetric] r(3) [symmetric] room r(6) want_def)
      have got: "length ?got = want" "?got = take (nat keep - length data) (take k (drop w (pt_bytes p)))"
        using bytes [OF True] by (auto simp: want_def min_def)
      have "want \<le> nat keep - length data" by (simp add: want_def)
      then have "length (data @ ?got) \<le> nat keep" using less.prems(3) got(1) by simp
      moreover have "holed + (n - k) < two64" using less.prems(4) by simp
      ultimately obtain c' where
        "take_loop keep c2 (n - k) (data @ ?got) holed =
          (c', Inr (data @ ?got @ take (nat keep - (length data + want)) (carried (take (n - k) (unread c2))),
            holed + holes (take (n - k) (unread c2))))"
        "cursor_wf c'" "cu_stream c' = cu_stream c2" "cu_pos c' = cu_pos c2 + (n - k)"
        "unread c' = drop (n - k) (unread c2)"
        using less.IH [OF smaller r(7,11), of "data @ ?got" holed] unfolding length_append got(1) append_assoc
        by blast
      moreover have "take (nat keep - (length data + want)) ys = take (nat keep - length data - k) ys" for ys :: bytes
        by (auto simp: want_def min_def)
      moreover have "carried (take n (unread c)) = take k (drop w (pt_bytes p)) @ carried (take (n - k) (unread c2))"
        "holes (take n (unread c)) = holes (take (n - k) (unread c2))" "length (take k (drop w (pt_bytes p))) = k"
        using bytes [OF True] by auto
      ultimately show ?thesis
        using loop got(2) r(5,8-10) by (intro exI [of _ c']) simp
    next
      case False
      have loop: "take_loop keep c n data holed = take_loop keep c2 (n - k) data (holed + k)"
        using False \<open>n \<noteq> 0\<close> r(1) less.prems(4) r(5)
        by (subst take_loop.simps) (simp add: Let_def r(2) [symmetric] r(3) [symmetric] r(6) add64_fits)
      have "holed + k + (n - k) < two64" using less.prems(4) r(5) by simp
      from less.IH [OF smaller r(7,11) less.prems(3) this] obtain c' where
        "take_loop keep c2 (n - k) data (holed + k) =
          (c', Inr (data @ take (nat keep - length data) (carried (take (n - k) (unread c2))),
            holed + k + holes (take (n - k) (unread c2))))"
        "cursor_wf c'" "cu_stream c' = cu_stream c2" "cu_pos c' = cu_pos c2 + (n - k)"
        "unread c' = drop (n - k) (unread c2)"
        by blast
      moreover have "carried (take n (unread c)) = carried (take (n - k) (unread c2))"
        "holes (take n (unread c)) = k + holes (take (n - k) (unread c2))"
        using gap [OF False] by simp_all
      ultimately show ?thesis
        using loop r(5,8-10) by (intro exI [of _ c']) simp
    qed
  qed
qed

text \<open>The bytes up to the next hole, and the reason of that hole.\<close>

definition run :: "cell list \<Rightarrow> bytes" where
  "run cs = carried (takeWhile is_carried cs)"

definition next_hole :: "cell list \<Rightarrow> gap_reason option" where
  "next_hole cs =
     (case dropWhile is_carried cs of Hole g # _ \<Rightarrow> Some g | _ \<Rightarrow> None)"

lemma run_simps [simp]:
  "run [] = []" "run (map Carried bs @ cs) = bs @ run cs" "run (Hole g # cs) = []"
  "next_hole [] = None" "next_hole (map Carried bs @ cs) = next_hole cs" "next_hole (Hole g # cs) = Some g"
proof -
  have "takeWhile is_carried (map Carried bs @ cs) = map Carried bs @ takeWhile is_carried cs"
    "dropWhile is_carried (map Carried bs @ cs) = dropWhile is_carried cs"
    by (induction bs) auto
  then show "run (map Carried bs @ cs) = bs @ run cs" "next_hole (map Carried bs @ cs) = next_hole cs"
    by (simp_all add: run_def next_hole_def)
qed (simp_all add: run_def next_hole_def)

lemma run_map [simp]: "run (map Carried bs) = bs" "next_hole (map Carried bs) = None"
  using run_simps(2) [of bs "[]"] run_simps(5) [of bs "[]"] by simp_all

lemma run_replicate: "0 < k \<Longrightarrow> run (replicate k (Hole g) @ cs) = []"
    "0 < k \<Longrightarrow> next_hole (replicate k (Hole g) @ cs) = Some g"
  by (cases k; simp)+

lemma length_run_le: "length (run cs) \<le> length cs"
  using carried_holes_length [of "takeWhile is_carried cs"] length_takeWhile_le [of is_carried cs]
  by (simp add: run_def)

lemma read_n_loop_cells:
  assumes "cursor_wf c" "n \<le> length (unread c)"
  shows "case next_hole (take n (unread c)) of
      None \<Rightarrow> \<exists>c'. read_n_loop c n out = (c', Inr (out @ run (take n (unread c))))
        \<and> cursor_wf c' \<and> cu_pos c' = cu_pos c + n \<and> unread c' = drop n (unread c)
    | Some g \<Rightarrow> \<exists>c'. read_n_loop c n out = (c', Inl (ErrGap g (cu_pos c + length (run (take n (unread c))))))"
  using assms
proof (induction n arbitrary: c out rule: less_induct)
  case (less n)
  show ?case
  proof (cases "n = 0")
    case True
    with less.prems show ?thesis by (simp add: read_n_loop.simps [of c 0 out])
  next
    case False
    then obtain i p w k c2 where r: "cursor_part c = (c\<lparr>cu_idx := i\<rparr>, Some p)" "w = cu_pos c - pt_offset p"
      "k = min n (pt_length p - w)" "0 < k" "k \<le> n" "c2 = c\<lparr>cu_idx := i, cu_pos := add64 (cu_pos c) k\<rparr>"
      "cursor_wf c2" "cu_pos c2 = cu_pos c + k" "unread c2 = drop k (unread c)" "n - k \<le> length (unread c2)"
      and bytes: "pt_gap p = GapNone \<Longrightarrow> length (pt_bytes p) = pt_length p \<and> w + k \<le> length (pt_bytes p)
        \<and> take n (unread c) = map Carried (take k (drop w (pt_bytes p))) @ take (n - k) (unread c2)"
      and gap: "pt_gap p \<noteq> GapNone \<Longrightarrow> take n (unread c) = replicate k (Hole (pt_gap p)) @ take (n - k) (unread c2)"
      using cursor_round [OF less.prems(1) _ less.prems(2)] by (metis neq0_conv)
    show ?thesis
    proof (cases "pt_gap p = GapNone")
      case True
      let ?got = "take k (drop w (pt_bytes p))"
      have loop: "read_n_loop c n out = read_n_loop c2 (n - k) (out @ ?got)"
        using False True r(1) bytes [OF True]
        by (subst read_n_loop.simps) (auto simp: Let_def r(2) [symmetric] r(3) [symmetric] r(6))
      have t: "run (take n (unread c)) = ?got @ run (take (n - k) (unread c2))" "length ?got = k"
        "next_hole (take n (unread c)) = next_hole (take (n - k) (unread c2))"
        using bytes [OF True] by auto
      have smaller: "n - k < n" using r(4) False by simp
      show ?thesis
        using less.IH [OF smaller r(7,10), of "out @ ?got"] r(5,8,9) t loop
        by (auto split: option.splits)
    next
      case gapped: False
      have "read_n_loop c n out = (c\<lparr>cu_idx := i\<rparr>, Inl (ErrGap (pt_gap p) (cu_pos c)))"
        using False gapped r(1) by (subst read_n_loop.simps) simp
      then show ?thesis
        using gap [OF gapped] run_replicate [OF r(4)] by simp
    qed
  qed
qed

lemma run_take: "run (take m cs) = take m (run cs)"
proof (induction cs arbitrary: m)
  case (Cons c cs)
  then show ?case
    by (cases c; cases m) (simp_all add: run_def)
qed simp

lemma peek_loop_cells:
  assumes "cursor_wf c"
  shows "peek_loop c n out = Inr (out @ take (n - length out) (run (unread c)))"
  using assms
proof (induction "n - length out" arbitrary: c out rule: less_induct)
  case less
  define m where "m = min (n - length out) (length (unread c))"
  have m: "take (n - length out) (run (unread c)) = run (take m (unread c))"
    by (simp add: m_def run_take [symmetric] min_def)
  show ?case
  proof (cases "n \<le> length out")
    case True
    then show ?thesis by (simp add: peek_loop.simps [of c n out])
  next
    case open': False
    show ?thesis
    proof (cases "unread c = []")
      case True
      with less.prems obtain i where "cursor_part c = (c\<lparr>cu_idx := i\<rparr>, None)"
        by (cases rule: cursor_part_wf) (auto dest: length_part_cells)
      with open' True show ?thesis by (simp add: peek_loop.simps [of c n out])
    next
      case False
      then have "0 < m" "m \<le> length (unread c)" using open' by (auto simp: m_def)
      then obtain i p w k c2 where r: "cursor_part c = (c\<lparr>cu_idx := i\<rparr>, Some p)" "w = cu_pos c - pt_offset p"
        "k = min m (pt_length p - w)" "0 < k" "pt_length p - w \<le> length (unread c)"
        "c2 = c\<lparr>cu_idx := i, cu_pos := add64 (cu_pos c) k\<rparr>" "cursor_wf c2" "unread c2 = drop k (unread c)" "k \<le> m"
        and bytes: "pt_gap p = GapNone \<Longrightarrow> length (pt_bytes p) = pt_length p \<and> w + k \<le> length (pt_bytes p)
          \<and> take m (unread c) = map Carried (take k (drop w (pt_bytes p))) @ take (m - k) (unread c2)"
        and gap: "pt_gap p \<noteq> GapNone \<Longrightarrow> take m (unread c) = replicate k (Hole (pt_gap p)) @ take (m - k) (unread c2)"
        using cursor_round [OF less.prems] by metis
      have k: "k = min (n - length out) (pt_length p - w)" using r(3,5) by (simp add: m_def min_def)
      show ?thesis
      proof (cases "pt_gap p = GapNone")
        case True
        let ?got = "take k (drop w (pt_bytes p))"
        have loop: "peek_loop c n out = peek_loop c2 n (out @ ?got)"
          using open' True r(1) bytes [OF True]
          by (subst peek_loop.simps) (auto simp: Let_def r(2) [symmetric] k [symmetric] r(6))
        have got: "length ?got = k" using bytes [OF True] by auto
        then have "n - length (out @ ?got) < n - length out" using open' r(4) by simp
        from less.hyps [OF this r(7)] got
        have "peek_loop c2 n (out @ ?got) = Inr (out @ ?got @ take (n - length out - k) (run (unread c2)))" by simp
        moreover have "take (n - length out - k) (run (unread c2)) = run (take (m - k) (unread c2))"
          using r(8) by (auto simp: run_take [symmetric] m_def min_def)
        ultimately show ?thesis using loop m bytes [OF True] by simp
      next
        case gapped: False
        have "peek_loop c n out = Inr out"
          using open' gapped r(1) by (subst peek_loop.simps) simp
        then show ?thesis using gap [OF gapped] run_replicate(1) [OF r(4)] m by simp
      qed
    qed
  qed
qed

text \<open>The inner loop of \<open>ReadLine\<close> may stop and go on anywhere.\<close>

lemma line_bytes_append:
  "line_bytes max' line saw (xs @ ys) =
     (case line_bytes max' line saw xs of
        Open line' saw' \<Rightarrow> line_bytes max' line' saw' ys
      | Ended line' rest \<Rightarrow> Ended line' (rest @ ys)
      | Overlong rest \<Rightarrow> Overlong (rest @ ys))"
  by (induction max' line saw xs rule: line_bytes.induct) (auto simp: Let_def)

abbreviation held_cr :: "bool \<Rightarrow> bytes" where
  "held_cr saw \<equiv> (if saw then [CHR 0x0D] else [])"

text \<open>
  A line that ended is everything before the carriage return and line feed that ended it,
  and it never outgrows its bound.
\<close>

lemma line_bytes_open:
  "line_bytes max' line saw xs = Open line' saw' \<Longrightarrow> line' @ held_cr saw' = line @ held_cr saw @ xs"
  by (induction max' line saw xs rule: line_bytes.induct) (auto simp: Let_def split: if_splits)

lemma line_bytes_ended:
  "line_bytes max' line saw xs = Ended line' rest \<Longrightarrow>
     line @ held_cr saw @ xs = line' @ [CHR 0x0D, CHR 0x0A] @ rest"
  by (induction max' line saw xs rule: line_bytes.induct) (auto simp: Let_def split: if_splits)

lemma line_bytes_bound:
  assumes "int (length line) \<le> max'"
  shows "line_bytes max' line saw xs = Open line' saw' \<Longrightarrow> int (length line') \<le> max'"
    and "line_bytes max' line saw xs = Ended line' rest \<Longrightarrow> int (length line') \<le> max'"
  using assms
  by (induction max' line saw xs rule: line_bytes.induct) (auto simp: Let_def split: if_splits)

lemma line_bytes_rest:
  assumes "line_bytes max' line saw xs = Ended line' rest \<or> line_bytes max' line saw xs = Overlong rest"
  shows "length rest < length xs"
  using assms
  by (induction max' line saw xs rule: line_bytes.induct) (fastforce simp: Let_def split: if_splits)+

lemma read_line_loop_cells:
  assumes "cursor_wf c"
  shows "case line_bytes max' line saw (run (unread c)) of
      Ended line' rest \<Rightarrow> \<exists>c'. read_line_loop max' c line saw = Some (c', Inr line')
        \<and> cursor_wf c' \<and> cu_pos c' = cu_pos c + (length (run (unread c)) - length rest)
    | Overlong rest \<Rightarrow> \<exists>c'. read_line_loop max' c line saw = Some (c', Inl ErrTooLong)
        \<and> cursor_wf c' \<and> cu_pos c' = cu_pos c + (length (run (unread c)) - length rest)
    | Open line' saw' \<Rightarrow> \<exists>c'. read_line_loop max' c line saw = Some (c',
        Inl (case next_hole (unread c) of
               None \<Rightarrow> ErrShort | Some g \<Rightarrow> ErrGap g (cu_pos c + length (run (unread c)))))"
  using assms
proof (induction "length (unread c)" arbitrary: c line saw rule: less_induct)
  case less
  show ?case
  proof (cases "unread c = []")
    case True
    then have "at_end c" using length_unread [OF less.prems] by (simp add: at_end_def)
    with True show ?thesis by (simp add: read_line_loop.simps [of max' c])
  next
    case False
    then have open': "\<not> at_end c" using length_unread [OF less.prems] by (metis at_end_def length_0_conv)
    from False obtain i p w k c2 where r: "cursor_part c = (c\<lparr>cu_idx := i\<rparr>, Some p)" "w = cu_pos c - pt_offset p"
      "k = min (length (unread c)) (pt_length p - w)" "0 < k" "pt_length p - w \<le> length (unread c)"
      "c2 = c\<lparr>cu_idx := i, cu_pos := add64 (cu_pos c) k\<rparr>" "cursor_wf c2" "unread c2 = drop k (unread c)"
      "cu_pos c2 = cu_pos c + k" "cursor_wf (c\<lparr>cu_idx := i\<rparr>)"
      and bytes: "pt_gap p = GapNone \<Longrightarrow> length (pt_bytes p) = pt_length p \<and> w + k \<le> length (pt_bytes p)
        \<and> unread c = map Carried (take k (drop w (pt_bytes p))) @ unread c2"
      and gap: "pt_gap p \<noteq> GapNone \<Longrightarrow> unread c = replicate k (Hole (pt_gap p)) @ unread c2"
      using cursor_round [OF less.prems _ order_refl] by (smt (verit) length_greater_0_conv length_drop take_all order_refl)
    show ?thesis
    proof (cases "pt_gap p = GapNone")
      case True
      let ?input = "drop w (pt_bytes p)"
      have k: "k = length ?input" "w \<le> length (pt_bytes p)" using bytes [OF True] r(3,5) by (auto simp: min_def)
      with bytes [OF True] have u: "unread c = map Carried ?input @ unread c2" by simp
      have adv: "cursor_wf (c\<lparr>cu_idx := i, cu_pos := add64 (cu_pos c) n\<rparr>)" "add64 (cu_pos c) n = cu_pos c + n"
        if "n \<le> k" for n
      proof -
        have "unread (c\<lparr>cu_idx := i\<rparr>) = unread c" by (simp add: unread_def)
        then have "n \<le> length (unread (c\<lparr>cu_idx := i\<rparr>))" using that u k(1) by simp
        from cursor_advance [OF r(10) this] show "cursor_wf (c\<lparr>cu_idx := i, cu_pos := add64 (cu_pos c) n\<rparr>)"
          "add64 (cu_pos c) n = cu_pos c + n" by simp_all
      qed
      have loop: "read_line_loop max' c line saw =
          (case line_bytes max' line saw ?input of
             Open line' saw' \<Rightarrow> read_line_loop max' c2 line' saw'
           | Ended line' rest \<Rightarrow>
               Some (c\<lparr>cu_idx := i, cu_pos := add64 (cu_pos c) (k - length rest)\<rparr>, Inr line')
           | Overlong rest \<Rightarrow>
               Some (c\<lparr>cu_idx := i, cu_pos := add64 (cu_pos c) (k - length rest)\<rparr>, Inl ErrTooLong))"
        using open' True k by (subst read_line_loop.simps) (simp add: r(1) Let_def r(2) [symmetric] r(6) split: line_scan.split)
      show ?thesis
      proof (cases "line_bytes max' line saw ?input")
        case (Open line' saw')
        have "length (unread c2) < length (unread c)" using r(4,8) False by simp
        from less.hyps [OF this r(7), of line' saw'] show ?thesis
          using loop Open u k(1) r(9) by (auto simp: line_bytes_append split: line_scan.splits option.splits
              dest: line_bytes_rest [OF disjI1] line_bytes_rest [OF disjI2])
      next
        case (Ended line' rest)
        then show ?thesis
          using loop u k(1) adv [of "k - length rest"] line_bytes_rest [of max' line saw ?input line' rest]
          by (simp add: line_bytes_append)
      next
        case (Overlong rest)
        then show ?thesis
          using loop u k(1) adv [of "k - length rest"] line_bytes_rest [of max' line saw ?input _ rest]
          by (simp add: line_bytes_append)
      qed
    next
      case gapped: False
      then have "read_line_loop max' c line saw = Some (c\<lparr>cu_idx := i\<rparr>, Inl (ErrGap (pt_gap p) (cu_pos c)))"
        using open' by (subst read_line_loop.simps) (simp add: r(1))
      then show ?thesis
        using gap [OF gapped] run_replicate [OF r(4)] by simp
    qed
  qed
qed

fun has_crlf :: "bytes \<Rightarrow> bool" where
  "has_crlf (x # y # zs) \<longleftrightarrow> x = CHR 0x0D \<and> y = CHR 0x0A \<or> has_crlf (y # zs)"
| "has_crlf _ \<longleftrightarrow> False"

lemma has_crlf_snoc: "has_crlf (xs @ [b]) \<longleftrightarrow> has_crlf xs \<or> xs \<noteq> [] \<and> last xs = CHR 0x0D \<and> b = CHR 0x0A"
  by (induction xs rule: has_crlf.induct) auto

lemma has_crlf_snoc2: "has_crlf (xs @ [a, b]) \<longleftrightarrow> has_crlf (xs @ [a]) \<or> a = CHR 0x0D \<and> b = CHR 0x0A"
  using has_crlf_snoc [of "xs @ [a]" b] by simp

text \<open>What a line in progress may look like between two bytes.\<close>

definition open_line :: "bytes \<Rightarrow> bool \<Rightarrow> bool" where
  "open_line line saw \<longleftrightarrow> \<not> has_crlf (line @ held_cr saw) \<and> (saw \<or> line = [] \<or> last line \<noteq> CHR 0x0D)"

lemma open_line_step:
  assumes "open_line line saw" "\<not> (saw \<and> b = CHR 0x0A)"
  shows "b = CHR 0x0D \<Longrightarrow> open_line (line @ held_cr saw) True"
    and "b \<noteq> CHR 0x0D \<Longrightarrow> open_line ((line @ held_cr saw) @ [b]) False"
    and "\<not> has_crlf ((line @ held_cr saw) @ [b])"
  using assms by (cases saw; auto simp: open_line_def has_crlf_snoc has_crlf_snoc2)+

lemma line_bytes_first:
  assumes "open_line line saw"
  shows "case line_bytes max' line saw xs of
      Open line' saw' \<Rightarrow> open_line line' saw'
    | Ended line' rest \<Rightarrow> \<not> has_crlf (line' @ [CHR 0x0D])
    | Overlong rest \<Rightarrow> \<exists>us. xs = us @ rest \<and> \<not> has_crlf (line @ held_cr saw @ us)
        \<and> int (length (line @ held_cr saw @ us)) > max'"
  using assms
proof (induction max' line saw xs rule: line_bytes.induct)
  case (2 max' line saw b bs)
  let ?l = "line @ held_cr saw"
  show ?case
  proof (cases "saw \<and> b = CHR 0x0A")
    case True
    with 2(3) show ?thesis by (simp add: open_line_def)
  next
    case False
    note step = open_line_step [OF 2(3) False]
    have l: "(if saw then line @ [CHR 0x0D] else line) = ?l" by simp
    consider (cr) "\<not> (saw \<and> int (length ?l) > max')" "b = CHR 0x0D"
      | (over) "saw \<and> int (length ?l) > max' \<or> b \<noteq> CHR 0x0D \<and> int (length (?l @ [b])) > max'"
      | (byte) "\<not> (saw \<and> int (length ?l) > max')" "b \<noteq> CHR 0x0D" "\<not> int (length (?l @ [b])) > max'"
      by blast
    then show ?thesis
    proof cases
      case cr
      have eq: "line_bytes max' line saw (b # bs) = line_bytes max' ?l True bs"
        using cr False by (auto simp: Let_def)
      show ?thesis
        using 2(1) [OF False l [symmetric]] cr step(1) unfolding eq
        by (fastforce split: line_scan.splits)
    next
      case over
      then have "line_bytes max' line saw (b # bs) = Overlong bs"
        using False by (auto simp: Let_def)
      with over step(3) show ?thesis by (auto intro!: exI [of _ "[b]"])
    next
      case byte
      have eq: "line_bytes max' line saw (b # bs) = line_bytes max' (?l @ [b]) False bs"
        using byte False by (auto simp: Let_def)
      show ?thesis
        using 2(2) [OF False l [symmetric]] byte step(2) unfolding eq
        by (fastforce split: line_scan.splits)
    qed
  qed
qed simp

section \<open>Properties\<close>

lemma sample_stream_whole: "whole sample_stream"
  by (simp add: whole_def sample_stream_def part_validate_def)

lemma sample_cursor:
  "unread (new_cursor sample_stream) = map Carried ''abcde'' @ Hole GapTruncated # replicate 4 (Hole GapMissing)
     @ map Carried ''wxyz''"
  "cursor_remaining (new_cursor sample_stream) = 14" "cu_pos (new_cursor sample_stream) = 0"
  by (simp_all add: sample_stream_def part_cells_def stream_cells_def unread_def new_cursor_def cursor_remaining_def)

text \<open>
  \<open>Take\<close> reads a body exactly.  Asked for more offsets than are left it fails and the
  cursor does not move; otherwise it moves by exactly the offsets asked for, returns the
  captured bytes among them in order, at most \<open>keep\<close> of them, and counts every hole.
\<close>

theorem cursor_take_exact:
  assumes "cursor_wf c"
  shows "if n > cursor_remaining c then cursor_take c n keep = (c, Inl ErrShort)
    else \<exists>c'. cursor_take c n keep =
          (c', Inr (take (nat keep) (carried (take n (unread c))), holes (take n (unread c))))
        \<and> cursor_wf c' \<and> cu_pos c' = cu_pos c + n \<and> unread c' = drop n (unread c)"
proof -
  have "cursor_remaining c < two64"
    using assms by (auto simp: cursor_wf_def whole_def cursor_remaining_def)
  with take_loop_cells [OF assms, of n "[]" keep 0] length_unread [OF assms] show ?thesis
    by (auto simp: cursor_take_def)
qed

theorem cursor_take_exact_witness:
  "\<exists>c'. cursor_take (new_cursor sample_stream) 12 6 = (c', Inr (''abcdew'', 5)) \<and> cu_pos c' = 12"
  using cursor_take_exact [OF new_cursor_wf [OF sample_stream_whole], of 12 6]
  by (auto simp: sample_cursor holes_def)

text \<open>
  \<open>ReadN\<close> never reads across a hole and \<open>Peek\<close> stops at one.  \<open>ReadN\<close> fails short when
  fewer offsets are left, fails at the first hole among the offsets asked for, naming its
  reason and offset, and otherwise returns exactly those bytes; \<open>Peek\<close> returns the bytes
  before the next hole, at most as many as asked for.
\<close>

theorem cursor_read_n_exact:
  assumes "cursor_wf c"
  shows "peek c m = Inr (take m (run (unread c))) \<and>
    (if n > cursor_remaining c then read_n c n = (c, Inl ErrShort)
     else case next_hole (take n (unread c)) of
       None \<Rightarrow> \<exists>c'. read_n c n = (c', Inr (run (take n (unread c))))
         \<and> cursor_wf c' \<and> cu_pos c' = cu_pos c + n \<and> unread c' = drop n (unread c)
     | Some g \<Rightarrow> \<exists>c'. read_n c n = (c', Inl (ErrGap g (cu_pos c + length (run (take n (unread c)))))))"
  using read_n_loop_cells [OF assms, of n "[]"] peek_loop_cells [OF assms, of m "[]"] length_unread [OF assms]
  by (auto simp: read_n_def peek_def split: option.splits)

theorem cursor_read_n_exact_witness:
  "peek (new_cursor sample_stream) 9 = Inr ''abcde'' \<and>
   (\<exists>c'. read_n (new_cursor sample_stream) 7 = (c', Inl (ErrGap GapTruncated 5)))"
  using cursor_read_n_exact [OF new_cursor_wf [OF sample_stream_whole], of 9 7]
  by (simp add: sample_cursor run_def next_hole_def eval_nat_numeral)

text \<open>
  C19: on a stream \<open>Assemble\<close> can return, \<open>ReadLine\<close> always returns.  A line it returns ends
  at the first carriage return and line feed of the bytes at hand, holds everything before
  them and is within its bound; otherwise there is no such pair before the hole or the end
  it reports, or none within the bound it says was reached.
\<close>

theorem cursor_read_line_first:
  assumes "cursor_wf c" "0 \<le> max'"
  shows "\<exists>c' res. read_line_at c max' = Some (c', res) \<and>
    (case res of
       Inr line \<Rightarrow> (\<exists>rest. run (unread c) = line @ [CHR 0x0D, CHR 0x0A] @ rest)
         \<and> \<not> has_crlf (line @ [CHR 0x0D]) \<and> int (length line) \<le> max'
         \<and> cu_pos c' = cu_pos c + length line + 2 \<and> cursor_wf c'
     | Inl ErrShort \<Rightarrow> next_hole (unread c) = None \<and> \<not> has_crlf (run (unread c))
     | Inl (ErrGap g pos) \<Rightarrow> next_hole (unread c) = Some g \<and> \<not> has_crlf (run (unread c))
         \<and> pos = cu_pos c + length (run (unread c))
     | Inl ErrTooLong \<Rightarrow> (\<exists>us rest. run (unread c) = us @ rest \<and> \<not> has_crlf us \<and> int (length us) > max')
     | Inl SliceOutOfRange \<Rightarrow> False)"
proof -
  note loop = read_line_loop_cells [OF assms(1), where max' = max' and line = "[]" and saw = False, folded read_line_at_def]
  note first = line_bytes_first [where line = "[]" and saw = False and max' = max' and xs = "run (unread c)"]
  have o: "open_line [] False" by (simp add: open_line_def)
  show ?thesis
  proof (cases "line_bytes max' [] False (run (unread c))")
    case (Open line saw)
    then have "\<not> has_crlf (run (unread c))"
      using first [OF o] line_bytes_open [OF Open] by (simp add: open_line_def)
    with Open loop show ?thesis by (cases "next_hole (unread c)") auto
  next
    case (Ended line rest)
    with loop first [OF o] line_bytes_ended [OF Ended] line_bytes_bound(2) [OF _ Ended] assms(2)
    show ?thesis by auto
  next
    case (Overlong rest)
    with loop first [OF o] obtain us c' where
      "run (unread c) = us @ rest" "\<not> has_crlf us" "int (length us) > max'"
      "read_line_at c max' = Some (c', Inl ErrTooLong)"
      by auto
    then show ?thesis by (intro exI [of _ c'] exI [of _ "Inl ErrTooLong"]) auto
  qed
qed

definition sample_lines :: stream where
  "sample_lines =
     \<lparr>sm_key = StreamKey (Process 7 1) 1 Sent,
      sm_parts =
        [\<lparr>pt_offset = 4, pt_length = 3, pt_gap = GapNone, pt_bytes = [CHR ''a'', CHR ''b'', CHR 0x0D]\<rparr>,
         \<lparr>pt_offset = 7, pt_length = 2, pt_gap = GapNone, pt_bytes = [CHR 0x0A, CHR ''c'']\<rparr>],
      sm_start = 4, sm_end = 9, sm_conflicts = []\<rparr>"

theorem cursor_read_line_first_witness:
  "\<exists>c'. read_line_at (new_cursor sample_lines) 10 = Some (c', Inr ''ab'') \<and> cu_pos c' = 8"
proof -
  have w: "cursor_wf (new_cursor sample_lines)"
    by (rule new_cursor_wf) (simp add: whole_def sample_lines_def part_validate_def)
  have u: "unread (new_cursor sample_lines) = map Carried [CHR ''a'', CHR ''b'', CHR 0x0D, CHR 0x0A, CHR ''c'']"
    by (simp add: unread_def new_cursor_def sample_lines_def stream_cells_def part_cells_def)
  then have "line_bytes 10 [] False (run (unread (new_cursor sample_lines))) = Ended ''ab'' ''c''"
    by (simp add: run_def)
  then obtain c' where r: "read_line_at (new_cursor sample_lines) 10 = Some (c', Inr ''ab'')"
    using read_line_loop_cells [OF w, where max' = 10 and line = "[]" and saw = False]
    by (auto simp: read_line_at_def)
  have "cu_pos c' = cu_pos (new_cursor sample_lines) + 4"
    using cursor_read_line_first [OF w, of 10] r by simp
  with r show ?thesis by (simp add: new_cursor_def sample_lines_def)
qed

end
