(* ===== verification/Http_Parser_Invariant.thy ===== *)
theory Http_Parser_Invariant
  imports Http_Parser Cursor
begin

text \<open>
  What holds of a parser between any two calls, and of every message it hands over.

  The line scanner is first related to \<open>Cursor.ReadLine\<close>'s own loop, which it follows byte
  by byte.  \<open>parser_wf\<close> is the parser's invariant: where it stands, what it retains and what
  the message in progress may look like in each phase.  \<open>step_ok\<close> is what one step promises,
  and \<open>delivered\<close> what a message handed over is; each operation is shown to keep both, for
  any reserver.
\<close>

section \<open>The line scanner follows ReadLine\<close>

definition scan_agrees :: "bytes \<Rightarrow> bytes \<Rightarrow> scanned \<Rightarrow> line_scan \<Rightarrow> bool" where
  "scan_agrees line xs s found =
     (let line' = line @ held_cr (sc_prepend_cr s) @ take (sc_to s) xs
      in case found of
           Open l saw \<Rightarrow> \<not> sc_done s \<and> \<not> sc_too_long s \<and> sc_consumed s = length xs \<and> line' = l \<and> sc_saw_cr s = saw
             \<and> sc_to s \<le> length xs
         | Ended l rest \<Rightarrow> sc_done s \<and> \<not> sc_too_long s \<and> sc_consumed s = length xs - length rest \<and> line' = l
             \<and> \<not> sc_saw_cr s \<and> sc_to s \<le> length xs
         | Overlong rest \<Rightarrow> \<not> sc_done s \<and> sc_too_long s \<and> sc_consumed s = length xs - length rest)"

lemma scan_from_line_bytes:
  assumes "line = line0 @ held_cr pre @ (if saw then butlast ds else ds)"
    and "ds = [] \<longrightarrow> \<not> pre" "saw \<and> ds \<noteq> [] \<longrightarrow> last ds = CR"
  shows "scan_agrees line0 (ds @ bs) (scan_from bs (length ds) (length line) saw pre max')
           (line_bytes max' line saw bs)"
  using assms
proof (induction bs arbitrary: ds line saw pre)
  case Nil
  then show ?case by (auto simp: scan_agrees_def butlast_conv_take)
next
  case (Cons b bs)
  define pre1 where "pre1 = (if saw then pre \<or> ds = [] else pre)"
  define line1 where "line1 = line @ held_cr saw"
  have l1: "line1 = line0 @ held_cr pre1 @ ds"
    using Cons.prems by (cases ds rule: rev_cases) (auto simp: line1_def pre1_def)
  have len: "length line1 = (if saw then length line + 1 else length line)" by (simp add: line1_def)
  have cr: "scan_agrees line0 (ds @ b # bs) (scan_from bs (length ds + 1) (length line1) True pre1 max')
      (line_bytes max' line1 True bs)" if "b = CR"
    using Cons.IH [of line1 pre1 True "ds @ [b]"] l1 that by simp
  have byte: "scan_agrees line0 (ds @ b # bs) (scan_from bs (length ds + 1) (length line1 + 1) False pre1 max')
      (line_bytes max' (line1 @ [b]) False bs)"
    using Cons.IH [of "line1 @ [b]" pre1 False "ds @ [b]"] l1 by simp
  consider (lf) "saw \<and> b = LF" | (long) "\<not> (saw \<and> b = LF)" "saw \<and> int (length line1) > max'"
    | (cr) "\<not> (saw \<and> b = LF)" "\<not> (saw \<and> int (length line1) > max')" "b = CR"
    | (long2) "\<not> (saw \<and> b = LF)" "\<not> (saw \<and> int (length line1) > max')" "b \<noteq> CR" "int (length line1 + 1) > max'"
    | (byte) "\<not> (saw \<and> b = LF)" "\<not> (saw \<and> int (length line1) > max')" "b \<noteq> CR" "\<not> int (length line1 + 1) > max'"
    by blast
  then show ?case
  proof cases
    case lf
    with Cons.prems show ?thesis by (auto simp: scan_agrees_def butlast_conv_take)
  next
    case cr
    with \<open>b = CR \<Longrightarrow> _\<close> show ?thesis
      by (auto simp: Let_def line1_def pre1_def split: if_splits)
  next
    case byte
    with \<open>scan_agrees _ _ (scan_from _ _ (length line1 + 1) _ _ _) _\<close> show ?thesis
      by (auto simp: Let_def line1_def pre1_def split: if_splits)
  qed (auto simp: Let_def line1_def scan_agrees_def split: if_splits)
qed

lemma scan_line_line_bytes:
  "scan_agrees line xs (scan_line xs (length line) saw max') (line_bytes max' line saw xs)"
  using scan_from_line_bytes [of line line False saw "[]" xs max'] by (simp add: scan_line_def)

section \<open>The invariant\<close>

definition limits_ok :: "limits \<Rightarrow> bool" where
  "limits_ok l \<longleftrightarrow>
     0 < MaxStartLine l \<and> 0 < MaxHeaderLine l \<and> 0 < MaxHeaders l \<and> 0 < MaxHeaderBytes l
     \<and> 0 < MaxBodyBytes l \<and> 0 < MaxChunks l \<and> 0 < MaxTrailers l"

text \<open>The most bytes a parser within these limits retains for one message.\<close>

definition retained_limit :: "limits \<Rightarrow> int" where
  "retained_limit l =
     MaxStartLine l + MaxHeaderBytes l + MaxBodyBytes l + (MaxTrailers l + 1) * MaxHeaderLine l"

definition field_ok :: "header \<Rightarrow> bool" where
  "field_ok h \<longleftrightarrow> is_token (Name h) \<and> is_visible_text (Value h)"

definition message_ok :: "limits \<Rightarrow> message \<Rightarrow> bool" where
  "message_ok l m \<longleftrightarrow>
     int (length (m_headers m)) \<le> MaxHeaders l \<and> int (length (m_body m)) \<le> MaxBodyBytes l
     \<and> int (length (m_trailers m)) \<le> MaxTrailers l
     \<and> (\<forall>h\<in>set (m_headers m) \<union> set (m_trailers m). field_ok h)
     \<and> (0 < m_body_elided m \<longrightarrow> int (length (m_body m)) = MaxBodyBytes l)"

definition body_counted :: "message \<Rightarrow> bool" where
  "body_counted m \<longleftrightarrow> m_body_length m = length (m_body m) + m_body_holed m + m_body_elided m"

text \<open>The framing of a message is the one its own fields declare.\<close>

definition framed_by :: "message \<Rightarrow> bool \<Rightarrow> bool" where
  "framed_by m noBody \<longleftrightarrow>
     (case frame m (m_kind m) noBody of
        (f, n, detail) \<Rightarrow> f = m_framing m \<and> detail = []
          \<and> (f = FramingContentLength \<longrightarrow> m_body_length m = n))"

definition unframed :: "message \<Rightarrow> bool" where
  "unframed m \<longleftrightarrow>
     m_body m = [] \<and> m_body_length m = 0 \<and> m_body_holed m = 0 \<and> m_body_elided m = 0 \<and> m_trailers m = []"

definition phase_ok :: "parser \<Rightarrow> message \<Rightarrow> bool" where
  "phase_ok p m =
     (let chunked = (m_framing m = FramingChunked \<and> (\<exists>noBody. framed_by m noBody))
      in case ps_phase p of
           betweenMessages \<Rightarrow> False
         | inStartLine \<Rightarrow> unframed m \<and> m_headers m = [] \<and> ps_header_bytes p = 0
             \<and> int (length (ps_line p)) \<le> MaxStartLine (ps_limits p)
         | inFields \<Rightarrow> unframed m \<and> int (length (ps_line p)) \<le> MaxHeaderLine (ps_limits p)
         | awaitingAnswer \<Rightarrow> unframed m \<and> ps_kind p = Response \<and> ps_line p = [] \<and> \<not> ps_saw_cr p
         | inDeclaredBody \<Rightarrow>
             m_framing m = FramingContentLength \<and> (\<exists>noBody. framed_by m noBody) \<and> m_trailers m = []
             \<and> ps_line p = [] \<and> \<not> ps_saw_cr p \<and> 0 < ps_remaining p
             \<and> m_body_length m = length (m_body m) + m_body_holed m + m_body_elided m + ps_remaining p
         | inChunkSize \<Rightarrow> chunked \<and> body_counted m \<and> m_trailers m = []
             \<and> int (length (ps_line p)) \<le> MaxHeaderLine (ps_limits p)
         | inChunkData \<Rightarrow> chunked \<and> m_trailers m = [] \<and> ps_line p = [] \<and> \<not> ps_saw_cr p
             \<and> 0 < ps_remaining p \<and> ps_chunk_kept p \<le> length (m_body m)
             \<and> m_body_length m + ps_chunk_kept p = length (m_body m) + m_body_holed m + m_body_elided m
             \<and> ps_chunk_size p = ps_chunk_kept p + ps_chunk_holed p + ps_chunk_elided p + ps_remaining p
             \<and> m_offset m \<le> ps_chunk_start p \<and> ps_next p + ps_remaining p = ps_chunk_start p + ps_chunk_size p
             \<and> (0 < m_body_elided m \<longrightarrow> ps_chunk_kept p = 0)
             \<and> (0 < ps_chunk_elided p \<longrightarrow> int (length (m_body m)) = MaxBodyBytes (ps_limits p))
         | inChunkEnd \<Rightarrow> chunked \<and> body_counted m \<and> m_trailers m = [] \<and> ps_line p = [] \<and> \<not> ps_saw_cr p
             \<and> ps_end_seen p \<le> 1 \<and> m_offset m + ps_end_seen p \<le> ps_next p
         | inTrailers \<Rightarrow> chunked \<and> body_counted m
             \<and> int (length (ps_line p)) \<le> MaxHeaderLine (ps_limits p))"

text \<open>What is retained for the message in progress, the line in progress included.\<close>

definition charge_ok :: "parser \<Rightarrow> message \<Rightarrow> bool" where
  "charge_ok p m \<longleftrightarrow>
     Messages (ps_charge p) = 1
     \<and> int (length (ps_line p)) + int (length (m_body m)) \<le> Bytes (ps_charge p)
     \<and> Bytes (ps_charge p) \<le> (if ps_phase p = inStartLine then 0 else MaxStartLine (ps_limits p))
         + int (ps_header_bytes p) + int (length (m_body m))
         + int (length (m_trailers m)) * MaxHeaderLine (ps_limits p) + int (length (ps_line p))
     \<and> int (ps_header_bytes p) \<le> MaxHeaderBytes (ps_limits p)"

definition in_progress :: "parser \<Rightarrow> message \<Rightarrow> bool" where
  "in_progress p m \<longleftrightarrow>
     m_kind m = ps_kind p \<and> m_offset m = ps_settled p \<and> \<not> m_framed m \<and> \<not> m_complete m
     \<and> m_defect m = DefectNone \<and> message_ok (ps_limits p) m \<and> charge_ok p m \<and> phase_ok p m"

definition at_rest :: "parser \<Rightarrow> bool" where
  "at_rest p \<longleftrightarrow>
     ps_phase p = betweenMessages \<and> ps_charge p = 0 \<and> ps_line p = [] \<and> \<not> ps_saw_cr p
     \<and> (ps_stop p = NeedInput \<and> \<not> ps_ended p \<longrightarrow> ps_next p = ps_settled p)"

definition parser_wf :: "parser \<Rightarrow> bool" where
  "parser_wf p \<longleftrightarrow>
     limits_ok (ps_limits p) \<and> ps_settled p \<le> ps_next p
     \<and> (ps_stop p = NeedInput \<or> result_stopped (ps_stop p))
     \<and> (\<not> ps_started p \<longrightarrow> ps_message p = None \<and> ps_stop p = NeedInput)
     \<and> (case ps_message p of
          None \<Rightarrow> at_rest p
        | Some m \<Rightarrow> ps_stop p = NeedInput \<and> \<not> ps_ended p \<and> in_progress p m)"

section \<open>Messages handed over\<close>

definition delivered :: "parser \<Rightarrow> nat \<Rightarrow> message \<Rightarrow> bool" where
  "delivered p last' m \<longleftrightarrow>
     m_kind m = ps_kind p \<and> m_offset m = ps_settled p \<and> m_offset m \<le> m_end m \<and> m_end m = last'
     \<and> message_ok (ps_limits p) m
     \<and> length (m_body m) + m_body_holed m + m_body_elided m \<le> m_body_length m
     \<and> (m_complete m \<longrightarrow> m_framed m)
     \<and> (if m_framed m
         then body_counted m \<and> (\<exists>noBody. framed_by m noBody)
           \<and> (m_complete m \<longleftrightarrow> m_body_holed m = 0)
           \<and> (m_defect m = (if m_complete m then DefectNone else DefectHole))
           \<and> m_framing m \<in> {FramingNone, FramingContentLength, FramingChunked}
         else m_defect m \<noteq> DefectNone)"

definition handed_charge :: "parser \<Rightarrow> charge \<Rightarrow> bool" where
  "handed_charge p c \<longleftrightarrow> Messages c = 1 \<and> 0 \<le> Bytes c \<and> Bytes c \<le> retained_limit (ps_limits p)"

definition same_direction :: "parser \<Rightarrow> parser \<Rightarrow> bool" where
  "same_direction p p' \<longleftrightarrow>
     ps_kind p' = ps_kind p \<and> ps_limits p' = ps_limits p \<and> ps_started p' = ps_started p
     \<and> ps_ended p' = ps_ended p \<and> ps_next p \<le> ps_next p'"

definition event_ok :: "parser \<Rightarrow> parser \<Rightarrow> progress \<Rightarrow> bool" where
  "event_ok p p' pr =
     (case pg_result pr of
        Framed \<Rightarrow> ps_message p' = None \<and> ps_stop p' = NeedInput \<and> handed_charge p (pg_charge pr)
          \<and> (\<exists>m. pg_message pr = Some m \<and> m_framed m \<and> delivered p (ps_settled p') m)
      | Head \<Rightarrow> (\<exists>m. ps_message p' = Some m \<and> pg_message pr = Some m) \<and> pg_charge pr = 0
          \<and> ps_settled p' = ps_settled p
      | End \<Rightarrow> False
      | res \<Rightarrow>
          if result_stopped res
          then ps_message p' = None \<and> ps_stop p' = res \<and> handed_charge p (pg_charge pr)
            \<and> (\<exists>m. pg_message pr = Some m \<and> \<not> m_framed m \<and> delivered p (ps_settled p') m)
          else pg_message pr = None \<and> pg_charge pr = 0 \<and> ps_settled p' = ps_settled p)"

definition step_ok :: "parser \<Rightarrow> parser \<times> progress option \<Rightarrow> bool" where
  "step_ok p out =
     (case out of
        (p', ev) \<Rightarrow> parser_wf p' \<and> same_direction p p'
          \<and> (case ev of
               None \<Rightarrow> ps_message p' \<noteq> None \<and> ps_settled p' = ps_settled p
             | Some pr \<Rightarrow> event_ok p p' pr))"

section \<open>Handing over\<close>

lemma frame_cong:
  "m_headers m' = m_headers m \<Longrightarrow> m_status m' = m_status m \<Longrightarrow> frame m' k b = frame m k b"
  by (auto simp: frame_def Let_def)

lemma framed_by_cong:
  assumes "framed_by m noBody" "m_headers m' = m_headers m" "m_status m' = m_status m" "m_kind m' = m_kind m"
    "m_framing m' = m_framing m"
    "m_framing m = FramingContentLength \<Longrightarrow> m_body_length m' = m_body_length m"
  shows "framed_by m' noBody"
  using assms frame_cong [of m' m] by (auto simp: framed_by_def)

lemma read_header_field_ok: "read_header line = Some h \<Longrightarrow> field_ok h"
  by (auto simp: read_header_def field_ok_def Let_def split: if_splits option.splits nat.splits)

lemma wf_message:
  assumes "parser_wf p" "ps_message p = Some m"
  shows "current p = m" "in_progress p m" "ps_stop p = NeedInput" "\<not> ps_ended p" "ps_started p"
    "limits_ok (ps_limits p)" "ps_settled p \<le> ps_next p"
  using assms by (auto simp: parser_wf_def current_def)

text \<open>The charge of a message with no line in progress stays within the limit.\<close>

lemma handed_charge_line:
  assumes "charge_ok p m" "message_ok (ps_limits p) m" "limits_ok (ps_limits p)"
    "c = ps_charge p - Charge (int (length (ps_line p))) 0"
  shows "handed_charge p c"
proof -
  let ?l = "ps_limits p"
  define t where "t = int (length (m_trailers m)) * MaxHeaderLine ?l"
  define T where "T = MaxTrailers ?l * MaxHeaderLine ?l"
  have "t \<le> T"
    using assms(2,3) unfolding t_def T_def
    by (intro mult_right_mono) (auto simp: message_ok_def limits_ok_def)
  then show ?thesis
    using assms(1-3) unfolding assms(4)
    by (auto simp: handed_charge_def charge_ok_def message_ok_def limits_ok_def retained_limit_def distrib_right
        t_def [symmetric] T_def [symmetric] split: if_splits)
qed

lemma handed_charge_no_line:
  assumes "charge_ok p m" "message_ok (ps_limits p) m" "limits_ok (ps_limits p)" "ps_line p = []"
  shows "handed_charge p (ps_charge p)"
  by (rule handed_charge_line [OF assms(1-3)]) (simp add: assms(4) charge_eq_iff)

lemma hand_over_framed:
  assumes wf: "parser_wf p" "ps_message p = Some m0"
    and q: "same_direction p q" "ps_message q = Some m" "ps_settled q = ps_settled p" "ps_stop q = NeedInput"
      "handed_charge p (ps_charge q)"
    and m: "m_framed m" "delivered p (ps_next q) (m\<lparr>m_end := ps_next q\<rparr>)"
  shows "step_ok p (map_prod id Some (hand_over q Framed))"
  using wf_message [OF wf] q m
  by (auto simp: step_ok_def hand_over_def Let_def current_def event_ok_def parser_wf_def at_rest_def
      same_direction_def)

text \<open>A message that may be handed over unframed, where it stands.\<close>

definition unended :: "parser \<Rightarrow> message \<Rightarrow> bool" where
  "unended p m \<longleftrightarrow>
     m_kind m = ps_kind p \<and> m_offset m = ps_settled p \<and> \<not> m_framed m \<and> \<not> m_complete m
     \<and> message_ok (ps_limits p) m
     \<and> length (m_body m) + m_body_holed m + m_body_elided m \<le> m_body_length m"

lemma in_progress_unended:
  "in_progress p m \<Longrightarrow> ps_phase p \<noteq> inChunkData \<Longrightarrow> unended p m"
  by (cases "ps_phase p")
    (auto simp: in_progress_def unended_def phase_ok_def unframed_def body_counted_def)

lemma release_parser: "snd (release R r p (int n)) = p\<lparr>ps_charge := ps_charge p - Charge (int n) 0\<rparr>"
proof -
  have "ps_charge p - Charge 0 0 = ps_charge p" by (simp add: charge_eq_iff)
  then show ?thesis by (simp add: release_def)
qed

lemma drop_line_parser:
  "snd (drop_line R r p) =
     p\<lparr>ps_charge := ps_charge p - Charge (int (length (ps_line p))) 0, ps_line := [], ps_saw_cr := False\<rparr>"
  by (simp add: drop_line_def split_beta release_parser)

lemma stop_for_stopped: "result_stopped (stop_for d)" "stop_for d \<noteq> NeedInput"
  by (auto simp: stop_for_def result_stopped_def split: defect.splits)

lemma stopped_event:
  assumes "result_stopped (pg_result pr)"
  shows "event_ok p p' pr \<longleftrightarrow>
    ps_message p' = None \<and> ps_stop p' = pg_result pr \<and> handed_charge p (pg_charge pr)
      \<and> (\<exists>m. pg_message pr = Some m \<and> \<not> m_framed m \<and> delivered p (ps_settled p') m)"
  using assms by (auto simp: event_ok_def result_stopped_def)

text \<open>A stop hands the message over where the parser stands; only the line is left behind.\<close>

lemma hand_over_stopped:
  assumes wf: "parser_wf p" "ps_message p = Some m0"
    and q: "same_direction p q" "ps_message q = Some m" "ps_settled q = ps_settled p"
      "ps_charge q = ps_charge p - Charge (int (length (ps_line p))) 0" "ps_stop q = res"
    and m: "unended p m" "m_defect m \<noteq> DefectNone" and res: "result_stopped res"
  shows "step_ok p (map_prod id Some (hand_over q res))"
proof -
  note w = wf_message [OF wf]
  have c: "handed_charge p (ps_charge q)"
    using handed_charge_line [of p m0] w(2,6) q(4) by (auto simp: in_progress_def)
  have "delivered p (ps_next q) (m\<lparr>m_end := ps_next q\<rparr>)"
    using m w(7) q(1) by (auto simp: delivered_def unended_def message_ok_def same_direction_def)
  moreover have "parser_wf (fst (hand_over q res))"
    using q(1,5) w res
    by (auto simp: hand_over_def Let_def parser_wf_def at_rest_def same_direction_def result_stopped_def)
  ultimately show ?thesis
    using q m(1) c res w
    by (auto simp: step_ok_def stopped_event hand_over_def Let_def current_def same_direction_def unended_def)
qed

lemma refuse_ok:
  assumes wf: "parser_wf p" "ps_message p = Some m0"
    and q: "same_direction p q" "ps_message q = Some m" "ps_settled q = ps_settled p"
      "ps_charge q = ps_charge p - Charge (int (length (ps_line p))) 0"
    and m: "unended p m" and d: "d \<noteq> DefectNone"
  shows "step_ok p (map_prod id Some (refuse q d detail))"
proof -
  let ?q = "(set_current q (m\<lparr>m_defect := d, m_detail := detail\<rparr>))\<lparr>ps_stop := stop_for d\<rparr>"
  have "refuse q d detail = hand_over ?q (stop_for d)"
    using q(2) by (simp add: refuse_def current_def set_current_def)
  moreover have "step_ok p (map_prod id Some (hand_over ?q (stop_for d)))"
    by (rule hand_over_stopped [OF wf, where m = "m\<lparr>m_defect := d, m_detail := detail\<rparr>"])
      (use q m d in \<open>auto simp: same_direction_def set_current_def unended_def message_ok_def stop_for_stopped\<close>)
  ultimately show ?thesis by simp
qed

lemma step_ok_trans:
  assumes "same_direction p p1" "ps_settled p1 = ps_settled p" "step_ok p1 out"
  shows "step_ok p out"
proof -
  have "delivered p1 = delivered p" "handed_charge p1 = handed_charge p"
    using assms(1,2) by (auto simp: delivered_def handed_charge_def same_direction_def fun_eq_iff)
  moreover from this have "event_ok p1 = event_ok p"
    using assms(2) by (auto simp: event_ok_def fun_eq_iff split: result.splits)
  ultimately show ?thesis
    using assms by (auto simp: step_ok_def same_direction_def split: option.splits prod.splits)
qed

text \<open>An event that hands nothing over and changes nothing but what was looked at.\<close>

lemma plain_step_ok:
  assumes "parser_wf p'" "same_direction p p'" "ps_settled p' = ps_settled p"
    "res = NeedInput \<or> res = NeedRequest \<or> res = Refused"
  shows "step_ok p (p', Some (plain_progress res))"
  using assms by (auto simp: step_ok_def event_ok_def plain_progress_def result_stopped_def)

section \<open>Lines\<close>

definition line_max :: "parser \<Rightarrow> int" where
  "line_max p = (if ps_phase p = inStartLine then MaxStartLine (ps_limits p) else MaxHeaderLine (ps_limits p))"

text \<open>\<open>readLine\<close> as the three things it can do.\<close>

lemma read_line_cases:
  obtains (overlong) r' rest p' where
      "line_bytes max' (ps_line p) (ps_saw_cr p) input = Overlong rest"
      "read_line R r p input max' ctx = (r', fst (refuse p' DefectLimit (ctx @ '': '' @ err_too_long)), False,
         Some (snd (refuse p' DefectLimit (ctx @ '': '' @ err_too_long))))"
      "drop_line R r (p\<lparr>ps_examined := ps_examined p + (length input - length rest),
         ps_next := ps_next p + (length input - length rest)\<rparr>) = (r', p')"
  | (refused) r' n k where "0 < n"
      "Reserve R r (Charge (int n) 0) = (False, r')"
      "read_line R r p input max' ctx = (r', p\<lparr>ps_examined := ps_examined p + k\<rparr>, False, Some (plain_progress Refused))"
  | (granted) r' line' saw' k fin where
      "line_bytes max' (ps_line p) (ps_saw_cr p) input = Open line' saw' \<and> k = length input \<and> \<not> fin
       \<or> (\<exists>rest. line_bytes max' (ps_line p) (ps_saw_cr p) input = Ended line' rest \<and> \<not> saw' \<and> fin
            \<and> k = length input - length rest)"
      "length (ps_line p) \<le> length line'"
      "length line' = length (ps_line p) \<and> r' = r \<or> length (ps_line p) < length line'
         \<and> Reserve R r (Charge (int (length line' - length (ps_line p))) 0) = (True, r')"
      "read_line R r p input max' ctx = (r', p\<lparr>ps_examined := ps_examined p + k, ps_line := line',
         ps_charge := ps_charge p + Charge (int (length line' - length (ps_line p))) 0,
         ps_saw_cr := saw', ps_next := ps_next p + k\<rparr>, fin, None)"
proof -
  define s where "s = scan_line input (length (ps_line p)) (ps_saw_cr p) max'"
  note agrees = scan_line_line_bytes [of "ps_line p" input "ps_saw_cr p" max', folded s_def, unfolded scan_agrees_def Let_def]
  show thesis
  proof (cases "sc_too_long s")
    case True
    then obtain rest where o: "line_bytes max' (ps_line p) (ps_saw_cr p) input = Overlong rest"
      and k: "sc_consumed s = length input - length rest"
      using agrees by (auto split: line_scan.splits)
    obtain r' p' where d: "drop_line R r (p\<lparr>ps_examined := ps_examined p + (length input - length rest),
         ps_next := ps_next p + (length input - length rest)\<rparr>) = (r', p')"
      by (meson surj_pair)
    show thesis
      by (rule overlong [OF o _ d])
        (use True k d in \<open>simp add: read_line_def s_def [symmetric] Let_def split_beta\<close>)
  next
    case False
    define line' where "line' = ps_line p @ held_cr (sc_prepend_cr s) @ take (sc_to s) input"
    define n where "n = length line' - length (ps_line p)"
    have out: "line_bytes max' (ps_line p) (ps_saw_cr p) input = Open line' (sc_saw_cr s)
          \<and> sc_consumed s = length input \<and> \<not> sc_done s
       \<or> (\<exists>rest. line_bytes max' (ps_line p) (ps_saw_cr p) input = Ended line' rest \<and> \<not> sc_saw_cr s \<and> sc_done s
            \<and> sc_consumed s = length input - length rest)" and to: "sc_to s \<le> length input"
      using agrees False by (auto simp: line'_def split: line_scan.splits)
    have grow: "int (sc_to s) + (if sc_prepend_cr s then 1 else 0) = int n"
      "length (ps_line p) \<le> length line'" "length line' = length (ps_line p) \<longleftrightarrow> n = 0"
      using to by (auto simp: n_def line'_def)
    have e: "read_line R r p input max' ctx =
       (let p1 = p\<lparr>ps_examined := ps_examined p + sc_consumed s\<rparr>;
            p2 = p1\<lparr>ps_line := line', ps_charge := ps_charge p1 + Charge (int n) 0,
                    ps_saw_cr := sc_saw_cr s, ps_next := ps_next p1 + sc_consumed s\<rparr>
        in if 0 < n
           then (case Reserve R r (Charge (int n) 0) of
                   (False, r') \<Rightarrow> (r', p1, False, Some (plain_progress Refused))
                 | (True, r') \<Rightarrow> (r', p2, sc_done s, None))
           else (r, p2, sc_done s, None))"
      using False grow(1)
      by (auto simp: read_line_def s_def [symmetric] Let_def line'_def split: prod.split bool.split)
    show thesis
    proof (cases "0 < n")
      case pos: True
      obtain ok r' where res: "Reserve R r (Charge (int n) 0) = (ok, r')" by (meson surj_pair)
      show thesis
      proof (cases ok)
        case True
        then have "Reserve R r (Charge (int (length line' - length (ps_line p))) 0) = (True, r')"
          using res by (simp add: n_def)
        then show thesis
          using pos e by (intro granted [OF out grow(2), of r']) (simp_all add: n_def)
      next
        case False
        with e pos res show thesis by (intro refused [of n r' "sc_consumed s"]) (auto simp: Let_def)
      qed
    next
      case False
      with grow(3) e show thesis
        by (intro granted [OF out grow(2), of r]) (simp_all add: n_def [symmetric])
    qed
  qed
qed

definition reading :: "parser \<Rightarrow> message \<Rightarrow> bool" where
  "reading p m \<longleftrightarrow> parser_wf p \<and> ps_message p = Some m \<and> in_line (ps_phase p)"

lemma phase_ok_line:
  assumes "in_line (ps_phase p)"
  shows "phase_ok p m \<longleftrightarrow>
    int (length (ps_line p)) \<le> line_max p \<and>
    (if ps_phase p = inStartLine then unframed m \<and> m_headers m = [] \<and> ps_header_bytes p = 0
     else if ps_phase p = inFields then unframed m
     else m_framing m = FramingChunked \<and> (\<exists>noBody. framed_by m noBody) \<and> body_counted m
       \<and> (ps_phase p = inChunkSize \<longrightarrow> m_trailers m = []))"
  using assms by (auto simp: phase_ok_def in_line_def line_max_def Let_def)

lemma read_line_wf:
  assumes p: "reading p m"
    and read: "read_line R r p input (line_max p) ctx = (r', p', fin, ev)"
  shows "case ev of
      Some pr \<Rightarrow> step_ok p (p', Some pr)
    | None \<Rightarrow> reading p' m \<and> same_direction p p' \<and> ps_settled p' = ps_settled p \<and> ps_phase p' = ps_phase p
        \<and> (fin \<longrightarrow> \<not> ps_saw_cr p')"
proof (cases rule: read_line_cases [where R = R and r = r and p = p and input = input and max' = "line_max p" and ctx = ctx])
  case (overlong s rest p'')
  note w = wf_message [of p m] 
  have drop: "p'' = (p\<lparr>ps_examined := ps_examined p + (length input - length rest), 
      ps_next := ps_next p + (length input - length rest)\<rparr>)\<lparr>ps_charge := ps_charge p - Charge (int (length (ps_line p))) 0,
      ps_line := [], ps_saw_cr := False\<rparr>"
    using drop_line_parser [of R r "p\<lparr>ps_examined := ps_examined p + (length input - length rest), 
      ps_next := ps_next p + (length input - length rest)\<rparr>"] overlong(3) by simp
  have "step_ok p (map_prod id Some (refuse p'' DefectLimit (ctx @ '': '' @ err_too_long)))"
    by (rule refuse_ok [of p m _ m])
      (use p w in \<open>auto simp: drop reading_def same_direction_def in_line_def intro!: in_progress_unended\<close>)
  then show ?thesis
    using overlong(2) read by (auto simp: map_prod_def split_beta)
next
  case (refused s n k)
  then show ?thesis
    using p read by (auto simp: reading_def intro!: plain_step_ok)
      (auto simp: parser_wf_def same_direction_def in_progress_def charge_ok_def phase_ok_def Let_def split: phase.splits)
next
  case (granted s line' saw' k fin')
  have ip: "in_progress p m" "parser_wf p" "ps_message p = Some m" "in_line (ps_phase p)"
    using p wf_message(2) by (auto simp: reading_def)
  then have "int (length (ps_line p)) \<le> line_max p"
    by (simp add: in_progress_def phase_ok_line)
  then have bound: "int (length line') \<le> line_max p"
    using granted(1) line_bytes_bound by blast
  have p': "p' = p\<lparr>ps_examined := ps_examined p + k, ps_line := line',
         ps_charge := ps_charge p + Charge (int (length line' - length (ps_line p))) 0,
         ps_saw_cr := saw', ps_next := ps_next p + k\<rparr>" "ev = None" "fin = fin'"
    using granted(4) read by simp_all
  have "line_max p' = line_max p" by (simp add: line_max_def p')
  then have "phase_ok p' m"
    using ip bound by (simp add: in_progress_def phase_ok_line p')
  moreover have "charge_ok p' m"
    using ip granted(2) by (auto simp: in_progress_def charge_ok_def p' of_nat_diff)
  ultimately have "in_progress p' m"
    using ip by (simp add: in_progress_def p')
  then show ?thesis
    using ip granted(1) by (auto simp: reading_def parser_wf_def same_direction_def p')
qed

lemma with_line_ok:
  assumes p: "reading p m"
    and k: "\<And>r q. reading q m \<Longrightarrow> ps_phase q = ps_phase p \<Longrightarrow> \<not> ps_saw_cr q \<Longrightarrow> step_ok q (snd (k R r q))"
  shows "step_ok p (snd (with_line R r p input (line_max p) ctx k))"
proof -
  obtain r' p' fin ev where read: "read_line R r p input (line_max p) ctx = (r', p', fin, ev)"
    by (metis prod_cases4)
  show ?thesis
  proof (cases ev)
    case None
    with read_line_wf [OF p read] have q: "reading p' m" "same_direction p p'" "ps_settled p' = ps_settled p"
      "ps_phase p' = ps_phase p" "fin \<longrightarrow> \<not> ps_saw_cr p'" by auto
    show ?thesis
    proof (cases fin)
      case True
      with q k have "step_ok p' (snd (k R r' p'))" by simp
      from step_ok_trans [OF q(2,3) this] show ?thesis
        using read None True by (simp add: with_line_def)
    next
      case False
      with q read None show ?thesis by (simp add: with_line_def step_ok_def reading_def)
    qed
  next
    case (Some pr)
    with read_line_wf [OF p read] read show ?thesis by (simp add: with_line_def)
  qed
qed

lemma reading_facts:
  assumes "reading p m"
  shows "parser_wf p" "ps_message p = Some m" "in_progress p m" "unended p m" "current p = m"
    "ps_stop p = NeedInput" "\<not> ps_ended p" "ps_started p" "limits_ok (ps_limits p)" "ps_settled p \<le> ps_next p"
    "int (length (ps_line p)) \<le> line_max p"
  using assms wf_message [of p m] in_progress_unended [of p m] phase_ok_line [of p m]
  by (auto simp: reading_def in_line_def in_progress_def)

lemma release_refuse_ok:
  assumes p: "reading p m"
    and q: "same_direction p q" "ps_message q = Some m" "ps_settled q = ps_settled p" "ps_charge q = ps_charge p"
    and d: "d \<noteq> DefectNone"
  shows "step_ok p (snd (release_refuse R r q (ps_line p) d detail))"
proof -
  have "step_ok p (map_prod id Some (refuse (snd (release R r q (int (length (ps_line p))))) d detail))"
    unfolding release_parser
    by (rule refuse_ok [of p m _ m]) (use reading_facts [OF p] q d in \<open>auto simp: same_direction_def\<close>)
  then show ?thesis
    by (simp add: release_refuse_def split_beta map_prod_def)
qed

lemma read_request_line_message:
  "read_request_line m line = Some m' \<Longrightarrow> \<exists>a b c. m' = m\<lparr>m_method := a, m_target := b, m_protocol := c\<rparr>"
  by (auto simp: read_request_line_def Let_def split: if_splits list.splits)

lemma read_status_line_message:
  "read_status_line m line = Some m' \<Longrightarrow> \<exists>a b c. m' = m\<lparr>m_protocol := a, m_status := b, m_reason := c\<rparr>"
  by (auto simp: read_status_line_def Let_def split: if_splits option.splits)

lemma started_line_ok:
  assumes p: "reading p m" "ps_phase p = inStartLine"
    and m': "(\<exists>a b c. m' = m\<lparr>m_method := a, m_target := b, m_protocol := c\<rparr>)
      \<or> (\<exists>a b c. m' = m\<lparr>m_protocol := a, m_status := b, m_reason := c\<rparr>)"
  shows "step_ok p ((set_current (p\<lparr>ps_line := [], ps_saw_cr := False\<rparr>) m')\<lparr>ps_phase := inFields\<rparr>, None)"
proof -
  note f = reading_facts [OF p(1)]
  have "in_progress ((set_current (p\<lparr>ps_line := [], ps_saw_cr := False\<rparr>) m')\<lparr>ps_phase := inFields\<rparr>) m'"
    using f(3,9,11) p(2) m'
    by (auto simp: in_progress_def phase_ok_def unframed_def charge_ok_def message_ok_def set_current_def line_max_def
        limits_ok_def)
  then show ?thesis
    using f by (auto simp: step_ok_def parser_wf_def same_direction_def set_current_def)
qed

lemma read_start_ok:
  assumes p: "reading p m" "ps_phase p = inStartLine"
  shows "step_ok p (snd (read_start R r p))"
proof -
  let ?q = "p\<lparr>ps_line := [], ps_saw_cr := False\<rparr>"
  have c: "current ?q = m" "ps_kind ?q = ps_kind p"
    using reading_facts [OF p(1)] by (simp_all add: current_def)
  have refuse: "step_ok p (snd (release_refuse R r ?q (ps_line p) DefectMalformed detail))" for detail
    by (rule release_refuse_ok [OF p(1)]) (use reading_facts [OF p(1)] in \<open>auto simp: same_direction_def\<close>)
  have start: "step_ok p ((set_current ?q m')\<lparr>ps_phase := inFields\<rparr>, None)"
    if "read_request_line m (ps_line p) = Some m' \<or> read_status_line m (ps_line p) = Some m'" for m'
    using that read_request_line_message read_status_line_message by (intro started_line_ok [OF p]) blast
  show ?thesis
    by (simp add: read_start_def take_line_def c refuse start split: kind.split option.split)
qed

section \<open>Framing\<close>

lemma frame_detail:
  assumes "frame m k b = (f, n, detail)" "f \<noteq> FramingNone" "f \<noteq> FramingAmbiguous"
  shows "detail = []"
  using assms
  by (auto simp: frame_def Let_def frame_encoding_def frame_length_def split: if_splits option.splits)

text \<open>The end of a body: the message is framed, and complete unless a hole took bytes of it.\<close>

lemma settle_body_eq:
  assumes "\<not> m_complete m" "m_defect m = DefectNone"
  shows "settle_body m =
    m\<lparr>m_framed := True, m_defect := (if 0 < m_body_holed m then DefectHole else DefectNone),
      m_detail := (if 0 < m_body_holed m then hole_detail m else m_detail m), m_complete := (m_body_holed m = 0)\<rparr>"
  using assms by (cases m) (simp add: settle_body_def Let_def hole_detail_def)

lemma settle_body_framed:
  fixes p q :: parser and m m0 :: message
  assumes wf: "parser_wf p" "ps_message p = Some m0"
    and q: "same_direction p q" "ps_message q = Some m" "ps_settled q = ps_settled p" "ps_stop q = NeedInput"
      "ps_line q = []" "charge_ok q m"
    and m: "m_kind m = ps_kind p" "m_offset m = ps_settled p" "\<not> m_complete m" "m_defect m = DefectNone"
      "message_ok (ps_limits p) m" "body_counted m" "framed_by m noBody"
      "m_framing m = FramingContentLength \<or> m_framing m = FramingChunked"
  shows "step_ok p (map_prod id Some (hand_over (set_current q (settle_body (current q))) Framed))"
proof (rule hand_over_framed [OF wf])
  let ?m = "settle_body m"
  have c: "current q = m" using q(2) by (simp add: current_def)
  note s = settle_body_eq [OF m(3,4)]
  have fb: "\<exists>noBody. framed_by (?m\<lparr>m_end := n\<rparr>) noBody" for n
    by (rule exI, rule framed_by_cong [OF m(7)]) (simp_all add: s)
  show "same_direction p (set_current q (settle_body (current q)))"
    "ps_message (set_current q (settle_body (current q))) = Some ?m"
    "ps_settled (set_current q (settle_body (current q))) = ps_settled p"
    "ps_stop (set_current q (settle_body (current q))) = NeedInput"
    using q c by (simp_all add: set_current_def same_direction_def)
  have "limits_ok (ps_limits q)" "message_ok (ps_limits q) m" "handed_charge p = handed_charge q"
    using wf_message(6) [OF wf] q(1) m(5) by (simp_all add: same_direction_def handed_charge_def fun_eq_iff)
  then show "handed_charge p (ps_charge (set_current q (settle_body (current q))))"
    using handed_charge_no_line [OF q(6)] q(5) by (simp add: set_current_def)
  show "m_framed ?m" by (simp add: s)
  have "m_offset m \<le> ps_next q" using wf_message(7) [OF wf] q(1) m(2) by (simp add: same_direction_def)
  then show "delivered p (ps_next (set_current q (settle_body (current q))))
      (?m\<lparr>m_end := ps_next (set_current q (settle_body (current q)))\<rparr>)"
    using m fb [of "ps_next q"] by (auto simp: delivered_def s message_ok_def body_counted_def set_current_def)
qed

text \<open>A parser that changed only where it stands in its message, or the message itself.\<close>

definition moved :: "parser \<Rightarrow> parser \<Rightarrow> message \<Rightarrow> bool" where
  "moved p q m \<longleftrightarrow>
     same_direction p q \<and> ps_message q = Some m \<and> ps_settled q = ps_settled p \<and> ps_stop q = NeedInput
     \<and> m_kind m = ps_kind p \<and> m_offset m = ps_settled p \<and> \<not> m_framed m \<and> \<not> m_complete m
     \<and> m_defect m = DefectNone \<and> message_ok (ps_limits p) m"

lemma moved_step:
  assumes "parser_wf p" "ps_message p = Some m0" "moved p q m" "charge_ok q m" "phase_ok q m"
  shows "parser_wf q" "step_ok p (q, None)"
  using assms wf_message [OF assms(1,2)]
  by (auto simp: moved_def step_ok_def parser_wf_def in_progress_def same_direction_def)

lemma chunk_size_next_ok:
  assumes wf: "parser_wf p" "ps_message p = Some m0" "ps_line p = []"
    and q: "moved p q m" "ps_line q = []" "ps_charge q = ps_charge p" "charge_ok q m" "ps_phase q \<noteq> inStartLine"
    and m: "m_framing m = FramingChunked" "framed_by m noBody" "body_counted m" "m_trailers m = []"
  shows "step_ok p (chunk_size_next q)"
proof (cases "int (ps_chunks q) \<ge> MaxChunks (ps_limits q)")
  case True
  have "ps_charge q = ps_charge p - Charge (int (length (ps_line p))) 0"
    using q(3) wf(3) by (simp add: charge_eq_iff)
  then have "step_ok p (map_prod id Some (refuse q DefectLimit detail))" for detail
    using q m by (intro refuse_ok [OF wf(1,2)]) (auto simp: moved_def unended_def body_counted_def)
  with True show ?thesis by (simp add: chunk_size_next_def split_beta map_prod_def)
next
  case False
  have "step_ok p (q\<lparr>ps_phase := inChunkSize\<rparr>, None)"
    using q m wf_message(6) [OF wf(1,2)]
    by (intro moved_step [OF wf(1,2)])
      (auto simp: moved_def same_direction_def charge_ok_def phase_ok_def limits_ok_def)
  with False show ?thesis by (simp add: chunk_size_next_def)
qed

definition headed :: "parser \<Rightarrow> message \<Rightarrow> bool" where
  "headed p m \<longleftrightarrow>
     parser_wf p \<and> ps_message p = Some m \<and> ps_line p = [] \<and> \<not> ps_saw_cr p
     \<and> (ps_phase p = inFields \<or> ps_phase p = awaitingAnswer)"

lemma body_follows_ok:
  assumes "step_ok p (q, None)"
  shows "step_ok p (map_prod id Some (body_follows q))"
  using assms
  by (auto simp: body_follows_def step_ok_def event_ok_def plain_progress_def head_progress_def result_stopped_def
      current_def parser_wf_def)

lemma headed_facts:
  assumes "headed p m"
  shows "parser_wf p" "ps_message p = Some m" "ps_line p = []" "\<not> ps_saw_cr p" "current p = m" "unended p m"
    "unframed m" "moved p p m" "charge_ok p m" "ps_phase p \<noteq> inStartLine" "in_progress p m"
    "limits_ok (ps_limits p)" "ps_settled p \<le> ps_next p"
proof -
  from assms show w: "parser_wf p" "ps_message p = Some m" "ps_line p = []" "\<not> ps_saw_cr p"
    by (auto simp: headed_def)
  note f = wf_message [OF w(1,2)]
  from f show "current p = m" "in_progress p m" "limits_ok (ps_limits p)" "ps_settled p \<le> ps_next p" by auto
  from f assms show "unended p m" "unframed m" "moved p p m" "charge_ok p m" "ps_phase p \<noteq> inStartLine"
    using in_progress_unended [of p m] w(2)
    by (auto simp: headed_def moved_def in_progress_def phase_ok_def same_direction_def)
qed

lemma frame_message_ok:
  assumes p: "headed p m"
  shows "step_ok p (map_prod id Some (frame_message p noBody))"
proof -
  note h = headed_facts [OF p]
  obtain f n detail where fr: "frame m (ps_kind p) noBody = (f, n, detail)" by (metis prod_cases3)
  define m1 where "m1 = m\<lparr>m_framing := f\<rparr>"
  define p1 where "p1 = set_current p m1"
  have c0: "ps_charge p1 = ps_charge p - Charge (int (length (ps_line p))) 0"
    using h(3) by (simp add: p1_def set_current_def charge_eq_iff)
  have kind: "m_kind m = ps_kind p" using h(6) by (simp add: unended_def)
  have moved1: "moved p p1 m1"
    using h(8) by (simp add: moved_def p1_def m1_def set_current_def same_direction_def message_ok_def)
  have p1: "unended p m1" "charge_ok p1 m1" "unframed m1" "ps_line p1 = []" "\<not> ps_saw_cr p1" "body_counted m1"
    using h by (auto simp: p1_def m1_def set_current_def unended_def message_ok_def charge_ok_def unframed_def
        body_counted_def)
  have refuse: "step_ok p (map_prod id Some (refuse p1 d detail))" if "d \<noteq> DefectNone" for d
    by (rule refuse_ok [OF h(1,2) _ _ _ c0 p1(1) that]) (use moved1 in \<open>auto simp: moved_def\<close>)
  have framed: "framed_by (m1\<lparr>m_body_length := n'\<rparr>) noBody"
    if "detail = []" "f = FramingContentLength \<longrightarrow> n' = n" for n'
    using fr that kind frame_cong [of "m1\<lparr>m_body_length := n'\<rparr>" m] by (simp add: framed_by_def m1_def)
  show ?thesis
  proof (cases f)
    case FramingAmbiguous
    then show ?thesis
      using refuse fr h(5) by (simp add: frame_message_def p1_def m1_def Let_def)
  next
    case FramingNone
    show ?thesis
    proof (cases "detail = []")
      case False
      then show ?thesis
        using FramingNone refuse fr h(5) by (simp add: frame_message_def p1_def m1_def Let_def)
    next
      case True
      let ?m = "m1\<lparr>m_framed := True, m_complete := True\<rparr>"
      have ex: "\<exists>noBody. framed_by (?m\<lparr>m_end := ps_next p\<rparr>) noBody"
        by (rule exI, rule framed_by_cong [OF framed [OF True, of 0]]) (use FramingNone p1(3) in \<open>auto simp: m1_def\<close>)
      have "step_ok p (map_prod id Some (hand_over (set_current p1 ?m) Framed))"
      proof (rule hand_over_framed [OF h(1,2)])
        show "delivered p (ps_next (set_current p1 ?m)) (?m\<lparr>m_end := ps_next (set_current p1 ?m)\<rparr>)"
          using ex p1(1,3) FramingNone h(8,13)
          by (auto simp: delivered_def unended_def message_ok_def unframed_def body_counted_def set_current_def p1_def
              m1_def moved_def)
      qed (use moved1 handed_charge_no_line [OF h(9)] h(3,8,12) in
          \<open>auto simp: set_current_def moved_def same_direction_def p1_def\<close>)
      then show ?thesis
        using FramingNone True fr h(5) by (simp add: frame_message_def p1_def m1_def Let_def)
    qed
  next
    case FramingContentLength
    have detail: "detail = []" using frame_detail [OF fr] FramingContentLength by simp
    let ?m = "m1\<lparr>m_body_length := n\<rparr>"
    let ?q = "(set_current p1 ?m)\<lparr>ps_remaining := n, ps_phase := inDeclaredBody\<rparr>"
    have q: "moved p ?q ?m" "charge_ok ?q ?m" "ps_line ?q = []" "\<not> ps_saw_cr ?q"
      using moved1 p1 h(10) by (auto simp: moved_def same_direction_def set_current_def message_ok_def charge_ok_def p1_def)
    have e: "frame_message p noBody =
        (if n = 0 then (case body_step ?q of (p3, Some pr) \<Rightarrow> (p3, pr) | (p3, None) \<Rightarrow> body_follows p3)
         else body_follows ?q)"
      using FramingContentLength fr h(5) by (simp add: frame_message_def p1_def m1_def Let_def)
    show ?thesis
    proof (cases "n = 0")
      case True
      have "step_ok p (map_prod id Some (hand_over (set_current ?q (settle_body (current ?q))) Framed))"
        by (rule settle_body_framed [OF h(1,2), of _ ?m noBody])
          (use q p1(3) True framed [OF detail, of n] FramingContentLength in
            \<open>auto simp: moved_def unframed_def body_counted_def m1_def\<close>)
      then show ?thesis using True e by (simp add: body_step_def split_beta map_prod_def)
    next
      case False
      have "step_ok p (?q, None)"
        using False p1(3) framed [OF detail, of n] FramingContentLength
        by (intro moved_step(2) [OF h(1,2) q(1,2)]) (auto simp: phase_ok_def q unframed_def m1_def set_current_def p1_def h)
      then show ?thesis using False e body_follows_ok by simp
    qed
  next
    case FramingChunked
    have detail: "detail = []" using frame_detail [OF fr] FramingChunked by simp
    have fb: "framed_by m1 noBody"
      by (rule framed_by_cong [OF framed [OF detail, of 0]]) (use FramingChunked in \<open>auto simp: m1_def\<close>)
    have ok: "step_ok p (chunk_size_next p1)"
      by (rule chunk_size_next_ok [OF h(1-3) moved1 p1(4) _ p1(2) _ _ fb p1(6)])
        (use FramingChunked p1(3) h(10) in \<open>auto simp: p1_def set_current_def m1_def unframed_def\<close>)
    have e: "frame_message p noBody = (case chunk_size_next p1 of
        (p2, Some pr) \<Rightarrow> (p2, pr) | (p2, None) \<Rightarrow> body_follows p2)"
      using FramingChunked fr h(5) by (simp add: frame_message_def p1_def m1_def Let_def)
    obtain p2 ev where "chunk_size_next p1 = (p2, ev)" by (meson surj_pair)
    with ok e body_follows_ok show ?thesis by (cases ev) auto
  next
    case FramingUntilClose
    let ?m = "m1\<lparr>m_defect := DefectStreamEnded, m_detail := close_detail\<rparr>"
    have "step_ok p (map_prod id Some (hand_over ((set_current p1 ?m)\<lparr>ps_stop := Unsupported\<rparr>) Unsupported))"
      by (rule hand_over_stopped [OF h(1,2), of _ ?m])
        (use p1(1) c0 moved1 in \<open>auto simp: set_current_def moved_def same_direction_def unended_def message_ok_def
            result_stopped_def\<close>)
    then show ?thesis
      using FramingUntilClose fr h(5) by (simp add: frame_message_def p1_def m1_def Let_def)
  qed
qed

section \<open>What follows a line\<close>

lemma fields_ended_ok:
  assumes p: "headed p m" "ps_phase p = inFields"
  shows "step_ok p (map_prod id Some (fields_ended p))"
proof (cases "ps_kind p = Response")
  case True
  note h = headed_facts [OF p(1)]
  have "step_ok p (p\<lparr>ps_phase := awaitingAnswer\<rparr>, None)"
    using h True by (intro moved_step [OF h(1,2)]) (auto simp: moved_def same_direction_def charge_ok_def phase_ok_def)
  with True h(2) show ?thesis
    by (auto simp: fields_ended_def step_ok_def event_ok_def head_progress_def current_def Let_def)
next
  case False
  with frame_message_ok [OF p(1)] show ?thesis by (simp add: fields_ended_def)
qed

lemma reading_taken:
  assumes "reading p m" "\<not> ps_saw_cr p" "ps_line p = []"
  shows "p\<lparr>ps_line := [], ps_saw_cr := False\<rparr> = p"
  using assms(2,3) by (cases p) simp

lemma field_line_ok:
  assumes p: "reading p m" "ps_phase p = inFields" "\<not> ps_saw_cr p"
  shows "step_ok p (snd (field_line R r p))"
proof (cases "ps_line p = []")
  case True
  then have "headed p m" using p reading_facts [OF p(1)] by (simp add: headed_def)
  from fields_ended_ok [OF this p(2)] show ?thesis
    using True reading_taken [OF p(1,3) True]
    by (simp add: field_line_def take_line_def split_beta map_prod_def)
next
  case False
  note f = reading_facts [OF p(1)]
  let ?q = "p\<lparr>ps_line := [], ps_saw_cr := False\<rparr>"
  let ?q2 = "?q\<lparr>ps_header_bytes := ps_header_bytes p + length (ps_line p)\<rparr>"
  have refuse: "step_ok p (snd (release_refuse R r q (ps_line p) d detail))"
    if "q = ?q \<or> q = ?q2" "d \<noteq> DefectNone" for q d detail
    by (rule release_refuse_ok [OF p(1) _ _ _ _ that(2)]) (use that f in \<open>auto simp: same_direction_def\<close>)
  have keep: "step_ok p (set_current ?q2 (m\<lparr>m_headers := m_headers m @ [h]\<rparr>), None)"
    if h: "read_header (ps_line p) = Some h" "int (length (m_headers m)) < MaxHeaders (ps_limits p)"
      "int (ps_header_bytes p + length (ps_line p)) \<le> MaxHeaderBytes (ps_limits p)" for h
    by (rule moved_step(2) [OF f(1,2), of _ "m\<lparr>m_headers := m_headers m @ [h]\<rparr>"])
      (use f(3,6) p(2) h read_header_field_ok [OF h(1)] f(9) in
        \<open>auto simp: moved_def in_progress_def same_direction_def set_current_def message_ok_def charge_ok_def phase_ok_def
          unframed_def limits_ok_def\<close>)
  have c: "current ?q = m" "current ?q2 = m" using f(2) by (simp_all add: current_def)
  show ?thesis
    using False refuse keep
    by (simp add: field_line_def take_line_def Let_def c split: option.split)
qed

lemma trailer_line_ok:
  assumes p: "reading p m" "ps_phase p = inTrailers" "\<not> ps_saw_cr p"
  shows "step_ok p (snd (trailer_line R r p))"
proof (cases "ps_line p = []")
  case True
  note f = reading_facts [OF p(1)]
  from f(3) p(2) obtain noBody where m: "m_framing m = FramingChunked" "framed_by m noBody" "body_counted m"
    by (auto simp: in_progress_def phase_ok_def)
  have "step_ok p (map_prod id Some (hand_over (set_current p (settle_body (current p))) Framed))"
    by (rule settle_body_framed [OF f(1,2) _ f(2) _ _ True _ _ _ _ _ _ m(3,2)])
      (use f(3,6) m in \<open>auto simp: in_progress_def same_direction_def\<close>)
  then show ?thesis
    using True reading_taken [OF p(1,3) True]
    by (simp add: trailer_line_def take_line_def split_beta map_prod_def)
next
  case False
  note f = reading_facts [OF p(1)]
  let ?q = "p\<lparr>ps_line := [], ps_saw_cr := False\<rparr>"
  have refuse: "step_ok p (snd (release_refuse R r ?q (ps_line p) d detail))" if "d \<noteq> DefectNone" for d detail
    by (rule release_refuse_ok [OF p(1) _ _ _ _ that]) (use f in \<open>auto simp: same_direction_def\<close>)
  have keep: "step_ok p (set_current ?q (m\<lparr>m_trailers := m_trailers m @ [h]\<rparr>), None)"
    if h: "read_header (ps_line p) = Some h" "int (length (m_trailers m)) < MaxTrailers (ps_limits p)" for h
  proof (rule moved_step(2) [OF f(1,2), of _ "m\<lparr>m_trailers := m_trailers m @ [h]\<rparr>"])
    let ?m = "m\<lparr>m_trailers := m_trailers m @ [h]\<rparr>"
    have fb: "framed_by m b \<Longrightarrow> framed_by ?m b" for b by (rule framed_by_cong) simp_all
    show "phase_ok (set_current ?q ?m) ?m"
      using f(3,9) p(2) fb by (auto simp: in_progress_def phase_ok_def set_current_def body_counted_def limits_ok_def)
    show "charge_ok (set_current ?q ?m) ?m"
      using f(3,11) p(2)
      by (auto simp: in_progress_def charge_ok_def set_current_def line_max_def distrib_right)
  qed (use f(3,6) h read_header_field_ok [OF h(1)] in
        \<open>auto simp: moved_def in_progress_def same_direction_def set_current_def message_ok_def\<close>)
  have c: "current ?q = m" using f(2) by (simp add: current_def)
  show ?thesis
    using False refuse keep
    by (simp add: trailer_line_def take_line_def Let_def c split: option.split)
qed

lemma chunk_size_line_ok:
  assumes p: "reading p m" "ps_phase p = inChunkSize"
  shows "step_ok p (snd (chunk_size_line R r p))"
proof -
  note f = reading_facts [OF p(1)]
  let ?q = "p\<lparr>ps_charge := ps_charge p - Charge (int (length (ps_line p))) 0, ps_line := [], ps_saw_cr := False\<rparr>"
  obtain r' where d: "drop_line R r p = (r', ?q)"
    using drop_line_parser [of R r p] by (metis prod.collapse)
  have refuse: "step_ok p (map_prod id Some (refuse ?q DefectMalformed detail))" for detail
    by (rule refuse_ok [OF f(1,2) _ _ _ _ f(4)]) (use f in \<open>auto simp: same_direction_def\<close>)
  have trailers: "step_ok p (?q\<lparr>ps_phase := inTrailers\<rparr>, None)"
    by (rule moved_step(2) [OF f(1,2), of _ m])
      (use f p(2) in \<open>auto simp: moved_def in_progress_def same_direction_def charge_ok_def phase_ok_def limits_ok_def\<close>)
  have data: "step_ok p (?q\<lparr>ps_phase := inChunkData, ps_remaining := n, ps_chunk_start := ps_next ?q, ps_chunk_size := n,
      ps_chunk_kept := 0, ps_chunk_holed := 0, ps_chunk_elided := 0\<rparr>, None)" if "n \<noteq> 0" for n
    by (rule moved_step(2) [OF f(1,2), of _ m])
      (use f p(2) that in \<open>auto simp: moved_def in_progress_def same_direction_def charge_ok_def phase_ok_def
          limits_ok_def body_counted_def\<close>)
  show ?thesis
    using refuse trailers data
    by (simp add: chunk_size_line_def d split_beta map_prod_def split: option.split)
qed

section \<open>Bodies and holes\<close>

text \<open>What holds inside a body, whether or not anything of it remains.\<close>

definition body_ok :: "parser \<Rightarrow> message \<Rightarrow> bool" where
  "body_ok p m \<longleftrightarrow>
     m_trailers m = [] \<and> ps_line p = [] \<and> \<not> ps_saw_cr p \<and> (\<exists>noBody. framed_by m noBody) \<and>
     (ps_phase p = inDeclaredBody \<and> m_framing m = FramingContentLength
        \<and> m_body_length m = length (m_body m) + m_body_holed m + m_body_elided m + ps_remaining p
      \<or> ps_phase p = inChunkData \<and> m_framing m = FramingChunked \<and> ps_chunk_kept p \<le> length (m_body m)
        \<and> m_body_length m + ps_chunk_kept p = length (m_body m) + m_body_holed m + m_body_elided m
        \<and> ps_chunk_size p = ps_chunk_kept p + ps_chunk_holed p + ps_chunk_elided p + ps_remaining p
        \<and> m_offset m \<le> ps_chunk_start p \<and> ps_next p + ps_remaining p = ps_chunk_start p + ps_chunk_size p
        \<and> (0 < m_body_elided m \<longrightarrow> ps_chunk_kept p = 0)
        \<and> (0 < ps_chunk_elided p \<longrightarrow> int (length (m_body m)) = MaxBodyBytes (ps_limits p)))"

lemma phase_ok_body:
  assumes "ps_phase p = inDeclaredBody \<or> ps_phase p = inChunkData"
  shows "phase_ok p m \<longleftrightarrow> body_ok p m \<and> 0 < ps_remaining p"
  using assms by (auto simp: phase_ok_def body_ok_def)

lemma body_step_ok:
  assumes wf: "parser_wf p" "ps_message p = Some m0"
    and q: "moved p q m" "charge_ok q m" "body_ok q m"
  shows "step_ok p (body_step q)"
proof -
  have ph: "ps_phase q = inDeclaredBody \<or> ps_phase q = inChunkData" using q(3) by (auto simp: body_ok_def)
  have c: "current q = m" using q(1) by (simp add: moved_def current_def)
  consider (more) "ps_remaining q \<noteq> 0" | (chunk) "ps_remaining q = 0" "ps_phase q = inChunkData"
    | (declared) "ps_remaining q = 0" "ps_phase q = inDeclaredBody"
    using ph by blast
  then show ?thesis
  proof cases
    case more
    then show ?thesis
      using moved_step(2) [OF wf q(1,2)] phase_ok_body [OF ph] q(3) by (simp add: body_step_def)
  next
    case chunk
    let ?m = "m\<lparr>m_body_length := m_body_length m + ps_chunk_size q, m_body_holed := m_body_holed m + ps_chunk_holed q,
      m_body_elided := m_body_elided m + ps_chunk_elided q\<rparr>"
    let ?q = "(set_current q ?m)\<lparr>ps_phase := inChunkEnd, ps_end_seen := 0\<rparr>"
    have fb: "framed_by m b \<Longrightarrow> framed_by ?m b" for b
      by (rule framed_by_cong) (use q(3) chunk in \<open>auto simp: body_ok_def\<close>)
    have "step_ok p (?q, None)"
    proof (rule moved_step(2) [OF wf])
      show "moved p ?q ?m"
        using q(1,3) chunk by (auto simp: moved_def same_direction_def set_current_def message_ok_def body_ok_def)
      show "charge_ok ?q ?m" using q(2) chunk by (auto simp: charge_ok_def set_current_def)
      show "phase_ok ?q ?m"
        using q(3) chunk fb by (auto simp: phase_ok_def body_ok_def body_counted_def set_current_def)
    qed
    with chunk c show ?thesis by (simp add: body_step_def Let_def)
  next
    case declared
    from q(3) declared obtain noBody where m: "framed_by m noBody" "m_framing m = FramingContentLength" "body_counted m"
      by (auto simp: body_ok_def body_counted_def)
    have "step_ok p (map_prod id Some (hand_over (set_current q (settle_body (current q))) Framed))"
      by (rule settle_body_framed [OF wf, of q m noBody]) (use q m in \<open>auto simp: moved_def body_ok_def\<close>)
    with declared show ?thesis by (simp add: body_step_def split_beta map_prod_def)
  qed
qed

lemma in_body_facts:
  assumes "parser_wf p" "ps_message p = Some m" "ps_phase p = inDeclaredBody \<or> ps_phase p = inChunkData"
  shows "body_ok p m" "0 < ps_remaining p" "moved p p m" "charge_ok p m" "limits_ok (ps_limits p)" "current p = m"
  using wf_message [OF assms(1,2)] phase_ok_body [OF assms(3), of m] assms(2)
  by (auto simp: in_progress_def moved_def same_direction_def)

lemma body_taken_ok:
  assumes "parser_wf p" "ps_message p = Some m" "ps_phase p = inDeclaredBody \<or> ps_phase p = inChunkData"
  shows "step_ok p (body_step (body_taken p input))"
proof -
  note f = in_body_facts [OF assms]
  let ?k = "body_keep p input" and ?t = "body_take p input"
  have k: "?k \<le> ?t" "?k \<le> length input" "?t \<le> ps_remaining p"
    "int (length (m_body m)) + int ?k \<le> MaxBodyBytes (ps_limits p)"
    "?k < ?t \<longrightarrow> int (length (m_body m)) + int ?k = MaxBodyBytes (ps_limits p)"
    using f(3,5,6) by (auto simp: body_keep_def body_take_def Let_def moved_def message_ok_def limits_ok_def)
  have zero: "0 < m_body_elided m \<longrightarrow> ?k = 0"
    using f(3) k(4) by (auto simp: moved_def message_ok_def)
  define m' where "m' = current (body_taken p input)"
  define q where "q = body_taken p input"
  have m': "m' = m\<lparr>m_body := m_body m @ take ?k input,
      m_body_elided := m_body_elided m + (if ps_phase p = inDeclaredBody then ?t - ?k else 0)\<rparr>"
    by (cases m) (simp add: m'_def body_taken_def current_def set_current_def Let_def f(6) [unfolded current_def] assms(2))
  have q: "q = p\<lparr>ps_message := Some m', ps_charge := ps_charge p + Charge (int ?k) 0, ps_examined := ps_examined p + ?t,
      ps_next := ps_next p + ?t, ps_remaining := ps_remaining p - ?t,
      ps_chunk_kept := ps_chunk_kept p + (if ps_phase p = inDeclaredBody then 0 else ?k),
      ps_chunk_elided := ps_chunk_elided p + (if ps_phase p = inDeclaredBody then 0 else ?t - ?k)\<rparr>"
    by (cases p) (simp add: q_def m'_def body_taken_def current_def set_current_def Let_def)
  have len: "length (m_body m') = length (m_body m) + ?k" using k(2) by (simp add: m')
  have fb: "framed_by m b \<Longrightarrow> framed_by m' b" for b
    by (rule framed_by_cong) (simp_all add: m')
  have "moved p q m'"
    using f(3) k zero len by (auto simp: moved_def same_direction_def message_ok_def m' q)
  moreover have "charge_ok q m'"
    using f(4) len by (auto simp: charge_ok_def q m')
  moreover have "body_ok q m'"
    using assms(3)
  proof
    assume d: "ps_phase p = inDeclaredBody"
    have "m_body_length m' = length (m_body m') + m_body_holed m' + m_body_elided m' + (ps_remaining p - ?t)"
      using f(1) d k(1,3) len by (simp add: body_ok_def m')
    then show ?thesis
      using f(1) d fb by (auto simp: body_ok_def q m')
  next
    assume d: "ps_phase p = inChunkData"
    have a: "ps_chunk_size p = ps_chunk_kept p + ?k + ps_chunk_holed p + (ps_chunk_elided p + (?t - ?k)) + (ps_remaining p - ?t)"
      "ps_next p + ?t + (ps_remaining p - ?t) = ps_chunk_start p + ps_chunk_size p"
      "0 < ps_chunk_elided p + (?t - ?k) \<longrightarrow> int (length (m_body m')) = MaxBodyBytes (ps_limits p)"
      using f(1) d k len by (auto simp: body_ok_def)
    show ?thesis
      using f(1) d a fb zero len by (auto simp: body_ok_def q m')
  qed
  ultimately show ?thesis
    using body_step_ok [OF assms(1,2)] by (simp add: q_def)
qed

lemma body_ok_step:
  assumes "parser_wf p" "ps_message p = Some m" "ps_phase p = inDeclaredBody \<or> ps_phase p = inChunkData"
  shows "step_ok p (snd (body R r p input))"
proof (cases rule: body_cases [of p input R r])
  case (refused r')
  then show ?thesis
    using assms(1) by (auto intro!: plain_step_ok simp: same_direction_def)
qed (use body_taken_ok [OF assms] in auto)


section \<open>One step\<close>

definition live :: "parser \<Rightarrow> bool" where
  "live p \<longleftrightarrow> parser_wf p \<and> ps_started p \<and> \<not> ps_ended p \<and> ps_stop p = NeedInput"

lemma begin_message_ok:
  assumes "live p" "ps_message p = None"
  shows "step_ok p (snd (begin_message R r p))"
proof -
  obtain ok r' where res: "Reserve R r (Charge 0 1) = (ok, r')" by (meson surj_pair)
  show ?thesis
  proof (cases ok)
    case True
    let ?m = "zero_message\<lparr>m_kind := ps_kind p, m_offset := ps_next p\<rparr>"
    let ?q = "p\<lparr>ps_message := Some ?m, ps_charge := Charge 0 1, ps_phase := inStartLine, ps_header_bytes := 0, ps_chunks := 0\<rparr>"
    have "in_progress ?q ?m"
      using assms
      by (auto simp: live_def parser_wf_def at_rest_def in_progress_def message_ok_def charge_ok_def phase_ok_def
          unframed_def zero_message_def limits_ok_def)
    then have "step_ok p (?q, None)"
      using assms by (auto simp: step_ok_def live_def parser_wf_def same_direction_def)
    with res True show ?thesis by (simp add: begin_message_def)
  next
    case False
    with assms res show ?thesis
      by (auto simp: begin_message_def live_def same_direction_def intro!: plain_step_ok)
  qed
qed

lemma chunk_end_ok:
  assumes p: "parser_wf p" "ps_message p = Some m" "ps_phase p = inChunkEnd"
  shows "step_ok p (chunk_end p b)"
proof -
  note f = wf_message [OF p(1,2)]
  from f(2) p(3) obtain noBody where m: "m_framing m = FramingChunked" "framed_by m noBody" "body_counted m"
    "m_trailers m = []" "ps_line p = []" "\<not> ps_saw_cr p" "ps_end_seen p \<le> 1" "charge_ok p m"
    by (auto simp: in_progress_def phase_ok_def)
  have un: "unended p m" using in_progress_unended [OF f(2)] p(3) by simp
  let ?q = "\<lambda>n k. p\<lparr>ps_examined := ps_examined p + 1, ps_next := ps_next p + 1, ps_end_seen := n, ps_chunks := k\<rparr>"
  have moved: "moved p (?q n k) m" for n k
    using f(2,3) p(2) by (auto simp: moved_def in_progress_def same_direction_def)
  have "ps_charge p = ps_charge p - Charge (int (length (ps_line p))) 0"
    using m(5) by (simp add: charge_eq_iff)
  then have refuse: "step_ok p (map_prod id Some (refuse (?q 0 (ps_chunks p)) DefectMalformed detail))" for detail
    by (intro refuse_ok [OF p(1,2) _ _ _ _ un]) (use p(2) in \<open>auto simp: same_direction_def\<close>)
  have first: "step_ok p ((?q 1 (ps_chunks p))\<lparr>ps_end_first := b\<rparr>, None)" if "ps_end_seen p = 0"
    by (rule moved_step(2) [OF p(1,2), of _ m])
      (use m p f that moved in \<open>auto simp: phase_ok_def charge_ok_def moved_def same_direction_def in_progress_def\<close>)
  have "step_ok p (chunk_size_next (?q 0 (ps_chunks p + 1)))"
    by (rule chunk_size_next_ok [OF p(1,2) m(5) moved _ _ _ _ m(1-4)])
      (use m(5,8) p(3) in \<open>auto simp: charge_ok_def\<close>)
  with refuse first show ?thesis
    by (simp add: chunk_end_def Let_def split_beta map_prod_def)
qed

lemma hole_step_ok:
  assumes live: "live p"
  shows "step_ok p (snd (hole_step R r p g n))"
proof -
  have wf: "parser_wf p" using live by (simp add: live_def)
  show ?thesis
  proof (cases "ps_message p")
    case None
    then have "ps_phase p = betweenMessages" using wf by (simp add: parser_wf_def at_rest_def)
    then show ?thesis using begin_message_ok [OF live None] by (simp add: hole_step_def)
  next
    case (Some m)
    note f = wf_message [OF wf Some]
    have ph: "ps_phase p \<noteq> betweenMessages" using f(2) by (auto simp: in_progress_def phase_ok_def)
    show ?thesis
    proof (cases "ps_phase p = inDeclaredBody \<or> ps_phase p = inChunkData")
      case True
      note b = in_body_facts [OF wf Some True]
      define t where "t = min n (ps_remaining p)"
      define m' where "m' = (if ps_phase p = inDeclaredBody then m\<lparr>m_body_holed := m_body_holed m + t\<rparr> else m)"
      define q where "q = p\<lparr>ps_next := ps_next p + t, ps_remaining := ps_remaining p - t, ps_message := Some m',
        ps_chunk_holed := ps_chunk_holed p + (if ps_phase p = inDeclaredBody then 0 else t)\<rparr>"
      have fb: "framed_by m' b" if "framed_by m b" for b using that by (rule framed_by_cong) (simp_all add: m'_def)
      have t: "t \<le> ps_remaining p" by (simp add: t_def)
      have "step_ok p (body_step q)"
      proof (rule body_step_ok [OF wf Some])
        show "moved p q m'" "charge_ok q m'"
          using b(3,4) by (auto simp: moved_def same_direction_def message_ok_def charge_ok_def m'_def q_def)
        show "body_ok q m'"
          using b(1) fb t True by (auto simp: body_ok_def q_def) (auto simp: m'_def)
      qed
      moreover have "snd (hole_step R r p g n) = body_step q"
        using True Some ph b(6)
        by (cases p) (auto simp: hole_step_def Let_def split_beta q_def m'_def t_def set_current_def current_def)
      ultimately show ?thesis by simp
    next
      case False
      then have un: "unended p m" using in_progress_unended [OF f(2)] by simp
      let ?q = "p\<lparr>ps_charge := ps_charge p - Charge (int (length (ps_line p))) 0, ps_line := [], ps_saw_cr := False\<rparr>"
      obtain r' where d: "drop_line R r p = (r', ?q)"
        using drop_line_parser [of R r p] by (metis prod.collapse)
      have "step_ok p (map_prod id Some (refuse ?q DefectHole detail))" for detail
        by (rule refuse_ok [OF wf Some _ _ _ _ un]) (use Some in \<open>auto simp: same_direction_def\<close>)
      then show ?thesis
        using False ph d by (simp add: hole_step_def split_beta map_prod_def)
    qed
  qed
qed

lemma bytes_step_ok:
  assumes "live p"
  shows "step_ok p (snd (bytes_step R r p input))"
proof -
  have wf: "parser_wf p" using assms by (simp add: live_def)
  show ?thesis
  proof (cases "ps_message p")
    case None
    then have "ps_phase p = betweenMessages" using wf by (simp add: parser_wf_def at_rest_def)
    then show ?thesis using begin_message_ok [OF assms None] by (simp add: bytes_step_def)
  next
    case (Some m)
    have ph: "ps_phase p \<noteq> betweenMessages"
      using wf_message(2) [OF wf Some] by (auto simp: in_progress_def phase_ok_def)
    have line: "step_ok p (snd (with_line R r p input (line_max p) ctx k))"
      if "in_line (ps_phase p)"
        "\<And>r q. reading q m \<Longrightarrow> ps_phase q = ps_phase p \<Longrightarrow> \<not> ps_saw_cr q \<Longrightarrow> step_ok q (snd (k R r q))" for k ctx
      by (rule with_line_ok [of p m]) (use that wf Some in \<open>auto simp: reading_def\<close>)
    show ?thesis
    proof (cases "ps_phase p")
      case inStartLine
      have "step_ok p (snd (with_line R r p input (line_max p) ctx read_start))" for ctx
        by (rule line) (use inStartLine in \<open>auto simp: in_line_def intro: read_start_ok\<close>)
      with inStartLine show ?thesis by (simp add: bytes_step_def line_max_def)
    next
      case inFields
      have "step_ok p (snd (with_line R r p input (line_max p) ctx field_line))" for ctx
        by (rule line) (use inFields in \<open>auto simp: in_line_def intro: field_line_ok\<close>)
      with inFields show ?thesis by (simp add: bytes_step_def line_max_def)
    next
      case inTrailers
      have "step_ok p (snd (with_line R r p input (line_max p) ctx trailer_line))" for ctx
        by (rule line) (use inTrailers in \<open>auto simp: in_line_def intro: trailer_line_ok\<close>)
      with inTrailers show ?thesis by (simp add: bytes_step_def line_max_def)
    next
      case inChunkSize
      have "step_ok p (snd (with_line R r p input (line_max p) ctx chunk_size_line))" for ctx
        by (rule line) (use inChunkSize in \<open>auto simp: in_line_def intro: chunk_size_line_ok\<close>)
      with inChunkSize show ?thesis by (simp add: bytes_step_def line_max_def)
    next
      case inChunkEnd
      with chunk_end_ok [OF wf Some] show ?thesis by (simp add: bytes_step_def split_beta)
    next
      case awaitingAnswer
      with wf show ?thesis by (auto simp: bytes_step_def same_direction_def intro!: plain_step_ok)
    qed (use ph body_ok_step [OF wf Some] in \<open>auto simp: bytes_step_def\<close>)
  qed
qed

section \<open>Steps stay inside the part\<close>

lemma read_line_next_le:
  assumes "read_line R r p input max' ctx = (r', p', fin, ev)"
  shows "ps_next p' \<le> ps_next p + length input"
proof (cases rule: read_line_cases [where R = R and r = r and p = p and input = input and max' = max' and ctx = ctx])
  case (overlong s rest p'')
  from overlong(3) have "ps_next p'' = ps_next p + (length input - length rest)"
    using leaf_next(4) [of R r "p\<lparr>ps_examined := ps_examined p + (length input - length rest),
        ps_next := ps_next p + (length input - length rest)\<rparr>"] by simp
  then show ?thesis using overlong(2) assms by auto
qed (use assms in auto)

lemma with_line_next_le:
  assumes k: "\<And>r p. ps_next (fst (snd (k R r p))) = ps_next p"
  shows "ps_next (fst (snd (with_line R r p input max' ctx k))) \<le> ps_next p + length input"
proof -
  obtain r' p' fin ev where l: "read_line R r p input max' ctx = (r', p', fin, ev)" by (metis prod_cases4)
  then show ?thesis
    using read_line_next_le [OF l] k by (cases ev) (auto simp: with_line_def)
qed

lemma bytes_step_next_le:
  assumes "input \<noteq> []"
  shows "ps_next (fst (snd (bytes_step R r p input))) \<le> ps_next p + length input"
proof (cases "ps_phase p")
  case betweenMessages
  then show ?thesis by (simp add: bytes_step_def begin_message_def split: prod.split bool.split)
next
  case inChunkEnd
  then show ?thesis using assms by (cases input) (simp_all add: bytes_step_def split_beta)
next
  case awaitingAnswer
  then show ?thesis by (simp add: bytes_step_def)
next
  case inDeclaredBody
  then show ?thesis
    by (cases rule: body_cases [of p input R r]) (auto simp: bytes_step_def body_take_def)
next
  case inChunkData
  then show ?thesis
    by (cases rule: body_cases [of p input R r]) (auto simp: bytes_step_def body_take_def)
qed (simp_all add: bytes_step_def with_line_next_le)

lemma hole_step_next_le: "ps_next (fst (snd (hole_step R r p g n))) \<le> ps_next p + n"
  by (auto simp: hole_step_def begin_message_def set_current_def Let_def split_beta split: prod.splits bool.splits)

section \<open>Feed\<close>

lemma frame_message_result:
  "ps_kind p \<noteq> Response \<Longrightarrow> pg_result (snd (frame_message p noBody)) \<noteq> NeedInput"
  by (auto simp: frame_message_def refuse_def hand_over_def Let_def split_beta body_follows_def head_progress_def
      body_step_def chunk_size_next_def stop_for_stopped set_current_def
      split: framing.split option.split)

lemma refuse_result: "pg_result (snd (refuse p d detail)) \<noteq> NeedInput"
  by (simp add: refuse_def hand_over_def Let_def stop_for_stopped)

lemma body_step_result: "snd (body_step p) = Some pr \<Longrightarrow> pg_result pr \<noteq> NeedInput"
  by (auto simp: body_step_def hand_over_def Let_def split_beta split: if_splits)

lemma handler_result:
  "snd (snd (read_start R r p)) = Some pr \<Longrightarrow> pg_result pr \<noteq> NeedInput"
  "snd (snd (field_line R r p)) = Some pr \<Longrightarrow> pg_result pr \<noteq> NeedInput"
  "snd (snd (trailer_line R r p)) = Some pr \<Longrightarrow> pg_result pr \<noteq> NeedInput"
  "snd (snd (chunk_size_line R r p)) = Some pr \<Longrightarrow> pg_result pr \<noteq> NeedInput"
  "snd (chunk_end p b) = Some pr \<Longrightarrow> pg_result pr \<noteq> NeedInput"
  using frame_message_result [of p] refuse_result
  by (auto simp: read_start_def take_line_def release_refuse_def split_beta
      split: kind.splits option.splits)
   (auto simp: field_line_def trailer_line_def chunk_size_line_def take_line_def release_refuse_def
      fields_ended_def head_progress_def hand_over_def Let_def split_beta chunk_end_def chunk_size_next_def
      frame_message_result split: kind.splits option.splits if_splits)

lemma with_line_result:
  assumes "\<And>r p pr. snd (snd (k R r p)) = Some pr \<Longrightarrow> pg_result pr \<noteq> NeedInput"
    and "snd (snd (with_line R r p input max' ctx k)) = Some pr"
  shows "pg_result pr \<noteq> NeedInput"
proof -
  obtain r' p' fin ev where l: "read_line R r p input max' ctx = (r', p', fin, ev)" by (metis prod_cases4)
  have "ev = Some pr \<Longrightarrow> pg_result pr \<noteq> NeedInput"
    using l refuse_result
    by (cases rule: read_line_cases [where R = R and r = r and p = p and input = input and max' = max' and ctx = ctx])
      (auto simp: plain_progress_def)
  then show ?thesis
    using l assms by (cases ev; cases fin) (auto simp: with_line_def)
qed

lemma with_line_results:
  "snd (snd (with_line R r p input max' ctx read_start)) = Some pr \<Longrightarrow> pg_result pr \<noteq> NeedInput"
  "snd (snd (with_line R r p input max' ctx field_line)) = Some pr \<Longrightarrow> pg_result pr \<noteq> NeedInput"
  "snd (snd (with_line R r p input max' ctx trailer_line)) = Some pr \<Longrightarrow> pg_result pr \<noteq> NeedInput"
  "snd (snd (with_line R r p input max' ctx chunk_size_line)) = Some pr \<Longrightarrow> pg_result pr \<noteq> NeedInput"
  by (erule with_line_result [rotated], erule handler_result)+

lemma bytes_step_result: "snd (snd (bytes_step R r p input)) = Some pr \<Longrightarrow> pg_result pr \<noteq> NeedInput"
proof (cases "ps_phase p")
  case betweenMessages
  then show "snd (snd (bytes_step R r p input)) = Some pr \<Longrightarrow> pg_result pr \<noteq> NeedInput"
    by (auto simp: bytes_step_def begin_message_def plain_progress_def split: prod.splits bool.splits)
next
  case inDeclaredBody
  then show "snd (snd (bytes_step R r p input)) = Some pr \<Longrightarrow> pg_result pr \<noteq> NeedInput"
    by (cases rule: body_cases [of p input R r])
      (auto simp: bytes_step_def plain_progress_def dest: body_step_result)
next
  case inChunkData
  then show "snd (snd (bytes_step R r p input)) = Some pr \<Longrightarrow> pg_result pr \<noteq> NeedInput"
    by (cases rule: body_cases [of p input R r])
      (auto simp: bytes_step_def plain_progress_def dest: body_step_result)
qed (auto simp: bytes_step_def plain_progress_def split_beta dest: with_line_results handler_result(5))

lemma hole_step_result:
  assumes "snd (snd (hole_step R r p g n)) = Some pr"
  shows "pg_result pr \<noteq> NeedInput"
proof (cases "ps_phase p = betweenMessages")
  case True
  with assms show ?thesis
    by (auto simp: hole_step_def begin_message_def plain_progress_def split: prod.splits bool.splits)
next
  case False
  with assms refuse_result show ?thesis
    by (auto simp: hole_step_def Let_def split_beta dest: body_step_result split: if_splits)
qed

text \<open>One call of \<open>Feed\<close>: what it returns, and how much of the part it used up.\<close>

definition feed_ok :: "parser \<Rightarrow> part \<Rightarrow> parser \<Rightarrow> progress \<Rightarrow> bool" where
  "feed_ok p part p' pr \<longleftrightarrow>
     parser_wf p' \<and> same_direction p p' \<and> event_ok p p' pr
     \<and> ps_next p' = pt_offset part + pg_consumed pr \<and> pg_consumed pr \<le> pt_length part
     \<and> (pg_consumed pr < pt_length part \<longrightarrow> pg_result pr \<in> {Head, NeedRequest, Framed, Refused})"

lemma part_step_ok:
  assumes "live p" "part_validate part = None" "pt_offset part \<le> ps_next p" "ps_next p < pt_offset part + pt_length part"
    "part_step R r p part = (r', p', ev)"
  shows "step_ok p (p', ev)" "ps_next p' \<le> pt_offset part + pt_length part"
    "ev = Some pr \<Longrightarrow> pg_result pr \<noteq> NeedInput"
proof -
  let ?in = "drop (ps_next p - pt_offset part) (pt_bytes part)"
  show "step_ok p (p', ev)"
    using bytes_step_ok [OF assms(1), of R r ?in] hole_step_ok [OF assms(1)] assms(5)
    by (metis part_step_def snd_conv)
  show "ev = Some pr \<Longrightarrow> pg_result pr \<noteq> NeedInput"
    using bytes_step_result hole_step_result assms(5) by (metis part_step_def snd_conv)
  show "ps_next p' \<le> pt_offset part + pt_length part"
  proof (cases "pt_gap part = GapNone")
    case True
    with assms(2-4) have "?in \<noteq> []" "ps_next p + length ?in = pt_offset part + pt_length part"
      by (auto simp: part_validate_ok)
    with True bytes_step_next_le [of ?in R r p] assms(5) show ?thesis by (simp add: part_step_def)
  next
    case False
    with hole_step_next_le [of R r p "pt_gap part" "pt_offset part + pt_length part - ps_next p"] assms(4,5)
    show ?thesis by (simp add: part_step_def)
  qed
qed

lemma event_ok_consumed [simp]: "event_ok p p' (pr\<lparr>pg_consumed := n\<rparr>) = event_ok p p' pr"
  by (cases "pg_result pr") (simp_all add: event_ok_def)

text \<open>What follows a stop in the part is unplaced: only where the parser stands moves.\<close>

lemma stopped_skip:
  assumes "parser_wf p'" "same_direction p p'" "event_ok p p' pr" "result_stopped (pg_result pr)" "ps_next p' \<le> n"
  shows "parser_wf (p'\<lparr>ps_next := n\<rparr>)" "same_direction p (p'\<lparr>ps_next := n\<rparr>)" "event_ok p (p'\<lparr>ps_next := n\<rparr>) pr"
  using assms stopped_event [OF assms(4)]
  by (auto simp: parser_wf_def at_rest_def same_direction_def result_stopped_def)

lemma feed_loop_ok:
  assumes "live p" "part_validate part = None" "pt_offset part \<le> ps_next p" "ps_next p \<le> pt_offset part + pt_length part"
    "feed_loop R r p part = (r', p', pr)"
  shows "feed_ok p part p' pr"
  using assms
proof (induction R r p part arbitrary: r' p' pr rule: feed_loop.induct)
  case (1 R r p part)
  show ?case
  proof (cases "ps_next p < pt_offset part + pt_length part")
    case False
    with 1(3,5,6) have "r' = r" "p' = p" "pr = (plain_progress NeedInput)\<lparr>pg_consumed := pt_length part\<rparr>"
      "ps_next p = pt_offset part + pt_length part"
      by (auto simp: feed_loop.simps [of R r p part])
    with 1(2) show ?thesis
      by (simp add: feed_ok_def live_def same_direction_def event_ok_def plain_progress_def result_stopped_def)
  next
    case True
    obtain r1 p1 ev where st: "part_step R r p part = (r1, p1, ev)" by (metis prod_cases3)
    note ok = part_step_ok [OF 1(2-4) True st]
    have wf: "parser_wf p1" "same_direction p p1" using ok(1) by (auto simp: step_ok_def)
    show ?thesis
    proof (cases ev)
      case None
      with ok(1) have s: "ps_settled p1 = ps_settled p" "ps_message p1 \<noteq> None" by (auto simp: step_ok_def)
      then have live: "live p1"
        using wf 1(2) by (auto simp: live_def same_direction_def parser_wf_def)
      have le: "pt_offset part \<le> ps_next p1" using wf(2) 1(4) by (simp add: same_direction_def)
      have "feed_loop R r1 p1 part = (r', p', pr)"
        using 1(6) True 1(3,4) st None by (simp add: feed_loop.simps [of R r p part])
      from 1(1) [OF _ st [symmetric] _ _ live 1(3) le ok(2) this] True 1(3,4) None
      have "feed_ok p1 part p' pr" by simp
      moreover from this have "step_ok p (p', Some pr)"
        using wf(2) s(1) by (intro step_ok_trans [of p p1]) (auto simp: feed_ok_def step_ok_def)
      ultimately show ?thesis by (simp add: feed_ok_def step_ok_def)
    next
      case (Some pr1)
      let ?q = "if result_stopped (pg_result pr1) then p1\<lparr>ps_next := pt_offset part + pt_length part\<rparr> else p1"
      have out: "p' = ?q" "pr = pr1\<lparr>pg_consumed := ps_next ?q - pt_offset part\<rparr>"
        using 1(6) True 1(3,4) st Some by (auto simp: feed_loop.simps [of R r p part] Let_def)
      have e: "event_ok p p1 pr1" using ok(1) Some by (simp add: step_ok_def)
      have "parser_wf ?q" "same_direction p ?q" "event_ok p ?q pr1" "ps_next p \<le> ps_next ?q"
        using wf e ok(2) stopped_skip [OF wf e] by (auto simp: same_direction_def)
      moreover have "pg_result pr1 \<in> {Head, NeedRequest, Framed, Refused} \<or> result_stopped (pg_result pr1)"
        using ok(3) [OF Some] e by (cases "pg_result pr1") (auto simp: event_ok_def result_stopped_def)
      ultimately show ?thesis
        using out 1(4) ok(2) by (auto simp: feed_ok_def split: if_splits)
    qed
  qed
qed

end
