(* ===== verification/Http_Parser_History.thy ===== *)
theory Http_Parser_History
  imports Http_Parser_Invariant
begin

text \<open>
  The parser's calls put together: \<open>NewParser\<close> establishes the invariant, \<open>Feed\<close>, \<open>Answer\<close>
  and \<open>End\<close> keep it, and \<open>reads\<close> is any sequence of such calls.  The properties are of
  everything a direction hands over, whatever the parts, the answers and the reserver.
\<close>

section \<open>Every operation keeps the invariant\<close>

lemma new_parser_wf: "parser_wf (new_parser kind limits)"
  by (auto simp: parser_wf_def new_parser_def at_rest_def limits_ok_def or_defaults_def or_default_def default_limits_def)

definition opened :: "parser \<Rightarrow> part \<Rightarrow> parser" where
  "opened p part =
     (if ps_started p then p
      else p\<lparr>ps_started := True, ps_next := pt_offset part, ps_settled := pt_offset part\<rparr>)"

lemma opened_simps [simp]:
  "ps_kind (opened p part) = ps_kind p" "ps_limits (opened p part) = ps_limits p"
  "ps_stop (opened p part) = ps_stop p" "ps_started (opened p part)"
  "ps_started p \<Longrightarrow> opened p part = p"
  by (simp_all add: opened_def)

lemma opened_wf:
  assumes "parser_wf p" "admit p part = None"
  shows "parser_wf (opened p part)" "ps_started (opened p part)" "\<not> ps_ended (opened p part)"
    "ps_next (opened p part) = pt_offset part" "part_validate part = None"
  using assms by (auto simp: opened_def admit_def parser_wf_def at_rest_def split: if_splits option.splits)

lemma feed_wf:
  assumes wf: "parser_wf p" and fed: "feed R r p part = Inr (r', p', pr)"
  shows "if ps_stop p \<noteq> NeedInput
    then r' = r \<and> p' = (opened p part)\<lparr>ps_next := pt_offset part + pt_length part\<rparr>
      \<and> pr = (plain_progress (ps_stop p))\<lparr>pg_consumed := pt_length part\<rparr> \<and> parser_wf p'
    else feed_ok (opened p part) part p' pr"
proof -
  from fed have ad: "admit p part = None" by (cases "admit p part") (auto simp: feed_def)
  note o = opened_wf [OF wf ad]
  have q: "(if \<not> ps_started p then p\<lparr>ps_started := True, ps_next := pt_offset part, ps_settled := pt_offset part\<rparr> else p)
      = opened p part" by (simp add: opened_def)
  have stop: "ps_stop (opened p part) = ps_stop p" by (simp add: opened_def)
  from fed have f: "(if ps_stop p \<noteq> NeedInput
      then (r, (opened p part)\<lparr>ps_next := pt_offset part + pt_length part\<rparr>,
            (plain_progress (ps_stop p))\<lparr>pg_consumed := pt_length part\<rparr>)
      else if ps_phase (opened p part) = awaitingAnswer then (r, opened p part, plain_progress NeedRequest)
      else feed_loop R r (opened p part) part) = (r', p', pr)"
    by (simp add: feed_def ad Let_def q stop o(4) split: if_splits)
  show ?thesis
  proof (cases "ps_stop p = NeedInput")
    case False
    moreover from this have "parser_wf ((opened p part)\<lparr>ps_next := pt_offset part + pt_length part\<rparr>)"
      using o stop by (auto simp: parser_wf_def at_rest_def split: option.splits)
    ultimately show ?thesis using f by auto
  next
    case True
    have live: "live (opened p part)" using o True stop by (simp add: live_def)
    show ?thesis
    proof (cases "ps_phase (opened p part) = awaitingAnswer")
      case wait: True
      with True f o show ?thesis
        by (auto simp: feed_ok_def same_direction_def event_ok_def plain_progress_def result_stopped_def)
    next
      case False
      with True f have "feed_loop R r (opened p part) part = (r', p', pr)" by simp
      from feed_loop_ok [OF live o(5) _ _ this] True o(4) show ?thesis by simp
    qed
  qed
qed

lemma answer_wf:
  assumes "parser_wf p" "answer p method = Inr (p', pr)"
  shows "step_ok p (p', Some pr)" "ps_next p' = ps_next p"
proof -
  from assms(2) have a: "ps_phase p = awaitingAnswer" "\<not> ps_ended p"
    "frame_message p (equal_fold method ''HEAD'') = (p', pr)"
    by (auto simp: answer_def split: if_splits)
  then obtain m where m: "ps_message p = Some m"
    using assms(1) by (cases "ps_message p") (auto simp: parser_wf_def at_rest_def)
  then have "headed p m"
    using assms(1) a(1) wf_message(2) [OF assms(1) m] by (auto simp: headed_def in_progress_def phase_ok_def)
  from frame_message_ok [OF this, of "equal_fold method ''HEAD''"] a(3) show "step_ok p (p', Some pr)" by simp
  show "ps_next p' = ps_next p" using frame_message_next [of p "equal_fold method ''HEAD''"] a(3) by simp
qed

definition end_ok :: "parser \<Rightarrow> parser \<Rightarrow> progress \<Rightarrow> bool" where
  "end_ok p p' pr \<longleftrightarrow>
     parser_wf p' \<and> ps_ended p' \<and> ps_message p' = None \<and> ps_next p' = ps_next p \<and> pg_result pr = End
     \<and> ps_kind p' = ps_kind p \<and> ps_limits p' = ps_limits p \<and> ps_started p' = ps_started p
     \<and> (case ps_message p of
          None \<Rightarrow> pg_message pr = None \<and> pg_charge pr = 0 \<and> ps_settled p' = ps_settled p
        | Some m0 \<Rightarrow> handed_charge p (pg_charge pr)
            \<and> (\<exists>m. pg_message pr = Some m \<and> delivered p (ps_settled p') m))"

lemma frame_message_follows:
  assumes "pg_message (snd (frame_message p noBody)) = None"
  shows "ps_message (fst (frame_message p noBody)) \<noteq> None"
    "ps_phase (fst (frame_message p noBody)) \<in> {inDeclaredBody, inChunkSize}"
  using assms
  by (auto simp: frame_message_def refuse_def hand_over_def Let_def split_beta body_follows_def head_progress_def
      body_step_def chunk_size_next_def set_current_def plain_progress_def
      split: framing.splits option.splits if_splits)

lemma frame_message_response:
  assumes "ps_kind p = Response"
  shows "pg_result (snd (frame_message p noBody)) \<noteq> Head"
  using assms
  by (auto simp: frame_message_def refuse_def hand_over_def Let_def split_beta body_follows_def
      body_step_def chunk_size_next_def set_current_def plain_progress_def stop_for_def
      split: framing.split option.split defect.split)

text \<open>The message \<open>End\<close> hands over, and the charge that goes with it.\<close>

definition end_message :: "parser \<Rightarrow> message" where
  "end_message p =
     (let m = (current p)\<lparr>m_defect := DefectStreamEnded, m_end := ps_next p,
                m_detail := (if in_line (ps_phase p) \<or> ps_phase p \<in> {inChunkData, inChunkEnd, inDeclaredBody}
                             then end_detail p else m_detail (current p))\<rparr>
      in if ps_phase p = inChunkData
         then m\<lparr>m_body := take (length (m_body m) - ps_chunk_kept p) (m_body m), m_end := ps_chunk_start p\<rparr>
         else if ps_phase p = inChunkEnd then m\<lparr>m_end := ps_next p - ps_end_seen p\<rparr>
         else m)"

definition end_drops :: "parser \<Rightarrow> nat" where
  "end_drops p =
     (if in_line (ps_phase p) then length (ps_line p) else if ps_phase p = inChunkData then ps_chunk_kept p else 0)"

lemma end_in_progress_eq:
  assumes "ps_line p = [] \<or> in_line (ps_phase p)" "\<not> ps_saw_cr p \<or> in_line (ps_phase p)"
  shows "snd (end_in_progress R r p) =
    (p\<lparr>ps_message := None, ps_charge := 0, ps_phase := betweenMessages, ps_line := [], ps_saw_cr := False,
       ps_settled := m_end (end_message p)\<rparr>,
     \<lparr>pg_consumed = 0, pg_result = End, pg_message = Some (end_message p),
      pg_charge = ps_charge p - Charge (int (end_drops p)) 0\<rparr>)"
proof -
  have z: "c - Charge 0 0 = c" for c by (simp add: charge_eq_iff)
  show ?thesis
    using assms
    by (cases p; cases "current p"; cases "ps_phase p")
      (simp_all add: end_in_progress_def in_line_def end_message_def end_drops_def Let_def split_beta
        drop_line_parser release_parser z)
qed

lemma end_message_delivered:
  assumes q: "parser_wf q" "ps_message q = Some m" "ps_phase q \<noteq> awaitingAnswer"
  shows "delivered q (m_end (end_message q)) (end_message q)" "m_end (end_message q) \<le> ps_next q"
    "ps_settled q \<le> m_end (end_message q)"
proof -
  note f = wf_message [OF q(1,2)]
  have core: "m_kind m = ps_kind q" "m_offset m = ps_settled q" "\<not> m_framed m" "\<not> m_complete m"
    "message_ok (ps_limits q) m" "phase_ok q m"
    using f(2) by (auto simp: in_progress_def)
  have m: "m_end (end_message q) \<le> ps_next q \<and> ps_settled q \<le> m_end (end_message q)
      \<and> message_ok (ps_limits q) (end_message q)
      \<and> length (m_body (end_message q)) + m_body_holed m + m_body_elided m \<le> m_body_length m"
  proof (cases "ps_phase q = inChunkData")
    case True
    then show ?thesis
      using core f(1) by (auto simp: end_message_def Let_def phase_ok_def message_ok_def)
  next
    case False
    have "length (m_body m) + m_body_holed m + m_body_elided m \<le> m_body_length m"
      using in_progress_unended [OF f(2) False] by (simp add: unended_def)
    moreover have "ps_settled q + ps_end_seen q \<le> ps_next q" if "ps_phase q = inChunkEnd"
      using core that by (simp add: phase_ok_def)
    ultimately show ?thesis
      using False core f(1,7) by (auto simp: end_message_def Let_def message_ok_def)
  qed
  then show "m_end (end_message q) \<le> ps_next q" "ps_settled q \<le> m_end (end_message q)" by simp_all
  show "delivered q (m_end (end_message q)) (end_message q)"
    using m core f(1) by (auto simp: delivered_def end_message_def Let_def)
qed

lemma end_drops_charge:
  assumes q: "parser_wf q" "ps_message q = Some m"
  shows "handed_charge q (ps_charge q - Charge (int (end_drops q)) 0)"
proof -
  note f = wf_message [OF q]
  have c: "charge_ok q m" "message_ok (ps_limits q) m" "phase_ok q m" using f(2) by (auto simp: in_progress_def)
  have h: "handed_charge q (ps_charge q - Charge (int (length (ps_line q))) 0)"
    using handed_charge_line [OF c(1,2) f(6)] by simp
  show ?thesis
  proof (cases "ps_phase q = inChunkData")
    case True
    then have "ps_line q = []" "ps_chunk_kept q \<le> length (m_body m)" "end_drops q = ps_chunk_kept q"
      using c(3) by (auto simp: phase_ok_def end_drops_def in_line_def)
    then show ?thesis using h c(1) by (auto simp: handed_charge_def charge_ok_def)
  next
    case False
    have "end_drops q = length (ps_line q)"
      using False c(3) by (cases "ps_phase q") (auto simp: end_drops_def in_line_def phase_ok_def)
    then show ?thesis using h by simp
  qed
qed

lemma end_in_progress_ok:
  assumes q: "parser_wf q" "ps_message q = Some m" "ps_phase q \<noteq> awaitingAnswer"
    and out: "end_in_progress R r (q\<lparr>ps_ended := True\<rparr>) = (r', p', pr)"
  shows "end_ok q p' pr"
proof -
  let ?p = "q\<lparr>ps_ended := True\<rparr>"
  note f = wf_message [OF q(1,2)]
  have "ps_line ?p = [] \<or> in_line (ps_phase ?p)" "\<not> ps_saw_cr ?p \<or> in_line (ps_phase ?p)"
    using f(2) q(3) by (cases "ps_phase q"; auto simp: in_progress_def phase_ok_def in_line_def)+
  note e = end_in_progress_eq [OF this, of R r]
  have c: "current ?p = current q" by (simp add: current_def)
  then have "end_detail ?p = end_detail q" by (cases "ps_phase q") (simp_all add: end_detail_def)
  with c have "end_message ?p = end_message q" "end_drops ?p = end_drops q"
    by (simp_all add: end_message_def end_drops_def Let_def)
  with e out have p': "p' = ?p\<lparr>ps_message := None, ps_charge := 0, ps_phase := betweenMessages, ps_line := [],
      ps_saw_cr := False, ps_settled := m_end (end_message q)\<rparr>"
    and pr: "pr = \<lparr>pg_consumed = 0, pg_result = End, pg_message = Some (end_message q),
      pg_charge = ps_charge q - Charge (int (end_drops q)) 0\<rparr>" by auto
  note d = end_message_delivered [OF q] and c = end_drops_charge [OF q(1,2)]
  have "parser_wf p'" using f d(2) by (simp add: parser_wf_def at_rest_def p')
  then show ?thesis using q(2) d c by (simp add: end_ok_def p' pr)
qed

lemma end_parser_ok:
  assumes wf: "parser_wf p" and out: "end_parser R r p = (r', p', pr)"
  shows "end_ok p p' pr"
proof (cases "ps_ended p")
  case True
  then have "ps_message p = None" using wf by (cases "ps_message p") (auto simp: parser_wf_def)
  with True wf out show ?thesis by (auto simp: end_parser_def end_ok_def plain_progress_def)
next
  case open': False
  show ?thesis
  proof (cases "ps_phase p = awaitingAnswer")
    case False
    show ?thesis
    proof (cases "ps_message p")
      case None
      with open' False out wf show ?thesis
        by (auto simp: end_parser_def end_ok_def plain_progress_def parser_wf_def at_rest_def)
    next
      case (Some m)
      with open' False out have "end_in_progress R r (p\<lparr>ps_ended := True\<rparr>) = (r', p', pr)"
        by (simp add: end_parser_def)
      from end_in_progress_ok [OF wf Some False this] show ?thesis .
    qed
  next
    case True
    obtain p1 a where an: "answer p [] = Inr (p1, a)" using True open' by (cases "frame_message p (equal_fold [] ''HEAD'')") (simp add: answer_def)
    note ok = answer_wf [OF wf an]
    from True wf obtain m where m: "ps_message p = Some m"
      by (cases "ps_message p") (auto simp: parser_wf_def at_rest_def)
    have a: "frame_message p (equal_fold [] ''HEAD'') = (p1, a)" and kind: "ps_kind p = Response"
      using an wf_message(2) [OF wf m] True by (auto simp: answer_def in_progress_def phase_ok_def split: if_splits)
    have e: "event_ok p p1 a" "parser_wf p1" "same_direction p p1" using ok(1) by (auto simp: step_ok_def)
    show ?thesis
    proof (cases "pg_message a")
      case None
      with frame_message_follows [of p "equal_fold [] ''HEAD''"] a obtain m1
        where m1: "ps_message p1 = Some m1" "ps_phase p1 \<noteq> awaitingAnswer" by auto
      with open' True an None out have "end_in_progress R r (p1\<lparr>ps_ended := True\<rparr>) = (r', p', pr)"
        by (simp add: end_parser_def)
      from end_in_progress_ok [OF e(2) m1 this] have o: "end_ok p1 p' pr" .
      have s: "ps_settled p1 = ps_settled p"
        using e(1) None by (auto simp: event_ok_def split: result.splits if_splits)
      then have "delivered p1 = delivered p" "handed_charge p1 = handed_charge p"
        using e(3) by (auto simp: delivered_def handed_charge_def same_direction_def fun_eq_iff)
      with o m1 m e(3) ok(2) show ?thesis by (simp add: end_ok_def same_direction_def)
    next
      case (Some m1)
      have "pg_result a \<noteq> Head" using frame_message_response [OF kind] a by (metis snd_conv)
      then have d: "ps_message p1 = None" "handed_charge p (pg_charge a)" "delivered p (ps_settled p1) m1"
        using e(1) Some by (auto simp: event_ok_def split: result.splits if_splits)
      from open' True an Some out have "p' = p1\<lparr>ps_ended := True\<rparr>" "pr = a\<lparr>pg_result := End\<rparr>"
        by (auto simp: end_parser_def)
      moreover have "parser_wf (p1\<lparr>ps_ended := True\<rparr>)"
        using e(2) d(1) by (simp add: parser_wf_def at_rest_def)
      ultimately show ?thesis using d m Some e(3) ok(2) by (simp add: end_ok_def same_direction_def)
    qed
  qed
qed

section \<open>A direction read from its first part to its end\<close>

text \<open>
  Any sequence of calls a caller can make, with any parts and any answers, and the progress
  each returned.  A message at \<open>Head\<close> is a copy of the head and is not handed over.
\<close>

definition handed :: "progress \<Rightarrow> message list" where
  "handed pr = (if pg_result pr = Head then [] else case pg_message pr of None \<Rightarrow> [] | Some m \<Rightarrow> [m])"

definition messages :: "progress list \<Rightarrow> message list" where
  "messages prs = concat (map handed prs)"

inductive reads :: "'r reserver \<Rightarrow> kind \<Rightarrow> limits \<Rightarrow> 'r \<Rightarrow> 'r \<Rightarrow> parser \<Rightarrow> progress list \<Rightarrow> bool"
  for R kind limits r0 where
  new: "reads R kind limits r0 r0 (new_parser kind limits) []"
| fed: "reads R kind limits r0 r p prs \<Longrightarrow> feed R r p part = Inr (r', p', pr) \<Longrightarrow>
     reads R kind limits r0 r' p' (prs @ [pr])"
| answered: "reads R kind limits r0 r p prs \<Longrightarrow> answer p method = Inr (p', pr) \<Longrightarrow>
     reads R kind limits r0 r p' (prs @ [pr])"
| finished: "reads R kind limits r0 r p prs \<Longrightarrow> end_parser R r p = (r', p', pr) \<Longrightarrow>
     reads R kind limits r0 r' p' (prs @ [pr])"

lemma messages_snoc [simp]: "messages [] = []" "messages (prs @ [pr]) = messages prs @ handed pr"
  by (simp_all add: messages_def)

text \<open>Consecutive messages of one direction: each begins where the one before it ends.\<close>

fun contiguous :: "message list \<Rightarrow> bool" where
  "contiguous (a # b # ms) \<longleftrightarrow> m_end a = m_offset b \<and> contiguous (b # ms)"
| "contiguous _ \<longleftrightarrow> True"

lemma contiguous_snoc: "contiguous (ms @ [m]) \<longleftrightarrow> contiguous ms \<and> (ms \<noteq> [] \<longrightarrow> m_end (last ms) = m_offset m)"
  by (induction ms rule: contiguous.induct) auto

definition message_valid :: "kind \<Rightarrow> limits \<Rightarrow> message \<Rightarrow> bool" where
  "message_valid kind limits m \<longleftrightarrow> (\<exists>p. ps_kind p = kind \<and> ps_limits p = limits \<and> delivered p (m_end m) m)"

definition history_ok :: "kind \<Rightarrow> limits \<Rightarrow> parser \<Rightarrow> message list \<Rightarrow> bool" where
  "history_ok kind limits p ms \<longleftrightarrow>
     parser_wf p \<and> ps_kind p = kind \<and> ps_limits p = or_defaults limits
     \<and> contiguous ms \<and> (\<forall>m\<in>set ms. message_valid kind (or_defaults limits) m)
     \<and> (\<forall>m\<in>set (butlast ms). m_framed m)
     \<and> (ms \<noteq> [] \<longrightarrow> ps_started p \<and> m_end (last ms) = ps_settled p
         \<and> (m_framed (last ms) \<or> ps_stop p \<noteq> NeedInput \<or> ps_ended p))"

lemma history_extend:
  assumes "history_ok kind limits p ms" "ps_stop p = NeedInput" "\<not> ps_ended p"
    and "delivered (opened p part) (ps_settled p') m \<or> delivered p (ps_settled p') m"
    and "parser_wf p'" "ps_kind p' = kind" "ps_limits p' = or_defaults limits" "ps_started p'"
    and "m_framed m \<or> ps_stop p' \<noteq> NeedInput \<or> ps_ended p'"
  shows "history_ok kind limits p' (ms @ [m])"
proof -
  from assms(4) obtain q where q: "q = opened p part \<or> q = p" "delivered q (ps_settled p') m" by blast
  then have k: "ps_kind q = kind" "ps_limits q = or_defaults limits" "ms \<noteq> [] \<longrightarrow> q = p"
    using assms(1) by (auto simp: history_ok_def)
  from q(2) have e: "m_end m = ps_settled p'" "m_offset m = ps_settled q" by (simp_all add: delivered_def)
  then have "message_valid kind (or_defaults limits) m"
    using q(2) k unfolding message_valid_def by (intro exI [of _ q]) simp
  moreover have "\<forall>x\<in>set ms. m_framed x"
    using assms(1-3) by (cases ms rule: rev_cases) (auto simp: history_ok_def)
  ultimately show ?thesis
    using assms(1,5-9) e k by (auto simp: history_ok_def contiguous_snoc)
qed

lemma history_same:
  assumes "history_ok kind limits p ms" "parser_wf p'" "ps_kind p' = ps_kind p" "ps_limits p' = ps_limits p"
    "ms \<noteq> [] \<longrightarrow> ps_started p' \<and> ps_settled p' = ps_settled p"
    "ps_stop p \<noteq> NeedInput \<or> ps_ended p \<longrightarrow> ps_stop p' \<noteq> NeedInput \<or> ps_ended p'"
  shows "history_ok kind limits p' ms"
  using assms by (auto simp: history_ok_def)

lemma handed_event:
  assumes "event_ok p p' pr"
  shows "handed pr = [] \<and> ps_settled p' = ps_settled p
    \<or> (\<exists>m. handed pr = [m] \<and> delivered p (ps_settled p') m \<and> (m_framed m \<or> ps_stop p' \<noteq> NeedInput))"
  using assms by (auto simp: event_ok_def handed_def result_stopped_def split: result.splits)

lemma history_new: "history_ok kind limits (new_parser kind limits) []"
  by (simp add: history_ok_def new_parser_wf) (simp add: new_parser_def)

lemma history_fed:
  assumes h: "history_ok kind limits p ms" and fed: "feed R r p part = Inr (r', p', pr)"
  shows "history_ok kind limits p' (ms @ handed pr)"
proof -
  have wf: "parser_wf p" using h by (simp add: history_ok_def)
  note w = feed_wf [OF wf fed]
  have o: "ps_kind (opened p part) = ps_kind p" "ps_limits (opened p part) = ps_limits p"
    "ms \<noteq> [] \<longrightarrow> opened p part = p" using h by (auto simp: opened_def history_ok_def)
  have ended: "\<not> ps_ended p" using fed by (auto simp: feed_def admit_def)
  show ?thesis
  proof (cases "ps_stop p = NeedInput")
    case False
    with w have p': "p' = (opened p part)\<lparr>ps_next := pt_offset part + pt_length part\<rparr>" "parser_wf p'"
      and pr: "handed pr = []" by (auto simp: handed_def plain_progress_def)
    have "history_ok kind limits p' ms"
      by (rule history_same [OF h p'(2)]) (use h o False in \<open>auto simp: p'(1) history_ok_def opened_def\<close>)
    with pr show ?thesis by simp
  next
    case True
    with w have f: "parser_wf p'" "same_direction (opened p part) p'" "event_ok (opened p part) p' pr"
      by (auto simp: feed_ok_def)
    have st: "ps_started p'" using f(2) by (simp add: same_direction_def opened_def)
    from handed_event [OF f(3)] consider (none) "handed pr = []" "ps_settled p' = ps_settled (opened p part)"
      | (one) m where "handed pr = [m]" "delivered (opened p part) (ps_settled p') m"
        "m_framed m \<or> ps_stop p' \<noteq> NeedInput" by blast
    then show ?thesis
    proof cases
      case e: none
      have "history_ok kind limits p' ms"
        by (rule history_same [OF h f(1)])
          (use f(2) o st e True ended in \<open>auto simp: same_direction_def\<close>)
      with e(1) show ?thesis by simp
    next
      case e: (one m)
      have "history_ok kind limits p' (ms @ [m])"
        by (rule history_extend [OF h True ended, of part])
          (use e f st o h in \<open>auto simp: same_direction_def history_ok_def\<close>)
      with e(1) show ?thesis by simp
    qed
  qed
qed

lemma answer_awaits:
  assumes "parser_wf p" "answer p meth = Inr (p', pr)"
  shows "ps_phase p = awaitingAnswer" "\<not> ps_ended p" "ps_stop p = NeedInput" "ps_started p"
proof -
  show a: "ps_phase p = awaitingAnswer" "\<not> ps_ended p"
    using assms(2) by (auto simp: answer_def split: if_splits)
  with assms(1) show "ps_stop p = NeedInput" "ps_started p"
    by (auto simp: parser_wf_def at_rest_def split: option.splits)
qed

lemma history_answered:
  assumes h: "history_ok kind limits p ms" and an: "answer p meth = Inr (p', pr)"
  shows "history_ok kind limits p' (ms @ handed pr)"
proof -
  have wf: "parser_wf p" using h by (simp add: history_ok_def)
  note s = answer_awaits [OF wf an]
  have f: "parser_wf p'" "same_direction p p'" "event_ok p p' pr" using answer_wf(1) [OF wf an] by (auto simp: step_ok_def)
  from handed_event [OF f(3)] consider (none) "handed pr = []" "ps_settled p' = ps_settled p"
    | (one) m where "handed pr = [m]" "delivered p (ps_settled p') m" "m_framed m \<or> ps_stop p' \<noteq> NeedInput" by blast
  then show ?thesis
  proof cases
    case e: none
    have "history_ok kind limits p' ms"
      by (rule history_same [OF h f(1)]) (use f(2) e s in \<open>auto simp: same_direction_def\<close>)
    with e(1) show ?thesis by simp
  next
    case e: (one m)
    have "history_ok kind limits p' (ms @ [m])"
      by (rule history_extend [OF h s(3) s(2)])
        (use e f s h in \<open>auto simp: same_direction_def history_ok_def\<close>)
    with e(1) show ?thesis by simp
  qed
qed

lemma history_finished:
  assumes h: "history_ok kind limits p ms" and fin: "end_parser R r p = (r', p', pr)"
  shows "history_ok kind limits p' (ms @ handed pr)"
proof -
  have wf: "parser_wf p" using h by (simp add: history_ok_def)
  note e = end_parser_ok [OF wf fin]
  have st: "ps_started p' = ps_started p"
    using e by (simp add: end_ok_def)
  show ?thesis
  proof (cases "ps_message p")
    case None
    with e have "handed pr = []" "history_ok kind limits p' ms"
      using st h by (auto simp: end_ok_def handed_def history_ok_def)
    then show ?thesis by simp
  next
    case (Some m0)
    with e obtain m where m: "handed pr = [m]" "delivered p (ps_settled p') m"
      by (auto simp: end_ok_def handed_def)
    have "history_ok kind limits p' (ms @ [m])"
      by (rule history_extend [OF h])
        (use wf_message [OF wf Some] e m st h in \<open>auto simp: end_ok_def history_ok_def\<close>)
    with m(1) show ?thesis by simp
  qed
qed

lemma reads_history: "reads R kind limits r0 r p prs \<Longrightarrow> history_ok kind limits p (messages prs)"
proof (induction rule: reads.induct)
  case new
  show ?case by (simp add: history_new)
next
  case (fed r p prs part r' p' pr)
  then show ?case by (simp add: history_fed)
next
  case (answered r p prs meth p' pr)
  then show ?case by (simp add: history_answered)
next
  case (finished r p prs r' p' pr)
  then show ?case by (simp add: history_finished)
qed

section \<open>Properties\<close>

text \<open>A retained charge never exceeds what the limits allow, the line in progress included.\<close>

lemma retained_bound:
  assumes "parser_wf p"
  shows "0 \<le> Bytes (ps_charge p) \<and> Bytes (ps_charge p) \<le> retained_limit (ps_limits p)
    \<and> Messages (ps_charge p) = (if ps_message p = None then 0 else 1)"
proof (cases "ps_message p")
  case None
  then have "ps_charge p = 0" "limits_ok (ps_limits p)" using assms by (auto simp: parser_wf_def at_rest_def)
  with None show ?thesis by (simp add: retained_limit_def limits_ok_def)
next
  case (Some m)
  let ?l = "ps_limits p"
  note f = wf_message [OF assms Some]
  have c: "charge_ok p m" "message_ok ?l m" "phase_ok p m" using f(2) by (auto simp: in_progress_def)
  define t where "t = int (length (m_trailers m)) * MaxHeaderLine ?l"
  define T where "T = MaxTrailers ?l * MaxHeaderLine ?l"
  have tT: "t \<le> T"
    using c(2) f(6) unfolding t_def T_def by (intro mult_right_mono) (auto simp: message_ok_def limits_ok_def)
  have line: "int (length (ps_line p)) \<le> (if ps_phase p = inStartLine then MaxStartLine ?l else MaxHeaderLine ?l)"
    using c(3) f(6) by (cases "ps_phase p") (auto simp: phase_ok_def limits_ok_def Let_def)
  have body: "int (length (m_body m)) \<le> MaxBodyBytes ?l" using c(2) by (simp add: message_ok_def)
  have "Bytes (ps_charge p) \<le> MaxStartLine ?l + MaxHeaderBytes ?l + MaxBodyBytes ?l + T + MaxHeaderLine ?l"
    using c(1) f(6) tT line body
    by (cases "ps_phase p = inStartLine") (simp_all add: charge_ok_def limits_ok_def t_def [symmetric])
  then show ?thesis
    using c(1) Some by (simp add: charge_ok_def retained_limit_def distrib_right T_def)
qed

definition byte_part :: "nat \<Rightarrow> bytes \<Rightarrow> part" where
  "byte_part off bs = \<lparr>pt_offset = off, pt_length = length bs, pt_gap = GapNone, pt_bytes = bs\<rparr>"

definition sample_request :: bytes where
  "sample_request = ''GET / HTTP/1.1'' @ [CR, LF, CR, LF]"

definition sample_message :: message where
  "sample_message = zero_message\<lparr>m_kind := Request, m_method := ''GET'', m_target := ''/'',
     m_protocol := ''HTTP/1.1'', m_complete := True, m_framed := True, m_offset := 7, m_end := 25\<rparr>"

lemmas parser_evals =
  feed_def admit_def part_validate_def byte_part_def new_parser_def part_step_def
  bytes_step_def begin_message_def unaccounted_def or_defaults_def or_default_def default_limits_def with_line_def
  read_line_def scan_line_def plain_progress_def set_current_def read_start_def take_line_def current_def
  read_request_line_def field_line_def fields_ended_def frame_message_def hand_over_def zero_message_def
  result_stopped_def frame_def lengths_of_def declares_encoding_def Let_def

lemmas syntax_evals =
  is_token_def is_token_byte_def is_alnum_def token_marks_def is_visible_text_def is_version_def is_digit_def

lemma sample_fed:
  "\<exists>p. feed unaccounted () (new_parser Request default_limits) (byte_part 7 sample_request) =
     Inr ((), p, \<lparr>pg_consumed = 18, pg_result = Framed, pg_message = Some sample_message, pg_charge = Charge 14 1\<rparr>)"
  by (simp add: parser_evals feed_loop.simps sample_request_def sample_message_def)
    (simp add: syntax_evals charge_eq_iff)

lemma sample_reads:
  "\<exists>p prs. reads unaccounted Request default_limits () () p prs \<and> messages prs = [sample_message]"
proof -
  from sample_fed obtain p where
    f: "feed unaccounted () (new_parser Request default_limits) (byte_part 7 sample_request) =
     Inr ((), p, \<lparr>pg_consumed = 18, pg_result = Framed, pg_message = Some sample_message, pg_charge = Charge 14 1\<rparr>)"
    by blast
  from reads.fed [OF reads.new f] show ?thesis
    by (intro exI conjI) (auto simp: messages_def handed_def)
qed

text \<open>
  C2: framing never goes on past a message whose end is unknown.  Whatever parts, holes and
  answers a direction is given, the messages it hands over lie back to back, each beginning
  where the one before it ended, every one but the last is framed, and everything read and
  not unplaced belongs to them.
\<close>

theorem messages_back_to_back:
  assumes "reads R kind limits r0 r p prs"
  shows "contiguous (messages prs) \<and> (\<forall>m\<in>set (butlast (messages prs)). m_framed m) \<and>
    (messages prs = [] \<or> m_end (last (messages prs)) = ps_settled p) \<and> ps_settled p \<le> ps_next p"
  using reads_history [OF assms] by (auto simp: history_ok_def parser_wf_def)

theorem messages_back_to_back_witness:
  "\<exists>p prs. reads unaccounted Request default_limits () () p prs \<and> messages prs = [sample_message]
     \<and> ps_settled p = 25"
proof -
  from sample_reads obtain p prs where r: "reads unaccounted Request default_limits () () p prs"
    "messages prs = [sample_message]" by blast
  with messages_back_to_back [OF r(1)] show ?thesis by (auto simp: sample_message_def)
qed



text \<open>
  C21: what a parser retains is bounded.  At every moment it holds at most one message begun
  and not handed over, and no more bytes for it than its limits allow: a start line, the field
  lines, a body, the trailers and one line in progress.
\<close>

theorem retained_bounded:
  assumes "reads R kind limits r0 r p prs"
  shows "0 \<le> Bytes (retained p) \<and> Bytes (retained p) \<le> retained_limit (or_defaults limits)
    \<and> Messages (retained p) \<in> {0, 1}"
  using reads_history [OF assms] retained_bound [of p] by (auto simp: history_ok_def retained_def split: if_splits)

theorem retained_bounded_witness:
  "Bytes (retained (new_parser Request default_limits)) \<le> retained_limit (or_defaults default_limits)"
  using retained_bounded [OF reads.new [of unaccounted Request default_limits "()"]] by simp

text \<open>
  C22: one \<open>Feed\<close> accounts for every offset it consumes.  The parser then stands exactly as
  many offsets into the part as were consumed; less than the whole part is consumed only at a
  head, a response waiting on its answer, a framed message or a refusal; and a direction that
  has stopped consumes every part whole, hands nothing over and reports its stop again.
\<close>

theorem feed_accounts_offsets:
  assumes "reads R kind limits r0 r p prs" "feed R r p part = Inr (r', p', pr)"
  shows "ps_next p' = pt_offset part + pg_consumed pr \<and> pg_consumed pr \<le> pt_length part
    \<and> (pg_consumed pr < pt_length part \<longrightarrow> pg_result pr \<in> {Head, NeedRequest, Framed, Refused})
    \<and> (ps_stop p \<noteq> NeedInput \<longrightarrow>
        pg_consumed pr = pt_length part \<and> pg_result pr = ps_stop p \<and> pg_message pr = None \<and> r' = r)"
proof -
  have "parser_wf p" using reads_history [OF assms(1)] by (simp add: history_ok_def)
  from feed_wf [OF this assms(2)] show ?thesis
    by (auto simp: feed_ok_def plain_progress_def split: if_splits)
qed

theorem feed_accounts_offsets_witness:
  "\<exists>r' p' pr. feed unaccounted () (new_parser Request default_limits) (byte_part 7 sample_request) = Inr (r', p', pr)
     \<and> ps_next p' = 25"
proof -
  from sample_fed obtain p where
    f: "feed unaccounted () (new_parser Request default_limits) (byte_part 7 sample_request) =
     Inr ((), p, \<lparr>pg_consumed = 18, pg_result = Framed, pg_message = Some sample_message, pg_charge = Charge 14 1\<rparr>)"
    by blast
  with feed_accounts_offsets [OF reads.new f] show ?thesis by (simp add: byte_part_def)
qed

end
