(* ===== verification/Http_Parser_Accounting.thy ===== *)
theory Http_Parser_Accounting
  imports Http_Parser_History
begin

text \<open>
  What the parser tells its reserver.  The comment on \<open>Reserver\<close> promises that what a
  reserver has granted, less what it was given back, is what the asker retains plus every
  charge it has handed over.  The promise is proved once, inside the locale \<open>accounting\<close>,
  for every operation and every sequence of calls.  \<open>ledger\<close> then keeps such a measure
  beside any reserver, whatever that reserver grants, so the promise holds of all of them.
\<close>

section \<open>Operations that ask for nothing\<close>

definition event_charge :: "progress option \<Rightarrow> charge" where
  "event_charge ev = (case ev of None \<Rightarrow> 0 | Some pr \<Rightarrow> pg_charge pr)"

text \<open>What was retained is retained still or handed over.\<close>

definition keeps :: "parser \<Rightarrow> parser \<times> progress option \<Rightarrow> bool" where
  "keeps p out \<longleftrightarrow> ps_charge (fst out) + event_charge (snd out) = ps_charge p"

lemma hand_over_keeps: "ps_charge (fst (hand_over p res)) = 0" "pg_charge (snd (hand_over p res)) = ps_charge p"
  by (simp_all add: hand_over_def Let_def)

lemma refuse_keeps: "ps_charge (fst (refuse p d detail)) = 0" "pg_charge (snd (refuse p d detail)) = ps_charge p"
  by (simp_all add: refuse_def set_current_def hand_over_keeps)

lemma body_step_keeps: "keeps p (body_step p)"
  by (auto simp: keeps_def body_step_def event_charge_def split_beta set_current_def hand_over_keeps Let_def)

lemma chunk_size_next_keeps: "keeps p (chunk_size_next p)"
  by (auto simp: keeps_def chunk_size_next_def event_charge_def split_beta refuse_keeps)

lemma body_follows_keeps: "ps_charge (fst (body_follows p)) + pg_charge (snd (body_follows p)) = ps_charge p"
  by (simp add: body_follows_def plain_progress_def head_progress_def)

lemma frame_message_keeps:
  "ps_charge (fst (frame_message p noBody)) + pg_charge (snd (frame_message p noBody)) = ps_charge p"
  by (simp add: frame_message_def leaf_defs plain_progress_def head_progress_def split: framing.splits option.splits)

lemma fields_ended_keeps: "ps_charge (fst (fields_ended p)) + pg_charge (snd (fields_ended p)) = ps_charge p"
  by (simp add: fields_ended_def frame_message_keeps head_progress_def Let_def)

lemma chunk_end_keeps: "keeps p (chunk_end p b)"
  using chunk_size_next_keeps
  by (auto simp: chunk_end_def Let_def split_beta keeps_def event_charge_def refuse_keeps)

lemma frame_message_no_charge:
  "pg_message (snd (frame_message p noBody)) = None \<Longrightarrow> pg_charge (snd (frame_message p noBody)) = 0"
  by (auto simp: frame_message_def leaf_defs plain_progress_def head_progress_def
      split: framing.splits option.splits if_splits)

section \<open>Conservation under the contract of a reserver\<close>

context accounting
begin

definition conserves :: "'r \<Rightarrow> parser \<Rightarrow> 'r \<times> parser \<times> progress option \<Rightarrow> bool" where
  "conserves r p out \<longleftrightarrow>
     granted (fst out) + price (ps_charge p)
       = granted r + price (ps_charge (fst (snd out))) + price (event_charge (snd (snd out)))"

lemma conserves_trans:
  assumes "granted r1 + price (ps_charge p) = granted r + price (ps_charge p1)" "conserves r1 p1 out"
  shows "conserves r p out"
proof -
  from assms(1) have "price (ps_charge p) = granted r + price (ps_charge p1) - granted r1"
    by (simp add: eq_diff_eq add.commute)
  moreover from assms(2) have "granted (fst out) =
      granted r1 + price (ps_charge (fst (snd out))) + price (event_charge (snd (snd out))) - price (ps_charge p1)"
    by (simp add: conserves_def eq_diff_eq)
  ultimately show ?thesis by (simp add: conserves_def)
qed

lemma conserves_keeps: "keeps p out \<Longrightarrow> conserves r p (r, out)"
  by (cases out) (simp add: keeps_def conserves_def add.assoc flip: price_add)

lemma release_conserves:
  "granted (fst (release R r p (int n))) + price (ps_charge p)
     = granted r + price (ps_charge (snd (release R r p (int n))))"
proof (cases "n = 0")
  case False
  then have "granted (fst (release R r p (int n))) = granted r - price (Charge (int n) 0)"
    by (simp add: release_def release_returns)
  then show ?thesis by (simp add: release_parser price_diff)
qed (simp add: release_def)

lemma drop_line_conserves:
  "granted (fst (drop_line R r p)) + price (ps_charge p) = granted r + price (ps_charge (snd (drop_line R r p)))"
  using release_conserves [of r p "length (ps_line p)"]
  by (simp add: drop_line_def split_beta)

lemma refuse_conserves:
  assumes "granted r1 + price (ps_charge p) = granted r + price (ps_charge p1)"
  shows "conserves r p (r1, fst (refuse p1 d detail), Some (snd (refuse p1 d detail)))"
  using assms by (simp add: conserves_def event_charge_def refuse_keeps price_zero)

lemma release_refuse_conserves: "conserves r p (release_refuse R r p line d detail)"
  using refuse_conserves [OF release_conserves [of r p "length line"]]
  by (simp add: release_refuse_def split_beta)

lemma read_line_conserves:
  assumes "read_line R r p input max' ctx = (r', p', fin, ev)"
  shows "conserves r p (r', p', ev)"
proof (cases rule: read_line_cases [where R = R and r = r and p = p and input = input and max' = max' and ctx = ctx])
  case (overlong s rest q)
  then have "granted s + price (ps_charge p) = granted r + price (ps_charge q)"
    using drop_line_conserves [of r "p\<lparr>ps_examined := ps_examined p + (length input - length rest),
         ps_next := ps_next p + (length input - length rest)\<rparr>"] by simp
  from refuse_conserves [OF this] overlong(2) assms show ?thesis by auto
next
  case (refused s n k)
  with assms reserve_refused [of "Charge (int n) 0" r s] show ?thesis
    by (auto simp: conserves_def event_charge_def plain_progress_def price_zero)
next
  case (granted s line' saw' k fin')
  let ?c = "Charge (int (length line' - length (ps_line p))) 0"
  have z: "Charge 0 0 = 0" by (simp add: charge_eq_iff)
  have "granted s = granted r + price ?c"
    using granted(3) reserve_granted [of ?c r s] by (auto simp: z price_zero)
  with granted(4) assms show ?thesis
    by (auto simp: conserves_def event_charge_def price_add price_zero ac_simps)
qed

lemma with_line_conserves:
  assumes k: "\<And>r p. conserves r p (k R r p)"
  shows "conserves r p (with_line R r p input max' ctx k)"
proof -
  obtain r' p' fin ev where l: "read_line R r p input max' ctx = (r', p', fin, ev)" by (metis prod_cases4)
  note c = read_line_conserves [OF l]
  show ?thesis
  proof (cases ev)
    case None
    with c have "granted r' + price (ps_charge p) = granted r + price (ps_charge p')"
      by (simp add: conserves_def event_charge_def price_zero)
    from conserves_trans [OF this k] c l None show ?thesis by (simp add: with_line_def)
  next
    case (Some pr)
    with c l show ?thesis by (simp add: with_line_def)
  qed
qed

lemma handlers_conserve:
  "conserves r p (read_start R r p)" "conserves r p (field_line R r p)"
  "conserves r p (trailer_line R r p)" "conserves r p (chunk_size_line R r p)"
proof -
  have same: "conserves r p out = conserves r q out" if "ps_charge q = ps_charge p" for r p q out
    using that by (simp add: conserves_def)
  have rr: "conserves r p (release_refuse R r q line d detail)" if "ps_charge q = ps_charge p" for r p q line d detail
    using that release_refuse_conserves same by blast
  show "conserves r p (read_start R r p)"
    using rr by (auto simp: read_start_def take_line_def set_current_def split: kind.splits option.splits)
      (auto simp: conserves_def event_charge_def price_zero)
  have kept: "conserves r p (r, q, None)" if "ps_charge q = ps_charge p" for r p q
    using that by (simp add: conserves_def event_charge_def price_zero)
  have over: "conserves r p (r, q, Some pr)" if "ps_charge q + pg_charge pr = ps_charge p" for r p q pr
    using conserves_keeps [of p "(q, Some pr)" r] that by (simp add: keeps_def event_charge_def)
  show "conserves r p (field_line R r p)"
    using fields_ended_keeps [of "p\<lparr>ps_line := [], ps_saw_cr := False\<rparr>"]
    by (simp add: field_line_def take_line_def set_current_def Let_def split_beta rr kept over split: option.split)
  show "conserves r p (trailer_line R r p)"
    by (simp add: trailer_line_def take_line_def set_current_def Let_def split_beta rr kept over hand_over_keeps
        split: option.split)
  have "conserves r p (fst (drop_line R r p), q, None)" if "ps_charge q = ps_charge (snd (drop_line R r p))" for q
    using drop_line_conserves [of r p] that by (simp add: conserves_def event_charge_def price_zero)
  then show "conserves r p (chunk_size_line R r p)"
    using refuse_conserves [OF drop_line_conserves]
    by (simp add: chunk_size_line_def split_beta split: option.split)
qed

lemma body_conserves: "conserves r p (body R r p input)"
proof (cases rule: body_cases [of p input R r])
  case (refused s)
  with reserve_refused [of "Charge (int (body_keep p input)) 0" r s] show ?thesis
    by (simp add: conserves_def event_charge_def plain_progress_def price_zero)
next
  case (granted s)
  have "ps_charge (body_taken p input) = ps_charge p + Charge (int (body_keep p input)) 0"
    by (simp add: body_taken_def set_current_def Let_def)
  then have "granted s + price (ps_charge p) = granted r + price (ps_charge (body_taken p input))"
    using reserve_granted [of "Charge (int (body_keep p input)) 0" r s] granted(2) by (simp add: price_add ac_simps)
  from conserves_trans [OF this conserves_keeps [OF body_step_keeps]] granted(3) show ?thesis by simp
next
  case free
  have "ps_charge (body_taken p input) = ps_charge p"
    using free(1) by (simp add: body_taken_def set_current_def Let_def charge_eq_iff)
  with conserves_keeps [OF body_step_keeps, of r "body_taken p input"] free(2) show ?thesis
    by (simp add: conserves_def)
qed

lemma begin_message_conserves:
  assumes "ps_charge p = 0"
  shows "conserves r p (begin_message R r p)"
proof -
  have "nonneg_charge (Charge 0 1)" by simp
  then show ?thesis
    using assms
    by (cases rule: reserve_cases [of "Charge 0 1" r])
      (auto simp: begin_message_def conserves_def event_charge_def plain_progress_def price_zero)
qed

lemma bytes_step_conserves:
  assumes "ps_phase p = betweenMessages \<Longrightarrow> ps_charge p = 0"
  shows "conserves r p (bytes_step R r p input)"
proof (cases "ps_phase p")
  case inChunkEnd
  with conserves_keeps [OF chunk_end_keeps, of r p "hd input"] show ?thesis by (simp add: bytes_step_def split_beta)
next
  case awaitingAnswer
  then show ?thesis by (simp add: bytes_step_def conserves_def event_charge_def plain_progress_def price_zero)
qed (use assms in \<open>simp_all add: bytes_step_def with_line_conserves handlers_conserve body_conserves
      begin_message_conserves\<close>)

lemma hole_step_conserves:
  assumes "ps_phase p = betweenMessages \<Longrightarrow> ps_charge p = 0"
  shows "conserves r p (hole_step R r p g n)"
proof -
  have body: "conserves r p (r, body_step q)" if "ps_charge q = ps_charge p" for q
    using conserves_keeps [OF body_step_keeps, of r q] that by (simp add: conserves_def)
  show ?thesis
    using assms body refuse_conserves [OF drop_line_conserves]
    by (simp add: hole_step_def begin_message_conserves Let_def split_beta set_current_def)
qed

lemma part_step_conserves:
  assumes "parser_wf p"
  shows "conserves r p (part_step R r p part)"
proof -
  have "ps_charge p = 0" if "ps_phase p = betweenMessages"
    using assms that by (cases "ps_message p") (auto simp: parser_wf_def at_rest_def in_progress_def phase_ok_def)
  then show ?thesis
    by (simp add: part_step_def bytes_step_conserves hole_step_conserves)
qed

lemma feed_loop_conserves_aux:
  assumes "Q = R" "live p" "part_validate part = None" "pt_offset part \<le> ps_next p"
    "feed_loop Q r p part = (r', p', pr)"
  shows "conserves r p (r', p', Some pr)"
  using assms
proof (induction Q r p part arbitrary: r' p' pr rule: feed_loop.induct)
  case (1 Q r p part)
  show ?case
  proof (cases "ps_next p < pt_offset part + pt_length part")
    case False
    with 1(6) have "r' = r" "p' = p" "pr = (plain_progress NeedInput)\<lparr>pg_consumed := pt_length part\<rparr>"
      by (auto simp: feed_loop.simps [of Q r p part])
    then show ?thesis by (simp add: conserves_def event_charge_def plain_progress_def price_zero)
  next
    case True
    obtain r1 p1 ev where st: "part_step R r p part = (r1, p1, ev)" by (metis prod_cases3)
    note ok = part_step_ok [OF 1(3-5) True st]
    have c: "conserves r p (r1, p1, ev)"
      using part_step_conserves [of p r part] 1(3) st by (simp add: live_def)
    show ?thesis
    proof (cases ev)
      case None
      with ok(1) have s: "ps_message p1 \<noteq> None" "parser_wf p1" "same_direction p p1" by (auto simp: step_ok_def)
      then have live: "live p1" using 1(3) by (auto simp: live_def same_direction_def parser_wf_def)
      have le: "pt_offset part \<le> ps_next p1" using s(3) 1(5) by (simp add: same_direction_def)
      have "feed_loop Q r1 p1 part = (r', p', pr)"
        using 1(2,4-6) True st None by (simp add: feed_loop.simps [of R r p part])
      from 1(1) [OF _ _ _ _ 1(2) live 1(4) le this, of "(p1, ev)" ev] True 1(2,4,5) st None
      have "conserves r1 p1 (r', p', Some pr)" by simp
      moreover have "granted r1 + price (ps_charge p) = granted r + price (ps_charge p1)"
        using c None by (simp add: conserves_def event_charge_def price_zero)
      ultimately show ?thesis by (rule conserves_trans [rotated])
    next
      case (Some pr1)
      with 1(2,4-6) True st have "r' = r1" "ps_charge p' = ps_charge p1" "pg_charge pr = pg_charge pr1"
        by (auto simp: feed_loop.simps [of R r p part] Let_def)
      with c Some show ?thesis by (simp add: conserves_def event_charge_def)
    qed
  qed
qed

lemma feed_conserves:
  assumes "parser_wf p" "feed R r p part = Inr (r', p', pr)"
  shows "conserves r p (r', p', Some pr)"
proof -
  from assms(2) have ad: "admit p part = None" by (cases "admit p part") (auto simp: feed_def)
  note o = opened_wf [OF assms(1) ad]
  have q: "(if \<not> ps_started p then p\<lparr>ps_started := True, ps_next := pt_offset part, ps_settled := pt_offset part\<rparr> else p)
      = opened p part" "ps_charge (opened p part) = ps_charge p" by (simp_all add: opened_def)
  have plain: "conserves r p (r, x, Some pr)" if "ps_charge x = ps_charge p" "pg_charge pr = 0" for x pr
    using that by (simp add: conserves_def event_charge_def price_zero)
  show ?thesis
  proof (cases "ps_stop p = NeedInput \<and> ps_phase (opened p part) \<noteq> awaitingAnswer")
    case True
    then have "live (opened p part)" "feed_loop R r (opened p part) part = (r', p', pr)"
      using assms(2) o by (auto simp: live_def feed_def ad q Let_def)
    from feed_loop_conserves_aux [OF refl this(1) o(5) _ this(2)] o(4) q(2) show ?thesis
      by (simp add: conserves_def)
  next
    case False
    with assms(2) plain q(2) show ?thesis
      by (auto simp: feed_def ad q(1) Let_def plain_progress_def split: if_splits)
  qed
qed

lemma answer_conserves:
  assumes "answer p method = Inr (p', pr)"
  shows "conserves r p (r, p', Some pr)"
  using assms frame_message_keeps [of p "equal_fold method ''HEAD''"] conserves_keeps [of p "(p', Some pr)" r]
  by (auto simp: answer_def keeps_def event_charge_def split: if_splits)

lemma end_in_progress_conserves: "conserves r p (map_prod id (map_prod id Some) (end_in_progress R r p))"
  using drop_line_conserves [of r p] release_conserves [of r p "ps_chunk_kept p"]
  by (simp add: conserves_def event_charge_def end_in_progress_def Let_def split_beta map_prod_def price_zero)

lemma end_conserves:
  assumes "end_parser R r p = (r', p', pr)"
  shows "conserves r p (r', p', Some pr)"
proof -
  have same: "conserves r p out" if "ps_charge q = ps_charge p" "conserves r q out" for q out
    using that by (simp add: conserves_def)
  have plain: "conserves r p (r, q, Some pr)" if "ps_charge q = ps_charge p" "pg_charge pr = 0" for q pr
    using that by (simp add: conserves_def event_charge_def price_zero)
  show ?thesis
  proof (cases "ps_ended p \<or> ps_phase p \<noteq> awaitingAnswer")
    case direct: True
    show ?thesis
    proof (cases "ps_ended p \<or> ps_message p = None")
      case True
      with assms direct plain show ?thesis
        by (auto simp: end_parser_def plain_progress_def Let_def split: if_splits)
    next
      case False
      with assms direct have "end_in_progress R r (p\<lparr>ps_ended := True\<rparr>) = (r', p', pr)"
        by (auto simp: end_parser_def Let_def)
      with end_in_progress_conserves [of r "p\<lparr>ps_ended := True\<rparr>"] show ?thesis
        by (simp add: conserves_def)
    qed
  next
    case False
    then obtain p1 a where an: "answer p [] = Inr (p1, a)"
      by (cases "frame_message p (equal_fold [] ''HEAD'')") (simp add: answer_def)
    note c = answer_conserves [OF an, of r]
    show ?thesis
    proof (cases "pg_message a")
      case (Some m)
      with False assms an have "r' = r" "ps_charge p' = ps_charge p1" "pg_charge pr = pg_charge a"
        by (auto simp: end_parser_def)
      with c show ?thesis by (simp add: conserves_def event_charge_def)
    next
      case None
      then have z: "pg_charge a = 0" using frame_message_no_charge [of p "equal_fold [] ''HEAD''"] an False
        by (auto simp: answer_def)
      have m: "ps_message p1 \<noteq> None"
        using None frame_message_follows(1) [of p "equal_fold [] ''HEAD''"] an False by (auto simp: answer_def)
      have "conserves r (p1\<lparr>ps_ended := True\<rparr>) (r', p', Some pr)"
        using None False assms an m end_in_progress_conserves [of r "p1\<lparr>ps_ended := True\<rparr>"]
        by (auto simp: end_parser_def map_prod_def split: option.splits)
      then show ?thesis
        using c z by (intro conserves_trans [of r p r p1]) (auto simp: conserves_def event_charge_def price_zero)
    qed
  qed
qed

lemma conserves_total:
  assumes "conserves r p (r', p', Some pr)" "granted r = g + price (retained p) + t"
  shows "granted r' = g + price (retained p') + (t + price (pg_charge pr))"
proof -
  from assms(1) have "granted r' = granted r + price (ps_charge p') + price (pg_charge pr) - price (ps_charge p)"
    by (simp add: conserves_def event_charge_def eq_diff_eq)
  with assms(2) show ?thesis by (simp add: retained_def)
qed

text \<open>The promise, over every sequence of calls.\<close>

lemma reads_conserve:
  assumes "reads R kind limits r0 r p prs"
  shows "granted r = granted r0 + price (retained p) + price (sum_list (map pg_charge prs))"
proof -
  have "Q = R \<Longrightarrow> granted r = granted r0 + price (retained p) + price (sum_list (map pg_charge prs))"
    if "reads Q kind limits r0 r p prs" for Q
    using that
  proof (induction rule: reads.induct)
    case new
    show ?case by (simp add: retained_def new_parser_def price_zero)
  next
    case (fed r p prs part r' p' pr)
    have "parser_wf p" using reads_history [OF fed.hyps(1)] by (simp add: history_ok_def)
    from conserves_total [OF feed_conserves [OF this]] fed show ?case by (auto simp: price_add)
  next
    case (answered r p prs meth p' pr)
    from conserves_total [OF answer_conserves] answered show ?case by (auto simp: price_add)
  next
    case (finished r p prs r' p' pr)
    from conserves_total [OF end_conserves] finished show ?case by (auto simp: price_add)
  qed
  with assms show ?thesis by simp
qed

end

section \<open>A ledger beside any reserver\<close>

definition ledger :: "'r reserver \<Rightarrow> ('r \<times> charge) reserver" where
  "ledger R =
     \<lparr>Reserve = (\<lambda>(r, g) c. case Reserve R r c of (ok, r') \<Rightarrow> (ok, r', if ok then g + c else g)),
      Release = (\<lambda>(r, g) c. (Release R r c, g - c))\<rparr>"

interpretation ledger: accounting "ledger R" snd id for R :: "'r reserver"
  by unfold_locales (auto simp: ledger_def split: prod.splits)

text \<open>
  C3: every charge is reserved before it is retained and leaves the parser exactly once.
  Over any sequence of calls, whatever the reserver grants or refuses, what it has granted
  less what was given back equals what the parser retains plus every charge it has handed
  over with a message.
\<close>

theorem reserved_exactly_once:
  assumes "reads (ledger R) kind limits (r0, 0) (r, g) p prs"
  shows "g = retained p + sum_list (map pg_charge prs)"
  using ledger.reads_conserve [OF assms] by simp

text \<open>A reserver that grants one message and then refuses everything.\<close>

definition one_message :: "bool reserver" where
  "one_message = \<lparr>Reserve = (\<lambda>r c. (\<not> r, True)), Release = (\<lambda>r c. r)\<rparr>"

lemma one_message_fed:
  "\<exists>r g p pr. feed (ledger one_message) (False, 0) (new_parser Request default_limits) (byte_part 7 sample_request)
     = Inr ((r, g), p, pr) \<and> pg_result pr = Refused \<and> g = Charge 0 1"
proof -
  have r: "Reserve (ledger one_message) (r, g) c = (\<not> r, True, if \<not> r then g + c else g)" for r g c
    by (simp add: ledger_def one_message_def)
  show ?thesis
    by (simp add: parser_evals r sample_request_def, subst feed_loop.simps, simp add: parser_evals r,
        subst feed_loop.simps, simp add: parser_evals r, rule exI [of _ True], rule TrueI)
qed

theorem reserved_exactly_once_witness:
  "\<exists>r g p pr. feed (ledger one_message) (False, 0) (new_parser Request default_limits) (byte_part 7 sample_request)
     = Inr ((r, g), p, pr) \<and> pg_result pr = Refused \<and> g = Charge 0 1 \<and> g = retained p + pg_charge pr"
proof -
  from one_message_fed obtain r g p pr where
    f: "feed (ledger one_message) (False, 0) (new_parser Request default_limits) (byte_part 7 sample_request)
      = Inr ((r, g), p, pr)" "pg_result pr = Refused" "g = Charge 0 1"
    by blast
  from reserved_exactly_once [OF reads.fed [OF reads.new f(1)]] f show ?thesis by auto
qed

end
