(* ===== verification/Int64.thy ===== *)
theory Int64
  imports Prelude
begin

text \<open>
  Go's \<open>int64\<close>: an integer from \<open>- 2 ^ 63\<close> below \<open>2 ^ 63\<close>.  Sums, differences and
  conversions that leave the range wrap in two's complement; \<open>wrap64\<close> is that wrap, and the
  collection \<open>i64_simps\<close> removes it where the result fits.
\<close>

named_theorems i64_simps "signed 64-bit results that do not wrap"

abbreviation half64 :: int where
  "half64 \<equiv> 9223372036854775808"

definition wrap64 :: "int \<Rightarrow> int" where
  "wrap64 x = (x + half64) mod (2 * half64) - half64"

definition fits64 :: "int \<Rightarrow> bool" where
  "fits64 x \<longleftrightarrow> - half64 \<le> x \<and> x < half64"

lemma half64_power: "half64 = 2 ^ 63"
  by simp

lemma wrap64_fits [simp]: "fits64 (wrap64 x)"
proof -
  have "0 \<le> (x + half64) mod (2 * half64)" "(x + half64) mod (2 * half64) < 2 * half64"
    by (intro pos_mod_sign pos_mod_bound; simp)+
  then show ?thesis
    unfolding fits64_def wrap64_def by linarith
qed

lemma wrap64_id: "fits64 x \<Longrightarrow> wrap64 x = x"
  unfolding fits64_def wrap64_def by (subst mod_pos_pos_trivial) linarith+

lemma wrap64_bounds [i64_simps]: "- half64 \<le> x \<Longrightarrow> x < half64 \<Longrightarrow> wrap64 x = x"
  by (simp add: wrap64_id fits64_def)

lemma wrap64_cong: "wrap64 x = wrap64 y \<longleftrightarrow> x mod (2 * half64) = y mod (2 * half64)"
  by (simp add: wrap64_def mod_eq_dvd_iff)

lemma wrap64_wrap_add [simp]:
  "wrap64 (wrap64 x + y) = wrap64 (x + y)" "wrap64 (x + wrap64 y) = wrap64 (x + y)"
proof -
  have "2 * half64 dvd wrap64 z - z" for z
  proof -
    have "2 * half64 dvd (z + half64) mod (2 * half64) - (z + half64)"
      by (rule mod_eq_dvd_iff [THEN iffD1, OF mod_mod_trivial])
    moreover have "wrap64 z - z = (z + half64) mod (2 * half64) - (z + half64)"
      unfolding wrap64_def by linarith
    ultimately show ?thesis by (simp only:)
  qed
  then show "wrap64 (wrap64 x + y) = wrap64 (x + y)" "wrap64 (x + wrap64 y) = wrap64 (x + y)"
    by (simp_all only: wrap64_cong mod_eq_dvd_iff add_diff_cancel_left add_diff_cancel_right)
qed


lemma wrap64_idem [simp]: "wrap64 (wrap64 x) = wrap64 x"
  by (rule wrap64_id) simp


lemma wrap64_nonneg: "0 \<le> x \<Longrightarrow> x < half64 \<Longrightarrow> wrap64 x = x"
  by (rule wrap64_bounds) simp_all

end
