(* ===== verification/Connection.thy ===== *)
theory Connection
  imports Fragment Int64 Go_Strings
begin

text \<open>
  Package \<open>connection\<close> (\<open>connection.go\<close>, \<open>count.go\<close>, \<open>placement.go\<close>, \<open>record.go\<close>,
  \<open>evidence.go\<close>): what the observer publishes about a captured connection.

  An enumeration is a datatype with the source's constants and one more constructor for the
  values of its \<open>uint8\<close> that no constant names.  An error is the value \<open>Some e\<close> naming the
  rule that failed, \<open>None\<close> is no error, and the order of the checks is the source's.
  \<open>int64\<close> sums wrap (\<open>Int64\<close>).  A \<open>netip.Addr\<close> is the text of its address and its zone.
  Instants are measured from Go's zero time, which is \<open>None\<close>.
\<close>

section \<open>Names\<close>

type_synonym generation = nat

definition generation_known :: "generation \<Rightarrow> bool" where
  "generation_known g \<longleftrightarrow> g \<noteq> 0"

definition generation_string :: "generation \<Rightarrow> string" where
  "generation_string g = (if \<not> generation_known g then ''no generation'' else ''generation '' @ itoa g)"

record netns =
  net_device :: nat
  net_inode :: nat

definition netns_known :: "netns \<Rightarrow> bool" where
  "netns_known n \<longleftrightarrow> net_device n \<noteq> 0 \<or> net_inode n \<noteq> 0"

definition netns_string :: "netns \<Rightarrow> string" where
  "netns_string n =
    (if \<not> netns_known n then ''a network namespace nothing here names''
     else ''network namespace '' @ itoa (net_device n) @ '':'' @ itoa (net_inode n))"

record descriptor =
  fd_number :: int
  fd_known :: bool

record socket =
  sock_inode :: nat
  sock_known :: bool

definition named_socket :: "nat \<Rightarrow> socket" where
  "named_socket inode =
    (if inode = 0 then \<lparr>sock_inode = 0, sock_known = False\<rparr> else \<lparr>sock_inode = inode, sock_known = True\<rparr>)"

definition unnamed_socket :: socket where
  "unnamed_socket = \<lparr>sock_inode = 0, sock_known = False\<rparr>"

definition socket_string :: "socket \<Rightarrow> string" where
  "socket_string s =
    (if \<not> sock_known s then ''a socket nothing here named''
     else ''socket:['' @ itoa (sock_inode s) @ '']'')"

definition held_descriptor :: "int \<Rightarrow> descriptor" where
  "held_descriptor n = \<lparr>fd_number = n, fd_known = True\<rparr>"

definition unheld_descriptor :: descriptor where
  "unheld_descriptor = \<lparr>fd_number = 0, fd_known = False\<rparr>"

record ip_addr =
  ip_text :: string
  ip_zone :: string

record address =
  addr_ip :: ip_addr
  addr_port :: nat
  addr_known :: bool

definition at_address :: "ip_addr \<Rightarrow> nat \<Rightarrow> address" where
  "at_address ip port = \<lparr>addr_ip = ip, addr_port = port, addr_known = True\<rparr>"

definition nowhere :: address where
  "nowhere = \<lparr>addr_ip = \<lparr>ip_text = [], ip_zone = []\<rparr>, addr_port = 0, addr_known = False\<rparr>"

record endpoints =
  end_local :: address
  end_remote :: address
  end_netns :: netns

definition endpoints_complete :: "endpoints \<Rightarrow> bool" where
  "endpoints_complete e \<longleftrightarrow>
    addr_known (end_local e) \<and> addr_known (end_remote e) \<and> netns_known (end_netns e)"

section \<open>States and reasons\<close>

datatype state = StateUnset | Established | UnknownState | Ambiguous | Invalidated | StateOther nat

definition state_string :: "state \<Rightarrow> string" where
  "state_string s =
    (case s of Established \<Rightarrow> ''established'' | UnknownState \<Rightarrow> ''unknown''
     | Ambiguous \<Rightarrow> ''ambiguous'' | Invalidated \<Rightarrow> ''invalidated'' | _ \<Rightarrow> ''unset'')"

datatype reason =
    ReasonUnset
  | NoBindingObserved | InsertionRefused | ObservationLost | TransportUnsupported
  | BindingUnobservable | OperationWasNotASocket | EvidenceUnreadable | OperationUnresolved
  | RouteUnsupported | OperationFrameBroken | SocketEvidenceUnavailable
  | SeveralDescriptors
  | DescriptorReplaced | TransportReplaced | LifetimeEvidenceEnded | HandleReleased
  | HandleLifetimeUnobservable
  | TerminalUnsettled | SequenceUnavailable | OperationsOverlapped | LengthUnmeasured
  | ReasonOther nat

definition possessive :: "string \<Rightarrow> string \<Rightarrow> string" where
  "possessive owner rest = owner @ CHR 0x27 # rest"

definition reason_string :: "reason \<Rightarrow> string" where
  "reason_string r =
    (case r of
       NoBindingObserved \<Rightarrow> ''no binding was observed''
     | InsertionRefused \<Rightarrow> ''the binding could not be recorded''
     | ObservationLost \<Rightarrow> ''the observation of the binding was lost''
     | TransportUnsupported \<Rightarrow> ''the transport answers no descriptor''
     | BindingUnobservable \<Rightarrow> ''no probe that could observe a binding was placed''
     | OperationWasNotASocket \<Rightarrow> possessive ''the call'' ''s own I/O was an ordinary file''
     | EvidenceUnreadable \<Rightarrow> ''the socket the operation acquired could not be read''
     | OperationUnresolved \<Rightarrow> possessive ''the call'' ''s own I/O reached no socket evidence''
     | RouteUnsupported \<Rightarrow> possessive ''the call'' ''s I/O took a route this build does not follow''
     | OperationFrameBroken \<Rightarrow>
         possessive ''the operation frame this call'' ''s evidence would have hung on was broken''
     | SocketEvidenceUnavailable \<Rightarrow>
         possessive ''no kernel evidence of the socket a call'' ''s I/O crossed was placed''
     | SeveralDescriptors \<Rightarrow>
         possessive ''the call'' ''s window held socket work on more than one descriptor''
     | DescriptorReplaced \<Rightarrow> ''the descriptor was replaced under the binding''
     | TransportReplaced \<Rightarrow> possessive ''the handle'' ''s transport was replaced''
     | LifetimeEvidenceEnded \<Rightarrow> ''the descriptor lifetime evidence ran out''
     | HandleReleased \<Rightarrow> ''the handle was released or recycled''
     | HandleLifetimeUnobservable \<Rightarrow>
         possessive ''no probe that could observe the handle'' ''s release was placed''
     | TerminalUnsettled \<Rightarrow>
         possessive ''nothing settled whether the direction'' ''s last transfers arrived''
     | SequenceUnavailable \<Rightarrow> ''the producer kept no sequence for a transfer of the direction''
     | OperationsOverlapped \<Rightarrow>
         ''two calls in the direction were in flight on the handle at once''
     | LengthUnmeasured \<Rightarrow> ''a transfer of the direction moved a length nothing measured''
     | _ \<Rightarrow> ''no reason'')"

definition reason_holds :: "reason \<Rightarrow> state \<Rightarrow> bool" where
  "reason_holds r s =
    (case s of
       Established \<Rightarrow> r = ReasonUnset
     | UnknownState \<Rightarrow> r \<in> {NoBindingObserved, InsertionRefused, ObservationLost, TransportUnsupported,
         BindingUnobservable, OperationWasNotASocket, EvidenceUnreadable, OperationUnresolved,
         RouteUnsupported, OperationFrameBroken, SocketEvidenceUnavailable}
     | Ambiguous \<Rightarrow> r = SeveralDescriptors
     | Invalidated \<Rightarrow> r \<in> {DescriptorReplaced, TransportReplaced, LifetimeEvidenceEnded, HandleReleased,
         HandleLifetimeUnobservable}
     | _ \<Rightarrow> False)"

datatype joinability = JoinabilityUnset | Joins | DoesNotJoin | JoinabilityOther nat

definition joinability_string :: "joinability \<Rightarrow> string" where
  "joinability_string j =
    (case j of Joins \<Rightarrow> ''joinable'' | DoesNotJoin \<Rightarrow> ''not joinable'' | _ \<Rightarrow> ''unset'')"

datatype join_reason =
  JoinReasonUnset | NoBindingToJoin | EndpointUnreadable | NoEndpointProducer | NamespaceUnestablished
  | JoinReasonOther nat

definition join_reason_string :: "join_reason \<Rightarrow> string" where
  "join_reason_string j =
    (case j of
       NoBindingToJoin \<Rightarrow> ''there is no binding to take endpoints from''
     | EndpointUnreadable \<Rightarrow> ''the endpoints could not be read''
     | NoEndpointProducer \<Rightarrow> ''this build establishes no endpoints''
     | NamespaceUnestablished \<Rightarrow> ''the addresses were read and the namespace they are in was not''
     | _ \<Rightarrow> ''no reason'')"

datatype source = SourceUnset | SetterArgument | InCallSyscall | SocketLifetime | SourceOther nat

definition source_string :: "source \<Rightarrow> string" where
  "source_string s =
    (case s of
       SetterArgument \<Rightarrow> possessive ''the library'' ''s own setter argument''
     | InCallSyscall \<Rightarrow> ''a socket syscall inside the call on the same thread''
     | SocketLifetime \<Rightarrow> possessive ''the descriptor'' ''s own lifetime record''
     | _ \<Rightarrow> ''no evidence source'')"

datatype basis = BasisUnset | ConfirmedInCall | Continuity | BasisOther nat

definition basis_string :: "basis \<Rightarrow> string" where
  "basis_string b =
    (case b of
       ConfirmedInCall \<Rightarrow> possessive ''established by this call'' ''s own I/O''
     | Continuity \<Rightarrow> possessive ''continued from the handle''
         ''s earlier binding, this call performing none of its own''
     | _ \<Rightarrow> ''unset'')"

section \<open>Intervals, handles and associations\<close>

definition instant :: "time \<Rightarrow> int" where
  "instant t = (case t of None \<Rightarrow> 0 | Some x \<Rightarrow> x)"

definition before :: "time \<Rightarrow> time \<Rightarrow> bool" where
  "before a b \<longleftrightarrow> instant a < instant b"

record interval =
  iv_from :: time
  iv_until :: time
  iv_open :: bool

definition since :: "time \<Rightarrow> interval" where
  "since t = \<lparr>iv_from = t, iv_until = None, iv_open = True\<rparr>"

definition between :: "time \<Rightarrow> time \<Rightarrow> interval" where
  "between t u = \<lparr>iv_from = t, iv_until = u, iv_open = False\<rparr>"

definition interval_holds :: "interval \<Rightarrow> time \<Rightarrow> bool" where
  "interval_holds i t = (if before t (iv_from i) then False else iv_open i \<or> before t (iv_until i))"

datatype connection_error =
    IntervalNoStart | IntervalNoEnd | IntervalBackwards
  | HandleNoNamespace | HandleNoProcess | HandleNoAdmission | HandleNoGeneration
  | AssocBadDirection | AssocNoState | AssocReasonOfAnother | AssocBasisUnestablished
  | AssocJoinUnsaid | AssocJoinsWithReason | AssocJoinNoReason | AssocJoinsUnestablished
  | AssocJoinsIncomplete | AssocNoBindingEstablished | AssocAmbiguousFew | AssocUnknownNamesDescriptor
  | AssocNoSource | AssocNoDescriptor | AssocNoBinding
  | PlaceBadDirection | PlaceUnsaid | PlaceWholeWithReason | PlaceNoReason | PlaceNamesOffset
  | RecordNoID | RecordNoFirstSeen | RecordNoOpened | RecordNoEnding | RecordNoEnd
  | RecordAssocOfAnother | RecordTwoAssociations | RecordPlaceOfAnother | RecordTwoPlacements
  | AgreesEvidence fragment_error | AgreesConnection | AgreesExecution | AgreesHandle | AgreesNetwork
  | AgreesFirstSeen | AgreesOpened | AgreesFragments | AgreesNoPlacement | AgreesBelowLimit
  | AgreesCutElsewhere | AgreesCountsUncounted | AgreesCountsFewer

definition interval_validate :: "interval \<Rightarrow> connection_error option" where
  "interval_validate i =
    (if iv_from i = None then Some IntervalNoStart
     else if \<not> iv_open i \<and> iv_until i = None then Some IntervalNoEnd
     else if \<not> iv_open i \<and> before (iv_until i) (iv_from i) then Some IntervalBackwards
     else None)"

record wire =
  wire_accepted :: int
  wire_known :: bool

definition accepted :: "int \<Rightarrow> wire" where
  "accepted n = \<lparr>wire_accepted = n, wire_known = True\<rparr>"

record instance_key =
  key_namespace :: namespace
  key_pid :: int
  key_generation :: generation

definition instance_key :: "instance_rec \<Rightarrow> instance_key" where
  "instance_key i = \<lparr>key_namespace = in_namespace i, key_pid = in_pid i, key_generation = in_generation i\<rparr>"

definition namespace_known :: "namespace \<Rightarrow> bool" where
  "namespace_known n \<longleftrightarrow> ns_device n \<noteq> 0 \<or> ns_inode n \<noteq> 0"

record handle =
  hd_instance :: instance_key
  hd_address :: nat
  hd_generation :: generation

definition handle_validate :: "handle \<Rightarrow> connection_error option" where
  "handle_validate h =
    (if \<not> namespace_known (key_namespace (hd_instance h)) then Some HandleNoNamespace
     else if key_pid (hd_instance h) \<le> 0 then Some HandleNoProcess
     else if \<not> generation_known (key_generation (hd_instance h)) then Some HandleNoAdmission
     else if \<not> generation_known (hd_generation h) then Some HandleNoGeneration
     else None)"

record association =
  as_connection :: connection_id
  as_direction :: direction
  as_state :: state
  as_reason :: reason
  as_binding :: generation
  as_source :: source
  as_valid :: interval
  as_descriptor :: descriptor
  as_socket :: socket
  as_endpoints :: endpoints
  as_join :: joinability
  as_join_reason :: join_reason
  as_wire :: wire
  as_contended :: "descriptor list"
  as_basis :: basis

definition association_joinable :: "association \<Rightarrow> bool" where
  "association_joinable a \<longleftrightarrow> as_join a = Joins"

definition association_state_error :: "association \<Rightarrow> connection_error option" where
  "association_state_error a =
    (if as_direction a \<noteq> Sent \<and> as_direction a \<noteq> Received then Some AssocBadDirection
     else if as_state a = StateUnset then Some AssocNoState
     else if \<not> reason_holds (as_reason a) (as_state a) then Some AssocReasonOfAnother
     else if as_state a \<noteq> Established \<and> as_basis a \<noteq> BasisUnset then Some AssocBasisUnestablished
     else None)"

definition association_join_error :: "association \<Rightarrow> connection_error option" where
  "association_join_error a =
    (if as_join a = JoinabilityUnset then Some AssocJoinUnsaid
     else if as_join a = Joins \<and> as_join_reason a \<noteq> JoinReasonUnset then Some AssocJoinsWithReason
     else if as_join a = DoesNotJoin \<and> as_join_reason a = JoinReasonUnset then Some AssocJoinNoReason
     else if as_join a = Joins \<and> as_state a \<noteq> Established then Some AssocJoinsUnestablished
     else if as_join a = Joins \<and> \<not> endpoints_complete (as_endpoints a) then Some AssocJoinsIncomplete
     else if as_join a = DoesNotJoin \<and> as_join_reason a = NoBindingToJoin \<and> as_state a = Established
     then Some AssocNoBindingEstablished
     else None)"

definition association_binding_error :: "association \<Rightarrow> connection_error option" where
  "association_binding_error a =
    (if as_state a = Ambiguous \<and> length (as_contended a) < 2 then Some AssocAmbiguousFew
     else if as_state a \<noteq> Established then
       (if as_state a = UnknownState \<and> fd_known (as_descriptor a) then Some AssocUnknownNamesDescriptor
        else None)
     else if as_source a = SourceUnset then Some AssocNoSource
     else if \<not> fd_known (as_descriptor a) then Some AssocNoDescriptor
     else if \<not> generation_known (as_binding a) then Some AssocNoBinding
     else interval_validate (as_valid a))"

definition or_else :: "'e option \<Rightarrow> 'e option \<Rightarrow> 'e option" where
  "or_else a b = (case a of Some e \<Rightarrow> Some e | None \<Rightarrow> b)"

lemma or_else_None [simp]: "or_else a b = None \<longleftrightarrow> a = None \<and> b = None"
  by (cases a) (simp_all add: or_else_def)

definition association_validate :: "association \<Rightarrow> connection_error option" where
  "association_validate a =
    or_else (association_state_error a)
      (or_else (association_join_error a) (association_binding_error a))"

section \<open>Counts and placements\<close>

record count =
  ct_value :: int
  ct_known :: bool
  ct_why :: string

definition counted :: "int \<Rightarrow> count" where
  "counted v = \<lparr>ct_value = v, ct_known = True, ct_why = []\<rparr>"

definition uncounted :: "string \<Rightarrow> count" where
  "uncounted why = \<lparr>ct_value = 0, ct_known = False, ct_why = why\<rparr>"

definition itoa_int :: "int \<Rightarrow> string" where
  "itoa_int x = (if x < 0 then CHR ''-'' # itoa (nat (- x)) else itoa (nat x))"

definition count_string :: "count \<Rightarrow> string" where
  "count_string c =
    (if \<not> ct_known c then (if ct_why c = [] then ''not known'' else ''not known: '' @ ct_why c)
     else itoa_int (ct_value c))"

definition count_add :: "count \<Rightarrow> count \<Rightarrow> count" where
  "count_add c other =
    (if \<not> ct_known c then c
     else if \<not> ct_known other then other
     else counted (wrap64 (ct_value c + ct_value other)))"

datatype positions =
  PositionsUnset | PositionsEstablished | PositionsUnknownFrom | PositionsUnknownThroughout | PositionsOther nat

definition positions_string :: "positions \<Rightarrow> string" where
  "positions_string p =
    (case p of PositionsEstablished \<Rightarrow> ''established'' | PositionsUnknownFrom \<Rightarrow> ''unknown from an offset''
     | PositionsUnknownThroughout \<Rightarrow> ''unknown throughout'' | _ \<Rightarrow> ''unset'')"

record placement =
  pl_connection :: connection_id
  pl_direction :: direction
  pl_positions :: positions
  pl_from :: nat
  pl_because :: reason
  pl_lost :: count

definition placement_placeable :: "placement \<Rightarrow> nat \<Rightarrow> bool" where
  "placement_placeable p offset =
    (case pl_positions p of PositionsEstablished \<Rightarrow> True | PositionsUnknownFrom \<Rightarrow> offset < pl_from p
     | _ \<Rightarrow> False)"

definition placement_whole :: "placement \<Rightarrow> bool" where
  "placement_whole p \<longleftrightarrow> pl_positions p = PositionsEstablished"

definition placement_validate :: "placement \<Rightarrow> connection_error option" where
  "placement_validate p =
    (if pl_direction p \<noteq> Sent \<and> pl_direction p \<noteq> Received then Some PlaceBadDirection
     else if pl_positions p = PositionsUnset then Some PlaceUnsaid
     else if pl_positions p = PositionsEstablished \<and> pl_because p \<noteq> ReasonUnset then Some PlaceWholeWithReason
     else if pl_positions p \<noteq> PositionsEstablished \<and> pl_because p = ReasonUnset then Some PlaceNoReason
     else if pl_positions p \<noteq> PositionsUnknownFrom \<and> pl_from p \<noteq> 0 then Some PlaceNamesOffset
     else None)"

section \<open>Records\<close>

record early =
  ea_direction :: direction
  ea_offset :: nat
  ea_length :: nat

datatype ending =
  EndingUnset | StillOpen | HandleReleasedEnding | SocketClosed | EndingUnobserved | EndingUnestablished
  | EndingOther nat

definition ending_string :: "ending \<Rightarrow> string" where
  "ending_string e =
    (case e of
       StillOpen \<Rightarrow> ''still open when the run was sealed''
     | HandleReleasedEnding \<Rightarrow> ''the handle was released or recycled''
     | SocketClosed \<Rightarrow> ''the socket was closed''
     | EndingUnobserved \<Rightarrow> ''it ended and the end was not observed''
     | EndingUnestablished \<Rightarrow>
         ''no probe that could observe an ending was placed, so whether it ended is not established''
     | _ \<Rightarrow> ''nothing says how it ended'')"

record connection_record =
  cr_id :: connection_id
  cr_handle :: handle
  cr_instance :: instance_rec
  cr_process :: process
  cr_network :: netns
  cr_first_seen :: time
  cr_opened :: time
  cr_opened_known :: bool
  cr_ended :: time
  cr_how :: ending
  cr_associations :: "association list"
  cr_placements :: "placement list"
  cr_fragments :: count
  cr_early :: "early list"
  cr_early_unmeasured :: int
  cr_slot :: "nat option"
  cr_loss :: "nat option"

definition record_association :: "connection_record \<Rightarrow> direction \<Rightarrow> association option" where
  "record_association r d = find (\<lambda>a. as_direction a = d) (cr_associations r)"

definition record_placement :: "connection_record \<Rightarrow> direction \<Rightarrow> placement option" where
  "record_placement r d = find (\<lambda>p. pl_direction p = d) (cr_placements r)"

definition record_joinable :: "connection_record \<Rightarrow> direction \<Rightarrow> bool" where
  "record_joinable r d =
    (case record_association r d of None \<Rightarrow> False | Some a \<Rightarrow> association_joinable a)"

definition record_placeable :: "connection_record \<Rightarrow> direction \<Rightarrow> bool" where
  "record_placeable r d =
    (case record_placement r d of None \<Rightarrow> True | Some p \<Rightarrow> placement_whole p)"

fun validate_associations ::
    "connection_id \<Rightarrow> association list \<Rightarrow> direction list \<Rightarrow> connection_error option" where
  "validate_associations i [] seen = None"
| "validate_associations i (a # rest) seen =
    (if as_connection a \<noteq> i then Some RecordAssocOfAnother
     else if as_direction a \<in> set seen then Some RecordTwoAssociations
     else or_else (association_validate a) (validate_associations i rest (as_direction a # seen)))"

fun validate_placements ::
    "connection_id \<Rightarrow> placement list \<Rightarrow> direction list \<Rightarrow> connection_error option" where
  "validate_placements i [] placed = None"
| "validate_placements i (p # rest) placed =
    (if pl_connection p \<noteq> i then Some RecordPlaceOfAnother
     else if pl_direction p \<in> set placed then Some RecordTwoPlacements
     else or_else (placement_validate p) (validate_placements i rest (pl_direction p # placed)))"

definition connection_validate :: "connection_record \<Rightarrow> connection_error option" where
  "connection_validate r =
    (if cr_id r = 0 then Some RecordNoID
     else or_else (handle_validate (cr_handle r))
       (if cr_first_seen r = None then Some RecordNoFirstSeen
        else if cr_opened_known r \<and> cr_opened r = None then Some RecordNoOpened
        else if cr_how r = EndingUnset then Some RecordNoEnding
        else if cr_how r \<noteq> StillOpen \<and> cr_how r \<noteq> EndingUnobserved \<and> cr_how r \<noteq> EndingUnestablished
          \<and> cr_ended r = None then Some RecordNoEnd
        else or_else (validate_associations (cr_id r) (cr_associations r) [])
               (validate_placements (cr_id r) (cr_placements r) [])))"

section \<open>Agreement with evidence\<close>

definition agrees_in :: "connection_record \<Rightarrow> direction \<Rightarrow> direction_evidence \<Rightarrow> connection_error option" where
  "agrees_in r d held =
    (if \<not> de_cut held \<and> de_limit held = 0 then None
     else case record_placement r d of
       None \<Rightarrow> Some AgreesNoPlacement
     | Some p \<Rightarrow>
         if \<not> de_cut held then
           (if placement_whole p \<or> (pl_positions p = PositionsUnknownFrom \<and> de_limit held \<le> pl_from p)
            then None else Some AgreesBelowLimit)
         else if de_from held = 0 \<and> pl_positions p \<noteq> PositionsUnknownThroughout
              \<or> de_from held \<noteq> 0 \<and> (pl_positions p \<noteq> PositionsUnknownFrom \<or> pl_from p \<noteq> de_from held)
         then Some AgreesCutElsewhere
         else if de_lost_uncounted held \<and> ct_known (pl_lost p) then Some AgreesCountsUncounted
         else if ct_known (pl_lost p) \<and> ct_value (pl_lost p) < wrap64 (int (de_lost held))
         then Some AgreesCountsFewer
         else None)"

definition agrees :: "connection_record \<Rightarrow> evidence \<Rightarrow> connection_error option" where
  "agrees r e =
    (case evidence_validate e of
       Some err \<Rightarrow> Some (AgreesEvidence err)
     | None \<Rightarrow>
       (case ev_identity e of
          None \<Rightarrow> Some (AgreesEvidence NoIdentity)
        | Some i \<Rightarrow>
            if cr_id r \<noteq> id_connection i \<or> cr_process r \<noteq> id_process i then Some AgreesConnection
            else if cr_instance r \<noteq> id_instance i \<or> hd_instance (cr_handle r) \<noteq> instance_key (id_instance i)
            then Some AgreesExecution
            else if hd_address (cr_handle r) \<noteq> id_address i \<or> hd_generation (cr_handle r) \<noteq> id_generation i
            then Some AgreesHandle
            else if cr_network r \<noteq> \<lparr>net_device = id_network_device i, net_inode = id_network_inode i\<rparr>
            then Some AgreesNetwork
            else if cr_first_seen r \<noteq> id_first_seen i then Some AgreesFirstSeen
            else if cr_opened_known r = (id_opened i = None) \<or> cr_opened r \<noteq> id_opened i then Some AgreesOpened
            else if \<not> ct_known (cr_fragments r) \<or> ct_value (cr_fragments r) < 0
              \<or> nat (ct_value (cr_fragments r)) < ev_through e then Some AgreesFragments
            else or_else (agrees_in r Sent (evidence_of e Sent)) (agrees_in r Received (evidence_of e Received))))"

section \<open>What a valid record says\<close>

lemma find_direction: "find (\<lambda>x. f x = d) xs = Some x \<Longrightarrow> x \<in> set xs \<and> f x = d"
  by (auto simp: find_Some_iff)

lemma validate_associations_ok:
  assumes "validate_associations i as seen = None"
  shows "list_all (\<lambda>a. as_connection a = i \<and> association_validate a = None) as
    \<and> distinct (map as_direction as) \<and> set (map as_direction as) \<inter> set seen = {}"
  using assms by (induction i as seen rule: validate_associations.induct) (auto split: if_splits)

lemma validate_placements_ok:
  assumes "validate_placements i ps placed = None"
  shows "list_all (\<lambda>p. pl_connection p = i \<and> placement_validate p = None) ps
    \<and> distinct (map pl_direction ps) \<and> set (map pl_direction ps) \<inter> set placed = {}"
  using assms by (induction i ps placed rule: validate_placements.induct) (auto split: if_splits)

lemma connection_validate_ok:
  assumes "connection_validate r = None"
  shows "cr_id r \<noteq> 0" "handle_validate (cr_handle r) = None" "cr_first_seen r \<noteq> None"
    "cr_how r \<noteq> EndingUnset" "cr_opened_known r \<Longrightarrow> cr_opened r \<noteq> None"
    "validate_associations (cr_id r) (cr_associations r) [] = None"
    "validate_placements (cr_id r) (cr_placements r) [] = None"
  using assms by (auto simp: connection_validate_def split: if_splits)

lemma association_validate_joins:
  assumes "association_validate a = None" "association_joinable a"
  shows "as_state a = Established" "as_reason a = ReasonUnset" "endpoints_complete (as_endpoints a)"
    "fd_known (as_descriptor a)" "generation_known (as_binding a)" "as_source a \<noteq> SourceUnset"
    "interval_validate (as_valid a) = None"
  using assms
  by (auto simp: association_validate_def association_joinable_def association_state_error_def
      association_join_error_def association_binding_error_def reason_holds_def split: if_splits)

lemma only_filtered:
  assumes "distinct (map f xs)"
  shows "filter (\<lambda>x. f x = d) xs = (case find (\<lambda>x. f x = d) xs of None \<Rightarrow> [] | Some x \<Rightarrow> [x])"
  using assms by (induction xs) (auto simp: filter_empty_conv find_Some_iff image_iff split: option.splits)

text \<open>
  C26: What a valid record offers for a join is established.  Where a record validates, it has at most one
  association in each direction, joinable or not, every one of them is its own and the one the accessor finds,
  and a direction has an association exactly when the accessor finds one.  A direction it calls
  joinable is bound: an established binding on a named descriptor with a binding generation and an evidence
  source, both endpoints and their namespace known, and a validity interval whose start is known and
  whose end, where it is closed, is not before it.
\<close>

theorem joinable_is_established:
  assumes "connection_validate r = None"
  shows "length (filter (\<lambda>a. as_direction a = d) (cr_associations r)) \<le> 1
    \<and> filter (\<lambda>a. as_direction a = d) (cr_associations r) = (case record_association r d of None \<Rightarrow> [] | Some a \<Rightarrow> [a])
    \<and> list_all (\<lambda>a. as_connection a = cr_id r) (cr_associations r)
    \<and> (record_joinable r d \<longrightarrow> (\<exists>a. record_association r d = Some a \<and> as_direction a = d
        \<and> as_state a = Established \<and> endpoints_complete (as_endpoints a)
        \<and> fd_known (as_descriptor a) \<and> as_binding a \<noteq> 0 \<and> as_source a \<noteq> SourceUnset
        \<and> iv_from (as_valid a) \<noteq> None
        \<and> (\<not> iv_open (as_valid a) \<longrightarrow> iv_until (as_valid a) \<noteq> None
            \<and> instant (iv_from (as_valid a)) \<le> instant (iv_until (as_valid a)))))"
proof -
  note all = validate_associations_ok [OF connection_validate_ok(6) [OF assms]]
  have one: "filter (\<lambda>a. as_direction a = d) (cr_associations r) = (case record_association r d of None \<Rightarrow> [] | Some a \<Rightarrow> [a])"
    using only_filtered [of as_direction "cr_associations r" d] all by (simp add: record_association_def)
  have "as_direction a = d \<and> as_state a = Established \<and> endpoints_complete (as_endpoints a)
      \<and> fd_known (as_descriptor a) \<and> as_binding a \<noteq> 0 \<and> as_source a \<noteq> SourceUnset \<and> iv_from (as_valid a) \<noteq> None
      \<and> (\<not> iv_open (as_valid a) \<longrightarrow> iv_until (as_valid a) \<noteq> None
          \<and> instant (iv_from (as_valid a)) \<le> instant (iv_until (as_valid a)))"
    if a: "record_association r d = Some a" "association_joinable a" for a
  proof -
    have mem: "a \<in> set (cr_associations r)" "as_direction a = d"
      using find_direction a(1) by (fastforce simp: record_association_def)+
    with all have v: "association_validate a = None" by (auto simp: list_all_iff)
    from mem association_validate_joins [OF v a(2)] show ?thesis
      by (auto simp: generation_known_def interval_validate_def before_def split: if_splits)
  qed
  with one all show ?thesis
    by (auto simp: record_joinable_def list_all_iff split: option.splits)
qed

definition sample_association :: association where
  "sample_association = \<lparr>as_connection = 1, as_direction = Sent, as_state = Established,
     as_reason = ReasonUnset, as_binding = 4, as_source = SetterArgument, as_valid = since (Some 10),
     as_descriptor = held_descriptor 0, as_socket = named_socket 77,
     as_endpoints = \<lparr>end_local = at_address \<lparr>ip_text = ''10.0.0.2'', ip_zone = []\<rparr> 0,
       end_remote = at_address \<lparr>ip_text = ''10.0.0.3'', ip_zone = []\<rparr> 443,
       end_netns = \<lparr>net_device = 4, net_inode = 9\<rparr>\<rparr>,
     as_join = Joins, as_join_reason = JoinReasonUnset, as_wire = accepted 100, as_contended = [],
     as_basis = ConfirmedInCall\<rparr>"

definition sample_placement :: "positions \<Rightarrow> nat \<Rightarrow> reason \<Rightarrow> placement" where
  "sample_placement p offset why = \<lparr>pl_connection = 1, pl_direction = Sent, pl_positions = p, pl_from = offset,
     pl_because = why, pl_lost = counted 0\<rparr>"

definition sample_instance :: instance_rec where
  "sample_instance = \<lparr>in_namespace = \<lparr>ns_device = 4, ns_inode = 5\<rparr>, in_pid = 7,
     in_start = \<lparr>st_ticks = 1, st_determined = True\<rparr>, in_generation = 2, in_executable = ''server''\<rparr>"

definition sample_connection :: "placement list \<Rightarrow> connection_record" where
  "sample_connection ps = \<lparr>cr_id = 1,
     cr_handle = \<lparr>hd_instance = instance_key sample_instance, hd_address = 4096, hd_generation = 3\<rparr>,
     cr_instance = sample_instance, cr_process = Process 7 100,
     cr_network = \<lparr>net_device = 4, net_inode = 9\<rparr>, cr_first_seen = Some 10, cr_opened = None,
     cr_opened_known = False, cr_ended = Some 50, cr_how = SocketClosed,
     cr_associations = [sample_association], cr_placements = ps, cr_fragments = counted 3,
     cr_early = [], cr_early_unmeasured = 0, cr_slot = None, cr_loss = None\<rparr>"

lemmas connection_evals = sample_association_def sample_placement_def sample_instance_def
  sample_connection_def connection_validate_def handle_validate_def association_validate_def
  association_state_error_def association_join_error_def association_binding_error_def
  interval_validate_def placement_validate_def reason_holds_def endpoints_complete_def
  generation_known_def netns_known_def namespace_known_def since_def held_descriptor_def
  at_address_def instance_key_def or_else_def record_joinable_def record_association_def
  record_placement_def association_joinable_def before_def

theorem joinable_is_established_witness:
  "filter (\<lambda>a. as_direction a = Received) (cr_associations (sample_connection [])) = []
    \<and> (\<exists>a. record_association (sample_connection []) Sent = Some a \<and> as_state a = Established \<and> as_binding a \<noteq> 0)"
proof -
  have valid: "connection_validate (sample_connection []) = None" by (simp add: connection_evals)
  have join: "record_joinable (sample_connection []) Sent" by (simp add: connection_evals)
  have none: "record_association (sample_connection []) Received = None" by (simp add: connection_evals)
  from joinable_is_established [OF valid, of Received] joinable_is_established [OF valid, of Sent] join none
  show ?thesis by auto
qed

lemma agrees_in_placeable:
  assumes "agrees_in r d held = None" "offset < direction_established held"
  shows "\<exists>p. record_placement r d = Some p \<and> placement_placeable p offset"
  using assms
  by (auto simp: agrees_in_def direction_established_def placement_placeable_def placement_whole_def
      split: option.splits if_splits positions.splits)

lemma agrees_in_cut:
  assumes "agrees_in r d held = None" "de_cut held" "de_from held \<le> offset"
  shows "\<exists>p. record_placement r d = Some p \<and> \<not> placement_placeable p offset"
  using assms
  by (auto simp: agrees_in_def placement_placeable_def split: option.splits if_splits positions.splits)

lemma agrees_ok:
  assumes "agrees r e = None" "d = Sent \<or> d = Received"
  shows "agrees_in r d (evidence_of e d) = None" "ct_known (cr_fragments r)"
    "int (ev_through e) \<le> ct_value (cr_fragments r)"
  using assms by (auto simp: agrees_def split: option.splits if_splits)

text \<open>
  C27: A record that agrees with an evidence its consumer held takes nothing back.  Every offset the
  evidence established is placeable in the record; where the evidence cut a direction the
  record places nothing from that cut on; and the record counts at least the fragments the
  evidence describes.
\<close>

theorem agreement_keeps_what_was_established:
  assumes "agrees r e = None" "d = Sent \<or> d = Received"
  shows "(\<forall>offset < evidence_established e d.
        \<exists>p. record_placement r d = Some p \<and> placement_placeable p offset)
    \<and> (de_cut (evidence_of e d) \<longrightarrow> (\<forall>offset \<ge> de_from (evidence_of e d).
        \<exists>p. record_placement r d = Some p \<and> \<not> placement_placeable p offset))
    \<and> int (ev_through e) \<le> ct_value (cr_fragments r)"
  using agrees_in_placeable [OF agrees_ok(1) [OF assms]] agrees_in_cut [OF agrees_ok(1) [OF assms]]
    agrees_ok(3) [OF assms]
  by (auto simp: evidence_established_def split: if_splits)

definition sample_evidence :: evidence where
  "sample_evidence = no_evidence\<lparr>
     ev_identity := Some \<lparr>id_connection = 1, id_process = Process 7 100, id_instance = sample_instance,
       id_address = 4096, id_generation = 3, id_network_device = 4, id_network_inode = 9,
       id_first_seen = Some 10, id_opened = None\<rparr>,
     ev_occupancy := 1, ev_origin := OriginBirth, ev_through := 2,
     ev_sent := no_direction_evidence\<lparr>de_limit := 20, de_first := 1, de_numbered := 2, de_resolved := 2\<rparr>\<rparr>"

lemma sample_agrees:
  "agrees (sample_connection [sample_placement PositionsUnknownFrom 25 ObservationLost]) sample_evidence = None"
  by (simp add: agrees_def connection_evals sample_evidence_def no_evidence_def no_direction_evidence_def
      evidence_validate_def evidence_taken_def origin_known_def validate_direction_of_def
      direction_validate_def evidence_of_def Let_def counted_def agrees_in_def placement_whole_def)

theorem agreement_keeps_what_was_established_witness:
  "\<exists>p. record_placement (sample_connection [sample_placement PositionsUnknownFrom 25 ObservationLost]) Sent = Some p
    \<and> placement_placeable p 19"
  using agreement_keeps_what_was_established [OF sample_agrees, of Sent]
  by (simp add: sample_evidence_def evidence_established_def evidence_taken_def evidence_of_def
      direction_established_def no_direction_evidence_def)

end
