(* ===== verification/Connection_Seal.thy ===== *)
theory Connection_Seal
  imports Connection
begin

text \<open>
  The account a run closes with (\<open>connection/account.go\<close>, \<open>connection/seal.go\<close>): the
  counters of every stage, the conservation identities over them, and the finalisation
  boundary that stops production, drains, reads the counters and seals, in that order.

  The producer is an interface: a record of its three calls over a state of its own.  An
  error is its text.  A clock reading is an argument of the call that takes it.
\<close>

section \<open>Counters\<close>

record counters =
  n_ordered :: count
  n_reservation_attempts :: count
  n_reservations :: count
  n_reservation_failures :: count
  n_submitted :: count
  n_delivered :: count
  n_undecodable :: count
  n_lost_after_submission :: count
  n_outstanding :: count
  n_still_executing :: count
  n_unmatched_returns :: count
  n_unmeasurable_calls :: count
  n_sockets_unrecorded :: count
  n_bindings_unrecorded :: count
  n_denials_unrecorded :: count
  n_deferred_discarded :: count
  n_refused_in_flight :: count
  n_transfers :: count
  n_unmeasured :: count
  n_empty_transfers :: count
  n_fragments :: count
  n_fragments_refused :: count
  n_persisted :: count
  n_persisted_dropped :: count
  n_persisted_refused :: count
  n_discards :: count
  n_unplaced_bytes :: count

definition no_counters :: counters where
  "no_counters = \<lparr>n_ordered = uncounted [],
     n_reservation_attempts = uncounted [],
     n_reservations = uncounted [],
     n_reservation_failures = uncounted [],
     n_submitted = uncounted [],
     n_delivered = uncounted [],
     n_undecodable = uncounted [],
     n_lost_after_submission = uncounted [],
     n_outstanding = uncounted [],
     n_still_executing = uncounted [],
     n_unmatched_returns = uncounted [],
     n_unmeasurable_calls = uncounted [],
     n_sockets_unrecorded = uncounted [],
     n_bindings_unrecorded = uncounted [],
     n_denials_unrecorded = uncounted [],
     n_deferred_discarded = uncounted [],
     n_refused_in_flight = uncounted [],
     n_transfers = uncounted [],
     n_unmeasured = uncounted [],
     n_empty_transfers = uncounted [],
     n_fragments = uncounted [],
     n_fragments_refused = uncounted [],
     n_persisted = uncounted [],
     n_persisted_dropped = uncounted [],
     n_persisted_refused = uncounted [],
     n_discards = uncounted [],
     n_unplaced_bytes = uncounted []\<rparr>"

definition take_stage :: "count \<Rightarrow> count \<Rightarrow> count" where
  "take_stage held offered = (if ct_known held then held else offered)"

definition join_counters :: "counters \<Rightarrow> counters \<Rightarrow> counters" where
  "join_counters c other = \<lparr>n_ordered = take_stage (n_ordered c) (n_ordered other),
     n_reservation_attempts = take_stage (n_reservation_attempts c) (n_reservation_attempts other),
     n_reservations = take_stage (n_reservations c) (n_reservations other),
     n_reservation_failures = take_stage (n_reservation_failures c) (n_reservation_failures other),
     n_submitted = take_stage (n_submitted c) (n_submitted other),
     n_delivered = take_stage (n_delivered c) (n_delivered other),
     n_undecodable = take_stage (n_undecodable c) (n_undecodable other),
     n_lost_after_submission = take_stage (n_lost_after_submission c) (n_lost_after_submission other),
     n_outstanding = take_stage (n_outstanding c) (n_outstanding other),
     n_still_executing = take_stage (n_still_executing c) (n_still_executing other),
     n_unmatched_returns = take_stage (n_unmatched_returns c) (n_unmatched_returns other),
     n_unmeasurable_calls = take_stage (n_unmeasurable_calls c) (n_unmeasurable_calls other),
     n_sockets_unrecorded = take_stage (n_sockets_unrecorded c) (n_sockets_unrecorded other),
     n_bindings_unrecorded = take_stage (n_bindings_unrecorded c) (n_bindings_unrecorded other),
     n_denials_unrecorded = take_stage (n_denials_unrecorded c) (n_denials_unrecorded other),
     n_deferred_discarded = take_stage (n_deferred_discarded c) (n_deferred_discarded other),
     n_refused_in_flight = take_stage (n_refused_in_flight c) (n_refused_in_flight other),
     n_transfers = take_stage (n_transfers c) (n_transfers other),
     n_unmeasured = take_stage (n_unmeasured c) (n_unmeasured other),
     n_empty_transfers = take_stage (n_empty_transfers c) (n_empty_transfers other),
     n_fragments = take_stage (n_fragments c) (n_fragments other),
     n_fragments_refused = take_stage (n_fragments_refused c) (n_fragments_refused other),
     n_persisted = take_stage (n_persisted c) (n_persisted other),
     n_persisted_dropped = take_stage (n_persisted_dropped c) (n_persisted_dropped other),
     n_persisted_refused = take_stage (n_persisted_refused c) (n_persisted_refused other),
     n_discards = take_stage (n_discards c) (n_discards other),
     n_unplaced_bytes = take_stage (n_unplaced_bytes c) (n_unplaced_bytes other)\<rparr>"

record identity_result =
  idr_name :: string
  idr_left :: count
  idr_right :: count
  idr_evaluated :: bool
  idr_holds :: bool

fun sum_counts :: "count \<Rightarrow> count list \<Rightarrow> count" where
  "sum_counts sofar [] = sofar"
| "sum_counts sofar (one # rest) = sum_counts (count_add sofar one) rest"

definition conservation :: "string \<Rightarrow> count \<Rightarrow> count list \<Rightarrow> identity_result" where
  "conservation name left right =
    (let sofar = sum_counts (counted 0) right;
         one = \<lparr>idr_name = name, idr_left = left, idr_right = sofar, idr_evaluated = False, idr_holds = False\<rparr>
     in if \<not> ct_known left \<or> \<not> ct_known sofar then one
        else one\<lparr>idr_evaluated := True, idr_holds := (ct_value left = ct_value sofar)\<rparr>)"

definition identity_string :: "identity_result \<Rightarrow> string" where
  "identity_string i =
    (if \<not> idr_evaluated i then
       idr_name i @ '': could not be evaluated ('' @ count_string (idr_left i) @ '' against ''
         @ count_string (idr_right i) @ '')''
     else if idr_holds i then idr_name i @ '': holds at '' @ count_string (idr_left i)
     else idr_name i @ '': FAILS, '' @ count_string (idr_left i) @ '' against '' @ count_string (idr_right i))"

definition reserved_not_submitted :: "counters \<Rightarrow> count" where
  "reserved_not_submitted c = counted 0"

definition identities :: "counters \<Rightarrow> identity_result list" where
  "identities c =
    [conservation ''every place in the production order is a reservation attempt or a refusal at the read boundary''
       (n_ordered c) [n_reservation_attempts c, n_refused_in_flight c],
     conservation ''reservation attempts are granted or refused''
       (n_reservation_attempts c) [n_reservations c, n_reservation_failures c],
     conservation ''every granted reservation is submitted or abandoned''
       (n_reservations c) [n_submitted c, reserved_not_submitted c],
     conservation ''every submitted event is delivered, undecodable, lost or outstanding''
       (n_submitted c) [n_delivered c, n_undecodable c, n_lost_after_submission c, n_outstanding c],
     conservation ''every transfer is placed, empty, unmeasured or refused''
       (n_transfers c) [n_fragments c, n_empty_transfers c, n_unmeasured c, n_fragments_refused c],
     conservation ''every fragment offered to storage reaches it, its bound or its refusal''
       (count_add (n_fragments c) (n_fragments_refused c))
       [n_persisted c, n_persisted_dropped c, n_persisted_refused c]]"

fun all_recorded :: "count list \<Rightarrow> bool \<times> bool" where
  "all_recorded [] = (True, True)"
| "all_recorded (one # rest) =
    (if \<not> ct_known one then (False, False)
     else if ct_value one \<noteq> 0 then (False, True)
     else all_recorded rest)"

definition counters_complete :: "counters \<Rightarrow> bool \<times> bool" where
  "counters_complete c = all_recorded [n_sockets_unrecorded c, n_bindings_unrecorded c, n_denials_unrecorded c]"

fun balance :: "identity_result list \<Rightarrow> bool \<Rightarrow> bool \<Rightarrow> bool \<times> bool" where
  "balance [] holds complete = (holds, complete)"
| "balance (one # rest) holds complete =
    (if \<not> idr_evaluated one then balance rest holds False
     else if \<not> idr_holds one then balance rest False complete
     else balance rest holds complete)"

definition balanced :: "counters \<Rightarrow> bool \<times> bool" where
  "balanced c = balance (identities c) True True"

fun join_lines :: "string list \<Rightarrow> string" where
  "join_lines [] = []"
| "join_lines [one] = one"
| "join_lines (one # rest) = one @ CHR 0x0A # join_lines rest"

definition counters_report :: "counters \<Rightarrow> string" where
  "counters_report c = join_lines (map identity_string (identities c))"

section \<open>The finalisation boundary\<close>

record withdrawal =
  wd_at :: time
  wd_instances :: int
  wd_complete :: bool
  wd_because :: string

record drained =
  dr_delivered :: count
  dr_outstanding :: count
  dr_complete :: bool
  dr_because :: string

record 'p producer =
  StopProducing :: "'p \<Rightarrow> withdrawal \<times> string option \<times> 'p"
  Drain :: "int \<Rightarrow> 'p \<Rightarrow> drained \<times> string option \<times> 'p"
  Account :: "'p \<Rightarrow> counters \<times> string option \<times> 'p"

record seal =
  sl_stopped :: time
  sl_sealed :: time
  sl_withdrawal :: withdrawal
  sl_drain :: drained
  sl_counters :: counters
  sl_interrupted :: count
  sl_complete :: bool
  sl_because :: "string list"

definition accounted :: "seal \<Rightarrow> bool \<times> bool" where
  "accounted s = balanced (sl_counters s)"

definition sound :: "seal \<Rightarrow> bool" where
  "sound s = (let (holds, evaluated) = accounted s in sl_complete s \<and> holds \<and> evaluated)"

datatype seal_error = ErrSealed | NoProducer | NoDrainTime

text \<open>
  \<open>strings.TrimSpace\<close> leaves nothing exactly when the text is a sequence of encoded white
  space: six ASCII bytes, and the code points of Unicode's property.
\<close>

definition is_space :: "byte \<Rightarrow> bool" where
  "is_space c \<longleftrightarrow> c \<in> {CHR 0x20, CHR 0x09, CHR 0x0A, CHR 0x0B, CHR 0x0C, CHR 0x0D}"

definition is_space3 :: "byte \<Rightarrow> byte \<Rightarrow> byte \<Rightarrow> bool" where
  "is_space3 a b c \<longleftrightarrow>
     (a, b, c) \<in> {(CHR 0xE1, CHR 0x9A, CHR 0x80), (CHR 0xE2, CHR 0x80, CHR 0xA8),
       (CHR 0xE2, CHR 0x80, CHR 0xA9), (CHR 0xE2, CHR 0x80, CHR 0xAF), (CHR 0xE2, CHR 0x81, CHR 0x9F),
       (CHR 0xE3, CHR 0x80, CHR 0x80)}
     \<or> a = CHR 0xE2 \<and> b = CHR 0x80 \<and> 128 \<le> (of_char c :: nat) \<and> (of_char c :: nat) \<le> 138"

fun blank :: "string \<Rightarrow> bool" where
  "blank [] = True"
| "blank [a] = is_space a"
| "blank [a, b] = (is_space a \<and> blank [b] \<or> a = CHR 0xC2 \<and> b \<in> {CHR 0x85, CHR 0xA0})"
| "blank (a # b # c # rest) =
    (if is_space a then blank (b # c # rest)
     else if a = CHR 0xC2 \<and> b \<in> {CHR 0x85, CHR 0xA0} then blank (c # rest)
     else is_space3 a b c \<and> blank rest)"

definition reason_text :: "string \<Rightarrow> string" where
  "reason_text why = (if blank why then ''no reason was given'' else why)"

definition stop_withdrawal :: "withdrawal \<Rightarrow> string option \<Rightarrow> time \<Rightarrow> withdrawal" where
  "stop_withdrawal w err now =
    (let w1 = (case err of None \<Rightarrow> w | Some e \<Rightarrow> w\<lparr>wd_complete := False, wd_because := e\<rparr>)
     in if wd_at w1 = None then w1\<lparr>wd_at := now\<rparr> else w1)"

definition stop_drained :: "drained \<Rightarrow> string option \<Rightarrow> drained" where
  "stop_drained d err =
    (let d1 = (case err of None \<Rightarrow> d | Some e \<Rightarrow> d\<lparr>dr_complete := False, dr_because := e\<rparr>);
         d2 = (if \<not> ct_known (dr_delivered d1) \<and> ct_why (dr_delivered d1) = []
               then d1\<lparr>dr_delivered := uncounted ''the drain did not say what it delivered''\<rparr> else d1)
     in if \<not> ct_known (dr_outstanding d2) \<and> ct_why (dr_outstanding d2) = []
        then d2\<lparr>dr_outstanding := uncounted ''the drain did not say what was left outstanding''\<rparr> else d2)"

definition why_stopped :: "withdrawal \<Rightarrow> string list" where
  "why_stopped w =
    (if wd_complete w then []
     else [''capture authority was not withdrawn, so the run was still producing when it was sealed: ''
             @ reason_text (wd_because w)])"

definition why_drained :: "drained \<Rightarrow> string list" where
  "why_drained d =
    (if dr_complete d then []
     else [''what was in flight was not drained, so the streams it belonged to are short by an unknown amount: ''
             @ reason_text (dr_because d)])"

definition why_accounted :: "string option \<Rightarrow> string list" where
  "why_accounted err =
    (case err of None \<Rightarrow> [] | Some e \<Rightarrow> [''the final counters could not be read: '' @ e])"

record sealer =
  within :: int
  sealed :: bool

text \<open>
  \<open>Stop\<close> on a sealer whose producer may be nil (\<open>None\<close>); \<open>now1\<close> and \<open>now2\<close> are what the
  clock says when the withdrawal gives no time and when accounting closes.
\<close>

definition stop :: "sealer \<Rightarrow> 'p producer option \<Rightarrow> 'p \<Rightarrow> time \<Rightarrow> time \<Rightarrow> (seal_error + seal) \<times> sealer \<times> 'p" where
  "stop s P p now1 now2 =
    (if sealed s then (Inl ErrSealed, s, p)
     else case P of
       None \<Rightarrow> (Inl NoProducer, s, p)
     | Some P \<Rightarrow>
         if within s \<le> 0 then (Inl NoDrainTime, s, p)
         else
           let (w0, werr, p1) = StopProducing P p;
               w = stop_withdrawal w0 werr now1;
               (d0, derr, p2) = Drain P (within s) p1;
               d = stop_drained d0 derr;
               (c0, cerr, p3) = Account P p2;
               c = c0\<lparr>n_outstanding := dr_outstanding d\<rparr>
           in (Inr \<lparr>sl_stopped = wd_at w, sl_sealed = now2, sl_withdrawal = w, sl_drain = d, sl_counters = c,
                 sl_interrupted = n_refused_in_flight c,
                 sl_complete = (wd_complete w \<and> dr_complete d \<and> cerr = None),
                 sl_because = why_stopped w @ why_drained d @ why_accounted cerr\<rparr>,
               s\<lparr>sealed := True\<rparr>, p3))"

section \<open>What the account shows\<close>

lemma sum_counts_known:
  "ct_known (sum_counts sofar cs) \<longleftrightarrow> ct_known sofar \<and> list_all ct_known cs"
  by (induction sofar cs rule: sum_counts.induct) (auto simp: count_add_def counted_def)

lemma sum_counts_value:
  "ct_known sofar \<Longrightarrow> list_all ct_known cs \<Longrightarrow>
    wrap64 (ct_value (sum_counts sofar cs)) = wrap64 (ct_value sofar + sum_list (map ct_value cs))"
proof (induction sofar cs rule: sum_counts.induct)
  case (2 sofar one rest)
  then show ?case
    by (simp add: count_add_def counted_def add.assoc)
qed simp

text \<open>A count as Go can hold it: its value is an \<open>int64\<close>.\<close>

definition count_typed :: "count \<Rightarrow> bool" where
  "count_typed c \<longleftrightarrow> fits64 (ct_value c)"

lemma count_add_typed: "count_typed a \<Longrightarrow> count_typed b \<Longrightarrow> count_typed (count_add a b)"
  by (simp add: count_add_def count_typed_def counted_def)

lemma count_add_known: "ct_known (count_add a b) \<longleftrightarrow> ct_known a \<and> ct_known b"
  by (simp add: count_add_def counted_def)

lemma sum_counts_typed: "count_typed sofar \<Longrightarrow> list_all count_typed cs \<Longrightarrow> count_typed (sum_counts sofar cs)"
  by (induction sofar cs rule: sum_counts.induct) (simp_all add: count_add_typed)

lemma identity_ok:
  "idr_evaluated (conservation name left right) \<longleftrightarrow> ct_known left \<and> list_all ct_known right"
  "idr_holds (conservation name left right) \<longleftrightarrow> ct_known left \<and> list_all ct_known right
     \<and> ct_value left = ct_value (sum_counts (counted 0) right)"
  by (auto simp: conservation_def Let_def sum_counts_known counted_def)

lemma identity_value:
  assumes "idr_holds (conservation name left right)"
  shows "wrap64 (ct_value left) = wrap64 (sum_list (map ct_value right))"
  using assms sum_counts_value [of "counted 0" right] by (simp add: identity_ok counted_def)

lemma balance_iff:
  "balance is holds complete =
    (holds \<and> list_all (\<lambda>i. idr_evaluated i \<longrightarrow> idr_holds i) is, complete \<and> list_all idr_evaluated is)"
  by (induction "is" holds complete rule: balance.induct) auto

lemma balanced_iff: "balanced c = (True, True) \<longleftrightarrow> list_all idr_holds (identities c)"
proof -
  have "idr_holds i \<Longrightarrow> idr_evaluated i" if "i \<in> set (identities c)" for i
    using that by (auto simp: identities_def identity_ok)
  then show ?thesis
    by (auto simp: balanced_def balance_iff list_all_iff)
qed

lemma sound_identities: "sound s \<Longrightarrow> list_all idr_holds (identities (sl_counters s))"
  by (simp add: sound_def accounted_def balanced_iff [symmetric] split_beta prod_eq_iff Let_def)

text \<open>
  C28: A sound seal accounts for everything the identities count.  Each of the eighteen counters an identity
  uses was read (of the nine others none need be); every place in the production order is a refusal at the read boundary, a failed reservation, or an event that was
  delivered, undecodable, lost after submission or outstanding; and every transfer reached
  storage, its bound or its refusal, or was empty or unmeasured (as \<open>int64\<close> sums).
\<close>

theorem sound_seal_conserves:
  assumes "sound s"
  defines "c \<equiv> sl_counters s"
  shows "wrap64 (ct_value (n_ordered c)) =
      wrap64 (ct_value (n_refused_in_flight c) + ct_value (n_reservation_failures c)
        + ct_value (n_delivered c) + ct_value (n_undecodable c)
        + ct_value (n_lost_after_submission c) + ct_value (n_outstanding c))
    \<and> wrap64 (ct_value (n_transfers c)) =
      wrap64 (ct_value (n_persisted c) + ct_value (n_persisted_dropped c) + ct_value (n_persisted_refused c)
        + ct_value (n_empty_transfers c) + ct_value (n_unmeasured c))
    \<and> list_all ct_known [n_ordered c, n_reservation_attempts c, n_refused_in_flight c, n_reservations c,
        n_reservation_failures c, n_submitted c, n_delivered c, n_undecodable c, n_lost_after_submission c,
        n_outstanding c, n_transfers c, n_fragments c, n_empty_transfers c, n_unmeasured c,
        n_fragments_refused c, n_persisted c, n_persisted_dropped c, n_persisted_refused c]
    \<and> sl_complete s"
proof -
  note all = sound_identities [OF assms(1), folded c_def]
  let ?v = ct_value
  have known: "list_all ct_known [n_ordered c, n_reservation_attempts c, n_refused_in_flight c,
      n_reservations c, n_reservation_failures c, n_submitted c, n_delivered c, n_undecodable c,
      n_lost_after_submission c, n_outstanding c, n_transfers c, n_fragments c, n_empty_transfers c,
      n_unmeasured c, n_fragments_refused c, n_persisted c, n_persisted_dropped c, n_persisted_refused c]"
    using all by (simp add: identities_def identity_ok count_add_known)
  have sums:
    "wrap64 (?v (n_ordered c)) = wrap64 (?v (n_reservation_attempts c) + ?v (n_refused_in_flight c))"
    "wrap64 (?v (n_reservation_attempts c)) = wrap64 (?v (n_reservations c) + ?v (n_reservation_failures c))"
    "wrap64 (?v (n_reservations c)) = wrap64 (?v (n_submitted c))"
    "wrap64 (?v (n_submitted c)) = wrap64 (?v (n_delivered c) + ?v (n_undecodable c)
       + ?v (n_lost_after_submission c) + ?v (n_outstanding c))"
    "wrap64 (?v (n_transfers c)) = wrap64 (?v (n_fragments c) + ?v (n_empty_transfers c)
       + ?v (n_unmeasured c) + ?v (n_fragments_refused c))"
    "wrap64 (?v (n_fragments c) + ?v (n_fragments_refused c)) =
       wrap64 (?v (n_persisted c) + ?v (n_persisted_dropped c) + ?v (n_persisted_refused c))"
    using all known
    by (auto simp: identities_def reserved_not_submitted_def counted_def count_add_def add.assoc
        dest!: identity_value)
  have step: "wrap64 (a + b) = wrap64 (x + b)" if "wrap64 a = wrap64 x" for a b x
    using that wrap64_wrap_add(1) [of a b] wrap64_wrap_add(1) [of x b] by simp
  have "wrap64 (?v (n_ordered c)) =
      wrap64 ((?v (n_delivered c) + ?v (n_undecodable c) + ?v (n_lost_after_submission c)
        + ?v (n_outstanding c)) + (?v (n_reservation_failures c) + ?v (n_refused_in_flight c)))"
    using sums(1) step [OF sums(2), of "?v (n_refused_in_flight c)"]
      step [OF sums(3), of "?v (n_reservation_failures c) + ?v (n_refused_in_flight c)"]
      step [OF sums(4), of "?v (n_reservation_failures c) + ?v (n_refused_in_flight c)"]
    by (simp add: add.assoc)
  moreover have "wrap64 (?v (n_transfers c)) =
      wrap64 ((?v (n_persisted c) + ?v (n_persisted_dropped c) + ?v (n_persisted_refused c))
        + (?v (n_empty_transfers c) + ?v (n_unmeasured c)))"
    using sums(5) step [OF sums(6), of "?v (n_empty_transfers c) + ?v (n_unmeasured c)"]
    by (simp add: algebra_simps)
  moreover have "sl_complete s"
    using assms(1) by (simp add: sound_def split_beta Let_def)
  ultimately show ?thesis
    using known by (simp add: algebra_simps)
qed

definition sample_counters :: counters where
  "sample_counters = no_counters\<lparr>n_ordered := counted 5, n_reservation_attempts := counted 4,
     n_refused_in_flight := counted 1, n_reservations := counted 3, n_reservation_failures := counted 1,
     n_submitted := counted 3, n_delivered := counted 2, n_undecodable := counted 0,
     n_lost_after_submission := counted 0, n_outstanding := counted 1, n_transfers := counted 2,
     n_fragments := counted 1, n_empty_transfers := counted 1, n_unmeasured := counted 0,
     n_fragments_refused := counted 0, n_persisted := counted 1, n_persisted_dropped := counted 0,
     n_persisted_refused := counted 0\<rparr>"

definition sample_seal :: seal where
  "sample_seal = \<lparr>sl_stopped = Some 8, sl_sealed = Some 9,
     sl_withdrawal = \<lparr>wd_at = Some 8, wd_instances = 1, wd_complete = True, wd_because = []\<rparr>,
     sl_drain = \<lparr>dr_delivered = counted 2, dr_outstanding = counted 1, dr_complete = True, dr_because = []\<rparr>,
     sl_counters = sample_counters, sl_interrupted = counted 1, sl_complete = True, sl_because = []\<rparr>"

lemma sample_seal_sound: "sound sample_seal"
  by (simp add: sample_seal_def sample_counters_def no_counters_def sound_def accounted_def balanced_iff
      identities_def identity_ok counted_def count_add_def reserved_not_submitted_def wrap64_def
      Let_def split_beta balanced_def balance_iff)

theorem sound_seal_conserves_witness:
  "sound sample_seal \<and> sl_complete sample_seal
    \<and> list_all ct_known [n_ordered (sl_counters sample_seal), n_delivered (sl_counters sample_seal),
        n_persisted_refused (sl_counters sample_seal)]
    \<and> \<not> ct_known (n_still_executing (sl_counters sample_seal))
    \<and> wrap64 (ct_value (n_transfers (sl_counters sample_seal))) =
        wrap64 (ct_value (n_persisted (sl_counters sample_seal)) + ct_value (n_persisted_dropped (sl_counters sample_seal))
          + ct_value (n_persisted_refused (sl_counters sample_seal)) + ct_value (n_empty_transfers (sl_counters sample_seal))
          + ct_value (n_unmeasured (sl_counters sample_seal)))"
proof -
  have "\<not> ct_known (n_still_executing (sl_counters sample_seal))"
    by (simp add: sample_seal_def sample_counters_def no_counters_def uncounted_def)
  then show ?thesis using sound_seal_conserves [OF sample_seal_sound] sample_seal_sound by simp
qed

text \<open>
  A producer that notes each call made of it, and a sequence of \<open>Stop\<close> calls on one sealer, with
  the clock readings of each.
\<close>

datatype producer_call = CalledStopProducing | CalledDrain int | CalledAccount

definition noting :: "'p producer \<Rightarrow> ('p \<times> producer_call list) producer" where
  "noting P =
    \<lparr>StopProducing = (\<lambda>(p, calls). let (w, err, p) = StopProducing P p in (w, err, p, calls @ [CalledStopProducing])),
     Drain = (\<lambda>t (p, calls). let (d, err, p) = Drain P t p in (d, err, p, calls @ [CalledDrain t])),
     Account = (\<lambda>(p, calls). let (c, err, p) = Account P p in (c, err, p, calls @ [CalledAccount]))\<rparr>"

fun stop_calls :: "sealer \<Rightarrow> 'p producer option \<Rightarrow> 'p \<Rightarrow> (time \<times> time) list \<Rightarrow> (seal_error + seal) list \<times> sealer \<times> 'p" where
  "stop_calls s P p [] = ([], s, p)"
| "stop_calls s P p ((now1, now2) # rest) =
    (let (r, s, p) = stop s P p now1 now2; (rs, s, p) = stop_calls s P p rest in (r # rs, s, p))"

lemma stop_calls_sealed:
  "sealed s \<Longrightarrow> stop_calls s P p calls = (replicate (length calls) (Inl ErrSealed), s, p)"
  by (induction calls) (auto simp: stop_def)

text \<open>What a failed step says: its error, or else the reason the step itself gave.\<close>

definition failure_text :: "string option \<Rightarrow> string \<Rightarrow> string" where
  "failure_text err because = reason_text (case err of None \<Rightarrow> because | Some e \<Rightarrow> e)"

lemma stop_withdrawal_cleaned:
  "wd_complete (stop_withdrawal w err now1) \<longleftrightarrow> err = None \<and> wd_complete w"
  "wd_because (stop_withdrawal w err now1) = (case err of None \<Rightarrow> wd_because w | Some e \<Rightarrow> e)"
  "wd_at (stop_withdrawal w err now1) = (if wd_at w = None then now1 else wd_at w)"
  by (auto simp: stop_withdrawal_def Let_def split: option.splits)

lemma stop_drained_cleaned:
  "dr_complete (stop_drained d err) \<longleftrightarrow> err = None \<and> dr_complete d"
  "dr_because (stop_drained d err) = (case err of None \<Rightarrow> dr_because d | Some e \<Rightarrow> e)"
  "ct_known (dr_outstanding (stop_drained d err)) \<or> ct_why (dr_outstanding (stop_drained d err)) \<noteq> []"
  "ct_known (dr_outstanding d) \<or> ct_why (dr_outstanding d) \<noteq> [] \<Longrightarrow> dr_outstanding (stop_drained d err) = dr_outstanding d"
  by (auto simp: stop_drained_def Let_def uncounted_def split: option.splits)

text \<open>
  C29: The boundary runs once and in one order, however often \<open>Stop\<close> is called.  Over any sequence of \<open>Stop\<close> calls
  on a sealer with a producer and a drain time, the producer is called exactly three times: to withdraw, to
  drain for the stated time, and to read the counters, each on the state the last left.  The first
  call returns a seal whatever failed, with exactly one reason per failed step, in the order of the
  steps, each naming its step and what failed; it is complete exactly when there is none.  Its
  outstanding count is the drain's, known or with a reason.  Every later call fails with \<open>ErrSealed\<close> and
  touches nothing.
\<close>

theorem boundary_runs_once:
  assumes "\<not> sealed s" "0 < within s"
    and "StopProducing P p = (w, werr, p1)" "Drain P (within s) p1 = (d, derr, p2)"
    and "Account P p2 = (c, cerr, p3)"
  shows "\<exists>sl. stop_calls s (Some (noting P)) (p, []) ((now1, now2) # later) =
      (Inr sl # replicate (length later) (Inl ErrSealed), s\<lparr>sealed := True\<rparr>,
       p3, [CalledStopProducing, CalledDrain (within s), CalledAccount])
    \<and> sl_because sl =
        (if werr = None \<and> wd_complete w then []
         else [''capture authority was not withdrawn, so the run was still producing when it was sealed: ''
                 @ failure_text werr (wd_because w)])
      @ (if derr = None \<and> dr_complete d then []
         else [''what was in flight was not drained, so the streams it belonged to are short by an unknown amount: ''
                 @ failure_text derr (dr_because d)])
      @ (case cerr of None \<Rightarrow> [] | Some e \<Rightarrow> [''the final counters could not be read: '' @ e])
    \<and> (sl_complete sl \<longleftrightarrow> sl_because sl = [])
    \<and> sl_stopped sl = (if wd_at w = None then now1 else wd_at w) \<and> sl_sealed sl = now2
    \<and> sl_counters sl = c\<lparr>n_outstanding := dr_outstanding (sl_drain sl)\<rparr>
    \<and> sl_interrupted sl = n_refused_in_flight c
    \<and> (ct_known (dr_outstanding (sl_drain sl)) \<or> ct_why (dr_outstanding (sl_drain sl)) \<noteq> [])
    \<and> (ct_known (dr_outstanding d) \<longrightarrow> dr_outstanding (sl_drain sl) = dr_outstanding d)"
proof -
  let ?w = "stop_withdrawal w werr now1" and ?d = "stop_drained d derr"
  let ?c = "c\<lparr>n_outstanding := dr_outstanding ?d\<rparr>"
  let ?sl = "\<lparr>sl_stopped = wd_at ?w, sl_sealed = now2, sl_withdrawal = ?w, sl_drain = ?d, sl_counters = ?c,
     sl_interrupted = n_refused_in_flight ?c, sl_complete = (wd_complete ?w \<and> dr_complete ?d \<and> cerr = None),
     sl_because = why_stopped ?w @ why_drained ?d @ why_accounted cerr\<rparr>"
  note cleaned = stop_withdrawal_cleaned [of w werr now1] stop_drained_cleaned [of d derr]
  have "stop s (Some (noting P)) (p, []) now1 now2 =
      (Inr ?sl, s\<lparr>sealed := True\<rparr>, p3, [CalledStopProducing, CalledDrain (within s), CalledAccount])"
    using assms by (simp add: stop_def noting_def Let_def)
  then have "stop_calls s (Some (noting P)) (p, []) ((now1, now2) # later) =
      (Inr ?sl # replicate (length later) (Inl ErrSealed), s\<lparr>sealed := True\<rparr>,
       p3, [CalledStopProducing, CalledDrain (within s), CalledAccount])"
    by (simp add: stop_calls_sealed)
  then show ?thesis
    using cleaned(6,7) by (intro exI [of _ ?sl] conjI)
      (simp_all add: cleaned(1-5) why_stopped_def why_drained_def why_accounted_def failure_text_def split: option.splits)
qed

definition failing_producer :: "nat producer" where
  "failing_producer =
    \<lparr>StopProducing = (\<lambda>n. (\<lparr>wd_at = Some 7, wd_instances = 1, wd_complete = True, wd_because = []\<rparr>, Some ''a'', n + 1)),
     Drain = (\<lambda>_ n. (\<lparr>dr_delivered = counted 2, dr_outstanding = counted 1, dr_complete = False,
        dr_because = []\<rparr>, None, n + 1)),
     Account = (\<lambda>n. (sample_counters, None, n + 1))\<rparr>"

theorem boundary_runs_once_witness:
  "\<exists>sl. stop_calls \<lparr>within = 5, sealed = False\<rparr> (Some (noting failing_producer)) (0, []) [(Some 8, Some 9), (Some 10, Some 11)]
      = ([Inr sl, Inl ErrSealed], \<lparr>within = 5, sealed = True\<rparr>, 3, [CalledStopProducing, CalledDrain 5, CalledAccount])
    \<and> \<not> sl_complete sl \<and> sl_stopped sl = Some 7
    \<and> sl_because sl =
        [''capture authority was not withdrawn, so the run was still producing when it was sealed: a'',
         ''what was in flight was not drained, so the streams it belonged to are short by an unknown amount: no reason was given'']"
proof -
  let ?s = "\<lparr>within = 5, sealed = False\<rparr> :: sealer"
  have "reason_text ''a'' = ''a''" "reason_text [] = ''no reason was given''"
    by (simp_all add: reason_text_def is_space_def)
  moreover obtain w d where calls:
    "StopProducing failing_producer 0 = (w, Some ''a'', 1)" "wd_at w = Some 7"
    "Drain failing_producer (within ?s) 1 = (d, None, 2)" "\<not> dr_complete d" "dr_because d = []"
    "Account failing_producer 2 = (sample_counters, None, 3)"
    by (simp add: failing_producer_def)
  ultimately show ?thesis
    using boundary_runs_once [OF _ _ calls(1,3,6), of "Some 8" "Some 9" "[(Some 10, Some 11)]"] by (auto simp: failure_text_def)
qed

text \<open>
  Joining the accounts of several sources loses no stage and prefers the one that already held it:
  the sources may be joined in any grouping, and joining an account twice changes nothing.
\<close>

lemma join_counters_laws:
  "join_counters (join_counters a b) c = join_counters a (join_counters b c)"
  "join_counters (join_counters a b) b = join_counters a b"
proof -
  have t: "take_stage (take_stage x y) z = take_stage x (take_stage y z)"
    "take_stage x x = x" for x y z
    by (simp_all add: take_stage_def)
  show "join_counters (join_counters a b) c = join_counters a (join_counters b c)"
    "join_counters (join_counters a b) b = join_counters a b"
    by (simp_all add: join_counters_def t)
qed

end
