(* ===== verification/Held.thy ===== *)
theory Held
  imports Prelude "HOL-Library.AList"
begin

text \<open>
  Package \<open>held\<close>: what the observer holds at once.

  \<^item> \<open>churn.go\<close>: the deletion counter that decides when a long-lived map is copied.  A Go map
    is an association list with distinct keys, so \<open>len(m)\<close> computes; which physical slots a
    table keeps is the runtime's business and is not modelled.
  \<^item> \<open>loss.go\<close>: the control state shared by one occupancy's capture and retained input.  A
    \<open>*Loss\<close> is an optional reference into a table of reasons, \<open>None\<close> the nil pointer.
  \<^item> \<open>held.go\<close>: the paths a slot is returned along, and the \<open>Slot\<close> interface: a record of
    operations on the state of whatever issued the slots, with its contract as the locale
    \<open>slot_pool\<close>.
\<close>

section \<open>Signals\<close>

text \<open>
  A channel nothing is sent on: it is nil, open or closed, and closing it twice panics
  (\<open>None\<close>).
\<close>

datatype channel = NilChannel | OpenChannel | ClosedChannel

definition close_channel :: "channel \<Rightarrow> channel option" where
  "close_channel c = (if c = OpenChannel then Some ClosedChannel else None)"

section \<open>Churn\<close>

record churn =
  deleted :: nat
  rebuilds :: nat

type_synonym ('k, 'v) go_map = "('k \<times> 'v) list"

abbreviation go_map_wf :: "('k, 'v) go_map \<Rightarrow> bool" where
  "go_map_wf m \<equiv> distinct (map fst m)"

definition churn_floor :: nat where
  "churn_floor = 64"

definition note_deletion :: "churn \<Rightarrow> churn" where
  "note_deletion c = c\<lparr>deleted := deleted c + 1\<rparr>"

text \<open>The copy is the loop of the source: every entry is assigned into a fresh map.\<close>

fun copy_map :: "('k, 'v) go_map \<Rightarrow> ('k, 'v) go_map \<Rightarrow> ('k, 'v) go_map" where
  "copy_map [] fresh = fresh"
| "copy_map ((key, val) # rest) fresh = copy_map rest (AList.update key val fresh)"

definition shed :: "('k, 'v) go_map \<Rightarrow> churn \<Rightarrow> ('k, 'v) go_map \<times> churn" where
  "shed m c =
    (if deleted c \<le> churn_floor \<or> deleted c \<le> length m then (m, c)
     else (copy_map m [], c\<lparr>deleted := 0, rebuilds := rebuilds c + 1\<rparr>))"

definition delete_key :: "('k, 'v) go_map \<Rightarrow> 'k \<Rightarrow> churn \<Rightarrow> ('k, 'v) go_map \<times> churn" where
  "delete_key m key c =
    (if map_of m key = None then (m, c)
     else shed (AList.delete key m) (note_deletion c))"

lemma copy_map_of:
  "go_map_wf m \<Longrightarrow> map_of (copy_map m fresh) = map_of fresh ++ map_of m"
proof (induction m fresh rule: copy_map.induct)
  case (2 key val rest fresh)
  then have "map_of rest key = None"
    by (auto simp: map_of_eq_None_iff)
  with 2 show ?case
    by (auto simp: update_conv' fun_eq_iff map_add_def split: option.splits)
qed simp

lemma copy_map_wf: "go_map_wf fresh \<Longrightarrow> go_map_wf (copy_map m fresh)"
  by (induction m fresh rule: copy_map.induct) (auto simp: distinct_update)

lemma go_map_length: "go_map_wf m \<Longrightarrow> length m = card (dom (map_of m))"
  by (metis distinct_card dom_map_of_conv_image_fst length_map set_map)

lemma go_map_length_eq:
  "go_map_wf m \<Longrightarrow> go_map_wf m' \<Longrightarrow> map_of m = map_of m' \<Longrightarrow> length m = length m'"
  by (simp add: go_map_length)

lemma shed_contents:
  assumes "go_map_wf m" "shed m c = (m', c')"
  shows "map_of m' = map_of m \<and> go_map_wf m' \<and> length m' = length m"
proof -
  have "map_of (copy_map m []) = map_of m" "go_map_wf (copy_map m [])"
    using assms(1) by (simp_all add: copy_map_of copy_map_wf)
  with assms show ?thesis
    by (auto simp: shed_def go_map_length split: if_splits)
qed

lemma shed_bound: "shed m c = (m', c') \<Longrightarrow> deleted c' \<le> max churn_floor (length m)"
  by (auto simp: shed_def split: if_splits)

lemma delete_key_contents:
  assumes "go_map_wf m" "delete_key m key c = (m', c')"
  shows "map_of m' = (map_of m)(key := None) \<and> go_map_wf m'"
proof (cases "map_of m key")
  case None
  then have "(map_of m)(key := None) = map_of m"
    by (simp add: fun_eq_iff)
  with None assms show ?thesis
    by (simp add: delete_key_def)
next
  case (Some v)
  with assms have "shed (AList.delete key m) (note_deletion c) = (m', c')"
    by (simp add: delete_key_def)
  from shed_contents [OF _ this] assms(1) show ?thesis
    by (simp add: distinct_delete delete_conv')
qed

text \<open>A map that lives through assignments and deletions.\<close>

datatype ('k, 'v) map_call = MapSet 'k 'v | MapDelete 'k

fun map_calls :: "('k, 'v) map_call list \<Rightarrow> ('k, 'v) go_map \<times> churn \<Rightarrow> ('k, 'v) go_map \<times> churn" where
  "map_calls [] s = s"
| "map_calls (MapSet k v # calls) (m, c) = map_calls calls (AList.update k v m, c)"
| "map_calls (MapDelete k # calls) (m, c) = map_calls calls (delete_key m k c)"

fun plain_calls :: "('k, 'v) map_call list \<Rightarrow> ('k \<rightharpoonup> 'v) \<Rightarrow> ('k \<rightharpoonup> 'v)" where
  "plain_calls [] m = m"
| "plain_calls (MapSet k v # calls) m = plain_calls calls (m(k \<mapsto> v))"
| "plain_calls (MapDelete k # calls) m = plain_calls calls (m(k := None))"

lemma update_length: "go_map_wf m \<Longrightarrow> length m \<le> length (AList.update k v m)"
  by (simp add: go_map_length distinct_update update_conv' card_insert_le dom_map_of_conv_image_fst)

lemma delete_key_bound:
  assumes "go_map_wf m" "deleted c \<le> max churn_floor (length m)" "delete_key m k c = (m', c')"
  shows "deleted c' \<le> max churn_floor (length m')"
proof (cases "map_of m k")
  case None
  with assms show ?thesis
    by (simp add: delete_key_def)
next
  case (Some v)
  with assms have *: "shed (AList.delete k m) (note_deletion c) = (m', c')"
    by (simp add: delete_key_def)
  from shed_contents [OF distinct_delete [OF assms(1)] *]
  have "length m' = length (AList.delete k m)"
    by blast
  with shed_bound [OF *] show ?thesis
    by simp
qed

lemma map_calls_ok:
  assumes "go_map_wf m" "deleted c \<le> max churn_floor (length m)"
    and "map_calls calls (m, c) = (m', c')"
  shows "go_map_wf m' \<and> deleted c' \<le> max churn_floor (length m')
    \<and> map_of m' = plain_calls calls (map_of m)"
  using assms
proof (induction calls "(m, c)" arbitrary: m c rule: map_calls.induct)
  case (2 k v calls m c)
  from 2(2,3) have "deleted c \<le> max churn_floor (length (AList.update k v m))"
    using update_length [of m k v] by linarith
  with 2 show ?case
    by (simp add: distinct_update update_conv' del: max.bounded_iff)
next
  case (3 k calls m c)
  obtain m1 c1 where step: "delete_key m k c = (m1, c1)"
    by fastforce
  with 3 delete_key_contents [OF 3(2) step] delete_key_bound [OF 3(2,3) step] show ?case
    by simp
qed simp

text \<open>
  C23: A map whose deletions go through \<open>Deleted\<close> has, after any sequence of assignments and
  deletions, exactly the contents of a plain map under the same calls, copied or not; and the
  deletions noted since it was last copied never exceed both its live size and
  \<open>churnFloor\<close>.
\<close>

theorem churned_map_is_the_map:
  assumes "map_calls calls ([], \<lparr>deleted = 0, rebuilds = 0\<rparr>) = (m, c)"
  shows "map_of m = plain_calls calls Map.empty \<and> go_map_wf m
    \<and> deleted c \<le> max churn_floor (length m)"
  using map_calls_ok [of "[]" "\<lparr>deleted = 0, rebuilds = 0\<rparr>" calls m c] assms by simp

theorem churned_map_is_the_map_witness:
  "map_of [(2::nat, True)] = plain_calls [MapSet 1 False, MapSet 2 True, MapDelete 1, MapDelete 7] Map.empty
    \<and> go_map_wf [(2::nat, True)] \<and> (1::nat) \<le> max churn_floor 1"
  using churned_map_is_the_map
    [of "[MapSet (1::nat) False, MapSet 2 True, MapDelete 1, MapDelete 7]" "[(2, True)]"
        "\<lparr>deleted = 1, rebuilds = 0\<rparr>"]
  by (simp add: delete_key_def shed_def note_deletion_def churn_floor_def)

section \<open>Loss\<close>

type_synonym loss_ref = "nat option"
type_synonym losses = "nat \<Rightarrow> string"

definition no_losses :: losses where
  "no_losses = (\<lambda>_. '''')"

definition loss_stop :: "losses \<Rightarrow> loss_ref \<Rightarrow> string \<Rightarrow> losses" where
  "loss_stop ls l reason =
    (case l of None \<Rightarrow> ls
     | Some i \<Rightarrow> if ls i = '''' then ls(i := reason) else ls)"

definition loss_reason :: "losses \<Rightarrow> loss_ref \<Rightarrow> string" where
  "loss_reason ls l = (case l of None \<Rightarrow> '''' | Some i \<Rightarrow> ls i)"

text \<open>\<open>Authorize\<close> runs a short enqueue on a state of its caller's.\<close>

definition loss_authorize :: "losses \<Rightarrow> loss_ref \<Rightarrow> ('s \<Rightarrow> 's) \<Rightarrow> 's \<Rightarrow> bool \<times> 's" where
  "loss_authorize ls l enqueue s =
    (case l of None \<Rightarrow> (True, enqueue s)
     | Some i \<Rightarrow> if ls i \<noteq> '''' then (False, s) else (True, enqueue s))"

lemma loss_stop_keeps:
  "loss_reason ls l \<noteq> '''' \<Longrightarrow> loss_reason (loss_stop ls l' reason) l = loss_reason ls l"
  by (auto simp: loss_stop_def loss_reason_def split: option.splits)

lemma loss_stop_cuts:
  "reason \<noteq> '''' \<Longrightarrow> l \<noteq> None \<Longrightarrow> loss_reason (loss_stop ls l reason) l \<noteq> ''''"
  by (auto simp: loss_stop_def loss_reason_def split: option.splits)

lemma loss_authorize_iff:
  "loss_authorize ls l enqueue s = (if loss_reason ls l = '''' then (True, enqueue s) else (False, s))"
  by (auto simp: loss_authorize_def loss_reason_def split: option.splits)

fun stop_all :: "losses \<Rightarrow> (loss_ref \<times> string) list \<Rightarrow> losses" where
  "stop_all ls [] = ls"
| "stop_all ls ((l, reason) # rest) = stop_all (loss_stop ls l reason) rest"

lemma stop_all_keeps:
  "loss_reason ls l \<noteq> '''' \<Longrightarrow> loss_reason (stop_all ls stops) l = loss_reason ls l"
  by (induction ls stops rule: stop_all.induct) (simp_all add: loss_stop_keeps)

section \<open>Occupancies, paths and slots\<close>

record occupancy =
  Store :: string
  Held :: nat
  Bound :: nat
  Rebuilds :: nat

type_synonym path = string

definition Unretained :: path where "Unretained = ''unretained''"
definition Processed :: path where "Processed = ''processed''"
definition Discarded :: path where "Discarded = ''discarded''"
definition Cut :: path where "Cut = ''cut''"

definition paths :: "path list" where
  "paths = [Unretained, Processed, Discarded, Cut]"

lemmas path_defs = Unretained_def Processed_def Discarded_def Cut_def

lemma paths_distinct: "distinct paths"
  by (simp add: paths_def path_defs)

text \<open>
  A slot is a reference into the state \<open>'g\<close> of what issued it.
\<close>

record 'g slot_ops =
  Keep :: "'g \<Rightarrow> nat \<Rightarrow> 'g"
  Kept :: "'g \<Rightarrow> nat \<Rightarrow> bool"
  Refund :: "'g \<Rightarrow> nat \<Rightarrow> path \<Rightarrow> bool \<times> 'g"

locale slot_pool =
  fixes P :: "'g slot_ops"
    and valid :: "'g \<Rightarrow> bool"
    and issued :: "'g \<Rightarrow> nat set"
    and free :: "'g \<Rightarrow> nat set"
  assumes free_issued: "valid g \<Longrightarrow> free g \<subseteq> issued g"
    and keep_valid: "valid g \<Longrightarrow> i \<in> issued g \<Longrightarrow> valid (Keep P g i)"
    and keep_pool: "valid g \<Longrightarrow> i \<in> issued g \<Longrightarrow>
      issued (Keep P g i) = issued g \<and> free (Keep P g i) = free g"
    and keep_kept: "valid g \<Longrightarrow> i \<in> issued g \<Longrightarrow> j \<in> issued g \<Longrightarrow> Kept P (Keep P g i) j \<longleftrightarrow> j = i \<or> Kept P g j"
    and refund_valid: "valid g \<Longrightarrow> i \<in> issued g \<Longrightarrow> valid (snd (Refund P g i path))"
    and refund_pool: "valid g \<Longrightarrow> i \<in> issued g \<Longrightarrow> Refund P g i path = (ok, g') \<Longrightarrow>
      issued g' = issued g \<and> free g' = insert i (free g) \<and> (ok \<longleftrightarrow> i \<notin> free g)"
    and refund_kept: "valid g \<Longrightarrow> i \<in> issued g \<Longrightarrow> j \<in> issued g \<Longrightarrow> Kept P (snd (Refund P g i path)) j \<longleftrightarrow> Kept P g j"
begin

text \<open>A slot is returned by the first refund, along whatever path, and by no later one.\<close>

fun refund_all :: "'g \<Rightarrow> (nat \<times> path) list \<Rightarrow> bool list \<times> 'g" where
  "refund_all g [] = ([], g)"
| "refund_all g ((i, path) # rest) =
    (let (ok, g') = Refund P g i path; (oks, g'') = refund_all g' rest in (ok # oks, g''))"

lemma refund_all_pool:
  assumes "valid g" "fst ` set rs \<subseteq> issued g" "refund_all g rs = (oks, g')"
  shows "valid g' \<and> issued g' = issued g \<and> free g' = free g \<union> fst ` set rs
    \<and> length oks = length rs
    \<and> (\<forall>k < length rs. oks ! k \<longleftrightarrow> fst (rs ! k) \<notin> free g \<union> fst ` set (take k rs))"
  using assms
proof (induction rs arbitrary: g oks)
  case (Cons r rs)
  obtain i path where r: "r = (i, path)" by fastforce
  obtain ok g1 where one: "Refund P g i path = (ok, g1)" by fastforce
  obtain oks1 where rest: "refund_all g1 rs = (oks1, g')" and oks: "oks = ok # oks1"
    using Cons.prems(3) r one by (auto simp: split_beta prod_eq_iff)
  have i: "i \<in> issued g"
    using Cons.prems(2) r by simp
  have g1: "valid g1" "issued g1 = issued g" "free g1 = insert i (free g)" "ok \<longleftrightarrow> i \<notin> free g"
    using refund_valid [OF Cons.prems(1) i, of path] refund_pool [OF Cons.prems(1) i one] one by auto
  have IH: "valid g' \<and> issued g' = issued g1 \<and> free g' = free g1 \<union> fst ` set rs
    \<and> length oks1 = length rs
    \<and> (\<forall>k < length rs. oks1 ! k \<longleftrightarrow> fst (rs ! k) \<notin> free g1 \<union> fst ` set (take k rs))"
    using Cons.prems(2) by (intro Cons.IH [OF g1(1) _ rest]) (simp add: g1(2))
  show ?case
    using IH by (auto simp: r oks g1(2-4) nth_Cons less_Suc_eq_0_disj split: nat.splits)
qed simp

end

end
