(* ===== verification/Intake.thy ===== *)
theory Intake
  imports Held Connection
begin

text \<open>
  Package \<open>intake\<close>: the bounded volatile storage capture writes and one processing owner
  reads, and the one allowance its entries share with the work done on them.

  \<^item> The store's queue is the source's linked list: entries are objects of a heap (the list
    \<open>entries\<close>, a reference is a position) with a \<open>next\<close> reference each, and the store keeps
    \<open>head\<close> and \<open>tail\<close>.
  \<^item> \<open>int64\<close> sums wrap (\<open>wrap64\<close>); the invariant shows that the byte counts never do.
  \<^item> The sizes \<open>unsafe.Sizeof\<close> reports are the compiler's: a parameter of the model
    (\<open>intake_sizes\<close>), of which the lemmas assume that they are positive and that an entry
    with its record is.
  \<^item> A record's slot and loss token are references into their owners' states; slots are used
    through the \<open>Slot\<close> interface of \<open>Held\<close>.
  \<^item> A nil \<open>*Store\<close> has no state: the operations' first test answers for it and is left
    out.  The deep copies of a stored record are the record itself: values are not shared here.
\<close>

section \<open>State\<close>

datatype intake_error = ErrLimit | ErrClosed | ErrUninitialized | NonPositiveLimit

datatype owner = Parsing | Policy | OwnerOther nat

record intake_sizes =
  size_entry :: nat
  size_fragment :: nat
  size_connection :: nat
  size_association :: nat
  size_placement :: nat
  size_early :: nat
  size_descriptor :: nat

definition sizes_ok :: "intake_sizes \<Rightarrow> bool" where
  "sizes_ok z \<longleftrightarrow> 0 < size_entry z \<and> 0 < size_association z \<and> 0 < size_placement z \<and> 0 < size_early z
    \<and> 0 < size_descriptor z"

record entry =
  en_fragment :: "fragment_record option"
  en_connection :: "connection_record option"
  en_next :: "nat option"
  en_bytes :: int
  en_released :: bool
  en_slot :: "nat option"

record intake_stats =
  LimitBytes :: int
  StoredBytes :: int
  Queued :: int
  Leased :: int
  Fragments :: int
  Connections :: int
  FragmentsRefused :: int
  ConnectionsRefused :: int
  Exhausted :: bool
  Closed :: bool
  ParsingCharge :: int
  PolicyCharge :: int
  ParsingRefused :: int
  PolicyRefused :: int

record store = intake_stats +
  head :: "nat option"
  tail :: "nat option"
  exhausted :: channel
  entries :: "entry list"

definition zero_store :: store where
  "zero_store = \<lparr>LimitBytes = 0, StoredBytes = 0, Queued = 0, Leased = 0, Fragments = 0, Connections = 0,
     FragmentsRefused = 0, ConnectionsRefused = 0, Exhausted = False, Closed = False, ParsingCharge = 0,
     PolicyCharge = 0, ParsingRefused = 0, PolicyRefused = 0, head = None, tail = None,
     exhausted = NilChannel, entries = []\<rparr>"

definition new_store :: "int \<Rightarrow> intake_error + store" where
  "new_store limit =
    (if limit \<le> 0 then Inl NonPositiveLimit
     else Inr (zero_store\<lparr>LimitBytes := limit, exhausted := OpenChannel\<rparr>))"

section \<open>Helpers under the lock\<close>

definition ready :: "store \<Rightarrow> intake_error option" where
  "ready s = (if exhausted s = NilChannel then Some ErrUninitialized
     else if Closed s then Some ErrClosed else None)"

definition left :: "store \<Rightarrow> nat" where
  "left s = nat (max (wrap64 (wrap64 (wrap64 (LimitBytes s - StoredBytes s) - ParsingCharge s) - PolicyCharge s)) 0)"

definition full :: "store \<Rightarrow> store option" where
  "full s =
    (if \<not> Exhausted s then map_option (\<lambda>c. s\<lparr>Exhausted := True, exhausted := c\<rparr>) (close_channel (exhausted s))
     else Some s)"

definition append_entry :: "store \<Rightarrow> entry \<Rightarrow> int \<Rightarrow> store" where
  "append_entry s e bytes =
    (let i = length (entries s);
         heap = entries s @ [e\<lparr>en_bytes := bytes\<rparr>];
         s1 = (case tail s of
                 None \<Rightarrow> s\<lparr>entries := heap, head := Some i\<rparr>
               | Some t \<Rightarrow> s\<lparr>entries := heap[t := (heap ! t)\<lparr>en_next := Some i\<rparr>]\<rparr>)
     in s1\<lparr>tail := Some i, StoredBytes := wrap64 (StoredBytes s + bytes), Queued := wrap64 (Queued s + 1)\<rparr>)"

text \<open>\<open>allowance.add\<close>: division before multiplication.  A sequence of calls stops at the first
  that does not fit.\<close>

definition add_allowance :: "nat \<Rightarrow> nat \<Rightarrow> nat \<Rightarrow> nat option" where
  "add_allowance remaining n width =
    (if n > remaining div width then None else Some (remaining - (n * width) mod two64))"

fun add_all :: "nat \<Rightarrow> (nat \<times> nat) list \<Rightarrow> nat option" where
  "add_all remaining [] = Some remaining"
| "add_all remaining ((n, width) # rest) =
    (case add_allowance remaining n width of None \<Rightarrow> None | Some fewer \<Rightarrow> add_all fewer rest)"

definition fragment_adds :: "intake_sizes \<Rightarrow> fragment_record \<Rightarrow> (nat \<times> nat) list" where
  "fragment_adds z r = [(1, size_entry z + size_fragment z), (length (fr_payload r), 1)]"

definition association_adds :: "intake_sizes \<Rightarrow> association \<Rightarrow> (nat \<times> nat) list" where
  "association_adds z a =
    [(length (as_contended a), size_descriptor z),
     (length (ip_zone (addr_ip (end_local (as_endpoints a)))), 1),
     (length (ip_zone (addr_ip (end_remote (as_endpoints a)))), 1)]"

definition connection_adds :: "intake_sizes \<Rightarrow> connection_record \<Rightarrow> (nat \<times> nat) list" where
  "connection_adds z r =
    [(1, size_entry z + size_connection z), (length (in_executable (cr_instance r)), 1),
     (length (ct_why (cr_fragments r)), 1), (length (cr_associations r), size_association z),
     (length (cr_placements r), size_placement z), (length (cr_early r), size_early z)]
    @ concat (map (association_adds z) (cr_associations r))
    @ map (\<lambda>p. (length (ct_why (pl_lost p)), 1)) (cr_placements r)"

definition keep_slot :: "'g slot_ops \<Rightarrow> 'g \<Rightarrow> nat option \<Rightarrow> 'g" where
  "keep_slot P g slot = (case slot of None \<Rightarrow> g | Some i \<Rightarrow> Keep P g i)"

section \<open>Operations\<close>

text \<open>An operation returns \<open>None\<close> where the source panics, and otherwise its error (if any), the
  store, the loss tokens and the state of the slots.\<close>

type_synonym 'g intake_result = "(intake_error option \<times> store \<times> losses \<times> 'g) option"

definition write_fragment ::
    "intake_sizes \<Rightarrow> 'g slot_ops \<Rightarrow> store \<Rightarrow> losses \<Rightarrow> 'g \<Rightarrow> fragment_record \<Rightarrow> 'g intake_result" where
  "write_fragment z P s ls g r =
    (case ready s of
       Some err \<Rightarrow> Some (Some err, s\<lparr>FragmentsRefused := wrap64 (FragmentsRefused s + 1)\<rparr>, ls, g)
     | None \<Rightarrow>
       (case add_all (left s) (fragment_adds z r) of
          None \<Rightarrow>
            map_option (\<lambda>s'. (Some ErrLimit, s', loss_stop ls (fr_loss r) ''intake_exhausted'', g))
              (full (s\<lparr>FragmentsRefused := wrap64 (FragmentsRefused s + 1)\<rparr>))
        | Some rest \<Rightarrow>
            let s1 = append_entry s \<lparr>en_fragment = Some (r\<lparr>fr_slot := None\<rparr>), en_connection = None,
                       en_next = None, en_bytes = 0, en_released = False, en_slot = fr_slot r\<rparr>
                     (int (left s) - int rest)
            in Some (None, s1\<lparr>Fragments := wrap64 (Fragments s1 + 1)\<rparr>, ls, keep_slot P g (fr_slot r))))"

definition write_connection ::
    "intake_sizes \<Rightarrow> 'g slot_ops \<Rightarrow> store \<Rightarrow> losses \<Rightarrow> 'g \<Rightarrow> connection_record \<Rightarrow> 'g intake_result" where
  "write_connection z P s ls g r =
    (case ready s of
       Some err \<Rightarrow> Some (Some err, s\<lparr>ConnectionsRefused := wrap64 (ConnectionsRefused s + 1)\<rparr>, ls, g)
     | None \<Rightarrow>
       (case add_all (left s) (connection_adds z r) of
          None \<Rightarrow>
            map_option (\<lambda>s'. (Some ErrLimit, s', loss_stop ls (cr_loss r) ''intake_exhausted'', g))
              (full (s\<lparr>ConnectionsRefused := wrap64 (ConnectionsRefused s + 1)\<rparr>))
        | Some rest \<Rightarrow>
            let s1 = append_entry s \<lparr>en_fragment = None, en_connection = Some (r\<lparr>cr_slot := None\<rparr>),
                       en_next = None, en_bytes = 0, en_released = False, en_slot = cr_slot r\<rparr>
                     (int (left s) - int rest)
            in Some (None, s1\<lparr>Connections := wrap64 (Connections s1 + 1)\<rparr>, ls, keep_slot P g (cr_slot r))))"

definition take_entry :: "store \<Rightarrow> nat option \<times> store" where
  "take_entry s =
    (case head s of
       None \<Rightarrow> (None, s)
     | Some e \<Rightarrow>
        let s1 = s\<lparr>head := en_next (entries s ! e), entries := (entries s)[e := (entries s ! e)\<lparr>en_next := None\<rparr>]\<rparr>;
            s2 = (if head s1 = None then s1\<lparr>tail := None\<rparr> else s1)
        in (Some e, s2\<lparr>Queued := wrap64 (Queued s - 1), Leased := wrap64 (Leased s + 1)\<rparr>))"

definition entry_bytes :: "store \<Rightarrow> nat option \<Rightarrow> int" where
  "entry_bytes s e = (case e of None \<Rightarrow> 0 | Some i \<Rightarrow> en_bytes (entries s ! i))"

definition release_as :: "'g slot_ops \<Rightarrow> store \<Rightarrow> 'g \<Rightarrow> nat option \<Rightarrow> path \<Rightarrow> store \<times> 'g" where
  "release_as P s g e path =
    (case e of
       None \<Rightarrow> (s, g)
     | Some i \<Rightarrow>
       let one = entries s ! i in
       if en_released one then (s, g)
       else
         (s\<lparr>entries := (entries s)[i := one\<lparr>en_released := True, en_fragment := None, en_connection := None,
                                          en_slot := None\<rparr>],
            StoredBytes := wrap64 (StoredBytes s - en_bytes one), Leased := wrap64 (Leased s - 1)\<rparr>,
          case en_slot one of None \<Rightarrow> g | Some slot \<Rightarrow> snd (Refund P g slot path)))"

definition reserve :: "store \<Rightarrow> owner \<Rightarrow> int \<Rightarrow> bool \<times> store" where
  "reserve s who n =
    (if (who \<noteq> Parsing \<and> who \<noteq> Policy) \<or> n < 0 then (False, s)
     else if exhausted s = NilChannel then (False, s)
     else if n > int (left s) then
       (False, if who = Parsing then s\<lparr>ParsingRefused := wrap64 (ParsingRefused s + 1)\<rparr>
               else s\<lparr>PolicyRefused := wrap64 (PolicyRefused s + 1)\<rparr>)
     else
       (True, if who = Parsing then s\<lparr>ParsingCharge := wrap64 (ParsingCharge s + n)\<rparr>
              else s\<lparr>PolicyCharge := wrap64 (PolicyCharge s + n)\<rparr>))"

definition give_back :: "store \<Rightarrow> owner \<Rightarrow> int \<Rightarrow> store" where
  "give_back s who n =
    (if n \<le> 0 then s
     else case who of
       Parsing \<Rightarrow> s\<lparr>ParsingCharge := wrap64 (ParsingCharge s - n)\<rparr>
     | Policy \<Rightarrow> s\<lparr>PolicyCharge := wrap64 (PolicyCharge s - n)\<rparr>
     | OwnerOther _ \<Rightarrow> s)"

definition retained_entries :: "store \<Rightarrow> occupancy" where
  "retained_entries s = \<lparr>Store = ''intake.entries'', Held = nat (wrap64 (Queued s + Leased s)), Bound = 0, Rebuilds = 0\<rparr>"

definition exhausted_signal :: "store \<Rightarrow> channel" where
  "exhausted_signal s = (if exhausted s = NilChannel then ClosedChannel else exhausted s)"

text \<open>The loop of \<open>Close\<close> follows \<open>next\<close>.  Its fuel is the number of entries: the list has no
  more, and \<open>close_loop_enough\<close> shows that more fuel changes nothing.\<close>

fun close_loop :: "nat \<Rightarrow> nat option \<Rightarrow> store \<Rightarrow> store" where
  "close_loop fuel None s = s"
| "close_loop 0 (Some e) s = s"
| "close_loop (Suc fuel) (Some e) s =
    (let one = entries s ! e in
     close_loop fuel (en_next one)
       (s\<lparr>entries := (entries s)[e := one\<lparr>en_fragment := None, en_connection := None, en_next := None,
                                         en_released := True\<rparr>],
          StoredBytes := wrap64 (StoredBytes s - en_bytes one)\<rparr>))"

definition close_store :: "store \<Rightarrow> store" where
  "close_store s =
    (close_loop (length (entries s)) (head s) (s\<lparr>Closed := True\<rparr>))\<lparr>head := None, tail := None, Queued := 0\<rparr>"

section \<open>The allowance\<close>

definition cost :: "(nat \<times> nat) list \<Rightarrow> nat" where
  "cost adds = sum_list (map (\<lambda>(n, width). n * width) adds)"

lemma cost_simps [simp]: "cost [] = 0" "cost ((n, width) # rest) = n * width + cost rest"
  "cost (xs @ ys) = cost xs + cost ys"
  by (simp_all add: cost_def)

lemma add_all_eq:
  assumes "remaining < two64" "list_all (\<lambda>(_, width). 0 < width) adds"
  shows "add_all remaining adds = (if cost adds \<le> remaining then Some (remaining - cost adds) else None)"
  using assms
proof (induction remaining adds rule: add_all.induct)
  case (2 remaining n width rest)
  have fits: "n > remaining div width \<longleftrightarrow> n * width > remaining"
    using 2(3) by (simp add: div_less_iff_less_mult)
  show ?case
  proof (cases "n * width \<le> remaining")
    case True
    then have "add_allowance remaining n width = Some (remaining - n * width)"
      using fits 2(2) by (simp add: add_allowance_def)
    with 2 True show ?thesis by auto
  next
    case False
    with fits show ?thesis by (simp add: add_allowance_def)
  qed
qed simp

lemma fragment_adds_positive: "sizes_ok z \<Longrightarrow> list_all (\<lambda>(_, width). 0 < width) (fragment_adds z r)"
  by (simp add: fragment_adds_def sizes_ok_def)

lemma connection_adds_positive: "sizes_ok z \<Longrightarrow> list_all (\<lambda>(_, width). 0 < width) (connection_adds z r)"
  by (auto simp: connection_adds_def association_adds_def sizes_ok_def list_all_iff)

lemma adds_cost_positive:
  "sizes_ok z \<Longrightarrow> 0 < cost (fragment_adds z r)" "sizes_ok z \<Longrightarrow> 0 < cost (connection_adds z c)"
  by (simp_all add: fragment_adds_def connection_adds_def sizes_ok_def)

section \<open>The invariant\<close>

text \<open>
  \<open>chained s h\<close>: the entries from the \<open>h\<close>-th on are the queue, linked in the order they were
  appended; those before it were taken (or discarded).
\<close>

definition chained :: "store \<Rightarrow> nat \<Rightarrow> bool" where
  "chained s h \<longleftrightarrow>
     (let n = length (entries s) in
      h \<le> n
    \<and> head s = (if h < n then Some h else None) \<and> tail s = (if h < n then Some (n - 1) else None)
    \<and> (\<forall>i < n. en_next (entries s ! i) = (if h \<le> i \<and> Suc i < n then Some (Suc i) else None))
    \<and> (\<forall>i < n. h \<le> i \<longrightarrow> \<not> en_released (entries s ! i)))"

definition live_bytes :: "entry list \<Rightarrow> int" where
  "live_bytes es = sum_list (map (\<lambda>e. if en_released e then 0 else en_bytes e) es)"

definition live_count :: "entry list \<Rightarrow> int" where
  "live_count es = sum_list (map (\<lambda>e. if en_released e then 0 else 1) es)"

definition accounts :: "store \<Rightarrow> nat \<Rightarrow> bool" where
  "accounts s h \<longleftrightarrow>
     list_all (\<lambda>e. 0 < en_bytes e) (entries s)
   \<and> StoredBytes s = live_bytes (entries s)
   \<and> Queued s = int (length (entries s) - h) \<and> Leased s = live_count (take h (entries s))
   \<and> 0 \<le> ParsingCharge s \<and> 0 \<le> PolicyCharge s
   \<and> StoredBytes s + ParsingCharge s + PolicyCharge s \<le> LimitBytes s \<and> LimitBytes s < half64
   \<and> exhausted s \<noteq> NilChannel \<and> (Exhausted s \<longleftrightarrow> exhausted s = ClosedChannel)"

definition intake_inv :: "store \<Rightarrow> nat \<Rightarrow> bool" where
  "intake_inv s h \<longleftrightarrow> chained s h \<and> accounts s h"

lemma live_bytes_simps [simp]:
  "live_bytes [] = 0" "live_bytes (e # es) = (if en_released e then 0 else en_bytes e) + live_bytes es"
  "live_bytes (xs @ ys) = live_bytes xs + live_bytes ys"
  by (simp_all add: live_bytes_def)

lemma live_count_simps [simp]:
  "live_count [] = 0" "live_count (e # es) = (if en_released e then 0 else 1) + live_count es"
  "live_count (xs @ ys) = live_count xs + live_count ys"
  by (simp_all add: live_count_def)

lemma live_bytes_update:
  "i < length es \<Longrightarrow> live_bytes (es[i := e]) =
    live_bytes es - (if en_released (es ! i) then 0 else en_bytes (es ! i)) + (if en_released e then 0 else en_bytes e)"
  by (induction es arbitrary: i) (auto split: nat.splits)

lemma live_count_update:
  "i < length es \<Longrightarrow> live_count (es[i := e]) =
    live_count es - (if en_released (es ! i) then 0 else 1) + (if en_released e then 0 else 1)"
  by (induction es arbitrary: i) (auto split: nat.splits)

lemma live_count_bytes: "list_all (\<lambda>e. 0 < en_bytes e) es \<Longrightarrow> live_count es \<le> live_bytes es \<and> 0 \<le> live_count es"
  by (induction es) auto

lemma live_bytes_nonneg: "list_all (\<lambda>e. 0 < en_bytes e) es \<Longrightarrow> 0 \<le> live_bytes es"
  using live_count_bytes [of es] by simp

lemma new_store_inv: "new_store limit = Inr s \<Longrightarrow> limit < half64 \<Longrightarrow> intake_inv s 0"
  by (auto simp: new_store_def zero_store_def intake_inv_def chained_def accounts_def split: if_splits)

lemma left_eq:
  assumes "accounts s h"
  shows "int (left s) = LimitBytes s - StoredBytes s - ParsingCharge s - PolicyCharge s" "left s < two64"
proof -
  have nonneg: "0 \<le> StoredBytes s"
    using assms live_bytes_nonneg by (simp add: accounts_def)
  have "wrap64 (LimitBytes s - StoredBytes s) = LimitBytes s - StoredBytes s"
    "wrap64 (LimitBytes s - StoredBytes s - ParsingCharge s) = LimitBytes s - StoredBytes s - ParsingCharge s"
    "wrap64 (LimitBytes s - StoredBytes s - ParsingCharge s - PolicyCharge s)
      = LimitBytes s - StoredBytes s - ParsingCharge s - PolicyCharge s"
    using assms nonneg by (intro wrap64_bounds; simp add: accounts_def)+
  then show *: "int (left s) = LimitBytes s - StoredBytes s - ParsingCharge s - PolicyCharge s"
    using assms by (simp add: left_def accounts_def)
  show "left s < two64"
    using * assms nonneg by (simp add: accounts_def)
qed

lemma chained_head: "chained s h \<Longrightarrow> head s = Some e \<Longrightarrow> e = h \<and> h < length (entries s)"
  by (simp add: chained_def Let_def split: if_splits)

lemma append_chained:
  assumes "chained s h" "en_next e = None" "\<not> en_released e"
  shows "chained (append_entry s e bytes) h"
proof (cases "h < length (entries s)")
  case True
  with assms show ?thesis
    by (auto simp: chained_def append_entry_def Let_def nth_list_update nth_append less_Suc_eq)
next
  case False
  with assms show ?thesis
    by (auto simp: chained_def append_entry_def Let_def nth_append less_Suc_eq)
qed

lemma append_fields:
  "length (entries (append_entry s e bytes)) = Suc (length (entries s))"
  "exhausted (append_entry s e bytes) = exhausted s" "Exhausted (append_entry s e bytes) = Exhausted s"
  "ParsingCharge (append_entry s e bytes) = ParsingCharge s" "PolicyCharge (append_entry s e bytes) = PolicyCharge s"
  "LimitBytes (append_entry s e bytes) = LimitBytes s" "Closed (append_entry s e bytes) = Closed s"
  "StoredBytes (append_entry s e bytes) = wrap64 (StoredBytes s + bytes)"
  "Queued (append_entry s e bytes) = wrap64 (Queued s + 1)" "Leased (append_entry s e bytes) = Leased s"
  by (simp_all add: append_entry_def Let_def split: option.splits)

text \<open>Appending rewrites only the \<open>next\<close> reference of the old tail.\<close>

definition same_but_next :: "entry \<Rightarrow> entry \<Rightarrow> bool" where
  "same_but_next a b \<longleftrightarrow> a\<lparr>en_next := None\<rparr> = b\<lparr>en_next := None\<rparr>"

lemma same_but_nextD: "same_but_next a b \<Longrightarrow> en_bytes a = en_bytes b \<and> en_released a = en_released b
    \<and> en_slot a = en_slot b \<and> en_fragment a = en_fragment b \<and> en_connection a = en_connection b"
  by (cases a; cases b) (simp add: same_but_next_def)

lemma same_but_next_sums:
  assumes "list_all2 same_but_next as bs"
  shows "live_bytes as = live_bytes bs" "live_count as = live_count bs"
    "list_all (\<lambda>e. 0 < en_bytes e) as = list_all (\<lambda>e. 0 < en_bytes e) bs"
  using assms by (induction rule: list_all2_induct) (auto dest: same_but_nextD)

lemma append_entries:
  assumes "chained s h"
  shows "list_all2 same_but_next (entries (append_entry s e bytes)) (entries s @ [e\<lparr>en_bytes := bytes\<rparr>])"
  using assms
  by (auto simp: chained_def append_entry_def Let_def list_all2_conv_all_nth nth_list_update same_but_next_def
      split: option.splits)

lemma live_count_all: "list_all (\<lambda>e. \<not> en_released e) es \<Longrightarrow> live_count es = int (length es)"
  by (induction es) auto

lemma live_count_append_take: "live_count es = live_count (take h es) + live_count (drop h es)"
  by (metis append_take_drop_id live_count_simps(3))

text \<open>What is queued and what is leased are the entries not released, so both counts are bounded
  by the bytes stored.\<close>

lemma queue_counts:
  assumes "intake_inv s h"
  shows "live_count (entries s) = Queued s + Leased s" "0 \<le> Queued s" "0 \<le> Leased s"
    "Queued s + Leased s \<le> StoredBytes s"
proof -
  have ch: "chained s h" and acc: "accounts s h"
    using assms(1) by (simp_all add: intake_inv_def)
  have "list_all (\<lambda>e. \<not> en_released e) (drop h (entries s))"
    using ch by (auto simp: chained_def Let_def list_all_length)
  then have "live_count (drop h (entries s)) = Queued s"
    using acc by (simp add: live_count_all accounts_def)
  then show counts: "live_count (entries s) = Queued s + Leased s"
    using acc live_count_append_take [of "entries s" h] by (simp add: accounts_def)
  have "list_all (\<lambda>e. 0 < en_bytes e) (take h (entries s))"
    using acc by (auto simp: accounts_def list_all_iff dest: in_set_takeD)
  then show "0 \<le> Queued s" "0 \<le> Leased s" "Queued s + Leased s \<le> StoredBytes s"
    using acc counts live_count_bytes [of "entries s"] live_count_bytes [of "take h (entries s)"]
    by (simp_all add: accounts_def)
qed

lemma append_accounts:
  assumes "intake_inv s h" "\<not> en_released e" "0 < bytes" "bytes \<le> int (left s)"
  shows "accounts (append_entry s e bytes) h"
proof -
  have ch: "chained s h" and acc: "accounts s h"
    using assms(1) by (simp_all add: intake_inv_def)
  note pre = append_entries [OF ch, of e bytes]
  have h: "h \<le> length (entries s)"
    using ch by (simp add: chained_def Let_def)
  have take: "list_all2 same_but_next (take h (entries (append_entry s e bytes))) (take h (entries s))"
    using list_all2_takeI [OF pre, of h] h by simp
  have room: "StoredBytes s + bytes + ParsingCharge s + PolicyCharge s \<le> LimitBytes s"
    using assms(4) left_eq(1) [OF acc] by simp
  have nonneg: "0 \<le> StoredBytes s"
    using acc live_bytes_nonneg by (simp add: accounts_def)
  have fits: "wrap64 (StoredBytes s + bytes) = StoredBytes s + bytes"
    using acc room nonneg assms(3) by (intro wrap64_bounds) (auto simp: accounts_def)
  have "Queued s \<le> StoredBytes s"
    using queue_counts [OF assms(1)] by linarith
  then have queued: "wrap64 (Queued s + 1) = int (Suc (length (entries s)) - h)"
    using acc room assms(3) h by (subst wrap64_bounds) (auto simp: accounts_def)
  show ?thesis
    using acc assms(2,3) room fits queued same_but_next_sums [OF pre] same_but_next_sums(2) [OF take]
    by (simp add: accounts_def append_fields)
qed

lemma append_inv:
  "intake_inv s h \<Longrightarrow> \<not> en_released e \<Longrightarrow> en_next e = None \<Longrightarrow> 0 < bytes \<Longrightarrow> bytes \<le> int (left s) \<Longrightarrow>
    intake_inv (append_entry s e bytes) h"
  using append_chained append_accounts by (auto simp: intake_inv_def)

lemma take_inv:
  assumes "intake_inv s h" "take_entry s = (e, s')"
  shows "(e = None \<and> s' = s \<and> h = length (entries s)) \<or>
    (e = Some h \<and> h < length (entries s) \<and> intake_inv s' (Suc h)
      \<and> list_all2 same_but_next (entries s') (entries s))"
proof (cases "head s")
  case None
  with assms show ?thesis
    by (auto simp: take_entry_def intake_inv_def chained_def Let_def split: if_splits)
next
  case (Some x)
  have ch: "chained s h" and acc: "accounts s h"
    using assms(1) by (simp_all add: intake_inv_def)
  have x: "x = h" "h < length (entries s)"
    using chained_head [OF ch Some] by simp_all
  let ?es = "(entries s)[h := (entries s ! h)\<lparr>en_next := None\<rparr>]"
  have s': "e = Some h" "entries s' = ?es"
    "head s' = en_next (entries s ! h)"
    "tail s' = (if en_next (entries s ! h) = None then None else tail s)"
    using assms(2) Some x by (auto simp: take_entry_def Let_def)
  have other: "StoredBytes s' = StoredBytes s" "ParsingCharge s' = ParsingCharge s"
    "PolicyCharge s' = PolicyCharge s" "LimitBytes s' = LimitBytes s" "exhausted s' = exhausted s"
    "Exhausted s' = Exhausted s" "Queued s' = wrap64 (Queued s - 1)" "Leased s' = wrap64 (Leased s + 1)"
    using assms(2) Some by (auto simp: take_entry_def Let_def split: if_splits)
  have same: "list_all2 same_but_next ?es (entries s)"
    using x(2) by (auto simp: list_all2_conv_all_nth nth_list_update same_but_next_def)
  have "chained s' (Suc h)"
    using ch x(2) by (auto simp: chained_def Let_def s' nth_list_update)
  moreover have "accounts s' (Suc h)"
  proof -
    have fits: "Queued s' = Queued s - 1" "Leased s' = Leased s + 1"
      using queue_counts [OF assms(1)] acc x(2) other(7,8)
      by (auto simp: accounts_def wrap64_bounds)
    have "take (Suc h) ?es = take h (entries s) @ [(entries s ! h)\<lparr>en_next := None\<rparr>]"
      using x(2) by (simp add: take_Suc_conv_app_nth)
    moreover have "\<not> en_released (entries s ! h)"
      using ch x(2) by (auto simp: chained_def Let_def)
    ultimately have "live_count (take (Suc h) ?es) = live_count (take h (entries s)) + 1"
      by simp
    with acc fits other x(2) same_but_next_sums [OF same] show ?thesis
      by (simp add: accounts_def s'(2))
  qed
  ultimately show ?thesis
    using s' x same by (simp add: intake_inv_def)
qed

lemma release_inv:
  assumes "intake_inv s h" "i < h" "release_as P s g (Some i) path = (s', g')"
  shows "intake_inv s' h"
proof (cases "en_released (entries s ! i)")
  case True
  with assms show ?thesis by (simp add: release_as_def)
next
  case False
  have ch: "chained s h" and acc: "accounts s h"
    using assms(1) by (simp_all add: intake_inv_def)
  have h: "h \<le> length (entries s)"
    using ch by (simp add: chained_def Let_def)
  let ?e = "(entries s ! i)\<lparr>en_released := True, en_fragment := None, en_connection := None, en_slot := None\<rparr>"
  have s': "s' = s\<lparr>entries := (entries s)[i := ?e],
      StoredBytes := wrap64 (StoredBytes s - en_bytes (entries s ! i)), Leased := wrap64 (Leased s - 1)\<rparr>"
    using assms(3) False by (simp add: release_as_def Let_def)
  have bytes: "live_bytes ((entries s)[i := ?e]) = StoredBytes s - en_bytes (entries s ! i)"
    using False assms(2) h acc by (simp add: live_bytes_update accounts_def)
  have pos: "list_all (\<lambda>e. 0 < en_bytes e) ((entries s)[i := ?e])"
    using acc assms(2) h by (auto simp: accounts_def list_all_length nth_list_update)
  have "live_count (take h ((entries s)[i := ?e])) = Leased s - 1"
    using False assms(2) h acc live_count_update [of i "take h (entries s)" ?e]
    by (simp add: accounts_def take_update_swap)
  moreover from this have "0 \<le> Leased s - 1"
    using live_count_bytes [of "take h ((entries s)[i := ?e])"] pos
    by (auto simp: list_all_iff dest: in_set_takeD)
  moreover have "0 < en_bytes (entries s ! i)"
    using acc assms(2) h by (simp add: accounts_def list_all_length)
  ultimately have "wrap64 (Leased s - 1) = live_count (take h ((entries s)[i := ?e]))"
    "wrap64 (StoredBytes s - en_bytes (entries s ! i)) = live_bytes ((entries s)[i := ?e])"
    using acc bytes live_bytes_nonneg [OF pos] queue_counts [OF assms(1)]
    by (auto simp: accounts_def wrap64_bounds)
  then have "accounts s' h"
    using acc pos bytes \<open>0 < en_bytes (entries s ! i)\<close> by (simp add: accounts_def s')
  moreover have "chained s' h"
    using ch assms(2) by (auto simp: chained_def Let_def s' nth_list_update)
  ultimately show ?thesis by (simp add: intake_inv_def)
qed

lemma accounts_cong:
  assumes "accounts s h" "entries s' = entries s" "StoredBytes s' = StoredBytes s" "Queued s' = Queued s"
    "Leased s' = Leased s" "LimitBytes s' = LimitBytes s"
    "0 \<le> ParsingCharge s'" "0 \<le> PolicyCharge s'"
    "StoredBytes s + ParsingCharge s' + PolicyCharge s' \<le> LimitBytes s"
    "exhausted s' \<noteq> NilChannel" "Exhausted s' \<longleftrightarrow> exhausted s' = ClosedChannel"
  shows "accounts s' h"
  using assms by (simp add: accounts_def)

lemma chained_cong:
  "chained s h \<Longrightarrow> entries s' = entries s \<Longrightarrow> head s' = head s \<Longrightarrow> tail s' = tail s \<Longrightarrow> chained s' h"
  by (simp add: chained_def)

lemma reserve_inv:
  assumes "intake_inv s h" "reserve s who n = (ok, s')"
  shows "intake_inv s' h"
proof -
  have acc: "accounts s h" and ch: "chained s h"
    using assms(1) by (simp_all add: intake_inv_def)
  have nonneg: "0 \<le> StoredBytes s"
    using acc live_bytes_nonneg by (simp add: accounts_def)
  have fits: "wrap64 (ParsingCharge s + n) = ParsingCharge s + n" "wrap64 (PolicyCharge s + n) = PolicyCharge s + n"
    if "0 \<le> n" "n \<le> int (left s)"
    using that acc nonneg left_eq(1) [OF acc] by (auto simp: accounts_def intro!: wrap64_bounds)
  have "accounts s' h"
    using assms(2) acc left_eq(1) [OF acc] fits
    by (auto simp: reserve_def accounts_def split: if_splits)
  moreover have "chained s' h"
    using assms(2) ch by (auto simp: reserve_def intro: chained_cong split: if_splits)
  ultimately show ?thesis by (simp add: intake_inv_def)
qed

definition charge_of :: "store \<Rightarrow> owner \<Rightarrow> int" where
  "charge_of s who = (case who of Parsing \<Rightarrow> ParsingCharge s | Policy \<Rightarrow> PolicyCharge s | OwnerOther _ \<Rightarrow> 0)"

lemma reserve_charge:
  assumes "intake_inv s h" "reserve s who n = (ok, s')"
  shows "charge_of s' w = charge_of s w + (if ok \<and> w = who then n else 0)"
    "ok \<longleftrightarrow> (who = Parsing \<or> who = Policy) \<and> 0 \<le> n \<and> n \<le> int (left s)"
proof -
  have acc: "accounts s h"
    using assms(1) by (simp add: intake_inv_def)
  have nonneg: "0 \<le> StoredBytes s"
    using acc live_bytes_nonneg by (simp add: accounts_def)
  have fits: "wrap64 (ParsingCharge s + n) = ParsingCharge s + n" "wrap64 (PolicyCharge s + n) = PolicyCharge s + n"
    if "0 \<le> n" "n \<le> int (left s)"
    using that acc nonneg left_eq(1) [OF acc] by (auto simp: accounts_def intro!: wrap64_bounds)
  have usable: "exhausted s \<noteq> NilChannel"
    using acc by (simp add: accounts_def)
  show "charge_of s' w = charge_of s w + (if ok \<and> w = who then n else 0)"
    using assms(2) fits usable by (cases w) (auto simp: reserve_def charge_of_def split: if_splits)
  show "ok \<longleftrightarrow> (who = Parsing \<or> who = Policy) \<and> 0 \<le> n \<and> n \<le> int (left s)"
    using assms(2) usable by (auto simp: reserve_def split: if_splits)
qed

lemma give_back_charge:
  assumes "intake_inv s h" "0 \<le> n" "n \<le> charge_of s who"
  shows "intake_inv (give_back s who n) h"
    "charge_of (give_back s who n) w = charge_of s w - (if w = who then n else 0)"
proof -
  have acc: "accounts s h" and ch: "chained s h"
    using assms(1) by (simp_all add: intake_inv_def)
  have nonneg: "0 \<le> StoredBytes s"
    using acc live_bytes_nonneg by (simp add: accounts_def)
  have fits: "who = Parsing \<Longrightarrow> wrap64 (ParsingCharge s - n) = ParsingCharge s - n"
    "who = Policy \<Longrightarrow> wrap64 (PolicyCharge s - n) = PolicyCharge s - n"
    using assms(2,3) acc nonneg by (auto simp: accounts_def charge_of_def intro!: wrap64_bounds)
  have "accounts (give_back s who n) h"
    using assms(2,3) acc fits by (cases who) (auto simp: give_back_def accounts_def charge_of_def)
  moreover have "chained (give_back s who n) h"
    using ch by (auto simp: give_back_def intro: chained_cong split: owner.splits)
  ultimately show "intake_inv (give_back s who n) h"
    by (simp add: intake_inv_def)
  show "charge_of (give_back s who n) w = charge_of s w - (if w = who then n else 0)"
    using assms(2,3) fits by (cases who; cases w) (auto simp: give_back_def charge_of_def)
qed

text \<open>Both callbacks are one operation on what they are offered.\<close>

datatype input = FragmentInput fragment_record | ConnectionInput connection_record

definition offer :: "intake_sizes \<Rightarrow> 'g slot_ops \<Rightarrow> store \<Rightarrow> losses \<Rightarrow> 'g \<Rightarrow> input \<Rightarrow> 'g intake_result" where
  "offer z P s ls g x =
    (case x of FragmentInput r \<Rightarrow> write_fragment z P s ls g r | ConnectionInput r \<Rightarrow> write_connection z P s ls g r)"

fun input_adds :: "intake_sizes \<Rightarrow> input \<Rightarrow> (nat \<times> nat) list" where
  "input_adds z (FragmentInput r) = fragment_adds z r"
| "input_adds z (ConnectionInput r) = connection_adds z r"

fun input_slot :: "input \<Rightarrow> nat option" where
  "input_slot (FragmentInput r) = fr_slot r"
| "input_slot (ConnectionInput r) = cr_slot r"

fun input_loss :: "input \<Rightarrow> nat option" where
  "input_loss (FragmentInput r) = fr_loss r"
| "input_loss (ConnectionInput r) = cr_loss r"

definition input_entry :: "input \<Rightarrow> entry" where
  "input_entry x =
    (case x of
       FragmentInput r \<Rightarrow> \<lparr>en_fragment = Some (r\<lparr>fr_slot := None\<rparr>), en_connection = None, en_next = None,
         en_bytes = 0, en_released = False, en_slot = fr_slot r\<rparr>
     | ConnectionInput r \<Rightarrow> \<lparr>en_fragment = None, en_connection = Some (r\<lparr>cr_slot := None\<rparr>), en_next = None,
         en_bytes = 0, en_released = False, en_slot = cr_slot r\<rparr>)"

fun count_refused :: "input \<Rightarrow> store \<Rightarrow> store" where
  "count_refused (FragmentInput _) s = s\<lparr>FragmentsRefused := wrap64 (FragmentsRefused s + 1)\<rparr>"
| "count_refused (ConnectionInput _) s = s\<lparr>ConnectionsRefused := wrap64 (ConnectionsRefused s + 1)\<rparr>"

fun count_accepted :: "input \<Rightarrow> store \<Rightarrow> store" where
  "count_accepted (FragmentInput _) s = s\<lparr>Fragments := wrap64 (Fragments s + 1)\<rparr>"
| "count_accepted (ConnectionInput _) s = s\<lparr>Connections := wrap64 (Connections s + 1)\<rparr>"

lemma input_entry_fields [simp]:
  "\<not> en_released (input_entry x)" "en_next (input_entry x) = None" "en_slot (input_entry x) = input_slot x"
  by (cases x; simp add: input_entry_def)+

lemma input_adds_positive: "sizes_ok z \<Longrightarrow> list_all (\<lambda>(_, width). 0 < width) (input_adds z x)"
  "sizes_ok z \<Longrightarrow> 0 < cost (input_adds z x)"
  by (cases x; simp add: fragment_adds_positive connection_adds_positive adds_cost_positive)+

lemma full_eq:
  "accounts s h \<Longrightarrow> full (count_refused x s) = Some ((count_refused x s)\<lparr>Exhausted := True, exhausted := ClosedChannel\<rparr>)"
  by (cases x; cases "exhausted s") (auto simp: full_def close_channel_def accounts_def)

text \<open>A callback never panics, and an input is taken exactly when the store is open and the
  input's cost fits in what is left.\<close>

lemma offer_eq:
  assumes "intake_inv s h" "sizes_ok z"
  shows "offer z P s ls g x = Some
    (if Closed s then (Some ErrClosed, count_refused x s, ls, g)
     else if cost (input_adds z x) \<le> left s then
       (None, count_accepted x (append_entry s (input_entry x) (int (cost (input_adds z x)))), ls,
        keep_slot P g (input_slot x))
     else (Some ErrLimit, (count_refused x s)\<lparr>Exhausted := True, exhausted := ClosedChannel\<rparr>,
           loss_stop ls (input_loss x) ''intake_exhausted'', g))"
proof -
  have acc: "accounts s h"
    using assms(1) by (simp add: intake_inv_def)
  note adds = add_all_eq [OF left_eq(2) [OF acc] input_adds_positive(1) [OF assms(2)], of x]
  have usable: "exhausted s \<noteq> NilChannel"
    using acc by (simp add: accounts_def)
  note full = full_eq [OF acc, of x]
  show ?thesis
    using adds full usable
    by (cases x) (auto simp: offer_def write_fragment_def write_connection_def ready_def input_entry_def
        Let_def of_nat_diff)
qed

lemma count_accepted_inv: "intake_inv s h \<Longrightarrow> intake_inv (count_accepted x s) h"
  by (cases x) (auto simp: intake_inv_def accounts_def chained_def)

lemma count_refused_inv: "intake_inv s h \<Longrightarrow> intake_inv (count_refused x s) h"
  by (cases x) (auto simp: intake_inv_def accounts_def chained_def)

lemma exhausted_inv: "intake_inv s h \<Longrightarrow> intake_inv (s\<lparr>Exhausted := True, exhausted := ClosedChannel\<rparr>) h"
  by (auto simp: intake_inv_def accounts_def chained_def)

lemma offer_inv:
  assumes "intake_inv s h" "sizes_ok z" "offer z P s ls g x = Some (err, s', ls', g')"
  shows "intake_inv s' h"
  using assms(3) append_inv [OF assms(1), of "input_entry x" "int (cost (input_adds z x))"]
    input_adds_positive(2) [OF assms(2), of x] assms(1)
  by (auto simp: offer_eq [OF assms(1,2)] count_accepted_inv count_refused_inv exhausted_inv split: if_splits)

section \<open>Closing\<close>

lemma close_loop_walk:
  assumes "chained s h" "list_all (\<lambda>e. 0 < en_bytes e) (entries s)" "StoredBytes s = live_bytes (entries s)"
    "StoredBytes s < half64" "length (entries s) - h \<le> fuel"
  shows "close_loop fuel (head s) s =
    s\<lparr>entries := take h (entries s) @ map (\<lambda>e. e\<lparr>en_fragment := None, en_connection := None, en_next := None,
        en_released := True\<rparr>) (drop h (entries s)),
      StoredBytes := live_bytes (take h (entries s))\<rparr>"
proof -
  let ?gone = "\<lambda>e. e\<lparr>en_fragment := None, en_connection := None, en_next := None, en_released := True\<rparr>"
  have walk: "close_loop fuel (if k < length (entries s) then Some k else None)
      (s\<lparr>entries := take h (entries s) @ map ?gone (drop h (take k (entries s))) @ drop k (entries s),
         StoredBytes := b\<rparr>) =
      s\<lparr>entries := take h (entries s) @ map ?gone (drop h (entries s)), StoredBytes := live_bytes (take h (entries s))\<rparr>"
    if "h \<le> k" "k \<le> length (entries s)" "length (entries s) - k \<le> fuel"
      "b = live_bytes (take h (entries s)) + live_bytes (drop k (entries s))" "b < half64" for k b fuel
    using that
  proof (induction "length (entries s) - k" arbitrary: k b fuel)
    case 0
    then have "k = length (entries s)" by simp
    with 0 show ?case by simp
  next
    case (Suc m)
    then have k: "k < length (entries s)" by simp
    then obtain f where f: "fuel = Suc f"
      using Suc.prems(3) by (cases fuel) auto
    let ?e = "entries s ! k"
    have live: "\<not> en_released ?e" "en_next ?e = (if Suc k < length (entries s) then Some (Suc k) else None)"
      using assms(1) Suc.prems(1) k by (auto simp: chained_def Let_def)
    have drop: "drop k (entries s) = ?e # drop (Suc k) (entries s)"
      using k by (simp add: Cons_nth_drop_Suc)
    have pos: "list_all (\<lambda>e. 0 < en_bytes e) (take n (entries s))" "list_all (\<lambda>e. 0 < en_bytes e) (drop n (entries s))" for n
      using assms(2) by (auto simp: list_all_iff dest: in_set_takeD in_set_dropD)
    have one: "0 < en_bytes ?e"
      using assms(2) k by (simp add: list_all_length)
    then have wrap: "wrap64 (b - en_bytes ?e) = b - en_bytes ?e"
      using Suc.prems(4,5) live drop live_bytes_nonneg [OF pos(1) [of h]] live_bytes_nonneg [OF pos(2) [of "Suc k"]]
      by (intro wrap64_bounds) simp_all
    have at: "(take h (entries s) @ map ?gone (drop h (take k (entries s))) @ drop k (entries s)) ! k = ?e"
      "(take h (entries s) @ map ?gone (drop h (take k (entries s))) @ drop k (entries s))[k := ?gone ?e]
        = take h (entries s) @ map ?gone (drop h (take (Suc k) (entries s))) @ drop (Suc k) (entries s)"
      using k Suc.prems(1) by (simp_all add: nth_append drop list_update_append take_Suc_conv_app_nth)
    show ?case
      using Suc.hyps(1) [of "Suc k" f "b - en_bytes ?e"] Suc.hyps(2) Suc.prems k f live wrap at drop one
      by (simp add: Let_def)
  qed
  have "h \<le> length (entries s)" "head s = (if h < length (entries s) then Some h else None)"
    using assms(1) by (auto simp: chained_def Let_def)
  moreover have "live_bytes (take h (entries s)) + live_bytes (drop h (entries s)) = StoredBytes s"
    using assms(3) live_bytes_simps(3) [of "take h (entries s)" "drop h (entries s)"] by simp
  ultimately show ?thesis
    using walk [of h fuel "StoredBytes s"] assms(4,5) by simp
qed

definition discard :: "entry \<Rightarrow> entry" where
  "discard e = e\<lparr>en_fragment := None, en_connection := None, en_next := None, en_released := True\<rparr>"

text \<open>\<open>Close\<close> discards what is queued and leaves what is leased; the slot of a discarded entry stays
  in it, returned to nobody.\<close>

lemma close_store_eq:
  assumes "intake_inv s h"
  shows "close_store s = s\<lparr>Closed := True, entries := take h (entries s) @ map discard (drop h (entries s)),
    StoredBytes := live_bytes (take h (entries s)), head := None, tail := None, Queued := 0\<rparr>"
proof -
  have ch: "chained (s\<lparr>Closed := True\<rparr>) h" and acc: "accounts s h"
    using assms by (auto simp: intake_inv_def chained_def)
  have nonneg: "0 \<le> StoredBytes s"
    using acc live_bytes_nonneg by (simp add: accounts_def)
  have "close_loop (length (entries s)) (head s) (s\<lparr>Closed := True\<rparr>) =
    s\<lparr>Closed := True, entries := take h (entries s) @ map discard (drop h (entries s)),
      StoredBytes := live_bytes (take h (entries s))\<rparr>"
    using close_loop_walk [OF ch, of "length (entries s)"] acc nonneg
    by (simp add: accounts_def discard_def [abs_def])
  then show ?thesis
    by (simp add: close_store_def)
qed

lemma close_inv:
  assumes "intake_inv s h"
  shows "intake_inv (close_store s) (length (entries (close_store s)))"
    "length (entries (close_store s)) = length (entries s)"
proof -
  have ch: "chained s h" and acc: "accounts s h"
    using assms by (simp_all add: intake_inv_def)
  let ?es = "take h (entries s) @ map discard (drop h (entries s))"
  have gone: "live_bytes (map discard es) = 0" "live_count (map discard es) = 0"
    "list_all (\<lambda>e. 0 < en_bytes e) es \<Longrightarrow> list_all (\<lambda>e. 0 < en_bytes e) (map discard es)" for es
    by (induction es) (auto simp: discard_def)
  have pos: "list_all (\<lambda>e. 0 < en_bytes e) (take h (entries s))" "list_all (\<lambda>e. 0 < en_bytes e) (drop h (entries s))"
    using acc by (auto simp: accounts_def list_all_iff dest: in_set_takeD in_set_dropD)
  have split: "live_bytes (entries s) = live_bytes (take h (entries s)) + live_bytes (drop h (entries s))"
    by (metis append_take_drop_id live_bytes_simps(3))
  have h: "h \<le> length (entries s)"
    using ch by (simp add: chained_def Let_def)
  show len: "length (entries (close_store s)) = length (entries s)"
    using h by (simp add: close_store_eq [OF assms])
  have "accounts (close_store s) (length (entries s))"
    using acc gone pos split live_bytes_nonneg [OF pos(2)] h
    by (simp add: accounts_def close_store_eq [OF assms])
  moreover have "chained (close_store s) (length (entries s))"
    using ch h by (auto simp: chained_def Let_def close_store_eq [OF assms] nth_append discard_def)
  ultimately show "intake_inv (close_store s) (length (entries (close_store s)))"
    by (simp add: intake_inv_def len)
qed

section \<open>Histories\<close>

text \<open>
  What one call did, over the store, the loss tokens and the slots.  A worker releases only
  entries \<open>Take\<close> gave it, and gives back only charges it holds.  Between two calls the owner
  of the slots may move on its own, along \<open>E\<close>, and an input offered carries a slot \<open>V\<close>
  says it may hand over.
\<close>

record 'g intake_state =
  the_store :: store
  the_losses :: losses
  the_slots :: 'g

datatype intake_event =
    Offered input "intake_error option"
  | Took "(nat \<times> entry) option"
  | ReleasedEntry nat path
  | Reserved owner int bool
  | GaveBack owner int
  | ClosedStore
  | SlotsMoved

definition may_offer :: "('g \<Rightarrow> nat \<Rightarrow> bool) \<Rightarrow> 'g \<Rightarrow> input \<Rightarrow> bool" where
  "may_offer V g x = (case input_slot x of None \<Rightarrow> True | Some k \<Rightarrow> V g k)"

inductive intake_run ::
    "intake_sizes \<Rightarrow> 'g slot_ops \<Rightarrow> ('g \<Rightarrow> 'g \<Rightarrow> bool) \<Rightarrow> ('g \<Rightarrow> nat \<Rightarrow> bool) \<Rightarrow>
      'g intake_state \<Rightarrow> intake_event list \<Rightarrow> 'g intake_state \<Rightarrow> nat \<Rightarrow> bool"
  for z P E V t0 where
  intake_start: "intake_run z P E V t0 [] t0 0"
| intake_offer: "intake_run z P E V t0 es t h \<Longrightarrow> may_offer V (the_slots t) x \<Longrightarrow>
    offer z P (the_store t) (the_losses t) (the_slots t) x = Some (err, s', ls', g') \<Longrightarrow>
    intake_run z P E V t0 (es @ [Offered x err]) \<lparr>the_store = s', the_losses = ls', the_slots = g'\<rparr> h"
| intake_take: "intake_run z P E V t0 es t h \<Longrightarrow> take_entry (the_store t) = (Some i, s') \<Longrightarrow>
    intake_run z P E V t0 (es @ [Took (Some (i, entries (the_store t) ! i))]) (t\<lparr>the_store := s'\<rparr>) (Suc h)"
| intake_take_none: "intake_run z P E V t0 es t h \<Longrightarrow> take_entry (the_store t) = (None, s') \<Longrightarrow>
    intake_run z P E V t0 (es @ [Took None]) (t\<lparr>the_store := s'\<rparr>) h"
| intake_release: "intake_run z P E V t0 es t h \<Longrightarrow> i < h \<Longrightarrow>
    release_as P (the_store t) (the_slots t) (Some i) path = (s', g') \<Longrightarrow>
    intake_run z P E V t0 (es @ [ReleasedEntry i path]) (t\<lparr>the_store := s', the_slots := g'\<rparr>) h"
| intake_reserve: "intake_run z P E V t0 es t h \<Longrightarrow> reserve (the_store t) who n = (ok, s') \<Longrightarrow>
    intake_run z P E V t0 (es @ [Reserved who n ok]) (t\<lparr>the_store := s'\<rparr>) h"
| intake_return: "intake_run z P E V t0 es t h \<Longrightarrow> 0 \<le> n \<Longrightarrow> n \<le> charge_of (the_store t) who \<Longrightarrow>
    intake_run z P E V t0 (es @ [GaveBack who n]) (t\<lparr>the_store := give_back (the_store t) who n\<rparr>) h"
| intake_close: "intake_run z P E V t0 es t h \<Longrightarrow>
    intake_run z P E V t0 (es @ [ClosedStore]) (t\<lparr>the_store := close_store (the_store t)\<rparr>)
      (length (entries (the_store t)))"
| intake_slots: "intake_run z P E V t0 es t h \<Longrightarrow> E (the_slots t) g' \<Longrightarrow>
    intake_run z P E V t0 (es @ [SlotsMoved]) (t\<lparr>the_slots := g'\<rparr>) h"

lemma take_some:
  assumes "intake_inv s h" "take_entry s = (Some i, s')"
  shows "i = h" "h < length (entries s)" "intake_inv s' (Suc h)" "list_all2 same_but_next (entries s') (entries s)"
  using take_inv [OF assms] by auto

lemma take_none: "intake_inv s h \<Longrightarrow> take_entry s = (None, s') \<Longrightarrow> s' = s \<and> h = length (entries s)"
  using take_inv [of s h None s'] by simp

lemma intake_run_inv:
  assumes "intake_run z P E V t0 es t h" "intake_inv (the_store t0) 0" "sizes_ok z"
  shows "intake_inv (the_store t) h"
  using assms
proof (induction rule: intake_run.induct)
  case (intake_close es t h)
  then show ?case
    using close_inv [of "the_store t" h] by simp
qed (auto intro: offer_inv release_inv reserve_inv give_back_charge dest: take_some take_none)

lemma close_store_fields [simp]: "LimitBytes (close_store s) = LimitBytes s" "Closed (close_store s)"
  "Exhausted (close_store s) = Exhausted s"
proof -
  have loop: "LimitBytes (close_loop fuel e s) = LimitBytes s \<and> Closed (close_loop fuel e s) = Closed s
    \<and> Exhausted (close_loop fuel e s) = Exhausted s" for fuel e s
    by (induction fuel e s rule: close_loop.induct) (simp_all add: Let_def)
  then show "LimitBytes (close_store s) = LimitBytes s" "Closed (close_store s)" "Exhausted (close_store s) = Exhausted s"
    by (simp_all add: close_store_def)
qed

text \<open>What a call leaves of the limit, the closing and the diagnostic.\<close>

lemma offer_flags:
  assumes "intake_inv s h" "sizes_ok z" "offer z P s ls g x = Some (err, s', ls', g')"
  shows "LimitBytes s' = LimitBytes s" "Closed s' = Closed s" "Exhausted s' \<longleftrightarrow> Exhausted s \<or> err = Some ErrLimit"
  using assms(3) by (cases x; auto simp: offer_eq [OF assms(1,2)] append_fields split: if_splits)+

lemma take_flags: "take_entry s = (e, s') \<Longrightarrow>
    LimitBytes s' = LimitBytes s \<and> Closed s' = Closed s \<and> Exhausted s' = Exhausted s"
  by (auto simp: take_entry_def Let_def split: option.splits if_splits)

lemma release_flags: "release_as P s g e path = (s', g') \<Longrightarrow>
    LimitBytes s' = LimitBytes s \<and> Closed s' = Closed s \<and> Exhausted s' = Exhausted s"
  by (auto simp: release_as_def Let_def split: option.splits if_splits)

lemma reserve_flags: "reserve s who n = (ok, s') \<Longrightarrow>
    LimitBytes s' = LimitBytes s \<and> Closed s' = Closed s \<and> Exhausted s' = Exhausted s \<and> entries s' = entries s"
  by (auto simp: reserve_def split: if_splits)

lemma give_back_flags: "LimitBytes (give_back s who n) = LimitBytes s \<and> Closed (give_back s who n) = Closed s
    \<and> Exhausted (give_back s who n) = Exhausted s \<and> entries (give_back s who n) = entries s"
  by (simp add: give_back_def split: owner.splits)

lemma intake_run_flags:
  assumes "intake_run z P E V t0 es t h" "intake_inv (the_store t0) 0" "sizes_ok z"
  shows "LimitBytes (the_store t) = LimitBytes (the_store t0)
    \<and> (Closed (the_store t) \<longleftrightarrow> Closed (the_store t0) \<or> ClosedStore \<in> set es)
    \<and> (Exhausted (the_store t) \<longleftrightarrow> Exhausted (the_store t0) \<or> (\<exists>x. Offered x (Some ErrLimit) \<in> set es))"
  using assms
proof (induction rule: intake_run.induct)
  case (intake_offer es t h x err s' ls' g')
  then have "intake_inv (the_store t) h" by (blast intro: intake_run_inv)
  from offer_flags [OF this intake_offer(6,3)] intake_offer show ?case by auto
qed (use give_back_flags in \<open>auto dest: take_flags release_flags reserve_flags\<close>)

section \<open>Properties\<close>

definition at_start :: "store \<Rightarrow> 'g \<Rightarrow> 'g intake_state" where
  "at_start s g = \<lparr>the_store = s, the_losses = no_losses, the_slots = g\<rparr>"

text \<open>
  C13: The store never holds more than its limit.  After any sequence of callbacks, takes,
  releases, reservations, returns and closes, the bytes of the entries not released plus the
  Parsing and Policy charges are at most the limit, the byte count is exactly the sum over
  those entries (no sum wrapped), the queued and leased counts are their number, and the
  exhaustion signal is closed exactly when some input was refused with \<open>ErrLimit\<close>.
\<close>

theorem intake_within_limit:
  assumes "new_store limit = Inr s0" "limit < half64" "sizes_ok z"
    and "intake_run z P E V (at_start s0 g0) es t h"
  defines "s \<equiv> the_store t"
  shows "0 \<le> StoredBytes s \<and> 0 \<le> ParsingCharge s \<and> 0 \<le> PolicyCharge s
    \<and> StoredBytes s + ParsingCharge s + PolicyCharge s \<le> limit
    \<and> StoredBytes s = live_bytes (entries s) \<and> Queued s + Leased s = live_count (entries s)
    \<and> int (left s) = limit - (StoredBytes s + ParsingCharge s + PolicyCharge s)
    \<and> (exhausted_signal s = ClosedChannel \<longleftrightarrow> (\<exists>x. Offered x (Some ErrLimit) \<in> set es))"
proof -
  have start: "intake_inv (the_store (at_start s0 g0)) 0"
    using new_store_inv assms(1,2) by (simp add: at_start_def)
  note inv = intake_run_inv [OF assms(4) start assms(3), folded s_def]
  note flags = intake_run_flags [OF assms(4) start assms(3), folded s_def]
  have s0: "LimitBytes s0 = limit" "\<not> Exhausted s0"
    using assms(1) by (auto simp: new_store_def zero_store_def split: if_splits)
  have acc: "accounts s h" using inv by (simp add: intake_inv_def)
  have "0 \<le> StoredBytes s"
    using acc live_bytes_nonneg by (simp add: accounts_def)
  with acc flags s0 queue_counts [OF inv] left_eq(1) [OF acc] show ?thesis
    by (auto simp: accounts_def at_start_def exhausted_signal_def)
qed

definition sample_sizes :: intake_sizes where
  "sample_sizes = \<lparr>size_entry = 72, size_fragment = 400, size_connection = 500, size_association = 300,
     size_placement = 80, size_early = 16, size_descriptor = 8\<rparr>"

definition no_slots :: "unit slot_ops" where
  "no_slots = \<lparr>Keep = (\<lambda>g _. g), Kept = (\<lambda>_ _. False), Refund = (\<lambda>g _ _. (False, g))\<rparr>"

lemma sample_intake_run:
  "\<exists>s0 t es. new_store 400 = Inr s0 \<and> intake_run sample_sizes no_slots (\<lambda>_ _. False) (\<lambda>_ _. True) (at_start s0 ()) es t 0
    \<and> es = [Offered (ConnectionInput (sample_connection [])) (Some ErrLimit)]"
proof -
  obtain s0 where s0: "new_store 400 = Inr s0" by (simp add: new_store_def)
  then have inv: "intake_inv s0 0" by (rule new_store_inv) simp
  have ok: "sizes_ok sample_sizes" by (simp add: sizes_ok_def sample_sizes_def)
  have "left s0 = 400"
    using s0 by (auto simp: new_store_def zero_store_def left_def wrap64_bounds)
  moreover have "\<not> Closed s0"
    using s0 by (auto simp: new_store_def zero_store_def)
  ultimately obtain s' ls' g' where
    "offer sample_sizes no_slots s0 no_losses () (ConnectionInput (sample_connection [])) = Some (Some ErrLimit, s', ls', g')"
    using offer_eq [OF inv ok, of no_slots no_losses "()" "ConnectionInput (sample_connection [])"]
    by (simp add: connection_adds_def sample_sizes_def)
  then have "intake_run sample_sizes no_slots (\<lambda>_ _. False) (\<lambda>_ _. True) (at_start s0 ())
      ([] @ [Offered (ConnectionInput (sample_connection [])) (Some ErrLimit)])
      \<lparr>the_store = s', the_losses = ls', the_slots = g'\<rparr> 0"
    by (intro intake_offer [OF intake_start]) (auto simp: at_start_def may_offer_def split: option.splits)
  with s0 show ?thesis by auto
qed

theorem intake_within_limit_witness:
  "\<exists>s :: store. StoredBytes s + ParsingCharge s + PolicyCharge s \<le> 400 \<and> exhausted_signal s = ClosedChannel"
proof -
  obtain s0 t where s0: "new_store 400 = Inr s0"
    and run: "intake_run sample_sizes no_slots (\<lambda>_ _. False) (\<lambda>_ _. True) (at_start s0 ())
      [Offered (ConnectionInput (sample_connection [])) (Some ErrLimit)] t 0"
    using sample_intake_run by blast
  have "sizes_ok sample_sizes" by (simp add: sizes_ok_def sample_sizes_def)
  from intake_within_limit [OF s0 _ this run] show ?thesis by auto
qed

text \<open>The inputs a history accepted, and the entries it took, each in order.\<close>

fun accepted_inputs :: "intake_event list \<Rightarrow> input list" where
  "accepted_inputs [] = []"
| "accepted_inputs (Offered x None # es) = x # accepted_inputs es"
| "accepted_inputs (_ # es) = accepted_inputs es"

fun taken_entries :: "intake_event list \<Rightarrow> (nat \<times> entry) list" where
  "taken_entries [] = []"
| "taken_entries (Took (Some e) # es) = e # taken_entries es"
| "taken_entries (_ # es) = taken_entries es"

lemma accepted_append [simp]: "accepted_inputs (xs @ ys) = accepted_inputs xs @ accepted_inputs ys"
  by (induction xs rule: accepted_inputs.induct) auto

lemma taken_append [simp]: "taken_entries (xs @ ys) = taken_entries xs @ taken_entries ys"
  by (induction xs rule: taken_entries.induct) auto

text \<open>The entry an accepted input became, until it is released.\<close>

definition holds_input :: "intake_sizes \<Rightarrow> input \<Rightarrow> entry \<Rightarrow> bool" where
  "holds_input z x e \<longleftrightarrow>
     same_but_next e ((input_entry x)\<lparr>en_bytes := int (cost (input_adds z x))\<rparr>)"

lemma same_but_next_trans: "same_but_next a b \<Longrightarrow> same_but_next b c \<Longrightarrow> same_but_next a c"
  by (simp add: same_but_next_def)

lemma offer_entries:
  assumes "intake_inv s h" "sizes_ok z" "offer z P s ls g x = Some (err, s', ls', g')"
  shows "err \<noteq> None \<Longrightarrow> entries s' = entries s \<and> g' = g"
    "err = None \<Longrightarrow> \<not> Closed s \<and> g' = keep_slot P g (input_slot x) \<and>
      list_all2 same_but_next (entries s') (entries s @ [(input_entry x)\<lparr>en_bytes := int (cost (input_adds z x))\<rparr>])"
  using assms(3) append_entries [of s h "input_entry x" "int (cost (input_adds z x))"] assms(1)
  by (cases x; auto simp: offer_eq [OF assms(1,2)] intake_inv_def split: if_splits)+

definition fifo :: "intake_sizes \<Rightarrow> intake_event list \<Rightarrow> store \<Rightarrow> nat \<Rightarrow> bool" where
  "fifo z es s h \<longleftrightarrow>
     length (entries s) = length (accepted_inputs es)
   \<and> (\<forall>i < length (entries s). h \<le> i \<longrightarrow> holds_input z (accepted_inputs es ! i) (entries s ! i))
   \<and> map fst (taken_entries es) = [0 ..< length (taken_entries es)]
   \<and> length (taken_entries es) \<le> length (accepted_inputs es)
   \<and> (\<forall>k < length (taken_entries es). holds_input z (accepted_inputs es ! k) (snd (taken_entries es ! k)))
   \<and> (if Closed s then h = length (entries s) else length (taken_entries es) = h)"

lemma fifo_same:
  assumes "fifo z es s h" "accepted_inputs es' = accepted_inputs es" "taken_entries es' = taken_entries es"
    and "Closed s' = Closed s" "length (entries s') = length (entries s)"
    and "\<And>i. h \<le> i \<Longrightarrow> i < length (entries s) \<Longrightarrow> entries s' ! i = entries s ! i"
  shows "fifo z es' s' h"
  using assms unfolding fifo_def by auto

lemma fifo_offer:
  assumes "fifo z es s h" "intake_inv s h" "sizes_ok z" "offer z P s ls g x = Some (err, s', ls', g')"
  shows "fifo z (es @ [Offered x err]) s' h"
proof (cases err)
  case None
  let ?e = "(input_entry x)\<lparr>en_bytes := int (cost (input_adds z x))\<rparr>"
  have h: "h \<le> length (entries s)"
    using assms(2) by (simp add: intake_inv_def chained_def Let_def)
  have new: "\<not> Closed s" "list_all2 same_but_next (entries s') (entries s @ [?e])"
    using offer_entries(2) [OF assms(2-4) None] by auto
  then have len: "length (entries s') = Suc (length (entries s))"
    and nth: "\<And>i. i \<le> length (entries s) \<Longrightarrow> same_but_next (entries s' ! i) ((entries s @ [?e]) ! i)"
    by (auto simp: list_all2_conv_all_nth)
  have old: "holds_input z (accepted_inputs es ! i) (entries s' ! i)" if "h \<le> i" "i < length (entries s)" for i
    using nth [of i] that assms(1) by (auto simp: fifo_def holds_input_def nth_append intro: same_but_next_trans)
  have "holds_input z x (entries s' ! length (entries s))"
    using nth [of "length (entries s)"] by (simp add: holds_input_def)
  with old assms(1) len new(1) h None offer_flags(2) [OF assms(2-4)] show ?thesis
    by (auto simp: fifo_def nth_append less_Suc_eq)
next
  case (Some e)
  with offer_entries(1) [OF assms(2-4)] offer_flags(2) [OF assms(2-4)] assms(1) show ?thesis
    by (intro fifo_same [OF assms(1)]) auto
qed

lemma fifo_take:
  assumes "fifo z es s h" "intake_inv s h" "take_entry s = (Some i, s')"
  shows "fifo z (es @ [Took (Some (i, entries s ! i))]) s' (Suc h)"
proof -
  note t = take_some [OF assms(2,3)]
  have m: "length (taken_entries es) = h"
    using assms(1) t(2) by (auto simp: fifo_def split: if_splits)
  have nth: "same_but_next (entries s' ! j) (entries s ! j)" "length (entries s') = length (entries s)"
    if "j < length (entries s)" for j
    using t(4) that by (auto simp: list_all2_conv_all_nth)
  have "holds_input z (accepted_inputs es ! j) (entries s' ! j)" if "h \<le> j" "j < length (entries s)" for j
    using nth(1) [OF that(2)] that assms(1) by (auto simp: fifo_def holds_input_def intro: same_but_next_trans)
  moreover have "length (entries s') = length (entries s)"
    using t(4) by (simp add: list_all2_lengthD)
  moreover have "\<not> Closed s'"
    using assms(1) t(2) take_flags [OF assms(3)] by (auto simp: fifo_def split: if_splits)
  ultimately show ?thesis
    using assms(1) t(1,2) m by (auto simp: fifo_def nth_append less_Suc_eq)
qed

lemma intake_run_fifo:
  assumes "intake_run z P E V t0 es t h" "intake_inv (the_store t0) 0" "sizes_ok z" "entries (the_store t0) = []"
  shows "fifo z es (the_store t) h"
  using assms
proof (induction rule: intake_run.induct)
  case intake_start
  then show ?case by (simp add: fifo_def)
next
  case (intake_offer es t h x err s' ls' g')
  then show ?case
    using fifo_offer [OF _ intake_run_inv [OF intake_offer(1,5,6)] intake_offer(6,3)] by simp
next
  case (intake_take es t h i s')
  then show ?case
    using fifo_take [OF _ intake_run_inv [OF intake_take(1,4,5)] intake_take(2)] by simp
next
  case (intake_take_none es t h s')
  then show ?case
    using take_none [OF intake_run_inv [OF intake_take_none(1,4,5)] intake_take_none(2)]
    by (auto intro: fifo_same)
next
  case (intake_release es t h i path s' g')
  then show ?case
    using release_flags [OF intake_release(3)]
    by (auto simp: release_as_def Let_def nth_list_update intro!: fifo_same [of z es "the_store t" h] split: if_splits)
next
  case (intake_reserve es t h who n ok s')
  then show ?case
    using reserve_flags [OF intake_reserve(2)] by (auto intro: fifo_same)
next
  case (intake_return es t h n who)
  then show ?case
    using give_back_flags by (auto intro: fifo_same)
next
  case (intake_close es t h)
  note inv = intake_run_inv [OF intake_close(1,3,4)]
  from intake_close close_inv(2) [OF inv] show ?case
    by (auto simp: fifo_def)
next
  case (intake_slots es t h g')
  then show ?case by (auto intro: fifo_same)
qed

text \<open>
  Which entries behind the queue are released: those their worker released, and those \<open>Close\<close>
  discarded before they were taken.  A worker releases only what lies behind the queue.
\<close>

definition leases :: "intake_event list \<Rightarrow> store \<Rightarrow> nat \<Rightarrow> bool" where
  "leases es s h \<longleftrightarrow> (\<forall>i path. ReleasedEntry i path \<in> set es \<longrightarrow> i < h)
     \<and> (\<forall>i < h. en_released (entries s ! i) \<longleftrightarrow>
          (\<exists>path. ReleasedEntry i path \<in> set es) \<or> length (taken_entries es) \<le> i)"

lemma leases_same:
  assumes "leases es s h" "\<And>i path. ReleasedEntry i path \<in> set es' \<longleftrightarrow> ReleasedEntry i path \<in> set es"
    "taken_entries es' = taken_entries es" "\<And>i. i < h \<Longrightarrow> en_released (entries s' ! i) = en_released (entries s ! i)"
  shows "leases es' s' h"
  using assms by (simp add: leases_def)

lemma leases_take:
  assumes "leases es s h" "length (taken_entries es) = h" "\<not> en_released (entries s ! h)"
    "\<And>j. j \<le> h \<Longrightarrow> en_released (entries s' ! j) = en_released (entries s ! j)"
  shows "leases (es @ [Took (Some (h, e))]) s' (Suc h)"
proof -
  have below: "ReleasedEntry i path \<in> set es \<Longrightarrow> i < h" for i path
    using assms(1) unfolding leases_def by blast
  have "en_released (entries s' ! i) \<longleftrightarrow> (\<exists>path. ReleasedEntry i path \<in> set es)" if "i < Suc h" for i
  proof (cases "i = h")
    case True
    with assms(3,4) below show ?thesis by blast
  next
    case False
    with that assms show ?thesis by (simp add: leases_def)
  qed
  with below assms(2) show ?thesis by (simp add: leases_def less_SucI)
qed

lemma leases_release:
  assumes "leases es s h" "i < h" "h \<le> length (entries s)" "release_as P s g (Some i) path = (s', g')"
  shows "leases (es @ [ReleasedEntry i path]) s' h"
proof -
  have "en_released (entries s' ! j) \<longleftrightarrow> j = i \<or> en_released (entries s ! j)" if "j < h" for j
    using assms(2-4) that by (auto simp: release_as_def Let_def nth_list_update split: if_splits)
  with assms(1,2) show ?thesis by (auto simp: leases_def)
qed

lemma leases_close:
  assumes "leases es s h" "intake_inv s h" "length (taken_entries es) \<le> h"
  shows "leases (es @ [ClosedStore]) (close_store s) (length (entries s))"
proof -
  have h: "h \<le> length (entries s)" using assms(2) by (simp add: intake_inv_def chained_def Let_def)
  have below: "ReleasedEntry i path \<in> set es \<Longrightarrow> i < h" for i path
    using assms(1) unfolding leases_def by blast
  have "en_released (entries (close_store s) ! i) \<longleftrightarrow> (\<exists>path. ReleasedEntry i path \<in> set es) \<or> length (taken_entries es) \<le> i"
    if "i < length (entries s)" for i
  proof (cases "i < h")
    case True
    with assms(1) h show ?thesis by (simp add: leases_def close_store_eq [OF assms(2)] nth_append)
  next
    case False
    with assms(3) h that show ?thesis by (simp add: close_store_eq [OF assms(2)] nth_append discard_def)
  qed
  with below h show ?thesis by (auto simp: leases_def intro: less_le_trans)
qed

lemma intake_run_leases:
  assumes "intake_run z P E V t0 es t h" "intake_inv (the_store t0) 0" "sizes_ok z" "entries (the_store t0) = []"
  shows "leases es (the_store t) h"
  using assms
proof (induction rule: intake_run.induct)
  case intake_start
  then show ?case by (simp add: leases_def)
next
  case (intake_offer es t h x err s' ls' g')
  note inv = intake_run_inv [OF intake_offer(1,5,6)]
  have h: "h \<le> length (entries (the_store t))" using inv by (simp add: intake_inv_def chained_def Let_def)
  have "en_released (entries s' ! i) = en_released (entries (the_store t) ! i)" if "i < h" for i
  proof (cases err)
    case None
    let ?e = "(input_entry x)\<lparr>en_bytes := int (cost (input_adds z x))\<rparr>"
    have "same_but_next (entries s' ! i) ((entries (the_store t) @ [?e]) ! i)"
      using offer_entries(2) [OF inv intake_offer(6,3) None] h that by (auto simp: list_all2_conv_all_nth)
    from same_but_nextD [OF this] h that show ?thesis by (simp add: nth_append)
  next
    case (Some e)
    with offer_entries(1) [OF inv intake_offer(6,3)] show ?thesis by simp
  qed
  with leases_same [OF intake_offer.IH [OF intake_offer(5-7)], of "es @ [Offered x err]" s'] show ?case
    by (cases err) simp_all
next
  case (intake_take es t h i s')
  note inv = intake_run_inv [OF intake_take(1,4,5)]
  note took = take_some [OF inv intake_take(2)]
  have "length (taken_entries es) = h"
    using intake_run_fifo [OF intake_take(1,4-6)] took(2) by (auto simp: fifo_def split: if_splits)
  moreover have "en_released (entries s' ! j) = en_released (entries (the_store t) ! j)" if "j \<le> h" for j
    using took(2,4) that same_but_nextD [of "entries s' ! j" "entries (the_store t) ! j"] by (simp add: list_all2_conv_all_nth)
  moreover have "\<not> en_released (entries (the_store t) ! h)"
    using inv took(2) by (simp add: intake_inv_def chained_def Let_def)
  ultimately show ?case
    using leases_take [OF intake_take.IH [OF intake_take(4-6)]] took(1) by simp
next
  case (intake_take_none es t h s')
  then have "s' = the_store t"
    using take_none [OF intake_run_inv [OF intake_take_none(1,4,5)] intake_take_none(2)] by simp
  with leases_same [OF intake_take_none.IH [OF intake_take_none.prems], of "es @ [Took None]" s'] show ?case by simp
next
  case (intake_release es t h i path s' g')
  have "h \<le> length (entries (the_store t))"
    using intake_run_inv [OF intake_release(1,5,6)] by (simp add: intake_inv_def chained_def Let_def)
  from leases_release [OF intake_release.IH [OF intake_release(5-7)] intake_release(2) this intake_release(3)]
  show ?case by simp
next
  case (intake_reserve es t h who n ok s')
  from leases_same [OF intake_reserve.IH [OF intake_reserve.prems], of "es @ [Reserved who n ok]" s'] show ?case
    using reserve_flags [OF intake_reserve(2)] by simp
next
  case (intake_return es t h n who)
  from leases_same [OF intake_return.IH [OF intake_return.prems], of "es @ [GaveBack who n]" "give_back (the_store t) who n"]
  show ?case using give_back_flags by simp
next
  case (intake_close es t h)
  have "length (taken_entries es) \<le> h"
    using intake_run_fifo [OF intake_close(1,3-5)] by (auto simp: fifo_def split: if_splits)
  from leases_close [OF intake_close.IH [OF intake_close(3-5)] intake_run_inv [OF intake_close(1,3,4)] this]
  show ?case by simp
next
  case (intake_slots es t h g')
  from leases_same [OF intake_slots.IH [OF intake_slots.prems], of "es @ [SlotsMoved]" "the_store t"] show ?case by simp
qed

text \<open>
  C15: The linked list is a queue.  The entries taken are the accepted inputs in the order of
  their callbacks, each once, whole and unchanged: the \<open>k\<close>-th entry \<open>Take\<close> returned holds
  the \<open>k\<close>-th accepted record (its slot moved into the entry) and is charged that record's
  cost.  In any reachable state \<open>Take\<close> returns none exactly when everything accepted was taken or the
  store was closed, which discards what was still queued; otherwise it returns the next one accepted.
\<close>

theorem intake_is_fifo:
  assumes "new_store limit = Inr s0" "limit < half64" "sizes_ok z"
    and "intake_run z P E V (at_start s0 g0) es t h"
  shows "map fst (taken_entries es) = [0 ..< length (taken_entries es)]
    \<and> length (taken_entries es) \<le> length (accepted_inputs es)
    \<and> (\<forall>k < length (taken_entries es). holds_input z (accepted_inputs es ! k) (snd (taken_entries es ! k)))
    \<and> fst (take_entry (the_store t)) =
        (if ClosedStore \<in> set es \<or> length (taken_entries es) = length (accepted_inputs es) then None
         else Some (length (taken_entries es)))
    \<and> (ClosedStore \<notin> set es \<longrightarrow> (\<forall>k < length (accepted_inputs es). length (taken_entries es) \<le> k \<longrightarrow>
          holds_input z (accepted_inputs es ! k) (entries (the_store t) ! k)))"
proof -
  have start: "intake_inv (the_store (at_start s0 g0)) 0"
    using new_store_inv assms(1,2) by (simp add: at_start_def)
  have s0: "entries s0 = []" "\<not> Closed s0"
    using assms(1) by (auto simp: new_store_def zero_store_def split: if_splits)
  note inv = intake_run_inv [OF assms(4) start assms(3)]
  have f: "fifo z es (the_store t) h"
    using intake_run_fifo [OF assms(4) start assms(3)] s0 by (simp add: at_start_def)
  have closed: "Closed (the_store t) \<longleftrightarrow> ClosedStore \<in> set es"
    using intake_run_flags [OF assms(4) start assms(3)] s0 by (simp add: at_start_def)
  have h: "head (the_store t) = (if h < length (entries (the_store t)) then Some h else None)"
    "h \<le> length (entries (the_store t))"
    using inv by (simp_all add: intake_inv_def chained_def Let_def)
  have "fst (take_entry (the_store t)) = head (the_store t)"
    by (auto simp: take_entry_def Let_def split: option.splits)
  with f closed h show ?thesis
    by (auto simp: fifo_def split: if_splits)
qed

lemma sample_take_run:
  obtains s0 t e where "new_store 4000 = Inr s0"
    "intake_run sample_sizes no_slots (\<lambda>_ _. False) (\<lambda>_ _. True) (at_start s0 ())
      [Offered (ConnectionInput (sample_connection [])) None, Took (Some (0, e))] t 1"
proof -
  let ?x = "ConnectionInput (sample_connection [])"
  obtain s0 where s0: "new_store 4000 = Inr s0" by (simp add: new_store_def)
  then have inv: "intake_inv s0 0" by (rule new_store_inv) simp
  have ok: "sizes_ok sample_sizes" by (simp add: sizes_ok_def sample_sizes_def)
  have "left s0 = 4000" "\<not> Closed s0"
    using s0 by (auto simp: new_store_def zero_store_def left_def wrap64_bounds)
  then obtain s1 g1 where one: "offer sample_sizes no_slots s0 no_losses () ?x = Some (None, s1, no_losses, g1)"
    using offer_eq [OF inv ok, of no_slots no_losses "()" ?x]
    by (simp add: connection_adds_def association_adds_def sample_sizes_def sample_connection_def
        sample_association_def sample_instance_def counted_def at_address_def)
  have inv1: "intake_inv s1 0"
    using offer_inv [OF inv ok one] .
  obtain e s2 where two: "take_entry s1 = (e, s2)" by fastforce
  have "0 < length (entries s1)"
    using offer_entries(2) [OF inv ok one] by (auto simp: list_all2_lengthD)
  with take_inv [OF inv1 two] have "e = Some 0" by auto
  with two have two: "take_entry s1 = (Some 0, s2)" by simp
  let ?t1 = "\<lparr>the_store = s1, the_losses = no_losses, the_slots = g1\<rparr>"
  have "intake_run sample_sizes no_slots (\<lambda>_ _. False) (\<lambda>_ _. True) (at_start s0 ()) ([] @ [Offered ?x None]) ?t1 0"
    using one by (intro intake_offer [OF intake_start]) (auto simp: at_start_def may_offer_def split: option.splits)
  from intake_take [OF this, of 0 s2] two s0 that show thesis by simp
qed

theorem intake_is_fifo_witness:
  "\<exists>s0 t e. new_store 4000 = Inr s0
    \<and> intake_run sample_sizes no_slots (\<lambda>_ _. False) (\<lambda>_ _. True) (at_start s0 ())
        [Offered (ConnectionInput (sample_connection [])) None, Took (Some (0, e))] t 1
    \<and> holds_input sample_sizes (ConnectionInput (sample_connection [])) e \<and> fst (take_entry (the_store t)) = None"
proof -
  obtain s0 t e where s0: "new_store 4000 = Inr s0"
    and run: "intake_run sample_sizes no_slots (\<lambda>_ _. False) (\<lambda>_ _. True) (at_start s0 ())
      [Offered (ConnectionInput (sample_connection [])) None, Took (Some (0, e))] t 1"
    by (rule sample_take_run)
  have "sizes_ok sample_sizes" by (simp add: sizes_ok_def sample_sizes_def)
  from intake_is_fifo [OF s0 _ this run] have "holds_input sample_sizes (ConnectionInput (sample_connection [])) e"
    "fst (take_entry (the_store t)) = None" by auto
  with s0 run show ?thesis by blast
qed

text \<open>
  C30: An input is taken whole or refused whole, by its exact cost.  In any reachable state a callback
  never panics; it is accepted exactly when the store is open and the sizes of the record's parts
  add up to no more than the limit has left beside every entry and work charge.  A refusal stores
  nothing, keeps no slot and counts once; a refusal for want of room also stops the record's own
  connection through its loss token, and no other.
\<close>

theorem intake_takes_exactly_what_fits:
  assumes "new_store limit = Inr s0" "limit < half64" "sizes_ok z"
    and "intake_run z P E V (at_start s0 g0) es t h"
  defines "s \<equiv> the_store t"
  shows "\<exists>err s' ls' g'. offer z P s (the_losses t) (the_slots t) x = Some (err, s', ls', g')
    \<and> (err = None \<longleftrightarrow> ClosedStore \<notin> set es
         \<and> int (cost (input_adds z x)) \<le> limit - (StoredBytes s + ParsingCharge s + PolicyCharge s))
    \<and> (err = None \<longrightarrow> StoredBytes s' = StoredBytes s + int (cost (input_adds z x)))
    \<and> (err \<noteq> None \<longrightarrow> entries s' = entries s \<and> StoredBytes s' = StoredBytes s \<and> g' = the_slots t)
    \<and> ls' = (if err = Some ErrLimit then loss_stop (the_losses t) (input_loss x) ''intake_exhausted'' else the_losses t)"
proof -
  have start: "intake_inv (the_store (at_start s0 g0)) 0"
    using new_store_inv assms(1,2) by (simp add: at_start_def)
  note inv = intake_run_inv [OF assms(4) start assms(3), folded s_def]
  note flags = intake_run_flags [OF assms(4) start assms(3), folded s_def]
  have s0: "LimitBytes s0 = limit" "\<not> Closed s0"
    using assms(1) by (auto simp: new_store_def zero_store_def split: if_splits)
  then have closed: "Closed s \<longleftrightarrow> ClosedStore \<in> set es" and limit: "LimitBytes s = limit"
    using flags by (simp_all add: at_start_def)
  have acc: "accounts s h" using inv by (simp add: intake_inv_def)
  obtain err s' ls' g' where off: "offer z P s (the_losses t) (the_slots t) x = Some (err, s', ls', g')"
    using offer_eq [OF inv assms(3)] by (metis prod_cases4)
  have inv': "accounts s' h"
    using offer_inv [OF inv assms(3) off] by (simp add: intake_inv_def)
  have bytes: "StoredBytes s' = StoredBytes s + int (cost (input_adds z x))" if "err = None"
  proof -
    have "live_bytes (entries s') = live_bytes (entries s) + int (cost (input_adds z x))"
      using same_but_next_sums(1) offer_entries(2) [OF inv assms(3) off that] by fastforce
    with acc inv' show ?thesis by (simp add: accounts_def)
  qed
  have refused: "entries s' = entries s \<and> StoredBytes s' = StoredBytes s \<and> g' = the_slots t" if "err \<noteq> None"
    using offer_entries(1) [OF inv assms(3) off that] acc inv' by (simp add: accounts_def)
  have "err = None \<longleftrightarrow> \<not> Closed s \<and> cost (input_adds z x) \<le> left s"
    "ls' = (if err = Some ErrLimit then loss_stop (the_losses t) (input_loss x) ''intake_exhausted'' else the_losses t)"
    using off by (auto simp: offer_eq [OF inv assms(3)] split: if_splits)
  moreover have "cost (input_adds z x) \<le> left s \<longleftrightarrow>
      int (cost (input_adds z x)) \<le> limit - (StoredBytes s + ParsingCharge s + PolicyCharge s)"
    using left_eq(1) [OF acc] limit by linarith
  ultimately show ?thesis
    using off bytes refused closed by blast
qed

theorem intake_takes_exactly_what_fits_witness:
  "\<exists>err s' ls' g'. offer sample_sizes no_slots (zero_store\<lparr>LimitBytes := 400, exhausted := OpenChannel\<rparr>)
     no_losses () (ConnectionInput (sample_connection [])) = Some (err, s', ls', g') \<and> err \<noteq> None \<and> entries s' = []"
proof -
  let ?s = "zero_store\<lparr>LimitBytes := 400, exhausted := OpenChannel\<rparr>" and ?x = "ConnectionInput (sample_connection [])"
  have s0: "new_store 400 = Inr ?s" by (simp add: new_store_def)
  have ok: "sizes_ok sample_sizes" by (simp add: sizes_ok_def sample_sizes_def)
  note run = intake_start [of sample_sizes no_slots "\<lambda>_ _. False" "\<lambda>_ _. True" "at_start ?s ()"]
  have big: "\<not> int (cost (input_adds sample_sizes ?x)) \<le> 400 - (StoredBytes ?s + ParsingCharge ?s + PolicyCharge ?s)"
    by (simp add: connection_adds_def sample_sizes_def zero_store_def)
  have start: "the_store (at_start ?s ()) = ?s" "the_losses (at_start ?s ()) = no_losses"
    "the_slots (at_start ?s ()) = ()" "entries ?s = []"
    by (simp_all add: at_start_def zero_store_def)
  obtain err s' ls' g' where "offer sample_sizes no_slots ?s no_losses () ?x = Some (err, s', ls', g')"
    "err = None \<longleftrightarrow> False" "err \<noteq> None \<longrightarrow> entries s' = []"
    using intake_takes_exactly_what_fits [OF s0 _ ok run, of ?x] big unfolding start by auto
  then show ?thesis by blast
qed

end
