(* ===== verification/Delivery_Gate.thy ===== *)
theory Delivery_Gate
  imports Held "HOL-Library.Word"
begin

text \<open>
  The delivery gate of package \<open>probe\<close> (\<open>delivery_gate.go\<close>, \<open>gate_reason.go\<close>): the bound on
  decoded events held at once, capture-wide invalidation and the authorization of results.

  Every operation of the gate runs under its one lock, so a concurrent history is a sequence
  of whole operations: the step relation \<open>gate_step\<close>, with the observable outcome of each
  call as its label.  The counters are \<open>64 word\<close>s and wrap as the source's do.  The slots a
  gate issued are objects of the heap: \<open>gate_slots\<close> lists them in the order they were issued
  and a reference is a position.  Closing a channel that is closed or nil panics in Go;
  \<open>None\<close> is the panic, and the invariant shows it is never reached.
\<close>

section \<open>Reasons\<close>

type_synonym gate_reason = string

definition GateInputLimit :: gate_reason where "GateInputLimit = ''input_limit''"
definition GateIntakeExhausted :: gate_reason where "GateIntakeExhausted = ''intake_exhausted''"
definition GateUnknownLength :: gate_reason where "GateUnknownLength = ''unknown_length''"
definition GateUnknownKind :: gate_reason where "GateUnknownKind = ''unknown_kind''"
definition GateUnsettled :: gate_reason where "GateUnsettled = ''unsettled''"
definition GateUninitialized :: gate_reason where "GateUninitialized = ''uninitialized''"

lemmas gate_reason_defs = GateInputLimit_def GateIntakeExhausted_def GateUnknownLength_def
  GateUnknownKind_def GateUnsettled_def GateUninitialized_def

definition gate_reason_classes :: "(gate_reason \<times> bool) list" where
  "gate_reason_classes =
    [(GateInputLimit, False), (GateIntakeExhausted, False), (GateUnknownLength, True),
     (GateUnknownKind, True), (GateUnsettled, False), (GateUninitialized, False)]"

definition gate_reasons :: "gate_reason list" where
  "gate_reasons = map fst gate_reason_classes"

fun class_of :: "(gate_reason \<times> bool) list \<Rightarrow> gate_reason \<Rightarrow> bool" where
  "class_of [] r = False"
| "class_of ((reason, invalidates) # rest) r = (if reason = r then invalidates else class_of rest r)"

definition invalidates_capture :: "gate_reason \<Rightarrow> bool" where
  "invalidates_capture r = class_of gate_reason_classes r"

definition gate_refusal :: "gate_reason \<Rightarrow> string" where
  "gate_refusal reason = ''an event the delivery gate refused under '' @ reason"

section \<open>The gate\<close>

type_synonym delivery_kind = "8 word"

definition DeliveryTransfer :: delivery_kind where "DeliveryTransfer = 1"
definition DeliveryClose :: delivery_kind where "DeliveryClose = 2"

record refunds =
  unretained :: "64 word"
  processed :: "64 word"
  discarded :: "64 word"
  cut :: "64 word"

definition refunds_of :: "refunds \<Rightarrow> path \<Rightarrow> 64 word" where
  "refunds_of r path =
    (if path = Unretained then unretained r
     else if path = Processed then processed r
     else if path = Discarded then discarded r
     else if path = Cut then cut r
     else 0)"

record gate_snapshot =
  MaxEvents :: "64 word"
  Charged :: "64 word"
  HeldEvents :: "64 word"
  Refunded :: refunds
  DoubleRefunds :: "64 word"
  InputRefused :: "64 word"
  Reason :: gate_reason

record slot =
  kept :: bool
  returned :: bool

record delivery_gate =
  max_events :: "64 word"
  charged :: "64 word"
  held_events :: "64 word"
  refunded :: refunds
  doubles :: "64 word"
  input_refused :: "64 word"
  reason :: gate_reason
  withdrawal :: channel
  gate_slots :: "slot list"

record admission_decision =
  Admitted :: bool
  ChargedSlot :: bool
  Slot :: "nat option"
  State :: gate_snapshot

record release_evidence =
  InputsSettled :: bool
  LifecycleSettled :: bool

record release_decision =
  Authorized :: bool
  Refused :: gate_reason

definition no_refunds :: refunds where
  "no_refunds = \<lparr>unretained = 0, processed = 0, discarded = 0, cut = 0\<rparr>"

definition zero_gate :: delivery_gate where
  "zero_gate = \<lparr>max_events = 0, charged = 0, held_events = 0, refunded = no_refunds, doubles = 0,
     input_refused = 0, reason = '''', withdrawal = NilChannel, gate_slots = []\<rparr>"

definition zero_snapshot :: gate_snapshot where
  "zero_snapshot = \<lparr>MaxEvents = 0, Charged = 0, HeldEvents = 0, Refunded = no_refunds,
     DoubleRefunds = 0, InputRefused = 0, Reason = ''''\<rparr>"

definition new_delivery_gate :: "64 word \<Rightarrow> string + delivery_gate" where
  "new_delivery_gate allowance =
    (if allowance = 0 then Inl ''delivery gate requires a positive event allowance''
     else Inr (zero_gate\<lparr>max_events := allowance, withdrawal := OpenChannel\<rparr>))"

definition snapshot_locked :: "delivery_gate \<Rightarrow> gate_snapshot" where
  "snapshot_locked g = \<lparr>MaxEvents = max_events g, Charged = charged g, HeldEvents = held_events g,
     Refunded = refunded g, DoubleRefunds = doubles g, InputRefused = input_refused g,
     Reason = reason g\<rparr>"

definition invalidate_locked :: "delivery_gate \<Rightarrow> gate_reason \<Rightarrow> delivery_gate option" where
  "invalidate_locked g r = map_option (\<lambda>w. g\<lparr>reason := r, withdrawal := w\<rparr>) (close_channel (withdrawal g))"

abbreviation refusal :: "gate_snapshot \<Rightarrow> admission_decision" where
  "refusal s \<equiv> \<lparr>Admitted = False, ChargedSlot = False, Slot = None, State = s\<rparr>"

text \<open>The branch of \<open>Admit\<close> at capacity, and the one that reserves.\<close>

definition admit_full :: "delivery_gate \<Rightarrow> delivery_kind \<Rightarrow> bool \<Rightarrow> (admission_decision \<times> delivery_gate) option" where
  "admit_full g kind measured =
    (if kind \<noteq> DeliveryTransfer \<and> kind \<noteq> DeliveryClose then
       map_option (\<lambda>g'. (refusal (snapshot_locked g'), g')) (invalidate_locked g GateUnknownKind)
     else if kind = DeliveryTransfer \<and> \<not> measured then
       map_option (\<lambda>g'. (refusal (snapshot_locked g'), g')) (invalidate_locked g GateUnknownLength)
     else if kind = DeliveryClose then
       Some (\<lparr>Admitted = True, ChargedSlot = False, Slot = None, State = snapshot_locked g\<rparr>, g)
     else
       (let g' = g\<lparr>input_refused := input_refused g + 1\<rparr> in
        Some (refusal ((snapshot_locked g')\<lparr>Reason := GateInputLimit\<rparr>), g')))"

definition admit_charged :: "delivery_gate \<Rightarrow> delivery_kind \<Rightarrow> bool \<Rightarrow> (admission_decision \<times> delivery_gate) option" where
  "admit_charged g kind measured =
    (let reserved = length (gate_slots g);
         g1 = g\<lparr>charged := charged g + 1, held_events := held_events g + 1,
                gate_slots := gate_slots g @ [\<lparr>kept = False, returned = False\<rparr>]\<rparr>;
         g2 = (if kind = DeliveryTransfer then
                 (if \<not> measured then invalidate_locked g1 GateUnknownLength else Some g1)
               else if kind = DeliveryClose then Some g1
               else invalidate_locked g1 GateUnknownKind)
     in map_option (\<lambda>g'. (\<lparr>Admitted = (reason g' = ''''), ChargedSlot = True, Slot = Some reserved,
                             State = snapshot_locked g'\<rparr>, g')) g2)"

definition gate_admit :: "delivery_gate \<Rightarrow> delivery_kind \<Rightarrow> bool \<Rightarrow> (admission_decision \<times> delivery_gate) option" where
  "gate_admit g kind measured =
    (if withdrawal g = NilChannel then
       Some (refusal (zero_snapshot\<lparr>Reason := GateUninitialized\<rparr>), g)
     else if reason g \<noteq> '''' then Some (refusal (snapshot_locked g), g)
     else if held_events g = max_events g then admit_full g kind measured
     else admit_charged g kind measured)"

text \<open>
  \<open>AuthorizeEnqueue\<close> runs the enqueue on a state of the caller's; \<open>None\<close> is a nil function.
  \<open>BeforeAuthorize\<close> runs before the lock is taken and touches nothing of the gate, so it is
  any number of other steps before this one.  A nil gate behaves as the zero gate in every
  operation (\<open>g == nil || g.withdrawal == nil\<close>).
\<close>

definition authorize_enqueue ::
    "delivery_gate \<Rightarrow> release_evidence \<Rightarrow> ('s \<Rightarrow> 's) option \<Rightarrow> 's \<Rightarrow> release_decision \<times> 's" where
  "authorize_enqueue g evidence enqueue s =
    (if withdrawal g = NilChannel then (\<lparr>Authorized = False, Refused = GateUninitialized\<rparr>, s)
     else if reason g \<noteq> '''' then (\<lparr>Authorized = False, Refused = reason g\<rparr>, s)
     else if \<not> InputsSettled evidence \<or> \<not> LifecycleSettled evidence then
       (\<lparr>Authorized = False, Refused = GateUnsettled\<rparr>, s)
     else (\<lparr>Authorized = True, Refused = ''''\<rparr>, case enqueue of None \<Rightarrow> s | Some f \<Rightarrow> f s))"

definition authorize :: "delivery_gate \<Rightarrow> release_evidence \<Rightarrow> release_decision" where
  "authorize g evidence = fst (authorize_enqueue g evidence None ())"

definition gate_snapshot_of :: "delivery_gate \<Rightarrow> gate_snapshot" where
  "gate_snapshot_of g =
    (if withdrawal g = NilChannel then zero_snapshot\<lparr>Reason := GateUninitialized\<rparr>
     else snapshot_locked g)"

definition withdrawal_of :: "delivery_gate \<Rightarrow> channel" where
  "withdrawal_of g = (if withdrawal g = NilChannel then ClosedChannel else withdrawal g)"

definition count_refund :: "refunds \<Rightarrow> path \<Rightarrow> refunds" where
  "count_refund r path =
    (if path = Unretained then r\<lparr>unretained := unretained r + 1\<rparr>
     else if path = Processed then r\<lparr>processed := processed r + 1\<rparr>
     else if path = Cut then r\<lparr>cut := cut r + 1\<rparr>
     else r\<lparr>discarded := discarded r + 1\<rparr>)"

definition refund :: "delivery_gate \<Rightarrow> nat \<Rightarrow> path \<Rightarrow> bool \<times> delivery_gate" where
  "refund g one path =
    (if returned (gate_slots g ! one) then (False, g\<lparr>doubles := doubles g + 1\<rparr>)
     else (True, g\<lparr>gate_slots := (gate_slots g)[one := (gate_slots g ! one)\<lparr>returned := True\<rparr>],
                    held_events := held_events g - 1,
                    refunded := count_refund (refunded g) path\<rparr>))"

definition keep :: "delivery_gate \<Rightarrow> nat \<Rightarrow> delivery_gate" where
  "keep g one = g\<lparr>gate_slots := (gate_slots g)[one := (gate_slots g ! one)\<lparr>kept := True\<rparr>]\<rparr>"

definition is_kept :: "delivery_gate \<Rightarrow> nat \<Rightarrow> bool" where
  "is_kept g one = kept (gate_slots g ! one)"

definition gate_slot_ops :: "delivery_gate slot_ops" where
  "gate_slot_ops = \<lparr>Keep = keep, Kept = is_kept, Refund = refund\<rparr>"

section \<open>Histories\<close>

text \<open>
  What a caller sees of one call.  The methods of \<open>slot\<close> are only ever called on slots the
  gate issued, so their steps name one.
\<close>

datatype gate_event =
    Admission delivery_kind bool admission_decision
  | Keeping nat
  | Refunding nat path bool
  | Authorization release_evidence release_decision

inductive gate_step :: "delivery_gate \<Rightarrow> gate_event \<Rightarrow> delivery_gate \<Rightarrow> bool" where
  step_admit: "gate_admit g kind measured = Some (d, g') \<Longrightarrow> gate_step g (Admission kind measured d) g'"
| step_keep: "one < length (gate_slots g) \<Longrightarrow> gate_step g (Keeping one) (keep g one)"
| step_refund: "one < length (gate_slots g) \<Longrightarrow> refund g one path = (ok, g') \<Longrightarrow>
    gate_step g (Refunding one path ok) g'"
| step_authorize: "authorize g evidence = d \<Longrightarrow> gate_step g (Authorization evidence d) g"

inductive gate_run :: "delivery_gate \<Rightarrow> gate_event list \<Rightarrow> delivery_gate \<Rightarrow> bool" where
  run_none: "gate_run g [] g"
| run_more: "gate_run g events g' \<Longrightarrow> gate_step g' e g'' \<Longrightarrow> gate_run g (events @ [e]) g''"

inductive_cases gate_step_admission: "gate_step g (Admission kind measured d) g'"
inductive_cases gate_step_refunding: "gate_step g (Refunding one path ok) g'"
inductive_cases gate_step_authorization: "gate_step g (Authorization evidence d) g'"

definition outstanding :: "delivery_gate \<Rightarrow> nat" where
  "outstanding g = length (filter (\<lambda>s. \<not> returned s) (gate_slots g))"

definition refunds_total :: "refunds \<Rightarrow> 64 word" where
  "refunds_total r = sum_list (map (refunds_of r) paths)"

definition gate_inv :: "delivery_gate \<Rightarrow> bool" where
  "gate_inv g \<longleftrightarrow>
     withdrawal g \<noteq> NilChannel \<and> 0 < max_events g
   \<and> charged g = of_nat (length (gate_slots g))
   \<and> unat (held_events g) = outstanding g \<and> outstanding g \<le> unat (max_events g)
   \<and> charged g = held_events g + refunds_total (refunded g)
   \<and> (reason g = '''' \<longleftrightarrow> withdrawal g = OpenChannel)
   \<and> (reason g \<noteq> '''' \<longrightarrow> invalidates_capture (reason g))"

lemma refunds_total_eq: "refunds_total r = unretained r + processed r + discarded r + cut r"
  by (simp add: refunds_total_def paths_def refunds_of_def path_defs add.assoc)

lemma refunds_total_count: "refunds_total (count_refund r path) = refunds_total r + 1"
  by (simp add: refunds_total_eq count_refund_def)

lemma refunds_total_none [simp]: "refunds_total no_refunds = 0"
  by (simp add: refunds_total_eq no_refunds_def)

lemma invalidates_simps [simp]:
  "invalidates_capture GateUnknownLength" "invalidates_capture GateUnknownKind"
  "GateUnknownLength \<noteq> ''''" "GateUnknownKind \<noteq> ''''"
  by (simp_all add: invalidates_capture_def gate_reason_classes_def gate_reason_defs)

lemma filter_update_length:
  "i < length xs \<Longrightarrow> P (xs ! i) \<Longrightarrow> \<not> P y \<Longrightarrow>
    Suc (length (filter P (xs[i := y]))) = length (filter P xs)"
  by (induction xs arbitrary: i) (auto simp: less_Suc_eq_0_disj split: nat.splits)

lemma filter_update_same:
  "i < length xs \<Longrightarrow> P (xs ! i) = P y \<Longrightarrow> length (filter P (xs[i := y])) = length (filter P xs)"
  by (induction xs arbitrary: i) (auto simp: less_Suc_eq_0_disj split: nat.splits)

lemma word_below_suc: "(w :: 64 word) \<noteq> m \<Longrightarrow> unat w \<le> unat m \<Longrightarrow> unat (w + 1) = unat w + 1"
proof -
  assume "w \<noteq> m" "unat w \<le> unat m"
  then have "unat w < unat m"
    by (metis le_neq_implies_less word_unat_eq_iff)
  then have "Suc (unat w) < 2 ^ 64"
    using unsigned_less [where w = m and 'a = nat] by simp
  then show ?thesis
    by (simp add: unat_word_ariths)
qed

lemma word_pred: "0 < unat (w :: 64 word) \<Longrightarrow> unat (w - 1) = unat w - 1"
  by (metis One_nat_def Suc_leI unat_1 unat_sub word_le_nat_alt)

lemma new_gate_inv: "new_delivery_gate allowance = Inr g \<Longrightarrow> gate_inv g"
  by (auto simp: new_delivery_gate_def gate_inv_def zero_gate_def outstanding_def word_gt_0
      split: if_splits)

lemma keep_inv: "gate_inv g \<Longrightarrow> one < length (gate_slots g) \<Longrightarrow> gate_inv (keep g one)"
  by (auto simp: gate_inv_def keep_def outstanding_def filter_update_same)

lemma refund_inv:
  assumes "gate_inv g" "one < length (gate_slots g)" "refund g one path = (ok, g')"
  shows "gate_inv g'"
proof (cases "returned (gate_slots g ! one)")
  case True
  with assms show ?thesis
    by (auto simp: refund_def gate_inv_def outstanding_def)
next
  case False
  with assms have g': "g' = g\<lparr>gate_slots := (gate_slots g)[one := (gate_slots g ! one)\<lparr>returned := True\<rparr>],
      held_events := held_events g - 1, refunded := count_refund (refunded g) path\<rparr>"
    by (simp add: refund_def)
  have "Suc (outstanding g') = outstanding g"
    using False assms(2) by (simp add: g' outstanding_def filter_update_length)
  moreover from this have "unat (held_events g - 1) = unat (held_events g) - 1"
    using assms(1) by (intro word_pred) (simp add: gate_inv_def)
  ultimately show ?thesis
    using assms(1) by (auto simp: gate_inv_def g' refunds_total_count)
qed

lemma invalidate_some:
  "gate_inv g \<Longrightarrow> reason g = [] \<Longrightarrow>
    invalidate_locked g r = Some (g\<lparr>reason := r, withdrawal := ClosedChannel\<rparr>)"
  by (simp add: invalidate_locked_def close_channel_def gate_inv_def)

lemma invalidated_inv:
  "gate_inv g \<Longrightarrow> invalidates_capture r \<Longrightarrow> r \<noteq> [] \<Longrightarrow>
    gate_inv (g\<lparr>reason := r, withdrawal := ClosedChannel\<rparr>)"
  by (auto simp: gate_inv_def outstanding_def)

lemma gate_reserve_inv:
  assumes "gate_inv g" "held_events g \<noteq> max_events g"
  shows "gate_inv (g\<lparr>charged := charged g + 1, held_events := held_events g + 1,
      gate_slots := gate_slots g @ [\<lparr>kept = False, returned = False\<rparr>]\<rparr>)"
proof -
  have "unat (held_events g) < unat (max_events g)"
    using assms by (metis gate_inv_def le_neq_implies_less word_unat_eq_iff)
  moreover have "unat (held_events g + 1) = unat (held_events g) + 1"
    using assms by (intro word_below_suc [of _ "max_events g"]) (auto simp: gate_inv_def)
  ultimately show ?thesis
    using assms(1) by (auto simp: gate_inv_def outstanding_def)
qed

text \<open>
  On a well-formed gate \<open>Admit\<close> does not panic, whatever it is given; a slot it reserves is
  a new one.  \<open>fault\<close> is the reason an event is capture-wide uncertainty, empty where it is none.
\<close>

definition fault :: "delivery_kind \<Rightarrow> bool \<Rightarrow> gate_reason" where
  "fault kind measured =
    (if kind \<noteq> DeliveryTransfer \<and> kind \<noteq> DeliveryClose then GateUnknownKind
     else if kind = DeliveryTransfer \<and> \<not> measured then GateUnknownLength else [])"

definition invalidated :: "delivery_gate \<Rightarrow> gate_reason \<Rightarrow> delivery_gate" where
  "invalidated g r = (if r = [] then g else g\<lparr>reason := r, withdrawal := ClosedChannel\<rparr>)"

definition reserved :: "delivery_gate \<Rightarrow> delivery_gate" where
  "reserved g = g\<lparr>charged := charged g + 1, held_events := held_events g + 1,
      gate_slots := gate_slots g @ [\<lparr>kept = False, returned = False\<rparr>]\<rparr>"

lemma kinds_distinct [simp]: "DeliveryTransfer \<noteq> DeliveryClose" "DeliveryClose \<noteq> DeliveryTransfer"
  by (simp_all add: DeliveryTransfer_def DeliveryClose_def)

lemma fault_invalidates: "fault kind measured \<noteq> [] \<Longrightarrow> invalidates_capture (fault kind measured)"
  by (simp add: fault_def split: if_splits)

lemma invalidated_fault_inv: "gate_inv g \<Longrightarrow> gate_inv (invalidated g (fault kind measured))"
  by (simp add: invalidated_def invalidated_inv fault_invalidates)

lemma invalidated_simps [simp]:
  "gate_slots (invalidated g r) = gate_slots g" "max_events (invalidated g r) = max_events g"
  "held_events (invalidated g r) = held_events g" "charged (invalidated g r) = charged g"
  "doubles (invalidated g r) = doubles g" "refunded (invalidated g r) = refunded g"
  "input_refused (invalidated g r) = input_refused g"
  "reason g = [] \<Longrightarrow> reason (invalidated g r) = r"
  by (simp_all add: invalidated_def)

lemma admit_full_eq:
  assumes "gate_inv g" "reason g = []"
  shows "admit_full g kind measured =
    (if fault kind measured \<noteq> [] then
       Some (refusal (snapshot_locked (invalidated g (fault kind measured))), invalidated g (fault kind measured))
     else if kind = DeliveryClose then
       Some (\<lparr>Admitted = True, ChargedSlot = False, Slot = None, State = snapshot_locked g\<rparr>, g)
     else Some (refusal ((snapshot_locked (g\<lparr>input_refused := input_refused g + 1\<rparr>))\<lparr>Reason := GateInputLimit\<rparr>),
            g\<lparr>input_refused := input_refused g + 1\<rparr>))"
  using assms by (simp add: admit_full_def fault_def invalidated_def invalidate_some Let_def)

lemma admit_charged_eq:
  assumes "gate_inv g" "reason g = []" "held_events g \<noteq> max_events g"
  shows "admit_charged g kind measured =
    (let g' = invalidated (reserved g) (fault kind measured) in
     Some (\<lparr>Admitted = (fault kind measured = []), ChargedSlot = True, Slot = Some (length (gate_slots g)),
              State = snapshot_locked g'\<rparr>, g'))"
proof -
  have "gate_inv (reserved g)" "reason (reserved g) = []"
    using assms by (simp_all add: reserved_def gate_reserve_inv)
  then show ?thesis
    by (simp add: admit_charged_def reserved_def [symmetric] Let_def fault_def invalidated_def invalidate_some)
qed

lemmas admit_eqs = gate_admit_def admit_full_eq admit_charged_eq

lemma gate_inv_usable [simp]: "gate_inv g \<Longrightarrow> withdrawal g \<noteq> NilChannel"
  by (simp add: gate_inv_def)

lemma admit_total: "gate_inv g \<Longrightarrow> gate_admit g kind measured \<noteq> None"
  by (simp add: admit_eqs Let_def)

lemma admit_inv:
  assumes "gate_inv g" "gate_admit g kind measured = Some (d, g')"
  shows "gate_inv g'"
proof -
  have "gate_inv (reserved g)" if "held_events g \<noteq> max_events g"
    using assms that by (simp add: reserved_def gate_reserve_inv)
  moreover have "gate_inv (g\<lparr>input_refused := input_refused g + 1\<rparr>)"
    using assms by (auto simp: gate_inv_def outstanding_def)
  ultimately show ?thesis
    using assms
    by (auto simp: admit_eqs Let_def invalidated_fault_inv split: if_splits)
qed

text \<open>What one step does to a well-formed gate.\<close>

lemma gate_step_inv: "gate_step g e g' \<Longrightarrow> gate_inv g \<Longrightarrow> gate_inv g'"
  by (induction rule: gate_step.induct) (auto intro: admit_inv keep_inv refund_inv)

lemma gate_run_inv: "gate_run g events g' \<Longrightarrow> gate_inv g \<Longrightarrow> gate_inv g'"
  by (induction rule: gate_run.induct) (auto intro: gate_step_inv)

lemma admit_reason: "gate_inv g \<Longrightarrow> gate_admit g kind measured = Some (d, g') \<Longrightarrow>
    reason g' = (if reason g \<noteq> [] then reason g else fault kind measured)"
  by (frule gate_inv_usable) (auto simp: admit_eqs Let_def reserved_def split: if_splits)

lemma refund_reason: "refund g one path = (ok, g') \<Longrightarrow> reason g' = reason g"
  by (auto simp: refund_def split: if_splits)

lemma keep_reason [simp]: "reason (keep g one) = reason g"
  by (simp add: keep_def)

lemma gate_step_reason: "gate_step g e g' \<Longrightarrow> gate_inv g \<Longrightarrow> reason g \<noteq> [] \<Longrightarrow> reason g' = reason g"
  by (induction rule: gate_step.induct) (simp_all add: admit_reason refund_reason)

lemma authorize_iff:
  "gate_inv g \<Longrightarrow> Authorized (authorize g evidence) \<longleftrightarrow>
    reason g = [] \<and> InputsSettled evidence \<and> LifecycleSettled evidence"
  by (simp add: authorize_def authorize_enqueue_def gate_inv_def)

lemma gate_step_slots:
  assumes "gate_step g e g'" "gate_inv g" "i < length (gate_slots g)"
  shows "i < length (gate_slots g')
    \<and> returned (gate_slots g' ! i) = (returned (gate_slots g ! i) \<or> (\<exists>path. e = Refunding i path True))"
  using assms
proof (induction rule: gate_step.induct)
  case (step_admit g kind measured d g')
  then show ?case
    by (auto simp: admit_eqs Let_def reserved_def nth_append split: if_splits)
next
  case (step_keep one g)
  then show ?case
    by (auto simp: keep_def nth_list_update)
next
  case (step_refund one g path ok g')
  then show ?case
    by (auto simp: refund_def nth_list_update split: if_splits)
qed simp

section \<open>The slots the gate issues\<close>

definition issued_slots :: "delivery_gate \<Rightarrow> nat set" where
  "issued_slots g = {..< length (gate_slots g)}"

definition returned_slots :: "delivery_gate \<Rightarrow> nat set" where
  "returned_slots g = {i. i < length (gate_slots g) \<and> returned (gate_slots g ! i)}"

lemma refund_returned:
  assumes "i < length (gate_slots g)" "refund g i path = (ok, g')"
  shows "issued_slots g' = issued_slots g \<and> returned_slots g' = insert i (returned_slots g)
    \<and> (ok \<longleftrightarrow> i \<notin> returned_slots g)"
  using assms by (auto simp: refund_def issued_slots_def returned_slots_def nth_list_update split: if_splits)

lemma keep_returned:
  "i < length (gate_slots g) \<Longrightarrow> issued_slots (keep g i) = issued_slots g
    \<and> returned_slots (keep g i) = returned_slots g"
  by (auto simp: keep_def is_kept_def issued_slots_def returned_slots_def nth_list_update)

lemma keep_is_kept: "i < length (gate_slots g) \<Longrightarrow> is_kept (keep g i) j \<longleftrightarrow> j = i \<or> is_kept g j"
  by (auto simp: keep_def is_kept_def nth_list_update)

lemma refund_is_kept: "i < length (gate_slots g) \<Longrightarrow> is_kept (snd (refund g i path)) j = is_kept g j"
  by (auto simp: refund_def is_kept_def nth_list_update)

lemma issued_slot [simp]: "i \<in> issued_slots g \<longleftrightarrow> i < length (gate_slots g)"
  by (simp add: issued_slots_def)

interpretation gate_pool: slot_pool gate_slot_ops gate_inv issued_slots returned_slots
proof
  fix g i path assume "gate_inv g" "i \<in> issued_slots g"
  then show "gate_inv (snd (Refund gate_slot_ops g i path))"
    by (cases "refund g i path") (auto simp: gate_slot_ops_def intro: refund_inv)
next
  fix g show "returned_slots g \<subseteq> issued_slots g"
    by (auto simp: returned_slots_def)
qed (simp_all add: gate_slot_ops_def keep_inv keep_returned refund_returned keep_is_kept refund_is_kept)

section \<open>Properties\<close>

text \<open>
  C12: In every reachable state of a gate the slots it charged are those it issued, the slots held are
  those issued and not returned, never more than its allowance, and what was charged is what
  is held plus what was returned along each path (as 64-bit sums).  The withdrawal signal is
  closed exactly when the gate has a reason, which is then one that invalidates the capture,
  and no call of \<open>Admit\<close> can panic.
\<close>

theorem gate_counts:
  assumes "new_delivery_gate allowance = Inr g0" "gate_run g0 events g"
  shows "charged g = of_nat (length (gate_slots g))
    \<and> unat (held_events g) = length (filter (\<lambda>s. \<not> returned s) (gate_slots g))
    \<and> unat (held_events g) \<le> unat allowance
    \<and> charged g = held_events g + sum_list (map (refunds_of (refunded g)) paths)
    \<and> (withdrawal_of g = ClosedChannel \<longleftrightarrow> invalidates_capture (reason g))
    \<and> gate_admit g kind measured \<noteq> None"
proof -
  have inv: "gate_inv g"
    using assms gate_run_inv new_gate_inv by blast
  have step: "max_events g' = max_events g" if "gate_step g e g'" for g e g'
    using that
    by (induction rule: gate_step.induct)
      (auto simp: gate_admit_def admit_full_def admit_charged_def invalidate_locked_def refund_def keep_def Let_def
        split: if_splits)
  have "gate_run g1 es g2 \<Longrightarrow> max_events g2 = max_events g1" for g1 es g2
    by (induction rule: gate_run.induct) (simp_all add: step)
  then have "max_events g = allowance"
    using assms by (fastforce simp: new_delivery_gate_def split: if_splits)
  moreover have "\<not> invalidates_capture []"
    by (simp add: invalidates_capture_def gate_reason_classes_def gate_reason_defs)
  ultimately show ?thesis
    using inv admit_total [OF inv]
    by (cases "withdrawal g") (auto simp: gate_inv_def outstanding_def refunds_total_def withdrawal_of_def)
qed

definition event_ok_after :: "gate_event \<Rightarrow> bool" where
  "event_ok_after e =
    (case e of Admission _ _ d \<Rightarrow> \<not> Admitted d \<and> \<not> ChargedSlot d
     | Authorization _ d \<Rightarrow> \<not> Authorized d
     | _ \<Rightarrow> True)"

lemma gate_step_invalidated:
  assumes "gate_step g e g'" "gate_inv g" "reason g \<noteq> []"
  shows "event_ok_after e \<and> charged g' = charged g \<and> withdrawal g' = withdrawal g"
  using assms
proof (induction rule: gate_step.induct)
  case (step_admit g kind measured d g')
  then show ?case
    by (auto simp: admit_eqs event_ok_after_def)
next
  case (step_authorize g evidence d)
  then show ?case
    using authorize_iff [of g evidence] by (auto simp: event_ok_after_def)
qed (auto simp: refund_def keep_def event_ok_after_def split: if_splits)

text \<open>
  C24: Invalidation is permanent.  From the moment a gate has a reason, whatever calls follow
  and in whatever order, the first reason stays, the withdrawal signal stays closed, no
  event is admitted or charged and no result is authorized; refunds and keeps still run and
  clear nothing.
\<close>

theorem invalidation_is_permanent:
  assumes "new_delivery_gate allowance = Inr g0" "gate_run g0 before g" "reason g \<noteq> []"
    and "gate_run g after g'"
  shows "reason g' = reason g \<and> withdrawal g' = ClosedChannel \<and> charged g' = charged g
    \<and> list_all event_ok_after after"
proof -
  have inv: "gate_inv g"
    using assms(1,2) gate_run_inv new_gate_inv by blast
  then have closed: "withdrawal g = ClosedChannel"
    using assms(3) by (cases "withdrawal g") (auto simp: gate_inv_def)
  from assms(4) inv assms(3) have "reason g' = reason g \<and> withdrawal g' = withdrawal g
    \<and> charged g' = charged g \<and> list_all event_ok_after after"
  proof (induction rule: gate_run.induct)
    case (run_more g es g1 e g2)
    then have "gate_inv g1" "reason g1 = reason g" "reason g \<noteq> []"
      by (auto intro: gate_run_inv)
    with run_more gate_step_invalidated [of g1 e g2] gate_step_reason [of g1 e g2] show ?case
      by simp
  qed simp
  with closed show ?thesis by simp
qed

text \<open>A gate of one slot, run through a transfer whose length is unknown.\<close>

definition sample_gate :: "64 word \<Rightarrow> delivery_gate" where
  "sample_gate n = zero_gate\<lparr>max_events := n, withdrawal := OpenChannel\<rparr>"

lemmas gate_evals = sample_gate_def zero_gate_def new_delivery_gate_def gate_admit_def admit_charged_def
  admit_full_def invalidate_locked_def close_channel_def DeliveryTransfer_def DeliveryClose_def
  snapshot_locked_def

lemma sample_gate_new: "new_delivery_gate 1 = Inr (sample_gate 1)"
  by (simp add: new_delivery_gate_def sample_gate_def)

lemma sample_run:
  obtains d g where "gate_run (sample_gate 1) [Admission DeliveryTransfer False d] g"
    "reason g = GateUnknownLength" "length (gate_slots g) = 1"
proof -
  obtain d g where step: "gate_admit (sample_gate 1) DeliveryTransfer False = Some (d, g)"
    and g: "reason g = GateUnknownLength" "length (gate_slots g) = 1"
    by (simp add: gate_evals Let_def)
  then have "gate_run (sample_gate 1) ([] @ [Admission DeliveryTransfer False d]) g"
    by (intro run_more [OF run_none] step_admit)
  with g that show thesis by simp
qed

theorem invalidation_is_permanent_witness:
  "\<exists>g. reason g = GateUnknownLength \<and> (\<forall>g' after. gate_run g after g' \<longrightarrow> reason g' = GateUnknownLength)"
proof -
  obtain d g where run: "gate_run (sample_gate 1) [Admission DeliveryTransfer False d] g"
    and g: "reason g = GateUnknownLength"
    by (rule sample_run)
  then have "reason g' = GateUnknownLength" if "gate_run g after g'" for g' after
    using invalidation_is_permanent [OF sample_gate_new run _ that] by simp
  with g show ?thesis by blast
qed

theorem gate_counts_witness:
  "\<exists>g :: delivery_gate. charged g = 1 \<and> unat (held_events g) \<le> unat (1 :: 64 word)"
proof -
  obtain d g where run: "gate_run (sample_gate 1) [Admission DeliveryTransfer False d] g"
    and g: "length (gate_slots g) = 1"
    by (rule sample_run)
  from gate_counts [OF sample_gate_new run, of 1 True] g
  have "charged g = 1 \<and> unat (held_events g) \<le> unat (1 :: 64 word)" by simp
  then show ?thesis by blast
qed

definition refunds_in :: "nat \<Rightarrow> gate_event list \<Rightarrow> nat" where
  "refunds_in i events = length (filter (\<lambda>e. case e of Refunding j _ ok \<Rightarrow> j = i \<and> ok | _ \<Rightarrow> False) events)"

text \<open>
  A slot is returned exactly once.  In any history, the refunds of a slot that report true are one
  if the slot is returned and none while it is held, and a refund of a returned slot changes
  nothing but the count of double refunds.
\<close>

theorem slot_returned_once:
  assumes "new_delivery_gate allowance = Inr g0" "gate_run g0 events g"
  shows "refunds_in i events = (if i \<in> returned_slots g then 1 else 0)
    \<and> (i \<in> returned_slots g \<longrightarrow> refund g i path = (False, g\<lparr>doubles := doubles g + 1\<rparr>))"
proof -
  have inv: "gate_inv g0" and none: "gate_slots g0 = []"
    using assms(1) new_gate_inv by (auto simp: new_delivery_gate_def zero_gate_def split: if_splits)
  from assms(2) inv none have "refunds_in i events = (if i \<in> returned_slots g then 1 else 0)"
  proof (induction rule: gate_run.induct)
    case (run_more g es g1 e g2)
    then have "gate_inv g1" and IH: "refunds_in i es = (if i \<in> returned_slots g1 then 1 else 0)"
      by (auto intro: gate_run_inv)
    with run_more(2) show ?case
    proof (induction rule: gate_step.induct)
      case (step_admit g kind measured d g')
      then have "returned_slots g' = returned_slots g"
        by (auto simp: admit_eqs Let_def reserved_def returned_slots_def nth_append less_Suc_eq split: if_splits)
      with step_admit show ?case by (simp add: refunds_in_def)
    next
      case (step_refund one g path ok g')
      with refund_returned [OF step_refund(1,2)] show ?case by (auto simp: refunds_in_def)
    qed (simp_all add: refunds_in_def keep_returned)
  qed (simp add: refunds_in_def returned_slots_def)
  then show ?thesis
    by (auto simp: refund_def returned_slots_def)
qed

theorem slot_returned_once_witness:
  "\<exists>g d. gate_run (sample_gate 1) [Admission DeliveryTransfer False d, Refunding 0 Processed True] g
    \<and> refund g 0 Cut = (False, g\<lparr>doubles := doubles g + 1\<rparr>)"
proof -
  obtain d g where step: "gate_admit (sample_gate 1) DeliveryTransfer False = Some (d, g)"
    and g: "gate_slots g = [\<lparr>kept = False, returned = False\<rparr>]"
    by (simp add: gate_evals Let_def)
  obtain g' where more: "refund g 0 Processed = (True, g')" and g': "0 \<in> returned_slots g'"
    using g by (simp add: refund_def returned_slots_def)
  have run: "gate_run (sample_gate 1) ([] @ [Admission DeliveryTransfer False d, Refunding 0 Processed True]) g'"
    using run_more [OF run_more [OF run_none step_admit [OF step]] step_refund [OF _ more]] g by simp
  from slot_returned_once [OF sample_gate_new run, of 0 Cut] g' run show ?thesis by auto
qed

text \<open>
  C25: A full gate recovers.  At capacity a measured transfer is refused under \<open>input_limit\<close> and
  nothing but the count of refusals changes, while a close still passes; once any held slot is returned, along whatever
  path, the next measured transfer is admitted with a slot of its own.
\<close>

theorem full_gate_recovers:
  assumes "new_delivery_gate allowance = Inr g0" "gate_run g0 events g"
    and "reason g = []" "i < length (gate_slots g)" "\<not> returned (gate_slots g ! i)"
  shows "(held_events g = max_events g \<longrightarrow>
      gate_admit g DeliveryTransfer True =
        Some (refusal ((snapshot_locked (g\<lparr>input_refused := input_refused g + 1\<rparr>))\<lparr>Reason := GateInputLimit\<rparr>),
              g\<lparr>input_refused := input_refused g + 1\<rparr>)
      \<and> (\<exists>d. gate_admit g DeliveryClose measured = Some (d, g) \<and> Admitted d))
    \<and> (\<exists>g' d g''. refund g i path = (True, g') \<and> gate_admit g' DeliveryTransfer True = Some (d, g'')
        \<and> Admitted d \<and> Slot d = Some (length (gate_slots g)))"
proof -
  have inv: "gate_inv g"
    using assms(1,2) gate_run_inv new_gate_inv by blast
  have full: "held_events g = max_events g \<longrightarrow>
      gate_admit g DeliveryTransfer True =
        Some (refusal ((snapshot_locked (g\<lparr>input_refused := input_refused g + 1\<rparr>))\<lparr>Reason := GateInputLimit\<rparr>),
              g\<lparr>input_refused := input_refused g + 1\<rparr>)
      \<and> (\<exists>d. gate_admit g DeliveryClose measured = Some (d, g) \<and> Admitted d)"
    using inv assms(3) by (auto simp: admit_eqs fault_def)
  obtain ok g' where r: "refund g i path = (ok, g')" by fastforce
  then have g': "ok" "gate_inv g'" "reason g' = []" "length (gate_slots g') = length (gate_slots g)"
    "held_events g' = held_events g - 1" "max_events g' = max_events g"
    using refund_inv [OF inv assms(4) r] refund_reason [OF r] assms(3,5)
    by (auto simp: refund_def split: if_splits)
  have "0 < outstanding g"
    using assms(4,5) nth_mem by (fastforce simp: outstanding_def filter_empty_conv)
  then have "unat (held_events g') < unat (max_events g)"
    using inv word_pred [of "held_events g"] by (auto simp: gate_inv_def g'(5))
  then have "held_events g' \<noteq> max_events g'"
    using g'(6) by auto
  with g' have "\<exists>d g''. gate_admit g' DeliveryTransfer True = Some (d, g'') \<and> Admitted d
      \<and> Slot d = Some (length (gate_slots g))"
    by (simp add: admit_eqs Let_def fault_def)
  with full r g'(1) show ?thesis by auto
qed

theorem full_gate_recovers_witness:
  "\<exists>g g' d g''. held_events g = max_events g \<and> refund g 0 Cut = (True, g')
    \<and> gate_admit g' DeliveryTransfer True = Some (d, g'') \<and> Admitted d"
proof -
  obtain d g where step: "gate_admit (sample_gate 1) DeliveryTransfer True = Some (d, g)"
    and g: "gate_slots g = [\<lparr>kept = False, returned = False\<rparr>]" "reason g = []" "held_events g = max_events g"
    by (simp add: gate_evals Let_def)
  note run = run_more [OF run_none step_admit [OF step]]
  from full_gate_recovers [OF sample_gate_new run g(2), of 0 True Cut] g show ?thesis
    by auto
qed

end
