(* ===== verification/Intake_Slots.thy ===== *)
theory Intake_Slots
  imports Intake Delivery_Gate
begin

text \<open>
  The intake and the delivery gate together: what becomes of the slot an input carries.  The locale
  \<open>slot_source\<close> extends the \<open>Slot\<close> contract with what the owner of the slots does on its
  own between the intake's calls; the intake's side is proved from it once and the gate
  interprets it: an admission issues a new slot, and the deliverer returns a slot nobody kept.
\<close>

fun offered_slots :: "input list \<Rightarrow> nat list" where
  "offered_slots [] = []"
| "offered_slots (x # xs) = (case input_slot x of None \<Rightarrow> offered_slots xs | Some k \<Rightarrow> k # offered_slots xs)"

lemma offered_slots_append [simp]: "offered_slots (xs @ ys) = offered_slots xs @ offered_slots ys"
  by (induction xs) (auto split: option.splits)

lemma offered_slots_nth: "i < length xs \<Longrightarrow> input_slot (xs ! i) = Some k \<Longrightarrow> k \<in> set (offered_slots xs)"
  by (induction xs arbitrary: i) (auto split: option.splits simp: nth_Cons split: nat.splits)

lemma offered_slots_distinct:
  assumes "distinct (offered_slots xs)" "i < length xs" "j < length xs"
    "input_slot (xs ! i) = Some k" "input_slot (xs ! j) = Some k"
  shows "i = j"
  using assms
proof (induction xs arbitrary: i j)
  case (Cons x xs)
  then show ?case
    by (cases i; cases j) (auto split: option.splits dest: offered_slots_nth)
qed simp

text \<open>An entry \<open>Take\<close> gave to a worker, and which that worker released.\<close>

definition worker_released :: "intake_event list \<Rightarrow> nat \<Rightarrow> bool" where
  "worker_released es i \<longleftrightarrow> i < length (taken_entries es) \<and> (\<exists>path. ReleasedEntry i path \<in> set es)"

locale slot_source = slot_pool +
  fixes E :: "'a \<Rightarrow> 'a \<Rightarrow> bool"
    and V :: "'a \<Rightarrow> nat \<Rightarrow> bool"
  assumes env_valid: "valid g \<Longrightarrow> E g g' \<Longrightarrow> valid g' \<and> issued g \<subseteq> issued g'"
    and env_kept: "valid g \<Longrightarrow> E g g' \<Longrightarrow> i \<in> issued g \<Longrightarrow> Kept P g i \<Longrightarrow>
      Kept P g' i \<and> (i \<in> free g' \<longleftrightarrow> i \<in> free g)"
    and offerable: "valid g \<Longrightarrow> V g i \<Longrightarrow> i \<in> issued g \<and> i \<notin> free g"
begin

text \<open>The slot of the input an entry holds: with the entry and held, or returned.\<close>

definition follows :: "'a \<Rightarrow> input \<Rightarrow> entry \<Rightarrow> bool" where
  "follows g x e =
    (case input_slot x of
       None \<Rightarrow> en_slot e = None
     | Some k \<Rightarrow> k \<in> issued g \<and> Kept P g k
         \<and> (en_slot e = Some k \<and> k \<notin> free g \<or> en_slot e = None \<and> en_released e \<and> k \<in> free g))"

definition follow :: "intake_event list \<Rightarrow> store \<Rightarrow> 'a \<Rightarrow> bool" where
  "follow es s g \<longleftrightarrow> valid g \<and> length (entries s) = length (accepted_inputs es)
     \<and> (\<forall>i < length (entries s). follows g (accepted_inputs es ! i) (entries s ! i))
     \<and> (\<forall>i < length (entries s). input_slot (accepted_inputs es ! i) \<noteq> None \<longrightarrow>
          (en_slot (entries s ! i) = None \<longleftrightarrow> worker_released es i))"

lemma followD:
  assumes "follow es s g" "i < length (entries s)"
  shows "follows g (accepted_inputs es ! i) (entries s ! i)"
    "input_slot (accepted_inputs es ! i) \<noteq> None \<Longrightarrow> en_slot (entries s ! i) = None \<longleftrightarrow> worker_released es i"
  using assms by (simp_all add: follow_def)

lemma follows_same: "same_but_next e e' \<Longrightarrow> follows g x e' \<Longrightarrow> follows g x e"
  by (auto simp: follows_def dest!: same_but_nextD split: option.splits)

lemma follow_same:
  assumes "follow es s g" "accepted_inputs es' = accepted_inputs es" "list_all2 same_but_next (entries s') (entries s)"
    "\<And>i. worker_released es' i \<longleftrightarrow> worker_released es i"
  shows "follow es' s' g"
proof -
  have "same_but_next (entries s' ! i) (entries s ! i)" if "i < length (entries s)" for i
    using assms(3) that by (simp add: list_all2_conv_all_nth)
  then have "follows g (accepted_inputs es ! i) (entries s' ! i)" "en_slot (entries s' ! i) = en_slot (entries s ! i)"
    if "i < length (entries s)" for i
    using that assms(1) follows_same [of "entries s' ! i" "entries s ! i"]
    by (auto simp: follow_def dest: same_but_nextD)
  moreover have "length (entries s') = length (entries s)"
    using assms(3) by (rule list_all2_lengthD)
  ultimately show ?thesis
    using assms(1,2,4) by (simp add: follow_def)
qed

lemma follow_offer:
  assumes "follow es s g" "intake_inv s h" "sizes_ok z" "may_offer V g x"
    and off: "offer z P s ls g x = Some (err, s', ls', g')"
    and taken: "length (taken_entries es) \<le> length (entries s)"
  shows "follow (es @ [Offered x err]) s' g'"
proof (cases err)
  case (Some e)
  with offer_entries(1) [OF assms(2,3) off] assms(1) show ?thesis
    by (simp add: follow_def worker_released_def)
next
  case None
  let ?e = "(input_entry x)\<lparr>en_bytes := int (cost (input_adds z x))\<rparr>"
  have valid: "valid g" using assms(1) by (simp add: follow_def)
  note new = offer_entries(2) [OF assms(2,3) off None]
  have old: "valid g' \<and> (\<forall>i < length (entries s). follows g' (accepted_inputs es ! i) (entries s ! i)) \<and> follows g' x ?e"
  proof (cases "input_slot x")
    case None
    then have "g' = g" using new by (simp add: keep_slot_def)
    with assms(1) None show ?thesis by (simp add: follow_def follows_def)
  next
    case (Some k)
    then have g': "g' = Keep P g k" using new by (simp add: keep_slot_def)
    have k: "k \<in> issued g" "k \<notin> free g"
      using assms(4) Some offerable [OF valid] by (auto simp: may_offer_def)
    note keep = keep_valid [OF valid k(1)] keep_pool [OF valid k(1)] keep_kept [OF valid k(1)]
    have "follows g' y e" if "follows g y e" for y e
      using that keep by (auto simp: follows_def g' split: option.splits)
    moreover have "follows g' x ?e"
      using keep k Some by (auto simp: follows_def g')
    ultimately show ?thesis
      using assms(1) keep by (auto simp: follow_def g')
  qed
  have "length (entries s') = Suc (length (entries s))"
    and nth: "\<And>i. i \<le> length (entries s) \<Longrightarrow> same_but_next (entries s' ! i) ((entries s @ [?e]) ! i)"
    using new by (auto simp: list_all2_conv_all_nth)
  moreover have "follows g' ((accepted_inputs es @ [x]) ! i) (entries s' ! i)" if "i \<le> length (entries s)" for i
    using follows_same [OF nth [OF that]] old that assms(1) by (auto simp: follow_def nth_append)
  moreover have "en_slot (entries s' ! i) = (if i < length (entries s) then en_slot (entries s ! i) else input_slot x)"
    if "i \<le> length (entries s)" for i
    using same_but_nextD [OF nth [OF that]] that by (auto simp: nth_append)
  moreover have "worker_released (es @ [Offered x None]) i \<longleftrightarrow> i < length (entries s) \<and> worker_released es i" for i
    using taken by (auto simp: worker_released_def)
  ultimately show ?thesis
    using old assms(1) None by (auto simp: follow_def less_Suc_eq_le nth_append)
qed

lemma follow_release:
  assumes "follow es s g" "i < length (entries s)" "distinct (offered_slots (accepted_inputs es))" "leases es s h" "i < h"
    and release: "release_as P s g (Some i) path = (s', g')"
  shows "follow (es @ [ReleasedEntry i path]) s' g'"
proof (cases "en_released (entries s ! i)")
  case True
  with release have same: "s' = s" "g' = g" by (simp_all add: release_as_def)
  from True assms(4,5) have "(\<exists>path. ReleasedEntry i path \<in> set es) \<or> length (taken_entries es) \<le> i"
    unfolding leases_def by blast
  then have "worker_released (es @ [ReleasedEntry i path]) j \<longleftrightarrow> worker_released es j" for j
    by (auto simp: worker_released_def)
  with assms(1) same show ?thesis by (simp add: follow_def)
next
  case False
  let ?x = "accepted_inputs es ! i" and ?one = "entries s ! i"
  have valid: "valid g" and fol: "follows g ?x ?one"
    using assms(1,2) by (simp_all add: follow_def)
  have s': "entries s' = (entries s)[i := ?one\<lparr>en_released := True, en_fragment := None, en_connection := None, en_slot := None\<rparr>]"
    and g': "g' = (case en_slot ?one of None \<Rightarrow> g | Some slot \<Rightarrow> snd (Refund P g slot path))"
    using release False by (auto simp: release_as_def Let_def)
  have taken: "i < length (taken_entries es)"
    using False assms(4,5) by (auto simp: leases_def)
  have now: "worker_released (es @ [ReleasedEntry i path]) j \<longleftrightarrow> j = i \<or> worker_released es j" for j
    using taken by (auto simp: worker_released_def)
  show ?thesis
  proof (cases "input_slot ?x")
    case None
    then have "g' = g" using fol g' by (simp add: follows_def)
    with assms(1,2) None s' now show ?thesis
      by (auto simp: follow_def follows_def nth_list_update)
  next
    case (Some k)
    then have k: "en_slot ?one = Some k" "k \<in> issued g" "Kept P g k"
      using fol False by (auto simp: follows_def)
    obtain ok g1 where r: "Refund P g k path = (ok, g1)" by fastforce
    then have g1: "g' = g1" using g' k by simp
    note pool = refund_pool [OF valid k(2) r] refund_valid [OF valid k(2), of path] refund_kept [OF valid k(2), of _ path]
    have other: "follows g' (accepted_inputs es ! j) (entries s ! j)" if "j < length (entries s)" "j \<noteq> i" for j
    proof -
      have "input_slot (accepted_inputs es ! j) \<noteq> Some k"
        using offered_slots_distinct [OF assms(3), of i j k] that assms(1,2) Some by (auto simp: follow_def)
      moreover have "follows g (accepted_inputs es ! j) (entries s ! j)"
        using assms(1) that by (simp add: follow_def)
      ultimately show ?thesis
        using pool r by (auto simp: follows_def g1 split: option.splits)
    qed
    have "follows g' ?x (?one\<lparr>en_released := True, en_fragment := None, en_connection := None, en_slot := None\<rparr>)"
      using pool r k Some by (auto simp: follows_def g1)
    with other assms(1,2) pool r now show ?thesis
      by (auto simp: follow_def s' nth_list_update g1)
  qed
qed

end

context slot_source
begin

lemma list_all2_same: "list_all2 same_but_next es es"
  by (simp add: list_all2_conv_all_nth same_but_next_def)

lemma follow_close:
  assumes "follow es s g" "intake_inv s h"
  shows "follow (es @ [ClosedStore]) (close_store s) g"
proof -
  have slot: "en_slot (discard e) = en_slot e" for e
    by (simp add: discard_def)
  have gone: "follows g x (discard e)" if "follows g x e" for x e
    using that by (auto simp: follows_def discard_def split: option.splits)
  have "h \<le> length (entries s)"
    using assms(2) by (simp add: intake_inv_def chained_def Let_def)
  with assms(1) gone show ?thesis
    by (auto simp: follow_def worker_released_def close_store_eq [OF assms(2)] nth_append slot split: if_splits)
qed

lemma follow_env: "follow es s g \<Longrightarrow> E g g' \<Longrightarrow> follow (es @ [SlotsMoved]) s g'"
  using env_valid [of g g'] env_kept [of g g']
  by (fastforce simp: follow_def follows_def worker_released_def split: option.splits)

text \<open>Whatever the intake and the owner of the slots do, a slot follows its input.\<close>

lemma intake_run_follow:
  assumes "intake_run z P E V t0 es t h" "intake_inv (the_store t0) 0" "sizes_ok z"
    and "entries (the_store t0) = []" "valid (the_slots t0)" "distinct (offered_slots (accepted_inputs es))"
  shows "follow es (the_store t) (the_slots t)"
  using assms
proof (induction rule: intake_run.induct)
  case intake_start
  then show ?case by (simp add: follow_def)
next
  case (intake_offer es t h x err s' ls' g')
  have "distinct (offered_slots (accepted_inputs es))"
    using intake_offer.prems(5) by simp
  with intake_offer have "follow es (the_store t) (the_slots t)" by simp
  moreover have "length (taken_entries es) \<le> length (entries (the_store t))"
    using intake_run_fifo [OF intake_offer(1,5-7)] by (simp add: fifo_def)
  ultimately show ?case
    using follow_offer [OF _ intake_run_inv [OF intake_offer(1,5,6)] intake_offer(6,2,3)] by simp
next
  case (intake_take es t h i s')
  note took = take_some [OF intake_run_inv [OF intake_take(1,4,5)] intake_take(2)]
  have "length (taken_entries es) = h"
    using intake_run_fifo [OF intake_take(1,4-6)] took(2) by (auto simp: fifo_def split: if_splits)
  moreover have "ReleasedEntry j path \<in> set es \<Longrightarrow> j < h" for j path
    using intake_run_leases [OF intake_take(1,4-6)] unfolding leases_def by blast
  ultimately have "worker_released (es @ [Took (Some (i, entries (the_store t) ! i))]) j \<longleftrightarrow> worker_released es j" for j
    by (auto simp: worker_released_def less_SucI)
  with intake_take took(4) show ?case
    using follow_same [of es "the_store t" "the_slots t" "es @ [Took (Some (i, entries (the_store t) ! i))]" s'] by simp
next
  case (intake_take_none es t h s')
  then show ?case
    using take_none [OF intake_run_inv [OF intake_take_none(1,4,5)] intake_take_none(2)]
    by (auto intro: follow_same simp: list_all2_same worker_released_def)
next
  case (intake_release es t h i path s' g')
  have "h \<le> length (entries (the_store t))"
    using intake_run_inv [OF intake_release(1,5,6)] by (simp add: intake_inv_def chained_def Let_def)
  with intake_release intake_run_leases [OF intake_release(1,5-7)] show ?case
    using follow_release [of es "the_store t" "the_slots t" i h path s' g'] by simp
next
  case (intake_reserve es t h who n ok s')
  then show ?case
    using reserve_flags [OF intake_reserve(2)] by (auto intro: follow_same simp: list_all2_same worker_released_def)
next
  case (intake_return es t h n who)
  then show ?case
    using give_back_flags by (auto intro: follow_same simp: list_all2_same worker_released_def)
next
  case (intake_close es t h)
  then show ?case
    using follow_close [OF _ intake_run_inv [OF intake_close(1,3,4)]] by simp
next
  case (intake_slots es t h g')
  then show ?case
    using follow_env [of es "the_store t" "the_slots t" g'] by simp
qed

end

section \<open>The gate as the source of slots\<close>

lemma kept_gate [simp]: "Kept gate_slot_ops = is_kept"
  by (simp add: gate_slot_ops_def)

text \<open>Between the intake's calls the gate admits events, and the deliverer returns a slot no
  store kept; a slot is offered with its event while it is held.\<close>

definition gate_moves :: "delivery_gate \<Rightarrow> delivery_gate \<Rightarrow> bool" where
  "gate_moves g g' \<longleftrightarrow>
     (\<exists>kind measured d. gate_admit g kind measured = Some (d, g'))
   \<or> (\<exists>i path. i < length (gate_slots g) \<and> \<not> is_kept g i \<and> snd (refund g i path) = g')"

definition gate_offers :: "delivery_gate \<Rightarrow> nat \<Rightarrow> bool" where
  "gate_offers g i \<longleftrightarrow> i < length (gate_slots g) \<and> i \<notin> returned_slots g"

lemma admit_slots:
  assumes "gate_inv g" "gate_admit g kind measured = Some (d, g')"
  shows "returned_slots g' = returned_slots g" "length (gate_slots g) \<le> length (gate_slots g')"
    "\<And>i. i < length (gate_slots g) \<Longrightarrow> is_kept g' i = is_kept g i"
  using assms by (auto simp: admit_eqs Let_def reserved_def returned_slots_def is_kept_def nth_append less_Suc_eq
      split: if_splits)

lemma gate_moves_ok:
  assumes "gate_inv g" "gate_moves g g'"
  shows "gate_inv g' \<and> length (gate_slots g) \<le> length (gate_slots g')
    \<and> (\<forall>i < length (gate_slots g). is_kept g i \<longrightarrow> is_kept g' i \<and> (i \<in> returned_slots g' \<longleftrightarrow> i \<in> returned_slots g))"
  using assms(2) unfolding gate_moves_def
proof (elim disjE exE conjE)
  fix kind measured d assume "gate_admit g kind measured = Some (d, g')"
  with admit_inv [OF assms(1) this] admit_slots [OF assms(1) this] show ?thesis by auto
next
  fix i path assume i: "i < length (gate_slots g)" "\<not> is_kept g i" "snd (refund g i path) = g'"
  then have r: "refund g i path = (fst (refund g i path), g')" by auto
  have "length (gate_slots g') = length (gate_slots g)"
    using refund_returned [OF i(1) r] by (simp add: issued_slots_def)
  with refund_inv [OF assms(1) i(1) r] refund_returned [OF i(1) r] refund_is_kept [OF i(1), of path] i
  show ?thesis by auto
qed

interpretation gate_source: slot_source gate_slot_ops gate_inv issued_slots returned_slots gate_moves gate_offers
proof
  fix g g' assume "gate_inv g" "gate_moves g g'"
  from gate_moves_ok [OF this] show "gate_inv g' \<and> issued_slots g \<subseteq> issued_slots g'"
    by (auto simp: issued_slots_def)
next
  fix g g' i assume "gate_inv g" "gate_moves g g'" "i \<in> issued_slots g" "Kept gate_slot_ops g i"
  with gate_moves_ok [of g g'] show "Kept gate_slot_ops g' i \<and> (i \<in> returned_slots g') = (i \<in> returned_slots g)"
    by (simp add: gate_slot_ops_def)
qed (simp add: gate_offers_def)

text \<open>
  C31: A slot follows its input.  While the intake runs beside the gate - events admitted and unkept
  slots returned in between, and no slot offered twice - the slot of every accepted input is kept, and the
  gate has it back exactly when \<open>Take\<close> gave the input's entry to a worker and that worker released it.
  Until then it stays with its entry.  Closing the store returns none: the slot of an entry discarded by
  \<open>Close\<close> is still held when no worker can be given that entry any more.
\<close>

theorem slots_follow_entries:
  assumes "new_store limit = Inr s0" "limit < half64" "sizes_ok z" "new_delivery_gate allowance = Inr g0"
    and run: "intake_run z gate_slot_ops gate_moves gate_offers (at_start s0 g0) es t h"
    and "distinct (offered_slots (accepted_inputs es))"
    and "i < length (accepted_inputs es)" "input_slot (accepted_inputs es ! i) = Some k"
  shows "is_kept (the_slots t) k
    \<and> (k \<in> returned_slots (the_slots t) \<longleftrightarrow>
        i < length (taken_entries es) \<and> (\<exists>path. ReleasedEntry i path \<in> set es))
    \<and> en_slot (entries (the_store t) ! i) = (if k \<in> returned_slots (the_slots t) then None else Some k)"
proof -
  have start: "intake_inv (the_store (at_start s0 g0)) 0" "entries (the_store (at_start s0 g0)) = []"
    "gate_inv (the_slots (at_start s0 g0))"
    using new_store_inv [OF assms(1,2)] new_gate_inv [OF assms(4)] assms(1)
    by (auto simp: at_start_def new_store_def zero_store_def split: if_splits)
  have "gate_source.follow es (the_store t) (the_slots t)"
    using gate_source.intake_run_follow [OF run start(1) assms(3) start(2,3) assms(6)] .
  with assms(7,8) have "gate_source.follows (the_slots t) (accepted_inputs es ! i) (entries (the_store t) ! i)"
    and "en_slot (entries (the_store t) ! i) = None \<longleftrightarrow> i < length (taken_entries es) \<and> (\<exists>path. ReleasedEntry i path \<in> set es)"
    using gate_source.followD [of es "the_store t" "the_slots t" i] by (auto simp: gate_source.follow_def worker_released_def)
  with assms(8) show ?thesis
    unfolding gate_source.follows_def by auto
qed

text \<open>An event admitted, delivered, taken and released.\<close>

lemma sample_slot_run:
  obtains x e t where "input_slot x = Some 0"
    "intake_run sample_sizes gate_slot_ops gate_moves gate_offers
      (at_start (zero_store\<lparr>LimitBytes := 4000, exhausted := OpenChannel\<rparr>) (sample_gate 1))
      [SlotsMoved, Offered x None, Took (Some (0, e)), ReleasedEntry 0 Processed] t 1"
proof -
  let ?s = "zero_store\<lparr>LimitBytes := 4000, exhausted := OpenChannel\<rparr>"
  let ?x = "ConnectionInput ((sample_connection [])\<lparr>cr_slot := Some 0\<rparr>)"
  have s0: "new_store 4000 = Inr ?s" by (simp add: new_store_def)
  have ok: "sizes_ok sample_sizes" by (simp add: sizes_ok_def sample_sizes_def)
  note inv = new_store_inv [OF s0]
  obtain d g where adm: "gate_admit (sample_gate 1) DeliveryTransfer True = Some (d, g)"
    and g: "gate_slots g = [\<lparr>kept = False, returned = False\<rparr>]"
    by (simp add: gate_evals Let_def)
  then have move: "gate_moves (the_slots (at_start ?s (sample_gate 1))) g"
    by (auto simp: gate_moves_def at_start_def)
  note run1 = intake_slots [where P = gate_slot_ops and E = gate_moves and V = gate_offers and z = sample_sizes, OF intake_start move]
  have small: "cost (input_adds sample_sizes ?x) \<le> left ?s"
    by (simp add: connection_adds_def association_adds_def sample_sizes_def sample_connection_def
        sample_association_def sample_instance_def counted_def at_address_def left_def zero_store_def wrap64_bounds)
  obtain s1 ls1 g1 where off: "offer sample_sizes gate_slot_ops ?s no_losses g ?x = Some (None, s1, ls1, g1)"
    using small offer_eq [OF inv ok, of gate_slot_ops no_losses g ?x] by (simp add: zero_store_def)
  have run2: "intake_run sample_sizes gate_slot_ops gate_moves gate_offers (at_start ?s (sample_gate 1))
      (([] @ [SlotsMoved]) @ [Offered ?x None]) \<lparr>the_store = s1, the_losses = ls1, the_slots = g1\<rparr> 0"
    using off g by (intro intake_offer [OF run1])
      (auto simp: at_start_def may_offer_def gate_offers_def returned_slots_def)
  have inv1: "intake_inv s1 0" using offer_inv [OF inv ok off] by simp
  have "0 < length (entries s1)"
    using offer_entries(2) [OF inv ok off] by (auto simp: list_all2_lengthD)
  moreover obtain i s2 where two: "take_entry s1 = (i, s2)" by fastforce
  ultimately have "i = Some 0" using take_inv [OF inv1 two] by auto
  with two have two: "take_entry s1 = (Some 0, s2)" by simp
  from intake_take [OF run2, of 0 s2] two have run3: "intake_run sample_sizes gate_slot_ops gate_moves gate_offers
      (at_start ?s (sample_gate 1)) [SlotsMoved, Offered ?x None, Took (Some (0, entries s1 ! 0))]
      \<lparr>the_store = s2, the_losses = ls1, the_slots = g1\<rparr> 1" by simp
  obtain s3 g3 where "release_as gate_slot_ops s2 g1 (Some 0) Processed = (s3, g3)" by fastforce
  with intake_release [OF run3, of 0 Processed s3 g3] that [of ?x] show thesis by simp
qed

theorem slots_follow_entries_witness:
  "\<exists>x e t. input_slot x = Some 0
    \<and> intake_run sample_sizes gate_slot_ops gate_moves gate_offers
        (at_start (zero_store\<lparr>LimitBytes := 4000, exhausted := OpenChannel\<rparr>) (sample_gate 1))
        [SlotsMoved, Offered x None, Took (Some (0, e)), ReleasedEntry 0 Processed] t 1
    \<and> is_kept (the_slots t) 0 \<and> 0 \<in> returned_slots (the_slots t) \<and> en_slot (entries (the_store t) ! 0) = None"
proof -
  obtain x e t where x: "input_slot x = Some 0"
    and run: "intake_run sample_sizes gate_slot_ops gate_moves gate_offers
      (at_start (zero_store\<lparr>LimitBytes := 4000, exhausted := OpenChannel\<rparr>) (sample_gate 1))
      [SlotsMoved, Offered x None, Took (Some (0, e)), ReleasedEntry 0 Processed] t 1"
    by (rule sample_slot_run)
  have s0: "new_store 4000 = Inr (zero_store\<lparr>LimitBytes := 4000, exhausted := OpenChannel\<rparr>)" by (simp add: new_store_def)
  have ok: "sizes_ok sample_sizes" by (simp add: sizes_ok_def sample_sizes_def)
  from slots_follow_entries [OF s0 _ ok sample_gate_new run, of 0 0] x
  have "is_kept (the_slots t) 0 \<and> 0 \<in> returned_slots (the_slots t) \<and> en_slot (entries (the_store t) ! 0) = None" by auto
  with x run show ?thesis by blast
qed

end
