(* ===== verification/Sink_Queue.thy ===== *)
theory Sink_Queue
  imports Int64 Held "HOL-Library.Word" "HOL-Library.Multiset"
begin

text \<open>
  Package \<open>sink\<close>: the bounded queue that delivers finished lines best effort (\<open>queue.go\<close>,
  \<open>sink.go\<close>) and the writing of one line (\<open>final.go\<close>).

  The queue's lock makes each critical section one step; the runner takes three of them per
  line (take it, see whether it was discarded meanwhile, settle its outcome), with the
  write outside the lock in between, so enqueues, closings and freezes interleave with a
  write as they do in the source.  The \<open>uint64\<close> counters are \<open>64 word\<close>s; the \<open>int64\<close> byte
  counts wrap (\<open>wrap64\<close>) and the invariant shows that the pending bytes never do.  The
  destinations are an association list from names.  Channels that only wake a waiter
  (\<open>wake\<close>, \<open>changed\<close>) carry no data and are left out.
\<close>

section \<open>State\<close>

record sink_stats =
  AuthorizedLines :: "64 word"
  WrittenLines :: "64 word"
  FailedLines :: "64 word"
  DroppedLines :: "64 word"
  PendingLines :: "64 word"
  DiscardedLines :: "64 word"
  DeliveredBytes :: int
  PendingBytes :: int
  HighWaterBytes :: int
  QueueLimit :: int

record destination =
  dest_stats :: sink_stats
  dirty :: bool
  dest_frozen :: "sink_stats option"
  final :: bool
  final_line :: "bytes option"

record queued_line =
  to_name :: string
  line :: bytes
  item_discarded :: bool

datatype runner = RunnerIdle | RunnerTook | RunnerWriting bool

record queue_state =
  destinations :: "(string \<times> destination) list"
  items :: "queued_line list"
  inflight :: "queued_line option"
  queue_stats :: sink_stats
  closed :: bool
  closing :: bool
  frozen :: "sink_stats option"
  running :: runner

datatype queue_error =
  ErrQueueFull | ErrQueueClosed | NonPositiveBound | DuplicateDestination | UnknownDestination | IncompleteLine
| ContextEnded

definition zero_stats :: "int \<Rightarrow> sink_stats" where
  "zero_stats limit = \<lparr>AuthorizedLines = 0, WrittenLines = 0, FailedLines = 0, DroppedLines = 0, PendingLines = 0, DiscardedLines = 0,
     DeliveredBytes = 0, PendingBytes = 0, HighWaterBytes = 0, QueueLimit = limit\<rparr>"

definition new_queue :: "int \<Rightarrow> queue_error + queue_state" where
  "new_queue limit =
    (if limit \<le> 0 then Inl NonPositiveBound
     else Inr \<lparr>destinations = [], items = [], inflight = None, queue_stats = zero_stats limit, closed = False,
       closing = False, frozen = None, running = RunnerIdle\<rparr>)"

definition update_dest :: "string \<Rightarrow> (destination \<Rightarrow> destination) \<Rightarrow> queue_state \<Rightarrow> queue_state" where
  "update_dest name f st =
    st\<lparr>destinations := map (\<lambda>(k, d). (k, if k = name then f d else d)) (destinations st)\<rparr>"

text \<open>\<open>for _, v := range []*Stats{&st.stats, &d.stats}\<close>\<close>

definition update_both :: "string \<Rightarrow> (sink_stats \<Rightarrow> sink_stats) \<Rightarrow> queue_state \<Rightarrow> queue_state" where
  "update_both name f st =
    update_dest name (\<lambda>d. d\<lparr>dest_stats := f (dest_stats d)\<rparr>) (st\<lparr>queue_stats := f (queue_stats st)\<rparr>)"

section \<open>Operations\<close>

definition register :: "queue_state \<Rightarrow> string \<Rightarrow> bool \<Rightarrow> queue_error option \<times> queue_state" where
  "register st name no_sink =
    (if no_sink \<or> name = [] then (Some ErrQueueClosed, st)
     else if closed st then (Some ErrQueueClosed, st)
     else if map_of (destinations st) name \<noteq> None then (Some DuplicateDestination, st)
     else (None, st\<lparr>destinations := destinations st @
        [(name, \<lparr>dest_stats = zero_stats (QueueLimit (queue_stats st)), dirty = False, dest_frozen = None,
                 final = False, final_line = None\<rparr>)]\<rparr>))"

definition complete_line :: "bytes \<Rightarrow> bool" where
  "complete_line l \<longleftrightarrow> l \<noteq> [] \<and> last l = CHR 0x0A"

definition stat_authorized :: "sink_stats \<Rightarrow> sink_stats" where
  "stat_authorized v = v\<lparr>AuthorizedLines := AuthorizedLines v + 1\<rparr>"

definition stat_dropped :: "sink_stats \<Rightarrow> sink_stats" where
  "stat_dropped v = v\<lparr>DroppedLines := DroppedLines v + 1\<rparr>"

definition stat_queued :: "int \<Rightarrow> sink_stats \<Rightarrow> sink_stats" where
  "stat_queued n v =
    (let p = wrap64 (PendingBytes v + n) in
     v\<lparr>PendingLines := PendingLines v + 1, PendingBytes := p,
       HighWaterBytes := (if p > HighWaterBytes v then p else HighWaterBytes v)\<rparr>)"

definition enqueue :: "queue_state \<Rightarrow> string \<Rightarrow> bytes \<Rightarrow> queue_error option \<times> queue_state" where
  "enqueue st name l =
    (if map_of (destinations st) name = None then (Some UnknownDestination, st)
     else if \<not> complete_line l then (Some IncompleteLine, st)
     else if frozen st \<noteq> None then (Some ErrQueueClosed, st)
     else
       let st1 = update_both name stat_authorized st in
       if closed st then (Some ErrQueueClosed, update_both name stat_dropped st1)
       else if int (length l) > wrap64 (QueueLimit (queue_stats st1) - PendingBytes (queue_stats st1))
       then (Some ErrQueueFull, update_both name stat_dropped st1)
       else (None, update_both name (stat_queued (int (length l)))
              (st1\<lparr>items := items st1 @ [\<lparr>to_name = name, line = l, item_discarded = False\<rparr>]\<rparr>)))"

text \<open>The runner's three critical sections.  \<open>run_take\<close> is not enabled while the queue is empty or a
  line is under way.\<close>

definition run_take :: "queue_state \<Rightarrow> queue_state option" where
  "run_take st =
    (if running st \<noteq> RunnerIdle then None
     else case items st of
       [] \<Rightarrow> None
     | item # rest \<Rightarrow> Some (st\<lparr>items := rest, inflight := Some item, running := RunnerTook\<rparr>))"

definition run_check :: "queue_state \<Rightarrow> queue_state option" where
  "run_check st =
    (case (running st, inflight st) of
       (RunnerTook, Some item) \<Rightarrow> Some (st\<lparr>running := RunnerWriting (item_discarded item)\<rparr>)
     | _ \<Rightarrow> None)"

definition stat_settled :: "int \<Rightarrow> bool \<Rightarrow> int \<Rightarrow> bool \<Rightarrow> sink_stats \<Rightarrow> sink_stats" where
  "stat_settled len dropped n failed v =
    (let v1 = v\<lparr>PendingBytes := wrap64 (PendingBytes v - len)\<rparr> in
     if dropped then v1
     else
       (let v2 = v1\<lparr>PendingLines := PendingLines v1 - 1, DeliveredBytes := wrap64 (DeliveredBytes v1 + n)\<rparr> in
        if failed then v2\<lparr>FailedLines := FailedLines v2 + 1\<rparr> else v2\<lparr>WrittenLines := WrittenLines v2 + 1\<rparr>))"

definition run_settle :: "queue_state \<Rightarrow> int \<Rightarrow> bool \<Rightarrow> queue_state option" where
  "run_settle st n failed =
    (case (running st, inflight st) of
       (RunnerWriting was_discarded, Some item) \<Rightarrow>
         let (n', failed') = (if was_discarded then (0, False) else (n, failed)) in
         Some ((update_both (to_name item) (stat_settled (int (length (line item))) (item_discarded item) n' failed') st)
                \<lparr>inflight := None, running := RunnerIdle\<rparr>)
     | _ \<Rightarrow> None)"

definition close_admission :: "queue_state \<Rightarrow> queue_state" where
  "close_admission st = st\<lparr>closed := True\<rparr>"

definition stat_discarded :: "bool \<Rightarrow> int \<Rightarrow> sink_stats \<Rightarrow> sink_stats" where
  "stat_discarded under_way len v =
    (let v1 = v\<lparr>PendingLines := PendingLines v - 1, DroppedLines := DroppedLines v + 1, DiscardedLines := DiscardedLines v + 1\<rparr> in
     if under_way then v1 else v1\<lparr>PendingBytes := wrap64 (PendingBytes v1 - len)\<rparr>)"

definition discard_item :: "bool \<Rightarrow> queued_line \<Rightarrow> queue_state \<Rightarrow> queue_state" where
  "discard_item under_way item st =
    (if item_discarded item then st
     else update_both (to_name item) (stat_discarded under_way (int (length (line item)))) st)"

fun discard_items :: "queued_line list \<Rightarrow> queue_state \<Rightarrow> queue_state" where
  "discard_items [] st = st"
| "discard_items (item # rest) st = discard_items rest (discard_item False item st)"

definition freeze :: "queue_state \<Rightarrow> queue_state" where
  "freeze st =
    (if frozen st \<noteq> None then st
     else
       let st1 = (discard_items (items st) (st\<lparr>closed := True\<rparr>))\<lparr>items := []\<rparr>;
           st2 = (case inflight st1 of
                    None \<Rightarrow> st1
                  | Some item \<Rightarrow> (discard_item True item st1)\<lparr>inflight := Some (item\<lparr>item_discarded := True\<rparr>)\<rparr>)
       in st2\<lparr>frozen := Some (queue_stats st2),
              destinations := map (\<lambda>(k, d). (k, d\<lparr>dest_frozen := Some (dest_stats d)\<rparr>)) (destinations st2)\<rparr>)"

definition stats_of :: "queue_state \<Rightarrow> string \<Rightarrow> sink_stats" where
  "stats_of st name =
    (if name = [] then (case frozen st of Some f \<Rightarrow> f | None \<Rightarrow> queue_stats st)
     else case map_of (destinations st) name of
       None \<Rightarrow> zero_stats 0
     | Some d \<Rightarrow> (case dest_frozen d of Some f \<Rightarrow> f | None \<Rightarrow> dest_stats d))"

definition retained_lines :: "queue_state \<Rightarrow> nat" where
  "retained_lines st =
    length (items st) + length (filter (\<lambda>(_, d). final_line d \<noteq> None) (destinations st))
    + (if inflight st \<noteq> None then 1 else 0)"

definition is_drained :: "queue_state \<Rightarrow> bool" where
  "is_drained st \<longleftrightarrow> PendingLines (queue_stats st) = 0"

definition begin_closing :: "queue_state \<Rightarrow> queue_state" where
  "begin_closing st = st\<lparr>closing := True\<rparr>"

text \<open>\<open>WriteFinal\<close> up to its line being owned: the claim under the lock, and the second look once
  the destination's boundary is held.  \<open>cancelled\<close> and \<open>looks\<close> are what its looks at the context find;
  a wait for the boundary that the context ends is a claim with no step after it.\<close>

definition final_claim :: "queue_state \<Rightarrow> string \<Rightarrow> bytes \<Rightarrow> bool \<Rightarrow> queue_error option \<times> queue_state" where
  "final_claim st name l cancelled =
    (if cancelled then (Some ContextEnded, st)
     else case map_of (destinations st) name of
       None \<Rightarrow> (Some ErrQueueClosed, st)
     | Some d \<Rightarrow>
         if frozen st = None \<or> closing st \<or> final d then (Some ErrQueueClosed, st)
         else if \<not> complete_line l then (Some IncompleteLine, st)
         else if int (length l) > QueueLimit (queue_stats st) then (Some ErrQueueFull, st)
         else (None, update_dest name (\<lambda>d. d\<lparr>final := True\<rparr>) st))"

definition final_own :: "queue_state \<Rightarrow> string \<Rightarrow> bytes \<Rightarrow> bool \<times> bool \<Rightarrow> queue_error option \<times> queue_state" where
  "final_own st name l looks =
    (if closing st \<or> fst looks then (Some (if snd looks then ContextEnded else ErrQueueClosed), st)
     else (None, update_dest name (\<lambda>d. d\<lparr>final_line := Some l\<rparr>) st))"

definition final_done :: "queue_state \<Rightarrow> string \<Rightarrow> queue_state" where
  "final_done st name = update_dest name (\<lambda>d. d\<lparr>final_line := None\<rparr>) st"


section \<open>The invariant\<close>

definition bytes_of :: "queued_line list \<Rightarrow> int" where
  "bytes_of ls = sum_list (map (\<lambda>x. int (length (line x))) ls)"

definition live_of :: "queued_line list \<Rightarrow> nat" where
  "live_of ls = length (filter (\<lambda>x. \<not> item_discarded x) ls)"

definition stat_ok :: "int \<Rightarrow> queued_line list \<Rightarrow> sink_stats \<Rightarrow> bool" where
  "stat_ok limit ls v \<longleftrightarrow>
     AuthorizedLines v = WrittenLines v + FailedLines v + DroppedLines v + PendingLines v
   \<and> PendingLines v = of_nat (live_of ls) \<and> PendingBytes v = bytes_of ls
   \<and> PendingBytes v \<le> HighWaterBytes v \<and> HighWaterBytes v \<le> limit \<and> QueueLimit v = limit \<and> limit < half64"

definition held_lines :: "queue_state \<Rightarrow> queued_line list" where
  "held_lines st = (case inflight st of None \<Rightarrow> [] | Some x \<Rightarrow> [x]) @ items st"

definition queue_ok :: "int \<Rightarrow> queue_state \<Rightarrow> queued_line list \<Rightarrow> bool" where
  "queue_ok limit st ls \<longleftrightarrow>
     stat_ok limit ls (queue_stats st)
   \<and> (\<forall>k d. (k, d) \<in> set (destinations st) \<longrightarrow> stat_ok limit (filter (\<lambda>x. to_name x = k) ls) (dest_stats d))
   \<and> to_name ` set ls \<subseteq> fst ` set (destinations st) \<and> distinct (map fst (destinations st))"

definition queue_inv :: "int \<Rightarrow> queue_state \<Rightarrow> bool" where
  "queue_inv limit st \<longleftrightarrow>
     queue_ok limit st (held_lines st)
   \<and> list_all (\<lambda>x. \<not> item_discarded x) (items st)
   \<and> (frozen st = None \<longrightarrow> (\<forall>x. inflight st = Some x \<longrightarrow> \<not> item_discarded x))
   \<and> (frozen st \<noteq> None \<longrightarrow> closed st \<and> items st = [])
   \<and> (running st = RunnerIdle \<longleftrightarrow> inflight st = None)
   \<and> (\<forall>k d. (k, d) \<in> set (destinations st) \<longrightarrow> (dest_frozen d = None \<longleftrightarrow> frozen st = None))"

lemma queue_invD:
  assumes "queue_inv limit st"
  shows "queue_ok limit st (held_lines st)" "list_all (\<lambda>x. \<not> item_discarded x) (items st)"
    "\<And>x. frozen st = None \<Longrightarrow> inflight st = Some x \<Longrightarrow> \<not> item_discarded x" "running st = RunnerIdle \<longleftrightarrow> inflight st = None"
    "frozen st \<noteq> None \<Longrightarrow> closed st \<and> items st = []"
    "\<And>k d. (k, d) \<in> set (destinations st) \<Longrightarrow> dest_frozen d = None \<longleftrightarrow> frozen st = None"
  using assms unfolding queue_inv_def by blast+

lemma queue_invI:
  assumes "queue_ok limit st (held_lines st)" "list_all (\<lambda>x. \<not> item_discarded x) (items st)"
    "\<And>x. frozen st = None \<Longrightarrow> inflight st = Some x \<Longrightarrow> \<not> item_discarded x" "running st = RunnerIdle \<longleftrightarrow> inflight st = None"
    "frozen st \<noteq> None \<Longrightarrow> closed st \<and> items st = []"
    "\<And>k d. (k, d) \<in> set (destinations st) \<Longrightarrow> dest_frozen d = None \<longleftrightarrow> frozen st = None"
  shows "queue_inv limit st"
  using assms unfolding queue_inv_def by blast

lemma bytes_of_simps [simp]: "bytes_of [] = 0" "bytes_of (x # xs) = int (length (line x)) + bytes_of xs"
  "bytes_of (xs @ ys) = bytes_of xs + bytes_of ys"
  by (simp_all add: bytes_of_def)

lemma live_of_simps [simp]: "live_of [] = 0" "live_of (x # xs) = (if item_discarded x then 0 else 1) + live_of xs"
  "live_of (xs @ ys) = live_of xs + live_of ys"
  by (simp_all add: live_of_def)

lemma bytes_of_nonneg [simp]: "0 \<le> bytes_of ls"
  by (induction ls) auto

lemma bytes_of_filter: "bytes_of (filter P ls) \<le> bytes_of ls"
  by (induction ls) auto

lemma bytes_of_mset: "mset ls = mset ls' \<Longrightarrow> bytes_of ls = bytes_of ls'"
  by (simp add: bytes_of_def sum_mset_sum_list [symmetric])

lemma live_of_mset: "mset ls = mset ls' \<Longrightarrow> live_of ls = live_of ls'"
  unfolding live_of_def by (metis mset_filter size_mset)

lemma stat_ok_mset: "mset ls = mset ls' \<Longrightarrow> stat_ok limit ls v \<Longrightarrow> stat_ok limit ls' v"
  by (auto simp: stat_ok_def bytes_of_mset [of ls ls'] live_of_mset [of ls ls'])

lemma queue_ok_mset:
  assumes "mset ls = mset ls'" "queue_ok limit st ls"
  shows "queue_ok limit st ls'"
proof -
  have "mset (filter P ls) = mset (filter P ls')" for P
    using assms(1) by (simp add: mset_filter)
  moreover have "set ls = set ls'"
    using assms(1) by (rule mset_eq_setD)
  ultimately show ?thesis
    using assms stat_ok_mset [of ls ls'] stat_ok_mset [of "filter _ ls" "filter _ ls'"]
    unfolding queue_ok_def by auto
qed

lemma queue_ok_cong:
  assumes "queue_ok limit st ls" "queue_stats st' = queue_stats st"
    and names: "map fst (destinations st') = map fst (destinations st)"
    and dests: "\<And>k d. (k, d) \<in> set (destinations st') \<Longrightarrow> \<exists>d'. (k, d') \<in> set (destinations st) \<and> dest_stats d = dest_stats d'"
  shows "queue_ok limit st' ls"
proof -
  have "fst ` set (destinations st') = fst ` set (destinations st)"
    using arg_cong [OF names, of set] by simp
  moreover have "stat_ok limit (filter (\<lambda>x. to_name x = k) ls) (dest_stats d)"
    if "(k, d) \<in> set (destinations st')" for k d
    using dests [OF that] assms(1) by (auto simp: queue_ok_def)
  ultimately show ?thesis
    using assms(1-3) by (simp add: queue_ok_def)
qed

lemma queue_ok_same:
  "queue_ok limit st ls \<Longrightarrow> queue_stats st' = queue_stats st \<Longrightarrow> destinations st' = destinations st \<Longrightarrow>
    queue_ok limit st' ls"
  by (simp add: queue_ok_def)

lemma update_both_fields [simp]:
  "queue_stats (update_both name f st) = f (queue_stats st)"
  "items (update_both name f st) = items st" "inflight (update_both name f st) = inflight st"
  "frozen (update_both name f st) = frozen st" "closed (update_both name f st) = closed st"
  "running (update_both name f st) = running st" "closing (update_both name f st) = closing st"
  by (simp_all add: update_both_def update_dest_def)

lemma update_both_dests:
  "map fst (destinations (update_both name f st)) = map fst (destinations st)"
  "fst ` set (destinations (update_both name f st)) = fst ` set (destinations st)"
  "(k, d) \<in> set (destinations (update_both name f st)) \<longleftrightarrow>
    (\<exists>d'. (k, d') \<in> set (destinations st) \<and> d = (if k = name then d'\<lparr>dest_stats := f (dest_stats d')\<rparr> else d'))"
proof -
  have names: "map fst (map (\<lambda>(k, d). (k, g k d)) xs) = map fst xs" for g :: "string \<Rightarrow> destination \<Rightarrow> destination" and xs
    by (induction xs) auto
  show "map fst (destinations (update_both name f st)) = map fst (destinations st)"
    using names [of "\<lambda>k d. if k = name then d\<lparr>dest_stats := f (dest_stats d)\<rparr> else d"]
    by (simp add: update_both_def update_dest_def)
  then show "fst ` set (destinations (update_both name f st)) = fst ` set (destinations st)"
    by (metis set_map)
  show "(k, d) \<in> set (destinations (update_both name f st)) \<longleftrightarrow>
    (\<exists>d'. (k, d') \<in> set (destinations st) \<and> d = (if k = name then d'\<lparr>dest_stats := f (dest_stats d')\<rparr> else d'))"
    by (force simp: update_both_def update_dest_def)
qed

text \<open>One step's change of the statistics against the change of the lines they count.\<close>

lemma queue_ok_update:
  assumes "queue_ok limit st ls"
    and whole: "\<And>v. stat_ok limit ls v \<Longrightarrow> stat_ok limit ls' (f v)"
    and one: "\<And>v. stat_ok limit (filter (\<lambda>x. to_name x = name) ls) v \<Longrightarrow>
      stat_ok limit (filter (\<lambda>x. to_name x = name) ls') (f v)"
    and others: "\<And>k. k \<noteq> name \<Longrightarrow> filter (\<lambda>x. to_name x = k) ls' = filter (\<lambda>x. to_name x = k) ls"
    and names: "to_name ` set ls' \<subseteq> fst ` set (destinations st)"
  shows "queue_ok limit (update_both name f st) ls'"
proof -
  have "stat_ok limit (filter (\<lambda>x. to_name x = k) ls') (dest_stats d)"
    if "(k, d) \<in> set (destinations (update_both name f st))" for k d
    using that assms(1) one others [of k] by (auto simp: update_both_dests queue_ok_def)
  with assms(1) whole names show ?thesis
    by (auto simp: queue_ok_def update_both_dests(1,2))
qed


lemma stat_dropped_ok: "stat_ok limit ls v \<Longrightarrow> stat_ok limit ls (stat_dropped (stat_authorized v))"
  by (simp add: stat_ok_def stat_dropped_def stat_authorized_def)

lemma stat_queued_ok:
  assumes "stat_ok limit ls v" "\<not> item_discarded x" "bytes_of ls + int (length (line x)) \<le> limit"
  shows "stat_ok limit (ls @ [x]) (stat_queued (int (length (line x))) (stat_authorized v))"
proof -
  have "wrap64 (bytes_of ls + int (length (line x))) = bytes_of ls + int (length (line x))"
    using assms by (intro wrap64_nonneg) (auto simp: stat_ok_def)
  with assms show ?thesis
    by (simp add: stat_ok_def stat_queued_def stat_authorized_def Let_def)
qed

lemma stat_settled_ok:
  assumes "stat_ok limit (x # ls) v"
  shows "stat_ok limit ls (stat_settled (int (length (line x))) (item_discarded x) n failed v)"
proof -
  have "wrap64 (bytes_of ls) = bytes_of ls"
    using assms by (intro wrap64_nonneg) (auto simp: stat_ok_def)
  with assms show ?thesis
    by (auto simp: stat_ok_def stat_settled_def Let_def)
qed

lemma stat_discarded_ok:
  assumes "stat_ok limit (x # ls) v" "\<not> item_discarded x"
  shows "stat_ok limit ls (stat_discarded False (int (length (line x))) v)"
    "stat_ok limit (x\<lparr>item_discarded := True\<rparr> # ls) (stat_discarded True (int (length (line x))) v)"
proof -
  have "wrap64 (bytes_of ls) = bytes_of ls"
    using assms by (intro wrap64_nonneg) (auto simp: stat_ok_def)
  with assms show "stat_ok limit ls (stat_discarded False (int (length (line x))) v)"
    "stat_ok limit (x\<lparr>item_discarded := True\<rparr> # ls) (stat_discarded True (int (length (line x))) v)"
    by (auto simp: stat_ok_def stat_discarded_def Let_def)
qed

lemma new_queue_inv: "new_queue limit = Inr st \<Longrightarrow> limit < half64 \<Longrightarrow> queue_inv limit st"
  by (auto simp: new_queue_def queue_inv_def queue_ok_def stat_ok_def zero_stats_def held_lines_def
      split: if_splits)

lemma register_inv:
  assumes "queue_inv limit st" "register st name no_sink = (err, st')"
  shows "queue_inv limit st'"
proof (cases "err = None")
  case True
  then have st': "st' = st\<lparr>destinations := destinations st @ [(name, \<lparr>dest_stats = zero_stats (QueueLimit (queue_stats st)),
      dirty = False, dest_frozen = None, final = False, final_line = None\<rparr>)]\<rparr>"
    and new: "name \<notin> fst ` set (destinations st)" and op: "\<not> closed st"
    using assms(2) by (auto simp: register_def map_of_eq_None_iff split: if_splits)
  have limit: "QueueLimit (queue_stats st) = limit" "limit < half64" "0 \<le> limit"
    using assms(1) bytes_of_nonneg [of "held_lines st"]
    unfolding queue_inv_def queue_ok_def stat_ok_def by linarith+
  have "filter (\<lambda>x. to_name x = name) (held_lines st) = []"
    using assms(1) new by (auto simp: queue_inv_def queue_ok_def filter_empty_conv)
  then have "stat_ok limit (filter (\<lambda>x. to_name x = name) (held_lines st)) (zero_stats limit)"
    using limit by (simp add: stat_ok_def zero_stats_def)
  moreover have "held_lines st' = held_lines st"
    by (simp add: st' held_lines_def)
  moreover have "frozen st = None"
    using assms(1) op by (auto simp: queue_inv_def)
  ultimately show ?thesis
    using assms(1) new limit by (auto simp: queue_inv_def queue_ok_def st')
next
  case False
  with assms show ?thesis
    by (auto simp: register_def split: if_splits)
qed

lemma queue_inv_stats:
  assumes "queue_inv limit st" "queue_ok limit st' (held_lines st')" "items st' = items st"
    "inflight st' = inflight st" "frozen st' = frozen st" "closed st' = closed st" "running st' = running st"
    "\<And>k d. (k, d) \<in> set (destinations st') \<Longrightarrow> \<exists>d'. (k, d') \<in> set (destinations st) \<and> dest_frozen d = dest_frozen d'"
  shows "queue_inv limit st'"
  using assms unfolding queue_inv_def by fastforce

lemma update_both_frozen:
  "(k, d) \<in> set (destinations (update_both name f st)) \<Longrightarrow>
    \<exists>d'. (k, d') \<in> set (destinations st) \<and> dest_frozen d = dest_frozen d'"
  by (auto simp: update_both_dests split: if_splits)

lemma update_both_all_frozen:
  "\<forall>k d. (k, d) \<in> set (destinations st) \<longrightarrow> (dest_frozen d = None) = b \<Longrightarrow>
   \<forall>k d. (k, d) \<in> set (destinations (update_both name f st)) \<longrightarrow> (dest_frozen d = None) = b"
  by (auto simp: update_both_dests split: if_splits)

lemma update_both_twice:
  "update_both name f (update_both name g st) = update_both name (f \<circ> g) st"
  by (auto simp: update_both_def update_dest_def comp_def split_beta)

lemma enqueue_inv:
  assumes "queue_inv limit st" "enqueue st name l = (err, st')"
  shows "queue_inv limit st'"
proof -
  have ok: "queue_ok limit st (held_lines st)"
    using assms(1) by (simp add: queue_inv_def)
  let ?drop = "update_both name (stat_dropped \<circ> stat_authorized) st"
  have "queue_ok limit ?drop (held_lines st)"
    using ok by (intro queue_ok_update [OF ok]) (auto simp: stat_dropped_ok queue_ok_def)
  then have dropped: "queue_inv limit ?drop"
    by (intro queue_inv_stats [OF assms(1)]) (auto simp: held_lines_def dest: update_both_frozen)
  show ?thesis
  proof (cases "err = None")
    case True
    let ?x = "\<lparr>to_name = name, line = l, item_discarded = False\<rparr>"
    let ?st = "update_both name (stat_queued (int (length l)) \<circ> stat_authorized) st"
    have known: "name \<in> fst ` set (destinations st)" and op: "frozen st = None" "\<not> closed st"
      and room: "int (length l) \<le> wrap64 (limit - bytes_of (held_lines st))"
      using assms(2) True ok
      by (auto simp: enqueue_def Let_def map_of_eq_None_iff stat_authorized_def queue_ok_def stat_ok_def split: if_splits)
    have st': "st' = ?st\<lparr>items := items st @ [?x]\<rparr>"
      using assms(2) True by (auto simp: enqueue_def Let_def update_both_def update_dest_def comp_def split_beta split: if_splits)
    have fits: "bytes_of (held_lines st) + int (length l) \<le> limit"
      using room ok bytes_of_nonneg [of "held_lines st"] wrap64_nonneg [of "limit - bytes_of (held_lines st)"]
      unfolding queue_ok_def stat_ok_def by linarith
    have "queue_ok limit ?st (held_lines st @ [?x])"
    proof (intro queue_ok_update [OF ok])
      fix v assume "stat_ok limit (held_lines st) v"
      from stat_queued_ok [OF this, of ?x] fits
      show "stat_ok limit (held_lines st @ [?x]) ((stat_queued (int (length l)) \<circ> stat_authorized) v)" by simp
    next
      fix v assume "stat_ok limit (filter (\<lambda>x. to_name x = name) (held_lines st)) v"
      from stat_queued_ok [OF this, of ?x] fits bytes_of_filter [of "\<lambda>x. to_name x = name" "held_lines st"]
      show "stat_ok limit (filter (\<lambda>x. to_name x = name) (held_lines st @ [?x]))
          ((stat_queued (int (length l)) \<circ> stat_authorized) v)" by simp
    qed (use ok known in \<open>auto simp: queue_ok_def\<close>)
    then show ?thesis
      using assms(1) op by (auto simp: queue_inv_def st' held_lines_def queue_ok_def dest: update_both_frozen)
  next
    case False
    then have "st' = st \<or> st' = ?drop"
      using assms(2) by (auto simp: enqueue_def Let_def update_both_twice split: if_splits)
    with assms(1) dropped show ?thesis by blast
  qed
qed


lemma run_take_inv:
  assumes "queue_inv limit st" "run_take st = Some st'"
  shows "queue_inv limit st'"
proof -
  obtain x rest where items: "items st = x # rest" and idle: "running st = RunnerIdle"
    and st': "st' = st\<lparr>items := rest, inflight := Some x, running := RunnerTook\<rparr>"
    using assms(2) by (auto simp: run_take_def split: if_splits list.splits)
  have none: "inflight st = None"
    using assms(1) idle by (simp add: queue_inv_def)
  then have "held_lines st' = held_lines st"
    by (simp add: held_lines_def items st')
  with assms(1) items show ?thesis
    by (auto simp: queue_inv_def queue_ok_def st')
qed

lemma run_check_inv:
  assumes "queue_inv limit st" "run_check st = Some st'"
  shows "queue_inv limit st'"
proof -
  obtain b where "st' = st\<lparr>running := RunnerWriting b\<rparr>" "running st = RunnerTook"
    using assms(2) by (auto simp: run_check_def split: runner.splits option.splits)
  moreover from this have "held_lines st' = held_lines st"
    by (simp add: held_lines_def)
  ultimately show ?thesis
    using assms(1) by (auto simp: queue_inv_def queue_ok_def)
qed

lemma run_settle_inv:
  assumes "queue_inv limit st" "run_settle st n failed = Some st'"
  shows "queue_inv limit st'"
proof -
  obtain x n' failed' where infl: "inflight st = Some x"
    and st': "st' = (update_both (to_name x) (stat_settled (int (length (line x))) (item_discarded x) n' failed') st)
        \<lparr>inflight := None, running := RunnerIdle\<rparr>"
    using assms(2) by (auto simp: run_settle_def Let_def split_beta split: runner.splits option.splits)
  have held: "held_lines st = x # items st"
    by (simp add: held_lines_def infl)
  have ok: "queue_ok limit st (x # items st)"
    using assms(1) held by (simp add: queue_inv_def)
  have "queue_ok limit (update_both (to_name x) (stat_settled (int (length (line x))) (item_discarded x) n' failed') st) (items st)"
    using ok by (intro queue_ok_update [OF ok]) (auto simp: stat_settled_ok queue_ok_def)
  then have "queue_ok limit st' (held_lines st')"
    by (simp add: st' held_lines_def queue_ok_def)
  then show ?thesis
  proof (rule queue_invI)
    fix k d assume "(k, d) \<in> set (destinations st')"
    then obtain d' where "(k, d') \<in> set (destinations st)" "dest_frozen d = dest_frozen d'"
      using update_both_frozen by (fastforce simp: st')
    then show "dest_frozen d = None \<longleftrightarrow> frozen st' = None"
      using queue_invD(6) [OF assms(1)] by (simp add: st')
  qed (use queue_invD [OF assms(1)] in \<open>simp_all add: st'\<close>)
qed

lemma close_admission_inv: "queue_inv limit st \<Longrightarrow> queue_inv limit (close_admission st)"
  by (auto simp: queue_inv_def queue_ok_def close_admission_def held_lines_def)

lemma discard_item_ok:
  assumes "queue_ok limit st (x # ls)" "\<not> item_discarded x"
  shows "queue_ok limit (discard_item False x st) ls"
    "queue_ok limit (discard_item True x st) (x\<lparr>item_discarded := True\<rparr> # ls)"
proof -
  show "queue_ok limit (discard_item False x st) ls"
    using assms by (simp add: discard_item_def, intro queue_ok_update [OF assms(1)])
      (auto simp: stat_discarded_ok(1) queue_ok_def)
  show "queue_ok limit (discard_item True x st) (x\<lparr>item_discarded := True\<rparr> # ls)"
    using assms by (simp add: discard_item_def, intro queue_ok_update [OF assms(1)])
      (auto simp: stat_discarded_ok(2) queue_ok_def)
qed

lemma discard_item_fields [simp]:
  "inflight (discard_item b x st) = inflight st" "frozen (discard_item b x st) = frozen st"
  "closed (discard_item b x st) = closed st" "running (discard_item b x st) = running st"
  "items (discard_item b x st) = items st" "fst ` set (destinations (discard_item b x st)) = fst ` set (destinations st)"
  by (simp_all add: discard_item_def update_both_dests)

lemma discard_items_fields [simp]:
  "inflight (discard_items xs st) = inflight st" "frozen (discard_items xs st) = frozen st"
  "closed (discard_items xs st) = closed st" "running (discard_items xs st) = running st"
  "fst ` set (destinations (discard_items xs st)) = fst ` set (destinations st)"
  by (induction xs st rule: discard_items.induct) simp_all

lemma discard_items_ok:
  "queue_ok limit st (xs @ ls) \<Longrightarrow> list_all (\<lambda>x. \<not> item_discarded x) xs \<Longrightarrow> queue_ok limit (discard_items xs st) ls"
  by (induction xs st rule: discard_items.induct) (auto intro: discard_item_ok)

lemma freeze_again: "frozen st = Some f \<Longrightarrow> freeze st = st"
  by (simp add: freeze_def)

lemma freeze_frozen:
  assumes "queue_inv limit st" "frozen st = None"
  shows "queue_inv limit (freeze st)" "frozen (freeze st) = Some (queue_stats (freeze st))"
    "PendingLines (queue_stats (freeze st)) = 0" "items (freeze st) = []"
    "\<And>k d. (k, d) \<in> set (destinations (freeze st)) \<Longrightarrow> dest_frozen d = Some (dest_stats d)"
proof -
  let ?st1 = "(discard_items (items st) (st\<lparr>closed := True\<rparr>))\<lparr>items := []\<rparr>"
  have split: "held_lines st = (case inflight st of None \<Rightarrow> [] | Some x \<Rightarrow> [x]) @ items st"
    by (simp add: held_lines_def)
  have ok: "queue_ok limit (st\<lparr>closed := True\<rparr>) (items st @ (case inflight st of None \<Rightarrow> [] | Some x \<Rightarrow> [x]))"
  proof (rule queue_ok_mset)
    show "mset (held_lines st) = mset (items st @ (case inflight st of None \<Rightarrow> [] | Some x \<Rightarrow> [x]))"
      by (simp add: split)
    show "queue_ok limit (st\<lparr>closed := True\<rparr>) (held_lines st)"
      by (rule queue_ok_same [OF queue_invD(1) [OF assms(1)]]) simp_all
  qed
  have ok1: "queue_ok limit ?st1 (case inflight st of None \<Rightarrow> [] | Some x \<Rightarrow> [x])"
    by (rule queue_ok_same [OF discard_items_ok [OF ok queue_invD(2) [OF assms(1)]]]) simp_all
  define st2 where "st2 = (case inflight ?st1 of None \<Rightarrow> ?st1
      | Some item \<Rightarrow> (discard_item True item ?st1)\<lparr>inflight := Some (item\<lparr>item_discarded := True\<rparr>)\<rparr>)"
  have "queue_ok limit st2 (held_lines st2) \<and> items st2 = [] \<and> closed st2 \<and> running st2 = running st
        \<and> (inflight st2 = None \<longleftrightarrow> inflight st = None) \<and> live_of (held_lines st2) = 0"
  proof (cases "inflight st")
    case None
    with ok1 show ?thesis
      by (auto simp: st2_def held_lines_def)
  next
    case (Some x)
    then have "\<not> item_discarded x"
      using queue_invD(3) [OF assms] by blast
    then have "queue_ok limit (discard_item True x ?st1) [x\<lparr>item_discarded := True\<rparr>]"
      using ok1 Some by (intro discard_item_ok) simp_all
    moreover have "st2 = (discard_item True x ?st1)\<lparr>inflight := Some (x\<lparr>item_discarded := True\<rparr>)\<rparr>"
      using Some by (simp add: st2_def)
    ultimately show ?thesis
      using Some by (simp add: held_lines_def queue_ok_def)
  qed
  then have st2: "queue_ok limit st2 (held_lines st2)" "items st2 = []" "closed st2" "running st2 = running st"
    "inflight st2 = None \<longleftrightarrow> inflight st = None" "live_of (held_lines st2) = 0"
    by blast+
  have fr: "freeze st = st2\<lparr>frozen := Some (queue_stats st2),
      destinations := map (\<lambda>(k, d). (k, d\<lparr>dest_frozen := Some (dest_stats d)\<rparr>)) (destinations st2)\<rparr>"
    using assms(2) unfolding freeze_def st2_def by (simp add: Let_def)
  have names: "map fst (destinations (freeze st)) = map fst (destinations st2)"
    by (simp add: fr comp_def split_beta)
  have "queue_ok limit (freeze st) (held_lines (freeze st))"
  proof (rule queue_ok_cong [OF _ _ names])
    show "queue_ok limit st2 (held_lines (freeze st))"
      using st2(1) by (simp add: fr held_lines_def)
  qed (auto simp: fr)
  then show "queue_inv limit (freeze st)"
  proof (rule queue_invI)
    show "running (freeze st) = RunnerIdle \<longleftrightarrow> inflight (freeze st) = None"
      using st2(4,5) queue_invD(4) [OF assms(1)] by (simp add: fr)
  qed (use st2(2,3) in \<open>auto simp: fr\<close>)
  show "frozen (freeze st) = Some (queue_stats (freeze st))" "items (freeze st) = []"
    "\<And>k d. (k, d) \<in> set (destinations (freeze st)) \<Longrightarrow> dest_frozen d = Some (dest_stats d)"
    using st2(2) by (auto simp: fr)
  show "PendingLines (queue_stats (freeze st)) = 0"
    using st2(1,6) by (simp add: fr queue_ok_def stat_ok_def)
qed


section \<open>Histories\<close>

datatype queue_event =
    Registered string "queue_error option"
  | Enqueued string bytes "queue_error option"
  | Begun string bytes
  | Looked
  | Settled int bool
  | AdmissionClosed
  | FrozenNow
  | ClosingNow
  | FinalClaimed string bytes "queue_error option"
  | FinalOwned string bytes "queue_error option"
  | FinalDone string

inductive queue_step :: "queue_state \<Rightarrow> queue_event \<Rightarrow> queue_state \<Rightarrow> bool" where
  q_register: "register st name no_sink = (err, st') \<Longrightarrow> queue_step st (Registered name err) st'"
| q_enqueue: "enqueue st name l = (err, st') \<Longrightarrow> queue_step st (Enqueued name l err) st'"
| q_take: "items st = x # rest \<Longrightarrow> run_take st = Some st' \<Longrightarrow> queue_step st (Begun (to_name x) (line x)) st'"
| q_check: "run_check st = Some st' \<Longrightarrow> queue_step st Looked st'"
| q_settle: "run_settle st n failed = Some st' \<Longrightarrow> queue_step st (Settled n failed) st'"
| q_close: "queue_step st AdmissionClosed (close_admission st)"
| q_freeze: "queue_step st FrozenNow (freeze st)"
| q_closing: "queue_step st ClosingNow (begin_closing st)"
| q_final_claim: "final_claim st name l cancelled = (err, st') \<Longrightarrow> queue_step st (FinalClaimed name l err) st'"
| q_final_own: "final_own st name l looks = (err, st') \<Longrightarrow> queue_step st (FinalOwned name l err) st'"
| q_final_done: "queue_step st (FinalDone name) (final_done st name)"

inductive queue_run :: "queue_state \<Rightarrow> queue_event list \<Rightarrow> queue_state \<Rightarrow> bool" for st0 where
  q_start: "queue_run st0 [] st0"
| q_more: "queue_run st0 es st \<Longrightarrow> queue_step st e st' \<Longrightarrow> queue_run st0 (es @ [e]) st'"

lemma update_dest_fields [simp]:
  "queue_stats (update_dest name f st) = queue_stats st" "items (update_dest name f st) = items st"
  "inflight (update_dest name f st) = inflight st" "frozen (update_dest name f st) = frozen st"
  "closed (update_dest name f st) = closed st" "running (update_dest name f st) = running st"
  by (simp_all add: update_dest_def)

lemma update_dest_names: "map fst (destinations (update_dest name f st)) = map fst (destinations st)"
  by (simp add: update_dest_def comp_def split_beta)

lemma update_dest_inv:
  assumes "queue_inv limit st" "\<And>d. dest_stats (f d) = dest_stats d \<and> dest_frozen (f d) = dest_frozen d"
  shows "queue_inv limit (update_dest name f st)"
proof -
  have dests: "\<exists>d'. (k, d') \<in> set (destinations st) \<and> dest_stats d = dest_stats d' \<and> dest_frozen d = dest_frozen d'"
    if "(k, d) \<in> set (destinations (update_dest name f st))" for k d
    using that assms(2) by (auto simp: update_dest_def split: if_splits)
  have held: "held_lines (update_dest name f st) = held_lines st"
    by (simp add: held_lines_def)
  have "queue_ok limit (update_dest name f st) (held_lines st)"
    using dests by (intro queue_ok_cong [OF queue_invD(1) [OF assms(1)]]) (auto simp: update_dest_names dest: dests)
  then show ?thesis
    using dests by (intro queue_inv_stats [OF assms(1)]) (auto simp: held dest: dests)
qed

lemma final_claim_cases:
  "final_claim st name l cancelled = (err, st') \<Longrightarrow> st' = st \<or> st' = update_dest name (\<lambda>d. d\<lparr>final := True\<rparr>) st"
  by (auto simp: final_claim_def split: option.splits if_splits)

lemma final_own_cases:
  "final_own st name l looks = (err, st') \<Longrightarrow> st' = st \<or> st' = update_dest name (\<lambda>d. d\<lparr>final_line := Some l\<rparr>) st"
  by (auto simp: final_own_def split: if_splits)

lemma queue_step_inv:
  assumes "queue_step st e st'" "queue_inv limit st"
  shows "queue_inv limit st'"
  using assms
proof (induction rule: queue_step.induct)
  case (q_freeze st)
  then show ?case
    by (cases "frozen st") (simp_all add: freeze_frozen(1) freeze_again)
next
  case (q_closing st)
  then have "queue_ok limit (begin_closing st) (held_lines st)"
    by (intro queue_ok_same [OF queue_invD(1)]) (simp_all add: begin_closing_def)
  then have "queue_ok limit (begin_closing st) (held_lines (begin_closing st))"
    by (simp add: begin_closing_def held_lines_def)
  with q_closing(1) show ?case
    by (rule queue_inv_stats) (auto simp: begin_closing_def)
next
  case (q_final_claim st name l cancelled err st')
  then show ?case by (auto dest!: final_claim_cases intro: update_dest_inv)
next
  case (q_final_own st name l looks err st')
  then show ?case by (auto dest!: final_own_cases intro: update_dest_inv)
next
  case (q_final_done st name)
  then show ?case by (simp add: final_done_def update_dest_inv)
qed (auto intro: register_inv enqueue_inv run_take_inv run_check_inv run_settle_inv close_admission_inv)

lemma queue_run_inv: "queue_run st0 es st \<Longrightarrow> queue_inv limit st0 \<Longrightarrow> queue_inv limit st"
  by (induction rule: queue_run.induct) (auto intro: queue_step_inv)

text \<open>The lines a history accepted, and those whose writing it began, in order.\<close>

fun accepted_lines :: "queue_event list \<Rightarrow> (string \<times> bytes) list" where
  "accepted_lines [] = []"
| "accepted_lines (Enqueued name l None # es) = (name, l) # accepted_lines es"
| "accepted_lines (_ # es) = accepted_lines es"

fun begun_lines :: "queue_event list \<Rightarrow> (string \<times> bytes) list" where
  "begun_lines [] = []"
| "begun_lines (Begun name l # es) = (name, l) # begun_lines es"
| "begun_lines (_ # es) = begun_lines es"

lemma accepted_lines_append [simp]: "accepted_lines (xs @ ys) = accepted_lines xs @ accepted_lines ys"
  by (induction xs rule: accepted_lines.induct) simp_all

lemma begun_lines_append [simp]: "begun_lines (xs @ ys) = begun_lines xs @ begun_lines ys"
  by (induction xs rule: begun_lines.induct) simp_all

definition in_order :: "queue_event list \<Rightarrow> queue_state \<Rightarrow> bool" where
  "in_order es st \<longleftrightarrow>
    (\<exists>gone. accepted_lines es = begun_lines es @ map (\<lambda>x. (to_name x, line x)) (items st) @ gone
      \<and> (frozen st = None \<longrightarrow> gone = []))"

lemma in_order_same:
  "in_order es st \<Longrightarrow> accepted_lines [e] = [] \<Longrightarrow> begun_lines [e] = [] \<Longrightarrow> items st' = items st \<Longrightarrow>
    (frozen st' = None \<longrightarrow> frozen st = None) \<Longrightarrow> in_order (es @ [e]) st'"
  by (auto simp: in_order_def)

lemma enqueue_items:
  assumes "enqueue st name l = (err, st')"
  shows "frozen st' = frozen st"
    "items st' = (if err = None then items st @ [\<lparr>to_name = name, line = l, item_discarded = False\<rparr>] else items st)"
    "err = None \<Longrightarrow> frozen st = None"
  using assms by (auto simp: enqueue_def Let_def split: if_splits)

lemma queue_run_in_order:
  assumes "queue_run st0 es st" "queue_inv limit st0" "items st0 = []"
  shows "in_order es st"
  using assms
proof (induction rule: queue_run.induct)
  case q_start
  then show ?case by (simp add: in_order_def)
next
  case (q_more es st e st')
  note inv = queue_run_inv [OF q_more(1,4)]
  from q_more(2) show ?case
  proof cases
    case (q_enqueue name l err)
    with enqueue_items [OF q_enqueue(2)] q_more show ?thesis
      by (cases err) (auto simp: in_order_def)
  next
    case (q_take x rest)
    with q_more show ?thesis
      by (auto simp: in_order_def run_take_def split: if_splits)
  next
    case q_freeze
    then show ?thesis
      using q_more freeze_frozen [OF inv]
      by (cases "frozen st") (auto simp: in_order_def freeze_again)
  next
    case (q_register name no_sink err)
    with q_more show ?thesis
      by (intro in_order_same [of es st]) (auto simp: register_def split: if_splits)
  next
    case q_check
    with q_more show ?thesis
      by (intro in_order_same [of es st]) (auto simp: run_check_def split: runner.splits option.splits)
  next
    case (q_settle n failed)
    with q_more show ?thesis
      by (intro in_order_same [of es st]) (auto simp: run_settle_def Let_def split_beta split: runner.splits option.splits)
  next
    case (q_final_claim name l cancelled err)
    with q_more show ?thesis
      by (intro in_order_same [of es st]) (auto dest!: final_claim_cases)
  next
    case (q_final_own name l looks err)
    with q_more show ?thesis
      by (intro in_order_same [of es st]) (auto dest!: final_own_cases)
  qed (use q_more in \<open>auto intro!: in_order_same [of es st] simp: close_admission_def begin_closing_def final_done_def\<close>)
qed


section \<open>Properties\<close>

text \<open>
  C14: The queue's account is exact and its bound holds.  After any interleaving of enqueues, writes,
  closings and freezes, for the queue and for every destination: what was authorized is what was
  written, failed, dropped or is pending; the pending bytes are exactly those of the lines
  queued and in flight (no sum wraps), at most the high water mark, at most the limit.  And the
  lines whose writing began are the accepted lines in the order they were accepted, none skipped.
\<close>

theorem queue_accounts:
  assumes "new_queue limit = Inr st0" "limit < half64" "queue_run st0 es st"
  shows "AuthorizedLines (queue_stats st) = WrittenLines (queue_stats st) + FailedLines (queue_stats st)
      + DroppedLines (queue_stats st) + PendingLines (queue_stats st)
    \<and> PendingBytes (queue_stats st) = bytes_of (held_lines st)
    \<and> PendingBytes (queue_stats st) \<le> HighWaterBytes (queue_stats st) \<and> HighWaterBytes (queue_stats st) \<le> limit
    \<and> (\<forall>k d. (k, d) \<in> set (destinations st) \<longrightarrow>
        AuthorizedLines (dest_stats d) = WrittenLines (dest_stats d) + FailedLines (dest_stats d)
          + DroppedLines (dest_stats d) + PendingLines (dest_stats d)
        \<and> PendingBytes (dest_stats d) = bytes_of (filter (\<lambda>x. to_name x = k) (held_lines st)))
    \<and> (\<exists>rest. accepted_lines es = begun_lines es @ rest)"
proof -
  have start: "queue_inv limit st0" "items st0 = []"
    using new_queue_inv assms(1,2) by (auto simp: new_queue_def split: if_splits)
  note ok = queue_invD(1) [OF queue_run_inv [OF assms(3) start(1)]]
  have "\<exists>rest. accepted_lines es = begun_lines es @ rest"
    using queue_run_in_order [OF assms(3) start] unfolding in_order_def by blast
  with ok show ?thesis
    unfolding queue_ok_def stat_ok_def by blast
qed

definition sample_queue :: queue_state where
  "sample_queue = \<lparr>destinations = [], items = [], inflight = None, queue_stats = zero_stats 10, closed = False,
     closing = False, frozen = None, running = RunnerIdle\<rparr>"

lemma sample_queue_new: "new_queue 10 = Inr sample_queue"
  by (simp add: new_queue_def sample_queue_def)

text \<open>A queue of ten bytes: one line of six fits, a second does not.\<close>

definition six :: bytes where
  "six = ''hello'' @ [CHR 0x0A]"

lemma sample_queue_run:
  "\<exists>st. queue_run sample_queue
     [Registered ''a'' None, Enqueued ''a'' six None, Enqueued ''a'' six (Some ErrQueueFull), Begun ''a'' six] st
   \<and> PendingBytes (queue_stats st) = 6"
proof -
  let ?es = "[Registered ''a'' None, Enqueued ''a'' six None, Enqueued ''a'' six (Some ErrQueueFull)]"
  obtain s1 where s1: "register sample_queue ''a'' False = (None, s1)"
    by (simp add: register_def sample_queue_def)
  obtain s2 where s2: "enqueue s1 ''a'' six = (None, s2)" "items s2 = [\<lparr>to_name = ''a'', line = six, item_discarded = False\<rparr>]"
    using s1 by (auto simp: enqueue_def register_def sample_queue_def complete_line_def six_def zero_stats_def
        update_both_def update_dest_def stat_authorized_def wrap64_bounds)
  obtain s3 where s3: "enqueue s2 ''a'' six = (Some ErrQueueFull, s3)" "items s3 = items s2"
      "PendingBytes (queue_stats s3) = 6" "running s3 = RunnerIdle"
    using s1 s2(1) by (auto simp: enqueue_def register_def sample_queue_def complete_line_def six_def zero_stats_def
        update_both_def update_dest_def stat_authorized_def stat_dropped_def stat_queued_def wrap64_bounds Let_def)
  obtain s4 where s4: "run_take s3 = Some s4" "queue_stats s4 = queue_stats s3"
    using s3 s2 by (simp add: run_take_def)
  have "queue_run sample_queue ((([] @ [Registered ''a'' None]) @ [Enqueued ''a'' six None])
      @ [Enqueued ''a'' six (Some ErrQueueFull)]) s3"
    by (intro q_more [OF q_more [OF q_more [OF q_start q_register [OF s1]] q_enqueue [OF s2(1)]] q_enqueue [OF s3(1)]])
  from q_more [OF this q_take [OF _ s4(1)]] s2(2) s3 s4(2) show ?thesis by auto
qed

theorem queue_accounts_witness:
  "\<exists>st :: queue_state. PendingBytes (queue_stats st) = 6 \<and> PendingBytes (queue_stats st) = bytes_of (held_lines st)"
proof -
  obtain st where "queue_run sample_queue
     [Registered ''a'' None, Enqueued ''a'' six None, Enqueued ''a'' six (Some ErrQueueFull), Begun ''a'' six] st"
    "PendingBytes (queue_stats st) = 6"
    using sample_queue_run by blast
  with queue_accounts [OF sample_queue_new _ this(1)] show ?thesis by auto
qed


lemma map_of_map_snd: "map_of (map (\<lambda>(k, d). (k, g k d)) xs) k = map_option (g k) (map_of xs k)"
  by (induction xs) auto

definition frozen_view :: "queue_state \<Rightarrow> string \<Rightarrow> sink_stats option" where
  "frozen_view st name = (case map_of (destinations st) name of None \<Rightarrow> None | Some d \<Rightarrow> dest_frozen d)"

lemma frozen_view_update_dest:
  "(\<And>d. dest_frozen (f d) = dest_frozen d) \<Longrightarrow> frozen_view (update_dest name f st) k = frozen_view st k"
  by (simp add: frozen_view_def update_dest_def map_of_map_snd [of "\<lambda>k d. if k = name then f d else d"] split: option.splits)

lemma frozen_view_update_both: "frozen_view (update_both name f st) k = frozen_view st k"
proof -
  have "frozen_view (update_dest name (\<lambda>d. d\<lparr>dest_stats := f (dest_stats d)\<rparr>) (st\<lparr>queue_stats := f (queue_stats st)\<rparr>)) k
      = frozen_view (st\<lparr>queue_stats := f (queue_stats st)\<rparr>) k"
    by (rule frozen_view_update_dest) simp
  then show ?thesis by (simp add: update_both_def frozen_view_def)
qed

lemma stats_of_frozen:
  assumes "queue_inv limit st" "frozen st = Some f"
  shows "stats_of st name = (if name = [] then f else case frozen_view st name of Some v \<Rightarrow> v | None \<Rightarrow> zero_stats 0)"
proof (cases "map_of (destinations st) name")
  case (Some d)
  then have "dest_frozen d \<noteq> None"
    using queue_invD(6) [OF assms(1), of name d] assms(2) by (auto dest: map_of_SomeD)
  with Some assms(2) show ?thesis by (auto simp: stats_of_def frozen_view_def)
qed (simp add: stats_of_def frozen_view_def assms(2))

text \<open>What a step does once the queue is frozen, and how it comes to be.\<close>

lemma frozen_step:
  assumes "queue_step st e st'" "queue_inv limit st" "frozen st = Some f"
  shows "frozen st' = Some f \<and> (\<forall>k. frozen_view st' k = frozen_view st k) \<and> accepted_lines [e] = [] \<and> begun_lines [e] = []"
  using assms
proof (induction rule: queue_step.induct)
  case (q_register st name no_sink err st')
  then show ?case
    using queue_invD(5) [of limit st] by (auto simp: register_def split: if_splits)
next
  case (q_enqueue st name l err st')
  then show ?case
    by (auto simp: enqueue_def split: if_splits)
next
  case (q_take st x rest st')
  then show ?case
    using queue_invD(5) [of limit st] by auto
next
  case (q_check st st')
  then show ?case
    by (auto simp: run_check_def frozen_view_def split: runner.splits option.splits)
next
  case (q_settle st n failed st')
  have "frozen_view (x\<lparr>inflight := None, running := RunnerIdle\<rparr>) k = frozen_view x k" for x k
    by (simp add: frozen_view_def)
  with q_settle show ?case
    by (auto simp: run_settle_def Let_def split_beta frozen_view_update_both split: runner.splits option.splits)
next
  case (q_freeze st)
  then show ?case by (simp add: freeze_again)
next
  case (q_final_claim st name l cancelled err st')
  then show ?case by (auto dest!: final_claim_cases simp: frozen_view_update_dest)
next
  case (q_final_own st name l looks err st')
  then show ?case by (auto dest!: final_own_cases simp: frozen_view_update_dest)
next
  case (q_final_done st name)
  then show ?case by (simp add: final_done_def frozen_view_update_dest)
qed (simp_all add: close_admission_def begin_closing_def frozen_view_def)

lemma frozen_run:
  assumes "queue_run st es st'" "queue_inv limit st" "frozen st = Some f"
  shows "frozen st' = Some f \<and> (\<forall>k. frozen_view st' k = frozen_view st k) \<and> accepted_lines es = [] \<and> begun_lines es = []"
  using assms
proof (induction rule: queue_run.induct)
  case (q_more es st1 e st2)
  with frozen_step [OF q_more(2) queue_run_inv [OF q_more(1,4)]] show ?case by simp
qed simp

lemma unfrozen_step:
  assumes "queue_step st e st'" "queue_inv limit st" "frozen st = None" "frozen st' \<noteq> None"
  shows "st' = freeze st"
  using assms
proof (induction rule: queue_step.induct)
  case (q_enqueue st name l err st')
  then show ?case using enqueue_items(1) by fastforce
qed (auto simp: register_def run_take_def run_check_def run_settle_def Let_def split_beta close_admission_def
    begin_closing_def final_done_def dest!: final_claim_cases final_own_cases
    split: if_splits list.splits runner.splits option.splits)

lemma frozen_is_settled:
  assumes "queue_run st0 es st" "queue_inv limit st0" "frozen st0 = None" "frozen st = Some f"
  shows "PendingLines f = 0 \<and> AuthorizedLines f = WrittenLines f + FailedLines f + DroppedLines f"
  using assms
proof (induction arbitrary: f rule: queue_run.induct)
  case (q_more es st e st')
  note inv = queue_run_inv [OF q_more(1,4)]
  show ?case
  proof (cases "frozen st")
    case None
    then have st': "st' = freeze st"
      using unfrozen_step [OF q_more(2) inv] q_more.prems(3) by simp
    note fr = freeze_frozen [OF inv None]
    have "AuthorizedLines f = WrittenLines f + FailedLines f + DroppedLines f + PendingLines f" "PendingLines f = 0"
      using queue_invD(1) [OF fr(1)] fr(2,3) q_more.prems(3) by (auto simp: st' queue_ok_def stat_ok_def)
    then show ?thesis by simp
  next
    case (Some f')
    with frozen_step [OF q_more(2) inv Some] q_more show ?thesis by simp
  qed
qed simp

text \<open>
  C32: Freezing fixes the account.  Once a queue is frozen nothing is pending: every authorized line was
  written, failed or dropped.  From then on no line is accepted and no writing begins, and the
  statistics reported for the queue and for every destination never change, whatever a write already
  in flight still does and whatever is called.
\<close>

theorem frozen_account_is_fixed:
  assumes "new_queue limit = Inr st0" "limit < half64" "queue_run st0 es st" "frozen st \<noteq> None"
    and "queue_run st later st'"
  shows "stats_of st' name = stats_of st name
    \<and> PendingLines (stats_of st []) = 0
    \<and> AuthorizedLines (stats_of st []) =
        WrittenLines (stats_of st []) + FailedLines (stats_of st []) + DroppedLines (stats_of st [])
    \<and> accepted_lines later = [] \<and> begun_lines later = []"
proof -
  have start: "queue_inv limit st0" "frozen st0 = None"
    using new_queue_inv assms(1,2) by (auto simp: new_queue_def split: if_splits)
  note inv = queue_run_inv [OF assms(3) start(1)]
  obtain f where f: "frozen st = Some f" using assms(4) by blast
  note run = frozen_run [OF assms(5) inv f]
  have "stats_of st' name = stats_of st name"
    using stats_of_frozen [OF inv f] stats_of_frozen [OF queue_run_inv [OF assms(5) inv]] run by simp
  moreover have "stats_of st [] = f"
    using stats_of_frozen [OF inv f] by simp
  ultimately show ?thesis
    using frozen_is_settled [OF assms(3) start f] run by simp
qed

theorem frozen_account_is_fixed_witness:
  "\<exists>st st'. frozen st \<noteq> None \<and> queue_step st AdmissionClosed st' \<and> stats_of st' ''a'' = stats_of st ''a''"
proof -
  let ?st = "freeze sample_queue"
  have inv: "queue_inv 10 sample_queue" using new_queue_inv [OF sample_queue_new] by simp
  have run: "queue_run sample_queue ([] @ [FrozenNow]) ?st"
    by (intro q_more [OF q_start] q_freeze)
  have fr: "frozen ?st \<noteq> None"
    using freeze_frozen(2) [OF inv] by (simp add: sample_queue_def)
  have more: "queue_run ?st ([] @ [AdmissionClosed]) (close_admission ?st)"
    by (intro q_more [OF q_start] q_close)
  from frozen_account_is_fixed [OF sample_queue_new _ run fr more] fr q_close show ?thesis by auto
qed

end
