(* ===== verification/Sink_Line.thy ===== *)
theory Sink_Line
  imports Go_Strings
begin

text \<open>
  The writing of one line to a destination (\<open>destination.writeLine\<close> of \<open>sink/final.go\<close>) and the
  two destinations the package has (\<open>sink/file.go\<close>, \<open>sink/stream.go\<close>).

  A \<open>Sink\<close> is an interface: a record of its \<open>Write\<close> over a state of its own.  Whether the
  caller's context is done is an argument at each place the source looks.  What a
  destination holds is the bytes it accepted; the contract \<open>exact_sink\<close> says a \<open>Write\<close> adds
  the bytes it reports and no others, but for a line feed of its own before them.  An operating
  system's file is not code of the repository: \<open>exact_file\<close> states what is relied on of it,
  and both destinations give \<open>exact_sink\<close> from it.
\<close>

abbreviation NL :: byte where "NL \<equiv> CHR 0x0A"

datatype line_error = Cancelled | ShortWrite | WriteFailed | SinkUnavailable | SinkClosed

record 'w sink_ops =
  SinkWrite :: "'w \<Rightarrow> bool \<Rightarrow> bytes \<Rightarrow> (int \<times> line_error option) \<times> 'w"

text \<open>\<open>cancelled\<close> is what the two looks at the context find; \<open>waits\<close> what the sink's own do.\<close>

definition write_line ::
    "'w sink_ops \<Rightarrow> 'w \<Rightarrow> bool \<Rightarrow> bool \<times> bool \<times> bool \<times> bool \<Rightarrow> bytes \<Rightarrow> (int \<times> line_error option) \<times> bool \<times> 'w" where
  "write_line S w dirty looks l =
    (let (cancelled, cancelled_after, waits, waits_after) = looks in
     if cancelled then ((0, Some Cancelled), dirty, w)
     else
       let (repair_err, dirty1, w1) =
             (if dirty then
                (let ((n, err), w1) = SinkWrite S w waits [NL];
                     err1 = (if err = None \<and> n \<noteq> 1 then Some ShortWrite else err)
                 in if err1 \<noteq> None then (err1, True, w1) else (None, False, w1))
              else (None, False, w))
       in if repair_err \<noteq> None then ((0, repair_err), dirty1, w1)
          else if cancelled_after then ((0, Some Cancelled), dirty1, w1)
          else
            let ((n, err), w2) = SinkWrite S w1 waits_after l;
                (n1, err1) = (if n < 0 \<or> n > int (length l) then (0, Some ShortWrite) else (n, err));
                err2 = (if n1 \<noteq> int (length l) \<and> err1 = None then Some ShortWrite else err1);
                dirty2 = (if n1 > 0 then l ! nat (n1 - 1) \<noteq> NL else dirty1)
            in ((n1, err2), dirty2, w2))"

section \<open>Destinations\<close>

record 'f file_ops =
  FileWrite :: "'f \<Rightarrow> bytes \<Rightarrow> (int \<times> bool) \<times> 'f"

record 'f file_sink =
  sink_file :: "'f option"
  file_dirty :: bool

definition file_write :: "'f file_ops \<Rightarrow> 'f file_sink \<Rightarrow> bool \<Rightarrow> bytes \<Rightarrow> (int \<times> line_error option) \<times> 'f file_sink" where
  "file_write F s cancelled l =
    (if cancelled then ((0, Some Cancelled), s)
     else case sink_file s of
       None \<Rightarrow> ((0, Some SinkUnavailable), s)
     | Some f \<Rightarrow>
         let (repair, s1, f1) =
               (if file_dirty s then
                  (let ((n, failed), f1) = FileWrite F f [NL] in
                   if failed then (Some WriteFailed, s\<lparr>sink_file := Some f1\<rparr>, f1)
                   else if n \<noteq> 1 then (Some ShortWrite, s\<lparr>sink_file := Some f1\<rparr>, f1)
                   else (None, s\<lparr>sink_file := Some f1, file_dirty := False\<rparr>, f1))
                else (None, s, f))
         in if repair \<noteq> None then ((0, repair), s1)
            else
              let ((n, failed), f2) = FileWrite F f1 l;
                  err = (if failed then Some WriteFailed else if n \<noteq> int (length l) then Some ShortWrite else None)
              in ((n, err), s1\<lparr>sink_file := Some f2\<rparr>))"

definition file_sink_ops :: "'f file_ops \<Rightarrow> 'f file_sink sink_ops" where
  "file_sink_ops F = \<lparr>SinkWrite = file_write F\<rparr>"

text \<open>What opening the path again finds: the file, whether it is a regular one, its size and its
  last byte (\<open>None\<close> where it could not be read).\<close>

datatype 'f reopening = OpenFailed | StatFailed | Opened 'f bool nat "byte option"

definition replace_file :: "'f file_sink \<Rightarrow> 'f reopening \<Rightarrow> bool \<times> 'f file_sink" where
  "replace_file s opened =
    (case opened of
       OpenFailed \<Rightarrow> (False, s)
     | StatFailed \<Rightarrow> (False, s)
     | Opened new regular len ending \<Rightarrow>
         if regular \<and> 0 < len then
           (case ending of
              None \<Rightarrow> (False, s)
            | Some b \<Rightarrow> (True, \<lparr>sink_file = Some new, file_dirty = (b \<noteq> NL)\<rparr>))
         else (True, \<lparr>sink_file = Some new, file_dirty = False\<rparr>))"

definition close_file :: "'f file_sink \<Rightarrow> 'f file_sink" where
  "close_file s = s\<lparr>sink_file := None\<rparr>"

record 'f stream_sink =
  stream_out :: "'f option"

definition stream_write :: "'f file_ops \<Rightarrow> 'f stream_sink \<Rightarrow> bool \<Rightarrow> bytes \<Rightarrow> (int \<times> line_error option) \<times> 'f stream_sink" where
  "stream_write F s cancelled l =
    (if cancelled then ((0, Some Cancelled), s)
     else case stream_out s of
       None \<Rightarrow> ((0, Some SinkClosed), s)
     | Some f \<Rightarrow>
         let ((n, failed), f1) = FileWrite F f l
         in ((n, if failed then Some WriteFailed else None), s\<lparr>stream_out := Some f1\<rparr>))"

definition stream_sink_ops :: "'f file_ops \<Rightarrow> 'f stream_sink sink_ops" where
  "stream_sink_ops F = \<lparr>SinkWrite = stream_write F\<rparr>"

definition close_stream :: "'f stream_sink \<Rightarrow> 'f stream_sink" where
  "close_stream s = s\<lparr>stream_out := None\<rparr>"

text \<open>\<open>Reopen\<close> of each destination, and \<open>Queue.reopen\<close> for one of them: whether it succeeded, and
  what the destination's \<open>dirty\<close> mark is then.\<close>

definition file_reopen :: "'f file_sink \<Rightarrow> bool \<Rightarrow> 'f reopening \<Rightarrow> bool \<times> 'f file_sink" where
  "file_reopen s cancelled opened = (if cancelled then (False, s) else replace_file s opened)"

definition stream_reopen :: "'f stream_sink \<Rightarrow> bool \<Rightarrow> bool \<times> 'f stream_sink" where
  "stream_reopen s cancelled = (\<not> cancelled, s)"

definition reopen_destination :: "bool \<times> 'w \<Rightarrow> bool \<Rightarrow> bool \<times> 'w" where
  "reopen_destination reopened dirty = (case reopened of (ok, w) \<Rightarrow> (if ok then False else dirty, w))"

section \<open>Contracts\<close>

definition at_boundary :: "bytes \<Rightarrow> bool" where
  "at_boundary c \<longleftrightarrow> c = [] \<or> last c = NL"

definition extends :: "bytes \<Rightarrow> bytes \<Rightarrow> bool" where
  "extends c pre \<longleftrightarrow> pre = c \<or> pre = c @ [NL]"

locale exact_sink =
  fixes S :: "'w sink_ops"
    and content :: "'w \<Rightarrow> bytes"
  assumes write_exact: "SinkWrite S w cancelled p = ((n, err), w') \<Longrightarrow>
    0 \<le> n \<and> n \<le> int (length p) \<and> (\<exists>pre. extends (content w) pre \<and> content w' = pre @ take (nat n) p)"

locale exact_file =
  fixes F :: "'f file_ops"
    and held_bytes :: "'f \<Rightarrow> bytes"
  assumes file_exact: "FileWrite F f p = ((n, failed), f') \<Longrightarrow>
    0 \<le> n \<and> n \<le> int (length p) \<and> held_bytes f' = held_bytes f @ take (nat n) p"

text \<open>A file the sink must still finish a line of reads as if it had been finished.\<close>

definition file_content :: "('f \<Rightarrow> bytes) \<Rightarrow> 'f file_sink \<Rightarrow> bytes" where
  "file_content held_bytes s =
    (case sink_file s of None \<Rightarrow> [] | Some f \<Rightarrow> held_bytes f @ (if file_dirty s then [NL] else []))"

definition stream_content :: "('f \<Rightarrow> bytes) \<Rightarrow> 'f stream_sink \<Rightarrow> bytes" where
  "stream_content held_bytes s = (case stream_out s of None \<Rightarrow> [] | Some f \<Rightarrow> held_bytes f)"

lemma extends_refl [simp]: "extends c c"
  by (simp add: extends_def)

lemma take_one: "0 \<le> n \<Longrightarrow> n \<le> int (length [x]) \<Longrightarrow> take (nat n) [x] = (if n = 1 then [x] else [])"
  by (cases "n = 0") auto

sublocale exact_file \<subseteq> file_exact: exact_sink "file_sink_ops F" "file_content held_bytes"
proof
  fix w cancelled p n err w'
  assume run: "SinkWrite (file_sink_ops F) w cancelled p = ((n, err), w')"
  show "0 \<le> n \<and> n \<le> int (length p) \<and>
    (\<exists>pre. extends (file_content held_bytes w) pre \<and> file_content held_bytes w' = pre @ take (nat n) p)"
  proof (cases "cancelled \<or> sink_file w = None")
    case True
    with run show ?thesis
      by (auto simp: file_sink_ops_def file_write_def split: if_splits)
  next
    case False
    then obtain f where f: "sink_file w = Some f" "\<not> cancelled" by auto
    obtain n1 failed1 f1 where r: "FileWrite F f [NL] = ((n1, failed1), f1)" by (metis prod.exhaust)
    note r1 = file_exact [OF r]
    have rep: "held_bytes f1 = held_bytes f @ (if n1 = 1 then [NL] else [])"
      using r1 take_one [of n1 NL] by simp
    obtain n2 failed2 f2 where p: "FileWrite F (if file_dirty w then f1 else f) p = ((n2, failed2), f2)"
      by (metis prod.exhaust)
    note p1 = file_exact [OF p]
    consider (clean) "\<not> file_dirty w" | (torn) "file_dirty w" "failed1 \<or> n1 \<noteq> 1"
      | (mended) "file_dirty w" "\<not> failed1" "n1 = 1"
      by blast
    then show ?thesis
    proof cases
      case clean
      then have "n = n2" "w' = w\<lparr>sink_file := Some f2\<rparr>"
        using run f p by (simp_all add: file_sink_ops_def file_write_def Let_def)
      with clean f p p1 show ?thesis
        by (simp add: file_content_def)
    next
      case torn
      then have "n = 0" "w' = w\<lparr>sink_file := Some f1\<rparr>"
        using run f r by (auto simp: file_sink_ops_def file_write_def Let_def split: if_splits)
      with torn f rep show ?thesis
        by (simp add: file_content_def extends_def)
    next
      case mended
      then have "n = n2" "w' = w\<lparr>sink_file := Some f2, file_dirty := False\<rparr>"
        using run f r p by (auto simp: file_sink_ops_def file_write_def Let_def)
      with mended f rep p p1 show ?thesis
        by (intro conjI exI [of _ "file_content held_bytes w"]) (simp_all add: file_content_def)
    qed
  qed
qed

sublocale exact_file \<subseteq> stream_exact: exact_sink "stream_sink_ops F" "stream_content held_bytes"
proof
  fix w cancelled p n err w'
  assume run: "SinkWrite (stream_sink_ops F) w cancelled p = ((n, err), w')"
  show "0 \<le> n \<and> n \<le> int (length p) \<and>
    (\<exists>pre. extends (stream_content held_bytes w) pre \<and> stream_content held_bytes w' = pre @ take (nat n) p)"
  proof (cases "cancelled \<or> stream_out w = None")
    case True
    with run show ?thesis
      by (auto simp: stream_sink_ops_def stream_write_def split: if_splits)
  next
    case False
    then obtain f where f: "stream_out w = Some f" "\<not> cancelled" by auto
    obtain n2 failed2 f2 where p: "FileWrite F f p = ((n2, failed2), f2)" by (metis prod.exhaust)
    from run f p file_exact [OF p] show ?thesis
      by (auto simp: stream_sink_ops_def stream_write_def stream_content_def Let_def)
  qed
qed


section \<open>Lines\<close>

definition whole_line :: "bytes \<Rightarrow> bool" where
  "whole_line l \<longleftrightarrow> l \<noteq> [] \<and> last l = NL \<and> NL \<notin> set (butlast l)"

lemma split_byte_sep: "split_byte c (xs @ c # ys) = split_byte c xs @ split_byte c ys"
proof (induction xs)
  case (Cons x xs)
  then show ?case
    by (cases "split_byte c xs") (auto split: list.splits)
qed simp

lemma line_is_read_back:
  assumes "at_boundary pre" "whole_line l"
  shows "butlast l \<in> set (split_byte NL (pre @ l @ rest))"
proof -
  have l: "l = butlast l @ [NL]"
    using assms(2) append_butlast_last_id [of l] by (auto simp: whole_line_def)
  have body: "butlast l \<in> set (split_byte NL (l @ rest))"
    using assms(2) split_byte_single [of NL "butlast l"]
    by (subst l) (simp add: split_byte_sep whole_line_def)
  show ?thesis
  proof (cases "pre = []")
    case False
    then have "pre = butlast pre @ [NL]"
      using assms(1) append_butlast_last_id [of pre] by (auto simp: at_boundary_def)
    then have "split_byte NL (pre @ l @ rest) = split_byte NL (butlast pre) @ split_byte NL (l @ rest)"
      by (metis append.assoc append_Cons append_Nil split_byte_sep)
    with body show ?thesis by simp
  qed (use body in simp)
qed

lemma extends_boundary: "extends c pre \<Longrightarrow> at_boundary c \<Longrightarrow> at_boundary pre"
  by (auto simp: extends_def at_boundary_def)

lemma extends_append: "extends c pre \<Longrightarrow> \<exists>z. pre = c @ z"
  by (auto simp: extends_def)

context exact_sink
begin

text \<open>One line: what was there stays, a destination not marked dirty is at a line's start, and a
  line reported written was added whole, at a line's start.\<close>

lemma write_line_exact:
  assumes run: "write_line S w dirty looks l = ((n, err), dirty', w')"
    and clean: "\<not> dirty \<Longrightarrow> at_boundary (content w)" and l: "l \<noteq> []" "last l = NL"
  shows "(\<exists>z. content w' = content w @ z)" "\<not> dirty' \<Longrightarrow> at_boundary (content w')"
    "err = None \<Longrightarrow> \<exists>pre. at_boundary pre \<and> content w' = pre @ l"
proof -
  obtain c1 c2 x1 x2 where looks: "looks = (c1, c2, x1, x2)" by (metis prod_cases4)
  define mid where "mid = (if dirty then
        (let ((n, err), w1) = SinkWrite S w x1 [NL];
             err1 = (if err = None \<and> n \<noteq> 1 then Some ShortWrite else err)
         in if err1 \<noteq> None then (err1, True, w1) else (None, False, w1))
      else (None, False, w))"
  obtain e1 d1 w1 where mid1: "mid = (e1, d1, w1)" by (metis prod_cases3)
  have m: "(\<exists>z. content w1 = content w @ z) \<and> (\<not> d1 \<longrightarrow> at_boundary (content w1))"
  proof (cases dirty)
    case True
    obtain n1 err1 wr where w: "SinkWrite S w x1 [NL] = ((n1, err1), wr)" by (metis prod.exhaust)
    have "wr = w1" "d1 \<or> n1 = 1"
      using mid1 True w by (auto simp: mid_def Let_def split: if_splits)
    with write_exact [OF w] show ?thesis
      by (auto simp: at_boundary_def extends_def)
  next
    case False
    with mid1 clean show ?thesis by (auto simp: mid_def)
  qed
  obtain n2 err2 w2 where w: "SinkWrite S w1 x2 l = ((n2, err2), w2)" by (metis prod.exhaust)
  obtain pre where pre: "extends (content w1) pre" "content w2 = pre @ take (nat n2) l"
    and n2: "0 \<le> n2" "n2 \<le> int (length l)"
    using write_exact [OF w] by blast
  have stop: "c1 \<or> e1 \<noteq> None \<or> c2 \<Longrightarrow> err \<noteq> None \<and> ((w' = w \<and> dirty' = dirty) \<or> (w' = w1 \<and> dirty' = d1))"
    using run by (auto simp: write_line_def looks mid_def [symmetric] mid1 Let_def split: if_splits)
  have go: "n = n2 \<and> w' = w2 \<and> dirty' = (if n2 > 0 then l ! nat (n2 - 1) \<noteq> NL else d1)
      \<and> (err = None \<longrightarrow> n2 = int (length l))" if "\<not> (c1 \<or> e1 \<noteq> None \<or> c2)"
    using run that w n2 by (auto simp: write_line_def looks mid_def [symmetric] mid1 Let_def split: if_splits)
  have e1: "e1 = None \<Longrightarrow> \<not> d1"
    using mid1 by (auto simp: mid_def Let_def split_beta split: if_splits)
  show "\<exists>z. content w' = content w @ z"
    using stop go m pre(2) extends_append [OF pre(1)] by (cases "c1 \<or> e1 \<noteq> None \<or> c2") auto
  show "at_boundary (content w')" if "\<not> dirty'"
  proof (cases "c1 \<or> e1 \<noteq> None \<or> c2")
    case True
    with stop m clean that show ?thesis by auto
  next
    case False
    have b: "at_boundary pre"
      using extends_boundary [OF pre(1)] m e1 False by blast
    show ?thesis
    proof (cases "n2 = 0")
      case True
      with b go [OF False] pre(2) show ?thesis by simp
    next
      case nz: False
      have "min (length l) (nat n2) = nat n2"
        using n2 by simp
      then have "last (take (nat n2) l) = l ! nat (n2 - 1)" "take (nat n2) l \<noteq> []"
        using nz n2 l(1) by (auto simp: last_conv_nth nat_diff_distrib)
      with go [OF False] that nz n2 pre(2) show ?thesis
        by (auto simp: at_boundary_def)
    qed
  qed
  show "\<exists>pre. at_boundary pre \<and> content w' = pre @ l" if "err = None"
  proof -
    have False': "\<not> (c1 \<or> e1 \<noteq> None \<or> c2)"
      using stop that by blast
    have "at_boundary pre"
      using extends_boundary [OF pre(1)] m e1 False' by blast
    with go [OF False'] that pre(2) show ?thesis by auto
  qed
qed

end

fun write_lines ::
    "'w sink_ops \<Rightarrow> 'w \<Rightarrow> bool \<Rightarrow> ((bool \<times> bool \<times> bool \<times> bool) \<times> bytes) list \<Rightarrow> line_error option list \<times> 'w" where
  "write_lines S w dirty [] = ([], w)"
| "write_lines S w dirty ((looks, l) # rest) =
    (let ((n, err), dirty', w') = write_line S w dirty looks l;
         (errs, w'') = write_lines S w' dirty' rest
     in (err # errs, w''))"

context exact_sink
begin

lemma write_lines_exact:
  assumes "write_lines S w dirty calls = (errs, w')" "\<not> dirty \<Longrightarrow> at_boundary (content w)"
    and "list_all (\<lambda>(_, l). whole_line l) calls"
  shows "(\<exists>z. content w' = content w @ z) \<and> length errs = length calls
    \<and> (\<forall>i < length calls. errs ! i = None \<longrightarrow> butlast (snd (calls ! i)) \<in> set (split_byte NL (content w')))"
  using assms
proof (induction calls arbitrary: w dirty errs)
  case (Cons call rest)
  obtain looks l where call: "call = (looks, l)" by fastforce
  obtain n err dirty1 w1 where one: "write_line S w dirty looks l = ((n, err), dirty1, w1)"
    by (metis prod.exhaust)
  obtain errs1 where more: "write_lines S w1 dirty1 rest = (errs1, w')" and errs: "errs = err # errs1"
    using Cons.prems(1) one by (auto simp: call Let_def split_beta prod_eq_iff)
  have l: "whole_line l" "l \<noteq> []" "last l = NL"
    using Cons.prems(3) by (auto simp: call whole_line_def)
  have first: "\<exists>z. content w1 = content w @ z" "\<not> dirty1 \<Longrightarrow> at_boundary (content w1)"
    "err = None \<Longrightarrow> \<exists>pre. at_boundary pre \<and> content w1 = pre @ l"
    using write_line_exact [OF one _ l(2,3)] Cons.prems(2) by blast+
  have IH: "(\<exists>z. content w' = content w1 @ z) \<and> length errs1 = length rest
    \<and> (\<forall>i < length rest. errs1 ! i = None \<longrightarrow> butlast (snd (rest ! i)) \<in> set (split_byte NL (content w')))"
    using Cons.prems(3) by (intro Cons.IH [OF more first(2)]) auto
  then obtain z where z: "content w' = content w1 @ z" by blast
  have "butlast l \<in> set (split_byte NL (content w'))" if "err = None"
    using first(3) [OF that] line_is_read_back [OF _ l(1), of _ z] z by auto
  moreover have "\<exists>z. content w' = content w @ z"
    using first(1) z by auto
  ultimately show ?case
    using IH by (auto simp: call errs nth_Cons split: nat.splits)
qed simp

end

text \<open>A file that takes the first bytes it has room for.\<close>

definition disk_ops :: "(nat \<times> bytes) file_ops" where
  "disk_ops = \<lparr>FileWrite = (\<lambda>(room, c) p.
     ((int (min room (length p)), room < length p), (room - length p, c @ take room p)))\<rparr>"

interpretation disk: exact_file disk_ops snd
  by unfold_locales (auto simp: disk_ops_def min_def split: if_splits)

text \<open>
  C33: Every line reported written can be read back.  However the writes of a destination fail -
  cancelled, cut short anywhere, their repair of a torn line failing too - a destination that
  holds the bytes its sink reported holds each line reported written as a line of its own:
  splitting what it holds at line feeds gives that line back, and nothing already there changed.
\<close>

theorem written_lines_read_back:
  assumes "exact_sink S content" "at_boundary (content w)" "list_all (\<lambda>(_, l). whole_line l) calls"
    and "write_lines S w False calls = (errs, w')"
  shows "length errs = length calls \<and> (\<exists>z. content w' = content w @ z)
    \<and> (\<forall>i < length calls. errs ! i = None \<longrightarrow> butlast (snd (calls ! i)) \<in> set (split_byte NL (content w')))"
  using exact_sink.write_lines_exact [OF assms(1,4) _ assms(3)] assms(2) by blast

theorem written_lines_read_back_witness:
  "\<exists>w'. write_lines (file_sink_ops disk_ops) \<lparr>sink_file = Some (6, []), file_dirty = False\<rparr> False
      [((False, False, False, False), ''ab'' @ [NL]), ((False, False, False, False), ''toolong'' @ [NL])]
      = ([None, Some WriteFailed], w')
    \<and> ''ab'' \<in> set (split_byte NL (file_content snd w'))"
proof -
  let ?calls = "[((False, False, False, False), ''ab'' @ [NL]), ((False, False, False, False), ''toolong'' @ [NL])]"
  let ?w = "\<lparr>sink_file = Some (6, []), file_dirty = False\<rparr> :: (nat \<times> bytes) file_sink"
  obtain w' where run: "write_lines (file_sink_ops disk_ops) ?w False ?calls = ([None, Some WriteFailed], w')"
    by (simp add: write_line_def file_sink_ops_def file_write_def disk_ops_def Let_def)
  have "exact_sink (file_sink_ops disk_ops) (file_content snd)"
    by (rule disk.file_exact.exact_sink_axioms)
  then have all: "\<forall>i < length ?calls. [None, Some WriteFailed] ! i = None \<longrightarrow>
      butlast (snd (?calls ! i)) \<in> set (split_byte NL (file_content snd w'))"
    using written_lines_read_back [OF _ _ _ run, of "file_content snd"]
    by (simp add: at_boundary_def file_content_def [of snd ?w] whole_line_def)
  from all [rule_format, of 0] run show ?thesis by auto
qed

section \<open>Reopening\<close>

text \<open>A reopened file is at a line's start again: what was left of a torn line in the file it
  opened is finished before the next line.\<close>

lemma file_reopen_clean:
  assumes "file_reopen s False (Opened f regular len ending) = (True, s')"
    and "len = length (held_bytes f)" "\<And>b. ending = Some b \<Longrightarrow> b = last (held_bytes f)" "regular"
  shows "at_boundary (file_content held_bytes s')"
  using assms
  by (auto simp: file_reopen_def replace_file_def file_content_def at_boundary_def split: if_splits option.splits)

text \<open>A stream is not: \<open>Reopen\<close> leaves it as it is and succeeds, the queue forgets that a line was
  torn, and the next line is joined to what is left of it.\<close>

definition flaky_ops :: "(nat list \<times> bytes) file_ops" where
  "flaky_ops = \<lparr>FileWrite = (\<lambda>(rooms, c) p.
     case rooms of
       [] \<Rightarrow> ((int (length p), False), ([], c @ p))
     | room # rest \<Rightarrow> ((int (min room (length p)), room < length p), (rest, c @ take room p)))\<rparr>"

interpretation flaky: exact_file flaky_ops snd
  by unfold_locales (auto simp: flaky_ops_def min_def split: if_splits list.splits)

lemma reopened_stream_joins_lines:
  "let looks = (False, False, False, False);
       w0 = \<lparr>stream_out = Some ([1], [])\<rparr>;
       ((n1, err1), dirty1, w1) = write_line (stream_sink_ops flaky_ops) w0 False looks (''ab'' @ [NL]);
       (dirty2, w2) = reopen_destination (stream_reopen w1 False) dirty1;
       ((n3, err3), dirty3, w3) = write_line (stream_sink_ops flaky_ops) w2 dirty2 looks (''cd'' @ [NL])
   in err1 = Some WriteFailed \<and> dirty1 \<and> err3 = None \<and> stream_content snd w3 = ''acd'' @ [NL]"
  by (simp add: Let_def write_line_def stream_sink_ops_def stream_write_def flaky_ops_def stream_reopen_def
      reopen_destination_def stream_content_def)

end
