(* ===== verification/Spool.thy ===== *)
theory Spool
  imports Connection_Seal Sink_Line
begin

text \<open>
  Package \<open>spool\<close>: captured records on local disk under one bound.  The JSON encoding of a record is
  the library's: an argument \<open>marshal\<close>, whose failure is \<open>None\<close>.  A file is used through
  \<open>file_ops\<close> (theory \<open>Sink_Line\<close>).  Both files share the bound and the byte count; each has its
  own counters.
\<close>

record spool_stats =
  sp_written :: int
  sp_dropped :: int
  sp_refused :: int
  sp_connections :: int
  sp_connections_dropped :: int
  sp_connections_refused :: int
  sp_bytes :: int
  sp_limit :: int

record 'f spool = spool_stats +
  spool_limit :: int
  spool_file :: "'f option"
  spool_connections :: "'f option"

datatype spool_error =
    NoBound | CannotOpen | RecordInvalid fragment_error | ConnectionInvalid connection_error
  | MarshalFailed | SpoolClosed | SpoolWriteFailed

text \<open>\<open>openBounded\<close> of each file gives the file and its size, or fails.\<close>

definition open_spool :: "int \<Rightarrow> ('f \<times> int) option \<Rightarrow> ('f \<times> int) option \<Rightarrow> spool_error + 'f spool" where
  "open_spool limit fragments connections =
    (if limit \<le> 0 then Inl NoBound
     else case fragments of
       None \<Rightarrow> Inl CannotOpen
     | Some (f, held) \<Rightarrow>
        (case connections of
           None \<Rightarrow> Inl CannotOpen
         | Some (c, also_held) \<Rightarrow>
             Inr \<lparr>sp_written = 0, sp_dropped = 0, sp_refused = 0, sp_connections = 0, sp_connections_dropped = 0,
               sp_connections_refused = 0, sp_bytes = wrap64 (held + also_held), sp_limit = limit,
               spool_limit = limit, spool_file = Some f, spool_connections = Some c\<rparr>))"

definition spool_write ::
    "'f file_ops \<Rightarrow> (fragment_record \<Rightarrow> bytes option) \<Rightarrow> 'f spool \<Rightarrow> fragment_record \<Rightarrow> spool_error option \<times> 'f spool" where
  "spool_write F marshal s r =
    (case record_validate r of
       Some err \<Rightarrow> (Some (RecordInvalid err), s\<lparr>sp_refused := wrap64 (sp_refused s + 1)\<rparr>)
     | None \<Rightarrow>
       (case marshal r of
          None \<Rightarrow> (Some MarshalFailed, s\<lparr>sp_refused := wrap64 (sp_refused s + 1)\<rparr>)
        | Some json \<Rightarrow>
            let l = json @ [NL] in
            (case spool_file s of
               None \<Rightarrow> (Some SpoolClosed, s\<lparr>sp_refused := wrap64 (sp_refused s + 1)\<rparr>)
             | Some f \<Rightarrow>
                 if wrap64 (sp_bytes s + int (length l)) > spool_limit s
                 then (None, s\<lparr>sp_dropped := wrap64 (sp_dropped s + 1)\<rparr>)
                 else
                   let ((written, failed), f') = FileWrite F f l;
                       s1 = s\<lparr>spool_file := Some f', sp_bytes := wrap64 (sp_bytes s + written)\<rparr>
                   in if failed then (Some SpoolWriteFailed, s1)
                      else (None, s1\<lparr>sp_written := wrap64 (sp_written s1 + 1)\<rparr>))))"

definition spool_connection ::
    "'f file_ops \<Rightarrow> (connection_record \<Rightarrow> bytes option) \<Rightarrow> 'f spool \<Rightarrow> connection_record \<Rightarrow> spool_error option \<times> 'f spool" where
  "spool_connection F marshal s r =
    (case connection_validate r of
       Some err \<Rightarrow> (Some (ConnectionInvalid err), s\<lparr>sp_connections_refused := wrap64 (sp_connections_refused s + 1)\<rparr>)
     | None \<Rightarrow>
       (case marshal r of
          None \<Rightarrow> (Some MarshalFailed, s\<lparr>sp_connections_refused := wrap64 (sp_connections_refused s + 1)\<rparr>)
        | Some json \<Rightarrow>
            let l = json @ [NL] in
            (case spool_connections s of
               None \<Rightarrow> (Some SpoolClosed, s\<lparr>sp_connections_refused := wrap64 (sp_connections_refused s + 1)\<rparr>)
             | Some f \<Rightarrow>
                 if wrap64 (sp_bytes s + int (length l)) > spool_limit s
                 then (None, s\<lparr>sp_connections_dropped := wrap64 (sp_connections_dropped s + 1)\<rparr>)
                 else
                   let ((written, failed), f') = FileWrite F f l;
                       s1 = s\<lparr>spool_connections := Some f', sp_bytes := wrap64 (sp_bytes s + written)\<rparr>
                   in if failed then (Some SpoolWriteFailed, s1)
                      else (None, s1\<lparr>sp_connections := wrap64 (sp_connections s1 + 1)\<rparr>))))"

definition spool_counted :: "'f spool \<Rightarrow> counters" where
  "spool_counted s = no_counters\<lparr>n_persisted := counted (sp_written s), n_persisted_dropped := counted (sp_dropped s),
     n_persisted_refused := counted (sp_refused s)\<rparr>"

definition spool_close :: "'f spool \<Rightarrow> 'f spool" where
  "spool_close s = s\<lparr>spool_file := None, spool_connections := None\<rparr>"

section \<open>The bound\<close>

text \<open>The bytes both open files hold, and the invariant that ties the count to them.\<close>

definition on_disk :: "('f \<Rightarrow> bytes) \<Rightarrow> 'f option \<Rightarrow> int" where
  "on_disk held_bytes f = (case f of None \<Rightarrow> 0 | Some f \<Rightarrow> int (length (held_bytes f)))"

definition spool_inv :: "('f \<Rightarrow> bytes) \<Rightarrow> int \<Rightarrow> 'f spool \<Rightarrow> bool" where
  "spool_inv held_bytes most s \<longleftrightarrow>
     0 \<le> sp_bytes s \<and> sp_bytes s \<le> most \<and> spool_limit s \<le> most \<and> most < half64
   \<and> (spool_file s \<noteq> None \<and> spool_connections s \<noteq> None \<longrightarrow>
        sp_bytes s = on_disk held_bytes (spool_file s) + on_disk held_bytes (spool_connections s))"

definition fits_json :: "bytes option \<Rightarrow> bool" where
  "fits_json j \<longleftrightarrow> (case j of None \<Rightarrow> True | Some b \<Rightarrow> int (length b) < 2 ^ 62)"

datatype spool_call = WriteFragment fragment_record | WriteConnection connection_record | CloseSpool

definition spool_call ::
    "'f file_ops \<Rightarrow> (fragment_record \<Rightarrow> bytes option) \<Rightarrow> (connection_record \<Rightarrow> bytes option) \<Rightarrow>
      'f spool \<Rightarrow> spool_call \<Rightarrow> spool_error option \<times> 'f spool" where
  "spool_call F mf mc s call =
    (case call of
       WriteFragment r \<Rightarrow> spool_write F mf s r
     | WriteConnection r \<Rightarrow> spool_connection F mc s r
     | CloseSpool \<Rightarrow> (None, spool_close s))"

fun spool_calls ::
    "'f file_ops \<Rightarrow> (fragment_record \<Rightarrow> bytes option) \<Rightarrow> (connection_record \<Rightarrow> bytes option) \<Rightarrow>
      'f spool \<Rightarrow> spool_call list \<Rightarrow> spool_error option list \<times> 'f spool" where
  "spool_calls F mf mc s [] = ([], s)"
| "spool_calls F mf mc s (call # rest) =
    (let (err, s') = spool_call F mf mc s call;
         (errs, s'') = spool_calls F mf mc s' rest
     in (err # errs, s''))"

text \<open>What a call of \<open>Write\<close> is counted as: written, dropped, refused, or - where the file failed -
  nothing.\<close>

lemma spool_write_counts:
  assumes "spool_write F marshal s r = (err, s')"
    and "0 \<le> sp_written s" "0 \<le> sp_dropped s" "0 \<le> sp_refused s"
    and "sp_written s + sp_dropped s + sp_refused s + 1 < half64"
  shows "0 \<le> sp_written s' \<and> 0 \<le> sp_dropped s' \<and> 0 \<le> sp_refused s'
    \<and> sp_written s' + sp_dropped s' + sp_refused s' =
        sp_written s + sp_dropped s + sp_refused s + (if err = Some SpoolWriteFailed then 0 else 1)"
proof -
  have w: "wrap64 (sp_written s + 1) = sp_written s + 1" "wrap64 (sp_dropped s + 1) = sp_dropped s + 1"
    "wrap64 (sp_refused s + 1) = sp_refused s + 1"
    using assms(2-) by (auto intro!: wrap64_nonneg)
  from assms(1) show ?thesis
    using assms(2-4) w by (auto simp: spool_write_def Let_def split: option.splits if_splits prod.splits)
qed

lemma spool_connection_counts:
  assumes "spool_connection F marshal s r = (err, s')"
  shows "sp_written s' = sp_written s" "sp_dropped s' = sp_dropped s" "sp_refused s' = sp_refused s"
  using assms by (auto simp: spool_connection_def Let_def split: option.splits if_splits prod.splits)

definition fragment_calls :: "spool_call list \<Rightarrow> nat" where
  "fragment_calls calls = length (filter (\<lambda>c. case c of WriteFragment _ \<Rightarrow> True | _ \<Rightarrow> False) calls)"

definition fragment_failures :: "spool_call list \<Rightarrow> spool_error option list \<Rightarrow> nat" where
  "fragment_failures calls errs =
     length (filter (\<lambda>(c, e). (case c of WriteFragment _ \<Rightarrow> True | _ \<Rightarrow> False) \<and> e = Some SpoolWriteFailed) (zip calls errs))"

lemma spool_calls_count:
  assumes "spool_calls F mf mc s calls = (errs, s')"
    and "0 \<le> sp_written s" "0 \<le> sp_dropped s" "0 \<le> sp_refused s"
    and "sp_written s + sp_dropped s + sp_refused s + int (length calls) < half64"
  shows "sp_written s' + sp_dropped s' + sp_refused s' + int (fragment_failures calls errs) =
      sp_written s + sp_dropped s + sp_refused s + int (fragment_calls calls)"
  using assms
proof (induction calls arbitrary: s errs)
  case Nil
  then show ?case by (simp add: fragment_calls_def fragment_failures_def)
next
  case (Cons call rest)
  obtain err s1 where one: "spool_call F mf mc s call = (err, s1)" by fastforce
  obtain errs1 where more: "spool_calls F mf mc s1 rest = (errs1, s')" and errs: "errs = err # errs1"
    using Cons.prems(1) one by (auto split: prod.splits)
  show ?case
  proof (cases call)
    case (WriteFragment r)
    then have "spool_write F mf s r = (err, s1)" using one by (simp add: spool_call_def)
    note step = spool_write_counts [OF this Cons.prems(2-4)]
    have s1: "0 \<le> sp_written s1 \<and> 0 \<le> sp_dropped s1 \<and> 0 \<le> sp_refused s1
      \<and> sp_written s1 + sp_dropped s1 + sp_refused s1 =
        sp_written s + sp_dropped s + sp_refused s + (if err = Some SpoolWriteFailed then 0 else 1)"
      using Cons.prems(5) by (intro step) auto
    have "sp_written s' + sp_dropped s' + sp_refused s' + int (fragment_failures rest errs1) =
      sp_written s1 + sp_dropped s1 + sp_refused s1 + int (fragment_calls rest)"
      using s1 Cons.prems(5) by (intro Cons.IH [OF more]) auto
    with s1 show ?thesis
      by (auto simp: WriteFragment errs fragment_calls_def fragment_failures_def)
  next
    case (WriteConnection r)
    then have "spool_connection F mc s r = (err, s1)" using one by (simp add: spool_call_def)
    note same = spool_connection_counts [OF this]
    have "sp_written s' + sp_dropped s' + sp_refused s' + int (fragment_failures rest errs1) =
      sp_written s1 + sp_dropped s1 + sp_refused s1 + int (fragment_calls rest)"
      using same Cons.prems(2-5) by (intro Cons.IH [OF more]) auto
    with same show ?thesis
      by (auto simp: WriteConnection errs fragment_calls_def fragment_failures_def)
  next
    case CloseSpool
    then have s1: "s1 = spool_close s" using one by (simp add: spool_call_def)
    have "sp_written s' + sp_dropped s' + sp_refused s' + int (fragment_failures rest errs1) =
      sp_written s1 + sp_dropped s1 + sp_refused s1 + int (fragment_calls rest)"
      using Cons.prems(2-5) by (intro Cons.IH [OF more]) (auto simp: s1 spool_close_def)
    with s1 show ?thesis
      by (auto simp: CloseSpool errs fragment_calls_def fragment_failures_def spool_close_def)
  qed
qed

context exact_file
begin

lemma spool_room:
  assumes "spool_inv held_bytes most s" "most < 2 ^ 62" "fits_json (Some b)"
    and "\<not> wrap64 (sp_bytes s + int (length (b @ [NL]))) > spool_limit s"
    and "FileWrite F f (b @ [NL]) = ((n, failed), f')"
  shows "wrap64 (sp_bytes s + n) = sp_bytes s + n" "0 \<le> n" "sp_bytes s + n \<le> most"
    "int (length (held_bytes f')) = int (length (held_bytes f)) + n"
proof -
  have n: "0 \<le> n" "n \<le> int (length (b @ [NL]))" "held_bytes f' = held_bytes f @ take (nat n) (b @ [NL])"
    using file_exact [OF assms(5)] by auto
  have "wrap64 (sp_bytes s + int (length (b @ [NL]))) = sp_bytes s + int (length (b @ [NL]))"
    using assms(1-3) by (intro wrap64_nonneg) (auto simp: spool_inv_def fits_json_def)
  with assms(1,4) n show "0 \<le> n" "sp_bytes s + n \<le> most"
    by (auto simp: spool_inv_def)
  with assms(1) show "wrap64 (sp_bytes s + n) = sp_bytes s + n"
    by (intro wrap64_nonneg) (auto simp: spool_inv_def)
  show "int (length (held_bytes f')) = int (length (held_bytes f)) + n"
    using n by (auto simp: min_def)
qed

lemma spool_write_inv:
  assumes "spool_inv held_bytes most s" "most < 2 ^ 62" "fits_json (marshal r)"
    and "spool_write F marshal s r = (err, s')"
  shows "spool_inv held_bytes most s'"
proof (cases "\<exists>b f. record_validate r = None \<and> marshal r = Some b \<and> spool_file s = Some f
    \<and> \<not> wrap64 (sp_bytes s + int (length (b @ [NL]))) > spool_limit s")
  case True
  then obtain b f where c: "record_validate r = None" "marshal r = Some b" "spool_file s = Some f"
    "\<not> wrap64 (sp_bytes s + int (length (b @ [NL]))) > spool_limit s" by blast
  obtain n failed f' where w: "FileWrite F f (b @ [NL]) = ((n, failed), f')" by (metis prod.exhaust)
  have "fits_json (Some b)" using assms(3) c(2) by simp
  note room = spool_room [OF assms(1,2) this c(4) w]
  define s1 where "s1 = s\<lparr>spool_file := Some f', sp_bytes := sp_bytes s + n\<rparr>"
  have "s' = s1 \<or> s' = s1\<lparr>sp_written := wrap64 (sp_written s1 + 1)\<rparr>"
    using assms(4) c w by (auto simp: spool_write_def s1_def room(1) Let_def split: if_splits)
  with room assms(1) c(3) show ?thesis
    by (auto simp: spool_inv_def on_disk_def s1_def)
next
  case False
  with assms(1,4) show ?thesis
    by (auto simp: spool_write_def spool_inv_def Let_def split: option.splits if_splits)
qed

lemma spool_connection_inv:
  assumes "spool_inv held_bytes most s" "most < 2 ^ 62" "fits_json (marshal r)"
    and "spool_connection F marshal s r = (err, s')"
  shows "spool_inv held_bytes most s'"
proof (cases "\<exists>b f. connection_validate r = None \<and> marshal r = Some b \<and> spool_connections s = Some f
    \<and> \<not> wrap64 (sp_bytes s + int (length (b @ [NL]))) > spool_limit s")
  case True
  then obtain b f where c: "connection_validate r = None" "marshal r = Some b" "spool_connections s = Some f"
    "\<not> wrap64 (sp_bytes s + int (length (b @ [NL]))) > spool_limit s" by blast
  obtain n failed f' where w: "FileWrite F f (b @ [NL]) = ((n, failed), f')" by (metis prod.exhaust)
  have "fits_json (Some b)" using assms(3) c(2) by simp
  note room = spool_room [OF assms(1,2) this c(4) w]
  define s1 where "s1 = s\<lparr>spool_connections := Some f', sp_bytes := sp_bytes s + n\<rparr>"
  have "s' = s1 \<or> s' = s1\<lparr>sp_connections := wrap64 (sp_connections s1 + 1)\<rparr>"
    using assms(4) c w by (auto simp: spool_connection_def s1_def room(1) Let_def split: if_splits)
  with room assms(1) c(3) show ?thesis
    by (auto simp: spool_inv_def on_disk_def s1_def)
next
  case False
  with assms(1,4) show ?thesis
    by (auto simp: spool_connection_def spool_inv_def Let_def split: option.splits if_splits)
qed

lemma spool_calls_inv:
  assumes "spool_calls F mf mc s calls = (errs, s')" "spool_inv held_bytes most s" "most < 2 ^ 62"
    and "\<And>r. fits_json (mf r)" "\<And>r. fits_json (mc r)"
  shows "spool_inv held_bytes most s'"
  using assms(1,2)
proof (induction calls arbitrary: s errs)
  case (Cons call rest)
  obtain err s1 where one: "spool_call F mf mc s call = (err, s1)" by fastforce
  obtain errs1 where more: "spool_calls F mf mc s1 rest = (errs1, s')"
    using Cons.prems(1) one by (auto split: prod.splits)
  have "spool_inv held_bytes most s1"
  proof (cases call)
    case (WriteFragment r)
    with one show ?thesis using spool_write_inv [OF Cons.prems(2) assms(3,4)] by (simp add: spool_call_def)
  next
    case (WriteConnection r)
    with one show ?thesis using spool_connection_inv [OF Cons.prems(2) assms(3,5)] by (simp add: spool_call_def)
  next
    case CloseSpool
    with one Cons.prems(2) show ?thesis by (auto simp: spool_call_def spool_close_def spool_inv_def)
  qed
  with more show ?case by (rule Cons.IH)
qed simp

end

section \<open>Properties\<close>

definition spool_fragment :: "bytes \<Rightarrow> fragment_record" where
  "spool_fragment p = \<lparr>fr_process = Process 7 100, fr_connection = 1, fr_direction = Sent, fr_sequence = 1,
     fr_offset = 0, fr_length = length p, fr_produced = 1, fr_empties = 0, fr_payload = p, fr_at = Some 1,
     fr_slot = None, fr_loss = None, fr_evidence = no_evidence\<rparr>"

definition short_json :: "fragment_record \<Rightarrow> bytes option" where
  "short_json r = Some (take 8 (fr_payload r))"

definition sample_spool :: "nat \<Rightarrow> (nat \<times> bytes) spool" where
  "sample_spool room = \<lparr>sp_written = 0, sp_dropped = 0, sp_refused = 0, sp_connections = 0,
     sp_connections_dropped = 0, sp_connections_refused = 0, sp_bytes = 0, sp_limit = 6,
     spool_limit = 6, spool_file = Some (room, []), spool_connections = Some (9, [])\<rparr>"

lemma spool_fragment_valid [simp]: "p \<noteq> [] \<Longrightarrow> record_validate (spool_fragment p) = None"
  by (simp add: record_validate_def spool_fragment_def evidence_taken_def no_evidence_def)

lemma short_json_sample [simp]: "short_json (spool_fragment p) = Some (take 8 p)"
  by (simp add: short_json_def spool_fragment_def)

lemma short_json_fits: "fits_json (short_json r)"
  by (simp add: fits_json_def short_json_def)

lemma sample_spool_opens:
  "open_spool 6 (Some ((room, []), 0)) (Some ((9, []), 0)) = Inr (sample_spool room)"
  by (simp add: open_spool_def sample_spool_def wrap64_def)

lemmas spool_evals = spool_call_def spool_write_def disk_ops_def sample_spool_def wrap64_def on_disk_def

text \<open>
  C34: The spool's files stay within its bound.  Opened under a bound, over files that may already
  hold some bytes, and whatever sequence of fragments, connection records and closings follows -
  however many bytes of a line its file takes before it fails - the bytes counted are within the
  bound (or within what the files held already, where that was more), and while both files
  are open they are exactly the bytes the files hold.
\<close>

theorem spool_within_bound:
  assumes "exact_file F held_bytes" "limit < 2 ^ 62"
    and "int (length (held_bytes f)) + int (length (held_bytes c)) < 2 ^ 62"
    and "open_spool limit (Some (f, int (length (held_bytes f)))) (Some (c, int (length (held_bytes c)))) = Inr s"
    and "\<And>r. fits_json (mf r)" "\<And>r. fits_json (mc r)"
    and "spool_calls F mf mc s calls = (errs, s')"
  shows "0 \<le> sp_bytes s' \<and> sp_bytes s' \<le> max limit (int (length (held_bytes f)) + int (length (held_bytes c)))
    \<and> (spool_file s' \<noteq> None \<and> spool_connections s' \<noteq> None \<longrightarrow>
        sp_bytes s' = on_disk held_bytes (spool_file s') + on_disk held_bytes (spool_connections s'))"
proof -
  let ?most = "max limit (int (length (held_bytes f)) + int (length (held_bytes c)))"
  have most: "?most < 2 ^ 62" using assms(2,3) by simp
  have "wrap64 (int (length (held_bytes f)) + int (length (held_bytes c))) =
      int (length (held_bytes f)) + int (length (held_bytes c))"
    using assms(3) by (intro wrap64_nonneg) auto
  with assms(3,4) most have "spool_inv held_bytes ?most s"
    by (auto simp: open_spool_def spool_inv_def on_disk_def split: if_splits)
  from exact_file.spool_calls_inv [OF assms(1,7) this most assms(5,6)] show ?thesis
    by (auto simp: spool_inv_def)
qed

theorem spool_within_bound_witness:
  "\<exists>errs s'. spool_calls disk_ops short_json (\<lambda>_. None) (sample_spool 9)
      [WriteFragment (spool_fragment ''abc''), WriteFragment (spool_fragment ''de'')] = (errs, s')
    \<and> errs = [None, None] \<and> sp_dropped s' = 1 \<and> sp_bytes s' = 4 \<and> sp_bytes s' \<le> 6"
proof -
  obtain errs s' where run: "spool_calls disk_ops short_json (\<lambda>_. None) (sample_spool 9)
      [WriteFragment (spool_fragment ''abc''), WriteFragment (spool_fragment ''de'')] = (errs, s')"
    by fastforce
  have "sp_bytes s' \<le> max 6 (int (length (snd (9 :: nat, [] :: bytes))) + int (length (snd (9 :: nat, [] :: bytes))))"
    using spool_within_bound [OF disk.exact_file_axioms, of 6 "(9, [])" "(9, [])" "sample_spool 9",
        OF _ _ _ short_json_fits _ run] sample_spool_opens [of 9]
    by (simp add: fits_json_def)
  moreover have "errs = [None, None] \<and> sp_dropped s' = 1 \<and> sp_bytes s' = 4"
    using run by (auto simp: spool_evals)
  ultimately show ?thesis using run by simp
qed

text \<open>
  Every fragment offered is counted once, unless its file failed.  After any sequence of
  calls on a newly opened spool, the records written, dropped at the bound and refused add up
  to the fragments offered, less those whose write the file failed: these are in none of the
  three counters, so the inventory the spool contributes falls short by exactly them.
\<close>

theorem spool_counts_calls:
  assumes "open_spool limit fragments connections = Inr s" "int (length calls) < half64"
    and "spool_calls F mf mc s calls = (errs, s')"
  shows "sp_written s' + sp_dropped s' + sp_refused s' + int (fragment_failures calls errs) = int (fragment_calls calls)"
proof -
  have "sp_written s = 0" "sp_dropped s = 0" "sp_refused s = 0"
    using assms(1) by (auto simp: open_spool_def split: if_splits option.splits)
  with spool_calls_count [OF assms(3)] assms(2) show ?thesis by simp
qed

theorem spool_counts_calls_witness:
  "\<exists>s'. spool_calls disk_ops short_json (\<lambda>_. None) (sample_spool 2)
      [WriteFragment (spool_fragment ''abc''), WriteFragment (spool_fragment ''toolong'')] =
      ([Some SpoolWriteFailed, None], s')
    \<and> sp_written s' + sp_dropped s' + sp_refused s' = 1"
proof -
  let ?calls = "[WriteFragment (spool_fragment ''abc''), WriteFragment (spool_fragment ''toolong'')]"
  obtain s' where run: "spool_calls disk_ops short_json (\<lambda>_. None) (sample_spool 2) ?calls = ([Some SpoolWriteFailed, None], s')"
    by (simp add: spool_evals)
  with spool_counts_calls [OF sample_spool_opens _ run] show ?thesis
    by (simp add: fragment_calls_def fragment_failures_def)
qed

end
