(* ===== verification/Ceiling.thy ===== *)
theory Ceiling
  imports Http_Parser_Accounting Intake "HOL-Library.Word"
begin

text \<open>
  The processing worker's reserver (\<open>ceiling\<close> of \<open>processing/batch.go\<close>, \<open>parsingUnits\<close> of
  \<open>processing/accounting.go\<close>): what a connection's parsing retains is held against the
  connection's own bound and against the allowance of the intake store.  It provides the
  contract \<open>accounting\<close> of the parser's reserver, measured in the machine's own arithmetic, so
  the parser's conservation holds of the worker's counts to the bit.

  The counts are \<open>64 word\<close>s, read as signed where the source compares them.  \<open>messageCharge\<close> is
  a size the compiler reports: a parameter.  \<open>batch.waiting\<close> is looked at anew at each growth in
  messages: what each look in turn returns, and how many there were, are components of the state.
\<close>

abbreviation to64 :: "int \<Rightarrow> 64 word" where
  "to64 \<equiv> word_of_int"

definition parsing_units :: "int \<Rightarrow> charge \<Rightarrow> 64 word" where
  "parsing_units message_charge c = to64 (Bytes c) + to64 (Messages c) * to64 message_charge"

record ceiling =
  cl_store :: store
  cl_bound :: int
  cl_waiting :: "nat \<Rightarrow> int"
  cl_looks :: nat
  cl_retained_bytes :: "64 word"
  cl_retained_messages :: "64 word"
  cl_refused :: bool
  cl_full :: bool
  cl_charged :: "64 word"

definition ceiling_reserve :: "int \<Rightarrow> ceiling \<Rightarrow> charge \<Rightarrow> bool \<times> ceiling" where
  "ceiling_reserve message_charge c charge =
    (let waiting = cl_waiting c (cl_looks c);
         c = (if Messages charge > 0 then c\<lparr>cl_looks := cl_looks c + 1\<rparr> else c)
     in if Messages charge > 0 \<and> sint (cl_retained_messages c + to64 (Messages charge) + to64 waiting) \<ge> cl_bound c
        then (False, c\<lparr>cl_refused := True\<rparr>)
        else
          let units = parsing_units message_charge charge;
              (ok, s) = reserve (cl_store c) Parsing (sint units)
          in if \<not> ok then (False, c\<lparr>cl_store := s, cl_full := True\<rparr>)
             else (True, c\<lparr>cl_store := s,
                           cl_retained_bytes := cl_retained_bytes c + to64 (Bytes charge),
                           cl_retained_messages := cl_retained_messages c + to64 (Messages charge),
                           cl_charged := cl_charged c + units\<rparr>))"

definition ceiling_release :: "int \<Rightarrow> ceiling \<Rightarrow> charge \<Rightarrow> ceiling" where
  "ceiling_release message_charge c charge =
    (let units = parsing_units message_charge charge in
     c\<lparr>cl_retained_bytes := cl_retained_bytes c - to64 (Bytes charge),
       cl_retained_messages := cl_retained_messages c - to64 (Messages charge),
       cl_store := give_back (cl_store c) Parsing (sint units),
       cl_charged := cl_charged c - units\<rparr>)"

definition ceiling_ops :: "int \<Rightarrow> ceiling reserver" where
  "ceiling_ops message_charge = \<lparr>Reserve = ceiling_reserve message_charge, Release = ceiling_release message_charge\<rparr>"

section \<open>The contract\<close>

text \<open>Each count of a ceiling is a measure of what it granted.\<close>

interpretation ceiling_units: accounting "ceiling_ops m" cl_charged "parsing_units m" for m
  by unfold_locales
    (auto simp: ceiling_ops_def ceiling_reserve_def ceiling_release_def parsing_units_def Let_def algebra_simps
      split: if_splits prod.splits)

interpretation ceiling_bytes: accounting "ceiling_ops m" cl_retained_bytes "\<lambda>q. to64 (Bytes q)" for m
  by unfold_locales
    (auto simp: ceiling_ops_def ceiling_reserve_def ceiling_release_def Let_def split: if_splits prod.splits)

interpretation ceiling_messages: accounting "ceiling_ops m" cl_retained_messages "\<lambda>q. to64 (Messages q)" for m
  by unfold_locales
    (auto simp: ceiling_ops_def ceiling_reserve_def ceiling_release_def Let_def split: if_splits prod.splits)

section \<open>Reading through a ceiling\<close>

text \<open>A connection's reading begins with the charge for its own state, \<open>readingCharge\<close>.\<close>

definition new_ceiling :: "int \<Rightarrow> store \<Rightarrow> int \<Rightarrow> (nat \<Rightarrow> int) \<Rightarrow> ceiling" where
  "new_ceiling rc s bound waiting = \<lparr>cl_store = s, cl_bound = bound, cl_waiting = waiting, cl_looks = 0, cl_retained_bytes = 0,
     cl_retained_messages = 0, cl_refused = False, cl_full = False, cl_charged = to64 rc\<rparr>"

text \<open>The charges the worker lets go, in order.\<close>

definition let_go :: "int \<Rightarrow> ceiling \<Rightarrow> charge list \<Rightarrow> ceiling" where
  "let_go m c qs = foldl (ceiling_release m) c qs"

definition ceiling_counts :: "int \<Rightarrow> int \<Rightarrow> ceiling \<Rightarrow> charge \<Rightarrow> bool" where
  "ceiling_counts m rc c q \<longleftrightarrow>
     cl_charged c = to64 rc + parsing_units m q \<and> cl_retained_bytes c = to64 (Bytes q) \<and> cl_retained_messages c = to64 (Messages q)"

lemma let_go_counts: "ceiling_counts m rc c q \<Longrightarrow> ceiling_counts m rc (let_go m c qs) (q - sum_list qs)"
proof (induction qs arbitrary: c q)
  case (Cons d qs)
  have "ceiling_counts m rc (ceiling_release m c d) (q - d)"
    using Cons.prems by (simp add: ceiling_counts_def ceiling_release_def Let_def parsing_units_def algebra_simps)
  from Cons.IH [OF this] show ?case
    by (simp add: let_go_def diff_diff_eq)
qed (simp add: let_go_def)

lemma reads_counts:
  assumes "reads (ceiling_ops m) kind limits (new_ceiling rc s bound waiting) c p prs"
  shows "ceiling_counts m rc c (retained p + sum_list (map pg_charge prs))"
  using ceiling_units.reads_conserve [OF assms] ceiling_bytes.reads_conserve [OF assms]
    ceiling_messages.reads_conserve [OF assms]
  by (simp add: ceiling_counts_def new_ceiling_def parsing_units_def algebra_simps)

lemma ended_retains_nothing: "parser_wf p \<Longrightarrow> ps_ended p \<Longrightarrow> retained p = 0"
  by (auto simp: parser_wf_def at_rest_def retained_def split: option.splits)

text \<open>
  C35: The worker's count of a connection's parsing is exact.  A parser reading through a ceiling,
  over any sequence of calls, whatever is waiting at each - some refused at the connection's bound, some
  by the shared allowance - leaves the ceiling's counts equal, as 64-bit values, to what the parser
  retains plus what it handed over less what the worker has let go.  So once the direction
  ended and every charge handed over was let go, only the charge of the reading itself stays.
\<close>

theorem ceiling_counts_parsing:
  assumes "reads (ceiling_ops m) kind limits (new_ceiling rc s bound waiting) c p prs"
  shows "cl_charged (let_go m c back) = to64 rc + parsing_units m (retained p + sum_list (map pg_charge prs) - sum_list back)
    \<and> cl_retained_messages (let_go m c back) =
        to64 (Messages (retained p) + sum_list (map (Messages \<circ> pg_charge) prs) - sum_list (map Messages back))
    \<and> (ps_ended p \<and> back = map pg_charge prs \<longrightarrow>
        cl_charged (let_go m c back) = to64 rc \<and> cl_retained_bytes (let_go m c back) = 0
      \<and> cl_retained_messages (let_go m c back) = 0)"
proof -
  have sums: "Messages (sum_list qs) = sum_list (map Messages qs)" for qs :: "charge list"
    by (induction qs) simp_all
  have "ceiling_counts m rc (let_go m c back) (retained p + sum_list (map pg_charge prs) - sum_list back)"
    by (rule let_go_counts [OF reads_counts [OF assms]])
  moreover have "retained p = 0" if "ps_ended p"
    using reads_history [OF assms] that by (intro ended_retains_nothing) (simp_all add: history_ok_def)
  ultimately show ?thesis
    by (auto simp: ceiling_counts_def sums parsing_units_def)
qed


definition small_store :: store where
  "small_store = zero_store\<lparr>LimitBytes := 70, exhausted := OpenChannel\<rparr>"

lemma small_ceiling:
  "Reserve (ceiling_ops 64) (new_ceiling 0 small_store 5 int) (Charge 0 1) =
     (True, (new_ceiling 0 (small_store\<lparr>ParsingCharge := 64\<rparr>) 5 int)\<lparr>cl_looks := Suc 0, cl_retained_messages := 1, cl_charged := 64\<rparr>)"
  "6 < n \<Longrightarrow> n < 100 \<Longrightarrow> Reserve (ceiling_ops 64) ((new_ceiling 0 (small_store\<lparr>ParsingCharge := 64\<rparr>) 5 int)\<lparr>cl_looks := Suc 0, cl_retained_messages := 1, cl_charged := 64\<rparr>)
     (Charge n 0) =
     (False, (new_ceiling 0 (small_store\<lparr>ParsingCharge := 64, ParsingRefused := 1\<rparr>) 5 int)
        \<lparr>cl_looks := Suc 0, cl_retained_messages := 1, cl_full := True, cl_charged := 64\<rparr>)"
proof -
  show "Reserve (ceiling_ops 64) (new_ceiling 0 small_store 5 int) (Charge 0 1) =
     (True, (new_ceiling 0 (small_store\<lparr>ParsingCharge := 64\<rparr>) 5 int)\<lparr>cl_looks := Suc 0, cl_retained_messages := 1, cl_charged := 64\<rparr>)"
    by (simp add: ceiling_ops_def ceiling_reserve_def new_ceiling_def small_store_def zero_store_def reserve_def
      parsing_units_def left_def wrap64_def)
  assume n: "6 < n" "n < 100"
  have "sint (to64 n) = n"
    using n by (simp add: int_word_sint)
  with n show "Reserve (ceiling_ops 64) ((new_ceiling 0 (small_store\<lparr>ParsingCharge := 64\<rparr>) 5 int)\<lparr>cl_looks := Suc 0, cl_retained_messages := 1, cl_charged := 64\<rparr>)
     (Charge n 0) =
     (False, (new_ceiling 0 (small_store\<lparr>ParsingCharge := 64, ParsingRefused := 1\<rparr>) 5 int)
        \<lparr>cl_looks := Suc 0, cl_retained_messages := 1, cl_full := True, cl_charged := 64\<rparr>)"
    by (simp add: ceiling_ops_def ceiling_reserve_def new_ceiling_def small_store_def zero_store_def reserve_def
      parsing_units_def left_def wrap64_def)
qed

lemma small_ceiling_fed:
  "\<exists>c p pr. feed (ceiling_ops 64) (new_ceiling 0 small_store 5 int) (new_parser Request default_limits) (byte_part 7 sample_request)
     = Inr (c, p, pr) \<and> pg_result pr = Refused \<and> cl_full c"
  by (simp add: parser_evals small_ceiling sample_request_def, subst feed_loop.simps, simp add: parser_evals small_ceiling,
      subst feed_loop.simps, simp add: parser_evals small_ceiling)

theorem ceiling_counts_parsing_witness:
  "\<exists>c p pr. feed (ceiling_ops 64) (new_ceiling 0 small_store 5 int) (new_parser Request default_limits) (byte_part 7 sample_request)
     = Inr (c, p, pr) \<and> cl_full c \<and> cl_charged c = parsing_units 64 (retained p + pg_charge pr)"
proof -
  from small_ceiling_fed obtain c p pr where
    f: "feed (ceiling_ops 64) (new_ceiling 0 small_store 5 int) (new_parser Request default_limits) (byte_part 7 sample_request)
      = Inr (c, p, pr)" "cl_full c"
    by blast
  from ceiling_counts_parsing [OF reads.fed [OF reads.new f(1)], of "[]"] f show ?thesis
    by (auto simp: let_go_def)
qed

end
