(* ===== verification/Http_Parse.thy ===== *)
theory Http_Parse
  imports Http_Parser_History Cursor
begin

text \<open>
  \<open>Parse\<close> and \<open>ParseResponses\<close> of \<open>http1/http1.go\<close>: every message of a direction that is already
  whole, read by the resumable parser part after part, and a body that only the connection's
  close would end read as the rest of the stream.

  The loop over one part is bounded by fuel: the part's length.  A \<open>Feed\<close> that does not end the
  part consumes something of it (\<open>feed_consumes\<close>), so this is enough, and the theory's property
  includes that the parse returns.
\<close>

section \<open>A call of Feed consumes something\<close>

lemma refuse_never_framed: "pg_result (snd (refuse p d detail)) \<notin> {Head, Framed}"
  by (cases d) (simp_all add: refuse_def hand_over_def set_current_def stop_for_def Let_def)

lemma refuse_results: "refuse p d detail = (p', pr) \<Longrightarrow> pg_result pr \<noteq> Head \<and> pg_result pr \<noteq> Framed"
  using refuse_never_framed [of p d detail] by simp

lemma read_line_event:
  assumes "read_line R r p input max' ctx = (r', p', fin, Some pr)"
  shows "pg_result pr \<notin> {Head, Framed}"
  using assms refuse_never_framed
  by (auto simp: read_line_def Let_def split_beta plain_progress_def split: if_splits prod.splits bool.splits)

lemma with_line_event_moves:
  assumes "with_line R r p input max' ctx k = (r', p', Some pr)" "input \<noteq> []" "pg_result pr \<in> {Head, Framed}"
    and k: "\<And>r p. ps_next (fst (snd (k R r p))) = ps_next p"
  shows "ps_next p < ps_next p'"
proof -
  obtain r1 p1 fin ev where l: "read_line R r p input max' ctx = (r1, p1, fin, ev)"
    by (metis prod_cases4)
  have ev: "ev = None"
    using assms(1,3) l read_line_event [of R r p input max' ctx r1 p1 fin] by (cases ev) (auto simp: with_line_def)
  with assms(1) l have "p' = fst (snd (k R r1 p1))"
    by (auto simp: with_line_def split: if_splits)
  then show ?thesis
    using k [of r1 p1] read_line_next [OF l [unfolded ev]] scan_line_consumed(2) [OF assms(2)] by auto
qed

lemma body_event_moves:
  assumes "body R r p input = (r', p', Some pr)" "input \<noteq> []" "0 < ps_remaining p" "pg_result pr \<in> {Head, Framed}"
  shows "ps_next p < ps_next p'"
proof -
  have "p' = fst (body_step (body_taken p input))"
    using assms(1,4) by (cases rule: body_cases [of p input R r]) (auto simp: plain_progress_def prod_eq_iff)
  then have "ps_next p' = ps_next p + body_take p input"
    using leaf_next(6) [of "body_taken p input"] by simp
  with assms(2,3) show ?thesis by (simp add: body_take_def)
qed

lemma live_remaining:
  assumes "live p" "ps_phase p = inDeclaredBody \<or> ps_phase p = inChunkData"
  shows "0 < ps_remaining p"
  using assms by (auto simp: live_def parser_wf_def at_rest_def in_progress_def phase_ok_def split: option.splits)

lemma bytes_step_event_moves:
  assumes "live p" "bytes_step R r p input = (r', p', Some pr)" "input \<noteq> []" "pg_result pr \<in> {Head, Framed}"
  shows "ps_next p < ps_next p'"
proof (cases "ps_phase p")
  case betweenMessages
  with assms(2,4) show ?thesis
    by (auto simp: bytes_step_def begin_message_def plain_progress_def split: prod.splits bool.splits)
next
  case inChunkEnd
  with assms(2) have "p' = fst (chunk_end p (hd input))" by (simp add: bytes_step_def split_beta)
  then show ?thesis by simp
next
  case awaitingAnswer
  with assms(2,4) show ?thesis by (auto simp: bytes_step_def plain_progress_def)
qed (use assms with_line_event_moves body_event_moves live_remaining [OF assms(1)] in \<open>fastforce simp: bytes_step_def\<close>)+

lemma hole_step_event_moves:
  assumes "live p" "hole_step R r p g n = (r', p', Some pr)" "0 < n" "pg_result pr \<in> {Head, Framed}"
  shows "ps_next p < ps_next p'"
proof (cases "ps_phase p = inDeclaredBody \<or> ps_phase p = inChunkData")
  case True
  have "p' = fst (body_step (if ps_phase p = inDeclaredBody
       then set_current (p\<lparr>ps_next := ps_next p + min n (ps_remaining p), ps_remaining := ps_remaining p - min n (ps_remaining p)\<rparr>)
          ((current p)\<lparr>m_body_holed := m_body_holed (current p) + min n (ps_remaining p)\<rparr>)
       else p\<lparr>ps_next := ps_next p + min n (ps_remaining p), ps_remaining := ps_remaining p - min n (ps_remaining p),
          ps_chunk_holed := ps_chunk_holed p + min n (ps_remaining p)\<rparr>))"
    using assms(2) True by (auto simp: hole_step_def Let_def current_def split_beta)
  with live_remaining [OF assms(1) True] assms(3) show ?thesis
    by (simp add: set_current_def)
next
  case False
  with assms(2,4) show ?thesis
    by (auto simp: hole_step_def begin_message_def plain_progress_def dest: refuse_results
        split: prod.splits bool.splits if_splits)
qed

lemma part_step_event_moves:
  assumes "live p" "part_validate part = None" "pt_offset part \<le> ps_next p" "ps_next p < pt_offset part + pt_length part"
    and "part_step R r p part = (r', p', Some pr)" "pg_result pr \<in> {Head, Framed}"
  shows "ps_next p < ps_next p'"
proof (cases "pt_gap part = GapNone")
  case True
  with assms(2-4) have "drop (ps_next p - pt_offset part) (pt_bytes part) \<noteq> []"
    by (auto simp: part_validate_ok)
  with True assms show ?thesis
    by (auto simp: part_step_def dest: bytes_step_event_moves)
next
  case False
  with assms show ?thesis
    by (auto simp: part_step_def dest!: hole_step_event_moves)
qed

lemma feed_loop_event_moves:
  assumes "live p" "part_validate part = None" "pt_offset part \<le> ps_next p" "ps_next p \<le> pt_offset part + pt_length part"
    "feed_loop R r p part = (r', p', pr)" "pg_result pr \<in> {Head, Framed}"
  shows "ps_next p < ps_next p'"
  using assms
proof (induction R r p part arbitrary: r' p' pr rule: feed_loop.induct)
  case (1 R r p part)
  have inside: "ps_next p < pt_offset part + pt_length part"
    using 1(6,7) by (auto simp: feed_loop.simps [of R r p part] plain_progress_def split: if_splits)
  obtain r1 p1 ev where st: "part_step R r p part = (r1, p1, ev)" by (metis prod_cases3)
  note ok = part_step_ok [OF 1(2-4) inside st]
  show ?case
  proof (cases ev)
    case None
    with ok(1) have s: "ps_message p1 \<noteq> None" "parser_wf p1" "same_direction p p1" by (auto simp: step_ok_def)
    then have live: "live p1" using 1(2) by (auto simp: live_def same_direction_def parser_wf_def)
    have le: "pt_offset part \<le> ps_next p1" using s(3) 1(4) by (simp add: same_direction_def)
    have "feed_loop R r1 p1 part = (r', p', pr)"
      using 1(3-6) inside st None by (simp add: feed_loop.simps [of R r p part])
    from 1(1) [OF _ st [symmetric] _ _ live 1(3) le ok(2) this 1(7)] inside 1(3,4) None
    have "ps_next p1 < ps_next p'" by simp
    with s(3) show ?thesis by (simp add: same_direction_def)
  next
    case (Some pr1)
    have out: "pg_result pr = pg_result pr1" "p' = (if result_stopped (pg_result pr1)
        then p1\<lparr>ps_next := pt_offset part + pt_length part\<rparr> else p1)"
      using 1(3-6) inside st Some by (auto simp: feed_loop.simps [of R r p part] Let_def)
    then have pr: "pg_result pr1 \<in> {Head, Framed}" "p' = p1"
      using 1(7) by (auto simp: result_stopped_def)
    from part_step_event_moves [OF 1(2-4) inside st [unfolded Some] pr(1)] pr(2) show ?thesis by simp
  qed
qed

lemma feed_consumes:
  assumes wf: "parser_wf p" and fed: "feed R r p part = Inr (r', p', pr)" and "0 < pt_length part"
    and "pg_result pr \<notin> {NeedRequest, Refused}"
  shows "0 < pg_consumed pr"
proof (cases "pg_consumed pr = pt_length part")
  case False
  note w = feed_wf [OF wf fed]
  from fed have ad: "admit p part = None" by (cases "admit p part") (auto simp: feed_def)
  note o = opened_wf [OF wf ad]
  have q: "(if \<not> ps_started p then p\<lparr>ps_started := True, ps_next := pt_offset part, ps_settled := pt_offset part\<rparr> else p)
      = opened p part" by (simp add: opened_def)
  have stop: "ps_stop p = NeedInput" using w False by (auto split: if_splits)
  with w False assms(4) have res: "pg_result pr \<in> {Head, Framed}" "ps_next p' = pt_offset part + pg_consumed pr"
    by (auto simp: feed_ok_def)
  have "feed_loop R r (opened p part) part = (r', p', pr)"
    using fed stop res(1) by (auto simp: feed_def ad q Let_def plain_progress_def split: if_splits)
  from feed_loop_event_moves [OF _ o(5) _ _ this res(1)] o stop res(2) show ?thesis
    by (simp add: live_def)
qed (use assms(3) in simp)

section \<open>Only a head waits on an answer\<close>

definition waits_at_head :: "parser \<times> progress option \<Rightarrow> bool" where
  "waits_at_head out \<longleftrightarrow>
     (ps_phase (fst out) = awaitingAnswer \<longrightarrow> (\<exists>pr. snd out = Some pr \<and> pg_result pr = Head))
   \<and> (\<forall>pr. snd out = Some pr \<longrightarrow> pg_result pr \<noteq> NeedRequest)"

lemma waits_simps [simp]:
  "waits_at_head (p, None) \<longleftrightarrow> ps_phase p \<noteq> awaitingAnswer"
  "waits_at_head (p, Some pr) \<longleftrightarrow> (ps_phase p = awaitingAnswer \<longrightarrow> pg_result pr = Head) \<and> pg_result pr \<noteq> NeedRequest"
  by (auto simp: waits_at_head_def)

lemma leaf_phase [simp]:
  "ps_phase (fst (hand_over p res)) = betweenMessages" "ps_phase (fst (refuse p d detail)) = betweenMessages"
  "ps_phase (snd (release R r p n)) = ps_phase p" "ps_phase (snd (drop_line R r p)) = ps_phase p"
  "pg_result (snd (hand_over p res)) = res" "pg_result (snd (refuse p d detail)) = stop_for d"
  "stop_for d \<noteq> NeedRequest" "stop_for d \<noteq> Refused"
  by (auto simp: leaf_defs stop_for_def split: defect.splits)

lemma body_step_waits: "ps_phase p \<noteq> awaitingAnswer \<Longrightarrow> waits_at_head (body_step p)"
  by (simp add: body_step_def set_current_def Let_def split_beta)

lemma chunk_size_next_waits: "waits_at_head (chunk_size_next p)"
  by (simp add: chunk_size_next_def split_beta)

lemma frame_message_answered:
  "ps_phase (fst (frame_message p noBody)) \<noteq> awaitingAnswer" "pg_result (snd (frame_message p noBody)) \<notin> {NeedRequest, Refused}"
  by (auto simp: frame_message_def leaf_defs stop_for_def head_progress_def plain_progress_def
      split: framing.splits option.splits defect.splits)

lemma fields_ended_waits: "waits_at_head (map_prod id Some (fields_ended p))"
  using frame_message_answered
  by (simp add: fields_ended_def Let_def head_progress_def map_prod_def split_beta)

lemma handlers_wait:
  assumes "ps_phase p \<noteq> awaitingAnswer"
  shows "waits_at_head (snd (read_start R r p))" "waits_at_head (snd (field_line R r p))"
    "waits_at_head (snd (trailer_line R r p))" "waits_at_head (snd (chunk_size_line R r p))"
  using assms fields_ended_waits [of "snd (take_line p)"]
  by (auto simp: read_start_def field_line_def trailer_line_def chunk_size_line_def take_line_def release_refuse_def
      set_current_def Let_def split_beta map_prod_def split: kind.splits option.splits)

lemma read_line_waits:
  assumes "read_line R r p input max' ctx = (r', p', fin, ev)" "ps_phase p \<noteq> awaitingAnswer"
  shows "ps_phase p' \<noteq> awaitingAnswer" "ev = Some pr \<Longrightarrow> pg_result pr \<noteq> NeedRequest"
  using assms
  by (auto simp: read_line_def Let_def split_beta plain_progress_def split: if_splits prod.splits bool.splits)

lemma with_line_waits:
  assumes "ps_phase p \<noteq> awaitingAnswer" "\<And>r p. ps_phase p \<noteq> awaitingAnswer \<Longrightarrow> waits_at_head (snd (k R r p))"
  shows "waits_at_head (snd (with_line R r p input max' ctx k))"
proof -
  obtain r1 p1 fin ev where l: "read_line R r p input max' ctx = (r1, p1, fin, ev)" by (metis prod_cases4)
  from read_line_waits [OF l assms(1)] assms(2) [of p1 r1] l show ?thesis
    by (cases ev) (auto simp: with_line_def)
qed

lemma bytes_step_waits:
  assumes "ps_phase p \<noteq> awaitingAnswer"
  shows "waits_at_head (snd (bytes_step R r p input))"
proof -
  have body: "waits_at_head (snd (body R r p input))"
    using assms body_step_waits [of "body_taken p input"]
    by (cases rule: body_cases [of p input R r]) (auto simp: plain_progress_def)
  have last: "waits_at_head (chunk_end p b)" for b
    using assms chunk_size_next_waits by (simp add: chunk_end_def Let_def split_beta)
  show ?thesis
    using assms body last with_line_waits [OF assms handlers_wait(1)] with_line_waits [OF assms handlers_wait(2)]
      with_line_waits [OF assms handlers_wait(3)] with_line_waits [OF assms handlers_wait(4)]
    by (cases "ps_phase p")
      (simp_all add: bytes_step_def begin_message_def plain_progress_def split_beta split: prod.splits bool.splits)
qed

lemma hole_step_waits:
  assumes "ps_phase p \<noteq> awaitingAnswer"
  shows "waits_at_head (snd (hole_step R r p g n))"
  using assms
  by (auto simp: hole_step_def begin_message_def plain_progress_def set_current_def Let_def split_beta body_step_waits
      split: prod.splits bool.splits)

lemma feed_loop_waits:
  assumes "ps_phase p \<noteq> awaitingAnswer" "feed_loop R r p part = (r', p', pr)"
  shows "waits_at_head (p', Some pr)"
  using assms
proof (induction R r p part arbitrary: r' p' pr rule: feed_loop.induct)
  case (1 R r p part)
  obtain r1 p1 ev where st: "part_step R r p part = (r1, p1, ev)" by (metis prod_cases3)
  have w: "waits_at_head (p1, ev)"
    using 1(2) st bytes_step_waits [of p R r] hole_step_waits [of p R r] by (metis part_step_def snd_conv)
  show ?case
  proof (cases "part_validate part = None \<and> pt_offset part \<le> ps_next p \<and> ps_next p < pt_offset part + pt_length part")
    case False
    with 1(2,3) show ?thesis
      by (auto simp: feed_loop.simps [of R r p part] plain_progress_def)
  next
    case inside: True
    show ?thesis
    proof (cases ev)
      case None
      with 1(3) inside st have "feed_loop R r1 p1 part = (r', p', pr)"
        by (simp add: feed_loop.simps [of R r p part])
      from 1(1) [OF inside st [symmetric] refl None _ this] w None show ?thesis by simp
    next
      case (Some pr1)
      with 1(3) inside st have "ps_phase p' = ps_phase p1" "pg_result pr = pg_result pr1"
        by (auto simp: feed_loop.simps [of R r p part] Let_def)
      with w Some show ?thesis by simp
    qed
  qed
qed

lemma feed_waits:
  assumes "parser_wf p" "ps_phase p \<noteq> awaitingAnswer" "feed R r p part = Inr (r', p', pr)"
  shows "waits_at_head (p', Some pr)"
proof -
  from assms(3) have ad: "admit p part = None" by (cases "admit p part") (auto simp: feed_def)
  have q: "(if \<not> ps_started p then p\<lparr>ps_started := True, ps_next := pt_offset part, ps_settled := pt_offset part\<rparr> else p)
      = opened p part" "ps_phase (opened p part) = ps_phase p" by (simp_all add: opened_def)
  show ?thesis
  proof (cases "ps_stop p = NeedInput")
    case True
    with assms(2,3) q have "feed_loop R r (opened p part) part = (r', p', pr)"
      by (auto simp: feed_def ad Let_def)
    with assms(2) q(2) feed_loop_waits show ?thesis by metis
  next
    case False
    moreover have "ps_stop p \<noteq> NeedRequest"
      using False assms(1) by (auto simp: parser_wf_def result_stopped_def)
    ultimately show ?thesis
      using assms(2,3) q by (auto simp: feed_def ad Let_def plain_progress_def)
  qed
qed

text \<open>A reserver that grants everything refuses no growth.\<close>

lemma unaccounted_grants [simp]: "Reserve unaccounted r c = (True, r)"
  by (simp add: unaccounted_def)

lemma handlers_granted:
  "snd (snd (read_start R r p)) = Some pr \<Longrightarrow> pg_result pr \<noteq> Refused"
  "snd (snd (field_line R r p)) = Some pr \<Longrightarrow> pg_result pr \<noteq> Refused"
  "snd (snd (trailer_line R r p)) = Some pr \<Longrightarrow> pg_result pr \<noteq> Refused"
  "snd (snd (chunk_size_line R r p)) = Some pr \<Longrightarrow> pg_result pr \<noteq> Refused"
  using frame_message_answered(2)
  by (auto simp: read_start_def field_line_def trailer_line_def chunk_size_line_def take_line_def release_refuse_def
      fields_ended_def head_progress_def set_current_def Let_def split_beta split: kind.splits option.splits if_splits)

lemma with_line_granted:
  assumes "snd (snd (with_line unaccounted r p input max' ctx k)) = Some pr"
    "\<And>r p pr. snd (snd (k unaccounted r p)) = Some pr \<Longrightarrow> pg_result pr \<noteq> Refused"
  shows "pg_result pr \<noteq> Refused"
proof -
  obtain r1 p1 fin ev where l: "read_line unaccounted r p input max' ctx = (r1, p1, fin, ev)" by (metis prod_cases4)
  have "ev = Some pr \<Longrightarrow> pg_result pr \<noteq> Refused"
    using l by (auto simp: read_line_def Let_def split_beta split: if_splits)
  with assms l show ?thesis by (cases ev) (auto simp: with_line_def split: if_splits)
qed

lemma lines_granted:
  "snd (snd (with_line unaccounted r p input max' ctx read_start)) = Some pr \<Longrightarrow> pg_result pr \<noteq> Refused"
  "snd (snd (with_line unaccounted r p input max' ctx field_line)) = Some pr \<Longrightarrow> pg_result pr \<noteq> Refused"
  "snd (snd (with_line unaccounted r p input max' ctx trailer_line)) = Some pr \<Longrightarrow> pg_result pr \<noteq> Refused"
  "snd (snd (with_line unaccounted r p input max' ctx chunk_size_line)) = Some pr \<Longrightarrow> pg_result pr \<noteq> Refused"
  by (erule with_line_granted, erule handlers_granted)+

lemma body_step_framed: "snd (body_step p) = Some pr \<Longrightarrow> pg_result pr = Framed"
  by (auto simp: body_step_def Let_def split_beta split: if_splits)

lemma part_step_granted:
  assumes "part_step unaccounted r p part = (r', p', Some pr)"
  shows "pg_result pr \<noteq> Refused"
proof (cases "pt_gap part = GapNone")
  case True
  let ?in = "drop (ps_next p - pt_offset part) (pt_bytes part)"
  have step: "snd (snd (bytes_step unaccounted r p ?in)) = Some pr"
    using True assms by (simp add: part_step_def)
  have body: "snd (snd (body unaccounted r p ?in)) = Some pr \<Longrightarrow> pg_result pr \<noteq> Refused"
    by (cases rule: body_cases [of p ?in unaccounted r]) (auto simp: body_step_def split_beta Let_def split: if_splits)
  have last: "snd (chunk_end p b) = Some pr \<Longrightarrow> pg_result pr \<noteq> Refused" for b
    by (auto simp: chunk_end_def chunk_size_next_def Let_def split_beta split: if_splits)
  have line: "snd (snd (with_line unaccounted r p ?in max' ctx k)) = Some pr \<Longrightarrow>
      k \<in> {read_start, field_line, trailer_line, chunk_size_line} \<Longrightarrow> pg_result pr \<noteq> Refused" for max' ctx k
    by (elim insertE emptyE; hypsubst; erule lines_granted)
  show ?thesis
  proof (cases "ps_phase p")
    case inChunkEnd
    with step show ?thesis by (intro last [of "hd ?in"]) (simp add: bytes_step_def split_beta)
  next
    case awaitingAnswer
    with step show ?thesis by (auto simp: bytes_step_def plain_progress_def)
  next
    case betweenMessages
    with step show ?thesis by (simp add: bytes_step_def begin_message_def)
  qed (use step body line in \<open>simp_all add: bytes_step_def\<close>)
next
  case False
  then have step: "snd (snd (hole_step unaccounted r p (pt_gap part) (pt_offset part + pt_length part - ps_next p))) = Some pr"
    using assms by (simp add: part_step_def)
  consider "ps_phase p = betweenMessages" | "ps_phase p = inDeclaredBody \<or> ps_phase p = inChunkData"
    | "ps_phase p \<notin> {betweenMessages, inDeclaredBody, inChunkData}"
    by auto
  then show ?thesis
  proof cases
    case 1
    with step show ?thesis by (simp add: hole_step_def begin_message_def)
  next
    case 2
    with step show ?thesis by (auto simp: hole_step_def Let_def split_beta dest!: body_step_framed split: if_splits)
  next
    case 3
    with step have "pg_result pr = stop_for DefectHole"
      by (auto simp: hole_step_def split_beta)
    then show ?thesis by simp
  qed
qed

lemma feed_granted:
  assumes "parser_wf p" "feed unaccounted r p part = Inr (r', p', pr)"
  shows "pg_result pr \<noteq> Refused"
proof -
  have loop: "Q = unaccounted \<Longrightarrow> feed_loop Q r p part = (r', p', pr) \<Longrightarrow> pg_result pr \<noteq> Refused" for Q r p part r' p' pr
  proof (induction Q r p part arbitrary: r' p' pr rule: feed_loop.induct)
    case (1 Q r p part)
    obtain r1 p1 ev where st: "part_step Q r p part = (r1, p1, ev)" by (metis prod_cases3)
    show ?case
    proof (cases "part_validate part = None \<and> pt_offset part \<le> ps_next p \<and> ps_next p < pt_offset part + pt_length part")
      case False
      with 1(3) show ?thesis by (auto simp: feed_loop.simps [of Q "()" p part] plain_progress_def)
    next
      case inside: True
      with 1 st part_step_granted [of r p part r1 p1] show ?thesis
        by (cases ev) (auto simp: feed_loop.simps [of unaccounted "()" p part] Let_def)
    qed
  qed
  from assms(2) have ad: "admit p part = None" by (cases "admit p part") (auto simp: feed_def)
  have "ps_stop p \<noteq> Refused"
    using assms(1) by (auto simp: parser_wf_def result_stopped_def)
  with assms(2) loop [OF refl] show ?thesis
    by (auto simp: feed_def ad Let_def plain_progress_def split: if_splits)
qed

section \<open>Parsing a whole stream\<close>

record parsed =
  pd_messages :: "message list"
  pd_unplaced :: nat

definition read_until_close :: "message \<Rightarrow> cursor \<Rightarrow> limits \<Rightarrow> message \<times> cursor" where
  "read_until_close m c limits =
    (let reach = cursor_remaining c;
         (c', result) = cursor_take c reach (MaxBodyBytes limits);
         (data, holed) = (case result of Inl _ \<Rightarrow> ([], 0) | Inr x \<Rightarrow> x)
     in (m\<lparr>m_body := data, m_body_holed := holed, m_body_length := reach,
           m_body_elided := sub64 (sub64 reach holed) (length data), m_defect := DefectStreamEnded,
           m_detail := ''the body ends with the connection, and a fragment carries no close''\<rparr>, c'))"

text \<open>The closure \<open>take\<close>: what is parsed with a message handed over, and whether the parse is over.\<close>

definition take_message :: "stream \<Rightarrow> limits \<Rightarrow> parsed \<Rightarrow> progress \<Rightarrow> parsed \<times> bool" where
  "take_message s limits parsed pr =
    (case pg_message pr of
       None \<Rightarrow> (parsed, False)
     | Some m \<Rightarrow>
       if pg_result pr = Head then (parsed, False)
       else if pg_result pr = Unsupported \<and> m_framing m = FramingUntilClose then
         let m1 = (case cursor_take (new_cursor s) (sub64 (m_end m) (sm_start s)) 0 of
                     (c, Inl _) \<Rightarrow> m
                   | (c, Inr _) \<Rightarrow> (case read_until_close m c limits of (m1, c1) \<Rightarrow> m1\<lparr>m_end := cu_pos c1\<rparr>))
         in (\<lparr>pd_messages = pd_messages parsed @ [m1], pd_unplaced = sub64 (sm_end s) (m_end m1)\<rparr>, True)
       else (parsed\<lparr>pd_messages := pd_messages parsed @ [m]\<rparr>, False))"

definition finish_parse :: "parsed \<Rightarrow> stream \<Rightarrow> parsed" where
  "finish_parse parsed s =
    parsed\<lparr>pd_unplaced :=
      (if pd_messages parsed = [] then sub64 (sm_end s) (sm_start s)
       else sub64 (sm_end s) (m_end (last (pd_messages parsed))))\<rparr>"

definition part_tail :: "part \<Rightarrow> nat \<Rightarrow> part" where
  "part_tail part n =
    part\<lparr>pt_offset := add64 (pt_offset part) n, pt_length := sub64 (pt_length part) n,
         pt_bytes := (if pt_gap part = GapNone then drop n (pt_bytes part) else pt_bytes part)\<rparr>"

text \<open>Where the loops stand: reading on, returned, or at the end that counts what is unplaced.\<close>

datatype parse_state = Reading parser parsed | Returned parsed

definition answer_head :: "kind \<Rightarrow> bool list \<Rightarrow> nat \<Rightarrow> parser \<Rightarrow> progress \<Rightarrow> parser \<times> progress" where
  "answer_head kind bodiless i p pr =
    (if pg_result pr = Head \<and> kind = Response then
       (case answer p (if length bodiless > i \<and> bodiless ! i then ''HEAD'' else []) of
          Inl _ \<Rightarrow> (p, plain_progress NeedInput)
        | Inr out \<Rightarrow> out)
     else (p, pr))"

fun parse_part :: "nat \<Rightarrow> stream \<Rightarrow> kind \<Rightarrow> bool list \<Rightarrow> parser \<Rightarrow> parsed \<Rightarrow> part \<Rightarrow> parse_state option" where
  "parse_part fuel s kind bodiless p parsed part =
    (if pt_length part = 0 then Some (Reading p parsed)
     else case fuel of
       0 \<Rightarrow> None
     | Suc fewer \<Rightarrow>
       (case feed unaccounted () p part of
          Inl _ \<Rightarrow> Some (Returned (finish_parse parsed s))
        | Inr (_, p1, pr) \<Rightarrow>
            let (p2, pr2) = answer_head kind bodiless (length (pd_messages parsed)) p1 pr;
                (parsed', over) = take_message s (ps_limits p2) parsed pr2
            in if over then Some (Returned parsed')
               else parse_part fewer s kind bodiless p2 parsed' (part_tail part (pg_consumed pr))))"

fun parse_parts :: "stream \<Rightarrow> kind \<Rightarrow> bool list \<Rightarrow> parser \<Rightarrow> parsed \<Rightarrow> part list \<Rightarrow> parse_state option" where
  "parse_parts s kind bodiless p parsed [] = Some (Reading p parsed)"
| "parse_parts s kind bodiless p parsed (part # parts) =
    (case parse_part (pt_length part) s kind bodiless p parsed part of
       Some (Reading p' parsed') \<Rightarrow> parse_parts s kind bodiless p' parsed' parts
     | out \<Rightarrow> out)"

definition parse_stream :: "stream \<Rightarrow> kind \<Rightarrow> limits \<Rightarrow> bool list \<Rightarrow> parsed option" where
  "parse_stream s kind limits bodiless =
    (case parse_parts s kind bodiless (new_parser kind limits) \<lparr>pd_messages = [], pd_unplaced = 0\<rparr> (sm_parts s) of
       None \<Rightarrow> None
     | Some (Returned parsed) \<Rightarrow> Some parsed
     | Some (Reading p parsed) \<Rightarrow>
         (case end_parser unaccounted () p of
            (_, p', pr) \<Rightarrow>
              (case take_message s (ps_limits p') parsed pr of
                 (parsed', over) \<Rightarrow> Some (if over then parsed' else finish_parse parsed' s))))"

definition parse_responses :: "stream \<Rightarrow> limits \<Rightarrow> bool list \<Rightarrow> parsed option" where
  "parse_responses s limits bodiless = parse_stream s Response limits bodiless"

declare parse_part.simps [simp del]

section \<open>The parse covers the stream\<close>

text \<open>What the messages read so far begin with, and where the next begins.\<close>

definition begins_at :: "nat \<Rightarrow> message list \<Rightarrow> parser \<Rightarrow> bool" where
  "begins_at start ms p \<longleftrightarrow>
     start \<le> ps_settled p \<and> (if ms = [] then ps_settled p = start else m_offset (hd ms) = start)"

lemma begins_event:
  assumes "begins_at start ms p" "event_ok p p' pr"
  shows "begins_at start (ms @ handed pr) p'"
proof (cases "handed pr = []")
  case False
  then obtain m where m: "handed pr = [m]" "delivered p (ps_settled p') m"
    using handed_event [OF assms(2)] by auto
  then have "m_offset m = ps_settled p" "ps_settled p \<le> ps_settled p'"
    by (auto simp: delivered_def)
  with m(1) assms(1) show ?thesis by (cases ms) (auto simp: begins_at_def)
qed (use handed_event [OF assms(2)] assms(1) in \<open>auto simp: begins_at_def\<close>)

definition reading_at :: "stream \<Rightarrow> kind \<Rightarrow> limits \<Rightarrow> parser \<Rightarrow> parsed \<Rightarrow> nat \<Rightarrow> bool" where
  "reading_at s kind limits p parsed at \<longleftrightarrow>
     (\<exists>prs. reads unaccounted kind limits () () p prs \<and> pd_messages parsed = messages prs)
   \<and> \<not> ps_ended p \<and> ps_phase p \<noteq> awaitingAnswer
   \<and> (if ps_started p then ps_next p = at \<and> begins_at (sm_start s) (pd_messages parsed) p
      else at = sm_start s \<and> pd_messages parsed = [])"

definition covers_stream :: "stream \<Rightarrow> parsed \<Rightarrow> bool" where
  "covers_stream s parsed \<longleftrightarrow>
     contiguous (pd_messages parsed) \<and> (\<forall>m\<in>set (butlast (pd_messages parsed)). m_framed m)
   \<and> (if pd_messages parsed = [] then sm_start s + pd_unplaced parsed = sm_end s
      else m_offset (hd (pd_messages parsed)) = sm_start s
        \<and> m_end (last (pd_messages parsed)) + pd_unplaced parsed = sm_end s)"

lemma part_tail_ok:
  assumes "part_validate part = None" "n \<le> pt_length part" "pt_offset part + pt_length part < two64"
  shows "pt_offset (part_tail part n) = pt_offset part + n" "pt_length (part_tail part n) = pt_length part - n"
    "n < pt_length part \<Longrightarrow> part_validate (part_tail part n) = None"
  using assms by (auto simp: part_tail_def part_validate_def u64_simps split: if_splits)

lemma cursor_take_whole:
  assumes "cursor_wf c" "n \<le> cursor_remaining c"
  shows "\<exists>c' x. cursor_take c n keep = (c', Inr x) \<and> cursor_wf c' \<and> cu_stream c' = cu_stream c \<and> cu_pos c' = cu_pos c + n"
proof -
  have "cursor_remaining c < two64"
    using assms by (auto simp: cursor_wf_def whole_def cursor_remaining_def)
  with take_loop_cells [OF assms(1), of n "[]" keep 0] length_unread [OF assms(1)] assms(2) show ?thesis
    by (auto simp: cursor_take_def)
qed

lemma until_close_reaches_end:
  assumes "whole s" "sm_start s \<le> m_end m" "m_end m \<le> sm_end s" "pg_message pr = Some m"
    and "pg_result pr = Unsupported" "m_framing m = FramingUntilClose"
  shows "\<exists>m1. take_message s limits parsed pr = (\<lparr>pd_messages = pd_messages parsed @ [m1], pd_unplaced = 0\<rparr>, True)
    \<and> m_offset m1 = m_offset m \<and> m_end m1 = sm_end s"
proof -
  have start: "sub64 (m_end m) (sm_start s) = m_end m - sm_start s"
    using assms(1-3) by (simp add: sub64_fits whole_def)
  obtain c x where c: "cursor_take (new_cursor s) (m_end m - sm_start s) 0 = (c, Inr x)" "cursor_wf c"
      "cu_stream c = s" "cu_pos c = m_end m"
  proof -
    have "m_end m - sm_start s \<le> cursor_remaining (new_cursor s)"
      using assms(2,3) by (auto simp: new_cursor_def cursor_remaining_def)
    moreover have "cu_stream (new_cursor s) = s" "cu_pos (new_cursor s) + (m_end m - sm_start s) = m_end m"
      using assms(2) by (simp_all add: new_cursor_def)
    ultimately show ?thesis
      using cursor_take_whole [OF new_cursor_wf [OF assms(1)], of "m_end m - sm_start s" 0] that by auto
  qed
  obtain c1 y where c1: "cursor_take c (cursor_remaining c) (MaxBodyBytes limits) = (c1, Inr y)"
      "cu_pos c1 = m_end m + cursor_remaining c"
    using cursor_take_whole [OF c(2) order_refl] c(4) by metis
  have "cu_pos c1 = sm_end s"
    using c1(2) c(3,4) assms(3) by (simp add: cursor_remaining_def)
  with c1(1) c(1) assms start show ?thesis
    by (simp add: take_message_def read_until_close_def Let_def split_beta sub64_fits whole_def)
qed

text \<open>What one call of the parser, answered where it must be, does to the reading.\<close>

lemma answer_head_reads:
  assumes "reads unaccounted kind limits () () p prs" "begins_at start (messages prs) p" "ps_started p"
    and "waits_at_head (p, Some (last prs))" "prs \<noteq> []" "\<not> ps_ended p"
    and "answer_head kind bodiless i p (last prs) = (p2, pr2)"
  shows "\<exists>prs2. reads unaccounted kind limits () () p2 prs2 \<and> messages prs2 = messages (butlast prs) @ handed pr2
    \<and> begins_at start (messages prs2) p2 \<and> ps_phase p2 \<noteq> awaitingAnswer \<and> ps_next p2 = ps_next p
    \<and> ps_started p2 \<and> \<not> ps_ended p2"
proof -
  have prs: "prs = butlast prs @ [last prs]" using assms(5) by simp
  have wf: "parser_wf p" and kind: "ps_kind p = kind"
    using reads_history [OF assms(1)] by (auto simp: history_ok_def)
  show ?thesis
  proof (cases "pg_result (last prs) = Head \<and> kind = Response \<and> ps_phase p = awaitingAnswer")
    case True
    let ?m = "if length bodiless > i \<and> bodiless ! i then ''HEAD'' else []"
    have an: "answer p ?m = Inr (p2, pr2)"
      using assms(6,7) True by (auto simp: answer_head_def answer_def)
    have f: "frame_message p (equal_fold ?m ''HEAD'') = (p2, pr2)"
      using an by (auto simp: answer_def split: if_splits)
    note ok = answer_wf [OF wf an]
    have e: "event_ok p p2 pr2" "same_direction p p2" using ok(1) by (auto simp: step_ok_def)
    have "messages (prs @ [pr2]) = messages (butlast prs) @ handed pr2"
      using True by (subst prs) (simp add: messages_def handed_def)
    moreover have "begins_at start (messages (prs @ [pr2])) p2"
      using begins_event [OF assms(2) e(1)] by simp
    moreover have "ps_phase p2 \<noteq> awaitingAnswer"
      using frame_message_answered(1) [of p "equal_fold ?m ''HEAD''"] f by simp
    ultimately show ?thesis
      using reads.answered [OF assms(1) an] e(2) ok(2) assms(3,6)
      by (intro exI [of _ "prs @ [pr2]"]) (auto simp: same_direction_def)
  next
    case False
    have waits: "ps_phase p = awaitingAnswer \<Longrightarrow> kind = Response"
      using wf kind by (auto simp: parser_wf_def at_rest_def in_progress_def phase_ok_def split: option.splits)
    have "ps_phase p \<noteq> awaitingAnswer"
      using False assms(4) waits by auto
    moreover have "p2 = p" "handed pr2 = handed (last prs)"
      using assms(7) False calculation by (auto simp: answer_head_def answer_def handed_def plain_progress_def split: if_splits)
    moreover have "messages prs = messages (butlast prs) @ handed (last prs)"
      by (subst prs) (simp only: messages_snoc)
    ultimately show ?thesis
      using assms(1-3,6) by (intro exI [of _ prs]) auto
  qed
qed

lemma feed_reads:
  assumes "reading_at s kind limits p parsed (pt_offset part)" "part_validate part = None"
  shows "\<exists>p1 pr prs. feed unaccounted () p part = Inr ((), p1, pr) \<and> prs \<noteq> [] \<and> last prs = pr
    \<and> messages (butlast prs) = pd_messages parsed \<and> reads unaccounted kind limits () () p1 prs
    \<and> begins_at (sm_start s) (messages prs) p1 \<and> ps_started p1 \<and> \<not> ps_ended p1 \<and> waits_at_head (p1, Some pr)
    \<and> ps_next p1 = pt_offset part + pg_consumed pr \<and> 0 < pg_consumed pr \<and> pg_consumed pr \<le> pt_length part"
proof -
  obtain prs where prs: "reads unaccounted kind limits () () p prs" "pd_messages parsed = messages prs"
    using assms(1) unfolding reading_at_def by blast
  have p: "\<not> ps_ended p" "ps_phase p \<noteq> awaitingAnswer"
    and at: "if ps_started p then ps_next p = pt_offset part \<and> begins_at (sm_start s) (messages prs) p
      else pt_offset part = sm_start s \<and> messages prs = []"
    using assms(1) unfolding reading_at_def prs(2) by simp_all
  have wf: "parser_wf p" using reads_history [OF prs(1)] by (simp add: history_ok_def)
  have "admit p part = None"
    using p(1) at assms(2) by (auto simp: admit_def split: if_splits)
  then obtain p1 pr where fed: "feed unaccounted () p part = Inr ((), p1, pr)"
    by (cases "feed unaccounted () p part") (auto simp: feed_def Let_def split: if_splits)
  have b: "begins_at (sm_start s) (messages prs) (opened p part)"
    using at by (auto simp: opened_def begins_at_def split: if_splits)
  note w = feed_wf [OF wf fed]
  have "begins_at (sm_start s) (messages prs @ handed pr) p1 \<and> ps_started p1 \<and> \<not> ps_ended p1
    \<and> ps_next p1 = pt_offset part + pg_consumed pr \<and> pg_consumed pr \<le> pt_length part"
  proof (cases "ps_stop p = NeedInput")
    case True
    with w have "feed_ok (opened p part) part p1 pr" by simp
    with begins_event [OF b, of p1 pr] p(1) show ?thesis
      by (auto simp: feed_ok_def same_direction_def opened_def split: if_splits)
  next
    case False
    with w b p(1) show ?thesis
      by (auto simp: handed_def plain_progress_def begins_at_def opened_def)
  qed
  moreover have "waits_at_head (p1, Some pr)"
    by (rule feed_waits [OF wf p(2) fed])
  moreover from this have "0 < pg_consumed pr"
    using feed_consumes [OF wf fed] feed_granted [OF wf fed] assms(2) by (auto simp: part_validate_ok)
  ultimately show ?thesis
    using reads.fed [OF prs(1) fed] prs(2) fed by (intro exI [of _ p1] exI [of _ pr] exI [of _ "prs @ [pr]"]) auto
qed

lemma take_message_ok:
  assumes "whole s" "reads unaccounted kind limits () () p prs" "messages prs = pd_messages parsed @ handed pr"
    and "begins_at (sm_start s) (messages prs) p" "ps_started p" "ps_next p \<le> sm_end s"
    and "take_message s lim parsed pr = (parsed', over)"
  shows "over \<Longrightarrow> covers_stream s parsed'" "\<not> over \<Longrightarrow> pd_messages parsed' = messages prs"
proof -
  have h: "history_ok kind limits p (messages prs)"
    by (rule reads_history [OF assms(2)])
  show "pd_messages parsed' = messages prs" if "\<not> over"
    using assms(3,7) that by (auto simp: take_message_def handed_def Let_def split: option.splits if_splits)
  show "covers_stream s parsed'" if finished: over
  proof -
    obtain m where m: "pg_message pr = Some m" "pg_result pr = Unsupported" "m_framing m = FramingUntilClose"
      using assms(7) finished by (auto simp: take_message_def split: option.splits if_splits)
    then have ms: "messages prs = pd_messages parsed @ [m]"
      using assms(3) by (simp add: handed_def)
    have e: "m_end m = ps_settled p" "ps_settled p \<le> ps_next p"
      using h ms by (auto simp: history_ok_def parser_wf_def)
    obtain m1 where m1: "parsed' = \<lparr>pd_messages = pd_messages parsed @ [m1], pd_unplaced = 0\<rparr>"
        "m_offset m1 = m_offset m" "m_end m1 = sm_end s"
      using until_close_reaches_end [OF assms(1) _ _ m, of lim parsed] assms(4,6,7) e by (auto simp: begins_at_def)
    have "m_offset (hd (pd_messages parsed @ [m1])) = sm_start s"
      using assms(4) ms m1(2) by (cases "pd_messages parsed") (auto simp: begins_at_def)
    with h ms m1 show ?thesis
      by (auto simp: covers_stream_def history_ok_def contiguous_snoc)
  qed
qed

lemma parse_part_covers:
  assumes "whole s" "reading_at s kind limits p parsed (pt_offset part)"
    and "pt_length part = 0 \<or> part_validate part = None" "pt_length part \<le> fuel"
    and "pt_offset part + pt_length part \<le> sm_end s"
  shows "\<exists>out. parse_part fuel s kind bodiless p parsed part = Some out \<and>
    (case out of Reading p' parsed' \<Rightarrow> reading_at s kind limits p' parsed' (pt_offset part + pt_length part)
     | Returned parsed' \<Rightarrow> covers_stream s parsed')"
  using assms
proof (induction fuel arbitrary: p parsed part)
  case 0
  then show ?case by (simp add: parse_part.simps)
next
  case (Suc fuel)
  show ?case
  proof (cases "pt_length part = 0")
    case True
    with Suc.prems(2) show ?thesis by (simp add: parse_part.simps)
  next
    case False
    with Suc.prems(3) have valid: "part_validate part = None" by simp
    obtain p1 pr prs where fed: "feed unaccounted () p part = Inr ((), p1, pr)" "prs \<noteq> []" "last prs = pr"
      "messages (butlast prs) = pd_messages parsed" "reads unaccounted kind limits () () p1 prs"
      "begins_at (sm_start s) (messages prs) p1" "ps_started p1" "\<not> ps_ended p1" "waits_at_head (p1, Some pr)"
      "ps_next p1 = pt_offset part + pg_consumed pr" "0 < pg_consumed pr" "pg_consumed pr \<le> pt_length part"
      using feed_reads [OF Suc.prems(2) valid] by blast
    obtain p2 pr2 where an: "answer_head kind bodiless (length (pd_messages parsed)) p1 pr = (p2, pr2)" by fastforce
    obtain prs2 where r2: "reads unaccounted kind limits () () p2 prs2" "messages prs2 = pd_messages parsed @ handed pr2"
      "begins_at (sm_start s) (messages prs2) p2" "ps_phase p2 \<noteq> awaitingAnswer" "ps_next p2 = ps_next p1"
      "ps_started p2" "\<not> ps_ended p2"
      using answer_head_reads [OF fed(5-7) _ fed(2,8), of bodiless "length (pd_messages parsed)" p2 pr2] fed(3,4,9) an
      by auto
    obtain parsed1 over where tk: "take_message s (ps_limits p2) parsed pr2 = (parsed1, over)" by fastforce
    have "ps_next p2 \<le> sm_end s"
      using r2(5) fed(10,12) Suc.prems(5) by simp
    note t = take_message_ok [OF Suc.prems(1) r2(1,2,3,6) this tk]
    have run: "parse_part (Suc fuel) s kind bodiless p parsed part =
        (if over then Some (Returned parsed1)
         else parse_part fuel s kind bodiless p2 parsed1 (part_tail part (pg_consumed pr)))"
      using False fed(1) an tk by (simp add: parse_part.simps [of "Suc fuel"])
    show ?thesis
    proof (cases over)
      case True
      with run t(1) show ?thesis by simp
    next
      case more: False
      have small: "pt_offset part + pt_length part < two64"
        using Suc.prems(1,5) by (simp add: whole_def)
      note tl = part_tail_ok [OF valid fed(12) small]
      have at: "reading_at s kind limits p2 parsed1 (pt_offset (part_tail part (pg_consumed pr)))"
        using r2 t(2) more tl(1) fed(10) by (auto simp: reading_at_def)
      have ok: "pt_length (part_tail part (pg_consumed pr)) = 0 \<or> part_validate (part_tail part (pg_consumed pr)) = None"
        using tl(2,3) fed(12) by (cases "pg_consumed pr < pt_length part") auto
      have enough: "pt_length (part_tail part (pg_consumed pr)) \<le> fuel"
        using tl(2) fed(11) Suc.prems(4) by simp
      have reach: "pt_offset (part_tail part (pg_consumed pr)) + pt_length (part_tail part (pg_consumed pr)) =
          pt_offset part + pt_length part"
        using tl(1,2) fed(12) by simp
      show ?thesis
        using Suc.IH [OF Suc.prems(1) at ok enough, unfolded reach] Suc.prems(5) run more by simp
    qed
  qed
qed

lemma parse_parts_covers:
  assumes "whole s" "reading_at s kind limits p parsed a" "tiles a parts (sm_end s)" "all_valid parts"
  shows "\<exists>out. parse_parts s kind bodiless p parsed parts = Some out \<and>
    (case out of Reading p' parsed' \<Rightarrow> reading_at s kind limits p' parsed' (sm_end s)
     | Returned parsed' \<Rightarrow> covers_stream s parsed')"
  using assms
proof (induction parts arbitrary: p parsed a)
  case (Cons part parts)
  have at: "pt_offset part = a" "tiles (a + pt_length part) parts (sm_end s)"
    using Cons.prems(3) by simp_all
  have valid: "part_validate part = None" "all_valid parts"
    using Cons.prems(4) by simp_all
  have "pt_offset part + pt_length part \<le> sm_end s"
    using tiles_le [OF at(2)] at(1) by simp
  then obtain out where out: "parse_part (pt_length part) s kind bodiless p parsed part = Some out"
    "case out of Reading p' parsed' \<Rightarrow> reading_at s kind limits p' parsed' (a + pt_length part)
     | Returned parsed' \<Rightarrow> covers_stream s parsed'"
    using parse_part_covers [OF Cons.prems(1), of kind limits p parsed part "pt_length part" bodiless] Cons.prems(2) at(1) valid(1)
    by auto
  show ?case
  proof (cases out)
    case (Reading p' parsed')
    with Cons.IH [OF Cons.prems(1) _ at(2) valid(2), of p' parsed'] out show ?thesis by simp
  next
    case (Returned parsed')
    with out show ?thesis by simp
  qed
qed simp

lemma parse_stream_covers:
  assumes "whole s"
  shows "\<exists>parsed. parse_stream s kind limits bodiless = Some parsed \<and> covers_stream s parsed"
proof -
  let ?start = "\<lparr>pd_messages = [], pd_unplaced = 0\<rparr>"
  have ends: "sm_start s \<le> sm_end s" "sm_end s < two64"
    using assms tiles_le by (auto simp: whole_def)
  have "reading_at s kind limits (new_parser kind limits) ?start (sm_start s)"
    using reads.new [of unaccounted kind limits "()"]
    by (auto simp: reading_at_def new_parser_def intro!: exI [of _ "[]"])
  then obtain out where out: "parse_parts s kind bodiless (new_parser kind limits) ?start (sm_parts s) = Some out"
    "case out of Reading p' parsed' \<Rightarrow> reading_at s kind limits p' parsed' (sm_end s)
     | Returned parsed' \<Rightarrow> covers_stream s parsed'"
    using parse_parts_covers [OF assms] assms unfolding whole_def by blast
  show ?thesis
  proof (cases out)
    case (Returned parsed)
    with out show ?thesis by (simp add: parse_stream_def)
  next
    case (Reading p parsed)
    then have at: "reading_at s kind limits p parsed (sm_end s)" using out(2) by simp
    then obtain prs where prs: "reads unaccounted kind limits () () p prs" "pd_messages parsed = messages prs"
      unfolding reading_at_def by blast
    obtain p1 pr where e: "end_parser unaccounted () p = ((), p1, pr)" by (metis old.unit.exhaust prod_cases3)
    have wf: "parser_wf p" using reads_history [OF prs(1)] by (simp add: history_ok_def)
    note r1 = reads.finished [OF prs(1) e]
    have h: "history_ok kind limits p1 (messages (prs @ [pr]))" by (rule reads_history [OF r1])
    have eo: "end_ok p p1 pr" by (rule end_parser_ok [OF wf e])
    have over: "take_message s (ps_limits p1) parsed pr = (parsed\<lparr>pd_messages := messages (prs @ [pr])\<rparr>, False)"
      using eo prs(2) by (auto simp: take_message_def end_ok_def handed_def split: option.splits)
    have start: "messages (prs @ [pr]) \<noteq> [] \<Longrightarrow> m_offset (hd (messages (prs @ [pr]))) = sm_start s
        \<and> m_end (last (messages (prs @ [pr]))) \<le> sm_end s"
    proof -
      assume ne: "messages (prs @ [pr]) \<noteq> []"
      have st: "ps_started p" "ps_next p = sm_end s" "begins_at (sm_start s) (messages prs) p"
        using at h ne eo unfolding reading_at_def prs(2) by (auto simp: history_ok_def end_ok_def split: if_splits)
      have "m_end (last (messages (prs @ [pr]))) \<le> ps_next p1"
        using h ne by (auto simp: history_ok_def parser_wf_def)
      moreover have "m_offset (hd (messages (prs @ [pr]))) = sm_start s"
        using st(3) eo ne by (cases "messages prs"; cases "ps_message p")
          (auto simp: begins_at_def end_ok_def handed_def delivered_def)
      ultimately show ?thesis using eo st(2) by (simp add: end_ok_def)
    qed
    have "covers_stream s (finish_parse (parsed\<lparr>pd_messages := messages (prs @ [pr])\<rparr>) s)"
      using start h ends by (auto simp: covers_stream_def finish_parse_def history_ok_def sub64_fits)
    with out(1) Reading e over show ?thesis by (simp add: parse_stream_def)
  qed
qed

text \<open>
  C10: \<open>Parse\<close> accounts for every offset of a stream.  On any stream \<open>Assemble\<close> can return, read as
  requests or as responses, with any limits and any answers to which requests were \<open>HEAD\<close>, the
  parse returns; its messages lie back to back from the stream's first offset, every one but
  the last is framed, and the offsets it reports unplaced are exactly those after the last.
\<close>

theorem parse_covers_stream:
  assumes "whole s"
  shows "\<exists>parsed. parse_stream s kind limits bodiless = Some parsed \<and> contiguous (pd_messages parsed)
    \<and> (\<forall>m\<in>set (butlast (pd_messages parsed)). m_framed m)
    \<and> (if pd_messages parsed = [] then sm_start s + pd_unplaced parsed = sm_end s
       else m_offset (hd (pd_messages parsed)) = sm_start s
         \<and> m_end (last (pd_messages parsed)) + pd_unplaced parsed = sm_end s)"
  using parse_stream_covers [OF assms, of kind limits bodiless] by (auto simp: covers_stream_def)

text \<open>A direction of one request.\<close>

definition request_stream :: stream where
  "request_stream = \<lparr>sm_key = StreamKey (Process 7 100) 1 Sent, sm_parts = [byte_part 7 sample_request], sm_start = 7,
     sm_end = 25, sm_conflicts = []\<rparr>"

theorem parse_covers_stream_witness:
  "whole request_stream \<and>
   (\<exists>parsed. parse_stream request_stream Request default_limits [] = Some parsed
     \<and> (pd_messages parsed = [] \<longrightarrow> pd_unplaced parsed = 18)
     \<and> (pd_messages parsed \<noteq> [] \<longrightarrow> m_end (last (pd_messages parsed)) + pd_unplaced parsed = 25))"
proof -
  have w: "whole request_stream"
    by (simp add: whole_def request_stream_def byte_part_def sample_request_def part_validate_def)
  from parse_covers_stream [OF w, of Request default_limits "[]"] w show ?thesis
    by (auto simp: request_stream_def split: if_splits)
qed

end
