(* ===== verification/Opening.thy ===== *)
theory Opening
  imports Http_Syntax Cursor
begin

text \<open>
  What a direction begins with, and the side of the connection that decides (package
  \<open>reconstruct\<close>): \<open>opening\<close> and \<open>roleFrom\<close> of \<open>reconstruct.go\<close>, which look at the first 32 bytes of a
  whole stream, and \<open>beginning\<close> of \<open>pairing.go\<close>, which reads the same window as its bytes arrive.
  \<open>beginning_is_opening\<close> shows the two agree, so the pairing of a live connection reads it from
  the side the reconstruction of the whole connection would.
\<close>

datatype role = RoleUnknown | Server | Client

datatype opener = opensNothing | opensRequest | opensResponse | opensSomethingElse

definition role_string :: "role \<Rightarrow> string" where
  "role_string r = (case r of Server \<Rightarrow> ''server'' | Client \<Rightarrow> ''client'' | RoleUnknown \<Rightarrow> ''unknown'')"

definition role_from :: "opener \<Rightarrow> opener \<Rightarrow> role" where
  "role_from outbound inbound =
    (if outbound = opensResponse \<and> inbound \<noteq> opensResponse \<or> outbound = opensNothing \<and> inbound = opensRequest
     then Server
     else if outbound = opensRequest \<and> inbound \<noteq> opensRequest \<or> outbound = opensNothing \<and> inbound = opensResponse
     then Client
     else RoleUnknown)"

definition is_method :: "bytes \<Rightarrow> bool" where
  "is_method b \<longleftrightarrow> list_all is_token_byte b"

definition opening_of :: "bytes \<Rightarrow> opener" where
  "opening_of h =
    (if length h \<ge> 5 \<and> take 5 h = ''HTTP/'' then opensResponse
     else case index_byte h (CHR '' '') of
       Some space \<Rightarrow> if space > 0 \<and> is_method (take space h) then opensRequest else opensSomethingElse
     | None \<Rightarrow> opensSomethingElse)"

text \<open>\<open>Peek\<close> of a stream that could not come from \<open>Assemble\<close> may slice out of range: that is the error.\<close>

definition stream_opening :: "stream \<Rightarrow> cursor_error + opener" where
  "stream_opening s =
    (if sm_end s = sm_start s then Inr opensNothing
     else case peek (new_cursor s) 32 of Inl err \<Rightarrow> Inl err | Inr h \<Rightarrow> Inr (opening_of h))"

definition role_of :: "stream \<Rightarrow> stream \<Rightarrow> cursor_error + role" where
  "role_of sent received =
    (case stream_opening sent of
       Inl err \<Rightarrow> Inl err
     | Inr outbound \<Rightarrow> (case stream_opening received of Inl err \<Rightarrow> Inl err | Inr inbound \<Rightarrow> Inr (role_from outbound inbound)))"

section \<open>Reading the window as it arrives\<close>

record beginning =
  bg_n :: nat
  bg_prefix :: bool
  bg_space :: int
  bg_token :: bool
  bg_what :: opener
  bg_certain :: bool

definition new_beginning :: beginning where
  "new_beginning = \<lparr>bg_n = 0, bg_prefix = True, bg_space = -1, bg_token = True, bg_what = opensNothing, bg_certain = False\<rparr>"

definition opening_window :: nat where
  "opening_window = 32"

definition beginning_close :: "beginning \<Rightarrow> beginning" where
  "beginning_close b =
    (if bg_certain b then b
     else b\<lparr>bg_what := (if bg_n b \<ge> 5 \<and> bg_prefix b then opensResponse
                        else if bg_space b > 0 \<and> bg_token b then opensRequest
                        else opensSomethingElse),
            bg_certain := True\<rparr>)"

definition beginning_see :: "beginning \<Rightarrow> byte \<Rightarrow> beginning" where
  "beginning_see b c =
    (let i = bg_n b;
         b1 = b\<lparr>bg_n := i + 1\<rparr>;
         b2 = (if i < 5 then b1\<lparr>bg_prefix := (bg_prefix b1 \<and> c = ''HTTP/'' ! i)\<rparr> else b1)
     in if bg_space b2 < 0
        then (if c = CHR '' '' then b2\<lparr>bg_space := int i\<rparr>
              else if \<not> is_token_byte c then b2\<lparr>bg_token := False\<rparr> else b2)
        else b2)"

definition beginning_byte :: "beginning \<Rightarrow> byte \<Rightarrow> beginning" where
  "beginning_byte b c =
    (let b' = beginning_see b c
     in if bg_n b' \<ge> 5 \<and> bg_prefix b' \<or> bg_space b' \<ge> 0 \<or> \<not> bg_token b' \<and> (bg_n b' \<ge> 5 \<or> \<not> bg_prefix b')
           \<or> bg_n b' = opening_window
        then beginning_close b' else b')"

fun beginning_take :: "beginning \<Rightarrow> bytes \<Rightarrow> nat \<times> beginning" where
  "beginning_take b [] = (0, b)"
| "beginning_take b (c # cs) =
    (if bg_certain b then (0, b)
     else case beginning_take (beginning_byte b c) cs of (examined, b') \<Rightarrow> (examined + 1, b'))"

section \<open>The two agree\<close>

text \<open>While nothing is certain, what the window holds; once it is, that no later byte matters.\<close>

definition begun :: "bytes \<Rightarrow> beginning \<Rightarrow> bool" where
  "begun xs b \<longleftrightarrow>
     (if bg_certain b then \<forall>ys. opening_of (take opening_window (xs @ ys)) = bg_what b
      else bg_n b = length xs \<and> length xs < opening_window \<and> bg_space b = -1 \<and> CHR '' '' \<notin> set xs
        \<and> (bg_prefix b \<longleftrightarrow> take 5 xs = take (length xs) ''HTTP/'') \<and> \<not> (bg_prefix b \<and> 5 \<le> length xs)
        \<and> (bg_token b \<longleftrightarrow> list_all is_token_byte xs))"

lemma begun_new: "begun [] new_beginning"
  by (simp add: begun_def new_beginning_def opening_window_def)

lemma prefix_mismatch:
  assumes "take 5 zs \<noteq> take (length zs) ''HTTP/''"
  shows "take 5 (take opening_window (zs @ ys)) \<noteq> ''HTTP/''"
proof
  assume "take 5 (take opening_window (zs @ ys)) = ''HTTP/''"
  moreover have "take 5 (take opening_window (zs @ ys)) = take 5 (zs @ ys)"
    unfolding opening_window_def take_take by simp
  ultimately have "take 5 (zs @ ys) = ''HTTP/''" by simp
  then have "take (length zs) (take 5 (zs @ ys)) = take (length zs) ''HTTP/''" by simp
  moreover have "take (length zs) (take 5 (zs @ ys)) = take 5 zs"
    by (metis append_take_drop_id append_eq_conv_conj take_take min.commute)
  ultimately show False using assms by simp
qed

lemma window_prefix:
  assumes "5 \<le> length zs"
  shows "take 5 (take opening_window (zs @ ys)) = take 5 zs"
proof -
  have "take 5 (take opening_window (zs @ ys)) = take 5 (zs @ ys)"
    unfolding opening_window_def take_take by simp
  with assms show ?thesis by simp
qed

lemma prefix_step:
  assumes "P \<longleftrightarrow> take 5 xs = take (length xs) ''HTTP/''"
  shows "(if length xs < 5 then P \<and> c = ''HTTP/'' ! length xs else P) \<longleftrightarrow>
    take 5 (xs @ [c]) = take (length (xs @ [c])) ''HTTP/''"
proof (cases "length xs < 5")
  case True
  then have "length xs < length ''HTTP/''" by simp
  then have "take (length (xs @ [c])) ''HTTP/'' = take (length xs) ''HTTP/'' @ [''HTTP/'' ! length xs]"
    using take_Suc_conv_app_nth [of "length xs" "''HTTP/''"] by simp
  with True assms show ?thesis by simp
next
  case False
  then have "take (length xs) ''HTTP/'' = ''HTTP/''" "take (length (xs @ [c])) ''HTTP/'' = ''HTTP/''"
    by (auto intro: take_all)
  with False assms show ?thesis by simp
qed

text \<open>The three ways a window that does not begin as a version is decided.\<close>

lemma opening_at_space:
  assumes "CHR '' '' \<notin> set xs" "length xs < opening_window" "take 5 (xs @ [CHR '' '']) \<noteq> take (Suc (length xs)) ''HTTP/''"
  shows "opening_of (take opening_window ((xs @ [CHR '' '']) @ ys)) =
    (if xs \<noteq> [] \<and> list_all is_token_byte xs then opensRequest else opensSomethingElse)"
proof -
  have w: "take opening_window ((xs @ [CHR '' '']) @ ys) = xs @ CHR '' '' # take (opening_window - Suc (length xs)) ys"
    using assms(2) by (simp add: take_Cons' opening_window_def)
  have "index_byte (xs @ CHR '' '' # zs) (CHR '' '') = Some (length xs)" for zs
    using assms(1) by (induction xs) auto
  with w prefix_mismatch [of "xs @ [CHR '' '']" ys] assms(3) show ?thesis
    by (auto simp: opening_of_def is_method_def)
qed

lemma opening_no_token:
  assumes "CHR '' '' \<notin> set xs" "\<not> list_all is_token_byte xs" "length xs \<le> opening_window"
    and "take 5 xs \<noteq> take (length xs) ''HTTP/''"
  shows "opening_of (take opening_window (xs @ ys)) = opensSomethingElse"
proof -
  have w: "take opening_window (xs @ ys) = xs @ take (opening_window - length xs) ys"
    using assms(3) by simp
  have "\<not> is_method (take i (xs @ zs))" if "index_byte (xs @ zs) (CHR '' '') = Some i" for i zs
  proof -
    have "length xs \<le> i"
      using index_byte_Some [OF that] assms(1) by (metis linorder_not_le nth_append nth_mem)
    then show ?thesis using assms(2) by (auto simp: is_method_def)
  qed
  then have "case index_byte (take opening_window (xs @ ys)) (CHR '' '') of None \<Rightarrow> True
      | Some i \<Rightarrow> \<not> is_method (take i (take opening_window (xs @ ys)))"
    unfolding w by (simp del: take_append split: option.splits)
  then show ?thesis
    using prefix_mismatch [OF assms(4), of ys]
    unfolding opening_of_def by (cases "index_byte (take opening_window (xs @ ys)) (CHR '' '')") (simp_all del: take_append take_take)
qed

lemma opening_full_window:
  assumes "CHR '' '' \<notin> set xs" "length xs = opening_window" "take 5 xs \<noteq> take (length xs) ''HTTP/''"
  shows "opening_of (take opening_window (xs @ ys)) = opensSomethingElse"
  using assms prefix_mismatch [OF assms(3), of ys] index_byte_None [of xs "CHR '' ''"]
  by (auto simp: opening_of_def)

lemma beginning_byte_begun:
  assumes "begun xs b" "\<not> bg_certain b"
  shows "begun (xs @ [c]) (beginning_byte b c)"
proof -
  have b: "bg_n b = length xs" "length xs < opening_window" "bg_space b = -1" "CHR '' '' \<notin> set xs"
    "bg_prefix b \<longleftrightarrow> take 5 xs = take (length xs) ''HTTP/''" "\<not> (bg_prefix b \<and> 5 \<le> length xs)"
    "bg_token b \<longleftrightarrow> list_all is_token_byte xs"
    using assms by (simp_all add: begun_def)
  define P where "P \<longleftrightarrow> take 5 (xs @ [c]) = take (length (xs @ [c])) ''HTTP/''"
  define T where "T \<longleftrightarrow> list_all is_token_byte xs \<and> (c = CHR '' '' \<or> is_token_byte c)"
  define b3 where "b3 = b\<lparr>bg_n := Suc (length xs), bg_prefix := P,
      bg_space := (if c = CHR '' '' then int (length xs) else -1), bg_token := T\<rparr>"
  have prefix: "(if length xs < 5 then bg_prefix b \<and> c = ''HTTP/'' ! length xs else bg_prefix b) \<longleftrightarrow> P"
    unfolding P_def by (rule prefix_step [OF b(5)])
  have see: "beginning_see b c = b3"
  proof -
    have "beginning_see b c = (let b2 = b\<lparr>bg_n := Suc (length xs), bg_prefix := P\<rparr> in
        if bg_space b2 < 0
        then (if c = CHR '' '' then b2\<lparr>bg_space := int (length xs)\<rparr>
              else if \<not> is_token_byte c then b2\<lparr>bg_token := False\<rparr> else b2)
        else b2)"
      unfolding beginning_see_def Let_def b(1) prefix [symmetric] by (cases "length xs < 5") simp_all
    also have "\<dots> = b3"
      using b(3,7) by (cases b) (auto simp: b3_def T_def Let_def)
    finally show ?thesis .
  qed
  have step: "beginning_byte b c = (if Suc (length xs) \<ge> 5 \<and> P \<or> c = CHR '' '' \<or> \<not> T \<and> (Suc (length xs) \<ge> 5 \<or> \<not> P)
      \<or> Suc (length xs) = opening_window then beginning_close b3 else b3)"
    unfolding beginning_byte_def see Let_def by (auto simp: b3_def)
  have short: "\<not> (5 \<le> Suc (length xs) \<and> P) \<Longrightarrow> P \<Longrightarrow> length xs < 5" by simp
  have version_mark: "P \<Longrightarrow> length xs < 5 \<Longrightarrow> c \<in> set ''HTTP/''"
    using prefix nth_mem [of "length xs" "''HTTP/''"] by auto
  consider (version) "5 \<le> Suc (length xs)" P
    | (space) "\<not> P" "c = CHR '' ''"
    | (not_token) "\<not> P" "c \<noteq> CHR '' ''" "\<not> T"
    | (window) "\<not> P" "c \<noteq> CHR '' ''" T "Suc (length xs) = opening_window"
    | (undecided) "\<not> (5 \<le> Suc (length xs) \<and> P)" "c \<noteq> CHR '' ''" "T \<or> P" "Suc (length xs) \<noteq> opening_window"
    using short version_mark by (fastforce simp: opening_window_def)
  then show ?thesis
  proof cases
    case version
    then have "take 5 (xs @ [c]) = ''HTTP/''"
      unfolding P_def by simp
    then have "take 5 (take opening_window ((xs @ [c]) @ ys)) = ''HTTP/''" for ys
      using version(1) window_prefix [of "xs @ [c]" ys] by simp
    then have "opening_of (take opening_window ((xs @ [c]) @ ys)) = opensResponse" for ys
      using version(1) unfolding opening_of_def by (simp add: opening_window_def del: take_append)
    moreover have "beginning_byte b c = beginning_close b3"
      using version by (simp add: step)
    ultimately show ?thesis
      using version assms(2) by (simp add: begun_def beginning_close_def b3_def)
  next
    case space
    have "opening_of (take opening_window ((xs @ [c]) @ ys)) =
        (if xs \<noteq> [] \<and> list_all is_token_byte xs then opensRequest else opensSomethingElse)" for ys
      using opening_at_space [OF b(4,2)] space by (simp add: P_def)
    moreover have "beginning_byte b c = beginning_close b3"
      unfolding step using space(2) by (intro if_P disjI2 disjI1)
    ultimately show ?thesis
      using space assms(2) by (simp add: begun_def beginning_close_def b3_def T_def)
  next
    case not_token
    have "opening_of (take opening_window ((xs @ [c]) @ ys)) = opensSomethingElse" for ys
      using not_token b(2,4) by (intro opening_no_token) (auto simp: P_def T_def)
    moreover have "beginning_byte b c = beginning_close b3"
      using not_token by (simp add: step)
    ultimately show ?thesis
      using not_token assms(2) by (simp add: begun_def beginning_close_def b3_def)
  next
    case window
    have "opening_of (take opening_window ((xs @ [c]) @ ys)) = opensSomethingElse" for ys
      using window b(4) by (intro opening_full_window) (auto simp: P_def)
    moreover have "beginning_byte b c = beginning_close b3"
      using window by (simp add: step)
    ultimately show ?thesis
      using window assms(2) by (simp add: begun_def beginning_close_def b3_def)
  next
    case undecided
    then have "beginning_byte b c = b3"
      by (auto simp: step)
    with undecided assms(2) b show ?thesis
      by (auto simp: begun_def b3_def P_def T_def)
  qed
qed

text \<open>A window read in pieces is the window.\<close>

lemma beginning_take_begun:
  "begun xs b \<Longrightarrow> begun (xs @ cs) (snd (beginning_take b cs))"
proof (induction cs arbitrary: b xs)
  case (Cons c cs)
  show ?case
  proof (cases "bg_certain b")
    case True
    with Cons.prems have "opening_of (take opening_window (xs @ ys)) = bg_what b" for ys
      by (simp add: begun_def del: take_append)
    with True show ?thesis by (simp add: begun_def del: take_append)
  next
    case False
    from Cons.IH [OF beginning_byte_begun [OF Cons.prems False, of c]] False show ?thesis
      by (simp add: split_beta)
  qed
qed simp

definition beginning_chunks :: "bytes list \<Rightarrow> beginning" where
  "beginning_chunks chunks = foldl (\<lambda>b chunk. snd (beginning_take b chunk)) new_beginning chunks"

lemma beginning_chunks_begun: "begun (concat chunks) (beginning_chunks chunks)"
proof (induction chunks rule: rev_induct)
  case (snoc chunk chunks)
  from beginning_take_begun [OF snoc.IH, of chunk] show ?case
    by (simp add: beginning_chunks_def)
qed (simp add: beginning_chunks_def begun_new)

lemma begun_close: "begun xs b \<Longrightarrow> bg_what (beginning_close b) = opening_of (take opening_window xs)"
proof (cases "bg_certain b")
  case True
  moreover assume "begun xs b"
  ultimately show ?thesis
    by (auto simp: begun_def beginning_close_def dest: spec [of _ "[]"])
next
  case False
  moreover assume "begun xs b"
  ultimately have b: "bg_space b = -1" "CHR '' '' \<notin> set xs" "bg_prefix b \<longleftrightarrow> take 5 xs = take (length xs) ''HTTP/''"
    "\<not> (bg_prefix b \<and> 5 \<le> length xs)" "length xs < opening_window" "bg_n b = length xs"
    by (simp_all add: begun_def)
  have "take 5 xs \<noteq> ''HTTP/'' \<or> length xs < 5"
    using b(3,4) by (cases "length xs < 5") auto
  with False b show ?thesis
    using index_byte_None [of xs "CHR '' ''"] by (auto simp: beginning_close_def opening_of_def)
qed

text \<open>
  C36: A connection read as it arrives is read from the side the whole connection would be.  However
  the first bytes of a direction are cut into parts, what \<open>beginning\<close> decides once it is certain,
  or is closed, is what \<open>opening\<close> finds in the window of the whole direction; and what it was
  certain of before the last parts came, no later byte changes.
\<close>

theorem beginning_is_opening:
  "bg_what (beginning_close (beginning_chunks chunks)) = opening_of (take opening_window (concat chunks))
    \<and> (bg_certain (beginning_chunks chunks) \<longrightarrow>
        bg_what (beginning_chunks (chunks @ later)) = bg_what (beginning_chunks chunks)
      \<and> opening_of (take opening_window (concat (chunks @ later))) = bg_what (beginning_chunks chunks))"
proof -
  have "bg_certain b \<Longrightarrow> foldl (\<lambda>b chunk. snd (beginning_take b chunk)) b later = b" for b
  proof (induction later arbitrary: b)
    case (Cons chunk later)
    have "snd (beginning_take b chunk) = b"
      using Cons.prems by (cases chunk) simp_all
    with Cons show ?case by simp
  qed simp
  then have "bg_certain (beginning_chunks chunks) \<Longrightarrow> beginning_chunks (chunks @ later) = beginning_chunks chunks"
    by (simp add: beginning_chunks_def)
  with begun_close [OF beginning_chunks_begun, of chunks] beginning_chunks_begun [of chunks] show ?thesis
    by (auto simp: begun_def)
qed

theorem beginning_is_opening_witness:
  "bg_certain (beginning_chunks [''GE'', ''T /''])
    \<and> bg_what (beginning_chunks ([''GE'', ''T /''] @ ['' HTTP/1.1''])) = opensRequest"
proof -
  have "bg_certain (beginning_chunks [''GE'', ''T /''])" "bg_what (beginning_chunks [''GE'', ''T /'']) = opensRequest"
    by (simp_all add: beginning_chunks_def new_beginning_def beginning_byte_def beginning_see_def beginning_close_def
        is_token_byte_def is_alnum_def opening_window_def Let_def)
  with beginning_is_opening [of "[''GE'', ''T /'']" "['' HTTP/1.1'']"] show ?thesis by simp
qed

end
