(* ===== verification/Json_Shape.thy ===== *)
theory Json_Shape
  imports Go_Strings
begin

text \<open>
  Package \<open>jsonshape\<close>: the shape of a JSON body, names and kinds within bounds and no value.

  The standard library's \<open>json.Decoder\<close> is the list of tokens it still has to give and what it
  meets then: the end of the input, or something it cannot read, where \<open>More\<close> answers from the
  next byte and \<open>Token\<close> fails.  A string token is the decoded string, a number token its text
  (\<open>UseNumber\<close>).  The recursion of \<open>value\<close> through \<open>object\<close> and \<open>array\<close> is bounded by
  the nesting the limits allow and a loop by the tokens left; \<open>shape_extract_returns\<close> shows both to be
  enough on every decoder.
\<close>

section \<open>Shapes\<close>

datatype shape_kind =
    InvalidKind | ObjectKind | ArrayKind | IntegerKind | FractionKind | BooleanKind | NullKind
  | ShortString | LongString | DecimalString

definition kind_string :: "shape_kind \<Rightarrow> string" where
  "kind_string k =
    (case k of
       ObjectKind \<Rightarrow> ''object'' | ArrayKind \<Rightarrow> ''array'' | IntegerKind \<Rightarrow> ''integer'' | FractionKind \<Rightarrow> ''fraction''
     | BooleanKind \<Rightarrow> ''boolean'' | NullKind \<Rightarrow> ''null'' | ShortString \<Rightarrow> ''short string''
     | LongString \<Rightarrow> ''long string'' | DecimalString \<Rightarrow> ''decimal string'' | InvalidKind \<Rightarrow> ''invalid'')"

text \<open>A field is its name, whether the name was dropped, and the shape.\<close>

datatype shape =
  Shape (sh_kind: shape_kind) (sh_members: "(string \<times> bool \<times> shape) list") (sh_elems: "shape list")
    (sh_count: nat) (sh_elided: bool)

record shape_limits =
  MaxDepth :: int
  MaxNodes :: int
  MaxFields :: int
  MaxElemShapes :: int
  MaxNameBytes :: int
  ShortStringBytes :: int

definition default_shape_limits :: shape_limits where
  "default_shape_limits = \<lparr>MaxDepth = 32, MaxNodes = 4096, MaxFields = 512, MaxElemShapes = 8, MaxNameBytes = 128,
     ShortStringBytes = 64\<rparr>"

definition or_shape_defaults :: "shape_limits \<Rightarrow> shape_limits" where
  "or_shape_defaults l =
    (let d = default_shape_limits; pick = (\<lambda>f. if f l \<le> 0 then f d else f l) in
     \<lparr>MaxDepth = pick MaxDepth, MaxNodes = pick MaxNodes, MaxFields = pick MaxFields,
      MaxElemShapes = pick MaxElemShapes, MaxNameBytes = pick MaxNameBytes,
      ShortStringBytes = pick ShortStringBytes\<rparr>)"

text \<open>\<open>Shape.write\<close> and \<open>Shape.String\<close>.\<close>

fun shape_write :: "shape \<Rightarrow> string \<Rightarrow> string \<Rightarrow> string" where
  "shape_write (Shape k members elems n elided) indent label =
    indent @ label @ (if k = ArrayKind then ''array of '' @ itoa n else kind_string k)
    @ (if elided then '' (elided)'' else []) @ [CHR 0x0A]
    @ (if k = ObjectKind
       then concat (map (\<lambda>(name, dropped, s).
              shape_write s (indent @ ''  '') ((if dropped then ''(elided)'' else name) @ '': '')) members)
       else if k = ArrayKind then concat (map (\<lambda>s. shape_write s (indent @ ''  '') []) elems)
       else [])"

definition shape_string :: "shape \<Rightarrow> string" where
  "shape_string s = rev (dropWhile (\<lambda>c. c = CHR 0x0A) (rev (shape_write s [] [])))"

definition held_shape :: "shape list \<Rightarrow> shape \<Rightarrow> bool" where
  "held_shape shapes want \<longleftrightarrow> list_ex (\<lambda>s. shape_string s = shape_string want) shapes"

definition is_digits_text :: "string \<Rightarrow> bool" where
  "is_digits_text s \<longleftrightarrow> s \<noteq> [] \<and> list_all (\<lambda>c. 48 \<le> (of_char c :: nat) \<and> (of_char c :: nat) \<le> 57) s"

text \<open>\<open>strings.TrimPrefix\<close> of one byte and \<open>strings.Cut\<close> at one byte.\<close>

definition is_decimal :: "string \<Rightarrow> bool" where
  "is_decimal s =
    (let t = (case s of c # cs \<Rightarrow> if c = CHR ''-'' then cs else s | [] \<Rightarrow> []) in
     case index_byte t (CHR ''.'') of
       None \<Rightarrow> is_digits_text t
     | Some i \<Rightarrow> is_digits_text (take i t) \<and> is_digits_text (drop (Suc i) t))"

definition string_kind :: "shape_limits \<Rightarrow> string \<Rightarrow> shape_kind" where
  "string_kind l s =
    (if is_decimal s then DecimalString
     else if int (length s) \<le> ShortStringBytes l then ShortString else LongString)"

definition number_kind :: "string \<Rightarrow> shape_kind" where
  "number_kind s = (if list_ex (\<lambda>c. c = CHR ''.'' \<or> c = CHR ''e'' \<or> c = CHR ''E'') s then FractionKind else IntegerKind)"

section \<open>Extraction\<close>

datatype json_token = Delim char | Text string | Number string | Truth bool | NullToken

datatype shape_error = TooDeep | TokenFailed | UnexpectedDelim char | NoName | SomethingFollows

datatype decoder_end = AtEnd | Unreadable bool

record extractor =
  tokens :: "json_token list"
  decoder_ends :: decoder_end
  nodes :: int
  elided :: bool

definition next_token :: "extractor \<Rightarrow> json_token option \<times> extractor" where
  "next_token e = (case tokens e of [] \<Rightarrow> (None, e) | t # ts \<Rightarrow> (Some t, e\<lparr>tokens := ts\<rparr>))"

definition has_more :: "extractor \<Rightarrow> bool" where
  "has_more e = (case tokens e of [] \<Rightarrow> (case decoder_ends e of AtEnd \<Rightarrow> False | Unreadable m \<Rightarrow> m) | t # _ \<Rightarrow> t \<noteq> Delim CHR '']'' \<and> t \<noteq> Delim CHR ''}'')"

definition make_field :: "shape_limits \<Rightarrow> string \<Rightarrow> shape \<Rightarrow> string \<times> bool \<times> shape" where
  "make_field l name child =
    (if int (length name) > MaxNameBytes l then ([], True, child) else (name, False, child))"

type_synonym shape_result = "(extractor \<times> (shape_error + shape)) option"

text \<open>
  The loops of \<open>object\<close> and \<open>array\<close>, over the reader \<open>v\<close> of the value one level down; the first
  argument bounds the rounds, each of which takes a token or stops.
\<close>

primrec object_loop ::
    "nat \<Rightarrow> (extractor \<Rightarrow> bool \<Rightarrow> shape_result) \<Rightarrow> shape_limits \<Rightarrow> bool \<Rightarrow> extractor \<Rightarrow>
      (string \<times> bool \<times> shape) list \<Rightarrow> bool \<Rightarrow> shape_result" where
  "object_loop 0 v l hold e members shed = None"
| "object_loop (Suc fuel) v l hold e members shed =
    (if has_more e then
       case next_token e of
         (None, e1) \<Rightarrow> Some (e1, Inl TokenFailed)
       | (Some t, e1) \<Rightarrow>
           (case t of
              Text name \<Rightarrow>
                let keep = (hold \<and> int (length members) < MaxFields l \<and> nodes e1 < MaxNodes l) in
                (case v e1 keep of
                   None \<Rightarrow> None
                 | Some (e2, Inl err) \<Rightarrow> Some (e2, Inl err)
                 | Some (e2, Inr child) \<Rightarrow>
                     if \<not> keep then object_loop fuel v l hold (e2\<lparr>elided := True\<rparr>) members True
                     else object_loop fuel v l hold e2 (members @ [make_field l name child]) shed)
            | _ \<Rightarrow> Some (e1, Inl NoName))
     else
       case next_token e of
         (None, e1) \<Rightarrow> Some (e1, Inl TokenFailed)
       | (Some t, e1) \<Rightarrow> Some (e1, Inr (Shape ObjectKind members [] 0 shed)))"

primrec array_loop ::
    "nat \<Rightarrow> (extractor \<Rightarrow> bool \<Rightarrow> shape_result) \<Rightarrow> shape_limits \<Rightarrow> bool \<Rightarrow> extractor \<Rightarrow>
      shape list \<Rightarrow> nat \<Rightarrow> bool \<Rightarrow> shape_result" where
  "array_loop 0 v l hold e elems n shed = None"
| "array_loop (Suc fuel) v l hold e elems n shed =
    (if has_more e then
       let keep = (hold \<and> nodes e < MaxNodes l) in
       (case v e keep of
          None \<Rightarrow> None
        | Some (e1, Inl err) \<Rightarrow> Some (e1, Inl err)
        | Some (e1, Inr child) \<Rightarrow>
            if \<not> keep then array_loop fuel v l hold (e1\<lparr>elided := True\<rparr>) elems (n + 1) True
            else if held_shape elems child then array_loop fuel v l hold e1 elems (n + 1) shed
            else if int (length elems) \<ge> MaxElemShapes l
            then array_loop fuel v l hold (e1\<lparr>elided := True\<rparr>) elems (n + 1) True
            else array_loop fuel v l hold e1 (elems @ [child]) (n + 1) shed)
     else
       case next_token e of
         (None, e1) \<Rightarrow> Some (e1, Inl TokenFailed)
       | (Some t, e1) \<Rightarrow> Some (e1, Inr (Shape ArrayKind [] elems n shed)))"

primrec shape_value :: "nat \<Rightarrow> shape_limits \<Rightarrow> int \<Rightarrow> extractor \<Rightarrow> bool \<Rightarrow> shape_result" where
  "shape_value 0 l depth e hold = None"
| "shape_value (Suc fuel) l depth e hold =
    (if depth > MaxDepth l then Some (e, Inl TooDeep)
     else
       case next_token (e\<lparr>nodes := nodes e + 1\<rparr>) of
         (None, e1) \<Rightarrow> Some (e1, Inl TokenFailed)
       | (Some t, e1) \<Rightarrow>
           (case t of
              Delim c \<Rightarrow>
                if c = CHR ''{''
                then object_loop (Suc (length (tokens e1))) (shape_value fuel l (depth + 1)) l hold e1 [] False
                else if c = CHR ''[''
                then array_loop (Suc (length (tokens e1))) (shape_value fuel l (depth + 1)) l hold e1 [] 0 False
                else Some (e1, Inl (UnexpectedDelim c))
            | Text s \<Rightarrow> Some (e1, Inr (Shape (string_kind l s) [] [] 0 False))
            | Number s \<Rightarrow> Some (e1, Inr (Shape (number_kind s) [] [] 0 False))
            | Truth _ \<Rightarrow> Some (e1, Inr (Shape BooleanKind [] [] 0 False))
            | NullToken \<Rightarrow> Some (e1, Inr (Shape NullKind [] [] 0 False))))"

definition mark_elided :: "bool \<Rightarrow> shape \<Rightarrow> shape" where
  "mark_elided any s = Shape (sh_kind s) (sh_members s) (sh_elems s) (sh_count s) (sh_elided s \<or> any)"

definition shape_extract :: "json_token list \<Rightarrow> decoder_end \<Rightarrow> shape_limits \<Rightarrow> (shape_error + shape) option" where
  "shape_extract toks ends limits =
    (let l = or_shape_defaults limits in
     case shape_value (Suc (nat (MaxDepth l))) l 1 \<lparr>tokens = toks, decoder_ends = ends, nodes = 0, elided = False\<rparr> True of
       None \<Rightarrow> None
     | Some (e, Inl err) \<Rightarrow> Some (Inl err)
     | Some (e, Inr s) \<Rightarrow>
         if tokens e = [] \<and> decoder_ends e = AtEnd then Some (Inr (mark_elided (elided e) s))
         else Some (Inl SomethingFollows))"

section \<open>The value a token stream spells\<close>

datatype json =
    JObject "(string \<times> json) list" | JArray "json list" | JString string | JNumber string | JBool bool | JNull

fun json_tokens :: "json \<Rightarrow> json_token list" where
  "json_tokens (JObject ms) =
     Delim CHR ''{'' # concat (map (\<lambda>(name, j). Text name # json_tokens j) ms) @ [Delim CHR ''}'']"
| "json_tokens (JArray js) = Delim CHR ''['' # concat (map json_tokens js) @ [Delim CHR '']'']"
| "json_tokens (JString s) = [Text s]"
| "json_tokens (JNumber s) = [Number s]"
| "json_tokens (JBool b) = [Truth b]"
| "json_tokens JNull = [NullToken]"












section \<open>Every decoder is read to an answer\<close>

text \<open>A reader that always answers and takes a token before it gives a shape.\<close>

definition answers :: "(extractor \<Rightarrow> bool \<Rightarrow> shape_result) \<Rightarrow> bool" where
  "answers v \<longleftrightarrow> (\<forall>e hold. \<exists>e' r. v e hold = Some (e', r) \<and> (\<forall>s. r = Inr s \<longrightarrow> length (tokens e') < length (tokens e)))"

lemma answersE:
  assumes "answers v"
  obtains e' err where "v e hold = Some (e', Inl err)"
  | e' s where "v e hold = Some (e', Inr s)" "length (tokens e') < length (tokens e)"
  using assms unfolding answers_def by (metis sum.exhaust)

lemma next_token_cases:
  obtains "tokens e = []" "next_token e = (None, e)"
  | t ts where "tokens e = t # ts" "next_token e = (Some t, e\<lparr>tokens := ts\<rparr>)"
  by (cases "tokens e") (auto simp: next_token_def)

definition answered :: "nat \<Rightarrow> shape_result \<Rightarrow> bool" where
  "answered n r \<longleftrightarrow> (\<exists>e' x. r = Some (e', x) \<and> (\<forall>s. x = Inr s \<longrightarrow> length (tokens e') < n))"

lemma answered_simps [simp]:
  "answered n (Some (e', Inl err))"
  "answered n (Some (e', Inr s)) \<longleftrightarrow> length (tokens e') < n"
  by (auto simp: answered_def)

lemma answered_mono: "answered m r \<Longrightarrow> m \<le> n \<Longrightarrow> answered n r"
  by (fastforce simp: answered_def)

lemma object_loop_answered:
  assumes "answers v" "length (tokens e) < fuel"
  shows "answered (length (tokens e)) (object_loop fuel v l hold e members shed)"
  using assms(2)
proof (induction fuel arbitrary: e members shed)
  case (Suc fuel)
  show ?case
  proof (cases rule: next_token_cases [of e])
    case 1
    then show ?thesis by simp
  next
    case (2 t ts)
    let ?e = "e\<lparr>tokens := ts\<rparr>"
    have step: "answered (length (tokens e)) (object_loop fuel v l hold e2 ms sh)"
      if "length (tokens e2) < length (tokens e)" for e2 ms sh
      using Suc.IH [of e2 ms sh] Suc.prems that by (auto intro: answered_mono)
    have value_step: "answered (length (tokens e))
        (case v ?e keep of None \<Rightarrow> None | Some (e2, Inl err) \<Rightarrow> Some (e2, Inl err)
         | Some (e2, Inr child) \<Rightarrow>
             if \<not> keep then object_loop fuel v l hold (e2\<lparr>elided := True\<rparr>) members True
             else object_loop fuel v l hold e2 (members @ [make_field l name child]) shed)" for keep name
      by (rule answersE [OF assms(1), of ?e keep]) (use 2 step in auto)
    from 2 value_step show ?thesis
      by (simp add: Let_def split: json_token.split)
  qed
qed simp

lemma array_loop_answered:
  assumes "answers v" "length (tokens e) < fuel"
  shows "answered (length (tokens e)) (array_loop fuel v l hold e elems n shed)"
  using assms(2)
proof (induction fuel arbitrary: hold e elems n shed)
  case (Suc fuel)
  have step: "answered (length (tokens e)) (array_loop fuel v l h e2 es c sh)"
    if "length (tokens e2) < length (tokens e)" for h e2 es c sh
    using Suc.IH [of e2 h es c sh] Suc.prems that by (auto intro: answered_mono)
  show ?case
  proof (cases "has_more e")
    case True
    then show ?thesis
      by (rule_tac answersE [OF assms(1), of e "hold \<and> nodes e < MaxNodes l"]) (auto simp: Let_def intro: step)
  next
    case False
    then show ?thesis by (cases rule: next_token_cases [of e]) auto
  qed
qed simp

lemma shape_value_answers: "MaxDepth l < depth + int fuel \<Longrightarrow> answers (shape_value (Suc fuel) l depth)"
proof (induction fuel arbitrary: depth)
  case 0
  then show ?case by (simp add: answers_def)
next
  case (Suc fuel)
  have v: "answers (shape_value (Suc fuel) l (depth + 1))" by (rule Suc.IH) (use Suc.prems in simp)
  have "answered (length (tokens e)) (shape_value (Suc (Suc fuel)) l depth e hold)" for e hold
  proof (cases rule: next_token_cases [of "e\<lparr>nodes := nodes e + 1\<rparr>"])
    case 1
    then show ?thesis by (simp del: shape_value.simps add: shape_value.simps(2) [of "Suc fuel"])
  next
    case (2 t ts)
    let ?e = "e\<lparr>nodes := nodes e + 1, tokens := ts\<rparr>"
    have "answered (length (tokens e))
        (object_loop (Suc (length (tokens ?e))) (shape_value (Suc fuel) l (depth + 1)) l hold ?e [] False)"
      by (rule answered_mono [OF object_loop_answered [OF v]]) (use 2 in auto)
    moreover have "answered (length (tokens e))
        (array_loop (Suc (length (tokens ?e))) (shape_value (Suc fuel) l (depth + 1)) l hold ?e [] 0 False)"
      by (rule answered_mono [OF array_loop_answered [OF v]]) (use 2 in auto)
    ultimately show ?thesis
      using 2 by (simp del: shape_value.simps object_loop.simps array_loop.simps
          add: shape_value.simps(2) [of "Suc fuel"] split: json_token.split)
  qed
  then show ?case unfolding answers_def answered_def by blast
qed

lemma defaults_positive:
  "1 \<le> MaxDepth (or_shape_defaults l)" "1 \<le> MaxNodes (or_shape_defaults l)" "1 \<le> MaxFields (or_shape_defaults l)"
  "1 \<le> MaxElemShapes (or_shape_defaults l)" "1 \<le> MaxNameBytes (or_shape_defaults l)"
  by (auto simp: or_shape_defaults_def default_shape_limits_def Let_def)

lemma shape_extract_returns: "\<exists>r. shape_extract toks ends limits = Some r"
proof -
  let ?l = "or_shape_defaults limits"
  have "answers (shape_value (Suc (nat (MaxDepth ?l))) ?l 1)"
    using defaults_positive(1) [of limits] by (intro shape_value_answers) simp
  then show ?thesis
    unfolding shape_extract_def Let_def
    by (rule answersE [where e = "\<lparr>tokens = toks, decoder_ends = ends, nodes = 0, elided = False\<rparr>" and hold = True]) auto
qed

section \<open>The shape is the bounded shape of the skeleton\<close>

definition member_tokens :: "string \<times> json \<Rightarrow> json_token list" where
  "member_tokens m = Text (fst m) # json_tokens (snd m)"

lemma json_tokens_object:
  "json_tokens (JObject ms) = Delim CHR ''{'' # concat (map member_tokens ms) @ [Delim CHR ''}'']"
proof -
  have "(\<lambda>(name, j). Text name # json_tokens j) = member_tokens"
    by (simp add: fun_eq_iff member_tokens_def)
  then show ?thesis by simp
qed













section \<open>When nothing is dropped\<close>













section \<open>What any body can make it hold\<close>

fun shape_depth :: "shape \<Rightarrow> nat" where
  "shape_depth (Shape k ms es c b) =
    Suc (max (foldr max (map (\<lambda>m. shape_depth (snd (snd m))) ms) 0) (foldr max (map shape_depth es) 0))"

fun shape_nodes :: "shape \<Rightarrow> nat" where
  "shape_nodes (Shape k ms es c b) =
    Suc (sum_list (map (\<lambda>m. shape_nodes (snd (snd m))) ms) + sum_list (map shape_nodes es))"

fun slim :: "shape_limits \<Rightarrow> shape \<Rightarrow> bool" where
  "slim l (Shape k ms es c b) \<longleftrightarrow>
    int (length ms) \<le> MaxFields l \<and> int (length es) \<le> MaxElemShapes l \<and> length es \<le> c
    \<and> list_all (\<lambda>m. int (length (fst m)) \<le> MaxNameBytes l \<and> slim l (snd (snd m))) ms \<and> list_all (slim l) es"

definition holds_within :: "shape_limits \<Rightarrow> nat \<Rightarrow> extractor \<Rightarrow> bool \<Rightarrow> extractor \<Rightarrow> shape \<Rightarrow> bool" where
  "holds_within l d e hold e' s \<longleftrightarrow>
    shape_depth s \<le> d \<and> slim l s \<and> nodes e < nodes e' \<and> decoder_ends e' = decoder_ends e
    \<and> (hold \<and> nodes e < MaxNodes l \<longrightarrow>
          nodes e + int (shape_nodes s) \<le> nodes e' \<and> nodes e + int (shape_nodes s) \<le> MaxNodes l)"

definition reads_within :: "shape_limits \<Rightarrow> nat \<Rightarrow> (extractor \<Rightarrow> bool \<Rightarrow> shape_result) \<Rightarrow> bool" where
  "reads_within l d v \<longleftrightarrow>
    (\<forall>e hold e' s. v e hold = Some (e', Inr s) \<longrightarrow> holds_within l d e hold e' s)"

lemma next_token_same: "next_token e = (t, e1) \<Longrightarrow> nodes e1 = nodes e \<and> decoder_ends e1 = decoder_ends e"
  by (auto simp: next_token_def split: list.splits)

lemma shape_depth_snoc_member:
  "shape_depth (Shape k (ms @ [m]) es c b) = max (shape_depth (Shape k ms es c b)) (Suc (shape_depth (snd (snd m))))"
  by (induction ms) auto

lemma shape_depth_snoc_elem:
  "shape_depth (Shape k ms (es @ [s]) c b) = max (shape_depth (Shape k ms es c b)) (Suc (shape_depth s))"
  by (induction es) auto

lemma holds_within_later:
  "holds_within l d n hold e s \<Longrightarrow> nodes e \<le> nodes e' \<Longrightarrow> decoder_ends e' = decoder_ends e \<Longrightarrow> holds_within l d n hold e' s"
  by (auto simp: holds_within_def)

lemma holds_within_recount: "holds_within l d n hold e (Shape k ms es c b) \<Longrightarrow> c \<le> c' \<Longrightarrow> holds_within l d n hold e (Shape k ms es c' b')"
  by (auto simp: holds_within_def)

lemma holds_within_member:
  assumes "holds_within l (Suc d) n hold e (Shape k ms es c b)" "holds_within l d e True e' s"
    and "hold" "int (length ms) < MaxFields l" "nodes e < MaxNodes l" "0 \<le> MaxNameBytes l"
  shows "holds_within l (Suc d) n hold e' (Shape k (ms @ [make_field l name s]) es c b)"
  using assms by (auto simp: holds_within_def shape_depth_snoc_member make_field_def simp del: shape_depth.simps)

lemma holds_within_elem:
  assumes "holds_within l (Suc d) n hold e (Shape k ms es c b)" "holds_within l d e True e' s"
    and "hold" "int (length es) < MaxElemShapes l" "nodes e < MaxNodes l"
  shows "holds_within l (Suc d) n hold e' (Shape k ms (es @ [s]) (c + 1) b)"
proof -
  have "shape_depth (Shape k ms es (c + 1) b) = shape_depth (Shape k ms es c b)" by simp
  then show ?thesis
    using assms by (auto simp: holds_within_def shape_depth_snoc_elem simp del: shape_depth.simps)
qed

lemma object_loop_within:
  assumes v: "reads_within l d v" "0 \<le> MaxNameBytes l"
    and "holds_within l (Suc d) n hold e (Shape ObjectKind ms [] 0 shed)"
    and "object_loop fuel v l hold e ms shed = Some (e', Inr s)"
  shows "holds_within l (Suc d) n hold e' s"
  using assms(3,4)
proof (induction fuel arbitrary: e ms shed)
  case (Suc fuel)
  obtain t e1 where tok: "next_token e = (t, e1)" by fastforce
  note same = next_token_same [OF tok]
  show ?case
  proof (cases "has_more e")
    case False
    with Suc.prems tok same show ?thesis
      by (auto split: option.splits intro: holds_within_later)
  next
    case True
    let ?keep = "hold \<and> int (length ms) < MaxFields l \<and> nodes e1 < MaxNodes l"
    from Suc.prems(2) True tok obtain name e2 child where
      read: "v e1 ?keep = Some (e2, Inr child)"
      and rest: "(if \<not> ?keep then object_loop fuel v l hold (e2\<lparr>elided := True\<rparr>) ms True
          else object_loop fuel v l hold e2 (ms @ [make_field l name child]) shed) = Some (e', Inr s)"
      by (auto simp: Let_def split: option.splits json_token.splits prod.splits sum.splits)
    from v(1) read have child: "holds_within l d e1 ?keep e2 child"
      unfolding reads_within_def by blast
    then have later: "nodes e \<le> nodes e2" "decoder_ends e2 = decoder_ends e" using same by (simp_all add: holds_within_def)
    show ?thesis
    proof (cases ?keep)
      case True
      have "holds_within l (Suc d) n hold e2 (Shape ObjectKind (ms @ [make_field l name child]) [] 0 shed)"
        by (rule holds_within_member [OF Suc.prems(1)]) (use child True v(2) same in \<open>auto simp: holds_within_def\<close>)
      then show ?thesis by (rule Suc.IH) (use rest True in simp)
    next
      case False
      have "holds_within l (Suc d) n hold (e2\<lparr>elided := True\<rparr>) (Shape ObjectKind ms [] 0 True)"
        by (rule holds_within_later [OF holds_within_recount [OF Suc.prems(1)]]) (use later in simp_all)
      then show ?thesis by (rule Suc.IH) (use rest False in simp)
    qed
  qed
qed simp

lemma array_loop_within:
  assumes v: "reads_within l d v"
    and "holds_within l (Suc d) n hold e (Shape ArrayKind [] es c shed)"
    and "array_loop fuel v l hold e es c shed = Some (e', Inr s)"
  shows "holds_within l (Suc d) n hold e' s"
  using assms(2,3)
proof (induction fuel arbitrary: e es c shed)
  case (Suc fuel)
  show ?case
  proof (cases "has_more e")
    case False
    obtain t e1 where tok: "next_token e = (t, e1)" by fastforce
    note same = next_token_same [OF tok]
    from False Suc.prems tok same show ?thesis
      by (auto split: option.splits intro: holds_within_later)
  next
    case True
    let ?keep = "hold \<and> nodes e < MaxNodes l"
    from Suc.prems(2) True obtain e1 child where
      read: "v e ?keep = Some (e1, Inr child)"
      and rest: "(if \<not> ?keep then array_loop fuel v l hold (e1\<lparr>elided := True\<rparr>) es (c + 1) True
            else if held_shape es child then array_loop fuel v l hold e1 es (c + 1) shed
            else if int (length es) \<ge> MaxElemShapes l
            then array_loop fuel v l hold (e1\<lparr>elided := True\<rparr>) es (c + 1) True
            else array_loop fuel v l hold e1 (es @ [child]) (c + 1) shed) = Some (e', Inr s)"
      by (auto simp only: array_loop.simps Let_def if_True split: option.splits prod.splits sum.splits)
    from v read have child: "holds_within l d e ?keep e1 child"
      unfolding reads_within_def by blast
    then have later: "nodes e \<le> nodes e1" "decoder_ends e1 = decoder_ends e" by (simp_all add: holds_within_def)
    have kept: "holds_within l (Suc d) n hold e2 (Shape ArrayKind [] es (c + 1) b)" if "nodes e2 = nodes e1" "decoder_ends e2 = decoder_ends e1" for e2 b
      by (rule holds_within_later [OF holds_within_recount [OF Suc.prems(1)]]) (use later that in simp_all)
    show ?thesis
    proof (cases "?keep \<and> \<not> held_shape es child \<and> int (length es) < MaxElemShapes l")
      case True
      have "holds_within l (Suc d) n hold e1 (Shape ArrayKind [] (es @ [child]) (c + 1) shed)"
        by (rule holds_within_elem [OF Suc.prems(1)]) (use child True in auto)
      then show ?thesis by (rule Suc.IH) (use rest True in simp)
    next
      case False
      then show ?thesis
        using rest Suc.IH [OF kept [of "e1\<lparr>elided := True\<rparr>" True]] Suc.IH [OF kept [of e1 shed]]
        by (auto split: if_splits)
    qed
  qed
qed simp

lemma shape_value_within:
  assumes "0 \<le> MaxFields l" "0 \<le> MaxElemShapes l" "0 \<le> MaxNameBytes l"
    and "MaxDepth l < depth + int fuel"
  shows "reads_within l fuel (shape_value (Suc fuel) l depth)"
  using assms(4)
proof (induction fuel arbitrary: depth)
  case 0
  then show ?case by (simp add: reads_within_def)
next
  case (Suc fuel)
  have v: "reads_within l fuel (shape_value (Suc fuel) l (depth + 1))"
    by (rule Suc.IH) (use Suc.prems in simp)
  have "holds_within l (Suc fuel) e hold e' s" if "shape_value (Suc (Suc fuel)) l depth e hold = Some (e', Inr s)"
    for e hold e' s
  proof -
    note r = that [unfolded shape_value.simps(2) [of "Suc fuel"]]
    obtain t e1 where tok: "next_token (e\<lparr>nodes := nodes e + 1\<rparr>) = (Some t, e1)"
      using r by (auto split: if_splits prod.splits option.splits simp del: shape_value.simps)
    then have count: "nodes e1 = nodes e + 1" "decoder_ends e1 = decoder_ends e" by (auto dest: next_token_same)
    have empty: "holds_within l (Suc fuel) e hold e1 (Shape k [] [] 0 b)" for k b
      using assms by (simp add: holds_within_def count)
    show ?thesis
      using r tok empty object_loop_within [OF v assms(3) empty] array_loop_within [OF v empty]
      by (auto split: if_splits json_token.splits simp del: shape_value.simps object_loop.simps array_loop.simps)
  qed
  then show ?case unfolding reads_within_def by blast
qed

lemma mark_elided_within [simp]:
  "shape_depth (mark_elided b s) = shape_depth s" "shape_nodes (mark_elided b s) = shape_nodes s"
  "slim l (mark_elided b s) = slim l s"
  by (cases s; simp add: mark_elided_def)+

section \<open>What a shape was read from\<close>

text \<open>
  The tokens of one value, as far as a reader over tokens can tell: the decoder itself sees that a
  closing delimiter closes what was opened, so the two closing delimiters count as one here.
\<close>

definition closing_token :: "json_token \<Rightarrow> json_token" where
  "closing_token t = (if t = Delim CHR '']'' then Delim CHR ''}'' else t)"

definition spells :: "json_token list \<Rightarrow> json_token list \<Rightarrow> bool" where
  "spells used ts \<longleftrightarrow> map closing_token used = map closing_token ts"

lemma spells_append: "spells us ts \<Longrightarrow> spells vs ws \<Longrightarrow> spells (us @ vs) (ts @ ws)"
  by (simp add: spells_def)

text \<open>\<open>took e e' ts\<close>: between the two states the reader took tokens that spell \<open>ts\<close>.\<close>

definition took :: "extractor \<Rightarrow> extractor \<Rightarrow> json_token list \<Rightarrow> bool" where
  "took e e' ts \<longleftrightarrow> (\<exists>used. tokens e = used @ tokens e' \<and> spells used ts)"

lemma took_trans: "took e e1 ts \<Longrightarrow> took e1 e2 us \<Longrightarrow> took e e2 (ts @ us)"
  unfolding took_def by (metis append.assoc spells_append)

lemma took_next: "next_token e = (Some t, e1) \<Longrightarrow> took e e1 [t]"
  by (auto simp: next_token_def took_def spells_def split: list.splits)

lemma took_close: "\<not> has_more e \<Longrightarrow> next_token e = (Some t, e1) \<Longrightarrow> c = CHR ''}'' \<or> c = CHR '']'' \<Longrightarrow> took e e1 [Delim c]"
  by (auto simp: next_token_def has_more_def took_def spells_def closing_token_def split: list.splits)

lemma took_same: "tokens e1 = tokens e \<Longrightarrow> took e e' ts \<Longrightarrow> took e1 e' ts"
  "tokens e1 = tokens e' \<Longrightarrow> took e e' ts \<Longrightarrow> took e e1 ts"
  by (simp_all add: took_def)

definition reads_one :: "(extractor \<Rightarrow> bool \<Rightarrow> shape_result) \<Rightarrow> bool" where
  "reads_one v \<longleftrightarrow> (\<forall>e hold e' s. v e hold = Some (e', Inr s) \<longrightarrow> (\<exists>j. took e e' (json_tokens j)))"

lemma object_loop_one:
  assumes v: "reads_one v"
  shows "object_loop fuel v l hold e ms shed = Some (e', Inr s) \<Longrightarrow>
    \<exists>js. took e e' (concat (map member_tokens js) @ [Delim CHR ''}''])"
proof (induction fuel arbitrary: e ms shed)
  case (Suc fuel)
  show ?case
  proof (cases "has_more e")
    case False
    with Suc.prems obtain t where "next_token e = (Some t, e')"
      by (auto split: option.splits prod.splits)
    with False show ?thesis using took_close [of e t e'] by (intro exI [of _ "[]"]) simp
  next
    case True
    obtain t0 e1 where tok0: "next_token e = (t0, e1)" by fastforce
    let ?keep = "hold \<and> int (length ms) < MaxFields l \<and> nodes e1 < MaxNodes l"
    from Suc.prems True tok0 obtain name e2 child where tok: "next_token e = (Some (Text name), e1)"
      and read: "v e1 ?keep = Some (e2, Inr child)"
      and rest0: "(if \<not> ?keep then object_loop fuel v l hold (e2\<lparr>elided := True\<rparr>) ms True
          else object_loop fuel v l hold e2 (ms @ [make_field l name child]) shed) = Some (e', Inr s)"
      by (auto simp only: object_loop.simps Let_def if_True prod.case split: option.splits json_token.splits prod.splits sum.splits)
    from rest0 obtain e3 ms3 shed3 where rest: "object_loop fuel v l hold e3 ms3 shed3 = Some (e', Inr s)" "tokens e3 = tokens e2"
      by (cases ?keep) (auto split: if_splits)
    from v read obtain j where "took e1 e2 (json_tokens j)" unfolding reads_one_def by blast
    from took_trans [OF took_next [OF tok] this] have m: "took e e2 (member_tokens (name, j))"
      by (simp add: member_tokens_def)
    from Suc.IH [OF rest(1)] obtain js where "took e3 e' (concat (map member_tokens js) @ [Delim CHR ''}''])" by blast
    from took_trans [OF m took_same(1) [OF rest(2) [symmetric] this]] show ?thesis by (intro exI [of _ "(name, j) # js"]) simp
  qed
qed simp

lemma array_loop_one:
  assumes v: "reads_one v"
  shows "array_loop fuel v l hold e es c shed = Some (e', Inr s) \<Longrightarrow>
    \<exists>js. took e e' (concat (map json_tokens js) @ [Delim CHR '']''])"
proof (induction fuel arbitrary: e es c shed)
  case (Suc fuel)
  show ?case
  proof (cases "has_more e")
    case False
    with Suc.prems obtain t where "next_token e = (Some t, e')"
      by (auto split: option.splits prod.splits)
    with False show ?thesis using took_close [of e t e'] by (intro exI [of _ "[]"]) simp
  next
    case True
    let ?keep = "hold \<and> nodes e < MaxNodes l"
    from Suc.prems True obtain e1 child where
      read: "v e ?keep = Some (e1, Inr child)"
      and rest0: "(if \<not> ?keep then array_loop fuel v l hold (e1\<lparr>elided := True\<rparr>) es (c + 1) True
            else if held_shape es child then array_loop fuel v l hold e1 es (c + 1) shed
            else if int (length es) \<ge> MaxElemShapes l
            then array_loop fuel v l hold (e1\<lparr>elided := True\<rparr>) es (c + 1) True
            else array_loop fuel v l hold e1 (es @ [child]) (c + 1) shed) = Some (e', Inr s)"
      by (auto simp only: array_loop.simps Let_def if_True split: option.splits prod.splits sum.splits)
    from rest0 obtain e2 es2 c2 shed2 where
      rest: "array_loop fuel v l hold e2 es2 c2 shed2 = Some (e', Inr s)" "tokens e2 = tokens e1"
      by (auto split: if_splits)
    from v read obtain j where m: "took e e1 (json_tokens j)" unfolding reads_one_def by blast
    from Suc.IH [OF rest(1)] obtain js where "took e2 e' (concat (map json_tokens js) @ [Delim CHR '']''])" by blast
    from took_trans [OF m took_same(1) [OF rest(2) [symmetric] this]] show ?thesis
      by (intro exI [of _ "j # js"]) simp
  qed
qed simp

lemma shape_value_one: "reads_one (shape_value fuel l depth)"
proof (induction fuel arbitrary: depth)
  case (Suc fuel)
  have "\<exists>j. took e e' (json_tokens j)" if r: "shape_value (Suc fuel) l depth e hold = Some (e', Inr s)" for e hold e' s
  proof -
    obtain t e1 where tok: "next_token (e\<lparr>nodes := nodes e + 1\<rparr>) = (Some t, e1)"
      using r by (auto split: if_splits prod.splits option.splits)
    have first: "took e e1 [t]" using took_same(1) [OF _ took_next [OF tok]] by simp
    note object = object_loop_one [OF Suc.IH [of "depth + 1"]] and array = array_loop_one [OF Suc.IH [of "depth + 1"]]
    show ?thesis
    proof (cases t)
      case (Delim c)
      with r tok consider "c = CHR ''{''" "\<exists>js. took e1 e' (concat (map member_tokens js) @ [Delim CHR ''}''])"
        | "c = CHR ''[''" "\<exists>js. took e1 e' (concat (map json_tokens js) @ [Delim CHR '']''])"
        using object array by (auto simp del: object_loop.simps array_loop.simps split: if_splits)
      then show ?thesis
      proof cases
        case 1
        then obtain js where "took e e' ([t] @ concat (map member_tokens js) @ [Delim CHR ''}''])"
          using took_trans [OF first] by blast
        with 1 Delim show ?thesis by (intro exI [of _ "JObject js"]) (simp add: json_tokens_object del: json_tokens.simps)
      next
        case 2
        then obtain js where "took e e' ([t] @ concat (map json_tokens js) @ [Delim CHR '']''])"
          using took_trans [OF first] by blast
        with 2 Delim show ?thesis by (intro exI [of _ "JArray js"]) simp
      qed
    next
      case (Text x)
      with r tok first show ?thesis by (intro exI [of _ "JString x"]) (simp split: if_splits)
    next
      case (Number x)
      with r tok first show ?thesis by (intro exI [of _ "JNumber x"]) (simp split: if_splits)
    next
      case (Truth x)
      with r tok first show ?thesis by (intro exI [of _ "JBool x"]) (simp split: if_splits)
    next
      case NullToken
      with r tok first show ?thesis by (intro exI [of _ JNull]) (simp split: if_splits)
    qed
  qed
  then show ?case unfolding reads_one_def by blast
qed (simp add: reads_one_def)

text \<open>
  C38: Every body is read to an answer, whatever the decoder makes of it, and what is then held is
  bounded whatever the body.  A shape is given only where the whole input was the tokens of exactly one
  value, with nothing after it (the two closing delimiters counted as one, for the decoder matches
  them), and is at most \<open>MaxDepth\<close> deep, of at most \<open>MaxNodes\<close> values, with at most \<open>MaxFields\<close> members in an object, at most
  \<open>MaxElemShapes\<close> shapes in an array (never more than it has elements) and no name longer than
  \<open>MaxNameBytes\<close>.
\<close>

theorem shape_is_bounded:
  "case shape_extract toks ends limits of
     None \<Rightarrow> False
   | Some (Inl err) \<Rightarrow> True
   | Some (Inr s) \<Rightarrow>
       ends = AtEnd \<and> (\<exists>j. spells toks (json_tokens j)) \<and> slim (or_shape_defaults limits) s
       \<and> int (shape_depth s) \<le> MaxDepth (or_shape_defaults limits)
       \<and> int (shape_nodes s) \<le> MaxNodes (or_shape_defaults limits)"
proof -
  let ?l = "or_shape_defaults limits"
  let ?v = "shape_value (Suc (nat (MaxDepth ?l))) ?l 1 \<lparr>tokens = toks, decoder_ends = ends, nodes = 0, elided = False\<rparr> True"
  note pos = defaults_positive [of limits]
  obtain r where r: "shape_extract toks ends limits = Some r" using shape_extract_returns by blast
  have "ends = AtEnd \<and> (\<exists>j. spells toks (json_tokens j)) \<and> slim ?l s \<and> int (shape_depth s) \<le> MaxDepth ?l \<and> int (shape_nodes s) \<le> MaxNodes ?l"
    if "r = Inr s" for s
  proof -
    from r that obtain e s' where v: "?v = Some (e, Inr s')" and s: "s = mark_elided (elided e) s'" "decoder_ends e = AtEnd" "tokens e = []"
      by (auto simp: shape_extract_def Let_def simp del: shape_value.simps split: option.splits prod.splits sum.splits if_splits)
    have "reads_within ?l (nat (MaxDepth ?l)) (shape_value (Suc (nat (MaxDepth ?l))) ?l 1)"
      by (rule shape_value_within) (use pos in simp_all)
    with v have "holds_within ?l (nat (MaxDepth ?l)) \<lparr>tokens = toks, decoder_ends = ends, nodes = 0, elided = False\<rparr> True e s'"
      unfolding reads_within_def by blast
    moreover from v obtain j where "spells toks (json_tokens j)"
      using shape_value_one [of "Suc (nat (MaxDepth ?l))" ?l 1] s(3) unfolding reads_one_def took_def by fastforce
    ultimately show ?thesis using pos s by (auto simp: holds_within_def)
  qed
  with r show ?thesis by (auto split: sum.splits)
qed

text \<open>
  Shapes compare by rendering, and a member name may hold a newline: an object of two integers and
  an object of one, whose name spells the line of the other, are one shape to \<open>held\<close>.
\<close>

lemma distinct_shapes_look_alike:
  "held_shape
     [Shape ObjectKind [(''a'', False, Shape IntegerKind [] [] 0 False), (''b'', False, Shape IntegerKind [] [] 0 False)] [] 0 False]
     (Shape ObjectKind [(''a: integer'' @ [CHR 0x0A] @ ''  b'', False, Shape IntegerKind [] [] 0 False)] [] 0 False)"
  by (simp add: held_shape_def shape_string_def kind_string_def)

end
