(* ===== verification/Reconstruct.thy ===== *)
theory Reconstruct
  imports Http_Parse Opening Json_Shape
begin

text \<open>
  Package \<open>reconstruct\<close> (\<open>reconstruct.go\<close>): the fragments of a capture turned into the exchanges of
  every connection.  \<open>Run\<close> composes the reassembly, the side each direction's beginning decides, the
  parse of each direction and the shape of every body.

  The standard library's decoder is the parameter \<open>decode\<close>: the tokens it gives for a body and what it
  meets after them (\<open>Json_Shape\<close>).  A refused shape is the reason as a value, not its English text, and
  the rendering of a reconstruction for a reader (\<open>String\<close>) is left out.
\<close>

type_synonym json_decoder = "bytes \<Rightarrow> json_token list \<times> decoder_end"

datatype shape_refusal = NothingCaptured | BodyHoled nat | BodyTooLong nat | NotOneValue shape_error

record content =
  ct_codings :: "string list"
  ct_values :: "string list"
  ct_length :: nat

record shaped_message =
  sg_message :: message
  sg_shape :: "shape option"
  sg_refused :: "shape_refusal option"
  sg_content :: "content option"

record exchange =
  ex_request :: "shaped_message option"
  ex_response :: "shaped_message option"
  ex_complete :: bool
  ex_charge :: charge

record connection_exchanges =
  cx_process :: process
  cx_id :: connection_id
  cx_role :: role
  cx_exchanges :: "exchange list"
  cx_unplaced :: nat
  cx_note :: string

record reconstruction =
  rc_connections :: "connection_exchanges list"
  rc_discards :: "(nat \<times> fragment_error) list"
  rc_duplicates :: "duplicate list"

record reconstruct_limits =
  HTTP_limits :: limits
  JSON_limits :: shape_limits

definition default_reconstruct_limits :: reconstruct_limits where
  "default_reconstruct_limits = \<lparr>HTTP_limits = default_limits, JSON_limits = default_shape_limits\<rparr>"

section \<open>The shape of a body\<close>

definition extract_body :: "json_decoder \<Rightarrow> bytes \<Rightarrow> shape_limits \<Rightarrow> (shape_error + shape) option" where
  "extract_body decode data limits = (case decode data of (toks, ends) \<Rightarrow> shape_extract toks ends limits)"

definition with_shape :: "shaped_message \<Rightarrow> (shape_error + shape) option \<Rightarrow> shaped_message option" where
  "with_shape sm extracted =
    (case extracted of
       None \<Rightarrow> None
     | Some (Inl err) \<Rightarrow> Some (sm\<lparr>sg_refused := Some (NotOneValue err)\<rparr>)
     | Some (Inr s) \<Rightarrow> Some (sm\<lparr>sg_shape := Some s\<rparr>))"

definition read_shape :: "json_decoder \<Rightarrow> message \<Rightarrow> shape_limits \<Rightarrow> shaped_message option" where
  "read_shape decode m limits =
    (let sm = \<lparr>sg_message = m, sg_shape = None, sg_refused = None, sg_content = None\<rparr> in
     if m_body_length m = 0 \<and> m_body m = [] then Some sm
     else if m_body m = [] then Some (sm\<lparr>sg_refused := Some NothingCaptured\<rparr>)
     else if m_body_holed m > 0 then Some (sm\<lparr>sg_refused := Some (BodyHoled (m_body_holed m))\<rparr>)
     else if m_body_elided m > 0 then Some (sm\<lparr>sg_refused := Some (BodyTooLong (m_body_elided m))\<rparr>)
     else with_shape sm (extract_body decode (m_body m) limits))"

definition decoded ::
    "json_decoder \<Rightarrow> shaped_message \<Rightarrow> bytes \<Rightarrow> content \<Rightarrow> shape_limits \<Rightarrow> shaped_message option" where
  "decoded decode sm content decoding limits =
    (let out = \<lparr>sg_message = (sg_message sm)\<lparr>m_body := content\<rparr>, sg_shape = None, sg_refused = None,
                sg_content = Some decoding\<rparr> in
     if content = [] then Some out else with_shape out (extract_body decode content limits))"

section \<open>One connection\<close>

definition read_all :: "json_decoder \<Rightarrow> shape_limits \<Rightarrow> message list \<Rightarrow> shaped_message list option" where
  "read_all decode limits ms = those (map (\<lambda>m. read_shape decode m limits) ms)"

definition whole_message :: "shaped_message option \<Rightarrow> bool" where
  "whole_message x = (case x of None \<Rightarrow> False | Some sm \<Rightarrow> m_complete (sg_message sm))"

definition exchange_at :: "shaped_message list \<Rightarrow> shaped_message list \<Rightarrow> nat \<Rightarrow> exchange" where
  "exchange_at requests responses i =
    (let request = (if i < length requests then Some (requests ! i) else None);
         response = (if i < length responses then Some (responses ! i) else None)
     in \<lparr>ex_request = request, ex_response = response,
         ex_complete = (whole_message request \<and> whole_message response), ex_charge = 0\<rparr>)"

definition bodiless_of :: "message list \<Rightarrow> bool list" where
  "bodiless_of ms = map (\<lambda>m. equal_fold (m_method m) ''HEAD'') ms"

definition pair_streams ::
    "json_decoder \<Rightarrow> stream \<Rightarrow> stream \<Rightarrow> reconstruct_limits \<Rightarrow> (exchange list \<times> nat) option" where
  "pair_streams decode request_side response_side limits =
    (case parse_stream request_side Request (HTTP_limits limits) [] of
       None \<Rightarrow> None
     | Some requests \<Rightarrow>
       (case parse_responses response_side (HTTP_limits limits) (bodiless_of (pd_messages requests)) of
          None \<Rightarrow> None
        | Some responses \<Rightarrow>
          (case (read_all decode (JSON_limits limits) (pd_messages requests),
                 read_all decode (JSON_limits limits) (pd_messages responses)) of
             (Some rs, Some ss) \<Rightarrow>
               Some (map (exchange_at rs ss) [0..<max (length rs) (length ss)],
                     add64 (pd_unplaced requests) (pd_unplaced responses))
           | _ \<Rightarrow> None)))"

definition unread_note :: string where
  "unread_note = ''neither direction begins with a request line or a status line''"

definition one_connection ::
    "json_decoder \<Rightarrow> process \<Rightarrow> connection_id \<Rightarrow> stream \<Rightarrow> stream \<Rightarrow> reconstruct_limits \<Rightarrow>
      connection_exchanges option" where
  "one_connection decode process ident sent received limits =
    (let made = (\<lambda>role (exchanges, unplaced) note.
           \<lparr>cx_process = process, cx_id = ident, cx_role = role, cx_exchanges = exchanges, cx_unplaced = unplaced,
            cx_note = note\<rparr>) in
     case role_of sent received of
       Inl _ \<Rightarrow> None
     | Inr Server \<Rightarrow> map_option (\<lambda>x. made Server x []) (pair_streams decode received sent limits)
     | Inr Client \<Rightarrow> map_option (\<lambda>x. made Client x []) (pair_streams decode sent received limits)
     | Inr RoleUnknown \<Rightarrow>
         Some (made RoleUnknown
           ([], sub64 (add64 (sub64 (sm_end sent) (sm_start sent)) (sm_end received)) (sm_start received)) unread_note))"

section \<open>The run\<close>

type_synonym connection_key = "process \<times> connection_id"

text \<open>A Go map of maps: \<open>None\<close> where no stream of the connection was seen.\<close>

type_synonym directions = "connection_key \<Rightarrow> (direction \<Rightarrow> stream option) option"

definition stream_connection :: "stream \<Rightarrow> connection_key" where
  "stream_connection s = (Key_Process (sm_key s), Key_Connection (sm_key s))"

definition place_stream :: "stream \<Rightarrow> connection_key list \<times> directions \<Rightarrow> connection_key list \<times> directions" where
  "place_stream s od =
    (case od of (order, directions) \<Rightarrow>
       let k = stream_connection s;
           (order', dirs) = (case directions k of None \<Rightarrow> (order @ [k], \<lambda>_. None) | Some m \<Rightarrow> (order, m))
       in (order', directions(k := Some (dirs(Key_Direction (sm_key s) := Some s)))))"

definition zero_stream :: stream where
  "zero_stream = \<lparr>sm_key = StreamKey (Process 0 0) 0 Unknown, sm_parts = [], sm_start = 0, sm_end = 0, sm_conflicts = []\<rparr>"

definition direction_of :: "directions \<Rightarrow> connection_key \<Rightarrow> direction \<Rightarrow> stream" where
  "direction_of directions k d =
    (case directions k of
       None \<Rightarrow> zero_stream
     | Some m \<Rightarrow> (case m d of None \<Rightarrow> zero_stream | Some s \<Rightarrow> s))"

definition reconstruct_run :: "json_decoder \<Rightarrow> fragment_record list \<Rightarrow> reconstruct_limits \<Rightarrow> reconstruction option" where
  "reconstruct_run decode records limits =
    (let assembled = assemble records;
         (order, directions) = fold place_stream (as_streams assembled) ([], \<lambda>_. None)
     in case those (map (\<lambda>k. one_connection decode (fst k) (snd k)
                      (direction_of directions k Sent) (direction_of directions k Received) limits) order) of
          None \<Rightarrow> None
        | Some cs \<Rightarrow> Some \<lparr>rc_connections = cs, rc_discards = as_discards assembled, rc_duplicates = as_duplicates assembled\<rparr>)"

section \<open>Every step answers\<close>

lemma extract_body_returns: "\<exists>r. extract_body decode data limits = Some r"
  using shape_extract_returns by (auto simp: extract_body_def split: prod.split)

lemma with_shape_message:
  assumes "extracted = Some r"
  shows "\<exists>sm'. with_shape sm extracted = Some sm' \<and> sg_message sm' = sg_message sm \<and> sg_content sm' = sg_content sm"
  using assms by (cases r) (auto simp: with_shape_def)

lemma read_shape_returns: "\<exists>sm. read_shape decode m limits = Some sm \<and> sg_message sm = m"
proof -
  obtain r where "extract_body decode (m_body m) limits = Some r" using extract_body_returns by blast
  from with_shape_message [OF this, of "\<lparr>sg_message = m, sg_shape = None, sg_refused = None, sg_content = None\<rparr>"]
  show ?thesis by (auto simp: read_shape_def Let_def)
qed

lemma read_all_returns: "\<exists>sms. read_all decode limits ms = Some sms \<and> map sg_message sms = ms"
proof (induction ms)
  case (Cons m ms)
  then show ?case
    using read_shape_returns [of decode m limits] by (auto simp: read_all_def)
qed (simp add: read_all_def)

lemma stream_opening_returns: "whole s \<Longrightarrow> \<exists>x. stream_opening s = Inr x"
  using peek_loop_cells [OF new_cursor_wf, of s 32 "[]"] by (auto simp: stream_opening_def peek_def)

lemma role_of_returns:
  assumes "whole sent" "whole received"
  shows "\<exists>r. role_of sent received = Inr r"
  using stream_opening_returns [OF assms(1)] stream_opening_returns [OF assms(2)] by (auto simp: role_of_def)

text \<open>
  What reading a request side and a response side together gives: each side's messages cover it
  from its first offset, the responses framed by which requests were \<open>HEAD\<close>.  There is an exchange for
  every index either side has a message at; it holds the request and the response of that index, each
  with the shape of its own body, and is complete exactly when both are there and complete.
\<close>

definition message_at :: "message list \<Rightarrow> nat \<Rightarrow> message option" where
  "message_at ms i = (if i < length ms then Some (ms ! i) else None)"

definition shaped_from :: "json_decoder \<Rightarrow> reconstruct_limits \<Rightarrow> shaped_message option \<Rightarrow> message option \<Rightarrow> bool" where
  "shaped_from decode limits x m =
    (case (x, m) of
       (None, None) \<Rightarrow> True
     | (Some sm, Some m) \<Rightarrow> sg_message sm = m \<and> read_shape decode m (JSON_limits limits) = Some sm
     | _ \<Rightarrow> False)"

definition exchange_of :: "json_decoder \<Rightarrow> reconstruct_limits \<Rightarrow> exchange \<Rightarrow> message option \<Rightarrow> message option \<Rightarrow> bool" where
  "exchange_of decode limits x q a \<longleftrightarrow> shaped_from decode limits (ex_request x) q \<and> shaped_from decode limits (ex_response x) a
     \<and> (ex_complete x \<longleftrightarrow> pred_option m_complete q \<and> q \<noteq> None \<and> pred_option m_complete a \<and> a \<noteq> None)"

definition paired_from ::
    "json_decoder \<Rightarrow> reconstruct_limits \<Rightarrow> stream \<Rightarrow> stream \<Rightarrow> exchange list \<Rightarrow> nat \<Rightarrow> bool" where
  "paired_from decode limits request_side response_side exchanges unplaced \<longleftrightarrow>
    (\<exists>requests responses.
       parse_stream request_side Request (HTTP_limits limits) [] = Some requests
     \<and> parse_responses response_side (HTTP_limits limits)
         (map (\<lambda>m. equal_fold (m_method m) ''HEAD'') (pd_messages requests)) = Some responses
     \<and> covers_stream request_side requests \<and> covers_stream response_side responses
     \<and> length exchanges = max (length (pd_messages requests)) (length (pd_messages responses))
     \<and> (\<forall>i < length exchanges. exchange_of decode limits (exchanges ! i)
           (message_at (pd_messages requests) i) (message_at (pd_messages responses) i))
     \<and> unplaced = (pd_unplaced requests + pd_unplaced responses) mod two64)"

lemma read_all_nth:
  assumes "read_all decode limits ms = Some sms"
  shows "length sms = length ms" "i < length ms \<Longrightarrow> read_shape decode (ms ! i) limits = Some (sms ! i)"
proof -
  have "those (map f xs) = Some ys \<Longrightarrow> length ys = length xs \<and> (\<forall>i < length xs. f (xs ! i) = Some (ys ! i))"
    for f :: "'x \<Rightarrow> 'y option" and xs ys
    by (induction xs arbitrary: ys) (auto simp: nth_Cons split: option.splits nat.splits)
  from this [OF assms [unfolded read_all_def]]
  show "length sms = length ms" "i < length ms \<Longrightarrow> read_shape decode (ms ! i) limits = Some (sms ! i)" by auto
qed

lemma exchange_at_pairs:
  assumes rs: "read_all decode (JSON_limits limits) qs = Some rs" "map sg_message rs = qs"
    and ss: "read_all decode (JSON_limits limits) as = Some ss" "map sg_message ss = as"
  shows "exchange_of decode limits (exchange_at rs ss i) (message_at qs i) (message_at as i)"
proof -
  have at: "shaped_from decode limits (if i < length sms then Some (sms ! i) else None) (message_at ms i)"
      "whole_message (if i < length sms then Some (sms ! i) else None) \<longleftrightarrow>
         pred_option m_complete (message_at ms i) \<and> message_at ms i \<noteq> None"
    if "read_all decode (JSON_limits limits) ms = Some sms" "map sg_message sms = ms" for ms sms
    using read_all_nth(1) [OF that(1)] read_all_nth(2) [OF that(1), of i] that(2) [symmetric]
    by (auto simp: shaped_from_def message_at_def whole_message_def)
  show ?thesis
    unfolding exchange_of_def exchange_at_def Let_def exchange.simps at(2) [OF rs] at(2) [OF ss]
    using at(1) [OF rs] at(1) [OF ss] by blast
qed

lemma pair_streams_paired:
  assumes "whole request_side" "whole response_side"
  shows "\<exists>x. pair_streams decode request_side response_side limits = Some x
    \<and> paired_from decode limits request_side response_side (fst x) (snd x)"
proof -
  obtain requests where q: "parse_stream request_side Request (HTTP_limits limits) [] = Some requests"
      "covers_stream request_side requests"
    using parse_stream_covers [OF assms(1)] by blast
  obtain responses where a:
      "parse_responses response_side (HTTP_limits limits) (bodiless_of (pd_messages requests)) = Some responses"
      "covers_stream response_side responses"
    using parse_stream_covers [OF assms(2)] unfolding parse_responses_def by blast
  obtain rs where rs: "read_all decode (JSON_limits limits) (pd_messages requests) = Some rs"
      "map sg_message rs = pd_messages requests"
    using read_all_returns by blast
  obtain ss where ss: "read_all decode (JSON_limits limits) (pd_messages responses) = Some ss"
      "map sg_message ss = pd_messages responses"
    using read_all_returns by blast
  let ?xs = "map (exchange_at rs ss) [0..<max (length rs) (length ss)]"
  have "pair_streams decode request_side response_side limits = Some (?xs, add64 (pd_unplaced requests) (pd_unplaced responses))"
    by (simp add: pair_streams_def q a rs ss)
  moreover have "paired_from decode limits request_side response_side ?xs (add64 (pd_unplaced requests) (pd_unplaced responses))"
    unfolding paired_from_def add64_def
    using q a exchange_at_pairs [OF rs ss] read_all_nth(1) [OF rs(1)] read_all_nth(1) [OF ss(1)]
    by (intro exI [of _ requests] exI [of _ responses]) (simp add: bodiless_of_def)
  ultimately show ?thesis by simp
qed

definition reconstructed ::
    "json_decoder \<Rightarrow> reconstruct_limits \<Rightarrow> stream \<Rightarrow> stream \<Rightarrow> connection_exchanges \<Rightarrow> bool" where
  "reconstructed decode limits sent received c \<longleftrightarrow>
    (case cx_role c of
       Server \<Rightarrow> paired_from decode limits received sent (cx_exchanges c) (cx_unplaced c)
     | Client \<Rightarrow> paired_from decode limits sent received (cx_exchanges c) (cx_unplaced c)
     | RoleUnknown \<Rightarrow> cx_exchanges c = []
         \<and> cx_unplaced c = ((sm_end sent - sm_start sent) + (sm_end received - sm_start received)) mod two64)
    \<and> role_of sent received = Inr (cx_role c)"

lemma extent_sum:
  assumes "whole sent" "whole received"
  shows "sub64 (add64 (sub64 (sm_end sent) (sm_start sent)) (sm_end received)) (sm_start received)
    = ((sm_end sent - sm_start sent) + (sm_end received - sm_start received)) mod two64"
proof -
  have le: "sm_start sent \<le> sm_end sent" "sm_start received \<le> sm_end received" "sm_end sent < two64" "sm_end received < two64"
    using assms tiles_le by (auto simp: whole_def)
  have wrap: "sub64 (add64 a e) st = (a + (e - st)) mod two64" if "st \<le> e" "e < two64" for a e st :: nat
  proof -
    have "sub64 (add64 a e) st = ((a + e) + (two64 - st)) mod two64"
      unfolding sub64_def add64_def by (rule mod_add_left_eq)
    also have "a + e + (two64 - st) = a + (e - st) + two64" using that by simp
    also have "\<dots> mod two64 = (a + (e - st)) mod two64" by (rule mod_add_self2)
    finally show ?thesis .
  qed
  show ?thesis unfolding sub64_fits [OF le(1,3)] by (rule wrap [OF le(2,4)])
qed

lemma one_connection_reconstructed:
  assumes "whole sent" "whole received"
  shows "\<exists>c. one_connection decode p ident sent received limits = Some c \<and> cx_process c = p \<and> cx_id c = ident
    \<and> reconstructed decode limits sent received c"
proof -
  obtain r where r: "role_of sent received = Inr r" using role_of_returns [OF assms] by blast
  show ?thesis
  proof (cases r)
    case Server
    then show ?thesis
      using pair_streams_paired [OF assms(2,1), of decode limits] r
      by (auto simp: one_connection_def reconstructed_def)
  next
    case Client
    then show ?thesis
      using pair_streams_paired [OF assms, of decode limits] r
      by (auto simp: one_connection_def reconstructed_def)
  next
    case RoleUnknown
    then show ?thesis using r extent_sum [OF assms] by (simp add: one_connection_def reconstructed_def)
  qed
qed

section \<open>The connections of a capture\<close>

text \<open>The stream of a connection's direction, the empty stream where the capture holds none.\<close>

definition stream_for :: "stream list \<Rightarrow> connection_key \<Rightarrow> direction \<Rightarrow> stream" where
  "stream_for streams k d =
    (case find (\<lambda>s. stream_connection s = k \<and> Key_Direction (sm_key s) = d) streams of
       None \<Rightarrow> zero_stream
     | Some s \<Rightarrow> s)"

definition streams_placed :: "stream list \<Rightarrow> connection_key list \<times> directions \<Rightarrow> bool" where
  "streams_placed streams od \<longleftrightarrow>
     distinct (fst od) \<and> set (fst od) = stream_connection ` set streams
   \<and> (\<forall>k. snd od k = None \<longleftrightarrow> k \<notin> set (fst od))
   \<and> (\<forall>k d. Option.bind (snd od k) (\<lambda>m. m d) = find (\<lambda>s. stream_connection s = k \<and> Key_Direction (sm_key s) = d) streams)"

lemma streams_placedD:
  assumes "streams_placed streams od"
  shows "distinct (fst od)" "set (fst od) = stream_connection ` set streams"
    "snd od k = None \<longleftrightarrow> k \<notin> set (fst od)"
    "Option.bind (snd od k) (\<lambda>m. m d) = find (\<lambda>s. stream_connection s = k \<and> Key_Direction (sm_key s) = d) streams"
  using assms unfolding streams_placed_def by blast+

lemma same_key: "stream_connection s = stream_connection t \<Longrightarrow> Key_Direction (sm_key s) = Key_Direction (sm_key t) \<Longrightarrow> sm_key s = sm_key t"
  by (cases "sm_key s"; cases "sm_key t") (simp add: stream_connection_def)

lemma place_stream_placed:
  assumes "streams_placed streams od" "sm_key s \<notin> sm_key ` set streams"
  shows "streams_placed (streams @ [s]) (place_stream s od)"
proof -
  obtain order dirs where od: "od = (order, dirs)" by (cases od)
  have new: "find (\<lambda>t. stream_connection t = stream_connection s \<and> Key_Direction (sm_key t) = Key_Direction (sm_key s)) streams = None"
    unfolding find_None_conv using assms(2) same_key by (metis image_eqI)
  note placed = streams_placedD [OF assms(1), unfolded od fst_conv snd_conv]
  let ?k = "stream_connection s" and ?d = "Key_Direction (sm_key s)"
  define m where "m = (case dirs ?k of None \<Rightarrow> (\<lambda>_. None) | Some m \<Rightarrow> m)"
  have m: "m d = find (\<lambda>t. stream_connection t = ?k \<and> Key_Direction (sm_key t) = d) streams" for d
    using placed(4) [of ?k d] by (cases "dirs ?k") (simp_all add: m_def)
  have eq: "place_stream s od = (if ?k \<in> set order then order else order @ [?k], dirs(?k := Some (m(?d := Some s))))"
    using placed(3) [of ?k] by (cases "dirs ?k") (simp_all add: place_stream_def od m_def Let_def)
  have found: "Option.bind ((dirs(?k := Some (m(?d := Some s)))) k) (\<lambda>m. m d)
      = find (\<lambda>t. stream_connection t = k \<and> Key_Direction (sm_key t) = d) (streams @ [s])" for k d
    using placed(4) [of k d] new
    by (cases "k = ?k"; cases "d = ?d") (auto simp: find_append m split: option.split)
  have known: "(dirs(?k := Some (m(?d := Some s)))) k = None \<longleftrightarrow> k \<notin> set (if ?k \<in> set order then order else order @ [?k])" for k
    using placed(3) [of k] by auto
  show ?thesis
    unfolding streams_placed_def eq fst_conv snd_conv using placed(1,2) found known by auto
qed

lemma fold_place_stream:
  assumes "distinct (map sm_key streams)"
  shows "streams_placed streams (fold place_stream streams ([], \<lambda>_. None))"
  using assms
proof (induction streams rule: rev_induct)
  case Nil
  then show ?case by (simp add: streams_placed_def)
next
  case (snoc s streams)
  then show ?case using place_stream_placed [of streams "fold place_stream streams ([], \<lambda>_. None)" s] by simp
qed

lemma direction_of_placed:
  assumes "streams_placed streams (order, dirs)"
  shows "direction_of dirs k d = stream_for streams k d"
proof -
  have "Option.bind (dirs k) (\<lambda>m. m d) = find (\<lambda>s. stream_connection s = k \<and> Key_Direction (sm_key s) = d) streams"
    using assms unfolding streams_placed_def snd_conv by blast
  from this [symmetric] show ?thesis
    by (cases "dirs k") (simp_all add: direction_of_def stream_for_def)
qed

lemma assemble_distinct_keys: "distinct (map sm_key (as_streams (assemble records)))"
proof -
  have "sm_key (fst (one_with_duplicates key held)) = key" for key held
    by (simp add: one_with_duplicates_def Let_def split: list.split prod.split)
  then show ?thesis by (simp add: assemble_def Let_def keys_of_def comp_def)
qed

lemma stream_for_whole:
  assumes "\<forall>r\<in>set records. record_typed r"
  shows "whole (stream_for (as_streams (assemble records)) k d)"
proof (cases "find (\<lambda>s. stream_connection s = k \<and> Key_Direction (sm_key s) = d) (as_streams (assemble records))")
  case None
  then show ?thesis by (simp add: stream_for_def zero_stream_def whole_def)
next
  case (Some s)
  then have "s \<in> set (as_streams (assemble records))" by (auto simp: find_Some_iff)
  with assms have "whole s" using assemble_tiles unfolding whole_def by blast
  with Some show ?thesis by (simp add: stream_for_def)
qed

lemma those_returns:
  assumes "\<And>x. x \<in> set xs \<Longrightarrow> \<exists>y. f x = Some y \<and> P x y"
  shows "\<exists>ys. those (map f xs) = Some ys \<and> list_all2 P xs ys"
  using assms by (induction xs) fastforce+

text \<open>
  C7: A capture is reconstructed whole.  Whatever well-typed records it holds, \<open>Run\<close> returns, with one
  connection for every process and connection id that has a placeable fragment, each once; the side of
  each is the one its two directions begin with.  Its \<open>i\<close>th exchange holds the \<open>i\<close>th message parsed from the
  request side and the \<open>i\<close>th parsed from the response side, as far as each side has one, each with the shape
  read from its own body, and is complete exactly when both are there and complete.  Each direction's
  messages and its unplaced offsets cover its extent exactly, the unplaced offsets of both summed in
  64 bits.  The discards and duplicates are the reassembly's.
\<close>

theorem run_reconstructs_capture:
  assumes "\<forall>r\<in>set records. record_typed r"
  shows "\<exists>rc. reconstruct_run decode records limits = Some rc
    \<and> distinct (map (\<lambda>c. (cx_process c, cx_id c)) (rc_connections rc))
    \<and> (\<lambda>c. (cx_process c, cx_id c)) ` set (rc_connections rc) = stream_connection ` set (as_streams (assemble records))
    \<and> list_all (\<lambda>c. reconstructed decode limits
          (stream_for (as_streams (assemble records)) (cx_process c, cx_id c) Sent)
          (stream_for (as_streams (assemble records)) (cx_process c, cx_id c) Received) c) (rc_connections rc)
    \<and> rc_discards rc = as_discards (assemble records) \<and> rc_duplicates rc = as_duplicates (assemble records)"
proof -
  let ?streams = "as_streams (assemble records)"
  obtain order dirs where f: "fold place_stream ?streams ([], \<lambda>_. None) = (order, dirs)" by fastforce
  have placed: "streams_placed ?streams (order, dirs)"
    using fold_place_stream [OF assemble_distinct_keys [of records]] f by simp
  let ?one = "\<lambda>k. one_connection decode (fst k) (snd k) (direction_of dirs k Sent) (direction_of dirs k Received) limits"
  let ?P = "\<lambda>k c. (cx_process c, cx_id c) = k \<and> reconstructed decode limits (stream_for ?streams k Sent) (stream_for ?streams k Received) c"
  have "\<exists>cs. those (map ?one order) = Some cs \<and> list_all2 ?P order cs"
  proof (rule those_returns)
    fix k
    show "\<exists>c. ?one k = Some c \<and> ?P k c"
      unfolding direction_of_placed [OF placed]
      using one_connection_reconstructed [OF stream_for_whole [OF assms] stream_for_whole [OF assms],
          of decode "fst k" "snd k" k Sent k Received limits]
      by auto
  qed
  then obtain cs where cs: "those (map ?one order) = Some cs" "list_all2 ?P order cs" by blast
  have keys: "map (\<lambda>c. (cx_process c, cx_id c)) cs = order"
    using cs(2) by (induction rule: list_all2_induct) auto
  have all: "list_all (\<lambda>c. ?P (cx_process c, cx_id c) c) cs"
    using cs(2) by (induction rule: list_all2_induct) auto
  have "reconstruct_run decode records limits =
      Some \<lparr>rc_connections = cs, rc_discards = as_discards (assemble records), rc_duplicates = as_duplicates (assemble records)\<rparr>"
    using cs(1) f by (simp add: reconstruct_run_def Let_def)
  moreover have "set (map (\<lambda>c. (cx_process c, cx_id c)) cs) = stream_connection ` set ?streams" "distinct order"
    using placed keys by (auto simp: streams_placed_def)
  ultimately show ?thesis
    using keys all by (auto simp: list_all_iff)
qed

text \<open>A capture of one connection.\<close>

lemma distinct_singleton: "distinct xs \<Longrightarrow> set xs = {x} \<Longrightarrow> xs = [x]"
proof (cases xs)
  case (Cons a ys)
  assume "distinct xs" "set xs = {x}"
  with Cons have "a = x" "ys = []" by (cases ys; auto)+
  with Cons show ?thesis by simp
qed simp

theorem run_reconstructs_capture_witness:
  "\<exists>rc. reconstruct_run (\<lambda>_. ([NullToken], AtEnd)) sample_capture default_reconstruct_limits = Some rc
    \<and> map (\<lambda>c. (cx_process c, cx_id c)) (rc_connections rc) = [(Process 7 1, 1)]"
proof -
  from run_reconstructs_capture [OF sample_typed, of "\<lambda>_. ([NullToken], AtEnd)" default_reconstruct_limits]
  obtain rc where rc: "reconstruct_run (\<lambda>_. ([NullToken], AtEnd)) sample_capture default_reconstruct_limits = Some rc"
    "distinct (map (\<lambda>c. (cx_process c, cx_id c)) (rc_connections rc))"
    "(\<lambda>c. (cx_process c, cx_id c)) ` set (rc_connections rc) = stream_connection ` set (as_streams (assemble sample_capture))"
    by (elim exE conjE)
  have "set (map (\<lambda>c. (cx_process c, cx_id c)) (rc_connections rc)) = {(Process 7 1, 1)}"
    unfolding set_map rc(3) by (simp add: sample_assembled sample_stream_def stream_connection_def)
  with rc(2) have "map (\<lambda>c. (cx_process c, cx_id c)) (rc_connections rc) = [(Process 7 1, 1)]"
    by (rule distinct_singleton)
  with rc(1) show ?thesis by (intro exI conjI)
qed

end
