(* ===== verification/Pairing.thy ===== *)
theory Pairing
  imports Reconstruct Http_Parser_Accounting
begin

text \<open>
  \<open>reconstruct.Pairing\<close> (\<open>pairing.go\<close>): one connection read as its two directions arrive, each response
  handed over with the request it answers once both are framed.

  The pairing's state is a record and the reserver's state is threaded beside it, as in the parser;
  every operation takes and gives the pair of the two.  A Go pointer to a side is the name of the side,
  \<open>Requests\<close> or \<open>Responses\<close>; the pointers are nil until \<open>route\<close>, and the model's sides are then empty
  ones that no operation reaches (every use follows a test of \<open>routed\<close>; for \<open>End\<close> see
  \<open>decide_settles\<close>).  The loops of \<open>read\<close>, \<open>pump\<close>, \<open>handOver\<close> and \<open>End\<close> have fuel, and an
  operation that ran out of it would be \<open>None\<close>.  Offsets are natural numbers: \<open>admit\<close> has checked that
  no part passes the last one.
\<close>

section \<open>State\<close>

record held_part =
  hp_part :: part
  hp_charge :: int

record pair_direction =
  dr_started :: bool
  dr_start :: nat
  dr_next :: nat
  dr_beginning :: beginning
  dr_held :: "held_part list"
  dr_settled :: nat

record finished =
  fn_message :: message
  fn_charge :: charge

record side =
  sd_direction :: direction
  sd_parser :: parser
  sd_done :: "finished list"
  sd_head_seen :: bool
  sd_waiting :: bool
  sd_stopped :: bool
  sd_ended :: bool

record pairing =
  pa_limits :: reconstruct_limits
  pa_directions :: "direction \<Rightarrow> pair_direction"
  pa_routed :: bool
  pa_decided :: bool
  pa_unread :: bool
  pa_role :: role
  pa_requests :: side
  pa_responses :: side
  pa_base :: nat
  pa_methods :: "bytes list"
  pa_limit :: int
  pa_why :: result
  pa_stop :: result
  pa_ending :: bool
  pa_ended :: bool
  pa_examined :: nat

record step =
  st_consumed :: nat
  st_exchanges :: "exchange list"
  st_result :: result

datatype pairing_error = ErrDirection | ErrPart parser_error

datatype side_name = Requests | Responses

definition side_at :: "side_name \<Rightarrow> pairing \<Rightarrow> side" where
  "side_at w p = (case w of Requests \<Rightarrow> pa_requests p | Responses \<Rightarrow> pa_responses p)"

definition put_side :: "side_name \<Rightarrow> side \<Rightarrow> pairing \<Rightarrow> pairing" where
  "put_side w s p = (case w of Requests \<Rightarrow> p\<lparr>pa_requests := s\<rparr> | Responses \<Rightarrow> p\<lparr>pa_responses := s\<rparr>)"

definition put_direction :: "direction \<Rightarrow> pair_direction \<Rightarrow> pairing \<Rightarrow> pairing" where
  "put_direction d at p = p\<lparr>pa_directions := (pa_directions p)(d := at)\<rparr>"

definition zero_beginning :: beginning where
  "zero_beginning = \<lparr>bg_n = 0, bg_prefix = False, bg_space = 0, bg_token = False, bg_what = opensNothing, bg_certain = False\<rparr>"

definition zero_direction :: pair_direction where
  "zero_direction = \<lparr>dr_started = False, dr_start = 0, dr_next = 0, dr_beginning = zero_beginning, dr_held = [], dr_settled = 0\<rparr>"

definition new_side :: "direction \<Rightarrow> kind \<Rightarrow> limits \<Rightarrow> side" where
  "new_side d kind limits =
    \<lparr>sd_direction = d, sd_parser = new_parser kind limits, sd_done = [], sd_head_seen = False, sd_waiting = False,
     sd_stopped = False, sd_ended = False\<rparr>"

definition new_pairing :: "reconstruct_limits \<Rightarrow> pairing" where
  "new_pairing limits =
    \<lparr>pa_limits = limits, pa_directions = (\<lambda>_. zero_direction), pa_routed = False, pa_decided = False, pa_unread = False,
     pa_role = RoleUnknown, pa_requests = new_side Unknown Request (HTTP_limits limits),
     pa_responses = new_side Unknown Response (HTTP_limits limits), pa_base = 0, pa_methods = [], pa_limit = -1,
     pa_why = NeedInput, pa_stop = NeedInput, pa_ending = False, pa_ended = False, pa_examined = 0\<rparr>"

section \<open>Where the pairing stands\<close>

definition pairing_stopped :: "pairing \<Rightarrow> bool" where
  "pairing_stopped p \<longleftrightarrow> pa_unread p \<or> pa_stop p \<noteq> NeedInput"

definition pairing_result :: "pairing \<Rightarrow> result" where
  "pairing_result p = (if pa_unread p then Unsupported else pa_stop p)"

definition side_of :: "pairing \<Rightarrow> direction \<Rightarrow> side_name option" where
  "side_of p d =
    (if \<not> pa_routed p then None else if sd_direction (pa_requests p) = d then Some Requests else Some Responses)"

definition pair_position :: "pairing \<Rightarrow> direction \<Rightarrow> nat" where
  "pair_position p d =
    (let next = dr_next (pa_directions p d) in
     case side_of p d of
       None \<Rightarrow> next
     | Some w \<Rightarrow>
         (case parser_position (sd_parser (side_at w p)) of
            (n, started) \<Rightarrow> if started \<and> n > next then n else next))"

definition readable :: "pairing \<Rightarrow> direction \<Rightarrow> bool" where
  "readable p d \<longleftrightarrow> pa_routed p \<and> \<not> pa_unread p \<and> bg_certain (dr_beginning (pa_directions p d))"

definition pair_admit :: "pairing \<Rightarrow> direction \<Rightarrow> part \<Rightarrow> pairing_error option" where
  "pair_admit p d part =
    (if d \<noteq> Sent \<and> d \<noteq> Received then Some ErrDirection
     else if pa_ending p then Some (ErrPart ErrEnded)
     else case part_validate part of
       Some e \<Rightarrow> Some (ErrPart (ErrInvalidPart e))
     | None \<Rightarrow>
         if dr_started (pa_directions p d) \<and> pt_offset part \<noteq> pair_position p d then Some (ErrPart ErrOffset)
         else None)"

section \<open>Letting go and stopping\<close>

definition pair_release :: "'r reserver \<Rightarrow> charge \<Rightarrow> 'r \<Rightarrow> 'r" where
  "pair_release R c r = (if charge_is_zero c then r else Release R r c)"

definition release_held :: "'r reserver \<Rightarrow> held_part list \<Rightarrow> 'r \<Rightarrow> 'r" where
  "release_held R hs r = fold (\<lambda>h. pair_release R (Charge (hp_charge h) 0)) hs r"

definition release_done :: "'r reserver \<Rightarrow> finished list \<Rightarrow> 'r \<Rightarrow> 'r" where
  "release_done R fs r = fold (\<lambda>f. pair_release R (fn_charge f)) fs r"

definition drop_held :: "'r reserver \<Rightarrow> direction \<Rightarrow> 'r \<times> pairing \<Rightarrow> 'r \<times> pairing" where
  "drop_held R d rp =
    (case rp of (r, p) \<Rightarrow>
       let at = pa_directions p d in (release_held R (dr_held at) r, put_direction d (at\<lparr>dr_held := []\<rparr>) p))"

definition stop_side :: "'r reserver \<Rightarrow> side_name \<Rightarrow> 'r \<times> pairing \<Rightarrow> 'r \<times> pairing" where
  "stop_side R w rp =
    (case rp of (r, p) \<Rightarrow>
       let s = side_at w p in
       if sd_stopped s then (r, p)
       else drop_held R (sd_direction s)
              (pair_release R (retained (sd_parser s)) r, put_side w (s\<lparr>sd_stopped := True, sd_waiting := False\<rparr>) p))"

text \<open>The body of the loop over the sides in \<open>setLimit\<close>.\<close>

definition limit_side :: "'r reserver \<Rightarrow> nat \<Rightarrow> nat \<Rightarrow> side_name \<Rightarrow> 'r \<times> pairing \<Rightarrow> 'r \<times> pairing" where
  "limit_side R i keep w rp =
    (case rp of (r, p) \<Rightarrow>
       let s = side_at w p;
           (r1, p1) = (if length (sd_done s) > keep
                       then (release_done R (drop keep (sd_done s)) r, put_side w (s\<lparr>sd_done := take keep (sd_done s)\<rparr>) p)
                       else (r, p))
       in if pa_base p1 + length (sd_done (side_at w p1)) > i then stop_side R w (r1, p1) else (r1, p1))"

definition set_limit :: "'r reserver \<Rightarrow> nat \<Rightarrow> result \<Rightarrow> bool \<Rightarrow> 'r \<times> pairing \<Rightarrow> 'r \<times> pairing" where
  "set_limit R i why request rp =
    (case rp of (r, p) \<Rightarrow>
       if pa_limit p \<ge> 0 \<and> (int i > pa_limit p \<or> int i = pa_limit p \<and> \<not> request) then (r, p)
       else
         let keep = i - pa_base p + 1;
             (r2, p2) = limit_side R i keep Responses (limit_side R i keep Requests (r, p\<lparr>pa_limit := int i, pa_why := why\<rparr>))
         in (r2, if length (pa_methods p2) > keep then p2\<lparr>pa_methods := take keep (pa_methods p2)\<rparr> else p2))"

definition boundary :: "'r reserver \<Rightarrow> nat \<Rightarrow> message \<Rightarrow> bool \<Rightarrow> 'r \<times> pairing \<Rightarrow> 'r \<times> pairing" where
  "boundary R i m request rp =
    (if list_ex (\<lambda>h. equal_fold (Name h) ''upgrade'') (m_headers m)
        \<or> request \<and> equal_fold (m_method m) ''CONNECT'' \<or> \<not> request \<and> m_status m < 200
     then set_limit R i Unsupported request rp else rp)"

definition finish_side :: "'r reserver \<Rightarrow> side_name \<Rightarrow> result \<Rightarrow> 'r \<times> pairing \<Rightarrow> 'r \<times> pairing" where
  "finish_side R w why rp =
    (case rp of (r, p) \<Rightarrow>
       stop_side R w (set_limit R (pa_base p + length (sd_done (side_at w p))) why (w = Requests) (r, p)))"

section \<open>Messages\<close>

text \<open>\<open>finish\<close> takes a message the side's parser handed over; \<open>finish_request\<close> is its branch for a request.\<close>

definition finish_request :: "'r reserver \<Rightarrow> nat \<Rightarrow> message \<Rightarrow> 'r \<times> pairing \<Rightarrow> 'r \<times> pairing" where
  "finish_request R i m rp =
    (case rp of (r, p) \<Rightarrow>
       let (r1, p1) = (if \<not> sd_head_seen (pa_requests p)
                       then boundary R i m True (r, p\<lparr>pa_methods := pa_methods p @ [m_method m]\<rparr>) else (r, p))
       in (r1, p1\<lparr>pa_requests := (pa_requests p1)\<lparr>sd_head_seen := False\<rparr>\<rparr>))"

definition finish :: "'r reserver \<Rightarrow> side_name \<Rightarrow> message \<Rightarrow> charge \<Rightarrow> result \<Rightarrow> 'r \<times> pairing \<Rightarrow> 'r \<times> pairing" where
  "finish R w m c res rp =
    (case rp of (r, p) \<Rightarrow>
       let s = side_at w p;
           i = pa_base p + length (sd_done s);
           rp1 = (r, put_side w (s\<lparr>sd_done := sd_done s @ [\<lparr>fn_message = m, fn_charge = c\<rparr>]\<rparr>) p);
           rp2 = (if w = Requests then finish_request R i m rp1 else rp1);
           rp3 = (if result_stopped res then set_limit R i res (w = Requests) rp2 else rp2)
       in if pa_limit (snd rp3) \<ge> 0 \<and> int i \<ge> pa_limit (snd rp3) then stop_side R w rp3 else rp3)"

definition finish_progress :: "'r reserver \<Rightarrow> side_name \<Rightarrow> progress \<Rightarrow> 'r \<times> pairing \<Rightarrow> 'r \<times> pairing" where
  "finish_progress R w pr rp =
    (case pg_message pr of None \<Rightarrow> rp | Some m \<Rightarrow> finish R w m (pg_charge pr) (pg_result pr) rp)"

text \<open>The method the response in progress is answered with, where that is known.\<close>

definition known_method :: "pairing \<Rightarrow> bytes option" where
  "known_method p =
    (let j = length (sd_done (pa_responses p)) in
     if j < length (pa_methods p) then Some (pa_methods p ! j)
     else if \<not> sd_ended (pa_requests p) then None
     else Some [])"

definition pair_answer :: "'r reserver \<Rightarrow> 'r \<times> pairing \<Rightarrow> 'r \<times> pairing" where
  "pair_answer R rp =
    (case rp of (r, p) \<Rightarrow>
       let s = pa_responses p in
       if \<not> pa_routed p \<or> \<not> sd_waiting s \<or> sd_stopped s then (r, p)
       else case known_method p of
         None \<Rightarrow> (r, p)
       | Some method \<Rightarrow>
           (case answer (sd_parser s) method of
              Inl _ \<Rightarrow> (r, p\<lparr>pa_responses := s\<lparr>sd_waiting := False\<rparr>\<rparr>)
            | Inr (parser, pr) \<Rightarrow>
                finish_progress R Responses pr (r, p\<lparr>pa_responses := s\<lparr>sd_waiting := False, sd_parser := parser\<rparr>\<rparr>)))"

definition pair_head :: "'r reserver \<Rightarrow> side_name \<Rightarrow> message \<Rightarrow> 'r \<times> pairing \<Rightarrow> 'r \<times> pairing" where
  "pair_head R w m rp =
    (case rp of (r, p) \<Rightarrow>
       let i = pa_base p + length (sd_done (side_at w p)) in
       if w = Requests then
         boundary R i m True (r, p\<lparr>pa_methods := pa_methods p @ [m_method m],
           pa_requests := (pa_requests p)\<lparr>sd_head_seen := True\<rparr>\<rparr>)
       else
         (case boundary R i m False (r, p) of (r1, p1) \<Rightarrow>
            pair_answer R (r1, p1\<lparr>pa_responses := (pa_responses p1)\<lparr>sd_waiting := True\<rparr>\<rparr>)))"

section \<open>Reading\<close>

text \<open>
  \<open>read\<close> feeds a part to a side's parser; \<open>advance\<close> commits what each call consumed.  The result is the
  part left and whether growth was refused.
\<close>

definition read_progress :: "'r reserver \<Rightarrow> side_name \<Rightarrow> progress \<Rightarrow> 'r \<times> pairing \<Rightarrow> 'r \<times> pairing" where
  "read_progress R w pr rp =
    (if pg_result pr = Head then
       (case pg_message pr of None \<Rightarrow> rp | Some m \<Rightarrow> pair_head R w m rp)
     else if pg_result pr \<in> {Framed, Malformed, Limit, Unsupported, Cut} then finish_progress R w pr rp
     else if pg_result pr = NeedRequest then
       (fst rp, put_side w ((side_at w (snd rp))\<lparr>sd_waiting := True\<rparr>) (snd rp))
     else rp)"

definition read_rest ::
    "side_name \<Rightarrow> (nat \<Rightarrow> pairing \<Rightarrow> pairing) \<Rightarrow> 'r \<times> pairing \<Rightarrow> part \<Rightarrow> ('r \<times> pairing) \<times> part \<times> bool" where
  "read_rest w advance rp part =
    (if sd_stopped (side_at w (snd rp)) \<and> pt_length part > 0
     then ((fst rp, advance (pt_length part) (snd rp)), part_tail part (pt_length part), False)
     else (rp, part, False))"

fun read_part ::
    "nat \<Rightarrow> 'r reserver \<Rightarrow> side_name \<Rightarrow> (nat \<Rightarrow> pairing \<Rightarrow> pairing) \<Rightarrow> 'r \<times> pairing \<Rightarrow> part \<Rightarrow>
      (('r \<times> pairing) \<times> part \<times> bool) option" where
  "read_part fuel R w advance rp part =
    (case rp of (r, p) \<Rightarrow>
       let s = side_at w p in
       if pt_length part = 0 \<or> sd_waiting s \<or> sd_stopped s then Some (read_rest w advance rp part)
       else case fuel of
         0 \<Rightarrow> None
       | Suc fewer \<Rightarrow>
         (case feed R r (sd_parser s) part of
            Inl _ \<Rightarrow> Some (read_rest w advance (finish_side R w Malformed rp) part)
          | Inr (r1, parser, pr) \<Rightarrow>
              let p1 = put_side w (s\<lparr>sd_parser := parser\<rparr>) p;
                  p2 = (if pt_gap part = GapNone then p1\<lparr>pa_examined := pa_examined p1 + pg_consumed pr\<rparr> else p1);
                  part' = part_tail part (pg_consumed pr);
                  p3 = advance (pg_consumed pr) p2
              in if pg_result pr = Refused then Some ((r1, p3), part', True)
                 else read_part fewer R w advance (read_progress R w pr (r1, p3)) part'))"

declare read_part.simps [simp del]

definition hold_part :: "'r reserver \<Rightarrow> direction \<Rightarrow> part \<Rightarrow> 'r \<times> pairing \<Rightarrow> bool \<times> ('r \<times> pairing)" where
  "hold_part R d part rp =
    (case rp of (r, p) \<Rightarrow>
       let charge = int (length (pt_bytes part));
           (ok, r1) = (if charge > 0 then Reserve R r (Charge charge 0) else (True, r));
           at = pa_directions p d
       in if \<not> ok then (False, (r1, p))
          else (True, (r1, put_direction d (at\<lparr>dr_held := dr_held at @ [\<lparr>hp_part = part, hp_charge = charge\<rparr>]\<rparr>) p)))"

definition advance_next :: "direction \<Rightarrow> nat \<Rightarrow> pairing \<Rightarrow> pairing" where
  "advance_next d n p = (let at = pa_directions p d in put_direction d (at\<lparr>dr_next := dr_next at + n\<rparr>) p)"

definition advance_held :: "direction \<Rightarrow> nat \<Rightarrow> pairing \<Rightarrow> pairing" where
  "advance_held d n p =
    (let at = pa_directions p d in
     case dr_held at of
       [] \<Rightarrow> p
     | h # hs \<Rightarrow> put_direction d (at\<lparr>dr_held := h\<lparr>hp_part := part_tail (hp_part h) n\<rparr> # hs\<rparr>) p)"

section \<open>Which side is which\<close>

definition clear_side :: "'r reserver \<Rightarrow> side_name \<Rightarrow> 'r \<times> pairing \<Rightarrow> 'r \<times> pairing" where
  "clear_side R w rp =
    (case rp of (r, p) \<Rightarrow>
       let s = side_at w p in stop_side R w (release_done R (sd_done s) r, put_side w (s\<lparr>sd_done := []\<rparr>) p))"

definition mark_unread :: "'r reserver \<Rightarrow> 'r \<times> pairing \<Rightarrow> 'r \<times> pairing" where
  "mark_unread R rp =
    (case rp of (r, p) \<Rightarrow>
       let rp1 = (r, p\<lparr>pa_unread := True, pa_decided := True, pa_role := RoleUnknown\<rparr>);
           rp2 = (if pa_routed p
                  then (case clear_side R Responses (clear_side R Requests rp1) of (r2, p2) \<Rightarrow> (r2, p2\<lparr>pa_methods := []\<rparr>))
                  else rp1)
       in drop_held R Received (drop_held R Sent (drop_held R Unknown rp2)))"

definition route :: "direction \<Rightarrow> pairing \<Rightarrow> pairing" where
  "route requests p =
    (let (responses, role) = (if requests = Sent then (Received, Client) else (Sent, Server)) in
     p\<lparr>pa_role := role, pa_routed := True,
       pa_requests := new_side requests Request (HTTP_limits (pa_limits p)),
       pa_responses := new_side responses Response (HTTP_limits (pa_limits p))\<rparr>)"

text \<open>What the switch of \<open>decide\<close> does with a connection not routed yet: nothing, route it, or give it up.\<close>

datatype routing = KeepWaiting | RouteBy direction | GiveUp

definition routing_of :: "beginning \<Rightarrow> beginning \<Rightarrow> routing" where
  "routing_of out inb =
    (if bg_certain out \<and> bg_what out = opensSomethingElse then GiveUp
     else if bg_certain out \<and> bg_what out = opensRequest \<or> bg_certain inb \<and> bg_what inb = opensResponse then RouteBy Sent
     else if bg_certain out \<and> bg_what out = opensResponse \<or> bg_certain inb \<and> bg_what inb = opensRequest
     then RouteBy Received
     else if bg_certain out \<and> bg_certain inb then GiveUp
     else KeepWaiting)"

definition settle_role :: "'r reserver \<Rightarrow> 'r \<times> pairing \<Rightarrow> 'r \<times> pairing" where
  "settle_role R rp =
    (let p = snd rp; out = dr_beginning (pa_directions p Sent); inb = dr_beginning (pa_directions p Received) in
     if bg_certain out \<and> bg_certain inb then
       if role_from (bg_what out) (bg_what inb) \<noteq> pa_role p then mark_unread R rp
       else (fst rp, p\<lparr>pa_decided := True\<rparr>)
     else rp)"

definition decide :: "'r reserver \<Rightarrow> 'r \<times> pairing \<Rightarrow> 'r \<times> pairing" where
  "decide R rp =
    (case rp of (r, p) \<Rightarrow>
       if pa_decided p then rp
       else if pa_routed p then settle_role R rp
       else case routing_of (dr_beginning (pa_directions p Sent)) (dr_beginning (pa_directions p Received)) of
         GiveUp \<Rightarrow> mark_unread R rp
       | RouteBy d \<Rightarrow> settle_role R (r, route d p)
       | KeepWaiting \<Rightarrow> rp)"

definition begin_bytes :: "direction \<Rightarrow> part \<Rightarrow> pairing \<Rightarrow> pairing" where
  "begin_bytes d part p =
    (let at = pa_directions p d in
     if pt_gap part \<noteq> GapNone then put_direction d (at\<lparr>dr_beginning := beginning_close (dr_beginning at)\<rparr>) p
     else case beginning_take (dr_beginning at) (pt_bytes part) of
       (n, b) \<Rightarrow> (put_direction d (at\<lparr>dr_beginning := b\<rparr>) p)\<lparr>pa_examined := pa_examined p + n\<rparr>)"

section \<open>Feeding\<close>

definition accept_held :: "'r reserver \<Rightarrow> direction \<Rightarrow> part \<Rightarrow> 'r \<times> pairing \<Rightarrow> ('r \<times> pairing) \<times> nat \<times> bool" where
  "accept_held R d part rp =
    (case hold_part R d part rp of
       (False, rp1) \<Rightarrow> (rp1, 0, True)
     | (True, (r1, p1)) \<Rightarrow>
         let p2 = advance_next d (pt_length part) p1 in
         (if \<not> bg_certain (dr_beginning (pa_directions p2 d)) then decide R (r1, begin_bytes d part p2) else (r1, p2),
          pt_length part, False))"

definition accept_read ::
    "'r reserver \<Rightarrow> direction \<Rightarrow> side_name \<Rightarrow> part \<Rightarrow> 'r \<times> pairing \<Rightarrow> (('r \<times> pairing) \<times> nat \<times> bool) option" where
  "accept_read R d w part rp =
    (case read_part (pt_length part) R w (advance_next d) rp part of
       None \<Rightarrow> None
     | Some (rp1, rest, refused) \<Rightarrow>
         if refused then Some (rp1, pt_length part - pt_length rest, True)
         else if pt_length rest > 0 then
           (case hold_part R d rest rp1 of
              (False, rp2) \<Rightarrow> Some (rp2, pt_length part - pt_length rest, True)
            | (True, (r2, p2)) \<Rightarrow> Some ((r2, advance_next d (pt_length rest) p2), pt_length part, False))
         else Some (rp1, pt_length part, False))"

definition accept ::
    "'r reserver \<Rightarrow> direction \<Rightarrow> part \<Rightarrow> 'r \<times> pairing \<Rightarrow> (('r \<times> pairing) \<times> nat \<times> bool) option" where
  "accept R d part rp =
    (case rp of (r, p) \<Rightarrow>
       case side_of p d of
         None \<Rightarrow> Some (accept_held R d part rp)
       | Some w \<Rightarrow>
           if sd_stopped (side_at w p) then Some ((r, advance_next d (pt_length part) p), pt_length part, False)
           else if \<not> readable p d \<or> dr_held (pa_directions p d) \<noteq> [] \<or> sd_waiting (side_at w p)
           then Some (accept_held R d part rp)
           else accept_read R d w part rp)"

text \<open>The bytes and holes held in a direction, which bound what \<open>pump\<close> has to read.\<close>

definition held_length :: "pairing \<Rightarrow> direction \<Rightarrow> nat" where
  "held_length p d = sum_list (map (\<lambda>h. pt_length (hp_part h)) (dr_held (pa_directions p d)))"

definition pop_held :: "'r reserver \<Rightarrow> direction \<Rightarrow> 'r \<times> pairing \<Rightarrow> 'r \<times> pairing" where
  "pop_held R d rp =
    (case rp of (r, p) \<Rightarrow>
       let at = pa_directions p d in
       case dr_held at of
         [] \<Rightarrow> (r, p)
       | h # hs \<Rightarrow>
           if pt_length (hp_part h) = 0
           then (pair_release R (Charge (hp_charge h) 0) r, put_direction d (at\<lparr>dr_held := hs\<rparr>) p) else (r, p))"

text \<open>The loop over one side's held input: the result says whether it read anything and whether growth was refused.\<close>

fun pump_side ::
    "nat \<Rightarrow> 'r reserver \<Rightarrow> side_name \<Rightarrow> 'r \<times> pairing \<Rightarrow> bool \<Rightarrow> (('r \<times> pairing) \<times> bool \<times> bool) option" where
  "pump_side fuel R w rp any_read =
    (let p = snd rp; s = side_at w p; d = sd_direction s in
     case dr_held (pa_directions p d) of
       [] \<Rightarrow> Some (rp, any_read, False)
     | h # hs \<Rightarrow>
         if \<not> readable p d \<or> sd_waiting s \<or> sd_stopped s \<or> pairing_stopped p then Some (rp, any_read, False)
         else case fuel of
           0 \<Rightarrow> None
         | Suc fewer \<Rightarrow>
             (case read_part (pt_length (hp_part h)) R w (advance_held d) rp (hp_part h) of
                None \<Rightarrow> None
              | Some (rp1, rest, refused) \<Rightarrow>
                  let rp2 = pop_held R d rp1 in
                  if refused then Some (rp2, True, True)
                  else pump_side fewer R w (pair_answer R rp2) True))"

declare pump_side.simps [simp del]

fun pump :: "nat \<Rightarrow> 'r reserver \<Rightarrow> 'r \<times> pairing \<Rightarrow> (('r \<times> pairing) \<times> bool) option" where
  "pump fuel R rp =
    (if \<not> pa_routed (snd rp) \<or> pairing_stopped (snd rp) then Some (rp, False)
     else case fuel of
       0 \<Rightarrow> None
     | Suc fewer \<Rightarrow>
         let rp1 = pair_answer R rp in
         (case pump_side (held_length (snd rp1) (sd_direction (pa_requests (snd rp1)))) R Requests rp1 False of
            None \<Rightarrow> None
          | Some (rp2, any_read, refused) \<Rightarrow>
              if refused then Some (rp2, True)
              else
                (case pump_side (held_length (snd rp2) (sd_direction (pa_responses (snd rp2)))) R Responses rp2 any_read of
                   None \<Rightarrow> None
                 | Some (rp3, any_read', refused') \<Rightarrow>
                     if refused' then Some (rp3, True)
                     else if any_read' then pump fewer R rp3 else Some (rp3, False))))"

declare pump.simps [simp del]

definition pump_all :: "'r reserver \<Rightarrow> 'r \<times> pairing \<Rightarrow> (('r \<times> pairing) \<times> bool) option" where
  "pump_all R rp = pump (held_length (snd rp) Sent + held_length (snd rp) Received + 1) R rp"

section \<open>Handing over\<close>

definition pop_side ::
    "json_decoder \<Rightarrow> side_name \<Rightarrow> pairing \<Rightarrow> ((shaped_message option \<times> charge) \<times> pairing) option" where
  "pop_side decode w p =
    (let s = side_at w p in
     case sd_done s of
       [] \<Rightarrow> Some ((None, 0), p)
     | f # fs \<Rightarrow>
         (case read_shape decode (fn_message f) (JSON_limits (pa_limits p)) of
            None \<Rightarrow> None
          | Some m \<Rightarrow>
              let p1 = put_side w (s\<lparr>sd_done := fs\<rparr>) p;
                  at = pa_directions p1 (sd_direction s)
              in Some ((Some m, fn_charge f), put_direction (sd_direction s) (at\<lparr>dr_settled := m_end (fn_message f)\<rparr>) p1)))"

definition pop_exchange :: "json_decoder \<Rightarrow> pairing \<Rightarrow> (exchange \<times> pairing) option" where
  "pop_exchange decode p =
    (case pop_side decode Requests p of
       None \<Rightarrow> None
     | Some ((request, c1), p1) \<Rightarrow>
         (case pop_side decode Responses p1 of
            None \<Rightarrow> None
          | Some ((response, c2), p2) \<Rightarrow>
              Some (\<lparr>ex_request = request, ex_response = response,
                     ex_complete = (whole_message request \<and> whole_message response), ex_charge = c1 + c2\<rparr>,
                    p2\<lparr>pa_methods := tl (pa_methods p2), pa_base := pa_base p2 + 1\<rparr>)))"

definition stop_pairing :: "'r reserver \<Rightarrow> 'r \<times> pairing \<Rightarrow> 'r \<times> pairing" where
  "stop_pairing R rp =
    stop_side R Responses (stop_side R Requests (fst rp, (snd rp)\<lparr>pa_stop := pa_why (snd rp)\<rparr>))"

text \<open>The loop of \<open>handOver\<close>; every round but the last takes a finished message from both sides.\<close>

fun hand_over_loop ::
    "nat \<Rightarrow> json_decoder \<Rightarrow> 'r reserver \<Rightarrow> 'r \<times> pairing \<Rightarrow> exchange list \<Rightarrow> (('r \<times> pairing) \<times> exchange list) option" where
  "hand_over_loop fuel decode R rp acc =
    (case rp of (r, p) \<Rightarrow>
       let requested = (sd_done (pa_requests p) \<noteq> []); replied = (sd_done (pa_responses p) \<noteq> []) in
       if pa_limit p \<ge> 0 \<and> int (pa_base p) = pa_limit p then
         if (requested \<or> sd_ended (pa_requests p)) \<and> (replied \<or> sd_ended (pa_responses p)) then
           (case pop_exchange decode p of
              None \<Rightarrow> None
            | Some (e, p1) \<Rightarrow> Some (stop_pairing R (r, p1), acc @ [e]))
         else Some (rp, acc)
       else if \<not> requested \<or> \<not> replied then Some (rp, acc)
       else case fuel of
         0 \<Rightarrow> None
       | Suc fewer \<Rightarrow>
           (case pop_exchange decode p of
              None \<Rightarrow> None
            | Some (e, p1) \<Rightarrow> hand_over_loop fewer decode R (r, p1) (acc @ [e])))"

declare hand_over_loop.simps [simp del]

definition hand_over_exchanges ::
    "json_decoder \<Rightarrow> 'r reserver \<Rightarrow> 'r \<times> pairing \<Rightarrow> (('r \<times> pairing) \<times> exchange list) option" where
  "hand_over_exchanges decode R rp =
    (if \<not> pa_decided (snd rp) \<or> pairing_stopped (snd rp) then Some (rp, [])
     else hand_over_loop (length (sd_done (pa_requests (snd rp)))) decode R rp [])"

section \<open>The calls\<close>

definition start_direction :: "direction \<Rightarrow> part \<Rightarrow> pairing \<Rightarrow> pairing" where
  "start_direction d part p =
    (let at = pa_directions p d in
     if dr_started at then p
     else put_direction d (at\<lparr>dr_started := True, dr_start := pt_offset part, dr_next := pt_offset part,
            dr_settled := pt_offset part, dr_beginning := new_beginning\<rparr>) p)"

definition pair_feed ::
    "json_decoder \<Rightarrow> 'r reserver \<Rightarrow> 'r \<times> pairing \<Rightarrow> direction \<Rightarrow> part \<Rightarrow>
      (pairing_error + ('r \<times> pairing) \<times> step) option" where
  "pair_feed decode R rp d part =
    (case pair_admit (snd rp) d part of
       Some e \<Rightarrow> Some (Inl e)
     | None \<Rightarrow>
         let p = start_direction d part (snd rp) in
         if pairing_stopped p then
           Some (Inr ((fst rp, advance_next d (pt_length part) p),
                      \<lparr>st_consumed = pt_length part, st_exchanges = [], st_result = pairing_result p\<rparr>))
         else case pump_all R (fst rp, p) of
           None \<Rightarrow> None
         | Some (rp1, True) \<Rightarrow> Some (Inr (rp1, \<lparr>st_consumed = 0, st_exchanges = [], st_result = Refused\<rparr>))
         | Some (rp1, False) \<Rightarrow>
             (case accept R d part rp1 of
                None \<Rightarrow> None
              | Some (rp2, consumed, True) \<Rightarrow>
                  Some (Inr (rp2, \<lparr>st_consumed = consumed, st_exchanges = [], st_result = Refused\<rparr>))
              | Some (rp2, consumed, False) \<Rightarrow>
                  (case pump_all R rp2 of
                     None \<Rightarrow> None
                   | Some (rp3, True) \<Rightarrow>
                       Some (Inr (rp3, \<lparr>st_consumed = consumed, st_exchanges = [], st_result = Refused\<rparr>))
                   | Some (rp3, False) \<Rightarrow>
                       (case hand_over_exchanges decode R rp3 of
                          None \<Rightarrow> None
                        | Some (rp4, exchanges) \<Rightarrow>
                            Some (Inr (rp4, \<lparr>st_consumed = consumed, st_exchanges = exchanges,
                              st_result = pairing_result (snd rp4)\<rparr>))))))"

definition end_step :: "result \<Rightarrow> step" where
  "end_step res = \<lparr>st_consumed = 0, st_exchanges = [], st_result = res\<rparr>"

definition end_direction :: "direction \<Rightarrow> pairing \<Rightarrow> pairing" where
  "end_direction d p =
    (let at = pa_directions p d;
         b = (if dr_started at then dr_beginning at
              else \<lparr>bg_n = 0, bg_prefix = False, bg_space = 0, bg_token = False, bg_what = opensNothing, bg_certain = True\<rparr>)
     in put_direction d (at\<lparr>dr_beginning := beginning_close b\<rparr>) p)"

definition end_side :: "'r reserver \<Rightarrow> side_name \<Rightarrow> 'r \<times> pairing \<Rightarrow> 'r \<times> pairing" where
  "end_side R w rp =
    (case rp of (r, p) \<Rightarrow>
       let s = side_at w p in
       if sd_ended s then (r, p)
       else if sd_stopped s then (r, put_side w (s\<lparr>sd_ended := True\<rparr>) p)
       else case end_parser R r (sd_parser s) of
         (r1, parser, pr) \<Rightarrow> finish_progress R w pr (r1, put_side w (s\<lparr>sd_ended := True, sd_parser := parser\<rparr>) p))"

fun end_answers :: "nat \<Rightarrow> 'r reserver \<Rightarrow> 'r \<times> pairing \<Rightarrow> (('r \<times> pairing) \<times> bool) option" where
  "end_answers fuel R rp =
    (case fuel of
       0 \<Rightarrow> None
     | Suc fewer \<Rightarrow>
         (case pump_all R (pair_answer R rp) of
            None \<Rightarrow> None
          | Some (rp1, True) \<Rightarrow> Some (rp1, True)
          | Some (rp1, False) \<Rightarrow>
              if \<not> sd_waiting (pa_responses (snd rp1)) \<or> sd_stopped (pa_responses (snd rp1)) then Some (rp1, False)
              else end_answers fewer R rp1))"

declare end_answers.simps [simp del]

fun end_hand_over ::
    "nat \<Rightarrow> json_decoder \<Rightarrow> 'r reserver \<Rightarrow> 'r \<times> pairing \<Rightarrow> exchange list \<Rightarrow> (('r \<times> pairing) \<times> exchange list) option" where
  "end_hand_over fuel decode R rp acc =
    (let p = snd rp in
     if pairing_stopped p \<or> sd_done (pa_requests p) = [] \<and> sd_done (pa_responses p) = [] then Some (rp, acc)
     else case fuel of
       0 \<Rightarrow> None
     | Suc fewer \<Rightarrow>
         (case pop_exchange decode p of
            None \<Rightarrow> None
          | Some (e, p1) \<Rightarrow>
              end_hand_over fewer decode R
                (if pa_limit p \<ge> 0 \<and> int (pa_base p) = pa_limit p then stop_pairing R (fst rp, p1) else (fst rp, p1))
                (acc @ [e])))"

declare end_hand_over.simps [simp del]

definition pair_end :: "json_decoder \<Rightarrow> 'r reserver \<Rightarrow> 'r \<times> pairing \<Rightarrow> (('r \<times> pairing) \<times> step) option" where
  "pair_end decode R rp =
    (case rp of (r, p) \<Rightarrow>
     if pa_ended p then Some (rp, end_step End)
     else if pairing_stopped p then Some ((r, p\<lparr>pa_ending := True, pa_ended := True\<rparr>), end_step End)
     else
       case decide R (r, end_direction Received (end_direction Sent (p\<lparr>pa_ending := True\<rparr>))) of
         (r1, p1) \<Rightarrow>
           if pa_unread p1 then Some ((r1, p1\<lparr>pa_ended := True\<rparr>), end_step End)
           else case pump_all R (r1, p1) of
             None \<Rightarrow> None
           | Some (rp2, True) \<Rightarrow> Some (rp2, end_step Refused)
           | Some (rp2, False) \<Rightarrow>
               (case end_answers 1 R (end_side R Requests rp2) of
                  None \<Rightarrow> None
                | Some (rp3, True) \<Rightarrow> Some (rp3, end_step Refused)
                | Some (rp3, False) \<Rightarrow>
                    let rp4 = end_side R Responses rp3 in
                    (case end_hand_over (length (sd_done (pa_requests (snd rp4))) + length (sd_done (pa_responses (snd rp4))))
                            decode R rp4 [] of
                       None \<Rightarrow> None
                     | Some ((r5, p5), exchanges) \<Rightarrow>
                         Some ((r5, p5\<lparr>pa_ended := True\<rparr>), (end_step End)\<lparr>st_exchanges := exchanges\<rparr>))))"

section \<open>What it reports\<close>

definition pair_role :: "pairing \<Rightarrow> role \<times> bool" where
  "pair_role p = (if \<not> pa_decided p then (RoleUnknown, False) else (pa_role p, True))"

definition pair_next :: "pairing \<Rightarrow> direction \<Rightarrow> nat \<times> bool" where
  "pair_next p d = (if d \<noteq> Sent \<and> d \<noteq> Received then (0, False) else (pair_position p d, dr_started (pa_directions p d)))"

definition held_charge :: "pairing \<Rightarrow> direction \<Rightarrow> charge" where
  "held_charge p d = sum_list (map (\<lambda>h. Charge (hp_charge h) 0) (dr_held (pa_directions p d)))"

definition side_charge :: "side \<Rightarrow> charge" where
  "side_charge s = (if sd_stopped s then 0 else retained (sd_parser s)) + sum_list (map fn_charge (sd_done s))"

definition pair_retained :: "pairing \<Rightarrow> charge" where
  "pair_retained p =
    held_charge p Unknown + held_charge p Sent + held_charge p Received
    + (if pa_routed p then side_charge (pa_requests p) + side_charge (pa_responses p) else 0)"

definition pair_unplaced :: "pairing \<Rightarrow> direction \<Rightarrow> nat" where
  "pair_unplaced p d =
    (if d \<noteq> Sent \<and> d \<noteq> Received \<or> \<not> pairing_stopped p \<and> \<not> pa_ended p then 0
     else sub64 (pair_position p d) (dr_settled (pa_directions p d)))"

end
