(* ===== verification/Pairing_Invariant.thy ===== *)
theory Pairing_Invariant
  imports Pairing
begin

text \<open>
  What holds of a pairing between calls.  Much of \<open>pairing.go\<close> only lets go: \<open>stopSide\<close>, \<open>setLimit\<close>,
  \<open>boundary\<close> and the ends of \<open>finish\<close> and \<open>handOver\<close> cut a side's finished messages back, stop it and
  drop its held input.  The relation \<open>trimmed\<close> says that this is all they do; everything a side has been
  shown to satisfy is then kept by proof of \<open>trimmed\<close> alone, and the operations that read are left with
  what the parser did.
\<close>

section \<open>Sides and directions\<close>

lemma side_at_put [simp]:
  "side_at w (put_side w' s p) = (if w = w' then s else side_at w p)"
  "pa_directions (put_side w s p) = pa_directions p"
  "side_at w (put_direction d at p) = side_at w p"
  "pa_directions (put_direction d at p) = (pa_directions p)(d := at)"
  by (cases w; cases w'; simp add: side_at_def put_side_def put_direction_def)+

lemma put_side_names [simp]:
  "pa_requests (put_side w s p) = (if w = Requests then s else pa_requests p)"
  "pa_responses (put_side w s p) = (if w = Responses then s else pa_responses p)"
  by (cases w; simp add: put_side_def)+

lemma side_at_names [simp]: "side_at Requests p = pa_requests p" "side_at Responses p = pa_responses p"
  by (simp_all add: side_at_def)

lemma side_at_update [simp]:
  "side_at w (p\<lparr>pa_methods := a\<rparr>) = side_at w p" "side_at w (p\<lparr>pa_limit := b\<rparr>) = side_at w p"
  "side_at w (p\<lparr>pa_why := c\<rparr>) = side_at w p" "side_at w (p\<lparr>pa_stop := c\<rparr>) = side_at w p"
  "side_at w (p\<lparr>pa_examined := e\<rparr>) = side_at w p" "side_at w (p\<lparr>pa_base := n\<rparr>) = side_at w p"
  "side_at w (p\<lparr>pa_unread := u\<rparr>) = side_at w p" "side_at w (p\<lparr>pa_decided := u\<rparr>) = side_at w p"
  "side_at w (p\<lparr>pa_role := ro\<rparr>) = side_at w p" "side_at w (p\<lparr>pa_ending := u\<rparr>) = side_at w p"
  "side_at w (p\<lparr>pa_ended := u\<rparr>) = side_at w p" "side_at w (p\<lparr>pa_directions := ds\<rparr>) = side_at w p"
  by (cases w; simp add: side_at_def)+

text \<open>The fields nothing that lets go touches.\<close>

definition frame_of ::
    "pairing \<Rightarrow> reconstruct_limits \<times> bool \<times> bool \<times> bool \<times> role \<times> nat \<times> result \<times> bool \<times> bool" where
  "frame_of p =
    (pa_limits p, pa_routed p, pa_decided p, pa_unread p, pa_role p, pa_base p, pa_stop p, pa_ending p, pa_ended p)"

lemma frame_of_put [simp]:
  "frame_of (put_side w s p) = frame_of p" "frame_of (put_direction d at p) = frame_of p"
  "frame_of (p\<lparr>pa_methods := a\<rparr>) = frame_of p" "frame_of (p\<lparr>pa_limit := b\<rparr>) = frame_of p"
  "frame_of (p\<lparr>pa_why := c\<rparr>) = frame_of p" "frame_of (p\<lparr>pa_requests := s\<rparr>) = frame_of p"
  "frame_of (p\<lparr>pa_responses := s\<rparr>) = frame_of p" "frame_of (p\<lparr>pa_examined := e\<rparr>) = frame_of p"
  by (cases w; simp add: frame_of_def put_side_def put_direction_def)+

lemma frame_ofD:
  assumes "frame_of p' = frame_of p"
  shows "pa_limits p' = pa_limits p" "pa_routed p' = pa_routed p" "pa_decided p' = pa_decided p"
    "pa_unread p' = pa_unread p" "pa_role p' = pa_role p" "pa_base p' = pa_base p" "pa_stop p' = pa_stop p"
    "pa_ending p' = pa_ending p" "pa_ended p' = pa_ended p"
  using assms by (simp_all add: frame_of_def)

lemma base_put [simp]: "pa_base (put_side w s p) = pa_base p" "pa_base (put_direction d at p) = pa_base p"
  using frame_ofD(6) [OF frame_of_put(1)] frame_ofD(6) [OF frame_of_put(2)] by auto

definition view :: "side_name \<Rightarrow> pairing \<Rightarrow> side \<times> pair_direction" where
  "view w p = (side_at w p, pa_directions p (sd_direction (side_at w p)))"

definition apart :: "pairing \<Rightarrow> bool" where
  "apart p \<longleftrightarrow> sd_direction (pa_requests p) \<noteq> sd_direction (pa_responses p)"

lemma apartD: "apart p \<Longrightarrow> w \<noteq> w' \<Longrightarrow> sd_direction (side_at w p) \<noteq> sd_direction (side_at w' p)"
  by (cases w; cases w') (auto simp: apart_def)

section \<open>Letting go\<close>

definition trimmed_view :: "side \<times> pair_direction \<Rightarrow> side \<times> pair_direction \<Rightarrow> bool" where
  "trimmed_view v v' \<longleftrightarrow>
     sd_direction (fst v') = sd_direction (fst v) \<and> sd_parser (fst v') = sd_parser (fst v)
   \<and> sd_ended (fst v') = sd_ended (fst v) \<and> (\<exists>k. sd_done (fst v') = take k (sd_done (fst v)))
   \<and> (snd v' = snd v \<or> snd v' = (snd v)\<lparr>dr_held := []\<rparr>)
   \<and> (if sd_stopped (fst v') then sd_stopped (fst v) \<and> snd v' = snd v \<or> snd v' = (snd v)\<lparr>dr_held := []\<rparr>
      else \<not> sd_stopped (fst v) \<and> sd_done (fst v') = sd_done (fst v) \<and> sd_waiting (fst v') = sd_waiting (fst v)
        \<and> snd v' = snd v)"

definition trimmed :: "pairing \<Rightarrow> pairing \<Rightarrow> bool" where
  "trimmed p p' \<longleftrightarrow>
     frame_of p' = frame_of p \<and> (\<forall>w. trimmed_view (view w p) (view w p'))
   \<and> (\<forall>d. (\<forall>w. sd_direction (side_at w p) \<noteq> d) \<longrightarrow> pa_directions p' d = pa_directions p d)"

lemma trimmed_view_refl [simp]: "trimmed_view v v"
  by (auto simp: trimmed_view_def intro: exI [of _ "length (sd_done (fst v))"])

lemma trimmed_viewD:
  assumes "trimmed_view v v'"
  shows "sd_direction (fst v') = sd_direction (fst v)" "sd_parser (fst v') = sd_parser (fst v)"
    "sd_ended (fst v') = sd_ended (fst v)" "\<exists>k. sd_done (fst v') = take k (sd_done (fst v))"
    "snd v' = snd v \<or> snd v' = (snd v)\<lparr>dr_held := []\<rparr>"
    "sd_stopped (fst v') \<Longrightarrow> sd_stopped (fst v) \<and> snd v' = snd v \<or> snd v' = (snd v)\<lparr>dr_held := []\<rparr>"
    "\<not> sd_stopped (fst v') \<Longrightarrow>
      \<not> sd_stopped (fst v) \<and> sd_done (fst v') = sd_done (fst v) \<and> sd_waiting (fst v') = sd_waiting (fst v) \<and> snd v' = snd v"
  using assms unfolding trimmed_view_def by presburger+

lemma trimmed_viewI:
  assumes "sd_direction (fst v') = sd_direction (fst v)" "sd_parser (fst v') = sd_parser (fst v)"
    "sd_ended (fst v') = sd_ended (fst v)" "sd_done (fst v') = take k (sd_done (fst v))"
    "sd_stopped (fst v') \<Longrightarrow> sd_stopped (fst v) \<and> snd v' = snd v \<or> snd v' = (snd v)\<lparr>dr_held := []\<rparr>"
    "\<not> sd_stopped (fst v') \<Longrightarrow>
      \<not> sd_stopped (fst v) \<and> sd_done (fst v') = sd_done (fst v) \<and> sd_waiting (fst v') = sd_waiting (fst v) \<and> snd v' = snd v"
  shows "trimmed_view v v'"
proof (cases "sd_stopped (fst v')")
  case True
  from assms(1-4) assms(5) [OF True] show ?thesis unfolding trimmed_view_def if_P [OF True] by blast
next
  case False
  from assms(1-4) assms(6) [OF False] show ?thesis unfolding trimmed_view_def if_not_P [OF False] by blast
qed

lemma trimmed_view_trans:
  assumes uv: "trimmed_view u v" and vw: "trimmed_view v w"
  shows "trimmed_view u w"
proof -
  note a = trimmed_viewD [OF uv] and b = trimmed_viewD [OF vw]
  from a(4) b(4) obtain j k where "sd_done (fst v) = take j (sd_done (fst u))" "sd_done (fst w) = take k (sd_done (fst v))"
    by blast
  then have d: "sd_done (fst w) = take (min k j) (sd_done (fst u))" by simp
  show ?thesis
  proof (rule trimmed_viewI [OF _ _ _ d])
    assume w: "sd_stopped (fst w)"
    from b(6) [OF w] show "sd_stopped (fst u) \<and> snd w = snd u \<or> snd w = (snd u)\<lparr>dr_held := []\<rparr>"
    proof
      assume v: "sd_stopped (fst v) \<and> snd w = snd v"
      with a(6) show ?thesis by simp
    next
      assume "snd w = (snd v)\<lparr>dr_held := []\<rparr>"
      with a(5) show ?thesis by (elim disjE) simp_all
    qed
  next
    assume w: "\<not> sd_stopped (fst w)"
    from a(7) b(7) [OF w]
    show "\<not> sd_stopped (fst u) \<and> sd_done (fst w) = sd_done (fst u) \<and> sd_waiting (fst w) = sd_waiting (fst u) \<and> snd w = snd u"
      by simp
  qed (simp_all only: a(1-3) b(1-3))
qed

lemma trimmed_refl [simp]: "trimmed p p"
  by (simp add: trimmed_def)

lemma trimmedD:
  assumes "trimmed p p'"
  shows "frame_of p' = frame_of p" "trimmed_view (view w p) (view w p')"
    "(\<And>w. sd_direction (side_at w p) \<noteq> d) \<Longrightarrow> pa_directions p' d = pa_directions p d"
    "sd_direction (side_at w p') = sd_direction (side_at w p)"
proof -
  show s: "trimmed_view (view w p) (view w p')" using assms by (simp add: trimmed_def)
  then show "sd_direction (side_at w p') = sd_direction (side_at w p)" by (simp add: trimmed_view_def view_def)
qed (use assms in \<open>simp_all add: trimmed_def\<close>)

lemma trimmed_trans: "trimmed p p1 \<Longrightarrow> trimmed p1 p2 \<Longrightarrow> trimmed p p2"
proof -
  assume a: "trimmed p p1" and b: "trimmed p1 p2"
  show ?thesis
    unfolding trimmed_def
  proof (intro conjI allI impI)
    show "frame_of p2 = frame_of p" using trimmedD(1) [OF a] trimmedD(1) [OF b] by simp
    show "trimmed_view (view w p) (view w p2)" for w
      by (rule trimmed_view_trans [OF trimmedD(2) [OF a] trimmedD(2) [OF b]])
    show "pa_directions p2 d = pa_directions p d" if "\<forall>w. sd_direction (side_at w p) \<noteq> d" for d
      using trimmedD(3) [OF a, of d] trimmedD(3) [OF b, of d] trimmedD(4) [OF a] that by simp
  qed
qed

lemma trimmed_apart: "trimmed p p' \<Longrightarrow> apart p' = apart p"
  using trimmedD(4) [of p p' Requests] trimmedD(4) [of p p' Responses] by (simp add: apart_def)

lemma stop_side_views:
  assumes "apart p"
  shows "view w' (snd (stop_side R w (r, p))) =
    (if w' = w \<and> \<not> sd_stopped (side_at w p)
     then ((side_at w p)\<lparr>sd_stopped := True, sd_waiting := False\<rparr>, (snd (view w p))\<lparr>dr_held := []\<rparr>)
     else view w' p)"
  using apartD [OF assms, of w' w] by (auto simp: stop_side_def drop_held_def view_def Let_def)

lemma stop_side_trimmed: "apart p \<Longrightarrow> trimmed p (snd (stop_side R w (r, p)))"
  unfolding trimmed_def
proof (intro conjI allI impI)
  fix w' assume "apart p"
  then show "trimmed_view (view w' p) (view w' (snd (stop_side R w (r, p))))"
    by (auto simp: stop_side_views) (auto simp: trimmed_view_def view_def intro: exI [of _ "length (sd_done (side_at w p))"])
next
  fix d assume "\<forall>w. sd_direction (side_at w p) \<noteq> d"
  then show "pa_directions (snd (stop_side R w (r, p))) d = pa_directions p d"
    by (auto simp: stop_side_def drop_held_def Let_def)
qed (simp add: stop_side_def drop_held_def Let_def)

lemma limit_side_trimmed:
  assumes "apart p" "pa_base p \<le> i" "keep = i - pa_base p + 1"
  shows "trimmed p (snd (limit_side R i keep w (r, p)))"
proof (cases "length (sd_done (side_at w p)) > keep")
  case False
  then show ?thesis using assms(1) by (auto simp: limit_side_def Let_def intro: stop_side_trimmed)
next
  case True
  let ?p = "put_side w ((side_at w p)\<lparr>sd_done := take keep (sd_done (side_at w p))\<rparr>) p"
  let ?r = "release_done R (drop keep (sd_done (side_at w p))) r"
  have ap: "apart ?p" using assms(1) by (cases w) (auto simp: apart_def put_side_def)
  have eq: "limit_side R i keep w (r, p) = stop_side R w (?r, ?p)"
    using True assms(2,3) by (simp add: limit_side_def Let_def)
  show ?thesis
    unfolding trimmed_def eq
  proof (intro conjI allI impI)
    fix w'
    show "trimmed_view (view w' p) (view w' (snd (stop_side R w (?r, ?p))))"
      unfolding stop_side_views [OF ap] by (auto simp: trimmed_view_def view_def intro: exI [of _ keep] exI [of _ "length (sd_done (side_at w' p))"])
  next
    fix d assume "\<forall>w. sd_direction (side_at w p) \<noteq> d"
    then show "pa_directions (snd (stop_side R w (?r, ?p))) d = pa_directions p d"
      by (auto simp: stop_side_def drop_held_def Let_def)
  qed (simp add: stop_side_def drop_held_def Let_def)
qed

lemma trimmed_update [simp]:
  "trimmed p (q\<lparr>pa_methods := a\<rparr>) = trimmed p q" "trimmed p (q\<lparr>pa_limit := b\<rparr>) = trimmed p q" "trimmed p (q\<lparr>pa_why := c\<rparr>) = trimmed p q"
  by (simp_all add: trimmed_def view_def)

lemma set_limit_trimmed:
  assumes "apart p" "pa_base p \<le> i"
  shows "trimmed p (snd (set_limit R i why request (r, p)))"
proof (cases "pa_limit p \<ge> 0 \<and> (int i > pa_limit p \<or> int i = pa_limit p \<and> \<not> request)")
  case False
  let ?p = "p\<lparr>pa_limit := int i, pa_why := why\<rparr>" and ?keep = "i - pa_base p + 1"
  obtain r1 p1 where s1: "limit_side R i ?keep Requests (r, ?p) = (r1, p1)" by fastforce
  obtain r2 p2 where s2: "limit_side R i ?keep Responses (r1, p1) = (r2, p2)" by fastforce
  have "apart ?p" using assms(1) by (simp add: apart_def)
  with limit_side_trimmed [of ?p i ?keep R Requests r] assms s1 have c1: "trimmed ?p p1" by simp
  then have "apart p1" "pa_base p1 = pa_base p"
    using assms(1) trimmed_apart [OF c1] frame_ofD(6) [OF trimmedD(1) [OF c1]] by (simp_all add: apart_def)
  with limit_side_trimmed [of p1 i ?keep R Responses r1] assms s2 have c2: "trimmed p1 p2" by simp
  from trimmed_trans [OF c1 c2] have "trimmed p p2"
    by (simp add: trimmed_def view_def)
  with False s1 s2 show ?thesis by (auto simp: set_limit_def)
qed (simp add: set_limit_def)

lemma boundary_trimmed:
  assumes "apart p" "pa_base p \<le> i"
  shows "trimmed p (snd (boundary R i m request (r, p)))"
  by (simp add: boundary_def set_limit_trimmed [OF assms])

lemma trimmed_head_seen [simp]:
  "trimmed p (q\<lparr>pa_requests := (pa_requests q)\<lparr>sd_head_seen := b\<rparr>\<rparr>) = trimmed p q"
proof -
  let ?q = "q\<lparr>pa_requests := (pa_requests q)\<lparr>sd_head_seen := b\<rparr>\<rparr>"
  have "trimmed_view v (view w ?q) = trimmed_view v (view w q)" for v w
    by (cases w) (simp_all add: trimmed_view_def view_def)
  then show ?thesis by (simp add: trimmed_def)
qed

lemma trimmed_base: "trimmed p q \<Longrightarrow> pa_base q = pa_base p"
  using frame_ofD(6) [OF trimmedD(1)] .

lemma trimmed_pair: "trimmed p (snd rp) \<Longrightarrow> (\<And>r q. trimmed p q \<Longrightarrow> trimmed p (snd (f (r, q)))) \<Longrightarrow> trimmed p (snd (f rp))"
  by (cases rp) simp

text \<open>One more operation that lets go.\<close>

lemma stop_side_again: "apart p \<Longrightarrow> trimmed p q \<Longrightarrow> trimmed p (snd (stop_side R w (r, q)))"
  using trimmed_trans [OF _ stop_side_trimmed] by (simp add: trimmed_apart)

lemma set_limit_again:
  assumes "apart p" "pa_base p \<le> i" "trimmed p q"
  shows "trimmed p (snd (set_limit R i why request (r, q)))"
  by (rule trimmed_trans [OF assms(3) set_limit_trimmed]) (use assms in \<open>simp_all add: trimmed_apart trimmed_base\<close>)

lemma boundary_again: "apart p \<Longrightarrow> pa_base p \<le> i \<Longrightarrow> trimmed p q \<Longrightarrow> trimmed p (snd (boundary R i m request (r, q)))"
  by (simp add: boundary_def set_limit_again)

lemma finish_request_again:
  assumes "apart p" "pa_base p \<le> i" "trimmed p q"
  shows "trimmed p (snd (finish_request R i m (r, q)))"
  using boundary_again [OF assms(1,2), of "q\<lparr>pa_methods := pa_methods q @ [m_method m]\<rparr>" R m True r] assms(3)
  by (simp add: finish_request_def split_beta)

text \<open>A side with a message more finished.\<close>

definition with_done :: "side_name \<Rightarrow> finished list \<Rightarrow> pairing \<Rightarrow> pairing" where
  "with_done w fs p = put_side w ((side_at w p)\<lparr>sd_done := sd_done (side_at w p) @ fs\<rparr>) p"

lemma with_done_none [simp]: "with_done w [] p = p"
  by (cases w) (simp_all add: with_done_def put_side_def)

lemma apart_put: "sd_direction s = sd_direction (side_at w p) \<Longrightarrow> apart (put_side w s p) = apart p"
  by (cases w) (auto simp: apart_def put_side_def)

lemma finish_trimmed:
  assumes "apart p"
  shows "trimmed (with_done w [\<lparr>fn_message = m, fn_charge = c\<rparr>] p) (snd (finish R w m c res (r, p)))"
proof -
  let ?q = "with_done w [\<lparr>fn_message = m, fn_charge = c\<rparr>] p" and ?i = "pa_base p + length (sd_done (side_at w p))"
  have q: "apart ?q" "pa_base ?q \<le> ?i" using assms by (simp_all add: with_done_def apart_put)
  define rp2 where "rp2 = (if w = Requests then finish_request R ?i m (r, ?q) else (r, ?q))"
  define rp3 where "rp3 = (if result_stopped res then set_limit R ?i res (w = Requests) rp2 else rp2)"
  have "trimmed ?q (snd rp2)" using finish_request_again [OF q trimmed_refl, of R m r] by (cases w) (simp_all add: rp2_def)
  then have "trimmed ?q (snd rp3)"
    unfolding rp3_def by (cases rp2) (auto intro: set_limit_again [OF q])
  then have "trimmed ?q (snd (stop_side R w rp3))"
    by (cases rp3) (auto intro: stop_side_again [OF q(1)])
  moreover have "finish R w m c res (r, p) = (if pa_limit (snd rp3) \<ge> 0 \<and> int ?i \<ge> pa_limit (snd rp3) then stop_side R w rp3 else rp3)"
    unfolding finish_def rp3_def rp2_def with_done_def Let_def split_conv by (rule refl)
  ultimately show ?thesis using \<open>trimmed ?q (snd rp3)\<close> by simp
qed

lemma finish_side_trimmed: "apart p \<Longrightarrow> trimmed p (snd (finish_side R w why (r, p)))"
  unfolding finish_side_def
  by (simp, rule trimmed_pair [OF set_limit_trimmed], simp_all add: stop_side_again)

lemma pair_head_requests_trimmed: "apart p \<Longrightarrow> trimmed p (snd (pair_head R Requests m (r, p)))"
proof -
  assume a: "apart p"
  let ?q = "p\<lparr>pa_methods := pa_methods p @ [m_method m], pa_requests := (pa_requests p)\<lparr>sd_head_seen := True\<rparr>\<rparr>"
  have "trimmed p ?q" using trimmed_head_seen [where p = p and q = "p\<lparr>pa_methods := pa_methods p @ [m_method m]\<rparr>" and b = True] by simp
  from boundary_again [OF a _ this, of "pa_base p + length (sd_done (pa_requests p))"] show ?thesis
    by (simp add: pair_head_def)
qed

section \<open>What a side satisfies\<close>

text \<open>Where reading of a direction goes on: at the first held part, or at the next one.\<close>

definition front :: "pair_direction \<Rightarrow> nat" where
  "front at = (case dr_held at of [] \<Rightarrow> dr_next at | h # _ \<Rightarrow> pt_offset (hp_part h))"

definition direction_ok :: "pair_direction \<Rightarrow> bool" where
  "direction_ok at \<longleftrightarrow>
     tiles (front at) (map hp_part (dr_held at)) (dr_next at) \<and> dr_start at \<le> front at \<and> dr_next at < two64
   \<and> (\<forall>h\<in>set (dr_held at). 0 \<le> hp_charge h \<and> (0 < pt_length (hp_part h) \<longrightarrow> part_validate (hp_part h) = None))
   \<and> (\<not> dr_started at \<longrightarrow> dr_held at = [] \<and> dr_start at = 0 \<and> dr_next at = 0 \<and> dr_settled at = 0)"

definition side_history :: "message list \<Rightarrow> side \<Rightarrow> message list" where
  "side_history g s = g @ map fn_message (sd_done s)"

definition side_inv :: "kind \<Rightarrow> limits \<Rightarrow> message list \<Rightarrow> side \<times> pair_direction \<Rightarrow> bool" where
  "side_inv k L g v \<longleftrightarrow>
    (case v of (s, at) \<Rightarrow>
       let H = side_history g s; parser = sd_parser s in
       direction_ok at \<and> contiguous H \<and> (\<forall>m\<in>set (butlast H). m_framed m)
     \<and> (\<forall>m\<in>set H. message_valid k (or_defaults L) m)
     \<and> (H \<noteq> [] \<longrightarrow> dr_started at \<and> m_offset (hd H) = dr_start at \<and> m_end (last H) \<le> dr_next at)
     \<and> dr_settled at = (if g = [] then dr_start at else m_end (last g))
     \<and> (\<forall>f\<in>set (sd_done s). nonneg_charge (fn_charge f))
     \<and> (ps_started parser \<longrightarrow> dr_started at \<and> ps_next parser \<le> dr_next at)
     \<and> (if sd_stopped s then dr_held at = []
        else history_ok k L parser H \<and> (ps_ended parser \<longrightarrow> sd_ended s)
          \<and> (if ps_started parser then ps_next parser = front at \<and> begins_at (dr_start at) H parser
             else H = [] \<and> front at = dr_start at)))"

lemma contiguous_prefix: "contiguous (xs @ ys) \<Longrightarrow> contiguous xs"
  by (induction ys rule: rev_induct) (simp_all add: contiguous_snoc flip: append_assoc)

lemma contiguous_end:
  assumes "contiguous ms" "\<forall>m\<in>set ms. m_offset m \<le> m_end m" "m \<in> set ms"
  shows "m_end m \<le> m_end (last ms)"
  using assms
proof (induction ms arbitrary: m rule: rev_induct)
  case (snoc x xs)
  have "contiguous xs" "xs \<noteq> [] \<Longrightarrow> m_end (last xs) = m_offset x" "m_offset x \<le> m_end x"
    using snoc.prems(1,2) by (simp_all add: contiguous_snoc)
  with snoc.IH [of m] snoc.prems(2,3) show ?case
    by (cases "m = x"; cases "xs = []") auto
qed simp

lemma message_valid_extent: "message_valid k L m \<Longrightarrow> m_offset m \<le> m_end m"
  by (auto simp: message_valid_def delivered_def)

lemma history_prefix_ok:
  assumes "contiguous (xs @ ys)" "\<forall>m\<in>set (butlast (xs @ ys)). m_framed m" "\<forall>m\<in>set (xs @ ys). message_valid k L m"
  shows "contiguous xs" "\<forall>m\<in>set (butlast xs). m_framed m" "\<forall>m\<in>set xs. message_valid k L m"
    "xs \<noteq> [] \<Longrightarrow> m_offset (hd xs) = m_offset (hd (xs @ ys)) \<and> m_end (last xs) \<le> m_end (last (xs @ ys))"
proof -
  show "contiguous xs" using assms(1) by (rule contiguous_prefix)
  show "\<forall>m\<in>set (butlast xs). m_framed m"
    using assms(2) by (simp add: butlast_append split: if_splits) (auto dest: in_set_butlastD)
  show "\<forall>m\<in>set xs. message_valid k L m" using assms(3) by simp
  show "xs \<noteq> [] \<Longrightarrow> m_offset (hd xs) = m_offset (hd (xs @ ys)) \<and> m_end (last xs) \<le> m_end (last (xs @ ys))"
  proof -
    assume ne: "xs \<noteq> []"
    have "last xs \<in> set (xs @ ys)" using ne by simp
    then have "m_end (last xs) \<le> m_end (last (xs @ ys))"
      by (rule contiguous_end [OF assms(1), rotated]) (use assms(3) message_valid_extent in blast)
    then show ?thesis using ne by simp
  qed
qed

lemma direction_ok_drop: "direction_ok at \<Longrightarrow> direction_ok (at\<lparr>dr_held := []\<rparr>)"
  using tiles_le by (fastforce simp: direction_ok_def front_def)

lemma side_inv_trimmed:
  assumes inv: "side_inv k L g v" and t: "trimmed_view v v'"
  shows "side_inv k L g v'"
proof -
  obtain s at where v: "v = (s, at)" by (cases v)
  obtain s' at' where v': "v' = (s', at')" by (cases v')
  note t = trimmed_viewD [OF t, unfolded v v' fst_conv snd_conv]
  note inv = inv [unfolded side_inv_def v split_conv Let_def]
  show ?thesis
  proof (cases "sd_stopped s'")
    case False
    note same = t(7) [OF False]
    then have "side_history g s' = side_history g s" by (simp add: side_history_def)
    with inv same t(2,3) False show ?thesis unfolding side_inv_def v' split_conv Let_def by (auto split: if_splits)
  next
    case True
    obtain i where "sd_done s' = take i (sd_done s)" using t(4) by blast
    then have "side_history g s = side_history g s' @ map fn_message (drop i (sd_done s))"
      by (simp add: side_history_def flip: map_append)
    moreover have "contiguous (side_history g s)" "\<forall>m\<in>set (butlast (side_history g s)). m_framed m"
      "\<forall>m\<in>set (side_history g s). message_valid k (or_defaults L) m" using inv by blast+
    ultimately have H: "contiguous (side_history g s')" "\<forall>m\<in>set (butlast (side_history g s')). m_framed m"
      "\<forall>m\<in>set (side_history g s'). message_valid k (or_defaults L) m"
      "side_history g s' \<noteq> [] \<Longrightarrow> side_history g s \<noteq> [] \<and> m_offset (hd (side_history g s')) = m_offset (hd (side_history g s))
        \<and> m_end (last (side_history g s')) \<le> m_end (last (side_history g s))"
      using history_prefix_ok [of "side_history g s'" "map fn_message (drop i (sd_done s))" k "or_defaults L"] by auto
    have at: "direction_ok at'" "dr_started at' = dr_started at" "dr_start at' = dr_start at" "dr_next at' = dr_next at"
        "dr_settled at' = dr_settled at" "dr_held at' = []"
      using inv t(6) [OF True] by (auto simp: direction_ok_drop)
    have "\<forall>f\<in>set (sd_done s'). nonneg_charge (fn_charge f)"
      using inv \<open>sd_done s' = take i (sd_done s)\<close> by (auto dest: in_set_takeD)
    then show ?thesis
      unfolding side_inv_def v' split_conv Let_def using H at inv t(2) True by auto
  qed
qed

lemma side_invD:
  assumes "side_inv k L g (s, at)"
  shows "direction_ok at" "contiguous (side_history g s)" "\<forall>m\<in>set (butlast (side_history g s)). m_framed m"
    "\<forall>m\<in>set (side_history g s). message_valid k (or_defaults L) m"
    "side_history g s \<noteq> [] \<Longrightarrow>
      dr_started at \<and> m_offset (hd (side_history g s)) = dr_start at \<and> m_end (last (side_history g s)) \<le> dr_next at"
    "dr_settled at = (if g = [] then dr_start at else m_end (last g))"
    "\<forall>f\<in>set (sd_done s). nonneg_charge (fn_charge f)"
    "ps_started (sd_parser s) \<Longrightarrow> dr_started at \<and> ps_next (sd_parser s) \<le> dr_next at"
    "sd_stopped s \<Longrightarrow> dr_held at = []"
    "\<not> sd_stopped s \<Longrightarrow> history_ok k L (sd_parser s) (side_history g s)"
    "\<not> sd_stopped s \<Longrightarrow> ps_ended (sd_parser s) \<Longrightarrow> sd_ended s"
    "\<not> sd_stopped s \<Longrightarrow> ps_started (sd_parser s) \<Longrightarrow>
      ps_next (sd_parser s) = front at \<and> begins_at (dr_start at) (side_history g s) (sd_parser s)"
    "\<not> sd_stopped s \<Longrightarrow> \<not> ps_started (sd_parser s) \<Longrightarrow> side_history g s = [] \<and> front at = dr_start at"
  using assms unfolding side_inv_def split_conv Let_def by presburger+

lemma direction_okD:
  assumes "direction_ok at"
  shows "tiles (front at) (map hp_part (dr_held at)) (dr_next at)" "dr_start at \<le> front at" "dr_next at < two64"
    "\<And>h. h \<in> set (dr_held at) \<Longrightarrow> 0 \<le> hp_charge h"
    "\<And>h. h \<in> set (dr_held at) \<Longrightarrow> 0 < pt_length (hp_part h) \<Longrightarrow> part_validate (hp_part h) = None"
    "\<not> dr_started at \<Longrightarrow> dr_held at = [] \<and> dr_start at = 0 \<and> dr_next at = 0 \<and> dr_settled at = 0"
    "front at \<le> dr_next at"
  using assms tiles_le unfolding direction_ok_def by blast+

text \<open>A side whose parser made a step, with the messages it handed over finished.\<close>

lemma side_event:
  assumes inv: "side_inv k L g (s, at)"
    and s': "sd_parser s' = parser'" "sd_done s' = sd_done s @ fs" "\<not> sd_stopped s'" "ps_ended parser' \<Longrightarrow> sd_ended s'"
    and h: "history_ok k L parser' (side_history g s')" and fs: "\<forall>f\<in>set fs. nonneg_charge (fn_charge f)"
    and at': "direction_ok at'" "dr_start at' = dr_start at" "dr_settled at' = dr_settled at" "dr_started at'"
    and p': "ps_started parser'" "ps_next parser' = front at'" "begins_at (dr_start at') (side_history g s') parser'"
  shows "side_inv k L g (s', at')"
proof -
  have le: "front at' \<le> dr_next at'" by (rule direction_okD(7) [OF at'(1)])
  have "m_offset (hd (side_history g s')) = dr_start at' \<and> m_end (last (side_history g s')) \<le> dr_next at'"
    if "side_history g s' \<noteq> []"
    using that h p'(2,3) le by (auto simp: history_ok_def begins_at_def parser_wf_def)
  then show ?thesis
    unfolding side_inv_def split_conv Let_def
    using h side_invD(6,7) [OF inv] at' p' s' fs le by (auto simp: history_ok_def)
qed

lemma feed_event:
  assumes inv: "side_inv k L g (s, at)" "\<not> sd_stopped s" and fed: "feed R r (sd_parser s) part = Inr (r', parser', pr)"
    and part: "pt_offset part = front at"
  shows "history_ok k L parser' (side_history g s @ handed pr)" "ps_started parser'" "\<not> ps_ended parser'"
    "ps_next parser' = front at + pg_consumed pr" "pg_consumed pr \<le> pt_length part"
    "begins_at (dr_start at) (side_history g s @ handed pr) parser'" "nonneg_charge (pg_charge pr)"
    "pg_result pr \<notin> {Framed, Malformed, Limit, Unsupported, Cut} \<Longrightarrow> pg_charge pr = 0"
    "pg_result pr \<in> {Framed, Malformed, Limit, Unsupported, Cut} \<Longrightarrow> pg_message pr = None \<Longrightarrow> pg_charge pr = 0"
    "pg_result pr \<notin> {Framed, Malformed, Limit, Unsupported, Cut} \<Longrightarrow> handed pr = []"
    "pg_result pr = Head \<Longrightarrow> \<exists>m. pg_message pr = Some m"
proof -
  let ?p = "sd_parser s" and ?H = "side_history g s"
  note h = side_invD(10) [OF inv]
  have wf: "parser_wf ?p" using h by (simp add: history_ok_def)
  show "history_ok k L parser' (?H @ handed pr)" by (rule history_fed [OF h fed])
  from fed have ad: "admit ?p part = None" by (cases "admit ?p part") (auto simp: feed_def)
  note o = opened_wf [OF wf ad]
  have begun: "begins_at (dr_start at) ?H (opened ?p part)"
    using side_invD(12,13) [OF inv] part by (auto simp: opened_def begins_at_def)
  note w = feed_wf [OF wf fed]
  have "ps_started parser' \<and> \<not> ps_ended parser' \<and> ps_next parser' = front at + pg_consumed pr \<and> pg_consumed pr \<le> pt_length part
    \<and> begins_at (dr_start at) (?H @ handed pr) parser' \<and> nonneg_charge (pg_charge pr)
    \<and> (pg_result pr \<notin> {Framed, Malformed, Limit, Unsupported, Cut} \<longrightarrow> pg_charge pr = 0 \<and> handed pr = [])
    \<and> (pg_message pr = None \<longrightarrow> pg_charge pr = 0) \<and> (pg_result pr = Head \<longrightarrow> (\<exists>m. pg_message pr = Some m))"
  proof (cases "ps_stop ?p = NeedInput")
    case False
    with w have "parser' = (opened ?p part)\<lparr>ps_next := pt_offset part + pt_length part\<rparr>"
      and pr: "pr = (plain_progress (ps_stop ?p))\<lparr>pg_consumed := pt_length part\<rparr>" by auto
    moreover have "ps_stop ?p \<noteq> Head" using wf False by (auto simp: parser_wf_def result_stopped_def)
    ultimately show ?thesis
      using o begun part by (auto simp: plain_progress_def handed_def begins_at_def)
  next
    case True
    with w have f: "feed_ok (opened ?p part) part parser' pr" by simp
    then have e: "event_ok (opened ?p part) parser' pr" by (simp add: feed_ok_def)
    have "nonneg_charge (pg_charge pr) \<and> (pg_message pr = None \<longrightarrow> pg_charge pr = 0)
      \<and> (pg_result pr \<notin> {Framed, Malformed, Limit, Unsupported, Cut} \<longrightarrow> pg_charge pr = 0 \<and> handed pr = [])
      \<and> (pg_result pr = Head \<longrightarrow> (\<exists>m. pg_message pr = Some m))"
      using e by (auto simp: event_ok_def handed_charge_def nonneg_charge_def result_stopped_def handed_def split: result.splits)
    with f o begins_event [OF begun e] part show ?thesis
      by (auto simp: feed_ok_def same_direction_def)
  qed
  then show "ps_started parser'" "\<not> ps_ended parser'" "ps_next parser' = front at + pg_consumed pr" "pg_consumed pr \<le> pt_length part"
    "begins_at (dr_start at) (?H @ handed pr) parser'" "nonneg_charge (pg_charge pr)"
    "pg_result pr \<notin> {Framed, Malformed, Limit, Unsupported, Cut} \<Longrightarrow> pg_charge pr = 0"
    "pg_result pr \<in> {Framed, Malformed, Limit, Unsupported, Cut} \<Longrightarrow> pg_message pr = None \<Longrightarrow> pg_charge pr = 0"
    "pg_result pr \<notin> {Framed, Malformed, Limit, Unsupported, Cut} \<Longrightarrow> handed pr = []"
    "pg_result pr = Head \<Longrightarrow> \<exists>m. pg_message pr = Some m"
    by blast+
qed

text \<open>The messages a progress hands over, as \<open>finish\<close> keeps them.\<close>

definition finished_of :: "progress \<Rightarrow> finished list" where
  "finished_of pr = map (\<lambda>m. \<lparr>fn_message = m, fn_charge = pg_charge pr\<rparr>) (handed pr)"

lemma finished_of_messages [simp]: "map fn_message (finished_of pr) = handed pr"
  by (simp add: finished_of_def comp_def)

lemma finished_of_charges: "nonneg_charge (pg_charge pr) \<Longrightarrow> \<forall>f\<in>set (finished_of pr). nonneg_charge (fn_charge f)"
  by (auto simp: finished_of_def)

lemma side_fed:
  assumes inv: "side_inv k L g (s, at)" "\<not> sd_stopped s" and fed: "feed R r (sd_parser s) part = Inr (r', parser', pr)"
    and part: "pt_offset part = front at" "dr_started at"
    and at': "direction_ok at'" "dr_start at' = dr_start at" "dr_settled at' = dr_settled at" "dr_started at'"
      "front at' = front at + pg_consumed pr"
  shows "side_inv k L g (s\<lparr>sd_parser := parser', sd_done := sd_done s @ finished_of pr\<rparr>, at')"
proof -
  note f = feed_event [OF inv fed part(1)]
  have H: "side_history g (s\<lparr>sd_parser := parser', sd_done := sd_done s @ finished_of pr\<rparr>) = side_history g s @ handed pr"
    by (simp add: side_history_def)
  show ?thesis
    by (rule side_event [OF inv(1) _ _ _ _ _ _ at'(1-4)])
      (use inv(2) f at' H finished_of_charges [OF f(7)] in \<open>simp_all\<close>)
qed

lemma awaits_response: "parser_wf p \<Longrightarrow> ps_phase p = awaitingAnswer \<Longrightarrow> ps_kind p = Response"
  by (auto simp: parser_wf_def at_rest_def in_progress_def phase_ok_def split: option.splits)

lemma side_answered:
  assumes inv: "side_inv k L g (s, at)" "\<not> sd_stopped s" and an: "answer (sd_parser s) meth = Inr (parser', pr)"
  shows "side_inv k L g (s\<lparr>sd_waiting := w, sd_parser := parser', sd_done := sd_done s @ finished_of pr\<rparr>, at)"
    "ps_phase parser' \<noteq> awaitingAnswer" "nonneg_charge (pg_charge pr)" "pg_message pr = None \<Longrightarrow> pg_charge pr = 0"
    "pg_result pr \<noteq> Head"
proof -
  note h = side_invD(10) [OF inv]
  have wf: "parser_wf (sd_parser s)" using h by (simp add: history_ok_def)
  note a = answer_awaits [OF wf an]
  have f: "frame_message (sd_parser s) (equal_fold meth ''HEAD'') = (parser', pr)"
    using an by (auto simp: answer_def split: if_splits)
  show "ps_phase parser' \<noteq> awaitingAnswer" using frame_message_answered(1) [of "sd_parser s" "equal_fold meth ''HEAD''"] f by simp
  have ok: "same_direction (sd_parser s) parser'" "event_ok (sd_parser s) parser' pr" "ps_next parser' = ps_next (sd_parser s)"
    using answer_wf [OF wf an] by (auto simp: step_ok_def)
  show c: "nonneg_charge (pg_charge pr)" "pg_message pr = None \<Longrightarrow> pg_charge pr = 0"
    using ok(2) by (auto simp: event_ok_def handed_charge_def nonneg_charge_def split: result.splits if_splits)
  let ?s = "s\<lparr>sd_waiting := w, sd_parser := parser', sd_done := sd_done s @ finished_of pr\<rparr>"
  have H: "side_history g ?s = side_history g s @ handed pr" by (simp add: side_history_def)
  note st = side_invD(12) [OF inv a(4)] and d = side_invD(8) [OF inv(1) a(4)]
  have b: "begins_at (dr_start at) (side_history g s @ handed pr) parser'"
    by (rule begins_event) (use st ok(2) in auto)
  show "side_inv k L g (?s, at)"
    by (rule side_event [OF inv(1)])
      (use inv(2) st d a ok b H history_answered [OF h an] finished_of_charges [OF c(1)] side_invD(1) [OF inv(1)]
        in \<open>auto simp: same_direction_def\<close>)
  have "ps_kind (sd_parser s) = Response" by (rule awaits_response [OF wf a(1)])
  with frame_message_response [of "sd_parser s" "equal_fold meth ''HEAD''"] f show "pg_result pr \<noteq> Head" by simp
qed

lemma side_ends:
  assumes inv: "side_inv k L g (s, at)" "\<not> sd_stopped s" and fin: "end_parser R r (sd_parser s) = (r', parser', pr)"
  shows "side_inv k L g (s\<lparr>sd_ended := True, sd_parser := parser', sd_done := sd_done s @ finished_of pr\<rparr>, at)"
    "ps_phase parser' \<noteq> awaitingAnswer" "nonneg_charge (pg_charge pr)" "pg_message pr = None \<Longrightarrow> pg_charge pr = 0"
    "pg_result pr = End"
proof -
  note h = side_invD(10) [OF inv]
  have wf: "parser_wf (sd_parser s)" using h by (simp add: history_ok_def)
  note e = end_parser_ok [OF wf fin]
  show "ps_phase parser' \<noteq> awaitingAnswer" using e by (auto simp: end_ok_def parser_wf_def at_rest_def)
  show c: "nonneg_charge (pg_charge pr)" "pg_message pr = None \<Longrightarrow> pg_charge pr = 0" "pg_result pr = End"
    using e by (auto simp: end_ok_def handed_charge_def nonneg_charge_def split: option.splits)
  let ?s = "s\<lparr>sd_ended := True, sd_parser := parser', sd_done := sd_done s @ finished_of pr\<rparr>"
  have H: "side_history g ?s = side_history g s @ handed pr" by (simp add: side_history_def)
  note h' = history_finished [OF h fin]
  show "side_inv k L g (?s, at)"
  proof (cases "ps_started (sd_parser s)")
    case True
    note st = side_invD(12) [OF inv True] and d = side_invD(8) [OF inv(1) True]
    have b: "begins_at (dr_start at) (side_history g s @ handed pr) parser'"
      using st e by (cases "side_history g s"; cases "ps_message (sd_parser s)")
        (auto simp: begins_at_def end_ok_def handed_def delivered_def)
    show ?thesis
      by (rule side_event [OF inv(1)])
        (use inv(2) st d e b H h' True finished_of_charges [OF c(1)] side_invD(1) [OF inv(1)] in \<open>auto simp: end_ok_def\<close>)
  next
    case False
    have none: "ps_message (sd_parser s) = None" using wf False by (auto simp: parser_wf_def)
    then have "handed pr = []" using e by (auto simp: end_ok_def handed_def)
    moreover have "ps_started parser' = False" using e False by (simp add: end_ok_def)
    ultimately show ?thesis
      using side_invD [OF inv(1)] h' H inv(2) False unfolding side_inv_def split_conv Let_def finished_of_def by auto
  qed
qed

section \<open>Both sides\<close>

definition kind_of :: "side_name \<Rightarrow> kind" where
  "kind_of w = (case w of Requests \<Rightarrow> Request | Responses \<Rightarrow> Response)"

definition exchanged :: "side_name \<Rightarrow> exchange \<Rightarrow> shaped_message option" where
  "exchanged w e = (case w of Requests \<Rightarrow> ex_request e | Responses \<Rightarrow> ex_response e)"

text \<open>The messages of a side among the exchanges handed over so far.\<close>

definition given :: "side_name \<Rightarrow> exchange list \<Rightarrow> message list" where
  "given w E = map sg_message (List.map_filter (exchanged w) E)"

definition sides_inv :: "exchange list \<Rightarrow> pairing \<Rightarrow> bool" where
  "sides_inv E p \<longleftrightarrow>
     apart p \<and> (\<forall>w. sd_direction (side_at w p) \<noteq> Unknown)
   \<and> (\<forall>w. side_inv (kind_of w) (HTTP_limits (pa_limits p)) (given w E) (view w p))"

definition waits_ok :: "pairing \<Rightarrow> bool" where
  "waits_ok p \<longleftrightarrow>
    (\<forall>w. \<not> sd_stopped (side_at w p) \<longrightarrow> ps_phase (sd_parser (side_at w p)) = awaitingAnswer \<longrightarrow> sd_waiting (side_at w p))"

lemma sides_invD:
  assumes "sides_inv E p"
  shows "apart p" "sd_direction (side_at w p) \<noteq> Unknown"
    "side_inv (kind_of w) (HTTP_limits (pa_limits p)) (given w E) (side_at w p, pa_directions p (sd_direction (side_at w p)))"
  using assms by (simp_all add: sides_inv_def view_def)

lemma sides_invI:
  assumes inv: "sides_inv E p" and "pa_limits q = pa_limits p"
    and "\<And>w. sd_direction (side_at w q) = sd_direction (side_at w p)"
    and "\<And>w. side_inv (kind_of w) (HTTP_limits (pa_limits p)) (given w E) (view w q)"
  shows "sides_inv E q"
  using assms sides_invD(1,2) [OF inv] assms(3) [of Requests] assms(3) [of Responses] by (auto simp: sides_inv_def apart_def)

lemma sides_inv_trimmed:
  assumes "sides_inv E p" "trimmed p q"
  shows "sides_inv E q"
proof (rule sides_invI [OF assms(1)])
  show "pa_limits q = pa_limits p" using frame_ofD(1) [OF trimmedD(1) [OF assms(2)]] .
  show "sd_direction (side_at w q) = sd_direction (side_at w p)" for w using trimmedD(4) [OF assms(2)] .
  show "side_inv (kind_of w) (HTTP_limits (pa_limits p)) (given w E) (view w q)" for w
    using side_inv_trimmed [OF _ trimmedD(2) [OF assms(2)]] sides_invD(3) [OF assms(1), of w] by (simp add: view_def)
qed

lemma waits_ok_trimmed: "waits_ok p \<Longrightarrow> trimmed p q \<Longrightarrow> waits_ok q"
  unfolding waits_ok_def using trimmed_viewD(2,7) [OF trimmedD(2)] by (fastforce simp: view_def)

text \<open>One side and its direction changed, the other as it was.\<close>

lemma sides_inv_one:
  assumes inv: "sides_inv E p" and "pa_limits q = pa_limits p"
    and "\<And>w'. w' \<noteq> w \<Longrightarrow> view w' q = view w' p" "sd_direction (side_at w q) = sd_direction (side_at w p)"
    and "side_inv (kind_of w) (HTTP_limits (pa_limits p)) (given w E) (view w q)"
  shows "sides_inv E q"
proof (rule sides_invI [OF inv assms(2)])
  show "sd_direction (side_at w' q) = sd_direction (side_at w' p)" for w'
    using assms(3) [of w'] assms(4) by (cases "w' = w") (auto simp: view_def)
  show "side_inv (kind_of w') (HTTP_limits (pa_limits p)) (given w' E) (view w' q)" for w'
    using assms(3) [of w'] assms(5) sides_invD(3) [OF inv, of w'] by (cases "w' = w") (auto simp: view_def)
qed

lemma limits_put [simp]: "pa_limits (put_side w s p) = pa_limits p" "pa_limits (put_direction d at p) = pa_limits p"
  using frame_ofD(1) [OF frame_of_put(1)] frame_ofD(1) [OF frame_of_put(2)] by auto

lemma sides_inv_put:
  assumes "sides_inv E p" "sd_direction s = sd_direction (side_at w p)"
    and "side_inv (kind_of w) (HTTP_limits (pa_limits p)) (given w E) (s, pa_directions p (sd_direction s))"
  shows "sides_inv E (put_side w s p)"
  by (rule sides_inv_one [OF assms(1), where w = w]) (use assms(2,3) in \<open>auto simp: view_def\<close>)

lemma side_inv_waiting [simp]: "side_inv k L g (s\<lparr>sd_waiting := b\<rparr>, at) = side_inv k L g (s, at)"
  by (simp add: side_inv_def side_history_def)

section \<open>Messages read\<close>

lemma finish_progress_trimmed:
  assumes "apart q" "pg_result pr \<noteq> Head"
  shows "trimmed (with_done w (finished_of pr) q) (snd (finish_progress R w pr (r, q)))"
proof (cases "pg_message pr")
  case None
  then show ?thesis using assms(2) by (simp add: finish_progress_def finished_of_def handed_def)
next
  case (Some m)
  then show ?thesis
    using finish_trimmed [OF assms(1)] assms(2) by (simp add: finish_progress_def finished_of_def handed_def)
qed

lemma put_responses: "p\<lparr>pa_responses := s\<rparr> = put_side Responses s p" "p\<lparr>pa_requests := s\<rparr> = put_side Requests s p"
  by (simp_all add: put_side_def)

lemma pair_answer_cases:
  obtains (same) "pair_answer R (r, p) = (r, p)"
      "\<not> pa_routed p \<or> \<not> sd_waiting (pa_responses p) \<or> sd_stopped (pa_responses p) \<or> known_method p = None"
  | (wrong) meth e where "pair_answer R (r, p) = (r, put_side Responses ((pa_responses p)\<lparr>sd_waiting := False\<rparr>) p)"
      "answer (sd_parser (pa_responses p)) meth = Inl e" "\<not> sd_stopped (pa_responses p)"
  | (told) meth parser pr where
      "pair_answer R (r, p) = finish_progress R Responses pr
         (r, put_side Responses ((pa_responses p)\<lparr>sd_waiting := False, sd_parser := parser\<rparr>) p)"
      "answer (sd_parser (pa_responses p)) meth = Inr (parser, pr)" "\<not> sd_stopped (pa_responses p)"
proof (cases "\<not> pa_routed p \<or> \<not> sd_waiting (pa_responses p) \<or> sd_stopped (pa_responses p) \<or> known_method p = None")
  case True
  then have "pair_answer R (r, p) = (r, p)" by (auto simp: pair_answer_def Let_def)
  with True same show thesis by blast
next
  case False
  then obtain meth where m: "known_method p = Some meth" by auto
  show thesis
  proof (cases "answer (sd_parser (pa_responses p)) meth")
    case (Inl e)
    with False m have "pair_answer R (r, p) = (r, put_side Responses ((pa_responses p)\<lparr>sd_waiting := False\<rparr>) p)"
      by (simp add: pair_answer_def put_responses)
    with Inl False wrong show thesis by blast
  next
    case (Inr x)
    obtain parser pr where x: "x = (parser, pr)" by (cases x)
    from False m Inr x have "pair_answer R (r, p) = finish_progress R Responses pr
         (r, put_side Responses ((pa_responses p)\<lparr>sd_waiting := False, sd_parser := parser\<rparr>) p)"
      by (simp add: pair_answer_def put_responses)
    with Inr x False told show thesis by blast
  qed
qed

lemma waits_ok_put:
  assumes "\<And>w'. w' \<noteq> w \<Longrightarrow> \<not> sd_stopped (side_at w' p) \<Longrightarrow> ps_phase (sd_parser (side_at w' p)) = awaitingAnswer \<Longrightarrow> sd_waiting (side_at w' p)"
    and "\<not> sd_stopped s \<Longrightarrow> ps_phase (sd_parser s) = awaitingAnswer \<Longrightarrow> sd_waiting s"
  shows "waits_ok (put_side w s p)"
  using assms by (simp add: waits_ok_def)

lemma waits_okD: "waits_ok p \<Longrightarrow> \<not> sd_stopped (side_at w p) \<Longrightarrow> ps_phase (sd_parser (side_at w p)) = awaitingAnswer \<Longrightarrow> sd_waiting (side_at w p)"
  by (simp add: waits_ok_def)

text \<open>What reading leaves of everything else: a direction may lose its held input, and only with its side stopped.\<close>

definition kept :: "pairing \<Rightarrow> pairing \<Rightarrow> bool" where
  "kept p p' \<longleftrightarrow>
     frame_of p' = frame_of p
   \<and> (\<forall>w. sd_direction (side_at w p') = sd_direction (side_at w p) \<and> sd_ended (side_at w p') = sd_ended (side_at w p)
        \<and> (\<not> sd_stopped (side_at w p') \<longrightarrow> \<not> sd_stopped (side_at w p)
             \<and> pa_directions p' (sd_direction (side_at w p)) = pa_directions p (sd_direction (side_at w p))))
   \<and> (\<forall>d. pa_directions p' d = pa_directions p d \<or> pa_directions p' d = (pa_directions p d)\<lparr>dr_held := []\<rparr>)
   \<and> pa_directions p' Unknown = pa_directions p Unknown"

lemma keptD:
  assumes "kept p p'"
  shows "frame_of p' = frame_of p" "sd_direction (side_at w p') = sd_direction (side_at w p)"
    "sd_ended (side_at w p') = sd_ended (side_at w p)"
    "\<not> sd_stopped (side_at w p') \<Longrightarrow> \<not> sd_stopped (side_at w p)"
    "\<not> sd_stopped (side_at w p') \<Longrightarrow>
       pa_directions p' (sd_direction (side_at w p)) = pa_directions p (sd_direction (side_at w p))"
    "pa_directions p' d = pa_directions p d \<or> pa_directions p' d = (pa_directions p d)\<lparr>dr_held := []\<rparr>"
    "pa_directions p' Unknown = pa_directions p Unknown"
  using assms unfolding kept_def by blast+

lemma kept_refl [simp]: "kept p p"
  by (simp add: kept_def)

lemma kept_trans:
  assumes "kept p q" "kept q t"
  shows "kept p t"
proof -
  note a = keptD [OF assms(1)] and b = keptD [OF assms(2)]
  have "pa_directions t d = pa_directions p d \<or> pa_directions t d = (pa_directions p d)\<lparr>dr_held := []\<rparr>" for d
    using a(6) [of d] b(6) [of d] by (elim disjE) simp_all
  with a(1-5,7) b(1-5,7) show ?thesis by (simp add: kept_def)
qed

lemma kept_put: "sd_direction s = sd_direction (side_at w p) \<Longrightarrow> sd_ended s = sd_ended (side_at w p) \<Longrightarrow>
    sd_stopped s = sd_stopped (side_at w p) \<Longrightarrow> kept p (put_side w s p)"
  by (simp add: kept_def)

lemma kept_trimmed:
  assumes t: "trimmed p q" and "\<And>w. sd_direction (side_at w p) \<noteq> Unknown"
  shows "kept p q"
proof -
  have "pa_directions q d = pa_directions p d \<or> pa_directions q d = (pa_directions p d)\<lparr>dr_held := []\<rparr>" for d
  proof (cases "\<exists>w. sd_direction (side_at w p) = d")
    case True
    then obtain w where w: "sd_direction (side_at w p) = d" by blast
    from trimmed_viewD(5) [OF trimmedD(2) [OF t, of w]] w trimmedD(4) [OF t, of w] show ?thesis by (simp add: view_def)
  qed (use trimmedD(3) [OF t] in blast)
  moreover have "\<not> sd_stopped (side_at w p) \<and> pa_directions q (sd_direction (side_at w p)) = pa_directions p (sd_direction (side_at w p))"
    if "\<not> sd_stopped (side_at w q)" for w
    using trimmed_viewD(7) [OF trimmedD(2) [OF t, of w]] that trimmedD(4) [OF t, of w] by (simp add: view_def)
  moreover have "pa_directions q Unknown = pa_directions p Unknown" using trimmedD(3) [OF t] assms(2) by blast
  moreover have "sd_ended (side_at w q) = sd_ended (side_at w p)" for w
    using trimmed_viewD(3) [OF trimmedD(2) [OF t, of w]] by (simp add: view_def)
  ultimately show ?thesis using trimmedD(1,4) [OF t] by (simp add: kept_def)
qed

lemma pair_answer_sides:
  assumes inv: "sides_inv E p" and waits: "waits_ok p" and out: "pair_answer R (r, p) = (r', p')"
  shows "sides_inv E p'" "waits_ok p'" "kept p p'"
proof -
  let ?s = "pa_responses p"
  note view = sides_invD(3) [OF inv, of Responses, simplified]
  have "sides_inv E p' \<and> waits_ok p' \<and> kept p p'"
  proof (cases rule: pair_answer_cases [of R r p])
    case same
    with out inv waits show ?thesis by simp
  next
    case (wrong meth e)
    have "parser_wf (sd_parser ?s)" using side_invD(10) [OF view wrong(3)] by (simp add: history_ok_def)
    then have "ps_phase (sd_parser ?s) \<noteq> awaitingAnswer"
      using wrong(2) by (auto simp: answer_def parser_wf_def at_rest_def split: if_splits option.splits)
    then have "waits_ok (put_side Responses (?s\<lparr>sd_waiting := False\<rparr>) p)"
      by (intro waits_ok_put) (auto dest: waits_okD [OF waits])
    moreover have "sides_inv E (put_side Responses (?s\<lparr>sd_waiting := False\<rparr>) p)"
      by (rule sides_inv_put [OF inv]) (use view in simp_all)
    ultimately show ?thesis using wrong(1) out by (auto intro: kept_put)
  next
    case (told meth parser pr)
    note a = side_answered [OF view told(3,2)]
    let ?q = "put_side Responses (?s\<lparr>sd_waiting := False, sd_parser := parser\<rparr>) p"
    let ?t = "?s\<lparr>sd_waiting := False, sd_parser := parser, sd_done := sd_done ?s @ finished_of pr\<rparr>"
    have d: "with_done Responses (finished_of pr) ?q = put_side Responses ?t p"
      by (simp add: with_done_def put_side_def)
    have "apart ?q" using sides_invD(1) [OF inv] by (simp add: apart_put)
    moreover have "finish_progress R Responses pr (r, ?q) = (r', p')" using told(1) out by metis
    ultimately have t: "trimmed (put_side Responses ?t p) p'"
      using finish_progress_trimmed [of ?q pr Responses R r] a(5) d by simp
    have "sides_inv E (put_side Responses ?t p)"
      by (rule sides_inv_put [OF inv]) (use a(1) in simp_all)
    moreover have "waits_ok (put_side Responses ?t p)"
      by (intro waits_ok_put) (use a(2) in \<open>auto dest: waits_okD [OF waits]\<close>)
    moreover have "kept p (put_side Responses ?t p)" by (rule kept_put) simp_all
    moreover have "kept (put_side Responses ?t p) p'"
      by (rule kept_trimmed [OF t]) (use sides_invD(2) [OF \<open>sides_inv E (put_side Responses ?t p)\<close>] in simp)
    ultimately show ?thesis
      using sides_inv_trimmed [OF _ t] waits_ok_trimmed [OF _ t] kept_trans by blast
  qed
  then show "sides_inv E p'" "waits_ok p'" "kept p p'" by blast+
qed

lemma pair_answer_unwaits:
  assumes "apart p" "pa_routed p" "known_method p \<noteq> None" "pair_answer R (r, p) = (r', p')"
  shows "\<not> sd_waiting (pa_responses p') \<or> sd_stopped (pa_responses p')"
proof (cases rule: pair_answer_cases [of R r p])
  case (told meth parser pr)
  let ?q = "put_side Responses ((pa_responses p)\<lparr>sd_waiting := False, sd_parser := parser\<rparr>) p"
  show ?thesis
  proof (cases "pg_message pr")
    case None
    then show ?thesis using told(1) assms(4) by (auto simp: finish_progress_def)
  next
    case (Some m)
    have "apart ?q" using assms(1) by (simp add: apart_put)
    moreover have "finish R Responses m (pg_charge pr) (pg_result pr) (r, ?q) = (r', p')"
      using told(1) assms(4) Some by (metis finish_progress_def option.simps(5))
    ultimately have "trimmed (with_done Responses [\<lparr>fn_message = m, fn_charge = pg_charge pr\<rparr>] ?q) p'"
      using finish_trimmed [of ?q Responses m "pg_charge pr" R "pg_result pr" r] by simp
    from trimmed_viewD(7) [OF trimmedD(2) [OF this, of Responses]] show ?thesis
      by (auto simp: view_def with_done_def)
  qed
qed (use assms in auto)

lemma read_progress_sides:
  assumes inv: "sides_inv E (with_done w (finished_of pr) p)"
    and others: "\<And>w'. w' \<noteq> w \<Longrightarrow> \<not> sd_stopped (side_at w' p) \<Longrightarrow> ps_phase (sd_parser (side_at w' p)) = awaitingAnswer \<Longrightarrow> sd_waiting (side_at w' p)"
    and heads: "waits_at_head (sd_parser (side_at w p), Some pr)" "pg_result pr = Head \<Longrightarrow> \<exists>m. pg_message pr = Some m"
      "pg_result pr \<notin> {Framed, Malformed, Limit, Unsupported, Cut} \<Longrightarrow> handed pr = []"
    and out: "read_progress R w pr (r, p) = (r', p')"
  shows "sides_inv E p'" "waits_ok p'" "kept p p'"
proof -
  have ap: "apart p" using sides_invD(1) [OF inv] by (simp add: with_done_def apart_put)
  have "sides_inv E p' \<and> waits_ok p' \<and> kept p p'"
  proof (cases "pg_result pr = Head")
    case False
    then have awake: "ps_phase (sd_parser (side_at w p)) \<noteq> awaitingAnswer" "pg_result pr \<noteq> NeedRequest"
      using heads(1) by simp_all
    then have waits: "waits_ok (with_done w (finished_of pr) p)"
      unfolding with_done_def by (intro waits_ok_put) (use others in simp_all)
    show ?thesis
    proof (cases "pg_result pr \<in> {Framed, Malformed, Limit, Unsupported, Cut}")
      case True
      with False out have "finish_progress R w pr (r, p) = (r', p')" by (simp add: read_progress_def)
      with finish_progress_trimmed [OF ap False, of w R r] have t: "trimmed (with_done w (finished_of pr) p) p'" by simp
      have "kept p (with_done w (finished_of pr) p)" unfolding with_done_def by (rule kept_put) simp_all
      with sides_inv_trimmed [OF inv t] waits_ok_trimmed [OF waits t] kept_trimmed [OF t sides_invD(2) [OF inv]] kept_trans
      show ?thesis by blast
    next
      case no: False
      with heads(3) have "finished_of pr = []" by (simp add: finished_of_def)
      with no False awake(2) out inv waits show ?thesis by (auto simp: read_progress_def)
    qed
  next
    case True
    with heads(2) obtain m where m: "pg_message pr = Some m" by blast
    have none: "finished_of pr = []" using True by (simp add: finished_of_def handed_def)
    with inv have i: "sides_inv E p" by simp
    from True m out have h: "pair_head R w m (r, p) = (r', p')" by (simp add: read_progress_def)
    show ?thesis
    proof (cases w)
      case Requests
      have t: "trimmed p p'" using pair_head_requests_trimmed [OF ap, of R m r] h Requests by simp
      have "waits_ok p"
        unfolding waits_ok_def
      proof (intro allI impI)
        fix w' assume w': "\<not> sd_stopped (side_at w' p)" "ps_phase (sd_parser (side_at w' p)) = awaitingAnswer"
        show "sd_waiting (side_at w' p)"
        proof (cases "w' = w")
          case True
          have "history_ok Request (HTTP_limits (pa_limits p)) (sd_parser (side_at w' p)) (side_history (given w' E) (side_at w' p))"
            using side_invD(10) [OF sides_invD(3) [OF i, of w'] w'(1)] True Requests by (simp add: kind_of_def)
          then have "parser_wf (sd_parser (side_at w' p))" "ps_kind (sd_parser (side_at w' p)) = Request"
            by (simp_all add: history_ok_def)
          with awaits_response w'(2) show ?thesis by fastforce
        qed (use others w' in blast)
      qed
      with sides_inv_trimmed [OF i t] waits_ok_trimmed [OF _ t] kept_trimmed [OF t sides_invD(2) [OF i]] show ?thesis by simp
    next
      case Responses
      let ?i = "pa_base p + length (sd_done (pa_responses p))"
      obtain r1 p1 where b: "boundary R ?i m False (r, p) = (r1, p1)" by fastforce
      have t: "trimmed p p1" using boundary_trimmed [OF ap, of ?i R m False r] b by simp
      let ?q = "put_side Responses ((pa_responses p1)\<lparr>sd_waiting := True\<rparr>) p1"
      have i1: "sides_inv E p1" by (rule sides_inv_trimmed [OF i t])
      have "sides_inv E ?q"
        by (rule sides_inv_put [OF i1]) (use sides_invD(3) [OF i1, of Responses] in simp_all)
      moreover have "waits_ok ?q"
      proof (rule waits_ok_put)
        fix w' assume w': "w' \<noteq> Responses" "\<not> sd_stopped (side_at w' p1)" "ps_phase (sd_parser (side_at w' p1)) = awaitingAnswer"
        note v = trimmed_viewD(2,7) [OF trimmedD(2) [OF t, of w']]
        from v w' have "\<not> sd_stopped (side_at w' p)" "sd_parser (side_at w' p1) = sd_parser (side_at w' p)"
          "sd_waiting (side_at w' p1) = sd_waiting (side_at w' p)" by (auto simp: view_def)
        with others [of w'] w' Responses show "sd_waiting (side_at w' p1)" by simp
      qed simp
      moreover have "pair_answer R (r1, ?q) = (r', p')"
        using h b Responses by (simp add: pair_head_def put_responses)
      ultimately have "sides_inv E p'" "waits_ok p'" "kept ?q p'" using pair_answer_sides [of E ?q R r1 r' p'] by simp_all
      moreover have "kept p1 ?q" by (rule kept_put) simp_all
      moreover have "kept p p1" by (rule kept_trimmed [OF t sides_invD(2) [OF i]])
      ultimately show ?thesis using kept_trans by blast
    qed
  qed
  then show "sides_inv E p'" "waits_ok p'" "kept p p'" by blast+
qed

section \<open>Reading a part\<close>

text \<open>The part being read is the next of its direction, or the first held.\<close>

definition reading_part :: "side_name \<Rightarrow> (nat \<Rightarrow> pairing \<Rightarrow> pairing) \<Rightarrow> pairing \<Rightarrow> part \<Rightarrow> bool" where
  "reading_part w advance p part \<longleftrightarrow>
    (let s = side_at w p; d = sd_direction s; at = pa_directions p d in
       (advance = advance_next d \<and> dr_started at \<and> dr_held at = [] \<and> dr_next at = pt_offset part
          \<and> pt_offset part + pt_length part < two64
        \<or> advance = advance_held d
          \<and> (sd_stopped s \<and> dr_held at = [] \<or> dr_started at \<and> (\<exists>h hs. dr_held at = h # hs \<and> hp_part h = part)))
     \<and> (0 < pt_length part \<longrightarrow> part_validate part = None))"

definition outline :: "pair_direction \<Rightarrow> bool \<times> nat \<times> beginning \<times> nat" where
  "outline at = (dr_started at, dr_start at, dr_beginning at, dr_settled at)"

lemma outline_update [simp]: "outline (at\<lparr>dr_held := hs\<rparr>) = outline at" "outline (at\<lparr>dr_next := n\<rparr>) = outline at"
  by (simp_all add: outline_def)

definition moved_on :: "(nat \<Rightarrow> pairing \<Rightarrow> pairing) \<Rightarrow> direction \<Rightarrow> pairing \<Rightarrow> pairing \<Rightarrow> bool" where
  "moved_on advance d p p' \<longleftrightarrow>
     frame_of p' = frame_of p
   \<and> (\<forall>w. sd_direction (side_at w p') = sd_direction (side_at w p) \<and> sd_ended (side_at w p') = sd_ended (side_at w p))
   \<and> (\<forall>d'. d' \<noteq> d \<longrightarrow> pa_directions p' d' = pa_directions p d' \<or> pa_directions p' d' = (pa_directions p d')\<lparr>dr_held := []\<rparr>)
   \<and> (d \<noteq> Unknown \<longrightarrow> pa_directions p' Unknown = pa_directions p Unknown)
   \<and> (dr_held (pa_directions p' d) = []
       \<or> dr_held (pa_directions p d) \<noteq> [] \<and> tl (dr_held (pa_directions p' d)) = tl (dr_held (pa_directions p d)))
   \<and> outline (pa_directions p' d) = outline (pa_directions p d)
   \<and> (advance = advance_held d \<longrightarrow> dr_next (pa_directions p' d) = dr_next (pa_directions p d))"

lemma moved_onD:
  assumes "moved_on advance d p p'"
  shows "frame_of p' = frame_of p" "sd_direction (side_at w p') = sd_direction (side_at w p)"
    "sd_ended (side_at w p') = sd_ended (side_at w p)"
    "d' \<noteq> d \<Longrightarrow> pa_directions p' d' = pa_directions p d' \<or> pa_directions p' d' = (pa_directions p d')\<lparr>dr_held := []\<rparr>"
    "d \<noteq> Unknown \<Longrightarrow> pa_directions p' Unknown = pa_directions p Unknown"
    "dr_held (pa_directions p' d) = []
       \<or> dr_held (pa_directions p d) \<noteq> [] \<and> tl (dr_held (pa_directions p' d)) = tl (dr_held (pa_directions p d))"
    "outline (pa_directions p' d) = outline (pa_directions p d)"
    "advance = advance_held d \<Longrightarrow> dr_next (pa_directions p' d) = dr_next (pa_directions p d)"
  using assms unfolding moved_on_def by blast+

lemma moved_on_refl [simp]: "moved_on advance d p p"
  by (auto simp: moved_on_def)

lemma moved_on_trans:
  assumes "moved_on advance d p q" "moved_on advance d q t"
  shows "moved_on advance d p t"
proof -
  note a = moved_onD [OF assms(1)] and b = moved_onD [OF assms(2)]
  have "pa_directions t d' = pa_directions p d' \<or> pa_directions t d' = (pa_directions p d')\<lparr>dr_held := []\<rparr>" if "d' \<noteq> d" for d'
    using a(4) [OF that] b(4) [OF that] by (elim disjE) simp_all
  moreover have "dr_held (pa_directions t d) = []
      \<or> dr_held (pa_directions p d) \<noteq> [] \<and> tl (dr_held (pa_directions t d)) = tl (dr_held (pa_directions p d))"
    using a(6) b(6) by auto
  ultimately show ?thesis unfolding moved_on_def using a(1-3,5,7,8) b(1-3,5,7,8) by simp
qed

lemma moved_on_kept:
  assumes "kept p q"
  shows "moved_on advance d p q"
proof -
  note k = keptD [OF assms]
  have "dr_held (pa_directions q d) = [] \<or> dr_held (pa_directions p d) \<noteq> [] \<and> tl (dr_held (pa_directions q d)) = tl (dr_held (pa_directions p d))"
    using k(6) [of d] by auto
  moreover have "outline (pa_directions q d) = outline (pa_directions p d)" "dr_next (pa_directions q d) = dr_next (pa_directions p d)"
    using k(6) [of d] by auto
  ultimately show ?thesis unfolding moved_on_def using k by blast
qed

lemma advance_same [simp]:
  "side_at w (advance_next d n p) = side_at w p" "side_at w (advance_held d n p) = side_at w p"
  "frame_of (advance_next d n p) = frame_of p" "frame_of (advance_held d n p) = frame_of p"
  "d' \<noteq> d \<Longrightarrow> pa_directions (advance_next d n p) d' = pa_directions p d'"
  "d' \<noteq> d \<Longrightarrow> pa_directions (advance_held d n p) d' = pa_directions p d'"
  by (simp_all add: advance_next_def advance_held_def Let_def split: list.split)

lemma advance_moved_on:
  "moved_on advance d p (advance_held d n p)"
  "dr_held (pa_directions p d) = [] \<Longrightarrow> moved_on (advance_next d) d p (advance_next d n p)"
proof -
  show "moved_on advance d p (advance_held d n p)"
    by (auto simp: moved_on_def) (auto simp: advance_held_def Let_def split: list.split)
  assume none: "dr_held (pa_directions p d) = []"
  have "dr_next (pa_directions (advance_next d n p) d) = dr_next (pa_directions p d)" if "advance_next d = advance_held d"
    unfolding that using none by (simp add: advance_held_def Let_def)
  with none show "moved_on (advance_next d) d p (advance_next d n p)"
    by (auto simp: moved_on_def) (auto simp: advance_next_def Let_def)
qed

lemma advance_reading:
  assumes reading: "reading_part w advance p part" and ok: "direction_ok (pa_directions p d)"
    and d: "d = sd_direction (side_at w p)" and n: "n \<le> pt_length part" "0 < pt_length part"
  shows "reading_part w advance (advance n p) (part_tail part n)" "moved_on advance d p (advance n p)"
    "direction_ok (pa_directions (advance n p) d)"
    "dr_start (pa_directions (advance n p) d) = dr_start (pa_directions p d)"
    "dr_settled (pa_directions (advance n p) d) = dr_settled (pa_directions p d)"
    "dr_started (pa_directions (advance n p) d) = dr_started (pa_directions p d)"
    "\<not> sd_stopped (side_at w p) \<Longrightarrow> front (pa_directions (advance n p) d) = front (pa_directions p d) + n"
    "\<not> sd_stopped (side_at w p) \<Longrightarrow> front (pa_directions p d) = pt_offset part"
    "\<And>w'. side_at w' (advance n p) = side_at w' p" "pt_length (part_tail part n) = pt_length part - n"
    "\<not> sd_stopped (side_at w p) \<Longrightarrow> dr_started (pa_directions p d)"
    "\<And>d'. d' \<noteq> d \<Longrightarrow> pa_directions (advance n p) d' = pa_directions p d'"
proof -
  let ?at = "pa_directions p d"
  have v: "part_validate part = None" using reading n(2) by (simp add: reading_part_def Let_def)
  have fits: "pt_offset part + pt_length part < two64" using v by (auto simp: part_validate_def split: if_splits)
  note tail = part_tail_ok [OF v n(1) fits]
  show "pt_length (part_tail part n) = pt_length part - n" by (rule tail(2))
  have tv: "0 < pt_length (part_tail part n) \<longrightarrow> part_validate (part_tail part n) = None" using tail(2,3) by simp
  consider (next') "advance = advance_next d" "dr_started ?at" "dr_held ?at = []" "dr_next ?at = pt_offset part"
    | (stopped) "advance = advance_held d" "sd_stopped (side_at w p)" "dr_held ?at = []"
    | (held) h hs where "advance = advance_held d" "dr_started ?at" "dr_held ?at = h # hs" "hp_part h = part"
    using reading unfolding reading_part_def Let_def d by blast
  then have "reading_part w advance (advance n p) (part_tail part n) \<and> moved_on advance d p (advance n p)
    \<and> direction_ok (pa_directions (advance n p) d)
    \<and> dr_start (pa_directions (advance n p) d) = dr_start ?at \<and> dr_settled (pa_directions (advance n p) d) = dr_settled ?at
    \<and> dr_started (pa_directions (advance n p) d) = dr_started ?at
    \<and> (\<not> sd_stopped (side_at w p) \<longrightarrow> front (pa_directions (advance n p) d) = front ?at + n \<and> front ?at = pt_offset part \<and> dr_started ?at)
    \<and> (\<forall>w'. side_at w' (advance n p) = side_at w' p) \<and> (\<forall>d'. d' \<noteq> d \<longrightarrow> pa_directions (advance n p) d' = pa_directions p d')"
  proof cases
    case next'
    have at': "pa_directions (advance_next d n p) d = ?at\<lparr>dr_next := dr_next ?at + n\<rparr>" by (simp add: advance_next_def Let_def)
    have "direction_ok (?at\<lparr>dr_next := dr_next ?at + n\<rparr>)"
      using ok next' fits n(1) by (auto simp: direction_ok_def front_def)
    with next' at' tail tv fits n(1) advance_moved_on(2) show ?thesis
      by (simp add: reading_part_def Let_def d front_def)
  next
    case stopped
    then have "advance n p = p" by (simp add: advance_held_def Let_def)
    with stopped ok tv show ?thesis by (simp add: reading_part_def Let_def d)
  next
    case (held h hs)
    have at': "pa_directions (advance_held d n p) d = ?at\<lparr>dr_held := h\<lparr>hp_part := part_tail part n\<rparr> # hs\<rparr>"
      using held by (simp add: advance_held_def Let_def)
    have "direction_ok (?at\<lparr>dr_held := h\<lparr>hp_part := part_tail part n\<rparr> # hs\<rparr>)"
      using ok held tail tv n(1) by (auto simp: direction_ok_def front_def)
    with held at' tail tv advance_moved_on(1) show ?thesis
      by (simp add: reading_part_def Let_def d front_def)
  qed
  then show "reading_part w advance (advance n p) (part_tail part n)" "moved_on advance d p (advance n p)"
    "direction_ok (pa_directions (advance n p) d)"
    "dr_start (pa_directions (advance n p) d) = dr_start (pa_directions p d)"
    "dr_settled (pa_directions (advance n p) d) = dr_settled (pa_directions p d)"
    "dr_started (pa_directions (advance n p) d) = dr_started (pa_directions p d)"
    "\<not> sd_stopped (side_at w p) \<Longrightarrow> front (pa_directions (advance n p) d) = front (pa_directions p d) + n"
    "\<not> sd_stopped (side_at w p) \<Longrightarrow> front (pa_directions p d) = pt_offset part"
    "\<And>w'. side_at w' (advance n p) = side_at w' p"
    "\<not> sd_stopped (side_at w p) \<Longrightarrow> dr_started (pa_directions p d)"
    "\<And>d'. d' \<noteq> d \<Longrightarrow> pa_directions (advance n p) d' = pa_directions p d'"
    by blast+
qed

lemma reading_part_kept:
  assumes "kept p q" "sides_inv E q" "reading_part w advance p part"
  shows "reading_part w advance q part"
proof -
  let ?d = "sd_direction (side_at w p)"
  note k = keptD [OF assms(1)]
  have dir: "sd_direction (side_at w q) = ?d" by (rule k(2))
  have same: "\<not> sd_stopped (side_at w q) \<Longrightarrow> \<not> sd_stopped (side_at w p) \<and> pa_directions q ?d = pa_directions p ?d"
    using k(4,5) by blast
  have dropped: "sd_stopped (side_at w q) \<Longrightarrow> dr_held (pa_directions q ?d) = []"
    using side_invD(9) [OF sides_invD(3) [OF assms(2), of w]] dir by simp
  have v: "0 < pt_length part \<longrightarrow> part_validate part = None" using assms(3) by (simp add: reading_part_def Let_def)
  consider (next') "advance = advance_next ?d" "dr_started (pa_directions p ?d)" "dr_held (pa_directions p ?d) = []"
      "dr_next (pa_directions p ?d) = pt_offset part" "pt_offset part + pt_length part < two64"
    | (stopped) "advance = advance_held ?d" "sd_stopped (side_at w p)"
    | (held) h hs where "advance = advance_held ?d" "dr_started (pa_directions p ?d)"
        "dr_held (pa_directions p ?d) = h # hs" "hp_part h = part"
    using assms(3) unfolding reading_part_def Let_def by blast
  then show ?thesis
  proof cases
    case next'
    from k(6) [of ?d] have "pa_directions q ?d = pa_directions p ?d"
    proof
      assume "pa_directions q ?d = (pa_directions p ?d)\<lparr>dr_held := []\<rparr>"
      also have "\<dots> = pa_directions p ?d" using next'(3) by (cases "pa_directions p ?d") simp
      finally show ?thesis .
    qed
    with next' v show ?thesis by (simp add: reading_part_def Let_def dir)
  next
    case stopped
    then have "sd_stopped (side_at w q)" using same by blast
    with stopped dropped v show ?thesis by (simp add: reading_part_def Let_def dir)
  next
    case (held h hs)
    show ?thesis
    proof (cases "sd_stopped (side_at w q)")
      case True
      with held(1) dropped v show ?thesis by (simp add: reading_part_def Let_def dir)
    next
      case False
      with same have "pa_directions q ?d = pa_directions p ?d" by blast
      with held v False show ?thesis by (simp add: reading_part_def Let_def dir)
    qed
  qed
qed

lemma reading_part_cong:
  assumes "reading_part w advance p part" "sd_direction (side_at w q) = sd_direction (side_at w p)"
    "sd_stopped (side_at w q) = sd_stopped (side_at w p)" "pa_directions q = pa_directions p"
  shows "reading_part w advance q part"
  using assms by (simp add: reading_part_def Let_def)

end
