(* ===== verification/Pairing_Reading.thy ===== *)
theory Pairing_Reading
  imports Pairing_Invariant
begin

text \<open>
  Reading in a pairing: \<open>read\<close>, \<open>accept\<close> and \<open>pump\<close> return on every state between calls, leave both sides
  as the parser's own history allows, and read held input until nothing more of it can be read.
\<close>

section \<open>One call of a parser\<close>

lemma read_step:
  assumes inv: "sides_inv E p" and waits: "waits_ok p" and reading: "reading_part w advance p part"
    and go: "0 < pt_length part" "\<not> sd_waiting (side_at w p)" "\<not> sd_stopped (side_at w p)"
    and fed: "feed R r (sd_parser (side_at w p)) part = Inr (r', parser, pr)"
    and q: "q = put_side w ((side_at w p)\<lparr>sd_parser := parser\<rparr>) p" "q' = q \<or> q' = q\<lparr>pa_examined := e\<rparr>"
    and p3: "p3 = advance (pg_consumed pr) q'"
  shows "sides_inv E (with_done w (finished_of pr) p3)" "waits_at_head (parser, Some pr)"
    "reading_part w advance p3 (part_tail part (pg_consumed pr))" "moved_on advance (sd_direction (side_at w p)) p p3"
    "pg_consumed pr \<le> pt_length part" "pt_length (part_tail part (pg_consumed pr)) = pt_length part - pg_consumed pr"
    "pg_result pr \<noteq> Refused \<Longrightarrow> 0 < pg_consumed pr"
    "\<And>w'. w' \<noteq> w \<Longrightarrow> side_at w' p3 = side_at w' p" "side_at w p3 = (side_at w p)\<lparr>sd_parser := parser\<rparr>"
    "pg_result pr = Head \<Longrightarrow> \<exists>m. pg_message pr = Some m"
    "pg_result pr \<notin> {Framed, Malformed, Limit, Unsupported, Cut} \<Longrightarrow> handed pr = []"
proof -
  let ?s = "side_at w p" and ?d = "sd_direction (side_at w p)"
  let ?at = "pa_directions p ?d"
  note view = sides_invD(3) [OF inv, of w]
  have wf: "parser_wf (sd_parser ?s)" using side_invD(10) [OF view go(3)] by (simp add: history_ok_def)
  have phase: "ps_phase (sd_parser ?s) \<noteq> awaitingAnswer" using waits_okD [OF waits go(3)] go(2) by blast
  show waits': "waits_at_head (parser, Some pr)" by (rule feed_waits [OF wf phase fed])
  have q': "side_at w q' = ?s\<lparr>sd_parser := parser\<rparr>" "\<And>w'. w' \<noteq> w \<Longrightarrow> side_at w' q' = side_at w' p"
      "pa_directions q' = pa_directions p" "frame_of q' = frame_of p"
    using q by auto
  have rq: "reading_part w advance q' part" by (rule reading_part_cong [OF reading]) (simp_all add: q')
  have dq: "?d = sd_direction (side_at w q')" by (simp add: q')
  note f = feed_event [OF view go(3) fed]
  have off: "pt_offset part = front ?at"
    using advance_reading(8) [OF reading side_invD(1) [OF view] refl _ go(1), of 0] go(3) by simp
  note f = f [OF off]
  show "pg_result pr = Head \<Longrightarrow> \<exists>m. pg_message pr = Some m"
    "pg_result pr \<notin> {Framed, Malformed, Limit, Unsupported, Cut} \<Longrightarrow> handed pr = []"
    by (erule f(11), erule f(10))
  have okq: "direction_ok (pa_directions q' ?d)" using side_invD(1) [OF view] by (simp add: q')
  note a = advance_reading [OF rq okq dq f(5) go(1), folded p3]
  show "reading_part w advance p3 (part_tail part (pg_consumed pr))" by (rule a(1))
  show "pg_consumed pr \<le> pt_length part" "pt_length (part_tail part (pg_consumed pr)) = pt_length part - pg_consumed pr"
    by (rule f(5), rule a(10))
  show other: "\<And>w'. w' \<noteq> w \<Longrightarrow> side_at w' p3 = side_at w' p" and here: "side_at w p3 = ?s\<lparr>sd_parser := parser\<rparr>"
    by (simp_all add: a(9) q')
  have "moved_on advance ?d p q'"
  proof (rule moved_on_kept)
    have "sd_direction (side_at w' q') = sd_direction (side_at w' p) \<and> sd_ended (side_at w' q') = sd_ended (side_at w' p)
        \<and> sd_stopped (side_at w' q') = sd_stopped (side_at w' p)" for w'
      using q'(1) q'(2) [of w'] by (cases "w' = w") auto
    then show "kept p q'" by (simp add: kept_def q')
  qed
  with a(2) show "moved_on advance ?d p p3" using moved_on_trans by blast
  show "0 < pg_consumed pr" if "pg_result pr \<noteq> Refused"
    by (rule feed_consumes [OF wf fed go(1)]) (use that waits' in auto)
  have stp: "\<not> sd_stopped (side_at w q')" using go(3) by (simp add: q')
  have "side_inv (kind_of w) (HTTP_limits (pa_limits p)) (given w E)
      (?s\<lparr>sd_parser := parser, sd_done := sd_done ?s @ finished_of pr\<rparr>, pa_directions p3 ?d)"
    by (rule side_fed [OF view go(3) fed off]) (use a(3-7,11) stp q'(3) in simp_all)
  then show "sides_inv E (with_done w (finished_of pr) p3)"
  proof (intro sides_inv_one [OF inv, where w = w])
    have "pa_limits p3 = pa_limits p" by (rule frame_ofD(1) [OF moved_onD(1) [OF \<open>moved_on advance ?d p p3\<close>]])
    then show "pa_limits (with_done w (finished_of pr) p3) = pa_limits p"
      by (simp add: with_done_def)
    show "view w' (with_done w (finished_of pr) p3) = view w' p" if "w' \<noteq> w" for w'
      using other [OF that] a(12) [OF apartD [OF sides_invD(1) [OF inv] that]] that by (simp add: view_def with_done_def q'(3))
  qed (simp_all add: view_def with_done_def here)
qed

section \<open>A part\<close>

lemma finish_side_kept:
  assumes "sides_inv E p" "waits_ok p" "finish_side R w why (r, p) = (r', p')"
  shows "sides_inv E p'" "waits_ok p'" "kept p p'" "sd_stopped (side_at w p')"
proof -
  have t: "trimmed p p'" using finish_side_trimmed [OF sides_invD(1) [OF assms(1)], of R w why r] assms(3) by simp
  show "sides_inv E p'" "waits_ok p'" "kept p p'"
    by (rule sides_inv_trimmed [OF assms(1) t], rule waits_ok_trimmed [OF assms(2) t], rule kept_trimmed [OF t sides_invD(2) [OF assms(1)]])
  have "sd_stopped (side_at w (snd (stop_side R w (r1, q))))" for r1 q
    by (simp add: stop_side_def drop_held_def Let_def)
  then show "sd_stopped (side_at w p')"
    using assms(3) unfolding finish_side_def by (metis prod.collapse snd_conv split_conv)
qed

lemma side_inv_next:
  assumes "side_inv k L g (s, at)" "sd_stopped s" "dr_next at \<le> n" "n < two64" "dr_started at"
  shows "side_inv k L g (s, at\<lparr>dr_next := n\<rparr>)"
proof -
  note i = side_invD [OF assms(1)]
  have "direction_ok (at\<lparr>dr_next := n\<rparr>)"
    using direction_okD [OF i(1)] assms(3-5) i(9) [OF assms(2)] by (auto simp: direction_ok_def front_def)
  then show ?thesis
    unfolding side_inv_def split_conv Let_def using i(2-9) assms(2,3,5) by auto
qed

lemma reading_tail:
  assumes "reading_part w advance p part" "0 < pt_length part" "n \<le> pt_length part"
  shows "pt_offset (part_tail part n) + pt_length (part_tail part n) = pt_offset part + pt_length part"
proof -
  have v: "part_validate part = None" using assms(1,2) by (simp add: reading_part_def Let_def)
  have "pt_offset part + pt_length part < two64" using v by (auto simp: part_validate_def split: if_splits)
  from part_tail_ok(1,2) [OF v assms(3) this] assms(3) show ?thesis by simp
qed

lemma read_rest_ok:
  assumes inv: "sides_inv E p" "waits_ok p" and reading: "reading_part w advance p part"
    and out: "read_rest w advance (r, p) part = ((r', p'), rest, refused)"
  shows "sides_inv E p' \<and> waits_ok p' \<and> moved_on advance (sd_direction (side_at w p)) p p' \<and> reading_part w advance p' rest
    \<and> pt_length rest \<le> pt_length part \<and> pt_offset rest + pt_length rest = pt_offset part + pt_length part
    \<and> \<not> refused \<and> side_at w p' = side_at w p
    \<and> (if sd_stopped (side_at w p) then pt_length rest = 0 else rest = part)"
proof (cases "sd_stopped (side_at w p) \<and> pt_length part > 0")
  case False
  with out inv reading show ?thesis by (auto simp: read_rest_def)
next
  case True
  let ?d = "sd_direction (side_at w p)" and ?n = "pt_length part"
  note view = sides_invD(3) [OF inv(1), of w]
  note a = advance_reading [OF reading side_invD(1) [OF view] refl order_refl conjunct2 [OF True]]
  from True out have o: "p' = advance ?n p" "rest = part_tail part ?n" "\<not> refused" by (auto simp: read_rest_def)
  have waits: "waits_ok p'" using inv(2) by (simp add: waits_ok_def o a(9))
  have "side_inv (kind_of w) (HTTP_limits (pa_limits p)) (given w E) (side_at w p, pa_directions p' ?d)"
  proof -
    have "pa_directions p' ?d = pa_directions p ?d \<or>
        pa_directions p' ?d = (pa_directions p ?d)\<lparr>dr_next := dr_next (pa_directions p ?d) + ?n\<rparr> \<and> dr_started (pa_directions p ?d)
        \<and> dr_next (pa_directions p ?d) + ?n < two64"
    proof -
      from reading consider "advance = advance_next ?d" "dr_started (pa_directions p ?d)"
          "dr_next (pa_directions p ?d) = pt_offset part" "pt_offset part + ?n < two64"
        | "advance = advance_held ?d"
        unfolding reading_part_def Let_def by blast
      then show ?thesis
      proof cases
        case 1
        then show ?thesis by (simp add: o advance_next_def Let_def)
      next
        case 2
        have "dr_held (pa_directions p ?d) = []" using side_invD(9) [OF view] True by blast
        with 2 show ?thesis by (simp add: o advance_held_def Let_def)
      qed
    qed
    then show ?thesis using view side_inv_next [OF view] True by auto
  qed
  then have "sides_inv E p'"
  proof (intro sides_inv_one [OF inv(1), where w = w])
    show "pa_limits p' = pa_limits p" unfolding o by (rule frame_ofD(1) [OF moved_onD(1) [OF a(2)]])
    show "view w' p' = view w' p" if "w' \<noteq> w" for w'
      using a(12) [OF apartD [OF sides_invD(1) [OF inv(1)] that]] by (simp add: view_def o a(9))
  qed (simp_all add: view_def o a(9))
  with waits a(1,2,9,10) o True reading_tail [OF reading, of ?n] show ?thesis by simp
qed

lemma read_part_ok:
  assumes "sides_inv E p" "waits_ok p" "reading_part w advance p part" "pt_length part \<le> fuel"
  shows "\<exists>r' p' rest refused. read_part fuel R w advance (r, p) part = Some ((r', p'), rest, refused)
    \<and> sides_inv E p' \<and> waits_ok p' \<and> moved_on advance (sd_direction (side_at w p)) p p' \<and> reading_part w advance p' rest
    \<and> pt_length rest \<le> pt_length part \<and> pt_offset rest + pt_length rest = pt_offset part + pt_length part
    \<and> (refused \<or> (if sd_stopped (side_at w p') then pt_length rest = 0 else sd_waiting (side_at w p') \<or> pt_length rest = 0))
    \<and> (refused \<or> pt_length rest < pt_length part \<or> pt_length part = 0 \<or> sd_waiting (side_at w p) \<or> sd_stopped (side_at w p))"
  using assms
proof (induction fuel arbitrary: r p part)
  case 0
  obtain r' p' rest refused where out: "read_rest w advance (r, p) part = ((r', p'), rest, refused)" by (metis prod.exhaust)
  with read_rest_ok [OF 0(1-3) out] 0(4) show ?case by (auto simp: read_part.simps [of 0] split: if_splits)
next
  case (Suc fuel)
  let ?s = "side_at w p" and ?d = "sd_direction (side_at w p)"
  show ?case
  proof (cases "pt_length part = 0 \<or> sd_waiting ?s \<or> sd_stopped ?s")
    case True
    obtain r' p' rest refused where out: "read_rest w advance (r, p) part = ((r', p'), rest, refused)" by (metis prod.exhaust)
    with read_rest_ok [OF Suc.prems(1-3) out] True show ?thesis
      by (auto simp: read_part.simps [of "Suc fuel"] split: if_splits)
  next
    case go: False
    show ?thesis
    proof (cases "feed R r (sd_parser ?s) part")
      case (Inl e)
      obtain r1 p1 where f: "finish_side R w Malformed (r, p) = (r1, p1)" by fastforce
      note k = finish_side_kept [OF Suc.prems(1,2) f]
      have reading: "reading_part w advance p1 part" by (rule reading_part_kept [OF k(3,1) Suc.prems(3)])
      obtain r' p' rest refused where out: "read_rest w advance (r1, p1) part = ((r', p'), rest, refused)" by (metis prod.exhaust)
      have dir: "sd_direction (side_at w p1) = ?d" by (rule keptD(2) [OF k(3)])
      note o = read_rest_ok [OF k(1,2) reading out]
      have "moved_on advance ?d p p'" using moved_on_trans [OF moved_on_kept [OF k(3)]] o dir by auto
      with o k(4) go Inl f out show ?thesis
        by (auto simp: read_part.simps [of "Suc fuel"])
    next
      case (Inr x)
      obtain r1 parser pr where x: "x = (r1, parser, pr)" by (metis prod.exhaust)
      define q where "q = put_side w (?s\<lparr>sd_parser := parser\<rparr>) p"
      define q' where "q' = (if pt_gap part = GapNone then q\<lparr>pa_examined := pa_examined q + pg_consumed pr\<rparr> else q)"
      define p3 where "p3 = advance (pg_consumed pr) q'"
      define part' where "part' = part_tail part (pg_consumed pr)"
      have go': "0 < pt_length part" "\<not> sd_waiting ?s" "\<not> sd_stopped ?s" using go by simp_all
      have qq: "q' = q \<or> q' = q\<lparr>pa_examined := pa_examined q + pg_consumed pr\<rparr>" by (simp add: q'_def)
      note st = read_step [OF Suc.prems(1-3) go' Inr [unfolded x] q_def qq p3_def, folded part'_def]
      have unfold: "read_part (Suc fuel) R w advance (r, p) part =
          (if pg_result pr = Refused then Some ((r1, p3), part', True)
           else read_part fuel R w advance (read_progress R w pr (r1, p3)) part')"
        using go Inr x by (simp add: read_part.simps [of "Suc fuel"] Let_def q_def q'_def p3_def part'_def)
      show ?thesis
      proof (cases "pg_result pr = Refused")
        case True
        have "finished_of pr = []" using st(11) True by (simp add: finished_of_def)
        then have i: "sides_inv E p3" using st(1) by simp
        have "waits_ok p3"
          unfolding waits_ok_def
        proof (intro allI impI)
          fix w' assume w': "\<not> sd_stopped (side_at w' p3)" "ps_phase (sd_parser (side_at w' p3)) = awaitingAnswer"
          show "sd_waiting (side_at w' p3)"
          proof (cases "w' = w")
            case True
            then show ?thesis using w'(2) st(2,9) \<open>pg_result pr = Refused\<close> by simp
          next
            case False
            show ?thesis using w' waits_okD [OF Suc.prems(2), of w'] unfolding st(8) [OF False] by blast
          qed
        qed
        moreover note reading_tail [OF Suc.prems(3) go'(1) st(5), folded part'_def]
        ultimately show ?thesis using i unfold True st(3,4,6) by auto
      next
        case False
        obtain r2 p4 where rp: "read_progress R w pr (r1, p3) = (r2, p4)" by fastforce
        have others: "sd_waiting (side_at w' p3)"
          if "w' \<noteq> w" "\<not> sd_stopped (side_at w' p3)" "ps_phase (sd_parser (side_at w' p3)) = awaitingAnswer" for w'
          using that(2,3) waits_okD [OF Suc.prems(2), of w'] unfolding st(8) [OF that(1)] by blast
        have heads: "waits_at_head (sd_parser (side_at w p3), Some pr)" using st(2,9) by simp
        have i4: "sides_inv E p4" "waits_ok p4" "kept p3 p4"
          by (rule read_progress_sides [OF st(1) _ heads _ _ rp], erule (2) others, erule st(10), erule st(11))+
        have reading: "reading_part w advance p4 part'" by (rule reading_part_kept [OF i4(3,1) st(3)])
        have fuel: "pt_length part' \<le> fuel" using st(5-7) False Suc.prems(4) by simp
        from Suc.IH [OF i4(1,2) reading fuel, of r2] obtain r' p' rest refused where
          ih: "read_part fuel R w advance (r2, p4) part' = Some ((r', p'), rest, refused)" "sides_inv E p'" "waits_ok p'"
            "moved_on advance (sd_direction (side_at w p4)) p4 p'" "reading_part w advance p' rest" "pt_length rest \<le> pt_length part'"
            "pt_offset rest + pt_length rest = pt_offset part' + pt_length part'"
            "refused \<or> (if sd_stopped (side_at w p') then pt_length rest = 0 else sd_waiting (side_at w p') \<or> pt_length rest = 0)"
          by blast
        have dir: "sd_direction (side_at w p4) = ?d" using keptD(2) [OF i4(3)] st(9) by simp
        have "moved_on advance ?d p p'"
          by (rule moved_on_trans [OF moved_on_trans [OF st(4) moved_on_kept [OF i4(3)]] ih(4) [unfolded dir]])
        moreover note reading_tail [OF Suc.prems(3) go'(1) st(5), folded part'_def]
        moreover have "pt_length rest < pt_length part" using ih(6) st(6,7) False go'(1) by simp
        ultimately show ?thesis using unfold False rp ih by auto
      qed
    qed
  qed
qed

end
