(* ===== verification/Pairing_Pump.thy ===== *)
theory Pairing_Pump
  imports Pairing_Reading
begin

text \<open>
  Held input read where it can be: \<open>pump\<close> returns, and what a pairing satisfies between calls,
  \<open>pairing_inv\<close>, which relates it to the exchanges it has handed over.
\<close>

section \<open>Held input\<close>

definition solid :: "pairing \<Rightarrow> bool" where
  "solid p \<longleftrightarrow> (\<forall>d. \<forall>h\<in>set (dr_held (pa_directions p d)). 0 < pt_length (hp_part h))"

lemma solidD: "solid p \<Longrightarrow> h \<in> set (dr_held (pa_directions p d)) \<Longrightarrow> 0 < pt_length (hp_part h)"
  by (simp add: solid_def)

text \<open>What reading held input leaves as it was.\<close>

definition went_on :: "pairing \<Rightarrow> pairing \<Rightarrow> bool" where
  "went_on p p' \<longleftrightarrow>
     frame_of p' = frame_of p
   \<and> (\<forall>w. sd_direction (side_at w p') = sd_direction (side_at w p) \<and> sd_ended (side_at w p') = sd_ended (side_at w p))
   \<and> (\<forall>d. held_length p' d \<le> held_length p d \<and> outline (pa_directions p' d) = outline (pa_directions p d)
        \<and> dr_next (pa_directions p' d) = dr_next (pa_directions p d))
   \<and> pa_directions p' Unknown = pa_directions p Unknown"

lemma went_onD:
  assumes "went_on p p'"
  shows "frame_of p' = frame_of p" "sd_direction (side_at w p') = sd_direction (side_at w p)"
    "sd_ended (side_at w p') = sd_ended (side_at w p)" "held_length p' d \<le> held_length p d"
    "outline (pa_directions p' d) = outline (pa_directions p d)" "dr_next (pa_directions p' d) = dr_next (pa_directions p d)"
    "pa_directions p' Unknown = pa_directions p Unknown"
  using assms unfolding went_on_def by blast+

lemma went_on_refl [simp]: "went_on p p"
  by (simp add: went_on_def)

lemma went_on_trans: "went_on p q \<Longrightarrow> went_on q t \<Longrightarrow> went_on p t"
  unfolding went_on_def by (metis order_trans)

lemma held_length_dropped:
  assumes "pa_directions p' d = pa_directions p d \<or> pa_directions p' d = (pa_directions p d)\<lparr>dr_held := []\<rparr>"
  shows "held_length p' d \<le> held_length p d" "outline (pa_directions p' d) = outline (pa_directions p d)"
    "dr_next (pa_directions p' d) = dr_next (pa_directions p d)"
    "set (dr_held (pa_directions p' d)) \<subseteq> set (dr_held (pa_directions p d))"
  using assms by (auto simp: held_length_def)

lemma went_on_kept:
  assumes "kept p q"
  shows "went_on p q"
proof -
  note k = keptD [OF assms]
  show ?thesis unfolding went_on_def using held_length_dropped(1-3) [OF k(6)] k(1-3,7) by blast
qed

lemma solid_kept: "kept p q \<Longrightarrow> solid p \<Longrightarrow> solid q"
  unfolding solid_def using held_length_dropped(4) [OF keptD(6)] by blast

text \<open>A direction changed under a side that reads on where it did.\<close>

lemma side_inv_direction:
  assumes inv: "side_inv k L g (s, at)" and ok: "direction_ok at'"
    and same: "dr_start at' = dr_start at" "dr_settled at' = dr_settled at" "dr_started at \<Longrightarrow> dr_started at'"
    and grows: "dr_next at \<le> dr_next at'" and "sd_stopped s \<Longrightarrow> dr_held at' = []" "\<not> sd_stopped s \<Longrightarrow> front at' = front at"
  shows "side_inv k L g (s, at')"
  unfolding side_inv_def split_conv Let_def using side_invD [OF inv] assms by (auto intro: order_trans)

lemma sides_inv_direction:
  assumes inv: "sides_inv E p" and d: "d = sd_direction (side_at w p)"
    and inv': "side_inv (kind_of w) (HTTP_limits (pa_limits p)) (given w E) (side_at w p, at')"
  shows "sides_inv E (put_direction d at' p)"
proof (rule sides_inv_one [OF inv, where w = w])
  show "view w' (put_direction d at' p) = view w' p" if "w' \<noteq> w" for w'
    using apartD [OF sides_invD(1) [OF inv] that] by (simp add: view_def d)
qed (use inv' in \<open>simp_all add: view_def d\<close>)

lemma waits_ok_direction [simp]: "waits_ok (put_direction d at p) = waits_ok p"
  by (simp add: waits_ok_def)

lemma pop_held_ok:
  assumes inv: "sides_inv E p" "waits_ok p" and d: "d = sd_direction (side_at w p)"
    and out: "pop_held R d (r, p) = (r', p')"
  shows "sides_inv E p'" "waits_ok p'" "went_on p p'"
    "dr_held (pa_directions p' d) =
      (case dr_held (pa_directions p d) of [] \<Rightarrow> [] | h # hs \<Rightarrow> if pt_length (hp_part h) = 0 then hs else h # hs)"
    "\<And>d'. d' \<noteq> d \<Longrightarrow> pa_directions p' d' = pa_directions p d'" "\<And>w'. side_at w' p' = side_at w' p"
proof -
  let ?at = "pa_directions p d"
  note view = sides_invD(3) [OF inv(1), of w, folded d]
  have "sides_inv E p' \<and> waits_ok p' \<and> went_on p p' \<and> dr_held (pa_directions p' d) =
      (case dr_held ?at of [] \<Rightarrow> [] | h # hs \<Rightarrow> if pt_length (hp_part h) = 0 then hs else h # hs)
    \<and> (\<forall>d'. d' \<noteq> d \<longrightarrow> pa_directions p' d' = pa_directions p d') \<and> (\<forall>w'. side_at w' p' = side_at w' p)"
  proof (cases "\<exists>h hs. dr_held ?at = h # hs \<and> pt_length (hp_part h) = 0")
    case False
    then have "p' = p" using out by (auto simp: pop_held_def Let_def split: list.splits if_splits)
    with False inv show ?thesis by (auto split: list.split)
  next
    case True
    then obtain h hs where h: "dr_held ?at = h # hs" "pt_length (hp_part h) = 0" by blast
    have p': "p' = put_direction d (?at\<lparr>dr_held := hs\<rparr>) p" using out h by (auto simp: pop_held_def Let_def)
    note ok = direction_okD [OF side_invD(1) [OF view]]
    have tiles: "tiles (front ?at) (map hp_part hs) (dr_next ?at)" "front ?at = pt_offset (hp_part h)"
      using ok(1) h by (simp_all add: front_def)
    have front: "front (?at\<lparr>dr_held := hs\<rparr>) = front ?at"
      using tiles by (cases hs) (simp_all add: front_def)
    have "direction_ok (?at\<lparr>dr_held := hs\<rparr>)"
      unfolding direction_ok_def front using tiles(1) ok h by auto
    moreover have "\<not> sd_stopped (side_at w p)" using side_invD(9) [OF view] h by auto
    ultimately have "sides_inv E p'"
      unfolding p' by (intro sides_inv_direction [OF inv(1) d] side_inv_direction [OF view]) (use front in simp_all)
    moreover have "went_on p p'"
      using sides_invD(2) [OF inv(1), of w] h by (auto simp: p' went_on_def held_length_def d)
    ultimately show ?thesis using inv(2) h by (simp add: p')
  qed
  then show "sides_inv E p'" "waits_ok p'" "went_on p p'"
    "dr_held (pa_directions p' d) =
      (case dr_held (pa_directions p d) of [] \<Rightarrow> [] | h # hs \<Rightarrow> if pt_length (hp_part h) = 0 then hs else h # hs)"
    "\<And>d'. d' \<noteq> d \<Longrightarrow> pa_directions p' d' = pa_directions p d'" "\<And>w'. side_at w' p' = side_at w' p"
    by blast+
qed

text \<open>One round of the loop over a side's held input: what was first held is read or the reading stops there.\<close>

lemma read_held_round:
  assumes inv: "sides_inv E p" "waits_ok p" "solid p" and d: "d = sd_direction (side_at w p)"
    and held: "dr_held (pa_directions p d) = h # hs" and go: "\<not> sd_waiting (side_at w p)" "\<not> sd_stopped (side_at w p)"
  shows "\<exists>r1 p1 rest refused. read_part (pt_length (hp_part h)) R w (advance_held d) (r, p) (hp_part h) = Some ((r1, p1), rest, refused)
    \<and> (\<forall>r2 p2. pop_held R d (r1, p1) = (r2, p2) \<longrightarrow>
          sides_inv E p2 \<and> waits_ok p2 \<and> solid p2 \<and> went_on p p2 \<and> (refused \<or> held_length p2 d < held_length p d))"
proof -
  note view = sides_invD(3) [OF inv(1), of w, folded d]
  have pos: "0 < pt_length (hp_part h)" using solidD [OF inv(3), of h d] held by simp
  have "dr_started (pa_directions p d)" using direction_okD(6) [OF side_invD(1) [OF view]] held by auto
  then have reading: "reading_part w (advance_held d) p (hp_part h)"
    using direction_okD(5) [OF side_invD(1) [OF view], of h] held by (auto simp: reading_part_def Let_def d)
  from read_part_ok [OF inv(1,2) reading order_refl, of R r] obtain r1 p1 rest refused where
    o: "read_part (pt_length (hp_part h)) R w (advance_held d) (r, p) (hp_part h) = Some ((r1, p1), rest, refused)"
      "sides_inv E p1" "waits_ok p1" "moved_on (advance_held d) d p p1" "reading_part w (advance_held d) p1 rest"
      "pt_length rest \<le> pt_length (hp_part h)"
      "refused \<or> pt_length rest < pt_length (hp_part h) \<or> pt_length (hp_part h) = 0 \<or> sd_waiting (side_at w p) \<or> sd_stopped (side_at w p)"
    unfolding d by blast
  note m = moved_onD [OF o(4)]
  have less: "refused \<or> pt_length rest < pt_length (hp_part h)" using o(7) pos go by simp
  have dir: "sd_direction (side_at w p1) = d" using m(2) d by simp
  have held1: "dr_held (pa_directions p1 d) = [] \<or> (\<exists>h1. dr_held (pa_directions p1 d) = h1 # hs \<and> hp_part h1 = rest)"
  proof (cases "dr_held (pa_directions p1 d)")
    case (Cons h1 hs1)
    have "hs1 = hs" using m(6) Cons held by simp
    moreover have "hp_part h1 = rest"
    proof -
      have "advance_held d \<noteq> advance_next d \<or> dr_held (pa_directions p1 d) \<noteq> []" using Cons by simp
      with o(5) Cons show ?thesis unfolding reading_part_def Let_def dir by (elim conjE disjE exE) simp_all
    qed
    ultimately show ?thesis using Cons by blast
  qed simp
  have "sides_inv E p2 \<and> waits_ok p2 \<and> solid p2 \<and> went_on p p2 \<and> (refused \<or> held_length p2 d < held_length p d)"
    if pop: "pop_held R d (r1, p1) = (r2, p2)" for r2 p2
  proof -
    note q = pop_held_ok [OF o(2,3) dir [symmetric] pop]
    have others: "pa_directions p2 d' = pa_directions p d' \<or> pa_directions p2 d' = (pa_directions p d')\<lparr>dr_held := []\<rparr>"
      if "d' \<noteq> d" for d' using m(4) [OF that] q(5) [OF that] by simp
    have here: "dr_held (pa_directions p2 d) = [] \<or> dr_held (pa_directions p2 d) = hs \<and> pt_length rest = 0
        \<or> (\<exists>h1. dr_held (pa_directions p2 d) = h1 # hs \<and> hp_part h1 = rest \<and> 0 < pt_length rest)"
      using held1
    proof
      assume "dr_held (pa_directions p1 d) = []"
      with q(4) show ?thesis by simp
    next
      assume "\<exists>h1. dr_held (pa_directions p1 d) = h1 # hs \<and> hp_part h1 = rest"
      then obtain h1 where "dr_held (pa_directions p1 d) = h1 # hs" "hp_part h1 = rest" by blast
      with q(4) show ?thesis by (cases "pt_length rest = 0") simp_all
    qed
    have solid: "solid p2"
      unfolding solid_def
    proof (intro allI ballI)
      fix d' x assume x: "x \<in> set (dr_held (pa_directions p2 d'))"
      show "0 < pt_length (hp_part x)"
      proof (cases "d' = d")
        case True
        have "\<forall>y\<in>set hs. 0 < pt_length (hp_part y)" using solidD [OF inv(3), of _ d] held by simp
        with here x True show ?thesis by (elim disjE conjE exE) auto
      next
        case False
        with held_length_dropped(4) [OF others [OF False]] x solidD [OF inv(3)] show ?thesis by blast
      qed
    qed
    have len: "held_length p2 d \<le> held_length p d" "refused \<or> held_length p2 d < held_length p d"
    proof -
      have p: "held_length p d = pt_length (hp_part h) + sum_list (map (\<lambda>h. pt_length (hp_part h)) hs)"
        using held by (simp add: held_length_def)
      from here have "held_length p2 d \<le> pt_length rest + sum_list (map (\<lambda>h. pt_length (hp_part h)) hs)"
        by (elim disjE conjE exE) (simp_all add: held_length_def)
      with p o(6) less show "held_length p2 d \<le> held_length p d" "refused \<or> held_length p2 d < held_length p d"
        by auto
    qed
    have "went_on p p2"
      unfolding went_on_def
    proof (intro conjI allI)
      show "frame_of p2 = frame_of p" using went_onD(1) [OF q(3)] m(1) by simp
      show "sd_direction (side_at w' p2) = sd_direction (side_at w' p)" "sd_ended (side_at w' p2) = sd_ended (side_at w' p)" for w'
        using went_onD(2,3) [OF q(3), of w'] m(2,3) [of w'] by simp_all
      show "held_length p2 d' \<le> held_length p d'" for d'
        using len(1) held_length_dropped(1) [OF others] by (cases "d' = d") auto
      show "outline (pa_directions p2 d') = outline (pa_directions p d')" "dr_next (pa_directions p2 d') = dr_next (pa_directions p d')" for d'
        using went_onD(5,6) [OF q(3), of d'] m(7,8) held_length_dropped(2,3) [OF others] by (cases "d' = d"; simp)+
      show "pa_directions p2 Unknown = pa_directions p Unknown"
        using q(5) [of Unknown] m(5) sides_invD(2) [OF inv(1), of w] d by auto
    qed
    with q(1,2) solid len(2) show ?thesis by blast
  qed
  with o(1) show ?thesis by blast
qed

lemma held_length_zero: "solid p \<Longrightarrow> held_length p d = 0 \<longleftrightarrow> dr_held (pa_directions p d) = []"
  using solidD [of p _ d] by (cases "dr_held (pa_directions p d)") (fastforce simp: held_length_def)+

lemma pump_side_ok:
  assumes "sides_inv E p" "waits_ok p" "solid p" "held_length p (sd_direction (side_at w p)) \<le> fuel"
  shows "\<exists>r' p' any' refused. pump_side fuel R w (r, p) any = Some ((r', p'), any', refused)
    \<and> sides_inv E p' \<and> waits_ok p' \<and> solid p' \<and> went_on p p'
    \<and> (any' \<and> \<not> any \<and> \<not> refused \<longrightarrow> held_length p' (sd_direction (side_at w p)) < held_length p (sd_direction (side_at w p)))
    \<and> (\<not> any' \<longrightarrow> r' = r \<and> p' = p \<and> \<not> any)"
  using assms
proof (induction fuel arbitrary: r p any)
  case 0
  then have "dr_held (pa_directions p (sd_direction (side_at w p))) = []" by (simp add: held_length_zero)
  with 0 show ?case
    by (intro exI [of _ r] exI [of _ p] exI [of _ any] exI [of _ False]) (simp add: pump_side.simps [of 0] Let_def)
next
  case (Suc fuel)
  let ?d = "sd_direction (side_at w p)"
  show ?case
  proof (cases "dr_held (pa_directions p ?d) = [] \<or> \<not> readable p ?d \<or> sd_waiting (side_at w p) \<or> sd_stopped (side_at w p) \<or> pairing_stopped p")
    case True
    with Suc.prems show ?thesis by (auto simp: pump_side.simps [of "Suc fuel"] Let_def split: list.split)
  next
    case False
    then obtain h hs where held: "dr_held (pa_directions p ?d) = h # hs" by (cases "dr_held (pa_directions p ?d)") auto
    from read_held_round [OF Suc.prems(1-3) refl held, of R r] False obtain r1 p1 rest refused where
      o: "read_part (pt_length (hp_part h)) R w (advance_held ?d) (r, p) (hp_part h) = Some ((r1, p1), rest, refused)"
      and next': "\<And>r2 p2. pop_held R ?d (r1, p1) = (r2, p2) \<Longrightarrow>
          sides_inv E p2 \<and> waits_ok p2 \<and> solid p2 \<and> went_on p p2 \<and> (refused \<or> held_length p2 ?d < held_length p ?d)"
      by blast
    obtain r2 p2 where pop: "pop_held R ?d (r1, p1) = (r2, p2)" by fastforce
    note n = next' [OF pop]
    have unfold: "pump_side (Suc fuel) R w (r, p) any =
        (if refused then Some ((r2, p2), True, True) else pump_side fuel R w (pair_answer R (r2, p2)) True)"
      using False held o pop by (simp add: pump_side.simps [of "Suc fuel"] Let_def)
    show ?thesis
    proof (cases refused)
      case True
      with unfold n show ?thesis by (intro exI [of _ r2] exI [of _ p2] exI [of _ True]) simp
    next
      case go: False
      obtain r3 p3 where an: "pair_answer R (r2, p2) = (r3, p3)" by fastforce
      note a = pair_answer_sides [OF _ _ an, of E]
      have i3: "sides_inv E p3" "waits_ok p3" "kept p2 p3" using a n by blast+
      have s3: "solid p3" using solid_kept [OF i3(3)] n by blast
      have w3: "went_on p p3" using n went_on_trans went_on_kept [OF i3(3)] by blast
      have dir: "sd_direction (side_at w p3) = ?d" by (rule went_onD(2) [OF w3])
      have less: "held_length p3 ?d < held_length p ?d"
        using n go went_onD(4) [OF went_on_kept [OF i3(3)], of ?d] by simp
      with Suc.prems(4) dir have "held_length p3 (sd_direction (side_at w p3)) \<le> fuel" by simp
      from Suc.IH [OF i3(1,2) s3 this, of r3 True] obtain r' p' any' ref' where
        ih: "pump_side fuel R w (r3, p3) True = Some ((r', p'), any', ref')" "sides_inv E p'" "waits_ok p'" "solid p'"
          "went_on p3 p'" "any'"
        by blast
      have "held_length p' ?d < held_length p ?d" using less went_onD(4) [OF ih(5), of ?d] by simp
      with unfold go an ih went_on_trans [OF w3 ih(5)] show ?thesis
        by (intro exI [of _ r'] exI [of _ p'] exI [of _ True] exI [of _ ref']) simp
    qed
  qed
qed

definition held_total :: "pairing \<Rightarrow> nat" where
  "held_total p = held_length p Sent + held_length p Received"

lemma held_total_went_on:
  assumes "went_on p q"
  shows "held_total q \<le> held_total p"
    "d \<noteq> Unknown \<Longrightarrow> held_length q d < held_length p d \<Longrightarrow> held_total q < held_total p"
proof -
  note h = went_onD(4) [OF assms, of Sent] went_onD(4) [OF assms, of Received]
  then show "held_total q \<le> held_total p" by (simp add: held_total_def)
  assume "d \<noteq> Unknown" "held_length q d < held_length p d"
  with h show "held_total q < held_total p" by (cases d) (simp_all add: held_total_def)
qed

lemma pump_ok:
  assumes "sides_inv E p" "waits_ok p" "solid p" "held_total p < fuel"
  shows "\<exists>r' p' refused. pump fuel R (r, p) = Some ((r', p'), refused) \<and> sides_inv E p' \<and> waits_ok p' \<and> solid p' \<and> went_on p p'
    \<and> (refused \<or> \<not> pa_routed p \<or> pairing_stopped p
       \<or> (\<exists>r0 p0. pair_answer R (r0, p0) = (r', p') \<and> sides_inv E p0 \<and> went_on p p0))"
  using assms
proof (induction fuel arbitrary: r p)
  case (Suc fuel)
  show ?case
  proof (cases "\<not> pa_routed p \<or> pairing_stopped p")
    case True
    with Suc.prems show ?thesis by (auto simp: pump.simps [of "Suc fuel"])
  next
    case False
    obtain r1 p1 where an: "pair_answer R (r, p) = (r1, p1)" by fastforce
    note i1 = pair_answer_sides [OF Suc.prems(1,2) an]
    have s1: "solid p1" by (rule solid_kept [OF i1(3) Suc.prems(3)])
    note w1 = went_on_kept [OF i1(3)]
    from pump_side_ok [OF i1(1,2) s1 order_refl, of Requests R r1 False, unfolded side_at_names] obtain r2 p2 any2 ref2 where
      o2: "pump_side (held_length p1 (sd_direction (pa_requests p1))) R Requests (r1, p1) False = Some ((r2, p2), any2, ref2)"
        "sides_inv E p2" "waits_ok p2" "solid p2" "went_on p1 p2"
        "any2 \<and> \<not> False \<and> \<not> ref2 \<longrightarrow> held_length p2 (sd_direction (pa_requests p1)) < held_length p1 (sd_direction (pa_requests p1))"
        "\<not> any2 \<longrightarrow> r2 = r1 \<and> p2 = p1 \<and> \<not> False"
      by blast
    have w2: "went_on p p2" by (rule went_on_trans [OF w1 o2(5)])
    from pump_side_ok [OF o2(2-4) order_refl, of Responses R r2 any2, unfolded side_at_names] obtain r3 p3 any3 ref3 where
      o3: "pump_side (held_length p2 (sd_direction (pa_responses p2))) R Responses (r2, p2) any2 = Some ((r3, p3), any3, ref3)"
        "sides_inv E p3" "waits_ok p3" "solid p3" "went_on p2 p3"
        "any3 \<and> \<not> any2 \<and> \<not> ref3 \<longrightarrow> held_length p3 (sd_direction (pa_responses p2)) < held_length p2 (sd_direction (pa_responses p2))"
        "\<not> any3 \<longrightarrow> r3 = r2 \<and> p3 = p2 \<and> \<not> any2"
      by blast
    have w3: "went_on p p3" by (rule went_on_trans [OF w2 o3(5)])
    have unfold: "pump (Suc fuel) R (r, p) =
        (if ref2 then Some ((r2, p2), True) else if ref3 then Some ((r3, p3), True)
         else if any3 then pump fuel R (r3, p3) else Some ((r3, p3), False))"
      using False an o2(1) o3(1) by (simp add: pump.simps [of "Suc fuel"] Let_def)
    show ?thesis
    proof (cases "ref2 \<or> ref3 \<or> \<not> any3")
      case True
      show ?thesis
      proof (cases "ref2 \<or> ref3")
        case True
        then show ?thesis
        proof (cases ref2)
          case True
          with unfold have "pump (Suc fuel) R (r, p) = Some ((r2, p2), True)" by simp
          with o2(2-4) w2 show ?thesis by blast
        next
          case False
          with unfold \<open>ref2 \<or> ref3\<close> have "pump (Suc fuel) R (r, p) = Some ((r3, p3), True)" by simp
          with o3(2-4) w3 show ?thesis by blast
        qed
      next
        case stop: False
        with True have "\<not> any3" by simp
        with o3(7) o2(7) have same: "r3 = r1" "p3 = p1" by auto
        have "pump (Suc fuel) R (r, p) = Some ((r3, p3), False)" using unfold stop \<open>\<not> any3\<close> by simp
        moreover have "pair_answer R (r, p) = (r3, p3)" using an same by simp
        ultimately show ?thesis using o3(2-4) w3 Suc.prems(1) went_on_refl by blast
      qed
    next
      case go: False
      have "held_total p3 < held_total p"
      proof (cases any2)
        case True
        then have "held_total p2 < held_total p1"
          using held_total_went_on(2) [OF o2(5), of "sd_direction (pa_requests p1)"] o2(6) go sides_invD(2) [OF i1(1), of Requests] by simp
        with held_total_went_on(1) [OF w1] held_total_went_on(1) [OF o3(5)] show ?thesis by simp
      next
        case no: False
        then have "held_total p3 < held_total p2"
          using held_total_went_on(2) [OF o3(5), of "sd_direction (pa_responses p2)"] o3(6) go sides_invD(2) [OF o2(2), of Responses] by simp
        with held_total_went_on(1) [OF w2] show ?thesis by simp
      qed
      with Suc.prems(4) have "held_total p3 < fuel" by simp
      from Suc.IH [OF o3(2-4) this, of r3] obtain r' p' refused where
        ih: "pump fuel R (r3, p3) = Some ((r', p'), refused)" "sides_inv E p'" "waits_ok p'" "solid p'" "went_on p3 p'"
          "refused \<or> \<not> pa_routed p3 \<or> pairing_stopped p3 \<or> (\<exists>r0 p0. pair_answer R (r0, p0) = (r', p') \<and> sides_inv E p0 \<and> went_on p3 p0)"
        by blast
      note fr = frame_ofD [OF went_onD(1) [OF w3]]
      have "\<not> (\<not> pa_routed p3 \<or> pairing_stopped p3)" using False fr by (simp add: pairing_stopped_def)
      with ih(6) went_on_trans [OF w3] have "refused \<or> (\<exists>r0 p0. pair_answer R (r0, p0) = (r', p') \<and> sides_inv E p0 \<and> went_on p p0)"
        by blast
      with unfold go ih(1-4) went_on_trans [OF w3 ih(5)] show ?thesis by auto
    qed
  qed
qed simp

lemma pump_all_ok:
  assumes "sides_inv E p" "waits_ok p" "solid p"
  shows "\<exists>r' p' refused. pump_all R (r, p) = Some ((r', p'), refused) \<and> sides_inv E p' \<and> waits_ok p' \<and> solid p' \<and> went_on p p'
    \<and> (refused \<or> \<not> pa_routed p \<or> pairing_stopped p
       \<or> (\<exists>r0 p0. pair_answer R (r0, p0) = (r', p') \<and> sides_inv E p0 \<and> went_on p p0))"
  unfolding pump_all_def snd_conv by (rule pump_ok [OF assms]) (simp add: held_total_def)

section \<open>The invariant\<close>

text \<open>
  The exchanges handed over so far are \<open>E\<close>.  A connection not routed has handed over nothing and holds its
  input from the first offset on; once routed, each side is what its parser read of its direction, less
  what was cut, and ends with the connection; one that has stopped reads nothing more, and one not decided, or not to be read, has
  handed over nothing.
\<close>

definition pairing_inv :: "exchange list \<Rightarrow> pairing \<Rightarrow> bool" where
  "pairing_inv E p \<longleftrightarrow>
     (\<forall>d. direction_ok (pa_directions p d)) \<and> dr_held (pa_directions p Unknown) = [] \<and> solid p
   \<and> (pa_routed p \<longrightarrow> sides_inv E p \<and> waits_ok p)
   \<and> (\<not> pa_routed p \<longrightarrow> E = [] \<and> pa_stop p = NeedInput \<and> (\<forall>d. dr_settled (pa_directions p d) = dr_start (pa_directions p d)
        \<and> (pa_unread p \<or> front (pa_directions p d) = dr_start (pa_directions p d))))
   \<and> (pairing_stopped p \<longrightarrow> (\<forall>d. dr_held (pa_directions p d) = []) \<and> (pa_routed p \<longrightarrow> (\<forall>w. sd_stopped (side_at w p))))
   \<and> (pa_decided p \<longrightarrow> pa_routed p \<or> pa_unread p) \<and> (\<not> pa_decided p \<or> pa_unread p \<longrightarrow> E = []) \<and> length E = pa_base p
   \<and> (pa_routed p \<longrightarrow> (\<forall>w. sd_ended (side_at w p) \<longrightarrow> pa_ending p))
   \<and> (pairing_stopped p \<or> pa_ended p \<or> (\<forall>w. length (given w E) = pa_base p))"

lemma pairing_invD:
  assumes "pairing_inv E p"
  shows "direction_ok (pa_directions p d)" "dr_held (pa_directions p Unknown) = []" "solid p"
    "pa_routed p \<Longrightarrow> sides_inv E p" "pa_routed p \<Longrightarrow> waits_ok p" "\<not> pa_routed p \<Longrightarrow> E = []"
    "\<not> pa_routed p \<Longrightarrow> dr_settled (pa_directions p d) = dr_start (pa_directions p d)"
    "\<not> pa_routed p \<Longrightarrow> \<not> pa_unread p \<Longrightarrow> front (pa_directions p d) = dr_start (pa_directions p d)"
    "pairing_stopped p \<Longrightarrow> dr_held (pa_directions p d) = []"
    "pairing_stopped p \<Longrightarrow> pa_routed p \<Longrightarrow> sd_stopped (side_at w p)"
    "length E = pa_base p" "\<not> pairing_stopped p \<Longrightarrow> \<not> pa_ended p \<Longrightarrow> length (given w E) = pa_base p"
    "\<not> pa_routed p \<Longrightarrow> pa_stop p = NeedInput" "pa_decided p \<Longrightarrow> \<not> pa_unread p \<Longrightarrow> pa_routed p"
    "\<not> pa_decided p \<Longrightarrow> E = []" "pa_unread p \<Longrightarrow> E = []"
    "pa_routed p \<Longrightarrow> sd_ended (side_at w p) \<Longrightarrow> pa_ending p"
  using assms unfolding pairing_inv_def by blast+

lemma new_pairing_inv: "pairing_inv [] (new_pairing limits)"
  by (simp add: pairing_inv_def new_pairing_def zero_direction_def direction_ok_def front_def solid_def pairing_stopped_def
      given_def map_filter_simps)

lemma direction_side:
  assumes "sides_inv E q" "d \<noteq> Unknown"
  obtains w where "sd_direction (side_at w q) = d"
proof -
  have "sd_direction (pa_requests q) \<noteq> Unknown" "sd_direction (pa_responses q) \<noteq> Unknown"
    "sd_direction (pa_requests q) \<noteq> sd_direction (pa_responses q)"
    using sides_invD(1,2) [OF assms(1)] sides_invD(2) [OF assms(1), of Requests] sides_invD(2) [OF assms(1), of Responses]
    by (simp_all add: apart_def)
  then have "sd_direction (pa_requests q) = d \<or> sd_direction (pa_responses q) = d"
    using assms(2) by (cases d; cases "sd_direction (pa_requests q)"; cases "sd_direction (pa_responses q)") simp_all
  then show thesis using that [of Requests] that [of Responses] by auto
qed

text \<open>A routed pairing that reads on.\<close>

lemma pairing_inv_reading:
  assumes inv: "pairing_inv E p" and routed: "pa_routed p" and "\<not> pairing_stopped p"
    and q: "sides_inv E q" "waits_ok q" "solid q" "frame_of q = frame_of p" "pa_directions q Unknown = pa_directions p Unknown"
      "\<And>w. sd_ended (side_at w q) \<Longrightarrow> sd_ended (side_at w p) \<or> pa_ending p"
  shows "pairing_inv E q"
proof -
  note f = frame_ofD [OF q(4)]
  have dir: "direction_ok (pa_directions q d)" for d
  proof (cases "d = Unknown")
    case True
    then show ?thesis using q(5) pairing_invD(1) [OF inv] by simp
  next
    case False
    then obtain w where w: "sd_direction (side_at w q) = d" by (rule direction_side [OF q(1)])
    show ?thesis using side_invD(1) [OF sides_invD(3) [OF q(1), of w]] w by simp
  qed
  have stop: "pairing_stopped q = pairing_stopped p" by (simp add: pairing_stopped_def f)
  have "sd_ended (side_at w q) \<Longrightarrow> pa_ending q" for w using q(6) pairing_invD(17) [OF inv routed] f(8) by auto
  then show ?thesis
    unfolding pairing_inv_def stop
    using dir q(1-5) inv assms(3) routed f(2,3,4,6,8,9) pairing_invD(2,11,12,14,15,16) [OF inv] by auto
qed

end
