(* ===== verification/Pairing_Accept.thy ===== *)
theory Pairing_Accept
  imports Pairing_Pump
begin

text \<open>
  What \<open>Feed\<close> does with a part: it is admitted, held or read, and the side the process was on decided from
  what each direction begins with.  Each step returns and keeps the invariant.
\<close>

section \<open>Taking a part in\<close>

lemma pump_inv:
  assumes inv: "pairing_inv E p" and go: "\<not> pairing_stopped p"
  shows "\<exists>r' p' refused. pump_all R (r, p) = Some ((r', p'), refused) \<and> pairing_inv E p' \<and> went_on p p'
    \<and> (pa_routed p \<and> \<not> refused \<longrightarrow> (\<exists>r0 p0. pair_answer R (r0, p0) = (r', p') \<and> sides_inv E p0 \<and> went_on p p0))"
proof (cases "pa_routed p")
  case False
  then have "pump_all R (r, p) = Some ((r, p), False)" by (simp add: pump_all_def pump.simps)
  with inv False went_on_refl show ?thesis by blast
next
  case True
  note i = pairing_invD [OF inv]
  from pump_all_ok [OF i(4) [OF True] i(5) [OF True] i(3), of R r] obtain r' p' refused where
    o: "pump_all R (r, p) = Some ((r', p'), refused)" "sides_inv E p'" "waits_ok p'" "solid p'" "went_on p p'"
      "refused \<or> \<not> pa_routed p \<or> pairing_stopped p
       \<or> (\<exists>r0 p0. pair_answer R (r0, p0) = (r', p') \<and> sides_inv E p0 \<and> went_on p p0)"
    by blast
  have "pairing_inv E p'"
    by (rule pairing_inv_reading [OF inv True go o(2-4)]) (use went_onD(1,3,7) [OF o(5)] in simp_all)
  with o True go show ?thesis by blast
qed

lemma position_next:
  assumes "pairing_inv E p" "d \<noteq> Unknown"
  shows "pair_position p d = dr_next (pa_directions p d)"
proof (cases "pa_routed p")
  case False
  then show ?thesis by (simp add: pair_position_def side_of_def Let_def)
next
  case True
  note inv = pairing_invD(4) [OF assms(1) True]
  from assms(2) obtain w where w: "sd_direction (side_at w p) = d" by (rule direction_side [OF inv])
  have "side_of p d = Some w"
    using True w sides_invD(1) [OF inv] by (cases w) (auto simp: side_of_def apart_def)
  with side_invD(8) [OF sides_invD(3) [OF inv, of w]] w show ?thesis
    by (auto simp: pair_position_def parser_position_def Let_def)
qed

lemma side_of_routed:
  assumes "pairing_inv E p" "side_of p d = Some w" "d \<noteq> Unknown"
  shows "pa_routed p" "sd_direction (side_at w p) = d"
proof -
  show r: "pa_routed p" using assms(2) by (auto simp: side_of_def split: if_splits)
  note inv = pairing_invD(4) [OF assms(1) r]
  from assms(3) obtain w' where "sd_direction (side_at w' p) = d" by (rule direction_side [OF inv])
  then show "sd_direction (side_at w p) = d"
    using assms(2) r by (cases w; cases w') (auto simp: side_of_def split: if_splits)
qed

text \<open>A direction changed, with the side that reads it.\<close>

lemma pairing_inv_direction:
  assumes inv: "pairing_inv E p" and d: "d \<noteq> Unknown" and ok: "direction_ok at'"
    and same: "dr_start at' = dr_start (pa_directions p d)" "dr_settled at' = dr_settled (pa_directions p d)"
      "dr_started (pa_directions p d) \<Longrightarrow> dr_started at'" "dr_next (pa_directions p d) \<le> dr_next at'"
    and solid: "\<And>h. h \<in> set (dr_held at') \<Longrightarrow> 0 < pt_length (hp_part h)"
    and reads: "\<not> pairing_stopped p \<Longrightarrow> front at' = front (pa_directions p d) \<or> (\<exists>w. side_of p d = Some w \<and> sd_stopped (side_at w p))"
    and stopped: "pairing_stopped p \<or> (\<exists>w. side_of p d = Some w \<and> sd_stopped (side_at w p)) \<Longrightarrow> dr_held at' = []"
  shows "pairing_inv E (put_direction d at' p)"
proof -
  let ?q = "put_direction d at' p"
  note i = pairing_invD [OF inv]
  have f: "frame_of ?q = frame_of p" by simp
  note fr = frame_ofD [OF f]
  have st: "pairing_stopped ?q = pairing_stopped p" by (simp add: pairing_stopped_def fr)
  have sides: "sides_inv E ?q" if r: "pa_routed p"
  proof -
    from d obtain w where w: "sd_direction (side_at w p) = d" by (rule direction_side [OF i(4) [OF r]])
    have so: "side_of p d = Some w"
      using r w sides_invD(1) [OF i(4) [OF r]] by (cases w) (auto simp: side_of_def apart_def)
    show ?thesis
    proof (rule sides_inv_direction [OF i(4) [OF r] w [symmetric]])
      show "side_inv (kind_of w) (HTTP_limits (pa_limits p)) (given w E) (side_at w p, at')"
        by (rule side_inv_direction [OF sides_invD(3) [OF i(4) [OF r], of w, unfolded w] ok same])
          (use stopped reads so i(10) [OF _ r] in auto)
    qed
  qed
  have "solid ?q" using i(3) solid by (auto simp: solid_def)
  moreover have "front at' = dr_start at'" if "\<not> pa_routed p" "\<not> pa_unread p"
  proof -
    have "\<not> pairing_stopped p" "side_of p d = None" using that i(13) by (simp_all add: pairing_stopped_def side_of_def)
    then have "front at' = front (pa_directions p d)" using reads by simp
    with i(8) [OF that, of d] same(1) show ?thesis by simp
  qed
  ultimately show ?thesis
    unfolding pairing_inv_def st using i sides ok same stopped d fr by (auto simp: )
qed

lemma side_inv_start:
  assumes inv: "side_inv k L g (s, at)" and "\<not> dr_started at" "n < two64"
  shows "side_inv k L g (s, at\<lparr>dr_started := True, dr_start := n, dr_next := n, dr_settled := n, dr_beginning := b\<rparr>)"
proof -
  note i = side_invD [OF inv]
  have at: "dr_held at = []" using direction_okD(6) [OF i(1)] assms(2) by blast
  have "side_history g s = []" "\<not> ps_started (sd_parser s)" using i(5,8) assms(2) by blast+
  then have "g = []" "sd_done s = []" by (simp_all add: side_history_def)
  with i(10,11) at assms(3) \<open>\<not> ps_started (sd_parser s)\<close> show ?thesis
    unfolding side_inv_def split_conv Let_def by (auto simp: side_history_def direction_ok_def front_def)
qed

lemma start_direction_inv:
  assumes inv: "pairing_inv E p" and adm: "pair_admit p d part = None"
  shows "pairing_inv E (start_direction d part p)" "dr_started (pa_directions (start_direction d part p) d)"
    "dr_next (pa_directions (start_direction d part p) d) = pt_offset part" "d \<noteq> Unknown"
    "part_validate part = None" "pt_offset part + pt_length part < two64" "0 < pt_length part"
    "frame_of (start_direction d part p) = frame_of p" "\<And>w. side_at w (start_direction d part p) = side_at w p"
proof -
  show d: "d \<noteq> Unknown" and v: "part_validate part = None"
    using adm by (auto simp: pair_admit_def split: if_splits option.splits)
  show fits: "pt_offset part + pt_length part < two64" and "0 < pt_length part"
    using v by (auto simp: part_validate_def split: if_splits)
  show "frame_of (start_direction d part p) = frame_of p" "\<And>w. side_at w (start_direction d part p) = side_at w p"
    by (simp_all add: start_direction_def Let_def)
  let ?at = "pa_directions p d"
  show "dr_started (pa_directions (start_direction d part p) d)" by (simp add: start_direction_def Let_def)
  have at: "dr_started ?at \<Longrightarrow> dr_next ?at = pt_offset part"
    using adm v position_next [OF inv d] by (auto simp: pair_admit_def split: if_splits)
  then show "dr_next (pa_directions (start_direction d part p) d) = pt_offset part"
    by (simp add: start_direction_def Let_def)
  show "pairing_inv E (start_direction d part p)"
  proof (cases "dr_started ?at")
    case True
    then show ?thesis using inv by (simp add: start_direction_def)
  next
    case False
    let ?new = "?at\<lparr>dr_started := True, dr_start := pt_offset part, dr_next := pt_offset part, dr_settled := pt_offset part,
      dr_beginning := new_beginning\<rparr>"
    let ?q = "put_direction d ?new p"
    have q: "start_direction d part p = ?q" using False by (simp add: start_direction_def Let_def)
    note i = pairing_invD [OF inv]
    have f: "frame_of ?q = frame_of p" by simp
    note fr = frame_ofD [OF f]
    have none: "dr_held ?at = []" using direction_okD(6) [OF i(1)] False by blast
    then have ok: "direction_ok ?new" using fits by (auto simp: direction_ok_def front_def)
    have sides: "sides_inv E ?q" if r: "pa_routed p"
    proof -
      from d obtain w where w: "sd_direction (side_at w p) = d" by (rule direction_side [OF i(4) [OF r]])
      have "side_inv (kind_of w) (HTTP_limits (pa_limits p)) (given w E) (side_at w p, ?new)"
        by (rule side_inv_start [OF sides_invD(3) [OF i(4) [OF r], of w, unfolded w] False]) (use fits in simp)
      from sides_inv_direction [OF i(4) [OF r] w [symmetric] this] show ?thesis .
    qed
    have "solid ?q" using i(3) none by (auto simp: solid_def)
    moreover have "pairing_stopped ?q = pairing_stopped p" by (simp add: pairing_stopped_def fr)
    ultimately show ?thesis
      unfolding q pairing_inv_def using i sides ok none d fr by (auto simp: front_def)
  qed
qed

text \<open>A part that is not read: counted, with its direction read by nothing.\<close>

lemma advance_next_inv:
  assumes inv: "pairing_inv E p" and d: "d \<noteq> Unknown" and at: "dr_started (pa_directions p d)" "dr_next (pa_directions p d) + n < two64"
    and idle: "pairing_stopped p \<or> (\<exists>w. side_of p d = Some w \<and> sd_stopped (side_at w p))"
  shows "pairing_inv E (advance_next d n p)"
proof -
  let ?at = "pa_directions p d"
  have none: "dr_held ?at = []"
  proof (cases "pairing_stopped p")
    case True
    then show ?thesis by (rule pairing_invD(9) [OF inv])
  next
    case False
    with idle obtain w where w: "side_of p d = Some w" "sd_stopped (side_at w p)" by blast
    note r = side_of_routed [OF inv w(1) d]
    from side_invD(9) [OF sides_invD(3) [OF pairing_invD(4) [OF inv r(1)], of w] w(2)] r(2) show ?thesis by simp
  qed
  have "direction_ok (?at\<lparr>dr_next := dr_next ?at + n\<rparr>)"
    using direction_okD(2,7) [OF pairing_invD(1) [OF inv, of d]] none at by (auto simp: direction_ok_def front_def)
  then show ?thesis
    unfolding advance_next_def Let_def
    by (intro pairing_inv_direction [OF inv d]) (use none idle in auto)
qed

text \<open>A part held.\<close>

lemma hold_part_cases:
  obtains (refused) r1 where "hold_part R d part (r, p) = (False, (r1, p))"
  | (held) r1 where "hold_part R d part (r, p) = (True, (r1, put_direction d ((pa_directions p d)\<lparr>dr_held :=
        dr_held (pa_directions p d) @ [\<lparr>hp_part = part, hp_charge = int (length (pt_bytes part))\<rparr>]\<rparr>) p))"
proof (cases "0 < length (pt_bytes part) \<and> \<not> fst (Reserve R r (Charge (int (length (pt_bytes part))) 0))")
  case True
  then have "hold_part R d part (r, p) = (False, (snd (Reserve R r (Charge (int (length (pt_bytes part))) 0)), p))"
    by (auto simp: hold_part_def Let_def split_beta)
  then show thesis by (rule refused)
next
  case False
  then have "hold_part R d part (r, p) = (True, (if 0 < length (pt_bytes part) then snd (Reserve R r (Charge (int (length (pt_bytes part))) 0)) else r,
      put_direction d ((pa_directions p d)\<lparr>dr_held :=
        dr_held (pa_directions p d) @ [\<lparr>hp_part = part, hp_charge = int (length (pt_bytes part))\<rparr>]\<rparr>) p))"
    by (auto simp: hold_part_def Let_def split_beta)
  then show thesis by (rule held)
qed

lemma held_inv:
  assumes inv: "pairing_inv E p" and d: "d \<noteq> Unknown" and go: "\<not> pairing_stopped p" "\<And>w. side_of p d = Some w \<Longrightarrow> \<not> sd_stopped (side_at w p)"
    and at: "dr_started (pa_directions p d)" "dr_next (pa_directions p d) = pt_offset part"
    and part: "part_validate part = None" "0 < pt_length part" "pt_offset part + pt_length part < two64" and "0 \<le> c"
  shows "pairing_inv E (advance_next d (pt_length part) (put_direction d ((pa_directions p d)\<lparr>dr_held :=
        dr_held (pa_directions p d) @ [\<lparr>hp_part = part, hp_charge = c\<rparr>]\<rparr>) p))"
proof -
  let ?at = "pa_directions p d" and ?h = "\<lparr>hp_part = part, hp_charge = c\<rparr>"
  let ?new = "?at\<lparr>dr_held := dr_held ?at @ [?h], dr_next := dr_next ?at + pt_length part\<rparr>"
  note ok = direction_okD [OF pairing_invD(1) [OF inv, of d]]
  have front: "front ?new = front ?at"
    using at(2) by (cases "dr_held ?at") (simp_all add: front_def)
  have "tiles (front ?at) (map hp_part (dr_held ?at) @ [part]) (dr_next ?at + pt_length part)"
    using ok(1) at(2) by (simp add: tiles_snoc)
  then have "direction_ok ?new"
    unfolding direction_ok_def front using ok at part assms(10) by auto
  moreover have "h \<in> set (dr_held ?new) \<Longrightarrow> 0 < pt_length (hp_part h)" for h
    using solidD [OF pairing_invD(3) [OF inv], of h d] part(2) by auto
  ultimately have "pairing_inv E (put_direction d ?new p)"
    using front go by (intro pairing_inv_direction [OF inv d]) auto
  then show ?thesis by (simp add: advance_next_def Let_def put_direction_def)
qed

section \<open>Which side is which\<close>

lemma drop_held_put: "snd (drop_held R d (r, p)) = put_direction d ((pa_directions p d)\<lparr>dr_held := []\<rparr>) p"
  by (simp add: drop_held_def Let_def)

lemma drop_held_pair: "drop_held R d rp = (fst (drop_held R d rp), put_direction d ((pa_directions (snd rp) d)\<lparr>dr_held := []\<rparr>) (snd rp))"
  using drop_held_put [of R d "fst rp" "snd rp"] by (metis prod.collapse)

lemma clear_side_parts:
  fixes p :: pairing and R :: "'r reserver" and r :: 'r and w :: side_name
  defines "q \<equiv> snd (clear_side R w (r, p))"
  shows "frame_of q = frame_of p" "side_at w' q = (if w' = w then (side_at w p)\<lparr>sd_done := [], sd_stopped := True,
      sd_waiting := (sd_stopped (side_at w p) \<and> sd_waiting (side_at w p))\<rparr> else side_at w' p)"
    "pa_directions q d = pa_directions p d \<or> pa_directions q d = (pa_directions p d)\<lparr>dr_held := []\<rparr>"
  unfolding q_def clear_side_def stop_side_def Let_def split_conv
  by (auto simp: drop_held_put)

lemma mark_unread_parts:
  fixes p :: pairing and R :: "'r reserver" and r :: 'r
  defines "q \<equiv> snd (mark_unread R (r, p))"
  shows "pa_unread q" "pa_decided q" "pa_limits q = pa_limits p" "pa_routed q = pa_routed p" "pa_base q = pa_base p"
    "pa_stop q = pa_stop p" "pa_ended q = pa_ended p" "pa_ending q = pa_ending p"
    "pa_directions q d = (pa_directions p d)\<lparr>dr_held := []\<rparr>"
    "pa_routed p \<Longrightarrow> side_at w q = (side_at w p)\<lparr>sd_done := [], sd_stopped := True,
      sd_waiting := (sd_stopped (side_at w p) \<and> sd_waiting (side_at w p))\<rparr>"
proof -
  let ?p1 = "p\<lparr>pa_unread := True, pa_decided := True, pa_role := RoleUnknown\<rparr>"
  obtain r2 p2 where two: "clear_side R Responses (clear_side R Requests (r, ?p1)) = (r2, p2)" by fastforce
  obtain r1 p1 where one: "clear_side R Requests (r, ?p1) = (r1, p1)" by fastforce
  note c1 = clear_side_parts [where R = R and w = Requests and r = r and p = ?p1, unfolded one snd_conv]
  note c2 = clear_side_parts [where R = R and w = Responses and r = r1 and p = p1, unfolded two [unfolded one] snd_conv]
  define p3 where "p3 = (if pa_routed p then p2\<lparr>pa_methods := []\<rparr> else ?p1)"
  define r3 where "r3 = (if pa_routed p then r2 else r)"
  have q: "q = snd (drop_held R Received (drop_held R Sent (drop_held R Unknown (r3, p3))))"
    unfolding q_def mark_unread_def split_conv Let_def using two by (simp add: p3_def r3_def)
  have frame: "frame_of p3 = frame_of ?p1" using c1(1) c2(1) by (simp add: p3_def)
  have dirs: "pa_directions p3 d = pa_directions p d \<or> pa_directions p3 d = (pa_directions p d)\<lparr>dr_held := []\<rparr>" for d
    using c1(3) [of d] c2(3) [of d] by (auto simp: p3_def)
  have q': "q = put_direction Received ((pa_directions p3 Received)\<lparr>dr_held := []\<rparr>)
      (put_direction Sent ((pa_directions p3 Sent)\<lparr>dr_held := []\<rparr>)
      (put_direction Unknown ((pa_directions p3 Unknown)\<lparr>dr_held := []\<rparr>) p3))"
    unfolding q by (subst drop_held_pair, subst drop_held_pair, subst drop_held_pair) simp
  have fr: "frame_of q = frame_of ?p1" by (simp add: q' frame)
  note f = frame_ofD [OF fr]
  from f show "pa_unread q" "pa_decided q" "pa_limits q = pa_limits p" "pa_routed q = pa_routed p" "pa_base q = pa_base p"
    "pa_stop q = pa_stop p" "pa_ended q = pa_ended p" "pa_ending q = pa_ending p" by simp_all
  show "pa_directions q d = (pa_directions p d)\<lparr>dr_held := []\<rparr>"
    using dirs [of d] by (cases d) (auto simp: q')
  assume "pa_routed p"
  then show "side_at w q = (side_at w p)\<lparr>sd_done := [], sd_stopped := True,
      sd_waiting := (sd_stopped (side_at w p) \<and> sd_waiting (side_at w p))\<rparr>"
    using c1(2) c2(2) by (cases w) (simp_all add: q' p3_def)
qed

lemma mark_unread_inv:
  assumes inv: "pairing_inv E p" and none: "E = []"
  shows "pairing_inv E (snd (mark_unread R (r, p)))"
proof -
  let ?q = "snd (mark_unread R (r, p))"
  note m = mark_unread_parts [where R = R and r = r and p = p] and i = pairing_invD [OF inv]
  have stopped: "pairing_stopped ?q" using m(1) by (simp add: pairing_stopped_def)
  have sides: "sides_inv E ?q \<and> waits_ok ?q" if r: "pa_routed p"
  proof
    show "sides_inv E ?q"
    proof (rule sides_invI [OF i(4) [OF r]])
      show "side_inv (kind_of w) (HTTP_limits (pa_limits p)) (given w E) (view w ?q)" for w
        by (rule side_inv_trimmed [OF sides_invD(3) [OF i(4) [OF r], of w]])
          (auto simp: view_def m(9) m(10) [OF r] intro: trimmed_viewI [where k = 0])
    qed (simp_all add: m(3) m(10) [OF r])
    show "waits_ok ?q" by (simp add: waits_ok_def m(10) [OF r])
  qed
  have dir: "direction_ok (pa_directions ?q d)" for d using direction_ok_drop [OF i(1)] by (simp add: m(9))
  show ?thesis
    unfolding pairing_inv_def using dir sides stopped i none m by (auto simp: solid_def)
qed

text \<open>Fields the invariant does not read, and what a direction begins with.\<close>

lemma beginning_update [simp]: "front (at\<lparr>dr_beginning := b\<rparr>) = front at" "direction_ok (at\<lparr>dr_beginning := b\<rparr>) = direction_ok at"
proof -
  show f: "front (at\<lparr>dr_beginning := b\<rparr>) = front at" by (simp add: front_def split: list.split)
  show "direction_ok (at\<lparr>dr_beginning := b\<rparr>) = direction_ok at" by (simp add: direction_ok_def f)
qed

lemma sides_inv_cong:
  assumes "sides_inv E p" "pa_limits q = pa_limits p" "\<And>w. side_at w q = side_at w p"
    "\<And>d. \<exists>b. pa_directions q d = (pa_directions p d)\<lparr>dr_beginning := b\<rparr>"
  shows "sides_inv E q"
proof (rule sides_invI [OF assms(1,2)])
  show "sd_direction (side_at w q) = sd_direction (side_at w p)" for w by (simp add: assms(3))
  show "side_inv (kind_of w) (HTTP_limits (pa_limits p)) (given w E) (view w q)" for w
  proof -
    obtain b where "pa_directions q (sd_direction (side_at w p)) = (pa_directions p (sd_direction (side_at w p)))\<lparr>dr_beginning := b\<rparr>"
      using assms(4) by blast
    moreover have "side_inv (kind_of w) (HTTP_limits (pa_limits p)) (given w E)
        (side_at w p, (pa_directions p (sd_direction (side_at w p)))\<lparr>dr_beginning := b\<rparr>)"
      by (rule side_inv_direction [OF sides_invD(3) [OF assms(1), of w]])
        (use side_invD(1,9) [OF sides_invD(3) [OF assms(1), of w]] in simp_all)
    ultimately show ?thesis by (simp add: view_def assms(3))
  qed
qed

lemma pairing_inv_cong:
  assumes inv: "pairing_inv E p" and q: "pa_limits q = pa_limits p" "\<And>w. side_at w q = side_at w p"
    "\<And>d. \<exists>b. pa_directions q d = (pa_directions p d)\<lparr>dr_beginning := b\<rparr>"
    "pa_routed q = pa_routed p" "pa_unread q = pa_unread p" "pa_stop q = pa_stop p" "pa_base q = pa_base p"
    "pa_decided p \<Longrightarrow> pa_decided q" "pa_decided q \<Longrightarrow> pa_routed q \<or> pa_unread q" "pa_ended p \<Longrightarrow> pa_ended q" "pa_ending p \<Longrightarrow> pa_ending q"
  shows "pairing_inv E q"
proof -
  note i = pairing_invD [OF inv]
  have d: "dr_held (pa_directions q d) = dr_held (pa_directions p d)" "dr_start (pa_directions q d) = dr_start (pa_directions p d)"
    "dr_settled (pa_directions q d) = dr_settled (pa_directions p d)" "front (pa_directions q d) = front (pa_directions p d)"
    "direction_ok (pa_directions q d)" for d
    using q(3) [of d] i(1) [of d] by auto
  have s: "pairing_stopped q = pairing_stopped p" by (simp add: pairing_stopped_def q)
  have "sides_inv E q \<and> waits_ok q" if "pa_routed p"
    using sides_inv_cong [OF i(4) [OF that] q(1-3)] i(5) [OF that] q(2) by (simp add: waits_ok_def)
  moreover have "pairing_stopped p \<or> pa_ended q \<or> (\<forall>w. length (given w E) = pa_base q)" using i(12) q(7,10) by metis
  moreover have "solid q" using i(3) d(1) by (simp add: solid_def)
  ultimately show ?thesis
    unfolding pairing_inv_def s using d i(2,6-11,13,15-17) q by metis
qed

lemma beginning_same: "\<exists>b. at = (at :: pair_direction)\<lparr>dr_beginning := b\<rparr>"
  by (rule exI [of _ "dr_beginning at"]) simp

lemma begin_bytes_parts:
  shows "side_at w (begin_bytes d part p) = side_at w p" "frame_of (begin_bytes d part p) = frame_of p"
    "\<exists>b. pa_directions (begin_bytes d part p) d' = (pa_directions p d')\<lparr>dr_beginning := b\<rparr>"
  using beginning_same by (auto simp: begin_bytes_def Let_def split: prod.split)

lemma begin_bytes_inv: "pairing_inv E p \<Longrightarrow> pairing_inv E (begin_bytes d part p)"
  by (rule pairing_inv_cong [of E p])
    (simp_all add: frame_ofD [OF begin_bytes_parts(2)] begin_bytes_parts(1,3) | metis pairing_invD(14))+

lemma new_side_inv:
  assumes "direction_ok at" "front at = dr_start at" "dr_settled at = dr_start at"
  shows "side_inv k L [] (new_side d k L, at)"
  using assms history_new [of k L] by (simp add: side_inv_def new_side_def side_history_def new_parser_def)

lemma route_inv:
  assumes inv: "pairing_inv E p" and new: "\<not> pa_routed p" "\<not> pa_unread p" and d: "d \<noteq> Unknown"
  shows "pairing_inv E (route d p)"
proof -
  let ?q = "route d p"
  note i = pairing_invD [OF inv]
  have q: "side_at w ?q = new_side (if (w = Requests) = (d = Sent) then Sent else Received) (kind_of w) (HTTP_limits (pa_limits p))" for w
    using d by (cases w; cases d) (simp_all add: route_def kind_of_def)
  have f: "pa_directions ?q = pa_directions p" "pa_limits ?q = pa_limits p" "pa_routed ?q" "pa_unread ?q = pa_unread p"
    "pa_stop ?q = pa_stop p" "pa_base ?q = pa_base p" "pa_decided ?q = pa_decided p" "pa_ended ?q = pa_ended p"
    by (simp_all add: route_def split_beta)
  have E: "E = []" by (rule i(6) [OF new(1)])
  have "sides_inv E ?q"
    unfolding sides_inv_def
  proof (intro conjI allI)
    show "apart ?q" using q [of Requests] q [of Responses] by (simp add: apart_def new_side_def)
    show "sd_direction (side_at w ?q) \<noteq> Unknown" for w by (simp add: q new_side_def)
    show "side_inv (kind_of w) (HTTP_limits (pa_limits ?q)) (given w E) (view w ?q)" for w
      unfolding view_def f q E using new_side_inv [OF i(1) i(8) [OF new] i(7) [OF new(1)]]
      by (simp add: given_def map_filter_simps)
  qed
  moreover have "waits_ok ?q" by (simp add: waits_ok_def q new_side_def new_parser_def)
  moreover have "\<not> sd_ended (side_at w ?q)" for w by (simp add: q new_side_def)
  moreover have "\<not> pairing_stopped ?q" "\<not> pairing_stopped p" using new i(13) [OF new(1)] by (simp_all add: pairing_stopped_def f)
  ultimately show ?thesis
    unfolding pairing_inv_def using i E new by (auto simp: f solid_def given_def map_filter_simps)
qed

lemma settle_role_inv:
  assumes inv: "pairing_inv E p" and "pa_routed p" "E = []" and out: "settle_role R (r, p) = (r', p')"
  shows "pairing_inv E p'" "pa_limits p' = pa_limits p" "pa_ended p' = pa_ended p" "pa_ending p' = pa_ending p"
    "bg_certain (dr_beginning (pa_directions p Sent)) \<Longrightarrow> bg_certain (dr_beginning (pa_directions p Received)) \<Longrightarrow>
      pa_unread p' \<or> pa_decided p' \<and> pa_routed p'"
    "\<And>d. pa_directions p' d = pa_directions p d \<or> pa_directions p' d = (pa_directions p d)\<lparr>dr_held := []\<rparr>"
    "pa_stop p' = pa_stop p"
proof -
  have ok: "pairing_inv E (p\<lparr>pa_decided := True\<rparr>)"
    by (rule pairing_inv_cong [OF inv]) (use assms(2) beginning_same in simp_all)
  consider (unread) "mark_unread R (r, p) = (r', p')" | (decided) "p' = p\<lparr>pa_decided := True\<rparr>"
    | (later) "p' = p" "\<not> (bg_certain (dr_beginning (pa_directions p Sent)) \<and> bg_certain (dr_beginning (pa_directions p Received)))"
    using out by (auto simp: settle_role_def Let_def split: if_splits)
  then have "pairing_inv E p' \<and> pa_limits p' = pa_limits p \<and> pa_ended p' = pa_ended p \<and> pa_ending p' = pa_ending p
    \<and> (bg_certain (dr_beginning (pa_directions p Sent)) \<and> bg_certain (dr_beginning (pa_directions p Received)) \<longrightarrow>
      pa_unread p' \<or> pa_decided p' \<and> pa_routed p')
    \<and> (\<forall>d. pa_directions p' d = pa_directions p d \<or> pa_directions p' d = (pa_directions p d)\<lparr>dr_held := []\<rparr>) \<and> pa_stop p' = pa_stop p"
  proof cases
    case unread
    then have "p' = snd (mark_unread R (r, p))" by simp
    then show ?thesis using mark_unread_inv [OF inv assms(3)] mark_unread_parts [where R = R and r = r and p = p] by simp
  qed (use ok assms(2) inv in auto)
  then show "pairing_inv E p'" "pa_limits p' = pa_limits p" "pa_ended p' = pa_ended p" "pa_ending p' = pa_ending p"
    "bg_certain (dr_beginning (pa_directions p Sent)) \<Longrightarrow> bg_certain (dr_beginning (pa_directions p Received)) \<Longrightarrow>
      pa_unread p' \<or> pa_decided p' \<and> pa_routed p'"
    "\<And>d. pa_directions p' d = pa_directions p d \<or> pa_directions p' d = (pa_directions p d)\<lparr>dr_held := []\<rparr>"
    "pa_stop p' = pa_stop p"
    by blast+
qed

lemma decide_inv:
  assumes inv: "pairing_inv E p" and go: "\<not> pairing_stopped p" and out: "decide R (r, p) = (r', p')"
  shows "pairing_inv E p'" "pa_limits p' = pa_limits p" "pa_ended p' = pa_ended p" "pa_ending p' = pa_ending p"
    "\<And>d. pa_directions p' d = pa_directions p d \<or> pa_directions p' d = (pa_directions p d)\<lparr>dr_held := []\<rparr>"
    "bg_certain (dr_beginning (pa_directions p Sent)) \<Longrightarrow> bg_certain (dr_beginning (pa_directions p Received)) \<Longrightarrow>
      pa_unread p' \<or> pa_decided p' \<and> pa_routed p'"
    "pa_stop p' = pa_stop p"
proof -
  let ?both = "bg_certain (dr_beginning (pa_directions p Sent)) \<and> bg_certain (dr_beginning (pa_directions p Received))"
  note i = pairing_invD [OF inv]
  have read: "\<not> pa_unread p" using go by (simp add: pairing_stopped_def)
  consider (known) "pa_decided p" "p' = p" | (routed) "\<not> pa_decided p" "pa_routed p" "settle_role R (r, p) = (r', p')"
    | (up) "\<not> pa_decided p" "mark_unread R (r, p) = (r', p')"
    | (route) d where "\<not> pa_decided p" "\<not> pa_routed p" "d \<noteq> Unknown" "settle_role R (r, route d p) = (r', p')"
    | (wait) "p' = p" "\<not> ?both"
    using out by (auto simp: decide_def routing_of_def split: if_splits routing.splits)
  then have "pairing_inv E p' \<and> pa_limits p' = pa_limits p \<and> pa_ended p' = pa_ended p \<and> pa_ending p' = pa_ending p
    \<and> (\<forall>d. pa_directions p' d = pa_directions p d \<or> pa_directions p' d = (pa_directions p d)\<lparr>dr_held := []\<rparr>)
    \<and> (?both \<longrightarrow> pa_unread p' \<or> pa_decided p' \<and> pa_routed p') \<and> pa_stop p' = pa_stop p"
  proof cases
    case known
    then show ?thesis using inv i(14) read by simp
  next
    case routed
    with settle_role_inv [OF inv routed(2) i(15) [OF routed(1)] routed(3)] show ?thesis by blast
  next
    case up
    then have "p' = snd (mark_unread R (r, p))" by simp
    then show ?thesis
      using mark_unread_inv [OF inv i(15) [OF up(1)]] mark_unread_parts [where R = R and r = r and p = p] by simp
  next
    case route
    have f: "pa_routed (route d p)" "pa_limits (route d p) = pa_limits p" "pa_ended (route d p) = pa_ended p"
        "pa_ending (route d p) = pa_ending p" "pa_directions (route d p) = pa_directions p"
        "pa_stop (route d p) = pa_stop p"
      by (simp_all add: route_def split_beta)
    from settle_role_inv [OF route_inv [OF inv route(2) read route(3)] f(1) i(15) [OF route(1)] route(4)] f
    show ?thesis by simp
  next
    case wait
    then show ?thesis using inv by auto
  qed
  then show "pairing_inv E p'" "pa_limits p' = pa_limits p" "pa_ended p' = pa_ended p" "pa_ending p' = pa_ending p"
    "\<And>d. pa_directions p' d = pa_directions p d \<or> pa_directions p' d = (pa_directions p d)\<lparr>dr_held := []\<rparr>"
    "bg_certain (dr_beginning (pa_directions p Sent)) \<Longrightarrow> bg_certain (dr_beginning (pa_directions p Received)) \<Longrightarrow>
      pa_unread p' \<or> pa_decided p' \<and> pa_routed p'"
    "pa_stop p' = pa_stop p"
    by blast+
qed

lemmas decide_settles = decide_inv(6)

section \<open>A part accepted\<close>

text \<open>What a call leaves of the directions: the one fed moves by what was consumed, the other not at all.\<close>

definition stepped :: "direction \<Rightarrow> nat \<Rightarrow> pairing \<Rightarrow> pairing \<Rightarrow> bool" where
  "stepped d n p p' \<longleftrightarrow> pa_limits p' = pa_limits p \<and> pa_ended p' = pa_ended p \<and> pa_ending p' = pa_ending p
   \<and> (\<forall>d'. dr_started (pa_directions p' d') = dr_started (pa_directions p d') \<and> dr_start (pa_directions p' d') = dr_start (pa_directions p d')
        \<and> dr_next (pa_directions p' d') = dr_next (pa_directions p d') + (if d' = d then n else 0))"

lemma stepped_refl [simp]: "stepped d 0 p p"
  by (simp add: stepped_def)

lemma stepped_trans: "stepped d m p q \<Longrightarrow> stepped d n q t \<Longrightarrow> stepped d (m + n) p t"
  by (simp add: stepped_def)

lemma outlineD: "outline a = outline b \<Longrightarrow> dr_started a = dr_started b \<and> dr_start a = dr_start b \<and> dr_settled a = dr_settled b \<and> dr_beginning a = dr_beginning b"
  by (simp add: outline_def)

lemma stepped_went_on: "went_on p q \<Longrightarrow> stepped d 0 p q"
  unfolding stepped_def using frame_ofD(1,8,9) [OF went_onD(1)] outlineD [OF went_onD(5)] went_onD(6) by simp

lemma stepped_advance: "stepped d n p (advance_next d n p)"
  using frame_ofD(1,8,9) [OF advance_same(3)] by (simp add: stepped_def advance_next_def Let_def)

lemma stepped_put_held: "stepped d 0 p (put_direction d ((pa_directions p d)\<lparr>dr_held := hs\<rparr>) p)"
  using frame_ofD(8,9) [OF frame_of_put(2)] by (simp add: stepped_def)

lemma stepped_begin: "stepped d 0 p (begin_bytes d part p)"
proof -
  have "dr_started (pa_directions (begin_bytes d part p) d') = dr_started (pa_directions p d')
      \<and> dr_start (pa_directions (begin_bytes d part p) d') = dr_start (pa_directions p d')
      \<and> dr_next (pa_directions (begin_bytes d part p) d') = dr_next (pa_directions p d')" for d'
    using begin_bytes_parts(3) [of d part p d'] by auto
  then show ?thesis using frame_ofD(1,8,9) [OF begin_bytes_parts(2)] by (simp add: stepped_def)
qed

lemma stepped_decide:
  assumes "pairing_inv E p" "\<not> pairing_stopped p" "decide R (r, p) = (r', p')"
  shows "stepped d 0 p p'"
proof -
  note o = decide_inv [OF assms]
  have "dr_started (pa_directions p' d') = dr_started (pa_directions p d') \<and> dr_start (pa_directions p' d') = dr_start (pa_directions p d')
      \<and> dr_next (pa_directions p' d') = dr_next (pa_directions p d')" for d'
    using o(5) [of d'] by auto
  then show ?thesis using o(2-4) by (simp add: stepped_def)
qed

text \<open>The part that comes next in a direction.\<close>

definition part_next :: "direction \<Rightarrow> part \<Rightarrow> pairing \<Rightarrow> bool" where
  "part_next d part p \<longleftrightarrow> d \<noteq> Unknown \<and> dr_started (pa_directions p d) \<and> dr_next (pa_directions p d) = pt_offset part
   \<and> part_validate part = None \<and> 0 < pt_length part \<and> pt_offset part + pt_length part < two64"

lemma stopped_frame:
  assumes "frame_of q = frame_of p"
  shows "pairing_stopped q = pairing_stopped p"
  by (simp add: pairing_stopped_def frame_ofD(4,7) [OF assms])

lemma accept_held_inv:
  assumes inv: "pairing_inv E p" and go: "\<not> pairing_stopped p" "\<And>w. side_of p d = Some w \<Longrightarrow> \<not> sd_stopped (side_at w p)"
    and part: "part_next d part p" and out: "accept_held R d part (r, p) = ((r', p'), n, refused)"
  shows "pairing_inv E p' \<and> stepped d n p p' \<and> n \<le> pt_length part \<and> (refused \<or> n = pt_length part)"
proof (cases rule: hold_part_cases [of R d part r p])
  case (refused r1)
  then show ?thesis using out inv by (auto simp: accept_held_def)
next
  case (held r1)
  let ?p1 = "put_direction d ((pa_directions p d)\<lparr>dr_held :=
        dr_held (pa_directions p d) @ [\<lparr>hp_part = part, hp_charge = int (length (pt_bytes part))\<rparr>]\<rparr>) p"
  let ?p2 = "advance_next d (pt_length part) ?p1"
  let ?b = "begin_bytes d part ?p2"
  note pn = part [unfolded part_next_def]
  have i2: "pairing_inv E ?p2" by (rule held_inv [OF inv _ go]) (use pn in simp_all)
  have s2: "stepped d (pt_length part) p ?p2"
    using stepped_trans [OF stepped_put_held stepped_advance] by simp
  have fr: "frame_of ?b = frame_of p" by (simp add: begin_bytes_parts(2))
  have ib: "pairing_inv E ?b" "\<not> pairing_stopped ?b" "stepped d (pt_length part) p ?b"
    using begin_bytes_inv [OF i2] go(1) stepped_trans [OF s2 stepped_begin] by (simp_all add: stopped_frame [OF fr])
  have eq: "((r', p'), n, refused) =
      (if \<not> bg_certain (dr_beginning (pa_directions ?p2 d)) then decide R (r1, ?b) else (r1, ?p2), pt_length part, False)"
    unfolding out [symmetric] accept_held_def held by (simp only: prod.case bool.case Let_def)
  then have n: "n = pt_length part" "\<not> refused" by simp_all
  show ?thesis
  proof (cases "bg_certain (dr_beginning (pa_directions ?p2 d))")
    case True
    with eq have "p' = ?p2" by simp
    with i2 s2 n show ?thesis by simp
  next
    case False
    with eq have dec: "decide R (r1, ?b) = (r', p')" by simp
    from decide_inv(1) [OF ib(1,2) dec] stepped_trans [OF ib(3) stepped_decide [OF ib(1,2) dec]] n show ?thesis by simp
  qed
qed

lemma advance_next_not_held: "advance_next d \<noteq> advance_held d"
proof
  assume "advance_next d = advance_held d"
  then have "dr_next (pa_directions (advance_next d 1 (new_pairing L)) d) = dr_next (pa_directions (advance_held d 1 (new_pairing L)) d)" for L
    by simp
  then show False by (simp add: advance_next_def advance_held_def Let_def new_pairing_def put_direction_def zero_direction_def)
qed

lemma accept_read_inv:
  assumes inv: "pairing_inv E p" and go: "\<not> pairing_stopped p" and w: "side_of p d = Some w" and part: "part_next d part p"
    and none: "dr_held (pa_directions p d) = []"
  shows "\<exists>r' p' n refused. accept_read R d w part (r, p) = Some ((r', p'), n, refused)
    \<and> pairing_inv E p' \<and> stepped d n p p' \<and> n \<le> pt_length part \<and> (refused \<or> n = pt_length part)"
proof -
  note pn = part [unfolded part_next_def]
  have routed: "pa_routed p" and dir: "sd_direction (side_at w p) = d" using side_of_routed [OF inv w] pn by blast+
  note i = pairing_invD [OF inv]
  have "reading_part w (advance_next d) p part" using pn none dir by (simp add: reading_part_def Let_def)
  from read_part_ok [OF i(4) [OF routed] i(5) [OF routed] this order_refl, of R r] obtain r1 p1 rest refused where
    o: "read_part (pt_length part) R w (advance_next d) (r, p) part = Some ((r1, p1), rest, refused)" "sides_inv E p1" "waits_ok p1"
      "moved_on (advance_next d) d p p1" "reading_part w (advance_next d) p1 rest" "pt_length rest \<le> pt_length part"
      "pt_offset rest + pt_length rest = pt_offset part + pt_length part"
      "refused \<or> (if sd_stopped (side_at w p1) then pt_length rest = 0 else sd_waiting (side_at w p1) \<or> pt_length rest = 0)"
    unfolding dir by blast
  note m = moved_onD [OF o(4)]
  have dir1: "sd_direction (side_at w p1) = d" using m(2) dir by simp
  have at: "dr_held (pa_directions p1 d) = []" "dr_started (pa_directions p1 d)" "dr_next (pa_directions p1 d) = pt_offset rest"
      "0 < pt_length rest \<Longrightarrow> part_validate rest = None"
    using o(5) advance_next_not_held unfolding reading_part_def Let_def dir1 by blast+
  have "solid p1"
    unfolding solid_def
  proof (intro allI ballI)
    fix d' x assume "x \<in> set (dr_held (pa_directions p1 d'))"
    then show "0 < pt_length (hp_part x)"
      using at(1) held_length_dropped(4) [OF m(4) [of d']] solidD [OF i(3)] by (cases "d' = d") auto
  qed
  then have inv1: "pairing_inv E p1"
    by (rule pairing_inv_reading [OF inv routed go o(2,3) _ m(1) m(5)]) (use pn m(3) in auto)
  let ?n = "pt_length part - pt_length rest"
  have st: "stepped d ?n p p1"
  proof -
    have "dr_started (pa_directions p1 d') = dr_started (pa_directions p d') \<and> dr_start (pa_directions p1 d') = dr_start (pa_directions p d')
        \<and> dr_next (pa_directions p1 d') = dr_next (pa_directions p d') + (if d' = d then ?n else 0)" for d'
      using m(4) [of d'] outlineD [OF m(7)] at(3) o(6,7) pn by (cases "d' = d") auto
    then show ?thesis using frame_ofD [OF m(1)] by (simp add: stepped_def)
  qed
  show ?thesis
  proof (cases "refused \<or> pt_length rest = 0")
    case True
    then show ?thesis using o(1) inv1 st by (auto simp: accept_read_def)
  next
    case False
    then have rest: "0 < pt_length rest" and w1: "\<not> sd_stopped (side_at w p1)" using o(8) by (auto split: if_splits)
    have so: "side_of p1 d = Some w" using w dir dir1 m(2) frame_ofD(2) [OF m(1)]
      by (auto simp: side_of_def split: if_splits) (metis m(2) side_at_names)+
    have fits: "pt_offset rest + pt_length rest < two64" using o(7) pn by simp
    show ?thesis
    proof (cases rule: hold_part_cases [of R d rest r1 p1])
      case (refused r2)
      with o(1) False inv1 st show ?thesis by (auto simp: accept_read_def)
    next
      case (held r2)
      let ?p2 = "put_direction d ((pa_directions p1 d)\<lparr>dr_held :=
        dr_held (pa_directions p1 d) @ [\<lparr>hp_part = rest, hp_charge = int (length (pt_bytes rest))\<rparr>]\<rparr>) p1"
      have "pairing_inv E (advance_next d (pt_length rest) ?p2)"
        by (rule held_inv [OF inv1]) (use pn at rest fits go stopped_frame [OF m(1)] so w1 in auto)
      moreover have "stepped d (?n + (0 + pt_length rest)) p (advance_next d (pt_length rest) ?p2)"
        by (rule stepped_trans [OF st stepped_trans [OF stepped_put_held stepped_advance]])
      ultimately show ?thesis
        using o(1,6) False held
        by (intro exI [of _ r2] exI [of _ "advance_next d (pt_length rest) ?p2"] exI [of _ "pt_length part"] exI [of _ False])
          (simp add: accept_read_def)
    qed
  qed
qed

lemma accept_inv:
  assumes inv: "pairing_inv E p" and go: "\<not> pairing_stopped p" and part: "part_next d part p"
  shows "\<exists>r' p' n refused. accept R d part (r, p) = Some ((r', p'), n, refused)
    \<and> pairing_inv E p' \<and> stepped d n p p' \<and> n \<le> pt_length part \<and> (refused \<or> n = pt_length part)"
proof -
  obtain r1 p1 n1 refused1 where h: "accept_held R d part (r, p) = ((r1, p1), n1, refused1)" by (metis prod.exhaust)
  note pn = part [unfolded part_next_def]
  show ?thesis
  proof (cases "side_of p d")
    case None
    with accept_held_inv [OF inv go _ part h] h show ?thesis by (simp add: accept_def)
  next
    case (Some w)
    consider (stopped) "sd_stopped (side_at w p)"
      | (held) "\<not> sd_stopped (side_at w p)" "\<not> readable p d \<or> dr_held (pa_directions p d) \<noteq> [] \<or> sd_waiting (side_at w p)"
      | (read) "\<not> sd_stopped (side_at w p)" "readable p d" "dr_held (pa_directions p d) = []" "\<not> sd_waiting (side_at w p)"
      by blast
    then show ?thesis
    proof cases
      case stopped
      have "pairing_inv E (advance_next d (pt_length part) p)"
        by (rule advance_next_inv [OF inv]) (use pn Some stopped in auto)
      with stopped Some stepped_advance show ?thesis
        by (intro exI [of _ r] exI [of _ "advance_next d (pt_length part) p"] exI [of _ "pt_length part"] exI [of _ False])
          (simp add: accept_def)
    next
      case held
      with accept_held_inv [OF inv go _ part h] h Some show ?thesis by (simp add: accept_def)
    next
      case read
      with accept_read_inv [OF inv go Some part] Some show ?thesis by (simp add: accept_def)
    qed
  qed
qed
end
