(* ===== verification/Pairing_Calls.thy ===== *)
theory Pairing_Calls
  imports Pairing_Accept
begin

text \<open>
  The calls of a pairing, \<open>Feed\<close> and \<open>End\<close>: each returns on every state the calls can reach and keeps the
  invariant, with the exchanges it handed over.
\<close>

section \<open>Handing an exchange over\<close>

definition front_message :: "side \<Rightarrow> message list" where
  "front_message s = map fn_message (take 1 (sd_done s))"

lemma side_inv_pop:
  assumes inv: "side_inv k L g (s, at)" and first: "sd_done s = f # fs"
  shows "side_inv k L (g @ [fn_message f]) (s\<lparr>sd_done := fs\<rparr>, at\<lparr>dr_settled := m_end (fn_message f)\<rparr>)"
proof -
  note i = side_invD [OF inv]
  have H: "side_history (g @ [fn_message f]) (s\<lparr>sd_done := fs\<rparr>) = side_history g s" "side_history g s \<noteq> []"
    using first by (simp_all add: side_history_def)
  have st: "dr_started at" using i(5) H(2) by blast
  have front: "front (at\<lparr>dr_settled := n\<rparr>) = front at" for n by (simp add: front_def split: list.split)
  have "direction_ok (at\<lparr>dr_settled := n\<rparr>)" for n using i(1) st unfolding direction_ok_def front by simp
  then show ?thesis
    unfolding side_inv_def split_conv Let_def H front using i first by auto
qed

definition popped :: "side_name \<Rightarrow> pairing \<Rightarrow> pairing" where
  "popped w p =
    (let s = side_at w p; d = sd_direction s in
     case sd_done s of
       [] \<Rightarrow> p
     | f # fs \<Rightarrow> put_direction d ((pa_directions p d)\<lparr>dr_settled := m_end (fn_message f)\<rparr>) (put_side w (s\<lparr>sd_done := fs\<rparr>) p))"

lemma done_again: "sd_done s = [] \<Longrightarrow> s\<lparr>sd_done := []\<rparr> = (s :: side)"
  by (cases s) simp

lemma popped_same [simp]:
  "frame_of (popped w p) = frame_of p" "pa_limit (popped w p) = pa_limit p" "pa_why (popped w p) = pa_why p"
  "side_at w' (popped w p) = (if w' = w then (side_at w p)\<lparr>sd_done := tl (sd_done (side_at w p))\<rparr> else side_at w' p)"
  by (cases w; auto simp: popped_def Let_def put_direction_def put_side_def done_again frame_of_def side_at_def split: list.split side_name.split)+

lemma popped_directions:
  "pa_directions (popped w p) d = pa_directions p d
   \<or> d = sd_direction (side_at w p) \<and> sd_done (side_at w p) \<noteq> [] \<and> (\<exists>n. pa_directions (popped w p) d = (pa_directions p d)\<lparr>dr_settled := n\<rparr>)"
  by (auto simp: popped_def Let_def split: list.split)

lemma popped_view:
  assumes "apart p"
  shows "w' \<noteq> w \<Longrightarrow> view w' (popped w p) = view w' p"
    "side_inv k L g (view w p) \<Longrightarrow> side_inv k L (g @ front_message (side_at w p)) (view w (popped w p))"
  using apartD [OF assms, of w w'] side_inv_pop
  by (auto simp: view_def popped_def Let_def front_message_def split: list.split)

lemma pop_side_returns:
  obtains m c where "pop_side decode w p = Some ((m, c), popped w p)"
    "map sg_message (case m of None \<Rightarrow> [] | Some sm \<Rightarrow> [sm]) = front_message (side_at w p)"
    "m = None \<longleftrightarrow> sd_done (side_at w p) = []" "c = sum_list (map fn_charge (take 1 (sd_done (side_at w p))))"
proof (cases "sd_done (side_at w p)")
  case Nil
  then show thesis by (intro that [of None 0]) (simp_all add: pop_side_def front_message_def popped_def)
next
  case (Cons f fs)
  obtain sm where "read_shape decode (fn_message f) (JSON_limits (pa_limits p)) = Some sm" "sg_message sm = fn_message f"
    using read_shape_returns by blast
  with Cons show thesis
    by (intro that [of "Some sm" "fn_charge f"]) (simp_all add: pop_side_def front_message_def popped_def Let_def)
qed

lemma given_snoc: "given w (E @ [e]) = given w E @ map sg_message (case exchanged w e of None \<Rightarrow> [] | Some sm \<Rightarrow> [sm])"
  by (simp add: given_def List.map_filter_def split: option.split)

text \<open>The states between two pops of \<open>End\<close> need not have as many messages of either side; \<open>b\<close> marks them.\<close>

lemma ended_update [simp]:
  "view w (p\<lparr>pa_ended := b\<rparr>) = view w p" "pairing_stopped (p\<lparr>pa_ended := b\<rparr>) = pairing_stopped p"
  "solid (p\<lparr>pa_ended := b\<rparr>) = solid p" "waits_ok (p\<lparr>pa_ended := b\<rparr>) = waits_ok p" "apart (p\<lparr>pa_ended := b\<rparr>) = apart p"
  "sides_inv E (p\<lparr>pa_ended := b\<rparr>) = sides_inv E p"
  by (simp_all add: view_def pairing_stopped_def solid_def waits_ok_def apart_def sides_inv_def)

definition popped_both :: "pairing \<Rightarrow> pairing" where
  "popped_both p = (popped Responses (popped Requests p))\<lparr>pa_methods := tl (pa_methods p), pa_base := pa_base p + 1\<rparr>"

lemma popped_both_same [simp]:
  "pa_limits (popped_both p) = pa_limits p" "pa_routed (popped_both p) = pa_routed p" "pa_decided (popped_both p) = pa_decided p"
  "pa_unread (popped_both p) = pa_unread p" "pa_stop (popped_both p) = pa_stop p" "pa_ending (popped_both p) = pa_ending p"
  "pa_ended (popped_both p) = pa_ended p" "pa_base (popped_both p) = pa_base p + 1" "pa_limit (popped_both p) = pa_limit p"
  "pa_why (popped_both p) = pa_why p" "pairing_stopped (popped_both p) = pairing_stopped p"
  "side_at w (popped_both p) = (side_at w p)\<lparr>sd_done := tl (sd_done (side_at w p))\<rparr>"
proof -
  have "frame_of (popped Responses (popped Requests p)) = frame_of p" by simp
  note f = frame_ofD [OF this]
  show "pa_limits (popped_both p) = pa_limits p" "pa_routed (popped_both p) = pa_routed p" "pa_decided (popped_both p) = pa_decided p"
    "pa_unread (popped_both p) = pa_unread p" "pa_stop (popped_both p) = pa_stop p" "pa_ending (popped_both p) = pa_ending p"
    "pa_ended (popped_both p) = pa_ended p" "pa_base (popped_both p) = pa_base p + 1" "pa_limit (popped_both p) = pa_limit p"
    "pa_why (popped_both p) = pa_why p" "pairing_stopped (popped_both p) = pairing_stopped p"
    by (simp_all add: popped_both_def pairing_stopped_def f)
  show "side_at w (popped_both p) = (side_at w p)\<lparr>sd_done := tl (sd_done (side_at w p))\<rparr>"
    by (cases w) (simp_all add: popped_both_def)
qed

lemma popped_both_names [simp]:
  "pa_requests (popped_both p) = (pa_requests p)\<lparr>sd_done := tl (sd_done (pa_requests p))\<rparr>"
  "pa_responses (popped_both p) = (pa_responses p)\<lparr>sd_done := tl (sd_done (pa_responses p))\<rparr>"
  by (simp_all flip: side_at_names)

lemma ex_side: "(\<exists>w. P w) \<longleftrightarrow> P Requests \<or> P Responses"
  by (metis side_name.exhaust)

lemma popped_both_directions:
  "pa_directions (popped_both p) d = pa_directions p d
   \<or> (\<exists>w. d = sd_direction (side_at w p) \<and> sd_done (side_at w p) \<noteq> []) \<and> (\<exists>n. pa_directions (popped_both p) d = (pa_directions p d)\<lparr>dr_settled := n\<rparr>)"
proof -
  note ex = ex_side [of "\<lambda>w. d = sd_direction (side_at w p) \<and> sd_done (side_at w p) \<noteq> []", unfolded side_at_names]
  show ?thesis
    unfolding ex using popped_directions [of Requests p d] popped_directions [of Responses "popped Requests p" d]
    by (auto simp: popped_both_def)
qed

lemma popped_both_view:
  assumes "apart p" "side_inv k L g (view w p)"
  shows "side_inv k L (g @ front_message (side_at w p)) (view w (popped_both p))"
proof -
  have "apart (popped Requests p)"
    using assms(1) by (simp add: apart_def flip: side_at_names)
  note r = popped_view [OF this] and q = popped_view [OF assms(1)]
  have same: "view w (popped_both p) = view w (popped Responses (popped Requests p))" for w by (simp add: view_def popped_both_def)
  show ?thesis
  proof (cases w)
    case Requests
    then show ?thesis using r(1) [of Requests Responses] q(2) [of k L g Requests] assms(2) by (simp add: same)
  next
    case Responses
    then show ?thesis using r(2) [of k L g Responses] q(1) [of Responses Requests] assms(2) by (simp add: same)
  qed
qed

lemma pop_exchange_returns:
  obtains e where "pop_exchange decode p = Some (e, popped_both p)"
    "\<And>E w. given w (E @ [e]) = given w E @ front_message (side_at w p)" "\<And>w. exchanged w e = None \<longleftrightarrow> sd_done (side_at w p) = []"
    "ex_charge e = sum_list (map fn_charge (take 1 (sd_done (pa_requests p)))) + sum_list (map fn_charge (take 1 (sd_done (pa_responses p))))"
proof -
  obtain m1 c1 where one: "pop_side decode Requests p = Some ((m1, c1), popped Requests p)"
    "map sg_message (case m1 of None \<Rightarrow> [] | Some sm \<Rightarrow> [sm]) = front_message (side_at Requests p)"
    "m1 = None \<longleftrightarrow> sd_done (side_at Requests p) = []" "c1 = sum_list (map fn_charge (take 1 (sd_done (side_at Requests p))))"
    by (rule pop_side_returns)
  obtain m2 c2 where two: "pop_side decode Responses (popped Requests p) = Some ((m2, c2), popped Responses (popped Requests p))"
    "map sg_message (case m2 of None \<Rightarrow> [] | Some sm \<Rightarrow> [sm]) = front_message (side_at Responses p)"
    "m2 = None \<longleftrightarrow> sd_done (side_at Responses p) = []" "c2 = sum_list (map fn_charge (take 1 (sd_done (side_at Responses p))))"
    by (rule pop_side_returns [of decode Responses "popped Requests p"]) simp
  have methods: "pa_methods (popped w q) = pa_methods q" for w q
    by (cases w) (simp_all add: popped_def Let_def put_direction_def put_side_def split: list.split)
  have base: "pa_base (popped Responses (popped Requests p)) = pa_base p" by (rule frame_ofD(6)) simp
  let ?e = "\<lparr>ex_request = m1, ex_response = m2, ex_complete = (whole_message m1 \<and> whole_message m2), ex_charge = c1 + c2\<rparr>"
  show thesis
  proof (rule that [of ?e])
    show "pop_exchange decode p = Some (?e, popped_both p)"
      by (simp add: pop_exchange_def one(1) two(1) popped_both_def methods base)
    show "given w (E @ [?e]) = given w E @ front_message (side_at w p)" for w E
      using one(2) two(2) by (cases w) (simp_all add: given_snoc exchanged_def)
    show "exchanged w ?e = None \<longleftrightarrow> sd_done (side_at w p) = []" for w
      using one(3) two(3) by (cases w) (simp_all add: exchanged_def)
    show "ex_charge ?e = sum_list (map fn_charge (take 1 (sd_done (pa_requests p)))) + sum_list (map fn_charge (take 1 (sd_done (pa_responses p))))"
      using one(4) two(4) by simp
  qed
qed

lemma popped_both_inv:
  assumes inv: "pairing_inv E (p\<lparr>pa_ended := b\<rparr>)" and go: "\<not> pairing_stopped p" and routed: "pa_routed p" "pa_decided p"
    and both: "b \<or> (\<forall>w. sd_done (side_at w p) \<noteq> [])"
    and e: "\<And>w. given w (E @ [e]) = given w E @ front_message (side_at w p)"
  shows "pairing_inv (E @ [e]) ((popped_both p)\<lparr>pa_ended := b\<rparr>)"
proof -
  let ?q = "popped_both p"
  note i = pairing_invD [OF inv, simplified]
  note sides = i(4) [OF routed(1)]
  have "sides_inv (E @ [e]) ?q"
    unfolding sides_inv_def
  proof (intro conjI allI)
    show "apart ?q" using sides_invD(1) [OF sides] by (simp add: apart_def flip: side_at_names)
    show "sd_direction (side_at w ?q) \<noteq> Unknown" for w using sides_invD(2) [OF sides] by simp
    show "side_inv (kind_of w) (HTTP_limits (pa_limits ?q)) (given w (E @ [e])) (view w ?q)" for w
      using popped_both_view [OF sides_invD(1) [OF sides], of "kind_of w" "HTTP_limits (pa_limits p)" "given w E" w]
        sides by (simp add: e sides_inv_def)
  qed
  moreover have "waits_ok ?q" using i(5) [OF routed(1)] by (simp add: waits_ok_def)
  moreover have held: "dr_held (pa_directions ?q d) = dr_held (pa_directions p d)" for d
    using popped_both_directions [of p d] by auto
  then have "solid ?q" using i(3) by (simp add: solid_def)
  moreover have "direction_ok (pa_directions ?q d)" for d
  proof (cases "\<exists>w. sd_direction (side_at w ?q) = d")
    case True
    then obtain w where "sd_direction (side_at w ?q) = d" by blast
    then show ?thesis using side_invD(1) [OF sides_invD(3) [OF \<open>sides_inv (E @ [e]) ?q\<close>, of w]] by simp
  next
    case False
    then show ?thesis using popped_both_directions [of p d] i(1) [of d] by auto
  qed
  moreover have "b \<or> (\<forall>w. length (given w (E @ [e])) = pa_base p + 1)"
  proof (cases b)
    case nb: False
    have "length (given w (E @ [e])) = pa_base p + 1" for w
    proof -
      have "sd_done (side_at w p) \<noteq> []" using both nb by blast
      then have "length (front_message (side_at w p)) = 1" by (cases "sd_done (side_at w p)") (simp_all add: front_message_def)
      moreover have "length (given w E) = pa_base p" using i(12) go nb by blast
      ultimately show "length (given w (E @ [e])) = pa_base p + 1" by (simp add: e)
    qed
    then show ?thesis by blast
  qed simp
  ultimately show ?thesis
    unfolding pairing_inv_def using i(2,11,17) go routed held by (auto simp: pairing_stopped_def)
qed

lemma stop_pairing_inv:
  assumes inv: "pairing_inv E (p\<lparr>pa_ended := b\<rparr>)" and go: "\<not> pairing_stopped p" and routed: "pa_routed p"
    and out: "stop_pairing R (r, p) = (r', p')"
  shows "pairing_inv E (p'\<lparr>pa_ended := b\<rparr>)" "kept (p\<lparr>pa_stop := pa_why p\<rparr>) p'" "pa_stop p' = pa_why p"
    "\<And>w. sd_done (side_at w p') = sd_done (side_at w p)"
proof -
  let ?q = "p\<lparr>pa_stop := pa_why p\<rparr>"
  note i = pairing_invD [OF inv, simplified]
  have q: "sides_inv E ?q" "waits_ok ?q" "solid ?q"
    using i(3) i(4) [OF routed] i(5) [OF routed] by (simp_all add: sides_inv_def waits_ok_def solid_def view_def apart_def)
  obtain r1 p1 where one: "stop_side R Requests (r, ?q) = (r1, p1)" by fastforce
  have two: "stop_side R Responses (r1, p1) = (r', p')" using out one by (simp add: stop_pairing_def)
  have t1: "trimmed ?q p1" using stop_side_trimmed [OF sides_invD(1) [OF q(1)], of R Requests r] one by simp
  have a1: "apart p1" using trimmed_apart [OF t1] sides_invD(1) [OF q(1)] by simp
  have t: "trimmed ?q p'" using trimmed_trans [OF t1] stop_side_trimmed [OF a1, of R Responses r1] two by simp
  note v1 = stop_side_views [OF sides_invD(1) [OF q(1)], where R = R and w = Requests and r = r, unfolded one snd_conv]
  note v2 = stop_side_views [OF a1, where R = R and w = Responses and r = r1, unfolded two snd_conv]
  have stopped: "sd_stopped (side_at w p') \<and> sd_done (side_at w p') = sd_done (side_at w p)" for w
  proof (cases w)
    case Requests
    then show ?thesis using v1 [of Requests] v2 [of Requests] by (auto simp: view_def split: if_splits)
  next
    case Responses
    then show ?thesis using v1 [of Responses] v2 [of Responses] by (auto simp: view_def split: if_splits)
  qed
  then show "\<And>w. sd_done (side_at w p') = sd_done (side_at w p)" by blast
  show k: "kept ?q p'" by (rule kept_trimmed [OF t]) (use sides_invD(2) [OF q(1)] in blast)
  have s: "sides_inv E p'" "waits_ok p'" "solid p'"
    by (rule sides_inv_trimmed [OF q(1) t], rule waits_ok_trimmed [OF q(2) t], rule solid_kept [OF k q(3)])
  note f = frame_ofD [OF keptD(1) [OF k]]
  show "pa_stop p' = pa_why p" by (simp add: f)
  have dir: "direction_ok (pa_directions p' d) \<and> dr_held (pa_directions p' d) = []" for d
  proof (cases "d = Unknown")
    case True
    then show ?thesis using keptD(7) [OF k] i(1,2) by simp
  next
    case False
    then obtain w where w: "sd_direction (side_at w p') = d" by (rule direction_side [OF s(1)])
    note v = sides_invD(3) [OF s(1), of w, unfolded w]
    show ?thesis using side_invD(1,9) [OF v] stopped by blast
  qed
  have "sd_ended (side_at w p') \<Longrightarrow> pa_ending p'" for w
    using i(17) [OF routed] keptD(3) [OF k, of w] f(8) by simp
  then show "pairing_inv E (p'\<lparr>pa_ended := b\<rparr>)"
    unfolding pairing_inv_def using s dir stopped i(11,12,14,15,16) go f routed by (auto simp: pairing_stopped_def)
qed

text \<open>What handing over leaves: nothing of the directions but how much of them is settled.\<close>

lemma stepped_popped: "stepped d 0 p (popped_both p)"
proof -
  have "dr_started (pa_directions (popped_both p) d') = dr_started (pa_directions p d') \<and> dr_start (pa_directions (popped_both p) d') = dr_start (pa_directions p d')
      \<and> dr_next (pa_directions (popped_both p) d') = dr_next (pa_directions p d')" for d'
    using popped_both_directions [of p d'] by auto
  then show ?thesis by (simp add: stepped_def)
qed

lemma stepped_kept: "kept p q \<Longrightarrow> stepped d 0 p q"
  by (rule stepped_went_on [OF went_on_kept])

lemma stepped_stop:
  assumes "kept (p\<lparr>pa_stop := x\<rparr>) p'"
  shows "stepped d 0 p p'"
  using stepped_kept [OF assms, of d] by (simp add: stepped_def)

lemma ended_same: "pa_ended p = b \<Longrightarrow> p\<lparr>pa_ended := b\<rparr> = (p :: pairing)"
  by (cases p) simp

lemma all_side: "(\<forall>w. P w) \<longleftrightarrow> P Requests \<and> P Responses"
  by (metis side_name.exhaust)

lemma hand_over_loop_inv:
  assumes "pairing_inv E p" "\<not> pairing_stopped p" "pa_routed p" "pa_decided p" "\<not> pa_ending p"
    "length (sd_done (pa_requests p)) \<le> fuel"
  shows "\<exists>r' p' X. hand_over_loop fuel decode R (r, p) acc = Some ((r', p'), acc @ X) \<and> pairing_inv (E @ X) p' \<and> stepped d 0 p p'
    \<and> (\<forall>e\<in>set X. ex_request e \<noteq> None \<and> ex_response e \<noteq> None)"
  using assms
proof (induction fuel arbitrary: p E acc)
  case 0
  have "\<not> sd_ended (side_at w p)" for w using pairing_invD(17) [OF 0(1,3)] 0(5) by blast
  from this [of Requests] 0 show ?case by (auto simp: hand_over_loop.simps [of 0] Let_def)
next
  case (Suc fuel)
  have none: "\<not> sd_ended (side_at w p)" for w using pairing_invD(17) [OF Suc.prems(1,3)] Suc.prems(5) by blast
  let ?both = "sd_done (pa_requests p) \<noteq> [] \<and> sd_done (pa_responses p) \<noteq> []"
  show ?case
  proof (cases ?both)
    case False
    then have "hand_over_loop (Suc fuel) decode R (r, p) acc = Some ((r, p), acc)"
      using none [of Requests] none [of Responses] by (auto simp: hand_over_loop.simps [of "Suc fuel"] Let_def)
    with Suc.prems(1) show ?thesis by (intro exI [of _ r] exI [of _ p] exI [of _ "[]"]) simp
  next
    case True
    then have all: "\<forall>w. sd_done (side_at w p) \<noteq> []" by (simp add: all_side)
    obtain e where e: "pop_exchange decode p = Some (e, popped_both p)"
      "\<And>E w. given w (E @ [e]) = given w E @ front_message (side_at w p)" "\<And>w. exchanged w e = None \<longleftrightarrow> sd_done (side_at w p) = []"
      by (rule pop_exchange_returns [of decode p]) blast
    have whole: "ex_request e \<noteq> None" "ex_response e \<noteq> None"
      using e(3) [of Requests] e(3) [of Responses] True by (simp_all add: exchanged_def)
    have keep: "(popped_both p)\<lparr>pa_ended := pa_ended p\<rparr> = popped_both p" by (rule ended_same) simp
    have inv: "pairing_inv (E @ [e]) (popped_both p)"
      using popped_both_inv [where E = E and p = p and b = "pa_ended p" and e = e] Suc.prems(1-4) all e(2) keep by simp
    show ?thesis
    proof (cases "pa_limit p \<ge> 0 \<and> int (pa_base p) = pa_limit p")
      case True
      obtain r1 p1 where st: "stop_pairing R (r, popped_both p) = (r1, p1)" by fastforce
      note s = stop_pairing_inv [where E = "E @ [e]" and b = "pa_ended p", OF _ _ _ st]
      have "pairing_inv (E @ [e]) (p1\<lparr>pa_ended := pa_ended p\<rparr>)" "kept ((popped_both p)\<lparr>pa_stop := pa_why (popped_both p)\<rparr>) p1"
        using s(1,2) inv Suc.prems(2-4) keep by simp_all
      moreover have "pa_ended p1 = pa_ended p" using frame_ofD(9) [OF keptD(1) [OF calculation(2)]] by simp
      ultimately have "pairing_inv (E @ [e]) p1" by (simp add: ended_same)
      moreover have "stepped d (0 + 0) p p1"
        by (rule stepped_trans [OF stepped_popped stepped_stop [OF \<open>kept _ p1\<close>]])
      moreover have "hand_over_loop (Suc fuel) decode R (r, p) acc = Some ((r1, p1), acc @ [e])"
        using True \<open>?both\<close> e(1) st by (simp add: hand_over_loop.simps [of "Suc fuel"] Let_def)
      ultimately show ?thesis using whole by (intro exI [of _ r1] exI [of _ p1] exI [of _ "[e]"]) simp
    next
      case False
      have "length (sd_done (pa_requests (popped_both p))) \<le> fuel"
        using Suc.prems(6) by simp
      with Suc.IH [OF inv, of "acc @ [e]"] Suc.prems(2-5) obtain r' p' X where
        ih: "hand_over_loop fuel decode R (r, popped_both p) (acc @ [e]) = Some ((r', p'), (acc @ [e]) @ X)"
          "pairing_inv ((E @ [e]) @ X) p'" "stepped d 0 (popped_both p) p'" "\<forall>e\<in>set X. ex_request e \<noteq> None \<and> ex_response e \<noteq> None"
        by auto
      have "stepped d (0 + 0) p p'" by (rule stepped_trans [OF stepped_popped ih(3)])
      moreover have "hand_over_loop (Suc fuel) decode R (r, p) acc = Some ((r', p'), acc @ e # X)"
        using False \<open>?both\<close> e(1) ih(1) by (auto simp: hand_over_loop.simps [of "Suc fuel"] Let_def)
      ultimately show ?thesis using ih(2,4) whole by (intro exI [of _ r'] exI [of _ p'] exI [of _ "e # X"]) simp
    qed
  qed
qed

lemma hand_over_inv:
  assumes inv: "pairing_inv E p" and "\<not> pa_ending p"
  shows "\<exists>r' p' X. hand_over_exchanges decode R (r, p) = Some ((r', p'), X) \<and> pairing_inv (E @ X) p' \<and> stepped d 0 p p'
    \<and> (\<forall>e\<in>set X. ex_request e \<noteq> None \<and> ex_response e \<noteq> None)"
proof (cases "\<not> pa_decided p \<or> pairing_stopped p")
  case True
  with inv show ?thesis by (intro exI [of _ r] exI [of _ p] exI [of _ "[]"]) (auto simp: hand_over_exchanges_def)
next
  case False
  then have "pa_routed p" using pairing_invD(14) [OF inv] by (auto simp: pairing_stopped_def)
  with hand_over_loop_inv [OF inv _ _ _ assms(2) order_refl, of decode R r "[]" d] False show ?thesis
    by (simp add: hand_over_exchanges_def)
qed

section \<open>Feed\<close>

lemma pump_any:
  assumes inv: "pairing_inv E p"
  shows "\<exists>r' p' refused. pump_all R (r, p) = Some ((r', p'), refused) \<and> pairing_inv E p' \<and> went_on p p'"
proof (cases "pairing_stopped p")
  case True
  then have "pump_all R (r, p) = Some ((r, p), False)" by (simp add: pump_all_def pump.simps)
  with inv show ?thesis by (intro exI [of _ r] exI [of _ p] exI [of _ False]) simp
next
  case False
  from pump_inv [OF inv this, of R r] show ?thesis by blast
qed

lemma part_next_went_on: "part_next d part p \<Longrightarrow> went_on p q \<Longrightarrow> part_next d part q"
  using outlineD [OF went_onD(5)] went_onD(6) by (simp add: part_next_def)

definition pair_fed :: "exchange list \<Rightarrow> direction \<Rightarrow> part \<Rightarrow> pairing \<Rightarrow> pairing \<Rightarrow> step \<Rightarrow> bool" where
  "pair_fed E d part p p' step \<longleftrightarrow>
     pairing_inv (E @ st_exchanges step) p' \<and> stepped d (st_consumed step) (start_direction d part p) p'
   \<and> st_consumed step \<le> pt_length part \<and> (st_result step = Refused \<and> st_exchanges step = [] \<or> st_consumed step = pt_length part)
   \<and> (\<forall>e\<in>set (st_exchanges step). ex_request e \<noteq> None \<and> ex_response e \<noteq> None)"

lemma pair_fedI:
  assumes "pairing_inv (E @ X) p'" "stepped d n (start_direction d part p) p'" "n \<le> pt_length part"
    "res = Refused \<and> X = [] \<or> n = pt_length part" "\<forall>e\<in>set X. ex_request e \<noteq> None \<and> ex_response e \<noteq> None"
  shows "pair_fed E d part p p' \<lparr>st_consumed = n, st_exchanges = X, st_result = res\<rparr>"
  using assms by (simp add: pair_fed_def)

lemma pair_feed_ok:
  assumes inv: "pairing_inv E p" and adm: "pair_admit p d part = None"
  shows "\<exists>r' p' step. pair_feed decode R (r, p) d part = Some (Inr ((r', p'), step)) \<and> pair_fed E d part p p' step"
proof -
  let ?q = "start_direction d part p"
  note s = start_direction_inv [OF inv adm]
  have pn: "part_next d part ?q" using s(2-7) by (simp add: part_next_def)
  have ending: "\<not> pa_ending ?q"
    using adm frame_ofD(8) [OF s(8)] by (auto simp: pair_admit_def split: if_splits)
  show ?thesis
  proof (cases "pairing_stopped ?q")
    case True
    have "pairing_inv E (advance_next d (pt_length part) ?q)"
      by (rule advance_next_inv [OF s(1,4,2)]) (use True s(3,6) in auto)
    then have "pair_fed E d part p (advance_next d (pt_length part) ?q)
        \<lparr>st_consumed = pt_length part, st_exchanges = [], st_result = pairing_result ?q\<rparr>"
      by (intro pair_fedI) (simp_all add: stepped_advance)
    with True adm show ?thesis by (simp add: pair_feed_def Let_def)
  next
    case False
    from pump_inv [OF s(1) False, of R r] obtain r1 p1 refused1 where
      o1: "pump_all R (r, ?q) = Some ((r1, p1), refused1)" "pairing_inv E p1" "went_on ?q p1" by blast
    note st1 = stepped_went_on [OF o1(3), of d]
    show ?thesis
    proof (cases refused1)
      case True
      have "pair_fed E d part p p1 \<lparr>st_consumed = 0, st_exchanges = [], st_result = Refused\<rparr>"
        by (rule pair_fedI) (use o1(2) st1 in simp_all)
      with True o1(1) adm False show ?thesis by (simp add: pair_feed_def Let_def)
    next
      case go1: False
      have "\<not> pairing_stopped p1" using stopped_frame [OF went_onD(1) [OF o1(3)]] False by simp
      from accept_inv [OF o1(2) this part_next_went_on [OF pn o1(3)], of R r1] obtain r2 p2 n refused2 where
        o2: "accept R d part (r1, p1) = Some ((r2, p2), n, refused2)" "pairing_inv E p2" "stepped d n p1 p2" "n \<le> pt_length part"
          "refused2 \<or> n = pt_length part" by blast
      have st2: "stepped d n ?q p2" using stepped_trans [OF st1 o2(3)] by simp
      show ?thesis
      proof (cases refused2)
        case True
        have "pair_fed E d part p p2 \<lparr>st_consumed = n, st_exchanges = [], st_result = Refused\<rparr>"
          by (rule pair_fedI) (use o2 st2 in simp_all)
        with True o1(1) o2(1) go1 adm False show ?thesis by (simp add: pair_feed_def Let_def)
      next
        case go2: False
        from pump_any [OF o2(2), of R r2] obtain r3 p3 refused3 where
          o3: "pump_all R (r2, p2) = Some ((r3, p3), refused3)" "pairing_inv E p3" "went_on p2 p3" by blast
        have st3: "stepped d n ?q p3" using stepped_trans [OF st2 stepped_went_on [OF o3(3)]] by simp
        show ?thesis
        proof (cases refused3)
          case True
          have "pair_fed E d part p p3 \<lparr>st_consumed = n, st_exchanges = [], st_result = Refused\<rparr>"
            by (rule pair_fedI) (use o2(4) o3 st3 in simp_all)
          with True o1(1) o2(1) o3(1) go1 go2 adm False show ?thesis by (simp add: pair_feed_def Let_def)
        next
          case go3: False
          have "\<not> pa_ending p3" using st3 ending by (simp add: stepped_def)
          from hand_over_inv [OF o3(2) this, of decode R r3 d] obtain r4 p4 X where
            o4: "hand_over_exchanges decode R (r3, p3) = Some ((r4, p4), X)" "pairing_inv (E @ X) p4" "stepped d 0 p3 p4"
              "\<forall>e\<in>set X. ex_request e \<noteq> None \<and> ex_response e \<noteq> None" by blast
          have "pair_fed E d part p p4 \<lparr>st_consumed = n, st_exchanges = X, st_result = pairing_result p4\<rparr>"
            by (rule pair_fedI) (use o2(4,5) go2 o4 stepped_trans [OF st3 o4(3)] in simp_all)
          with o1(1) o2(1) o3(1) o4(1) go1 go2 go3 adm False show ?thesis by (simp add: pair_feed_def Let_def)
        qed
      qed
    qed
  qed
qed

section \<open>End\<close>

lemma end_direction_parts:
  "side_at w (end_direction d p) = side_at w p" "frame_of (end_direction d p) = frame_of p"
  "\<exists>b. pa_directions (end_direction d p) d' = (pa_directions p d')\<lparr>dr_beginning := b\<rparr>"
  "bg_certain (dr_beginning (pa_directions (end_direction d p) d))"
  "d' \<noteq> d \<Longrightarrow> pa_directions (end_direction d p) d' = pa_directions p d'"
  using beginning_same by (auto simp: end_direction_def Let_def beginning_close_def)

lemma end_direction_inv: "pairing_inv E p \<Longrightarrow> pairing_inv E (end_direction d p)"
  by (rule pairing_inv_cong [of E p])
    (simp_all add: frame_ofD [OF end_direction_parts(2)] end_direction_parts(1,3) | metis pairing_invD(14))+

lemma stepped_end_direction: "stepped d 0 p (end_direction d' p)"
proof -
  have "dr_started (pa_directions (end_direction d' p) x) = dr_started (pa_directions p x)
      \<and> dr_start (pa_directions (end_direction d' p) x) = dr_start (pa_directions p x)
      \<and> dr_next (pa_directions (end_direction d' p) x) = dr_next (pa_directions p x)" for x
    using end_direction_parts(3) [of d' p x] by auto
  then show ?thesis using frame_ofD(1,8,9) [OF end_direction_parts(2)] by (simp add: stepped_def)
qed

lemma end_side_inv:
  assumes inv: "pairing_inv E p" and go: "\<not> pairing_stopped p" and routed: "pa_routed p" and ending: "pa_ending p"
    and out: "end_side R w (r, p) = (r', p')"
  shows "pairing_inv E p'" "frame_of p' = frame_of p" "sd_ended (side_at w p')"
    "\<And>w'. sd_ended (side_at w' p) \<Longrightarrow> sd_ended (side_at w' p')" "stepped d 0 p p'"
proof -
  let ?s = "side_at w p"
  note i = pairing_invD [OF inv]
  note sides = i(4) [OF routed] and waits = i(5) [OF routed]
  note view = sides_invD(3) [OF sides, of w]
  have ok: "pairing_inv E p' \<and> frame_of p' = frame_of p \<and> sd_ended (side_at w p')
      \<and> (\<forall>w'. sd_ended (side_at w' p) \<longrightarrow> sd_ended (side_at w' p')) \<and> stepped d 0 p p'"
    if q: "sides_inv E q" "waits_ok q" "q = put_side w s p" "sd_ended s" "sd_direction s = sd_direction ?s" and k: "kept q p'" "sides_inv E p'" "waits_ok p'" for q s
  proof -
    have f: "frame_of p' = frame_of p" using keptD(1) [OF k(1)] q(3) by simp
    have e: "sd_ended (side_at w' p') = (w' = w \<or> sd_ended (side_at w' p))" for w' using keptD(3) [OF k(1), of w'] q(3,4) by simp
    have "solid q" using i(3) q(3) by (simp add: solid_def)
    then have "pairing_inv E p'"
      by (intro pairing_inv_reading [OF inv routed go k(2,3) solid_kept [OF k(1)] f]) (use keptD(7) [OF k(1)] q(3) ending in simp_all)
    moreover have "stepped d 0 p p'"
      using stepped_kept [OF k(1), of d] frame_ofD(8,9) [OF frame_of_put(1)] by (simp add: stepped_def q(3))
    ultimately show ?thesis using f e by blast
  qed
  have "pairing_inv E p' \<and> frame_of p' = frame_of p \<and> sd_ended (side_at w p')
      \<and> (\<forall>w'. sd_ended (side_at w' p) \<longrightarrow> sd_ended (side_at w' p')) \<and> stepped d 0 p p'"
  proof (cases "sd_ended ?s")
    case True
    with out inv show ?thesis by (simp add: end_side_def Let_def)
  next
    case False
    show ?thesis
    proof (cases "sd_stopped ?s")
      case True
      then have p': "p' = put_side w (?s\<lparr>sd_ended := True\<rparr>) p" using out False by (simp add: end_side_def Let_def)
      have q: "sides_inv E p'"
        unfolding p' by (rule sides_inv_put [OF sides]) (use view True in \<open>simp_all add: side_inv_def side_history_def\<close>)
      moreover have "waits_ok p'" using waits True by (simp add: p' waits_ok_def)
      ultimately show ?thesis by (intro ok [of p' "?s\<lparr>sd_ended := True\<rparr>"]) (simp_all add: p')
    next
      case active: False
      obtain r1 parser pr where fin: "end_parser R r (sd_parser ?s) = (r1, parser, pr)" by (metis prod.exhaust)
      let ?q = "put_side w (?s\<lparr>sd_ended := True, sd_parser := parser\<rparr>) p"
      let ?t = "?s\<lparr>sd_ended := True, sd_parser := parser, sd_done := sd_done ?s @ finished_of pr\<rparr>"
      note e = side_ends [OF view active fin]
      have p': "finish_progress R w pr (r1, ?q) = (r', p')" using out False active fin by (simp add: end_side_def Let_def)
      have a: "apart ?q" using sides_invD(1) [OF sides] by (simp add: apart_put)
      have d: "with_done w (finished_of pr) ?q = put_side w ?t p"
        by (cases w) (simp_all add: with_done_def put_side_def)
      have t: "trimmed (put_side w ?t p) p'" using finish_progress_trimmed [OF a, of pr w R r1] e(5) d p' by simp
      have q: "sides_inv E (put_side w ?t p)" by (rule sides_inv_put [OF sides]) (use e(1) in simp_all)
      moreover have "waits_ok (put_side w ?t p)"
        by (intro waits_ok_put) (use e(2) in \<open>auto dest: waits_okD [OF waits]\<close>)
      moreover have "kept (put_side w ?t p) p'" by (rule kept_trimmed [OF t]) (use sides_invD(2) [OF q] in simp)
      ultimately show ?thesis
        using sides_inv_trimmed [OF _ t] waits_ok_trimmed [OF _ t] by (intro ok [of "put_side w ?t p" ?t]) simp_all
    qed
  qed
  then show "pairing_inv E p'" "frame_of p' = frame_of p" "sd_ended (side_at w p')"
    "\<And>w'. sd_ended (side_at w' p) \<Longrightarrow> sd_ended (side_at w' p')" "stepped d 0 p p'" by blast+
qed

lemma end_answers_inv:
  assumes inv: "pairing_inv E p" and go: "\<not> pairing_stopped p" and routed: "pa_routed p" and ended: "sd_ended (pa_requests p)"
  shows "\<exists>r' p' refused. end_answers 1 R (r, p) = Some ((r', p'), refused) \<and> pairing_inv E p' \<and> frame_of p' = frame_of p \<and> stepped d 0 p p'
    \<and> (refused \<or> \<not> sd_waiting (pa_responses p') \<or> sd_stopped (pa_responses p'))"
proof -
  note i = pairing_invD [OF inv]
  obtain r1 p1 where an: "pair_answer R (r, p) = (r1, p1)" by fastforce
  note a = pair_answer_sides [OF i(4) [OF routed] i(5) [OF routed] an]
  note k = keptD [OF a(3)]
  note f = frame_ofD [OF k(1)]
  have inv1: "pairing_inv E p1"
    by (rule pairing_inv_reading [OF inv routed go a(1,2) solid_kept [OF a(3) i(3)] k(1) k(7)]) (simp add: k(3))
  have go1: "\<not> pairing_stopped p1" using stopped_frame [OF k(1)] go by simp
  from pump_inv [OF inv1 go1, of R r1] obtain r' p' refused where
    o: "pump_all R (r1, p1) = Some ((r', p'), refused)" "pairing_inv E p'" "went_on p1 p'"
      "pa_routed p1 \<and> \<not> refused \<longrightarrow> (\<exists>r0 p0. pair_answer R (r0, p0) = (r', p') \<and> sides_inv E p0 \<and> went_on p1 p0)"
    by blast
  have waits: "\<not> sd_waiting (pa_responses p') \<or> sd_stopped (pa_responses p')" if "\<not> refused"
  proof -
    from o(4) that f(2) routed obtain r0 p0 where p0: "pair_answer R (r0, p0) = (r', p')" "sides_inv E p0" "went_on p1 p0" by auto
    have "pa_routed p0" using frame_ofD(2) [OF went_onD(1) [OF p0(3)]] f(2) routed by simp
    moreover have "sd_ended (pa_requests p0)" using went_onD(3) [OF p0(3), of Requests] k(3) [of Requests] ended by simp
    ultimately show ?thesis
      by (intro pair_answer_unwaits [OF sides_invD(1) [OF p0(2)] _ _ p0(1)]) (simp_all add: known_method_def Let_def)
  qed
  have "end_answers 1 R (r, p) = Some ((r', p'), refused)"
    using an o(1) waits by (cases refused) (simp_all add: end_answers.simps)
  moreover have "stepped d (0 + 0) p p'" by (rule stepped_trans [OF stepped_kept [OF a(3)] stepped_went_on [OF o(3)]])
  ultimately show ?thesis using o(2) waits went_onD(1) [OF o(3)] k(1) by auto
qed

text \<open>Exchanges that answer in order: a side that has no message in one has none in any later.\<close>

definition answers_in_order :: "exchange list \<Rightarrow> bool" where
  "answers_in_order E \<longleftrightarrow> (\<forall>w. \<exists>n. map (exchanged w) E = map Some (List.map_filter (exchanged w) E) @ replicate n None)"

definition all_whole :: "exchange list \<Rightarrow> bool" where
  "all_whole E \<longleftrightarrow> (\<forall>e\<in>set E. ex_request e \<noteq> None \<and> ex_response e \<noteq> None)"

lemma map_filter_append: "List.map_filter f (xs @ ys) = List.map_filter f xs @ List.map_filter f ys"
  by (simp add: List.map_filter_def)

lemma all_whole_exchanged:
  assumes "all_whole E"
  shows "map (exchanged w) E = map Some (List.map_filter (exchanged w) E)" "length (given w E) = length E"
proof -
  have "\<forall>e\<in>set E. exchanged w e \<noteq> None" using assms by (cases w) (auto simp: all_whole_def exchanged_def)
  then show m: "map (exchanged w) E = map Some (List.map_filter (exchanged w) E)"
    by (induction E) (auto simp: List.map_filter_def)
  then show "length (given w E) = length E" by (metis given_def length_map)
qed

lemma all_whole_in_order: "all_whole E \<Longrightarrow> answers_in_order E"
  unfolding answers_in_order_def by (intro allI exI [of _ 0]) (simp add: all_whole_exchanged(1))

lemma in_order_snoc:
  assumes "answers_in_order E" "\<And>w. exchanged w e \<noteq> None \<Longrightarrow> length (given w E) = length E"
  shows "answers_in_order (E @ [e])"
  unfolding answers_in_order_def
proof
  fix w
  obtain n where n: "map (exchanged w) E = map Some (List.map_filter (exchanged w) E) @ replicate n None"
    using assms(1) by (auto simp: answers_in_order_def)
  show "\<exists>n. map (exchanged w) (E @ [e]) = map Some (List.map_filter (exchanged w) (E @ [e])) @ replicate n None"
  proof (cases "exchanged w e")
    case None
    then show ?thesis using n by (intro exI [of _ "Suc n"]) (simp add: map_filter_append map_filter_simps replicate_append_same)
  next
    case (Some m)
    have "length (map (exchanged w) E) = length (given w E) + n" using n by (simp add: given_def)
    then have "n = 0" using assms(2) [of w] Some by simp
    then show ?thesis using n Some by (intro exI [of _ 0]) (simp add: map_filter_append map_filter_simps)
  qed
qed

lemma end_hand_over_inv:
  assumes "pairing_inv E (p\<lparr>pa_ended := True\<rparr>)" "pa_routed p" "pa_decided p" "answers_in_order E"
    "\<And>w. sd_done (side_at w p) \<noteq> [] \<Longrightarrow> length (given w E) = length E"
    "length (sd_done (pa_requests p)) + length (sd_done (pa_responses p)) \<le> fuel"
  shows "\<exists>r' p' X. end_hand_over fuel decode R (r, p) acc = Some ((r', p'), acc @ X) \<and> pairing_inv (E @ X) (p'\<lparr>pa_ended := True\<rparr>)
    \<and> answers_in_order (E @ X) \<and> stepped d 0 p p'"
  using assms
proof (induction fuel arbitrary: r p E acc)
  case 0
  then show ?case by (intro exI [of _ r] exI [of _ p] exI [of _ "[]"]) (simp add: end_hand_over.simps [of 0])
next
  case (Suc fuel)
  show ?case
  proof (cases "pairing_stopped p \<or> sd_done (pa_requests p) = [] \<and> sd_done (pa_responses p) = []")
    case True
    with Suc.prems(1,4) show ?thesis
      by (intro exI [of _ r] exI [of _ p] exI [of _ "[]"]) (simp add: end_hand_over.simps [of "Suc fuel"] Let_def)
  next
    case False
    then have go: "\<not> pairing_stopped p" by simp
    obtain e where e: "pop_exchange decode p = Some (e, popped_both p)"
      "\<And>E w. given w (E @ [e]) = given w E @ front_message (side_at w p)" "\<And>w. exchanged w e = None \<longleftrightarrow> sd_done (side_at w p) = []"
      by (rule pop_exchange_returns [of decode p]) blast
    have inv: "pairing_inv (E @ [e]) ((popped_both p)\<lparr>pa_ended := True\<rparr>)"
      by (rule popped_both_inv [OF Suc.prems(1) go Suc.prems(2,3)]) (use e(2) in simp_all)
    have order: "answers_in_order (E @ [e])" by (rule in_order_snoc [OF Suc.prems(4)]) (use Suc.prems(5) e(3) in auto)
    obtain r1 p1 where p1: "(if pa_limit p \<ge> 0 \<and> int (pa_base p) = pa_limit p then stop_pairing R (r, popped_both p) else (r, popped_both p)) = (r1, p1)"
      by fastforce
    have o1: "pairing_inv (E @ [e]) (p1\<lparr>pa_ended := True\<rparr>) \<and> (\<forall>w. sd_done (side_at w p1) = tl (sd_done (side_at w p)))
        \<and> stepped d 0 p p1 \<and> pa_routed p1 \<and> pa_decided p1"
    proof (cases "pa_limit p \<ge> 0 \<and> int (pa_base p) = pa_limit p")
      case True
      then have st: "stop_pairing R (r, popped_both p) = (r1, p1)" using p1 by simp
      note s = stop_pairing_inv [OF inv _ _ st]
      have k: "kept ((popped_both p)\<lparr>pa_stop := pa_why (popped_both p)\<rparr>) p1" using s(2) go Suc.prems(2) by simp
      have "stepped d (0 + 0) p p1" by (rule stepped_trans [OF stepped_popped stepped_stop [OF k]])
      with s(1,4) frame_ofD(2,3) [OF keptD(1) [OF k]] go Suc.prems(2,3) show ?thesis by simp
    next
      case False
      with p1 have "p1 = popped_both p" by (simp only: if_False prod.inject)
      with inv stepped_popped Suc.prems(2,3) show ?thesis by simp
    qed
    have len: "length (sd_done (pa_requests p1)) + length (sd_done (pa_responses p1)) \<le> fuel"
      using o1 [THEN conjunct2, THEN conjunct1, THEN spec, of Requests] o1 [THEN conjunct2, THEN conjunct1, THEN spec, of Responses]
        False Suc.prems(6) by (cases "sd_done (pa_requests p)"; cases "sd_done (pa_responses p)") auto
    have weak: "length (given w (E @ [e])) = length (E @ [e])" if "sd_done (side_at w p1) \<noteq> []" for w
    proof -
      have "sd_done (side_at w p) \<noteq> []" using that o1 by auto
      then have "length (front_message (side_at w p)) = 1" by (cases "sd_done (side_at w p)") (simp_all add: front_message_def)
      with Suc.prems(5) [OF \<open>sd_done (side_at w p) \<noteq> []\<close>] show ?thesis by (simp add: e(2))
    qed
    from Suc.IH [OF _ _ _ order weak len, of r1 "acc @ [e]"] o1 obtain r' p' X where
      ih: "end_hand_over fuel decode R (r1, p1) (acc @ [e]) = Some ((r', p'), (acc @ [e]) @ X)"
        "pairing_inv ((E @ [e]) @ X) (p'\<lparr>pa_ended := True\<rparr>)" "answers_in_order ((E @ [e]) @ X)" "stepped d 0 p1 p'"
      by blast
    have "end_hand_over (Suc fuel) decode R (r, p) acc = Some ((r', p'), acc @ e # X)"
      using False e(1) p1 ih(1) by (auto simp: end_hand_over.simps [of "Suc fuel"] Let_def)
    moreover have "stepped d (0 + 0) p p'" using o1 ih(4) stepped_trans by blast
    ultimately show ?thesis using ih(2,3) by (intro exI [of _ r'] exI [of _ p'] exI [of _ "e # X"]) simp
  qed
qed

definition pair_closed :: "exchange list \<Rightarrow> direction \<Rightarrow> pairing \<Rightarrow> pairing \<Rightarrow> step \<Rightarrow> bool" where
  "pair_closed E d p p' step \<longleftrightarrow>
     pairing_inv (E @ st_exchanges step) p' \<and> answers_in_order (E @ st_exchanges step) \<and> pa_ending p' \<and> st_consumed step = 0
   \<and> stepped d 0 (p\<lparr>pa_ending := pa_ending p', pa_ended := pa_ended p'\<rparr>) p'
   \<and> (st_result step = End \<and> pa_ended p' \<or> st_result step = Refused \<and> st_exchanges step = [] \<and> \<not> pa_ended p')"

lemma pair_closedI:
  assumes "pairing_inv (E @ X) p'" "answers_in_order (E @ X)" "pa_ending p'"
    "stepped d 0 (p\<lparr>pa_ending := pa_ending p', pa_ended := pa_ended p'\<rparr>) p'"
    "res = End \<and> pa_ended p' \<or> res = Refused \<and> X = [] \<and> \<not> pa_ended p'"
  shows "pair_closed E d p p' \<lparr>st_consumed = 0, st_exchanges = X, st_result = res\<rparr>"
  using assms by (simp add: pair_closed_def)

lemma pairing_inv_ended:
  assumes "pairing_inv E p"
  shows "pairing_inv E (p\<lparr>pa_ended := True\<rparr>)" "pairing_inv E (p\<lparr>pa_ending := True\<rparr>)"
    "pairing_inv E (p\<lparr>pa_ending := True, pa_ended := True\<rparr>)"
  using pairing_invD(14) [OF assms] beginning_same by (auto intro!: pairing_inv_cong [OF assms])

lemma pair_end_ok:
  assumes inv: "pairing_inv E p" and whole: "pa_ended p \<or> all_whole E" and order: "answers_in_order E"
    and ending: "pa_ended p \<Longrightarrow> pa_ending p"
  shows "\<exists>r' p' step. pair_end decode R (r, p) = Some ((r', p'), step) \<and> pair_closed E d p p' step"
proof (cases "pa_ended p \<or> pairing_stopped p")
  case True
  let ?q = "if pa_ended p then p else p\<lparr>pa_ending := True, pa_ended := True\<rparr>"
  have "pair_end decode R (r, p) = Some ((r, ?q), end_step End)" using True by (auto simp: pair_end_def)
  moreover have "pair_closed E d p ?q (end_step End)"
    unfolding end_step_def using order ending inv pairing_inv_ended(3) [OF inv]
    by (intro pair_closedI) (auto simp: stepped_def)
  ultimately show ?thesis by blast
next
  case False
  then have E: "all_whole E" and go: "\<not> pairing_stopped p" and run: "\<not> pa_ended p" using whole by simp_all
  let ?p0 = "end_direction Received (end_direction Sent (p\<lparr>pa_ending := True\<rparr>))"
  have inv0: "pairing_inv E ?p0" by (intro end_direction_inv pairing_inv_ended(2) inv)
  have f0: "frame_of ?p0 = frame_of (p\<lparr>pa_ending := True\<rparr>)" by (simp add: end_direction_parts(2))
  have go0: "\<not> pairing_stopped ?p0" using stopped_frame [OF f0] go by (simp add: pairing_stopped_def)
  have certain: "bg_certain (dr_beginning (pa_directions ?p0 Sent))" "bg_certain (dr_beginning (pa_directions ?p0 Received))"
    by (simp_all add: end_direction_parts(4,5))
  have st0: "stepped d 0 (p\<lparr>pa_ending := True\<rparr>) ?p0"
    using stepped_trans [OF stepped_end_direction stepped_end_direction] by simp
  obtain r1 p1 where dec: "decide R (r, ?p0) = (r1, p1)" by fastforce
  note o1 = decide_inv [OF inv0 go0 dec]
  have st1: "stepped d 0 (p\<lparr>pa_ending := True\<rparr>) p1"
    using stepped_trans [OF st0 stepped_decide [OF inv0 go0 dec]] by simp
  have e1: "pa_ending p1" "\<not> pa_ended p1" using st1 run by (simp_all add: stepped_def)
  show ?thesis
  proof (cases "pa_unread p1")
    case True
    have "pair_closed E d p (p1\<lparr>pa_ended := True\<rparr>) (end_step End)"
      unfolding end_step_def using pairing_inv_ended(1) [OF o1(1)] order e1 st1 
      by (intro pair_closedI) (simp_all add: stepped_def)
    with True dec False show ?thesis by (auto simp: pair_end_def)
  next
    case read: False
    have r1: "pa_decided p1" "pa_routed p1" using o1(6) [OF certain] read by auto
    have go1: "\<not> pairing_stopped p1" using read o1(7) go0 by (simp add: pairing_stopped_def)
    from pump_inv [OF o1(1) go1, of R r1] obtain r2 p2 refused2 where
      o2: "pump_all R (r1, p1) = Some ((r2, p2), refused2)" "pairing_inv E p2" "went_on p1 p2" by blast
    note f2 = frame_ofD [OF went_onD(1) [OF o2(3)]]
    have st2: "stepped d 0 (p\<lparr>pa_ending := True\<rparr>) p2" using stepped_trans [OF st1 stepped_went_on [OF o2(3)]] by simp
    show ?thesis
    proof (cases refused2)
      case True
      have "pair_closed E d p p2 (end_step Refused)"
        unfolding end_step_def using o2(2) order f2 e1 st2 run by (intro pair_closedI) (simp_all add: stepped_def)
      with True dec False read o2(1) show ?thesis by (auto simp: pair_end_def)
    next
      case go2: False
      have s2: "\<not> pairing_stopped p2" "pa_routed p2" "pa_ending p2" using f2 r1 e1 go1 by (simp_all add: pairing_stopped_def)
      obtain r3 p3 where es: "end_side R Requests (r2, p2) = (r3, p3)" by fastforce
      note o3 = end_side_inv [OF o2(2) s2 es]
      note f3 = frame_ofD [OF o3(2)]
      have s3: "\<not> pairing_stopped p3" "pa_routed p3" using f3 s2 by (simp_all add: pairing_stopped_def)
      from end_answers_inv [OF o3(1) s3, of R r3 d] o3(3) obtain r4 p4 refused4 where
        o4: "end_answers 1 R (r3, p3) = Some ((r4, p4), refused4)" "pairing_inv E p4" "frame_of p4 = frame_of p3" "stepped d 0 p3 p4"
        by auto
      note f4 = frame_ofD [OF o4(3)]
      have st4: "stepped d 0 (p\<lparr>pa_ending := True\<rparr>) p4"
        using stepped_trans [OF stepped_trans [OF st2 o3(5)] o4(4)] by simp
      show ?thesis
      proof (cases refused4)
        case True
        have "pair_closed E d p p4 (end_step Refused)"
          unfolding end_step_def using o4(2) order f2 f3 f4 e1 st4 run by (intro pair_closedI) (simp_all add: stepped_def)
        with True dec False read go2 o2(1) es o4(1) show ?thesis by (auto simp: pair_end_def)
      next
        case go4: False
        have s4: "\<not> pairing_stopped p4" "pa_routed p4" "pa_ending p4" using f4 f3 s2 by (simp_all add: pairing_stopped_def)
        obtain r5 p5 where es5: "end_side R Responses (r4, p4) = (r5, p5)" by fastforce
        note o5 = end_side_inv [OF o4(2) s4 es5]
        note f5 = frame_ofD [OF o5(2)]
        have "pa_decided p5" "pa_routed p5" using f5 f4 f3 f2 r1 by simp_all
        from end_hand_over_inv [OF pairing_inv_ended(1) [OF o5(1)] this(2,1) order all_whole_exchanged(2) [OF E] order_refl, of decode R r5 "[]" d]
        obtain r6 p6 X where
          o6: "end_hand_over (length (sd_done (pa_requests p5)) + length (sd_done (pa_responses p5))) decode R (r5, p5) [] = Some ((r6, p6), X)"
            "pairing_inv (E @ X) (p6\<lparr>pa_ended := True\<rparr>)" "answers_in_order (E @ X)" "stepped d 0 p5 p6"
          by auto
        have st6: "stepped d 0 (p\<lparr>pa_ending := True\<rparr>) p6"
          using stepped_trans [OF stepped_trans [OF st4 o5(5)] o6(4)] by simp
        have "pa_ending p6" using st6 by (simp add: stepped_def)
        have "pair_closed E d p (p6\<lparr>pa_ended := True\<rparr>) ((end_step End)\<lparr>st_exchanges := X\<rparr>)"
          unfolding end_step_def step.update_convs using o6(2,3) st6 \<open>pa_ending p6\<close>
          by (intro pair_closedI) (simp_all add: stepped_def)
        moreover have "pair_end decode R (r, p) = Some ((r6, p6\<lparr>pa_ended := True\<rparr>), (end_step End)\<lparr>st_exchanges := X\<rparr>)"
          using dec False read go2 o2(1) es o4(1) go4 es5 o6(1) by (simp add: pair_end_def Let_def)
        ultimately show ?thesis by blast
      qed
    qed
  qed
qed
end
