(* ===== verification/Pairing_Run.thy ===== *)
theory Pairing_Run
  imports Pairing_Calls
begin

text \<open>
  A pairing over any sequence of calls.  \<open>Feed\<close> and \<open>End\<close> may be called in any order with any arguments;
  a part \<open>Feed\<close> does not admit leaves the pairing as it was.  The log is what the accepted calls answered.
\<close>

datatype pairing_call = FeedCall direction part | EndCall

definition pair_call ::
    "json_decoder \<Rightarrow> 'r reserver \<Rightarrow> pairing_call \<Rightarrow> 'r \<times> pairing \<Rightarrow> (('r \<times> pairing) \<times> (pairing_call \<times> step) list) option" where
  "pair_call decode R c rp =
    (case c of
       FeedCall d part \<Rightarrow>
         (case pair_feed decode R rp d part of
            None \<Rightarrow> None
          | Some (Inl _) \<Rightarrow> Some (rp, [])
          | Some (Inr (rp', step)) \<Rightarrow> Some (rp', [(c, step)]))
     | EndCall \<Rightarrow>
         (case pair_end decode R rp of
            None \<Rightarrow> None
          | Some (rp', step) \<Rightarrow> Some (rp', [(c, step)])))"

fun pair_run ::
    "json_decoder \<Rightarrow> 'r reserver \<Rightarrow> pairing_call list \<Rightarrow> 'r \<times> pairing \<Rightarrow> (('r \<times> pairing) \<times> (pairing_call \<times> step) list) option" where
  "pair_run decode R [] rp = Some (rp, [])"
| "pair_run decode R (c # cs) rp =
    (case pair_call decode R c rp of
       None \<Rightarrow> None
     | Some (rp1, one) \<Rightarrow>
         (case pair_run decode R cs rp1 of None \<Rightarrow> None | Some (rp2, rest) \<Rightarrow> Some (rp2, one @ rest)))"

definition log_exchanges :: "(pairing_call \<times> step) list \<Rightarrow> exchange list" where
  "log_exchanges log = concat (map (\<lambda>(c, s). st_exchanges s) log)"

definition call_consumed :: "direction \<Rightarrow> pairing_call \<times> step \<Rightarrow> nat" where
  "call_consumed d x = (case x of (FeedCall d' _, s) \<Rightarrow> if d' = d then st_consumed s else 0 | (EndCall, _) \<Rightarrow> 0)"

definition log_consumed :: "direction \<Rightarrow> (pairing_call \<times> step) list \<Rightarrow> nat" where
  "log_consumed d log = sum_list (map (call_consumed d) log)"

text \<open>A call uses its part up, or the reserver refused; \<open>End\<close> ends, or the reserver refused.\<close>

definition call_ok :: "pairing_call \<times> step \<Rightarrow> bool" where
  "call_ok x =
    (case x of
       (FeedCall d part, s) \<Rightarrow>
         st_consumed s = pt_length part \<or> st_consumed s \<le> pt_length part \<and> st_result s = Refused \<and> st_exchanges s = []
     | (EndCall, s) \<Rightarrow> st_consumed s = 0 \<and> (st_result s = End \<or> st_result s = Refused \<and> st_exchanges s = []))"

section \<open>What holds after any calls\<close>

definition run_inv :: "(pairing_call \<times> step) list \<Rightarrow> pairing \<Rightarrow> bool" where
  "run_inv log p \<longleftrightarrow>
     pairing_inv (log_exchanges log) p \<and> answers_in_order (log_exchanges log)
   \<and> (pa_ended p \<or> all_whole (log_exchanges log)) \<and> (pa_ended p \<longrightarrow> pa_ending p) \<and> list_all call_ok log
   \<and> (\<forall>d. dr_next (pa_directions p d) = dr_start (pa_directions p d) + log_consumed d log)"

lemma log_append [simp]:
  "log_exchanges (a @ b) = log_exchanges a @ log_exchanges b" "log_consumed d (a @ b) = log_consumed d a + log_consumed d b"
  by (simp_all add: log_exchanges_def log_consumed_def)

lemma log_one [simp]: "log_exchanges [(c, s)] = st_exchanges s" "log_exchanges [] = []" "log_consumed d [] = 0"
  "log_consumed d [x] = call_consumed d x"
  by (simp_all add: log_exchanges_def log_consumed_def)

lemma new_run_inv: "run_inv [] (new_pairing limits)"
  using new_pairing_inv [of limits]
  by (simp add: run_inv_def answers_in_order_def all_whole_def map_filter_simps)
    (simp add: new_pairing_def zero_direction_def)

lemma start_direction_consumed:
  assumes "pairing_inv E p" "\<And>d. dr_next (pa_directions p d) = dr_start (pa_directions p d) + n d"
  shows "dr_next (pa_directions (start_direction d part p) d') = dr_start (pa_directions (start_direction d part p) d') + n d'"
proof (cases "dr_started (pa_directions p d)")
  case False
  then have "dr_next (pa_directions p d) = 0" using direction_okD(6) [OF pairing_invD(1) [OF assms(1), of d]] by blast
  then have "n d = 0" using assms(2) [of d] by simp
  with assms(2) show ?thesis by (simp add: start_direction_def Let_def)
qed (use assms(2) in \<open>simp add: start_direction_def\<close>)

lemma pair_call_inv:
  assumes inv: "run_inv log p"
  shows "\<exists>r' p' one. pair_call decode R c (r, p) = Some ((r', p'), one) \<and> run_inv (log @ one) p'"
proof -
  let ?E = "log_exchanges log"
  have i: "pairing_inv ?E p" "answers_in_order ?E" "pa_ended p \<or> all_whole ?E" "pa_ended p \<Longrightarrow> pa_ending p"
    "\<And>d. dr_next (pa_directions p d) = dr_start (pa_directions p d) + log_consumed d log"
    "list_all call_ok log"
    using inv by (auto simp: run_inv_def)
  show ?thesis
  proof (cases c)
    case (FeedCall d part)
    show ?thesis
    proof (cases "pair_admit p d part")
      case (Some e)
      then show ?thesis using inv FeedCall
        by (intro exI [of _ r] exI [of _ p] exI [of _ "[]"]) (simp add: pair_call_def pair_feed_def)
    next
      case None
      from pair_feed_ok [OF i(1) None, of decode R r] obtain r' p' step where
        o: "pair_feed decode R (r, p) d part = Some (Inr ((r', p'), step))" "pair_fed ?E d part p p' step" by blast
      have ending: "\<not> pa_ending p" using None by (auto simp: pair_admit_def split: if_splits)
      let ?q = "start_direction d part p"
      have f: "pairing_inv (?E @ st_exchanges step) p'" "stepped d (st_consumed step) ?q p'" "all_whole (st_exchanges step)"
        using o(2) by (auto simp: pair_fed_def all_whole_def)
      have w: "all_whole (?E @ st_exchanges step)" using i(3,4) ending f(3) by (auto simp: all_whole_def)
      have "pa_ended p' = pa_ended p" "pa_ending p' = pa_ending p"
        using f(2) frame_ofD(8,9) [OF start_direction_inv(8) [OF i(1) None]] by (simp_all add: stepped_def)
      moreover have "dr_next (pa_directions p' d') = dr_start (pa_directions p' d') + (log_consumed d' log + call_consumed d' (c, step))" for d'
        using f(2) start_direction_consumed [OF i(1,5), of d part d'] FeedCall by (auto simp: stepped_def call_consumed_def)
      ultimately have "run_inv (log @ [(c, step)]) p'"
        using f(1) w all_whole_in_order [OF w] i(4,6) o(2) FeedCall by (auto simp: run_inv_def call_ok_def pair_fed_def)
      with o(1) FeedCall show ?thesis by (simp add: pair_call_def)
    qed
  next
    case EndCall
    from pair_end_ok [OF i(1,3,2,4), of decode R r] obtain r' p' step where
      o: "pair_end decode R (r, p) = Some ((r', p'), step)" "pair_closed ?E Unknown p p' step" by blast
    have "dr_next (pa_directions p' d') = dr_start (pa_directions p' d') + (log_consumed d' log + call_consumed d' (c, step))" for d'
      using o(2) i(5) [of d'] EndCall by (simp add: pair_closed_def stepped_def call_consumed_def)
    moreover have "pa_ended p' \<or> all_whole (?E @ st_exchanges step)"
    proof (cases "pa_ended p'")
      case False
      then have "st_exchanges step = []" "\<not> pa_ended p" using o by (auto simp: pair_closed_def pair_end_def)
      with i(3) show ?thesis by simp
    qed simp
    ultimately have "run_inv (log @ [(c, step)]) p'"
      using o(2) i(6) EndCall by (auto simp: run_inv_def pair_closed_def call_ok_def)
    with o(1) EndCall show ?thesis by (simp add: pair_call_def)
  qed
qed

lemma pair_run_inv:
  assumes "run_inv log p"
  shows "\<exists>r' p' rest. pair_run decode R cs (r, p) = Some ((r', p'), rest) \<and> run_inv (log @ rest) p'"
  using assms
proof (induction cs arbitrary: log r p)
  case Nil
  then show ?case by simp
next
  case (Cons c cs)
  from pair_call_inv [OF Cons.prems, of decode R c r] obtain r1 p1 one where
    o: "pair_call decode R c (r, p) = Some ((r1, p1), one)" "run_inv (log @ one) p1" by blast
  from Cons.IH [OF o(2), of r1] o(1) show ?case by fastforce
qed

section \<open>The order of the exchanges\<close>

text \<open>The messages of one side, as the exchanges have them: read from the direction's first offset on without a gap, none before the last unframed.\<close>

definition side_in_order :: "pairing \<Rightarrow> side_name \<Rightarrow> message list \<Rightarrow> bool" where
  "side_in_order p w ms \<longleftrightarrow>
     contiguous ms \<and> list_all m_framed (butlast ms) \<and> list_all (message_valid (kind_of w) (or_defaults (HTTP_limits (pa_limits p)))) ms
   \<and> (case ms of [] \<Rightarrow> True
      | m # _ \<Rightarrow> let d = sd_direction (side_at w p) in
          d \<noteq> Unknown \<and> m_offset m = dr_start (pa_directions p d) \<and> m_end (last ms) \<le> pair_position p d)"

lemma side_in_orderI:
  assumes inv: "pairing_inv E p"
  shows "side_in_order p w (given w E)"
proof (cases "pa_routed p")
  case False
  then have "E = []" by (rule pairing_invD(6) [OF inv])
  then show ?thesis by (simp add: side_in_order_def given_def map_filter_simps)
next
  case True
  note sides = pairing_invD(4) [OF inv True]
  let ?d = "sd_direction (side_at w p)"
  note v = sides_invD(3) [OF sides, of w]
  let ?H = "side_history (given w E) (side_at w p)" and ?g = "given w E"
  have H: "?H = ?g @ map fn_message (sd_done (side_at w p))" by (simp add: side_history_def)
  note h = side_invD [OF v]
  have pos: "pair_position p ?d = dr_next (pa_directions p ?d)" by (rule position_next [OF inv sides_invD(2) [OF sides]])
  note prefix = history_prefix_ok [OF h(2-4) [unfolded H]]
  have "contiguous ?g" "list_all m_framed (butlast ?g)"
    "list_all (message_valid (kind_of w) (or_defaults (HTTP_limits (pa_limits p)))) ?g"
    using prefix(1-3) by (simp_all add: list_all_iff)
  moreover have "m_end (last ?g) \<le> dr_next (pa_directions p ?d)" if "?g \<noteq> []"
    using prefix(4) [OF that] h(5) that H by (metis append_is_Nil_conv order_trans)
  moreover have "m_offset (hd ?g) = dr_start (pa_directions p ?d)" if "?g \<noteq> []" using h(5) that H by auto
  ultimately show ?thesis
    using sides_invD(2) [OF sides, of w] pos by (auto simp: side_in_order_def split: list.split)
qed

text \<open>
  C4: whatever is fed to a pairing, in whatever order and with whatever the reserver refuses, every call
  returns.  The exchanges handed over so far answer in order: the i'th holds the i'th request and the
  i'th response that was read, each side from its direction's first offset on, without a gap and with
  nothing but the last message of a side left unframed.
\<close>

theorem pairing_answers_in_order:
  "\<exists>r' p log. pair_run decode R calls (r, new_pairing limits) = Some ((r', p), log)
     \<and> answers_in_order (log_exchanges log)
     \<and> (log_exchanges log = [] \<or> pa_routed p \<and> sd_direction (pa_requests p) \<noteq> sd_direction (pa_responses p))
     \<and> (\<forall>w. side_in_order p w (given w (log_exchanges log)))"
proof -
  from pair_run_inv [OF new_run_inv, of decode R calls r limits] obtain r' p log where
    o: "pair_run decode R calls (r, new_pairing limits) = Some ((r', p), log)" "run_inv log p" by auto
  then have inv: "pairing_inv (log_exchanges log) p" "answers_in_order (log_exchanges log)" by (simp_all add: run_inv_def)
  have "log_exchanges log = [] \<or> pa_routed p \<and> sd_direction (pa_requests p) \<noteq> sd_direction (pa_responses p)"
    using pairing_invD(4,6) [OF inv(1)] sides_invD(1) by (cases "pa_routed p") (auto simp: apart_def)
  with o inv side_in_orderI [OF inv(1)] show ?thesis by blast
qed

section \<open>The offsets of a connection\<close>

text \<open>The offsets of a direction that messages handed over take up.\<close>

definition placed_offsets :: "pairing \<Rightarrow> direction \<Rightarrow> exchange list \<Rightarrow> nat" where
  "placed_offsets p d E = (case side_of p d of None \<Rightarrow> 0 | Some w \<Rightarrow> sum_list (map (\<lambda>m. m_end m - m_offset m) (given w E)))"

lemma contiguous_extent:
  assumes "contiguous ms" "ms \<noteq> []" "\<And>m. m \<in> set ms \<Longrightarrow> m_offset m \<le> m_end m"
  shows "m_offset (hd ms) + sum_list (map (\<lambda>m. m_end m - m_offset m) ms) = m_end (last ms)"
  using assms
proof (induction ms rule: rev_induct)
  case (snoc m ms)
  show ?case
  proof (cases "ms = []")
    case False
    then have "m_end (last ms) = m_offset m" using snoc.prems(1) by (simp add: contiguous_snoc)
    moreover have "m_offset m \<le> m_end m" using snoc.prems(3) by simp
    moreover have "m_offset (hd ms) + sum_list (map (\<lambda>m. m_end m - m_offset m) ms) = m_end (last ms)"
      by (rule snoc.IH) (use False snoc.prems in \<open>simp_all add: contiguous_snoc\<close>)
    ultimately show ?thesis using False by simp
  qed (use snoc.prems(3) in simp)
qed simp

lemma placed_settled:
  assumes inv: "pairing_inv E p" and d: "d \<noteq> Unknown"
  shows "dr_start (pa_directions p d) + placed_offsets p d E = dr_settled (pa_directions p d)"
    "dr_settled (pa_directions p d) \<le> dr_next (pa_directions p d)"
proof -
  let ?at = "pa_directions p d"
  have "dr_start ?at + placed_offsets p d E = dr_settled ?at \<and> dr_settled ?at \<le> dr_next ?at"
  proof (cases "side_of p d")
    case None
    then have "dr_settled ?at = dr_start ?at" using pairing_invD(7) [OF inv] by (auto simp: side_of_def split: if_splits)
    moreover have "dr_start ?at \<le> dr_next ?at" using direction_okD(2,7) [OF pairing_invD(1) [OF inv, of d]] by simp
    ultimately show ?thesis using None by (simp add: placed_offsets_def)
  next
    case (Some w)
    note r = side_of_routed [OF inv Some d]
    note v = side_invD [OF sides_invD(3) [OF pairing_invD(4) [OF inv r(1)], of w, unfolded r(2)]]
    show ?thesis
    proof (cases "given w E = []")
      case True
      then show ?thesis using v(6) direction_okD(2,7) [OF v(1)] Some by (simp add: placed_offsets_def)
    next
      case False
      let ?g = "given w E"
      have H: "side_history ?g (side_at w p) = ?g @ map fn_message (sd_done (side_at w p))" by (simp add: side_history_def)
      note prefix = history_prefix_ok [OF v(2-4) [unfolded H]]
      have "m_offset m \<le> m_end m" if "m \<in> set ?g" for m using prefix(3) that message_valid_extent by blast
      note extent = contiguous_extent [OF prefix(1) False this]
      have "dr_settled ?at = m_end (last ?g)" using v(6) False by simp
      moreover have "m_offset (hd ?g) = dr_start ?at" "m_end (last ?g) \<le> dr_next ?at"
        using prefix(4) [OF False] v(5) [unfolded H] False by auto
      ultimately show ?thesis using extent Some by (simp add: placed_offsets_def)
    qed
  qed
  then show "dr_start ?at + placed_offsets p d E = dr_settled ?at" "dr_settled ?at \<le> dr_next ?at" by blast+
qed

text \<open>
  C6: once a pairing has stopped or ended, the offsets of a direction it accounted for, summed over the
  calls, are those of the messages it handed over and what it reports as unplaced: none is lost and none
  counted twice.  Every call used its part up, or the reserver refused and the call handed over nothing.
\<close>

theorem pairing_accounts_for_offsets:
  assumes "pair_run decode R calls (r, new_pairing limits) = Some ((r', p), log)"
    "pairing_stopped p \<or> pa_ended p" "d \<noteq> Unknown"
  shows "placed_offsets p d (log_exchanges log) + pair_unplaced p d = log_consumed d log
    \<and> pair_position p d = dr_start (pa_directions p d) + log_consumed d log \<and> list_all call_ok log"
proof -
  from pair_run_inv [OF new_run_inv, of decode R calls r limits] assms(1) have inv: "run_inv log p" by auto
  then have i: "pairing_inv (log_exchanges log) p" "list_all call_ok log"
    and n: "dr_next (pa_directions p d) = dr_start (pa_directions p d) + log_consumed d log" by (simp_all add: run_inv_def)
  have pos: "pair_position p d = dr_next (pa_directions p d)" by (rule position_next [OF i(1) assms(3)])
  note pl = placed_settled [OF i(1) assms(3)]
  have "pair_unplaced p d = pair_position p d - dr_settled (pa_directions p d)"
    using assms(2,3) pl(2) pos direction_okD(3) [OF pairing_invD(1) [OF i(1), of d]]
    by (cases d) (auto simp: pair_unplaced_def u64_simps)
  with n pos pl i(2) show ?thesis by simp
qed

text \<open>A connection that begins with a TLS record is not read, and all of it is unplaced.\<close>

definition tls_part :: part where
  "tls_part = \<lparr>pt_offset = 5, pt_length = 1, pt_gap = GapNone, pt_bytes = [CHR 0x16]\<rparr>"

lemma tls_admitted: "pair_admit (new_pairing L) Sent tls_part = None"
  by (simp add: pair_admit_def tls_part_def new_pairing_def part_validate_def zero_direction_def)

lemma tls_begins:
  "beginning_byte new_beginning (CHR 0x16) =
    \<lparr>bg_n = 1, bg_prefix = False, bg_space = -1, bg_token = False, bg_what = opensSomethingElse, bg_certain = True\<rparr>"
  "\<not> bg_certain new_beginning"
  by (simp_all add: new_beginning_def beginning_byte_def beginning_see_def Let_def beginning_close_def) code_simp

lemma tls_accepted:
  assumes grants: "\<And>r c. fst (Reserve R r c)"
  shows "\<exists>r' q. accept R Sent tls_part (r, start_direction Sent tls_part (new_pairing L)) = Some ((r', q), 1, False) \<and> pa_unread q"
proof -
  let ?p = "start_direction Sent tls_part (new_pairing L)"
  have new: "\<not> pa_routed ?p" "\<not> pa_decided ?p" "\<not> pairing_stopped ?p" "dr_beginning (pa_directions ?p Sent) = new_beginning"
    by (simp_all add: start_direction_def new_pairing_def zero_direction_def pairing_stopped_def Let_def put_direction_def)
  have held: "fst (hold_part R Sent tls_part (r, ?p))"
    using grants by (simp add: hold_part_def tls_part_def Let_def split_beta)
  obtain r1 p1 where hold: "hold_part R Sent tls_part (r, ?p) = (True, (r1, p1))" "\<not> pa_routed p1" "\<not> pa_decided p1"
      "dr_beginning (pa_directions p1 Sent) = new_beginning"
    using new held by (simp add: hold_part_def Let_def put_direction_def split: prod.splits if_splits)
  let ?p2 = "begin_bytes Sent tls_part (advance_next Sent 1 p1)"
  have p2: "\<not> pa_routed ?p2" "\<not> pa_decided ?p2" "bg_certain (dr_beginning (pa_directions ?p2 Sent))"
      "bg_what (dr_beginning (pa_directions ?p2 Sent)) = opensSomethingElse"
    using hold by (simp_all add: begin_bytes_def advance_next_def put_direction_def Let_def tls_part_def tls_begins)
  obtain r' q where q: "decide R (r1, ?p2) = (r', q)"
    by (cases "decide R (r1, ?p2)") auto
  have "pa_unread q"
    using q p2 mark_unread_parts(1) [where R = R and r = r1 and p = ?p2] by (simp add: decide_def routing_of_def)
  moreover have "accept R Sent tls_part (r, ?p) = Some ((r', q), 1, False)"
    using new(1) hold q
    by (simp add: accept_def side_of_def accept_held_def Let_def) (simp add: tls_part_def advance_next_def put_direction_def Let_def new_beginning_def)
  ultimately show ?thesis by blast
qed

lemma tls_run:
  assumes grants: "\<And>r c. fst (Reserve R r c)"
  shows "\<exists>r' p log. pair_run decode R [FeedCall Sent tls_part] (r, new_pairing L) = Some ((r', p), log)
     \<and> pairing_stopped p \<and> log_consumed Sent log = 1 \<and> log_exchanges log = []"
proof -
  let ?p = "start_direction Sent tls_part (new_pairing L)"
  obtain r' q where q: "accept R Sent tls_part (r, ?p) = Some ((r', q), 1, False)" "pa_unread q"
    using tls_accepted [OF grants] by blast
  have new: "\<not> pairing_stopped ?p" "\<not> pa_routed ?p"
    by (simp_all add: start_direction_def new_pairing_def zero_direction_def pairing_stopped_def Let_def put_direction_def)
  have stop: "pairing_stopped q" using q(2) by (simp add: pairing_stopped_def)
  have "pair_feed decode R (r, new_pairing L) Sent tls_part =
      Some (Inr ((r', q), \<lparr>st_consumed = 1, st_exchanges = [], st_result = pairing_result q\<rparr>))"
    using new q(1) stop
    by (simp add: pair_feed_def tls_admitted Let_def pump_all_def pump.simps hand_over_exchanges_def)
  then have "pair_run decode R [FeedCall Sent tls_part] (r, new_pairing L) =
      Some ((r', q), [(FeedCall Sent tls_part, \<lparr>st_consumed = 1, st_exchanges = [], st_result = pairing_result q\<rparr>)])"
    by (simp add: pair_call_def)
  with stop show ?thesis by (simp add: call_consumed_def)
qed

theorem pairing_accounts_for_offsets_witness:
  "\<exists>p log. pair_run (\<lambda>_. ([NullToken], AtEnd)) unaccounted [FeedCall Sent tls_part] ((), new_pairing default_reconstruct_limits) = Some (((), p), log)
     \<and> placed_offsets p Sent (log_exchanges log) + pair_unplaced p Sent = 1"
proof -
  obtain p log where run: "pair_run (\<lambda>_. ([NullToken], AtEnd)) unaccounted [FeedCall Sent tls_part] ((), new_pairing default_reconstruct_limits)
      = Some (((), p), log)" "pairing_stopped p" "log_consumed Sent log = 1"
    using tls_run [of unaccounted "\<lambda>_. ([NullToken], AtEnd)" "()" default_reconstruct_limits] by (auto simp: unaccounted_def)
  from pairing_accounts_for_offsets [OF run(1) disjI1 [OF run(2)], of Sent] run show ?thesis by simp
qed

end
