(* ===== verification/Pairing_Conservation.thy ===== *)
theory Pairing_Conservation
  imports Pairing_Run
begin

text \<open>
  What a pairing tells its reserver.  As for the parser, the promise on \<open>Reserver\<close> is proved inside the
  locale \<open>accounting\<close>, for every operation and every sequence of calls, and holds of every reserver
  through its \<open>ledger\<close>.  An operation is \<open>exact\<close> if it asks and gives back just what it begins and ceases to
  retain; exactness composes, so each operation follows from those it calls.
\<close>

section \<open>What is retained\<close>

definition held_total_charge :: "pair_direction \<Rightarrow> charge" where
  "held_total_charge at = sum_list (map (\<lambda>h. Charge (hp_charge h) 0) (dr_held at))"

definition done_charge :: "finished list \<Rightarrow> charge" where
  "done_charge fs = sum_list (map fn_charge fs)"

lemma retained_sides:
  assumes "pa_routed p"
  shows "pair_retained p = held_total_charge (pa_directions p Unknown) + held_total_charge (pa_directions p Sent)
    + held_total_charge (pa_directions p Received) + side_charge (side_at Requests p) + side_charge (side_at Responses p)"
  using assms by (simp add: pair_retained_def held_charge_def held_total_charge_def add.assoc)

lemma flags_put [simp]:
  "pa_routed (put_side w s p) = pa_routed p" "pa_routed (put_direction d at p) = pa_routed p"
  "pa_decided (put_side w s p) = pa_decided p" "pa_decided (put_direction d at p) = pa_decided p"
  "pa_unread (put_side w s p) = pa_unread p" "pa_unread (put_direction d at p) = pa_unread p"
  using frame_ofD(2-4) [OF frame_of_put(1)] frame_ofD(2-4) [OF frame_of_put(2)] by auto

lemma retained_put_side:
  assumes "pa_routed p"
  shows "pair_retained (put_side w s p) = pair_retained p - side_charge (side_at w p) + side_charge s"
  using assms by (cases w) (simp_all add: retained_sides algebra_simps)

lemma retained_put_direction:
  "pair_retained (put_direction d at p) = pair_retained p - held_total_charge (pa_directions p d) + held_total_charge at"
proof -
  have "pa_requests (put_direction d at p) = pa_requests p" "pa_responses (put_direction d at p) = pa_responses p"
    by (simp_all add: put_direction_def)
  then show ?thesis
    by (cases d) (simp_all add: pair_retained_def held_charge_def held_total_charge_def algebra_simps)
qed

lemma retained_update [simp]:
  "pair_retained (p\<lparr>pa_methods := a\<rparr>) = pair_retained p" "pair_retained (p\<lparr>pa_limit := b\<rparr>) = pair_retained p"
  "pair_retained (p\<lparr>pa_why := c\<rparr>) = pair_retained p" "pair_retained (p\<lparr>pa_stop := c\<rparr>) = pair_retained p"
  "pair_retained (p\<lparr>pa_examined := e\<rparr>) = pair_retained p" "pair_retained (p\<lparr>pa_base := n\<rparr>) = pair_retained p"
  "pair_retained (p\<lparr>pa_unread := u\<rparr>) = pair_retained p" "pair_retained (p\<lparr>pa_decided := u\<rparr>) = pair_retained p"
  "pair_retained (p\<lparr>pa_role := ro\<rparr>) = pair_retained p" "pair_retained (p\<lparr>pa_ending := u\<rparr>) = pair_retained p"
  "pair_retained (p\<lparr>pa_ended := u\<rparr>) = pair_retained p"
  by (simp_all add: pair_retained_def held_charge_def)

text \<open>Nothing negative is retained, and the parsers are well formed; every operation keeps this, of which only the parsers need proof.\<close>

definition fair_side :: "side \<Rightarrow> bool" where
  "fair_side s \<longleftrightarrow> (\<forall>f\<in>set (sd_done s). nonneg_charge (fn_charge f)) \<and> (sd_stopped s \<or> parser_wf (sd_parser s))"

definition fair :: "pairing \<Rightarrow> bool" where
  "fair p \<longleftrightarrow> (\<forall>d. \<forall>h\<in>set (dr_held (pa_directions p d)). 0 \<le> hp_charge h) \<and> (\<forall>w. fair_side (side_at w p))
   \<and> (pa_decided p \<longrightarrow> pa_routed p \<or> pa_unread p)"

lemma fairD:
  assumes "fair p"
  shows "h \<in> set (dr_held (pa_directions p d)) \<Longrightarrow> 0 \<le> hp_charge h" "fair_side (side_at w p)"
    "pa_decided p \<Longrightarrow> pa_routed p \<or> pa_unread p"
  using assms by (auto simp: fair_def)

lemma fair_put_side: "fair p \<Longrightarrow> fair_side s \<Longrightarrow> fair (put_side w s p)"
  by (simp add: fair_def)

lemma fair_put_direction: "fair p \<Longrightarrow> \<forall>h\<in>set (dr_held at). 0 \<le> hp_charge h \<Longrightarrow> fair (put_direction d at p)"
  by (simp add: fair_def)

lemma fair_update [simp]:
  "fair (p\<lparr>pa_methods := a\<rparr>) = fair p" "fair (p\<lparr>pa_limit := b\<rparr>) = fair p"
  "fair (p\<lparr>pa_why := c\<rparr>) = fair p" "fair (p\<lparr>pa_stop := c\<rparr>) = fair p"
  "fair (p\<lparr>pa_examined := e\<rparr>) = fair p" "fair (p\<lparr>pa_base := n\<rparr>) = fair p"
  "fair (p\<lparr>pa_role := ro\<rparr>) = fair p" "fair (p\<lparr>pa_ending := u\<rparr>) = fair p" "fair (p\<lparr>pa_ended := u\<rparr>) = fair p"
  by (simp_all add: fair_def)

lemma fair_retained: "fair_side s \<Longrightarrow> \<not> sd_stopped s \<Longrightarrow> nonneg_charge (retained (sd_parser s))"
  using retained_bound [of "sd_parser s"] by (auto simp: fair_side_def nonneg_charge_def retained_def)

text \<open>What a call of a parser hands over.\<close>

lemma feed_charged:
  assumes wf: "parser_wf p" and fed: "feed R r p part = Inr (r', p', pr)"
  shows "parser_wf p'" "nonneg_charge (pg_charge pr)" "pg_message pr = None \<Longrightarrow> pg_charge pr = 0"
    "pg_result pr \<notin> {Framed, Malformed, Limit, Unsupported, Cut} \<Longrightarrow> pg_charge pr = 0"
proof -
  note w = feed_wf [OF wf fed]
  have "parser_wf p' \<and> nonneg_charge (pg_charge pr) \<and> (pg_message pr = None \<longrightarrow> pg_charge pr = 0)
    \<and> (pg_result pr \<notin> {Framed, Malformed, Limit, Unsupported, Cut} \<longrightarrow> pg_charge pr = 0)"
  proof (cases "ps_stop p = NeedInput")
    case False
    with w show ?thesis by (auto simp: plain_progress_def)
  next
    case True
    with w have f: "feed_ok (opened p part) part p' pr" by simp
    then show ?thesis
      by (auto simp: feed_ok_def event_ok_def handed_charge_def nonneg_charge_def result_stopped_def split: result.splits)
  qed
  then show "parser_wf p'" "nonneg_charge (pg_charge pr)" "pg_message pr = None \<Longrightarrow> pg_charge pr = 0"
    "pg_result pr \<notin> {Framed, Malformed, Limit, Unsupported, Cut} \<Longrightarrow> pg_charge pr = 0" by blast+
qed

lemma answer_charged:
  assumes "parser_wf p" "answer p meth = Inr (p', pr)"
  shows "parser_wf p'" "nonneg_charge (pg_charge pr)" "pg_message pr = None \<Longrightarrow> pg_charge pr = 0"
  using answer_wf(1) [OF assms]
  by (auto simp: step_ok_def event_ok_def handed_charge_def nonneg_charge_def split: result.splits if_splits)

lemma end_charged:
  assumes "parser_wf p" "end_parser R r p = (r', p', pr)"
  shows "parser_wf p'" "nonneg_charge (pg_charge pr)" "pg_message pr = None \<Longrightarrow> pg_charge pr = 0"
  using end_parser_ok [OF assms] by (auto simp: end_ok_def handed_charge_def nonneg_charge_def split: option.splits)

definition exchange_charge :: "exchange list \<Rightarrow> charge" where
  "exchange_charge E = sum_list (map ex_charge E)"

lemma exchange_charge_simps [simp]:
  "exchange_charge [] = 0" "exchange_charge (E @ F) = exchange_charge E + exchange_charge F" "exchange_charge [e] = ex_charge e"
  by (simp_all add: exchange_charge_def)

section \<open>Exact operations\<close>

context accounting
begin

definition owed :: "'r \<times> pairing \<Rightarrow> 'c" where
  "owed rp = granted (fst rp) - price (pair_retained (snd rp))"

text \<open>
  What an operation on the sides of a routed pairing leaves owed for messages that are \<open>c\<close> further on their
  way out, and the same for one on a pairing that need not be routed.
\<close>

definition hands :: "charge \<Rightarrow> 'r \<times> pairing \<Rightarrow> 'r \<times> pairing \<Rightarrow> bool" where
  "hands c rp rp' \<longleftrightarrow>
    (fair (snd rp) \<and> pa_routed (snd rp) \<longrightarrow> fair (snd rp') \<and> pa_routed (snd rp') \<and> owed rp' + price c = owed rp)"

definition exact :: "'r \<times> pairing \<Rightarrow> 'r \<times> pairing \<Rightarrow> bool" where
  "exact = hands 0"

definition even_call :: "charge \<Rightarrow> 'r \<times> pairing \<Rightarrow> 'r \<times> pairing \<Rightarrow> bool" where
  "even_call c rp rp' \<longleftrightarrow> (fair (snd rp) \<longrightarrow> fair (snd rp') \<and> owed rp' + price c = owed rp)"

lemma handsI:
  assumes "fair p \<Longrightarrow> pa_routed p \<Longrightarrow> fair p' \<and> pa_routed p' \<and> owed (r', p') + price c = owed (r, p)"
  shows "hands c (r, p) (r', p')"
  using assms by (simp add: hands_def)

lemma exactI:
  assumes "fair p \<Longrightarrow> pa_routed p \<Longrightarrow> fair p' \<and> pa_routed p' \<and> owed (r', p') = owed (r, p)"
  shows "exact (r, p) (r', p')"
  using assms by (simp add: exact_def hands_def price_zero)

lemma hands_trans: "hands a x y \<Longrightarrow> hands b y z \<Longrightarrow> hands (a + b) x z"
  by (auto simp: hands_def price_add algebra_simps)

lemma exact_refl [simp]: "exact rp rp"
  by (simp add: exact_def hands_def price_zero)

lemma exact_trans: "exact a b \<Longrightarrow> exact b c \<Longrightarrow> exact a c"
  using hands_trans [of 0 a b 0 c] by (simp add: exact_def)

lemma hands_exact: "hands c x y \<Longrightarrow> exact y z \<Longrightarrow> hands c x z"
  using hands_trans [of c x y 0 z] by (simp add: exact_def)

lemma exact_hands: "exact x y \<Longrightarrow> hands c y z \<Longrightarrow> hands c x z"
  using hands_trans [of 0 x y c z] by (simp add: exact_def)

lemma hands_back: "hands (- c) x y \<Longrightarrow> hands c y z \<Longrightarrow> exact x z"
  using hands_trans [of "- c" x y c z] by (simp add: exact_def)

lemma even_trans: "even_call a x y \<Longrightarrow> even_call b y z \<Longrightarrow> even_call (a + b) x z"
  by (auto simp: even_call_def price_add algebra_simps)

lemma even_refl [simp]: "even_call 0 x x"
  by (simp add: even_call_def price_zero)

lemma even_routed: "hands c rp rp' \<Longrightarrow> pa_routed (snd rp) \<Longrightarrow> even_call c rp rp'"
  by (simp add: hands_def even_call_def)

lemma even_exact: "exact rp rp' \<Longrightarrow> pa_routed (snd rp) \<Longrightarrow> even_call 0 rp rp'"
  unfolding exact_def by (rule even_routed)

lemma exact_even: "even_call 0 (r, p) (r', p') \<Longrightarrow> pa_routed p' = pa_routed p \<Longrightarrow> exact (r, p) (r', p')"
  by (simp add: even_call_def exact_def hands_def)

lemma exact_side:
  assumes "fair_side (side_at w p) \<Longrightarrow> fair_side s" "side_charge s = side_charge (side_at w p)"
  shows "exact (r, p) (r, put_side w s p)"
  by (rule exactI) (use assms in \<open>simp add: fair_put_side fairD(2) owed_def retained_put_side\<close>)

lemma pair_release_returns: "nonneg_charge c \<Longrightarrow> granted (pair_release R c r) = granted r - price c"
  by (auto simp: pair_release_def charge_is_zero_def release_returns simp flip: zero_charge_def price_zero)

lemma release_held_returns:
  "\<forall>h\<in>set hs. 0 \<le> hp_charge h \<Longrightarrow> granted (release_held R hs r) = granted r - price (sum_list (map (\<lambda>h. Charge (hp_charge h) 0) hs))"
  by (induction hs arbitrary: r) (simp_all add: release_held_def pair_release_returns price_zero price_add algebra_simps)

lemma release_done_returns:
  "\<forall>f\<in>set fs. nonneg_charge (fn_charge f) \<Longrightarrow> granted (release_done R fs r) = granted r - price (done_charge fs)"
  by (induction fs arbitrary: r) (simp_all add: release_done_def done_charge_def pair_release_returns price_zero price_add algebra_simps)

lemma drop_held_even: "even_call 0 rp (drop_held R d rp)"
proof (cases rp)
  case (Pair r p)
  let ?q = "put_direction d ((pa_directions p d)\<lparr>dr_held := []\<rparr>) p"
  have "fair ?q \<and> owed (release_held R (dr_held (pa_directions p d)) r, ?q) = owed (r, p)" if f: "fair p"
    using fairD(1) [OF f] f
    by (simp add: fair_put_direction owed_def release_held_returns retained_put_direction held_total_charge_def price_diff)
  then show ?thesis by (simp add: Pair drop_held_def Let_def even_call_def price_zero)
qed

lemma drop_held_exact: "exact rp (drop_held R d rp)"
proof (cases rp)
  case (Pair r p)
  have "pa_routed (snd (drop_held R d rp)) = pa_routed p" by (simp add: Pair drop_held_def Let_def)
  then show ?thesis
    using drop_held_even [of "(r, p)" d] by (simp add: Pair even_call_def exact_def hands_def)
qed

lemma stop_side_exact: "exact rp (stop_side R w rp)"
proof (cases rp)
  case (Pair r p)
  let ?s = "side_at w p"
  show ?thesis
  proof (cases "sd_stopped ?s")
    case True
    then show ?thesis by (simp add: Pair stop_side_def Let_def)
  next
    case False
    let ?q = "put_side w (?s\<lparr>sd_stopped := True, sd_waiting := False\<rparr>) p"
    have "exact (r, p) (pair_release R (retained (sd_parser ?s)) r, ?q)"
    proof (rule exactI)
      assume f: "fair p" "pa_routed p"
      have "fair_side (?s\<lparr>sd_stopped := True, sd_waiting := False\<rparr>)" using fairD(2) [OF f(1), of w] by (simp add: fair_side_def)
      moreover have "owed (pair_release R (retained (sd_parser ?s)) r, ?q) = owed (r, p)"
        using f(2) fair_retained [OF fairD(2) [OF f(1)] False] False
        by (simp add: owed_def pair_release_returns retained_put_side side_charge_def price_diff price_add price_zero)
      ultimately show "fair ?q \<and> pa_routed ?q \<and> owed (pair_release R (retained (sd_parser ?s)) r, ?q) = owed (r, p)"
        using f by (simp add: fair_put_side)
    qed
    from exact_trans [OF this drop_held_exact] False show ?thesis by (simp add: Pair stop_side_def Let_def)
  qed
qed

lemma limit_side_exact: "exact rp (limit_side R i keep w rp)"
proof (cases rp)
  case (Pair r p)
  let ?s = "side_at w p"
  let ?one = "if length (sd_done ?s) > keep then (release_done R (drop keep (sd_done ?s)) r, put_side w (?s\<lparr>sd_done := take keep (sd_done ?s)\<rparr>) p) else (r, p)"
  have "exact (r, p) ?one"
  proof (cases "length (sd_done ?s) > keep")
    case True
    have "exact (r, p) (release_done R (drop keep (sd_done ?s)) r, put_side w (?s\<lparr>sd_done := take keep (sd_done ?s)\<rparr>) p)"
    proof (rule exactI)
      assume f: "fair p" "pa_routed p"
      have side: "fair_side ?s" by (rule fairD(2) [OF f(1)])
      have split: "done_charge (sd_done ?s) = done_charge (take keep (sd_done ?s)) + done_charge (drop keep (sd_done ?s))"
        unfolding done_charge_def by (metis append_take_drop_id map_append sum_list_append)
      have "granted (release_done R (drop keep (sd_done ?s)) r) = granted r - price (done_charge (drop keep (sd_done ?s)))"
        by (rule release_done_returns) (use side in \<open>auto simp: fair_side_def dest: in_set_dropD\<close>)
      then have "owed (release_done R (drop keep (sd_done ?s)) r, put_side w (?s\<lparr>sd_done := take keep (sd_done ?s)\<rparr>) p) = owed (r, p)"
        using f(2) split by (simp add: owed_def retained_put_side side_charge_def price_diff price_add flip: done_charge_def)
      moreover have "fair_side (?s\<lparr>sd_done := take keep (sd_done ?s)\<rparr>)" using side by (auto simp: fair_side_def dest: in_set_takeD)
      ultimately show "fair (put_side w (?s\<lparr>sd_done := take keep (sd_done ?s)\<rparr>) p) \<and> pa_routed (put_side w (?s\<lparr>sd_done := take keep (sd_done ?s)\<rparr>) p)
          \<and> owed (release_done R (drop keep (sd_done ?s)) r, put_side w (?s\<lparr>sd_done := take keep (sd_done ?s)\<rparr>) p) = owed (r, p)"
        using f by (simp add: fair_put_side)
    qed
    with True show ?thesis by simp
  qed simp
  with exact_trans [OF this stop_side_exact] show ?thesis
    by (auto simp: Pair limit_side_def Let_def split_beta)
qed


lemma set_limit_exact: "exact rp (set_limit R i why request rp)"
proof (cases rp)
  case (Pair r p)
  let ?q = "p\<lparr>pa_limit := int i, pa_why := why\<rparr>" and ?keep = "i - pa_base p + 1"
  obtain r2 p2 where two: "limit_side R i ?keep Responses (limit_side R i ?keep Requests (r, ?q)) = (r2, p2)" by fastforce
  have "exact (r, p) (r, ?q)" by (rule exactI) (simp add: owed_def)
  from exact_trans [OF exact_trans [OF this limit_side_exact] limit_side_exact] two have e: "exact (r, p) (r2, p2)" by metis
  have "exact (r2, p2) (r2, p2\<lparr>pa_methods := ms\<rparr>)" for ms by (rule exactI) (simp add: owed_def)
  with e exact_trans have "exact (r, p) (r2, if b then p2\<lparr>pa_methods := ms\<rparr> else p2)" for b ms by simp
  then show ?thesis using two by (simp add: Pair set_limit_def Let_def)
qed

lemma boundary_exact: "exact rp (boundary R i m request rp)"
  by (simp add: boundary_def set_limit_exact)

lemma finish_side_exact: "exact rp (finish_side R w why rp)"
  unfolding finish_side_def by (cases rp) (use exact_trans [OF set_limit_exact stop_side_exact] in simp)

lemma finish_request_exact: "exact rp (finish_request R i m rp)"
proof (cases rp)
  case (Pair r p)
  let ?q = "p\<lparr>pa_methods := pa_methods p @ [m_method m]\<rparr>"
  obtain r1 p1 where one: "(if \<not> sd_head_seen (pa_requests p) then boundary R i m True (r, ?q) else (r, p)) = (r1, p1)" by fastforce
  have "exact (r, p) (r, ?q)" by (rule exactI) (simp add: owed_def)
  from exact_trans [OF this boundary_exact] one have "exact (r, p) (r1, p1)" by (metis exact_refl)
  moreover have "exact (r1, p1) (r1, p1\<lparr>pa_requests := (pa_requests p1)\<lparr>sd_head_seen := False\<rparr>\<rparr>)"
    unfolding put_responses by (rule exact_side) (simp_all add: fair_side_def side_charge_def)
  ultimately show ?thesis using one by (auto simp: Pair finish_request_def Let_def intro: exact_trans)
qed

lemma finish_hands:
  assumes "nonneg_charge c"
  shows "hands c rp (finish R w m c res rp)"
proof (cases rp)
  case (Pair r p)
  let ?s = "side_at w p"
  let ?q = "put_side w (?s\<lparr>sd_done := sd_done ?s @ [\<lparr>fn_message = m, fn_charge = c\<rparr>]\<rparr>) p"
  have "hands c (r, p) (r, ?q)"
  proof (rule handsI)
    assume f: "fair p" "pa_routed p"
    have "fair_side (?s\<lparr>sd_done := sd_done ?s @ [\<lparr>fn_message = m, fn_charge = c\<rparr>]\<rparr>)"
      using fairD(2) [OF f(1), of w] assms by (auto simp: fair_side_def)
    then show "fair ?q \<and> pa_routed ?q \<and> owed (r, ?q) + price c = owed (r, p)"
      using f by (simp add: fair_put_side owed_def retained_put_side side_charge_def price_add price_diff algebra_simps)
  qed
  moreover define rp2 where "rp2 = (if w = Requests then finish_request R (pa_base p + length (sd_done ?s)) m (r, ?q) else (r, ?q))"
  have "exact (r, ?q) rp2" by (simp add: rp2_def finish_request_exact)
  moreover define rp3 where "rp3 = (if result_stopped res then set_limit R (pa_base p + length (sd_done ?s)) res (w = Requests) rp2 else rp2)"
  have "exact rp2 rp3" by (simp add: rp3_def set_limit_exact)
  moreover have "exact rp3 (finish R w m c res rp)"
    by (simp add: Pair finish_def Let_def rp2_def rp3_def stop_side_exact)
  ultimately show ?thesis unfolding Pair by (blast intro: hands_exact)
qed

lemma finish_progress_hands:
  assumes "nonneg_charge (pg_charge pr)" "pg_message pr = None \<Longrightarrow> pg_charge pr = 0"
  shows "hands (pg_charge pr) rp (finish_progress R w pr rp)"
  using assms finish_hands exact_refl [of rp] by (auto simp: finish_progress_def exact_def split: option.split)

text \<open>A step of a side's parser, before what it handed over is taken.\<close>

lemma parser_step_hands:
  assumes "\<not> sd_stopped (side_at w p)" "fair p \<Longrightarrow> conserves r (sd_parser (side_at w p)) (r', parser, Some pr) \<and> parser_wf parser"
    and s: "sd_done s = sd_done (side_at w p)" "sd_parser s = parser" "\<not> sd_stopped s"
  shows "hands (- pg_charge pr) (r, p) (r', put_side w s p)"
proof (rule handsI)
  assume f: "fair p" "pa_routed p"
  let ?s = "side_at w p"
  have c: "granted r' + price (retained (sd_parser ?s)) = granted r + price (retained parser) + price (pg_charge pr)"
    and wf: "parser_wf parser"
    using assms(2) [OF f(1)] by (simp_all add: conserves_def event_charge_def retained_def)
  have "fair_side s" using fairD(2) [OF f(1), of w] s wf by (simp add: fair_side_def)
  moreover have "price (- pg_charge pr) = - price (pg_charge pr)" using price_diff [of 0 "pg_charge pr"] by (simp add: price_zero)
  then have "owed (r', put_side w s p) + price (- pg_charge pr) = owed (r, p)"
    using c f(2) s assms(1) by (simp add: owed_def retained_put_side side_charge_def price_add price_diff algebra_simps)
  ultimately show "fair (put_side w s p) \<and> pa_routed (put_side w s p) \<and> owed (r', put_side w s p) + price (- pg_charge pr) = owed (r, p)"
    using f by (simp add: fair_put_side)
qed

lemma fair_wf: "fair p \<Longrightarrow> \<not> sd_stopped (side_at w p) \<Longrightarrow> parser_wf (sd_parser (side_at w p))"
  using fairD(2) by (auto simp: fair_side_def)

text \<open>Under \<open>fair\<close> alone, since what is shown assumes no more.\<close>

lemma hands_if: "(fair (snd rp) \<Longrightarrow> hands c rp rp') \<Longrightarrow> hands c rp rp'"
  by (auto simp: hands_def)

lemma pair_answer_exact: "exact rp (pair_answer R rp)"
proof (cases rp)
  case (Pair r p)
  show ?thesis
    unfolding Pair exact_def
  proof (rule hands_if)
    assume f: "fair (snd (r, p))"
    show "hands 0 (r, p) (pair_answer R (r, p))"
    proof (cases rule: pair_answer_cases [of R r p])
      case same
      then show ?thesis using exact_refl by (simp add: exact_def)
    next
      case (wrong meth e)
      have "exact (r, p) (r, put_side Responses ((pa_responses p)\<lparr>sd_waiting := False\<rparr>) p)"
        by (rule exact_side) (simp_all add: fair_side_def side_charge_def)
      then show ?thesis using wrong(1) by (simp add: exact_def)
    next
      case (told meth parser pr)
      let ?s = "(pa_responses p)\<lparr>sd_waiting := False, sd_parser := parser\<rparr>"
      have wf: "parser_wf (sd_parser (pa_responses p))" using fair_wf [of p Responses] f told(3) by simp
      note c = answer_charged [OF wf told(2)]
      have "hands (- pg_charge pr) (r, p) (r, put_side Responses ?s p)"
        by (rule parser_step_hands) (use told(3) answer_conserves [OF told(2)] c(1) in simp_all)
      from hands_back [OF this finish_progress_hands [OF c(2,3)]] told(1) show ?thesis by (simp add: exact_def)
    qed
  qed
qed

lemma pair_head_exact: "exact rp (pair_head R w m rp)"
proof (cases rp)
  case (Pair r p)
  let ?i = "pa_base p + length (sd_done (side_at w p))"
  show ?thesis
  proof (cases w)
    case Requests
    let ?q = "p\<lparr>pa_methods := pa_methods p @ [m_method m]\<rparr>"
    have "exact (r, p) (r, ?q)" by (rule exactI) (simp add: owed_def)
    moreover have "exact (r, ?q) (r, put_side Requests ((pa_requests p)\<lparr>sd_head_seen := True\<rparr>) ?q)"
      by (rule exact_side) (simp_all add: fair_side_def side_charge_def)
    ultimately have "exact (r, p) (boundary R ?i m True (r, put_side Requests ((pa_requests p)\<lparr>sd_head_seen := True\<rparr>) ?q))"
      using exact_trans boundary_exact by blast
    then show ?thesis using Requests by (simp add: Pair pair_head_def put_side_def)
  next
    case Responses
    obtain r1 p1 where b: "boundary R ?i m False (r, p) = (r1, p1)" by fastforce
    have "exact (r, p) (r1, p1)" using boundary_exact [of "(r, p)"] b by metis
    moreover have "exact (r1, p1) (r1, put_side Responses ((pa_responses p1)\<lparr>sd_waiting := True\<rparr>) p1)"
      by (rule exact_side) (simp_all add: fair_side_def side_charge_def)
    ultimately have "exact (r, p) (pair_answer R (r1, put_side Responses ((pa_responses p1)\<lparr>sd_waiting := True\<rparr>) p1))"
      using exact_trans pair_answer_exact by blast
    then show ?thesis using Responses b by (simp add: Pair pair_head_def put_side_def)
  qed
qed

lemma read_progress_hands:
  assumes "nonneg_charge (pg_charge pr)" "pg_message pr = None \<Longrightarrow> pg_charge pr = 0"
    "pg_result pr \<notin> {Framed, Malformed, Limit, Unsupported, Cut} \<Longrightarrow> pg_charge pr = 0"
  shows "hands (pg_charge pr) rp (read_progress R w pr rp)"
proof -
  have put: "exact (r, p) (r, put_side w ((side_at w p)\<lparr>sd_waiting := True\<rparr>) p)" for r p
    by (rule exact_side) (simp_all add: fair_side_def side_charge_def)
  have same: "hands 0 rp rp" using exact_refl [of rp] by (simp add: exact_def)
  show ?thesis
    using finish_progress_hands [OF assms(1,2)] assms(3) pair_head_exact put [of "fst rp" "snd rp"] same
    by (auto simp: read_progress_def exact_def split: option.split)
qed

lemma read_rest_exact:
  assumes "\<And>n r p. exact (r, p) (r, advance n p)"
  shows "exact rp (fst (read_rest w advance rp part))"
  using assms [of "fst rp" "snd rp"] by (simp add: read_rest_def)

lemma read_part_exact:
  assumes "read_part fuel R w advance rp part = Some (rp', rest, refused)" "\<And>n r p. exact (r, p) (r, advance n p)"
  shows "exact rp rp'"
proof -
  have rest: "exact rp (fst (read_rest w advance rp part))" for rp part by (rule read_rest_exact) (rule assms(2))
  show ?thesis
    using assms(1)
  proof (induction fuel arbitrary: rp part)
    case 0
    then show ?case using rest [of rp part]
      by (cases rp) (auto simp: read_part.simps [of 0] Let_def split: if_splits)
  next
    case (Suc fuel)
    obtain r p where rp: "rp = (r, p)" by (cases rp)
    let ?s = "side_at w p"
    show ?case
    proof (cases "pt_length part = 0 \<or> sd_waiting ?s \<or> sd_stopped ?s")
      case True
      then show ?thesis using Suc.prems rest [of rp part]
        by (auto simp: rp read_part.simps [of "Suc fuel"] Let_def)
    next
      case go: False
      show ?thesis
      proof (cases "feed R r (sd_parser ?s) part")
        case (Inl e)
        then have "rp' = fst (read_rest w advance (finish_side R w Malformed rp) part)"
          using Suc.prems go by (auto simp: rp read_part.simps [of "Suc fuel"] Let_def)
        then show ?thesis using exact_trans [OF finish_side_exact rest] by simp
      next
        case (Inr x)
        obtain r1 parser pr where x: "x = (r1, parser, pr)" by (metis prod.exhaust)
        define q where "q = put_side w (?s\<lparr>sd_parser := parser\<rparr>) p"
        define p3 where "p3 = advance (pg_consumed pr) (if pt_gap part = GapNone then q\<lparr>pa_examined := pa_examined q + pg_consumed pr\<rparr> else q)"
        show ?thesis
          unfolding rp exact_def
        proof (rule hands_if)
          assume f: "fair (snd (r, p))"
          then have wf: "parser_wf (sd_parser ?s)" using fair_wf [of p w] go by simp
          note c = feed_charged [OF wf Inr [unfolded x]]
          have "hands (- pg_charge pr) (r, p) (r1, q)"
            unfolding q_def by (rule parser_step_hands [where pr = pr]) (use go feed_conserves [OF wf Inr [unfolded x]] c(1) in simp_all)
          moreover have "exact (r1, q) (r1, q\<lparr>pa_examined := n\<rparr>)" for n by (rule exactI) (simp add: owed_def)
          then have "exact (r1, q) (r1, p3)"
            unfolding p3_def using exact_trans [OF _ assms(2)] exact_refl by auto
          ultimately have h: "hands (- pg_charge pr) (r, p) (r1, p3)" by (rule hands_exact)
          show "hands 0 (r, p) rp'"
          proof (cases "pg_result pr = Refused")
            case True
            then have "rp' = (r1, p3)" "pg_charge pr = 0"
              using Suc.prems go Inr x c(4) by (auto simp: rp read_part.simps [of "Suc fuel"] Let_def q_def p3_def)
            with h show ?thesis by simp
          next
            case False
            have "exact (r, p) (read_progress R w pr (r1, p3))" by (rule hands_back [OF h read_progress_hands [OF c(2-4)]])
            moreover have "read_part fuel R w advance (read_progress R w pr (r1, p3)) (part_tail part (pg_consumed pr)) = Some (rp', rest, refused)"
              using Suc.prems go Inr x False by (auto simp: rp read_part.simps [of "Suc fuel"] Let_def q_def p3_def)
            from Suc.IH [OF this] have "exact (read_progress R w pr (r1, p3)) rp'" .
            ultimately show ?thesis using exact_trans by (simp add: exact_def [symmetric])
          qed
        qed
      qed
    qed
  qed
qed


lemma even_direction:
  assumes "\<And>h. h \<in> set (dr_held at) \<Longrightarrow> (\<exists>g\<in>set (dr_held (pa_directions p d)). hp_charge h = hp_charge g)"
    "held_total_charge at = held_total_charge (pa_directions p d)"
  shows "even_call 0 (r, p) (r, put_direction d at p)"
proof -
  have "\<forall>h\<in>set (dr_held at). 0 \<le> hp_charge h" if "fair p"
    using assms(1) fairD(1) [OF that] by fastforce
  with assms(2) show ?thesis
    by (simp add: even_call_def fair_put_direction owed_def retained_put_direction price_zero)
qed

lemma advance_even: "even_call 0 (r, p) (r, advance_next d n p)" "even_call 0 (r, p) (r, advance_held d n p)"
proof -
  show "even_call 0 (r, p) (r, advance_next d n p)"
    unfolding advance_next_def Let_def by (rule even_direction) (auto simp: held_total_charge_def)
  show "even_call 0 (r, p) (r, advance_held d n p)"
  proof (cases "dr_held (pa_directions p d)")
    case Nil
    then show ?thesis by (simp add: advance_held_def Let_def)
  next
    case (Cons h hs)
    have "even_call 0 (r, p) (r, put_direction d ((pa_directions p d)\<lparr>dr_held := h\<lparr>hp_part := part_tail (hp_part h) n\<rparr> # hs\<rparr>) p)"
      by (rule even_direction) (auto simp: held_total_charge_def Cons)
    with Cons show ?thesis by (simp add: advance_held_def Let_def)
  qed
qed

lemma advance_exact: "exact (r, p) (r, advance_next d n p)" "exact (r, p) (r, advance_held d n p)"
  using exact_even [OF advance_even(1)] exact_even [OF advance_even(2)] frame_ofD(2) [OF advance_same(3)] frame_ofD(2) [OF advance_same(4)]
  by blast+

lemma begin_bytes_even: "even_call 0 (r, p) (r, begin_bytes d part p)"
proof -
  have "even_call 0 (r, p) (r, put_direction d ((pa_directions p d)\<lparr>dr_beginning := b\<rparr>) p)" for b
    by (rule even_direction) (auto simp: held_total_charge_def)
  moreover from this have "even_call 0 (r, p) (r, (put_direction d ((pa_directions p d)\<lparr>dr_beginning := b\<rparr>) p)\<lparr>pa_examined := n\<rparr>)" for b n
    by (simp add: even_call_def owed_def)
  ultimately show ?thesis by (auto simp: begin_bytes_def Let_def split: prod.split)
qed

lemma start_direction_even:
  assumes "\<not> dr_started (pa_directions p d) \<Longrightarrow> dr_held (pa_directions p d) = []"
  shows "even_call 0 (r, p) (r, start_direction d part p)"
proof (cases "dr_started (pa_directions p d)")
  case False
  have "even_call 0 (r, p) (r, put_direction d ((pa_directions p d)\<lparr>dr_started := True, dr_start := pt_offset part, dr_next := pt_offset part,
            dr_settled := pt_offset part, dr_beginning := new_beginning\<rparr>) p)"
    by (rule even_direction) (auto simp: held_total_charge_def)
  with False show ?thesis by (simp add: start_direction_def Let_def)
qed (simp add: start_direction_def)

lemma hold_part_even: "hold_part R d part (r, p) = (ok, (r', p')) \<Longrightarrow> even_call 0 (r, p) (r', p')"
proof -
  let ?c = "int (length (pt_bytes part))"
  assume out: "hold_part R d part (r, p) = (ok, (r', p'))"
  have reserve: "(if ?c > 0 then Reserve R r (Charge ?c 0) else (True, r)) = (ok, r')"
    and p': "p' = (if ok then put_direction d ((pa_directions p d)\<lparr>dr_held := dr_held (pa_directions p d) @ [\<lparr>hp_part = part, hp_charge = ?c\<rparr>]\<rparr>) p else p)"
    using out by (auto simp: hold_part_def Let_def split: if_splits prod.splits)
  have g: "granted r' = (if ok then granted r + price (Charge ?c 0) else granted r)"
  proof (cases "?c > 0")
    case True
    then have "Reserve R r (Charge ?c 0) = (ok, r')" using reserve by simp
    then show ?thesis using reserve_granted [of "Charge ?c 0" r r'] reserve_refused [of "Charge ?c 0" r r'] by (cases ok) simp_all
  next
    case False
    then have "ok" "r' = r" "Charge ?c 0 = 0" using reserve by (auto simp: charge_eq_iff)
    then show ?thesis by (simp add: price_zero)
  qed
  show ?thesis
  proof (cases ok)
    case True
    have "\<forall>h\<in>set (dr_held (pa_directions p d) @ [\<lparr>hp_part = part, hp_charge = ?c\<rparr>]). 0 \<le> hp_charge h" if "fair p"
      using fairD(1) [OF that] by auto
    then show ?thesis
      using True g by (simp add: p' even_call_def fair_put_direction owed_def retained_put_direction held_total_charge_def price_zero price_add price_diff)
  next
    case False
    then show ?thesis using g by (simp add: p' even_call_def owed_def price_zero)
  qed
qed

lemma pop_held_exact: "exact rp (pop_held R d rp)"
proof (cases rp)
  case (Pair r p)
  show ?thesis
  proof (cases "\<exists>h hs. dr_held (pa_directions p d) = h # hs \<and> pt_length (hp_part h) = 0")
    case False
    then have "pop_held R d (r, p) = (r, p)" by (auto simp: pop_held_def Let_def split: list.splits)
    then show ?thesis by (simp add: Pair)
  next
    case True
    then obtain h hs where h: "dr_held (pa_directions p d) = h # hs" "pt_length (hp_part h) = 0" by blast
    let ?q = "put_direction d ((pa_directions p d)\<lparr>dr_held := hs\<rparr>) p"
    have "exact (r, p) (pair_release R (Charge (hp_charge h) 0) r, ?q)"
    proof (rule exactI)
      assume f: "fair p" "pa_routed p"
      have n: "0 \<le> hp_charge h" "\<forall>x\<in>set hs. 0 \<le> hp_charge x" using fairD(1) [OF f(1), of _ d] h by auto
      show "fair ?q \<and> pa_routed ?q \<and> owed (pair_release R (Charge (hp_charge h) 0) r, ?q) = owed (r, p)"
        using f n h by (simp add: fair_put_direction owed_def pair_release_returns retained_put_direction held_total_charge_def price_add price_diff)
    qed
    then show ?thesis using h by (simp add: Pair pop_held_def Let_def)
  qed
qed

lemma pump_side_exact:
  assumes "pump_side fuel R w rp any = Some (rp', any', refused)"
  shows "exact rp rp'"
  using assms
proof (induction fuel arbitrary: rp any)
  case 0
  then show ?case by (auto simp: pump_side.simps [of 0] Let_def split: list.splits if_splits)
next
  case (Suc fuel)
  let ?d = "sd_direction (side_at w (snd rp))"
  show ?case
  proof (cases "dr_held (pa_directions (snd rp) ?d) = [] \<or> \<not> readable (snd rp) ?d \<or> sd_waiting (side_at w (snd rp)) \<or> sd_stopped (side_at w (snd rp)) \<or> pairing_stopped (snd rp)")
    case True
    then show ?thesis using Suc.prems by (auto simp: pump_side.simps [of "Suc fuel"] Let_def split: list.splits)
  next
    case False
    then obtain h hs where held: "dr_held (pa_directions (snd rp) ?d) = h # hs" by (cases "dr_held (pa_directions (snd rp) ?d)") auto
    then obtain rp1 rest refused1 where r: "read_part (pt_length (hp_part h)) R w (advance_held ?d) rp (hp_part h) = Some (rp1, rest, refused1)"
      using Suc.prems False by (auto simp: pump_side.simps [of "Suc fuel"] Let_def split: option.splits)
    have e: "exact rp (pop_held R ?d rp1)"
      by (rule exact_trans [OF read_part_exact [OF r advance_exact(2)] pop_held_exact])
    have out: "(if refused1 then Some (pop_held R ?d rp1, True, True) else pump_side fuel R w (pair_answer R (pop_held R ?d rp1)) True)
        = Some (rp', any', refused)"
      using Suc.prems False held r by (simp add: pump_side.simps [of "Suc fuel"] Let_def)
    show ?thesis
    proof (cases refused1)
      case True
      with out e show ?thesis by simp
    next
      case no: False
      with out have "exact (pair_answer R (pop_held R ?d rp1)) rp'" by (intro Suc.IH) simp
      then show ?thesis using exact_trans [OF exact_trans [OF e pair_answer_exact]] by blast
    qed
  qed
qed

lemma pump_exact:
  assumes "pump fuel R rp = Some (rp', refused)"
  shows "exact rp rp'"
  using assms
proof (induction fuel arbitrary: rp)
  case 0
  then show ?case by (auto simp: pump.simps [of 0] split: if_splits)
next
  case (Suc fuel)
  show ?case
  proof (cases "\<not> pa_routed (snd rp) \<or> pairing_stopped (snd rp)")
    case True
    then show ?thesis using Suc.prems by (auto simp: pump.simps [of "Suc fuel"])
  next
    case False
    let ?rp1 = "pair_answer R rp"
    from Suc.prems False obtain rp2 any2 refused2 where
      two: "pump_side (held_length (snd ?rp1) (sd_direction (pa_requests (snd ?rp1)))) R Requests ?rp1 False = Some (rp2, any2, refused2)"
      by (auto simp: pump.simps [of "Suc fuel"] Let_def split: option.splits)
    have e2: "exact rp rp2" by (rule exact_trans [OF pair_answer_exact pump_side_exact [OF two]])
    show ?thesis
    proof (cases refused2)
      case True
      then have "rp' = rp2" using Suc.prems False two by (auto simp: pump.simps [of "Suc fuel"] Let_def)
      with e2 show ?thesis by simp
    next
      case go: False
      from Suc.prems False two go obtain rp3 any3 refused3 where
        three: "pump_side (held_length (snd rp2) (sd_direction (pa_responses (snd rp2)))) R Responses rp2 any2 = Some (rp3, any3, refused3)"
        by (auto simp: pump.simps [of "Suc fuel"] Let_def split: option.splits)
      have e3: "exact rp rp3" by (rule exact_trans [OF e2 pump_side_exact [OF three]])
      have out: "(if refused3 then Some (rp3, True) else if any3 then pump fuel R rp3 else Some (rp3, False)) = Some (rp', refused)"
        using Suc.prems False two go three by (simp add: pump.simps [of "Suc fuel"] Let_def)
      show ?thesis
      proof (cases "refused3 \<or> \<not> any3")
        case True
        then have "rp' = rp3" using out by (auto split: if_splits)
        with e3 show ?thesis by simp
      next
        case False
        then have "exact rp3 rp'" using out by (intro Suc.IH) simp
        with e3 show ?thesis by (rule exact_trans)
      qed
    qed
  qed
qed

lemma pump_all_exact: "pump_all R rp = Some (rp', refused) \<Longrightarrow> exact rp rp'"
  unfolding pump_all_def by (rule pump_exact)

lemma pump_all_even:
  assumes "pump_all R rp = Some (rp', refused)"
  shows "even_call 0 rp rp'"
proof (cases "pa_routed (snd rp)")
  case True
  then show ?thesis using even_exact [OF pump_all_exact [OF assms]] by simp
next
  case False
  then have "rp' = rp" using assms by (simp add: pump_all_def pump.simps)
  then show ?thesis by simp
qed


lemma clear_side_exact: "exact rp (clear_side R w rp)"
proof (cases rp)
  case (Pair r p)
  let ?s = "side_at w p"
  have "exact (r, p) (release_done R (sd_done ?s) r, put_side w (?s\<lparr>sd_done := []\<rparr>) p)"
  proof (rule exactI)
    assume f: "fair p" "pa_routed p"
    have side: "fair_side ?s" by (rule fairD(2) [OF f(1)])
    have "granted (release_done R (sd_done ?s) r) = granted r - price (done_charge (sd_done ?s))"
      by (rule release_done_returns) (use side in \<open>simp add: fair_side_def\<close>)
    then have "owed (release_done R (sd_done ?s) r, put_side w (?s\<lparr>sd_done := []\<rparr>) p) = owed (r, p)"
      using f(2) by (simp add: owed_def retained_put_side side_charge_def price_diff price_add done_charge_def)
    moreover have "fair_side (?s\<lparr>sd_done := []\<rparr>)" using side by (simp add: fair_side_def)
    ultimately show "fair (put_side w (?s\<lparr>sd_done := []\<rparr>) p) \<and> pa_routed (put_side w (?s\<lparr>sd_done := []\<rparr>) p)
        \<and> owed (release_done R (sd_done ?s) r, put_side w (?s\<lparr>sd_done := []\<rparr>) p) = owed (r, p)"
      using f by (simp add: fair_put_side)
  qed
  from exact_trans [OF this stop_side_exact] show ?thesis by (simp add: Pair clear_side_def Let_def)
qed

lemma mark_unread_even: "even_call 0 rp (mark_unread R rp)"
proof (cases rp)
  case (Pair r p)
  let ?q = "p\<lparr>pa_unread := True, pa_decided := True, pa_role := RoleUnknown\<rparr>"
  obtain r2 p2 where two: "clear_side R Responses (clear_side R Requests (r, ?q)) = (r2, p2)" by fastforce
  have q: "even_call 0 (r, p) (r, ?q)" by (simp add: even_call_def owed_def price_zero fair_def)
  define rp2 where "rp2 = (if pa_routed p then (r2, p2\<lparr>pa_methods := []\<rparr>) else (r, ?q))"
  have "even_call 0 (r, ?q) rp2"
  proof (cases "pa_routed p")
    case True
    have "exact (r, ?q) (r2, p2)" using exact_trans [OF clear_side_exact clear_side_exact, of "(r, ?q)" Responses Requests] two by metis
    then have "even_call 0 (r, ?q) (r2, p2)" using even_exact True by simp
    then show ?thesis using True by (simp add: rp2_def even_call_def owed_def)
  qed (simp add: rp2_def)
  from even_trans [OF even_trans [OF even_trans [OF even_trans [OF q this] drop_held_even] drop_held_even] drop_held_even]
  have "even_call 0 (r, p) (drop_held R Received (drop_held R Sent (drop_held R Unknown rp2)))" by simp
  then show ?thesis using two by (simp add: Pair mark_unread_def Let_def rp2_def split: if_splits)
qed

lemma settle_role_even: "pa_routed (snd rp) \<Longrightarrow> even_call 0 rp (settle_role R rp)"
proof -
  assume "pa_routed (snd rp)"
  then have "even_call 0 rp (fst rp, (snd rp)\<lparr>pa_decided := True\<rparr>)" by (simp add: even_call_def owed_def price_zero fair_def)
  then show ?thesis using mark_unread_even by (simp add: settle_role_def Let_def)
qed

lemma route_even:
  assumes "\<not> pa_routed p"
  shows "even_call 0 (r, p) (r, route d p)"
proof -
  have side: "fair_side (new_side d' k L)" "side_charge (new_side d' k L) = 0" for d' k L
    by (simp_all add: fair_side_def side_charge_def new_side_def new_parser_wf) (simp add: retained_def new_parser_def)
  have s: "fair_side (side_at w (route d p))" for w using side(1) by (cases w) (simp_all add: route_def split_beta)
  have "pair_retained (route d p) = pair_retained p"
    using assms side(2) by (simp add: pair_retained_def held_charge_def route_def split_beta)
  moreover have "fair (route d p)" if "fair p"
    using that s by (simp add: fair_def) (simp add: route_def split_beta)
  ultimately show ?thesis by (simp add: even_call_def owed_def price_zero)
qed

lemma decide_even: "even_call 0 rp (decide R rp)"
proof (cases rp)
  case (Pair r p)
  have routed: "pa_routed (route d p)" for d by (simp add: route_def split_beta)
  show ?thesis
  proof (cases "pa_decided p \<or> pa_routed p")
    case True
    then show ?thesis using settle_role_even [of "(r, p)"] by (auto simp: Pair decide_def)
  next
    case False
    have "even_call (0 + 0) (r, p) (settle_role R (r, route d p))" for d
      by (rule even_trans [OF route_even settle_role_even]) (use False routed in simp_all)
    then show ?thesis using False mark_unread_even [of "(r, p)"] by (auto simp: Pair decide_def split: routing.split)
  qed
qed

lemma decide_routes:
  assumes "fair p" "bg_certain (dr_beginning (pa_directions p Sent))" "bg_certain (dr_beginning (pa_directions p Received))"
    "decide R (r, p) = (r', p')" "\<not> pa_unread p'"
  shows "pa_routed p'"
proof -
  have settled: "pa_routed q" if "settle_role R (r, p0) = (r', q)" "pa_routed p0" "\<not> pa_unread q" for p0 q
    using that mark_unread_parts(1) [where R = R and r = r and p = p0] by (auto simp: settle_role_def Let_def split: if_splits)
  have "pa_routed (route d p)" for d by (simp add: route_def split_beta)
  with assms fairD(3) [OF assms(1)] settled [of p p'] settled [of "route Sent p" p'] settled [of "route Received p" p']
    mark_unread_parts(1) [where R = R and r = r and p = p]
  show ?thesis by (auto simp: decide_def routing_of_def split: if_splits)
qed

lemma accept_held_even:
  assumes "accept_held R d part (r, p) = (rp', n, refused)"
  shows "even_call 0 (r, p) rp'"
proof -
  obtain ok r1 p1 where h: "hold_part R d part (r, p) = (ok, (r1, p1))" by (metis prod.exhaust)
  note e = hold_part_even [OF h]
  show ?thesis
  proof (cases ok)
    case False
    then show ?thesis using assms h e by (simp add: accept_held_def)
  next
    case True
    let ?p2 = "advance_next d (pt_length part) p1"
    have e2: "even_call 0 (r, p) (r1, ?p2)" using even_trans [OF e advance_even(1)] by simp
    have e3: "even_call 0 (r, p) (decide R (r1, begin_bytes d part ?p2))"
      using even_trans [OF even_trans [OF e2 begin_bytes_even] decide_even] by simp
    have "rp' = (r1, ?p2) \<or> rp' = decide R (r1, begin_bytes d part ?p2)"
      using assms h True by (simp add: accept_held_def Let_def) metis
    with e2 e3 show ?thesis by blast
  qed
qed

lemma accept_even:
  assumes "accept R d part (r, p) = Some (rp', n, refused)"
  shows "even_call 0 (r, p) rp'"
proof -
  obtain rp1 n1 refused1 where h: "accept_held R d part (r, p) = (rp1, n1, refused1)" by (metis prod.exhaust)
  note e1 = accept_held_even [OF h]
  show ?thesis
  proof (cases "side_of p d")
    case None
    then show ?thesis using assms h e1 by (simp add: accept_def)
  next
    case (Some w)
    then have routed: "pa_routed p" by (auto simp: side_of_def split: if_splits)
    consider (stopped) "rp' = (r, advance_next d (pt_length part) p)" | (held) "rp' = rp1"
      | (read) "accept_read R d w part (r, p) = Some (rp', n, refused)"
      using assms h Some by (auto simp: accept_def split: if_splits)
    then show ?thesis
    proof cases
      case read
      then obtain r2 p2 rest refused2 where r: "read_part (pt_length part) R w (advance_next d) (r, p) part = Some ((r2, p2), rest, refused2)"
        by (auto simp: accept_read_def split: option.splits)
      have e2: "even_call 0 (r, p) (r2, p2)" by (rule even_exact [OF read_part_exact [OF r advance_exact(1)]]) (simp add: routed)
      obtain ok r3 p3 where hold: "hold_part R d rest (r2, p2) = (ok, (r3, p3))" by (metis prod.exhaust)
      have e3: "even_call 0 (r, p) (r3, p3)" using even_trans [OF e2 hold_part_even [OF hold]] by simp
      have "even_call 0 (r, p) (r3, advance_next d (pt_length rest) p3)" using even_trans [OF e3 advance_even(1)] by simp
      with read r hold e2 e3 show ?thesis by (auto simp: accept_read_def split: if_splits bool.splits)
    qed (use advance_even(1) e1 in auto)
  qed
qed

section \<open>Exchanges handed over\<close>

lemma popped_hands:
  assumes "pop_exchange decode p = Some (e, p')"
  shows "hands (- ex_charge e) (r, p) (r, p')"
proof (rule handsI)
  assume f: "fair p" "pa_routed p"
  obtain e0 where e0: "pop_exchange decode p = Some (e0, popped_both p)"
    "ex_charge e0 = sum_list (map fn_charge (take 1 (sd_done (pa_requests p)))) + sum_list (map fn_charge (take 1 (sd_done (pa_responses p))))"
    by (rule pop_exchange_returns [of decode p]) blast
  then have e: "e = e0" "p' = popped_both p" using assms by simp_all
  have held: "dr_held (pa_directions p' d) = dr_held (pa_directions p d)" for d
    using popped_both_directions [of p d] e(2) by auto
  have side: "fair_side (side_at w p')" for w
    using fairD(2) [OF f(1), of w] by (cases "sd_done (side_at w p)") (auto simp: e(2) fair_side_def)
  have "fair p'" using f(1) held side e(2) by (simp add: fair_def)
  moreover have one: "side_charge s = side_charge (s\<lparr>sd_done := tl (sd_done s)\<rparr>) + sum_list (map fn_charge (take 1 (sd_done s)))" for s
    by (cases "sd_done s") (simp_all add: side_charge_def add_ac)
  have same: "held_total_charge (pa_directions p' d) = held_total_charge (pa_directions p d)" for d
    by (simp add: held_total_charge_def held)
  have "pair_retained p' + ex_charge e = pair_retained p"
    unfolding retained_sides [OF f(2)] one [of "side_at Requests p"] one [of "side_at Responses p"] same [symmetric]
    using f(2) e e0(2) by (simp add: retained_sides add_ac)
  then have "price (pair_retained p') + price (ex_charge e) = price (pair_retained p)" by (simp flip: price_add)
  moreover have "price (- ex_charge e) = - price (ex_charge e)" using price_diff [of 0 "ex_charge e"] by (simp add: price_zero)
  ultimately show "fair p' \<and> pa_routed p' \<and> owed (r, p') + price (- ex_charge e) = owed (r, p)"
    using f e by (simp add: owed_def algebra_simps)
qed


lemma stop_pairing_exact: "exact rp (stop_pairing R rp)"
proof -
  have "exact rp (fst rp, (snd rp)\<lparr>pa_stop := pa_why (snd rp)\<rparr>)"
    using exactI [of "snd rp" "(snd rp)\<lparr>pa_stop := pa_why (snd rp)\<rparr>" "fst rp" "fst rp"] by (simp add: owed_def)
  from exact_trans [OF exact_trans [OF this stop_side_exact] stop_side_exact] show ?thesis by (simp add: stop_pairing_def)
qed

lemma hand_over_loop_hands:
  assumes "hand_over_loop fuel decode R rp acc = Some (rp', out)"
  shows "\<exists>X. out = acc @ X \<and> hands (- exchange_charge X) rp rp'"
  using assms
proof (induction fuel arbitrary: rp acc)
  case 0
  obtain r p where rp: "rp = (r, p)" by (cases rp)
  have same: "hands (- exchange_charge []) rp rp" using exact_refl [of rp] by (simp add: exact_def)
  have last: "hands (- exchange_charge [e]) (r, p) (stop_pairing R (r, p1))" if "pop_exchange decode p = Some (e, p1)" for e p1
    using hands_exact [OF popped_hands [OF that] stop_pairing_exact] by simp
  show ?case using 0 same last
    by (auto simp: rp hand_over_loop.simps [of 0] Let_def split: if_splits option.splits)
next
  case (Suc fuel)
  obtain r p where rp: "rp = (r, p)" by (cases rp)
  have same: "hands (- exchange_charge []) rp rp" using exact_refl [of rp] by (simp add: exact_def)
  consider (rest) "rp' = rp" "out = acc"
    | (last) e p1 where "pop_exchange decode p = Some (e, p1)" "rp' = stop_pairing R (r, p1)" "out = acc @ [e]"
    | (more) e p1 where "pop_exchange decode p = Some (e, p1)" "hand_over_loop fuel decode R (r, p1) (acc @ [e]) = Some (rp', out)"
    using Suc.prems by (auto simp: rp hand_over_loop.simps [of "Suc fuel"] Let_def split: if_splits option.splits)
  then show ?case
  proof cases
    case rest
    with same show ?thesis by (intro exI [of _ "[]"]) simp
  next
    case last
    have "hands (- exchange_charge [e]) rp rp'"
      using hands_exact [OF popped_hands [OF last(1)] stop_pairing_exact] last(2) rp by simp
    with last(3) show ?thesis by blast
  next
    case more
    from Suc.IH [OF more(2)] obtain X where X: "out = (acc @ [e]) @ X" "hands (- exchange_charge X) (r, p1) rp'" by blast
    have "hands (- ex_charge e + - exchange_charge X) rp rp'"
      unfolding rp by (rule hands_trans [OF popped_hands [OF more(1)] X(2)])
    moreover have "- ex_charge e + - exchange_charge X = - exchange_charge ([e] @ X)"
      by (simp only: exchange_charge_simps minus_add_distrib)
    ultimately show ?thesis using X(1) by (intro exI [of _ "[e] @ X"]) simp
  qed
qed

lemma hand_over_even:
  assumes "hand_over_exchanges decode R rp = Some (rp', X)"
  shows "even_call (- exchange_charge X) rp rp'"
proof (cases "\<not> pa_decided (snd rp) \<or> pairing_stopped (snd rp)")
  case True
  then show ?thesis using assms by (auto simp: hand_over_exchanges_def)
next
  case False
  then have "hand_over_loop (length (sd_done (pa_requests (snd rp)))) decode R rp [] = Some (rp', X)"
    using assms by (simp add: hand_over_exchanges_def)
  from hand_over_loop_hands [OF this] have h: "hands (- exchange_charge X) rp rp'" by simp
  have "pa_routed (snd rp)" if "fair (snd rp)"
    using fairD(3) [OF that] False by (auto simp: pairing_stopped_def)
  with h show ?thesis by (auto simp: hands_def even_call_def)
qed

lemma pair_feed_even:
  assumes fed: "pair_feed decode R (r, p) d part = Some (Inr (rp', step))"
    and new: "\<not> dr_started (pa_directions p d) \<Longrightarrow> dr_held (pa_directions p d) = []"
  shows "even_call (- exchange_charge (st_exchanges step)) (r, p) rp'"
proof -
  let ?q = "start_direction d part p"
  have e0: "even_call 0 (r, p) (r, ?q)" by (rule start_direction_even [OF new])
  have adm: "pair_admit p d part = None" using fed by (cases "pair_admit p d part") (auto simp: pair_feed_def)
  show ?thesis
  proof (cases "pairing_stopped ?q")
    case True
    have "even_call (0 + 0) (r, p) (r, advance_next d (pt_length part) ?q)" by (rule even_trans [OF e0 advance_even(1)])
    then show ?thesis using fed adm True by (auto simp: pair_feed_def Let_def)
  next
    case False
    from fed adm False obtain rp1 refused1 where p1: "pump_all R (r, ?q) = Some (rp1, refused1)"
      by (auto simp: pair_feed_def Let_def split: option.splits)
    have e1: "even_call 0 (r, p) rp1" using even_trans [OF e0 pump_all_even [OF p1]] by simp
    show ?thesis
    proof (cases refused1)
      case True
      then show ?thesis using fed adm False p1 e1 by (auto simp: pair_feed_def Let_def)
    next
      case go1: False
      from fed adm False p1 go1 obtain rp2 n refused2 where p2: "accept R d part rp1 = Some (rp2, n, refused2)"
        by (auto simp: pair_feed_def Let_def split: option.splits)
      have e2: "even_call 0 (r, p) rp2"
        using even_trans [OF e1 accept_even [of d part "fst rp1" "snd rp1" rp2 n refused2, unfolded prod.collapse, OF p2]] by simp
      show ?thesis
      proof (cases refused2)
        case True
        then show ?thesis using fed adm False p1 go1 p2 e2 by (auto simp: pair_feed_def Let_def)
      next
        case go2: False
        from fed adm False p1 go1 p2 go2 obtain rp3 refused3 where p3: "pump_all R rp2 = Some (rp3, refused3)"
          by (auto simp: pair_feed_def Let_def split: option.splits)
        have e3: "even_call 0 (r, p) rp3" using even_trans [OF e2 pump_all_even [OF p3]] by simp
        show ?thesis
        proof (cases refused3)
          case True
          then show ?thesis using fed adm False p1 go1 p2 go2 p3 e3 by (auto simp: pair_feed_def Let_def)
        next
          case go3: False
          from fed adm False p1 go1 p2 go2 p3 go3 obtain X where p4: "hand_over_exchanges decode R rp3 = Some (rp', X)" "st_exchanges step = X"
            by (auto simp: pair_feed_def Let_def split: option.splits)
          show ?thesis using even_trans [OF e3 hand_over_even [OF p4(1)]] p4(2) by simp
        qed
      qed
    qed
  qed
qed

section \<open>The end\<close>

lemma end_direction_even: "even_call 0 (r, p) (r, end_direction d p)"
  unfolding end_direction_def Let_def by (rule even_direction) (auto simp: held_total_charge_def)

lemma end_side_exact: "exact rp (end_side R w rp)"
proof (cases rp)
  case (Pair r p)
  let ?s = "side_at w p"
  have stopped: "exact (r, p) (r, put_side w (?s\<lparr>sd_ended := True\<rparr>) p)"
    by (rule exact_side) (simp_all add: fair_side_def side_charge_def)
  show ?thesis
  proof (cases "sd_ended ?s \<or> sd_stopped ?s")
    case True
    with stopped show ?thesis by (auto simp: Pair end_side_def Let_def)
  next
    case False
    obtain r1 parser pr where fin: "end_parser R r (sd_parser ?s) = (r1, parser, pr)" by (metis prod.exhaust)
    show ?thesis
      unfolding Pair exact_def
    proof (rule hands_if)
      assume f: "fair (snd (r, p))"
      then have wf: "parser_wf (sd_parser ?s)" using fair_wf [of p w] False by simp
      note c = end_charged [OF wf fin]
      have "hands (- pg_charge pr) (r, p) (r1, put_side w (?s\<lparr>sd_ended := True, sd_parser := parser\<rparr>) p)"
        by (rule parser_step_hands) (use False end_conserves [OF fin] c(1) in simp_all)
      from hands_back [OF this finish_progress_hands [OF c(2,3)]] False fin show "hands 0 (r, p) (end_side R w (r, p))"
        by (simp add: exact_def end_side_def Let_def)
    qed
  qed
qed

lemma end_answers_exact:
  assumes "end_answers 1 R rp = Some (rp', refused)"
  shows "exact rp rp'"
proof -
  from assms obtain refused' where "pump_all R (pair_answer R rp) = Some (rp', refused')"
    by (auto simp: end_answers.simps split: option.splits bool.splits if_splits)
  from exact_trans [OF pair_answer_exact pump_all_exact [OF this]] show ?thesis .
qed

lemma end_hand_over_hands:
  assumes "end_hand_over fuel decode R rp acc = Some (rp', out)"
  shows "\<exists>X. out = acc @ X \<and> hands (- exchange_charge X) rp rp'"
  using assms
proof (induction fuel arbitrary: rp acc)
  case 0
  have "hands (- exchange_charge []) rp rp" using exact_refl [of rp] by (simp add: exact_def)
  with 0 show ?case by (auto simp: end_hand_over.simps [of 0] Let_def split: if_splits)
next
  case (Suc fuel)
  have same: "hands (- exchange_charge []) rp rp" using exact_refl [of rp] by (simp add: exact_def)
  show ?case
  proof (cases "pairing_stopped (snd rp) \<or> sd_done (pa_requests (snd rp)) = [] \<and> sd_done (pa_responses (snd rp)) = []")
    case True
    then have "rp' = rp" "out = acc" using Suc.prems by (auto simp: end_hand_over.simps [of "Suc fuel"] Let_def)
    with same show ?thesis by (intro exI [of _ "[]"]) simp
  next
    case False
    from Suc.prems False obtain e p1 where e: "pop_exchange decode (snd rp) = Some (e, p1)"
      by (auto simp: end_hand_over.simps [of "Suc fuel"] Let_def split: option.splits)
    define rp1 where "rp1 = (if pa_limit (snd rp) \<ge> 0 \<and> int (pa_base (snd rp)) = pa_limit (snd rp) then stop_pairing R (fst rp, p1) else (fst rp, p1))"
    have "hands (- ex_charge e) rp (fst rp, p1)" using popped_hands [OF e, of "fst rp"] by simp
    moreover have "exact (fst rp, p1) rp1" by (simp add: rp1_def stop_pairing_exact)
    ultimately have h: "hands (- ex_charge e) rp rp1" by (rule hands_exact)
    have "end_hand_over fuel decode R rp1 (acc @ [e]) = Some (rp', out)"
      using Suc.prems False e by (simp add: end_hand_over.simps [of "Suc fuel"] Let_def rp1_def)
    from Suc.IH [OF this] obtain X where X: "out = (acc @ [e]) @ X" "hands (- exchange_charge X) rp1 rp'" by blast
    have "hands (- ex_charge e + - exchange_charge X) rp rp'" by (rule hands_trans [OF h X(2)])
    moreover have "- ex_charge e + - exchange_charge X = - exchange_charge ([e] @ X)"
      by (simp only: exchange_charge_simps minus_add_distrib)
    ultimately show ?thesis using X(1) by (intro exI [of _ "[e] @ X"]) simp
  qed
qed

lemma even_if: "(fair (snd rp) \<Longrightarrow> even_call c rp rp') \<Longrightarrow> even_call c rp rp'"
  by (auto simp: even_call_def)

text \<open>From where the sides are known, \<open>End\<close> works on a routed pairing.\<close>

lemma end_routed:
  assumes out: "(case pump_all R (r1, p1) of
             None \<Rightarrow> None
           | Some (rp2, True) \<Rightarrow> Some (rp2, end_step Refused)
           | Some (rp2, False) \<Rightarrow>
               (case end_answers 1 R (end_side R Requests rp2) of
                  None \<Rightarrow> None
                | Some (rp3, True) \<Rightarrow> Some (rp3, end_step Refused)
                | Some (rp3, False) \<Rightarrow>
                    let rp4 = end_side R Responses rp3 in
                    (case end_hand_over (length (sd_done (pa_requests (snd rp4))) + length (sd_done (pa_responses (snd rp4))))
                            decode R rp4 [] of
                       None \<Rightarrow> None
                     | Some ((r5, p5), exchanges) \<Rightarrow>
                         Some ((r5, p5\<lparr>pa_ended := True\<rparr>), (end_step End)\<lparr>st_exchanges := exchanges\<rparr>)))) = Some (rp', step)"
  shows "hands (- exchange_charge (st_exchanges step)) (r1, p1) rp'"
proof -
  have refused: "hands (- exchange_charge (st_exchanges (end_step Refused))) (r1, p1) rp2" if "exact (r1, p1) rp2" for rp2
    using that by (simp add: exact_def end_step_def)
  from out obtain rp2 refused2 where p2: "pump_all R (r1, p1) = Some (rp2, refused2)" by (auto split: option.splits)
  note e2 = pump_all_exact [OF p2]
  show ?thesis
  proof (cases refused2)
    case True
    then show ?thesis using out p2 refused [OF e2] by auto
  next
    case go2: False
    from out p2 go2 obtain rp3 refused3 where p3: "end_answers 1 R (end_side R Requests rp2) = Some (rp3, refused3)"
      by (auto split: option.splits)
    note e3 = exact_trans [OF exact_trans [OF e2 end_side_exact] end_answers_exact [OF p3]]
    show ?thesis
    proof (cases refused3)
      case True
      then show ?thesis using out p2 go2 p3 refused [OF e3] by auto
    next
      case go3: False
      let ?rp4 = "end_side R Responses rp3"
      from out p2 go2 p3 go3 obtain r5 p5 X where
        p5: "end_hand_over (length (sd_done (pa_requests (snd ?rp4))) + length (sd_done (pa_responses (snd ?rp4)))) decode R ?rp4 [] = Some ((r5, p5), X)"
          "rp' = (r5, p5\<lparr>pa_ended := True\<rparr>)" "st_exchanges step = X"
        by (auto simp: Let_def split: option.splits)
      from end_hand_over_hands [OF p5(1)] have "hands (- exchange_charge X) ?rp4 (r5, p5)" by simp
      from exact_hands [OF exact_trans [OF e3 end_side_exact] this] p5(2,3) show ?thesis
        by (simp add: hands_def owed_def)
    qed
  qed
qed

lemma pair_end_even:
  assumes out: "pair_end decode R (r, p) = Some (rp', step)"
  shows "even_call (- exchange_charge (st_exchanges step)) (r, p) rp'"
proof (cases "pa_ended p \<or> pairing_stopped p")
  case True
  then have "rp' = (r, p) \<or> rp' = (r, p\<lparr>pa_ending := True, pa_ended := True\<rparr>)" "st_exchanges step = []"
    using out by (auto simp: pair_end_def end_step_def split: if_splits)
  then show ?thesis by (auto simp: even_call_def owed_def price_zero)
next
  case False
  let ?p0 = "end_direction Received (end_direction Sent (p\<lparr>pa_ending := True\<rparr>))"
  obtain r1 p1 where dec: "decide R (r, ?p0) = (r1, p1)" by fastforce
  have "even_call 0 (r, p) (r, p\<lparr>pa_ending := True\<rparr>)" by (simp add: even_call_def owed_def price_zero)
  from even_trans [OF even_trans [OF this end_direction_even] end_direction_even]
  have e0: "even_call 0 (r, p) (r, ?p0)" by simp
  have e1: "even_call 0 (r, p) (r1, p1)" using even_trans [OF e0 decide_even] dec by simp
  show ?thesis
  proof (cases "pa_unread p1")
    case True
    then have "rp' = (r1, p1\<lparr>pa_ended := True\<rparr>)" "st_exchanges step = []"
      using out False dec by (auto simp: pair_end_def end_step_def)
    then show ?thesis using e1 by (simp add: even_call_def owed_def)
  next
    case read: False
    show ?thesis
    proof (rule even_if)
      assume "fair (snd (r, p))"
      then have "fair ?p0" using e0 by (simp add: even_call_def)
      then have routed: "pa_routed p1"
        by (rule decide_routes [OF _ _ _ dec read]) (simp_all add: end_direction_parts(4,5))
      have "hands (- exchange_charge (st_exchanges step)) (r1, p1) rp'"
        by (rule end_routed [where decode = decode]) (use out False read dec in \<open>simp add: pair_end_def\<close>)
      from even_trans [OF e1 even_routed [OF this]] routed show "even_call (- exchange_charge (st_exchanges step)) (r, p) rp'" by simp
    qed
  qed
qed

section \<open>Any calls\<close>

lemma pair_call_even:
  assumes inv: "pairing_inv E p" and out: "pair_call decode R c (r, p) = Some (rp', one)"
  shows "even_call (- exchange_charge (log_exchanges one)) (r, p) rp'"
proof (cases c)
  case (FeedCall d part)
  have "dr_held (pa_directions p d) = []" if "\<not> dr_started (pa_directions p d)"
    using direction_okD(6) [OF pairing_invD(1) [OF inv, of d]] that by blast
  from pair_feed_even [OF _ this] show ?thesis
    using out FeedCall by (auto simp: pair_call_def split: option.splits sum.splits)
next
  case EndCall
  with out pair_end_even show ?thesis by (auto simp: pair_call_def split: option.splits)
qed

lemma pair_run_even:
  assumes "run_inv log p" "pair_run decode R cs (r, p) = Some (rp', rest)"
  shows "even_call (- exchange_charge (log_exchanges rest)) (r, p) rp'"
  using assms
proof (induction cs arbitrary: log r p rest)
  case Nil
  then show ?case by simp
next
  case (Cons c cs)
  from pair_call_inv [OF Cons.prems(1), of decode R c r] obtain r1 p1 one where
    o: "pair_call decode R c (r, p) = Some ((r1, p1), one)" "run_inv (log @ one) p1" by blast
  from Cons.prems(2) o(1) obtain tail where t: "pair_run decode R cs (r1, p1) = Some (rp', tail)" "rest = one @ tail"
    by (auto split: option.splits)
  have "pairing_inv (log_exchanges log) p" using Cons.prems(1) by (simp add: run_inv_def)
  from even_trans [OF pair_call_even [OF this o(1)] Cons.IH [OF o(2) t(1)]] show ?case
    using t(2) by (simp add: add.commute)
qed

lemma new_pairing_fair: "fair (new_pairing limits)" "pair_retained (new_pairing limits) = 0"
  by (simp_all add: fair_def new_pairing_def zero_direction_def fair_side_def side_at_def new_side_def new_parser_wf pair_retained_def held_charge_def
      split: side_name.split)

text \<open>The promise, over every sequence of calls.\<close>

lemma pair_run_conserves:
  assumes "pair_run decode R calls (r, new_pairing limits) = Some ((r', p), log)"
  shows "granted r' = granted r + price (pair_retained p) + price (exchange_charge (log_exchanges log))"
proof -
  have m: "price (- exchange_charge (log_exchanges log)) = - price (exchange_charge (log_exchanges log))"
    using price_diff [of 0 "exchange_charge (log_exchanges log)"] by (simp add: price_zero)
  from pair_run_even [OF new_run_inv assms] new_pairing_fair [of limits]
  have "owed (r', p) - price (exchange_charge (log_exchanges log)) = owed (r, new_pairing limits)"
    by (simp add: even_call_def m)
  with new_pairing_fair(2) [of limits] show ?thesis by (simp add: owed_def price_zero algebra_simps)
qed

end

text \<open>
  C5: a pairing asks its reserver for exactly what it keeps.  Whatever is fed, in whatever order, and
  whatever the reserver grants or refuses, what was granted less what was given back equals what the
  pairing says it retains plus the charges of the exchanges it handed over.
\<close>

theorem pairing_conserves_charges:
  assumes "pair_run decode (ledger R) calls ((r0, 0), new_pairing limits) = Some (((r, g), p), log)"
  shows "g = pair_retained p + sum_list (map ex_charge (log_exchanges log))"
  using ledger.pair_run_conserves [OF assms] by (simp add: exchange_charge_def)

text \<open>The connection that begins with a TLS record, under a reserver that grants everything: nothing stays granted.\<close>

theorem pairing_conserves_charges_witness:
  "\<exists>g p log. pair_run (\<lambda>_. ([NullToken], AtEnd)) (ledger unaccounted) [FeedCall Sent tls_part] (((), 0), new_pairing default_reconstruct_limits)
      = Some ((((), g), p), log) \<and> log_exchanges log = [] \<and> g = pair_retained p"
proof -
  have grants: "fst (Reserve (ledger unaccounted) r c)" for r c by (cases r) (simp add: ledger_def unaccounted_def)
  obtain r p log where run: "pair_run (\<lambda>_. ([NullToken], AtEnd)) (ledger unaccounted) [FeedCall Sent tls_part] (((), 0), new_pairing default_reconstruct_limits)
      = Some ((r, p), log)" "log_exchanges log = []"
    using tls_run [of "ledger unaccounted", OF grants, of "\<lambda>_. ([NullToken], AtEnd)" "((), 0)" default_reconstruct_limits] by blast
  obtain g where r: "r = ((), g)" by (cases r) auto
  from pairing_conserves_charges [OF run(1) [unfolded r]] run r show ?thesis by simp
qed

end
