(* ===== verification/Content_Coding.thy ===== *)
theory Content_Coding
  imports Http_Syntax
begin

text \<open>
  The content codings of a message (\<open>src/contentcoding/coding.go\<close>): \<open>Coding\<close>, \<open>List\<close>,
  \<open>Verdict\<close> and \<open>ParseList\<close>, which reads the Content-Encoding values of a message.

  \<open>Coding\<close> is a byte with four named values; \<open>Coding_value\<close> stands for every other one, among
  them 0 for a coding not undone and 255 for \<open>identity\<close>, which only \<open>named\<close> returns.  \<open>ParseList\<close>
  walks each value by its commas and decides at the end; it agrees with a reference reading
  that splits every value first.
\<close>

section \<open>Codings and lists\<close>

datatype coding = Gzip | Deflate | Brotli | Zstd | Coding_value nat

fun coding_string :: "coding \<Rightarrow> string" where
  "coding_string Gzip = ''gzip''"
| "coding_string Deflate = ''deflate''"
| "coding_string Brotli = ''br''"
| "coding_string Zstd = ''zstd''"
| "coding_string (Coding_value n) = ''coding('' @ itoa n @ '')''"

definition max_codings :: nat where
  "max_codings = 1"

definition identity_coding :: coding where
  "identity_coding = Coding_value 255"

definition no_coding :: coding where
  "no_coding = Coding_value 0"

text \<open>The array of \<open>MaxCodings\<close> codings, and how many of them the list holds.\<close>

record coding_list =
  li_codings :: "coding list"
  li_n :: nat

definition zero_list :: coding_list where
  "zero_list = \<lparr>li_codings = replicate max_codings no_coding, li_n = 0\<rparr>"

definition list_len :: "coding_list \<Rightarrow> nat" where
  "list_len l = li_n l"

text \<open>\<open>At\<close> panics outside the list: \<open>None\<close>.\<close>

definition list_at :: "coding_list \<Rightarrow> int \<Rightarrow> coding option" where
  "list_at l i = (if i < 0 \<or> i \<ge> int (li_n l) then None else Some (li_codings l ! nat i))"

datatype verdict = Supported | Unsupported | Malformed

definition reason_coding_unsupported :: string where
  "reason_coding_unsupported = ''content_coding_unsupported''"

definition verdict_reason :: "verdict \<Rightarrow> string" where
  "verdict_reason v = (if v = Unsupported then reason_coding_unsupported else [])"

section \<open>Reading the fields\<close>

definition coding_marks :: bytes where
  "coding_marks =
     [CHR ''!'', CHR ''#'', CHR ''$'', CHR ''%'', CHR ''&'', CHR 0x27, CHR ''*'', CHR ''+'', CHR ''-'',
      CHR ''.'', CHR 0x5E, CHR ''_'', CHR 0x60, CHR 0x7C, CHR 0x7E]"

fun coding_token_bytes :: "bytes \<Rightarrow> bool" where
  "coding_token_bytes [] \<longleftrightarrow> True"
| "coding_token_bytes (c # s) \<longleftrightarrow>
     (if is_alnum c then coding_token_bytes s
      else if index_byte coding_marks c \<noteq> None then coding_token_bytes s
      else False)"

definition coding_token :: "bytes \<Rightarrow> bool" where
  "coding_token s \<longleftrightarrow> (if \<not> coding_token_bytes s then False else s \<noteq> [])"

definition coding_names :: "(string \<times> coding) list" where
  "coding_names = [(''identity'', identity_coding), (''gzip'', Gzip), (''x-gzip'', Gzip), (''deflate'', Deflate),
     (''br'', Brotli), (''zstd'', Zstd)]"

definition named :: "bytes \<Rightarrow> coding" where
  "named token =
     (case List.find (\<lambda>(name, c). equal_fold token name) coding_names of
        Some (name, c) \<Rightarrow> c
      | None \<Rightarrow> no_coding)"

text \<open>What the loop keeps: the array, the codings counted, and whether one is not undone.\<close>

record coding_scan =
  sc_codings :: "coding list"
  sc_count :: nat
  sc_unknown :: bool

text \<open>One element of a value; \<open>None\<close> is the early return of \<open>Malformed\<close>.\<close>

definition scan_element :: "bytes \<Rightarrow> coding_scan \<Rightarrow> coding_scan option" where
  "scan_element element s =
     (let token = trim_bytes blanks element in
      if token = [] then Some s
      else if \<not> coding_token token then None
      else let c = named token in
        if c = identity_coding then Some s
        else let s1 = (if c = no_coding then s\<lparr>sc_unknown := True\<rparr>
                       else if sc_count s < max_codings then s\<lparr>sc_codings := (sc_codings s)[sc_count s := c]\<rparr>
                       else s)
          in Some (s1\<lparr>sc_count := sc_count s1 + 1\<rparr>))"

function scan_value :: "bytes \<Rightarrow> coding_scan \<Rightarrow> coding_scan option" where
  "scan_value value s =
     (if value = [] then Some s
      else let (element, rest) = (case index_byte value (CHR '','') of
                 Some i \<Rightarrow> (take i value, drop (i + 1) value)
               | None \<Rightarrow> (value, []))
        in case scan_element element s of
             None \<Rightarrow> None
           | Some s1 \<Rightarrow> scan_value rest s1)"
  by pat_completeness auto
termination
  by (relation "measure (\<lambda>(value, s). length value)")
    (auto split: option.splits prod.splits dest: index_byte_Some)

declare scan_value.simps [simp del]

fun scan_values :: "bytes list \<Rightarrow> coding_scan \<Rightarrow> coding_scan option" where
  "scan_values [] s = Some s"
| "scan_values (v # vs) s = (case scan_value v s of None \<Rightarrow> None | Some s1 \<Rightarrow> scan_values vs s1)"

definition parse_list :: "bytes list \<Rightarrow> coding_list \<times> verdict" where
  "parse_list values =
     (case scan_values values \<lparr>sc_codings = li_codings zero_list, sc_count = 0, sc_unknown = False\<rparr> of
        None \<Rightarrow> (zero_list, Malformed)
      | Some s \<Rightarrow>
          if sc_unknown s \<or> sc_count s > max_codings then (zero_list, Unsupported)
          else (\<lparr>li_codings = sc_codings s, li_n = sc_count s\<rparr>, Supported))"

section \<open>The reference reading\<close>

text \<open>Every element of every value, blanks trimmed and empty ones left out.\<close>

definition elements :: "bytes \<Rightarrow> bytes list" where
  "elements value = filter (\<lambda>t. t \<noteq> []) (map (trim_bytes blanks) (split_byte (CHR '','') value))"

text \<open>The codings a list of tokens applies, \<open>identity\<close> set aside.\<close>

definition applied :: "bytes list \<Rightarrow> coding list" where
  "applied tokens = filter (\<lambda>c. c \<noteq> identity_coding) (map named tokens)"

definition reference_list :: "bytes list \<Rightarrow> coding_list \<times> verdict" where
  "reference_list values =
     (let tokens = concat (map elements values); cs = applied tokens in
      if \<exists>t\<in>set tokens. \<not> is_token t then (zero_list, Malformed)
      else if no_coding \<in> set cs then (zero_list, Unsupported)
      else case cs of
             [] \<Rightarrow> (zero_list, Supported)
           | [c] \<Rightarrow> (\<lparr>li_codings = [c], li_n = 1\<rparr>, Supported)
           | _ \<Rightarrow> (zero_list, Unsupported))"

lemma coding_token_bytes_iff: "coding_token_bytes s \<longleftrightarrow> list_all is_token_byte s"
  by (induction s) (auto simp: is_token_byte_def coding_marks_def token_marks_def)

lemma coding_token_iff [simp]: "coding_token s \<longleftrightarrow> is_token s"
  by (simp add: coding_token_def is_token_def coding_token_bytes_iff)

text \<open>The walk over one value is a walk over its elements.\<close>

fun scan_tokens :: "bytes list \<Rightarrow> coding_scan \<Rightarrow> coding_scan option" where
  "scan_tokens [] s = Some s"
| "scan_tokens (t # ts) s = (case scan_element t s of None \<Rightarrow> None | Some s1 \<Rightarrow> scan_tokens ts s1)"

lemma split_byte_index:
  "split_byte c s = (case index_byte s c of None \<Rightarrow> [s] | Some i \<Rightarrow> take i s # split_byte c (drop (i + 1) s))"
  by (induction s) (auto split: option.splits)

lemma scan_element_empty [simp]: "scan_element [] s = Some s"
  by (simp add: scan_element_def trim_bytes_def)

lemma scan_value_tokens: "scan_value value s = scan_tokens (split_byte (CHR '','') value) s"
proof (induction "value" s rule: scan_value.induct)
  case (1 "value" s)
  show ?case
  proof (cases "value = []")
    case False
    show ?thesis
    proof (cases "index_byte value (CHR '','')")
      case None
      with False show ?thesis
        by (simp add: scan_value.simps [of "value"] scan_value.simps [of "[]"] split_byte_index [of _ "value"]
            split: option.splits)
    next
      case (Some i)
      with False 1 show ?thesis
        by (simp add: scan_value.simps [of "value"] split_byte_index [of _ "value"] split: option.splits)
    qed
  qed (simp add: scan_value.simps)
qed

lemma scan_tokens_append:
  "scan_tokens (xs @ ys) s = (case scan_tokens xs s of None \<Rightarrow> None | Some s1 \<Rightarrow> scan_tokens ys s1)"
  by (induction xs arbitrary: s) (auto split: option.splits)

lemma scan_values_tokens: "scan_values vs s = scan_tokens (concat (map (split_byte (CHR '','')) vs)) s"
  by (induction vs arbitrary: s) (auto simp: scan_value_tokens scan_tokens_append split: option.splits)

text \<open>A walk over elements does what their codings say, from any state.\<close>

definition after_scan :: "coding_scan \<Rightarrow> coding list \<Rightarrow> coding_scan" where
  "after_scan s cs = s\<lparr>sc_codings := (if sc_count s < max_codings \<and> cs \<noteq> [] \<and> hd cs \<noteq> no_coding
                                    then (sc_codings s)[sc_count s := hd cs] else sc_codings s),
     sc_count := sc_count s + length cs, sc_unknown := sc_unknown s \<or> no_coding \<in> set cs\<rparr>"

lemma after_scan_Nil [simp]: "after_scan s [] = s"
  by (simp add: after_scan_def)

lemma scan_element_after_scan:
  "scan_element t s =
     (let e = filter (\<lambda>t. t \<noteq> []) [trim_bytes blanks t] in
      if \<exists>t\<in>set e. \<not> is_token t then None else Some (after_scan s (applied e)))"
  by (auto simp: scan_element_def after_scan_def applied_def Let_def)

lemma after_scan_step [simp]: "after_scan (after_scan s [c]) cs = after_scan s (c # cs)"
  by (cases "sc_count s") (auto simp: after_scan_def max_codings_def)

lemma applied_Nil: "applied [] = []"
  by (simp add: applied_def)

lemma scan_tokens_after_scan:
  "scan_tokens ts s =
     (let e = filter (\<lambda>t. t \<noteq> []) (map (trim_bytes blanks) ts) in
      if \<exists>t\<in>set e. \<not> is_token t then None else Some (after_scan s (applied e)))"
proof (induction ts arbitrary: s)
  case (Cons t ts)
  let ?t = "trim_bytes blanks t" and ?e = "filter (\<lambda>t. t \<noteq> []) (map (trim_bytes blanks) ts)"
  have app: "applied (?t # ?e) = applied [?t] @ applied ?e"
    by (simp add: applied_def)
  have one: "after_scan (after_scan s (applied [?t])) cs = after_scan s (applied [?t] @ cs)" for cs
    by (cases "applied [?t]") (auto simp: applied_def split: if_splits)
  show ?case
  proof (cases "?t = [] \<or> is_token ?t")
    case True
    then show ?thesis
      by (auto simp: Cons.IH scan_element_after_scan Let_def one app applied_Nil)
  next
    case False
    then show ?thesis by (simp add: scan_element_after_scan Let_def)
  qed
qed (simp add: applied_Nil)

lemma filter_concat_elements:
  "filter (\<lambda>t. t \<noteq> []) (map (trim_bytes blanks) (concat (map (split_byte (CHR '','')) vs))) = concat (map elements vs)"
  by (induction vs) (simp_all add: elements_def)

lemma scan_values_after_scan:
  "scan_values vs s =
     (if \<exists>t\<in>set (concat (map elements vs)). \<not> is_token t then None
      else Some (after_scan s (applied (concat (map elements vs)))))"
  unfolding scan_values_tokens scan_tokens_after_scan Let_def filter_concat_elements ..

lemma parse_list_reference: "parse_list values = reference_list values"
  by (auto simp: parse_list_def reference_list_def scan_values_after_scan Let_def after_scan_def zero_list_def
      max_codings_def split: list.splits)

text \<open>
  C40: \<open>ParseList\<close> is the reference reading of the Content-Encoding fields.  Whatever the values,
  walking them by their commas gives what splitting all of them first gives: \<open>Malformed\<close> exactly
  where some element is not a token, wherever it stands; otherwise \<open>Unsupported\<close> where a coding is
  not undone or more than one applies, \<open>identity\<close> set aside; otherwise the one coding, or none.
\<close>

theorem parse_list_is_reference: "parse_list values = reference_list values"
  by (rule parse_list_reference)

text \<open>A supported list holds one of the four codings or none.\<close>

lemma named_cases: "named t \<in> {identity_coding, no_coding, Gzip, Deflate, Brotli, Zstd}"
  by (auto simp: named_def coding_names_def)

lemma parse_list_supported:
  assumes "parse_list values = (l, Supported)"
  shows "l = zero_list \<or> (\<exists>c\<in>{Gzip, Deflate, Brotli, Zstd}. l = \<lparr>li_codings = [c], li_n = 1\<rparr>)"
proof -
  let ?cs = "applied (concat (map elements values))"
  have "c \<in> {no_coding, Gzip, Deflate, Brotli, Zstd}" if "c \<in> set ?cs" for c
    using that named_cases by (auto simp: applied_def)
  then show ?thesis
    using assms unfolding parse_list_reference reference_list_def
    by (auto simp: Let_def split: if_splits list.splits)
qed

lemma parse_list_unsupported: "parse_list values = (l, v) \<Longrightarrow> v \<noteq> Supported \<Longrightarrow> l = zero_list"
  by (auto simp: parse_list_def split: option.splits if_splits)

end
