(* ===== verification/Content_Bounds.thy ===== *)
theory Content_Bounds
  imports Content_Coding Int64 "HOL-Library.Word"
begin

text \<open>
  What one decoding may hold and allocate (\<open>src/contentcoding/bounds.go\<close>, with the stream headers
  \<open>brotli.go\<close> and \<open>zstd.go\<close> read before and after a decoder runs).

  Sizes are \<open>int\<close>s: \<open>clampBound\<close> keeps a bound within \<open>2 ^ 40\<close>, so every sum made from a bound alone
  stays far inside 64 bits.  Sums over the length of an input, which has no bound of its own, wrap
  through \<open>wrap64\<close>.  Offsets into an input are natural numbers.

  \<open>Workspace\<close> is planned from the stream, \<open>WorkspaceCeiling\<close> from the bound alone.  The ceiling
  holds, but for zstd under bounds from 16385 to 20480, where \<open>allocated\<close> is not monotone: there two
  histories can take up to 29 bytes more than twice the largest one.
\<close>

unbundle bit_operations_syntax

section \<open>Sizes as the runtime counts them\<close>

definition size_class_limit :: int where
  "size_class_limit = 32 * 1024"

definition page_size :: int where
  "page_size = 8 * 1024"

definition allocated :: "int \<Rightarrow> int" where
  "allocated n =
     (if n \<le> 0 then 0
      else if n \<le> size_class_limit then n + n div 4 + 16
      else (n + page_size - 1) div page_size * page_size)"

definition stage_overhead :: int where
  "stage_overhead = 1024"

definition decode_overhead :: int where
  "decode_overhead = 64 * 1024"

text \<open>The sizes a loop \<open>for size := from; size <= most; size *= 2\<close> passes, from a positive one.\<close>

function doublings :: "int \<Rightarrow> int \<Rightarrow> int list" where
  "doublings sz most = (if 0 < sz \<and> sz \<le> most then sz # doublings (sz * 2) most else [])"
  by pat_completeness auto
termination
  by (relation "measure (\<lambda>(sz, most). nat (most + 1 - sz))") auto

declare doublings.simps [simp del]

section \<open>Deflate\<close>

definition link_growth :: "int \<Rightarrow> int" where
  "link_growth most =
     (let steps = sum_list (map (\<lambda>entries. allocated (entries * 2)) (doublings 2 64))
      in sum_list (map (\<lambda>n. allocated (n * 24) + n * steps) [1..most]))"

definition flate_fixed :: int where
  "flate_fixed = allocated 416 + allocated (316 * 8) + allocated (19 * 8) + allocated (32 * 1024) + 2 * allocated 1024"

definition flate_links :: int where
  "flate_links = 2 * (allocated (143 * 24) + 143 * allocated 128) + 2 * (allocated (15 * 24) + 15 * allocated 128)"

definition flate_link_growth :: int where
  "flate_link_growth = link_growth 143 + link_growth 15"

section \<open>Brotli\<close>

definition tree_group :: "int \<Rightarrow> int \<Rightarrow> int" where
  "tree_group codes trees = allocated (trees * codes * 4) + allocated (trees * 24)"

definition tree_growth :: "int \<Rightarrow> int" where
  "tree_growth codes = sum_list (map (\<lambda>trees. tree_group codes trees) [1..256])"

definition brotli_fixed :: int where
  "brotli_fixed = allocated 5608 + allocated (32 * 1024) + allocated (3 * (632 + 396) * 4)"

definition brotli_trees :: int where
  "brotli_trees = tree_group 630 256 + tree_group 1080 256 + tree_group 920 256"

definition brotli_maps :: int where
  "brotli_maps = allocated (256 * 64) + allocated (256 * 4) + allocated 256"

definition brotli_tree_growth :: int where
  "brotli_tree_growth = tree_growth 630 + tree_growth 1080 + tree_growth 920"

definition brotli_tree_bytes_per_input_byte :: int where
  "brotli_tree_bytes_per_input_byte = 3125"

definition brotli_ring_slack :: int where
  "brotli_ring_slack = 42"

definition brotli_smallest_window :: int where
  "brotli_smallest_window = 2 ^ 10 - 16"

definition brotli_ring :: "nat \<Rightarrow> int" where
  "brotli_ring bits = push_bit bits 1"

definition max_bound :: int where
  "max_bound = 2 ^ 40"

definition clamp_bound :: "int \<Rightarrow> int" where
  "clamp_bound bound = min (max bound 0) max_bound"

fun largest_ring_loop :: "int \<Rightarrow> int \<Rightarrow> nat list \<Rightarrow> int" where
  "largest_ring_loop bound ring [] = ring"
| "largest_ring_loop bound ring (bits # rest) =
     (if push_bit bits 1 - 16 > max bound brotli_smallest_window then ring
      else largest_ring_loop bound (push_bit bits 1) rest)"

definition brotli_largest_ring :: "int \<Rightarrow> int" where
  "brotli_largest_ring bound = largest_ring_loop (clamp_bound bound) (push_bit 10 1) [11..<25]"

definition brotli_ring_held :: "int \<Rightarrow> int" where
  "brotli_ring_held ring = allocated (ring + brotli_ring_slack) + allocated (ring div 2 + brotli_ring_slack)"

definition brotli_ring_growth :: "int \<Rightarrow> int" where
  "brotli_ring_growth ring = sum_list (map (\<lambda>size. allocated (size + brotli_ring_slack)) (doublings 1024 ring))"

text \<open>\<open>WBITS\<close> from a stream's first byte, and whether it is the large-window marker.\<close>

definition brotli_window_bits :: "byte \<Rightarrow> nat \<times> bool" where
  "brotli_window_bits c =
     (let first = of_char c :: nat in
      if first AND 1 = 0 then (16, False)
      else if drop_bit 1 first AND 7 \<noteq> 0 then (17 + (drop_bit 1 first AND 7), False)
      else let n = drop_bit 4 first AND 7 in
        if n = 0 then (17, False)
        else if n = 1 then (0, True)
        else (8 + n, False))"

section \<open>Zstd: what frames declare\<close>

definition zstd_fixed :: int where
  "zstd_fixed = 32 * 1024"

definition zstd_pool_bytes_per_input_byte :: int where
  "zstd_pool_bytes_per_input_byte = 5600"

definition zstd_block_data_bytes_per_input_byte :: int where
  "zstd_block_data_bytes_per_input_byte = 10"

definition zstd_block :: int where
  "zstd_block = 128 * 1024"

definition zstd_sequences :: int where
  "zstd_sequences = 0x7f00 + 0xffff"

definition zstd_large_window :: int where
  "zstd_large_window = 2 ^ 21 - 1"

definition zstd_smallest_window :: nat where
  "zstd_smallest_window = 2 ^ 10"

definition zstd_window :: "int \<Rightarrow> nat" where
  "zstd_window bound = nat (max (clamp_bound bound) (int zstd_smallest_window))"

definition zstd_history :: "nat \<Rightarrow> int" where
  "zstd_history window =
     (if int window < zstd_large_window then 2 * int window else int window + zstd_large_window div 2)"

definition zstd_history_envelope :: "nat \<Rightarrow> int" where
  "zstd_history_envelope limit =
     max (zstd_history limit) (zstd_history (min limit (nat zstd_large_window - 1)))"

definition zstd_block_buffers :: int where
  "zstd_block_buffers = 3 * allocated (zstd_block + 17) + allocated (zstd_sequences * 24)"

definition zstd_magic :: nat where
  "zstd_magic = 0xfd2fb528"

text \<open>\<open>binary.LittleEndian.Uint16\<close> and \<open>Uint32\<close> at the start of a slice long enough for them.\<close>

definition byte_at :: "bytes \<Rightarrow> nat \<Rightarrow> nat" where
  "byte_at b i = of_char (b ! i)"

definition le16 :: "bytes \<Rightarrow> nat" where
  "le16 b = byte_at b 0 + 2 ^ 8 * byte_at b 1"

definition le32 :: "bytes \<Rightarrow> nat" where
  "le32 b = byte_at b 0 + 2 ^ 8 * byte_at b 1 + 2 ^ 16 * byte_at b 2 + 2 ^ 24 * byte_at b 3"

definition is_skippable :: "nat \<Rightarrow> bool" where
  "is_skippable magic \<longleftrightarrow> magic AND 0xfffffff0 = 0x184d2a50"

definition zstd_header_size :: "nat \<Rightarrow> nat" where
  "zstd_header_size descriptor =
     5 + [0, 1, 2, 4] ! (descriptor AND 3) + [0, 2, 4, 8] ! drop_bit 6 descriptor
       + (if descriptor AND push_bit 5 1 = 0 \<or> drop_bit 6 descriptor = 0 then 1 else 0)"

text \<open>The content size of a single segment, from its last byte to its first.\<close>

fun content_value :: "bytes \<Rightarrow> nat \<Rightarrow> nat \<Rightarrow> nat \<Rightarrow> nat" where
  "content_value b pos 0 content = content"
| "content_value b pos (Suc i) content = content_value b pos i (push_bit 8 content OR byte_at b (pos + i))"

definition zstd_declared_window :: "bytes \<Rightarrow> nat option" where
  "zstd_declared_window b =
     (if length b < 5 \<or> le32 b \<noteq> zstd_magic then None
      else let descriptor = byte_at b 4 in
        if descriptor AND push_bit 5 1 = 0 then
          (if length b < 6 then None
           else let exponent = drop_bit 3 (byte_at b 5); mantissa = byte_at b 5 AND 7;
                    base = push_bit (10 + exponent) 1
             in Some (base + base div 8 * mantissa))
        else let pos = 5 + [0, 1, 2, 4] ! (descriptor AND 3); size = [1, 2, 4, 8] ! drop_bit 6 descriptor in
          if length b - pos < size then None
          else let content = content_value b pos size 0; content = (if size = 2 then content + 256 else content)
            in Some (max content zstd_smallest_window))"

text \<open>
  A frame's blocks, from the end of its header: where the frame ends (0 where it is not all
  there) and how many bytes of block headers were read.
\<close>

definition frame_checksum :: "bytes \<Rightarrow> nat \<Rightarrow> bool \<Rightarrow> nat" where
  "frame_checksum b pos checksum =
     (let pos = (if checksum then pos + 4 else pos) in if pos > length b then 0 else pos)"

text \<open>One pass over a block: the result where the loop returns or ends, or where it goes on.\<close>

definition block_header :: "bytes \<Rightarrow> nat \<Rightarrow> nat" where
  "block_header b pos = byte_at b pos OR push_bit 8 (byte_at b (pos + 1)) OR push_bit 16 (byte_at b (pos + 2))"

text \<open>A block's length after its header, by its type; a reserved type has none.\<close>

definition block_size :: "nat \<Rightarrow> nat option" where
  "block_size header =
     (let kind = drop_bit 1 header AND 3 in
      if kind = 0 \<or> kind = 2 then Some (drop_bit 3 header) else if kind = 1 then Some 1 else None)"

definition block_step :: "bytes \<Rightarrow> bool \<Rightarrow> nat \<Rightarrow> nat \<Rightarrow> (nat \<times> nat) + (nat \<times> nat)" where
  "block_step b checksum pos read =
     (if length b - pos < 3 then Inl (0, read + (length b - pos))
      else let header = block_header b pos in
        case block_size header of
          None \<Rightarrow> Inl (0, read + 3)
        | Some sz \<Rightarrow>
            if length b - (pos + 3) < sz then Inl (0, read + 3)
            else if header AND 1 \<noteq> 0 then Inl (frame_checksum b (pos + 3 + sz) checksum, read + 3)
            else Inr (pos + 3 + sz, read + 3))"

lemma block_step_range:
  "block_step b ck pos r = Inr (pos', r') \<Longrightarrow> pos + 3 \<le> pos' \<and> pos' \<le> length b"
  "block_step b ck pos r = Inl (e, r') \<Longrightarrow> 0 < e \<Longrightarrow> pos + 3 \<le> e \<and> e \<le> length b"
  by (auto simp: block_step_def Let_def frame_checksum_def split: if_splits option.splits)

function frame_end_loop :: "bytes \<Rightarrow> bool \<Rightarrow> nat \<Rightarrow> nat \<Rightarrow> nat \<times> nat" where
  "frame_end_loop b checksum pos read =
     (case block_step b checksum pos read of
        Inl r \<Rightarrow> r
      | Inr (pos, read) \<Rightarrow> frame_end_loop b checksum pos read)"
  by pat_completeness auto
termination
  by (relation "measure (\<lambda>(b, checksum, pos, read). length b - pos)") (auto dest: block_step_range(1))

declare frame_end_loop.simps [simp del]

definition zstd_frame_end :: "bytes \<Rightarrow> nat \<Rightarrow> bool \<Rightarrow> nat \<times> nat" where
  "zstd_frame_end b pos checksum = frame_end_loop b checksum pos 0"

definition zstd_frame_length :: "bytes \<Rightarrow> nat" where
  "zstd_frame_length b =
     (if length b < 4 then 0
      else let magic = le32 b in
        if is_skippable magic then
          (if length b < 8 then 0
           else let size = le32 (drop 4 b) in if size > length b - 8 then 0 else 8 + size)
        else if magic \<noteq> zstd_magic \<or> length b < 5 then 0
        else let descriptor = byte_at b 4; header = zstd_header_size descriptor in
          if length b < header then 0
          else fst (zstd_frame_end b header (descriptor AND push_bit 2 1 \<noteq> 0)))"

lemma zstd_frame_length_pos: "0 < zstd_frame_length (drop i b) \<Longrightarrow> i < length b"
  by (rule ccontr) (simp add: zstd_frame_length_def)

lemma zstd_frame_length_advances:
  "0 < zstd_frame_length (drop i b) \<Longrightarrow> length b - (i + zstd_frame_length (drop i b)) < length b - i"
  using zstd_frame_length_pos [of i b] by linarith

function frames_end_loop :: "bytes \<Rightarrow> nat \<Rightarrow> nat" where
  "frames_end_loop b end =
     (let n = zstd_frame_length (drop end b) in if n = 0 then end else frames_end_loop b (end + n))"
  by pat_completeness auto
termination
  by (relation "measure (\<lambda>(b, end). length b - end)") (simp_all add: zstd_frame_length_advances)

declare frames_end_loop.simps [simp del]

definition zstd_frames_end :: "bytes \<Rightarrow> nat" where
  "zstd_frames_end b = frames_end_loop b 0"

function declares_loop :: "bytes \<Rightarrow> nat \<Rightarrow> nat \<Rightarrow> nat" where
  "declares_loop b read start =
     (let n = zstd_frame_length (drop start b)
      in if n = 0 \<or> start + n > read - 1 then start else declares_loop b read (start + n))"
  by pat_completeness auto
termination
  by (relation "measure (\<lambda>(b, read, start). length b - start)") (simp_all add: zstd_frame_length_advances)

declare declares_loop.simps [simp del]

definition zstd_declares_more :: "bytes \<Rightarrow> nat \<Rightarrow> nat \<Rightarrow> bool" where
  "zstd_declares_more b read limit =
     (if read = 0 \<or> read > length b then False
      else case zstd_declared_window (drop (declares_loop b read 0) b) of
             None \<Rightarrow> False
           | Some window \<Rightarrow> window > limit)"

section \<open>Zstd: the plan\<close>

definition zstd_history_allocations :: nat where
  "zstd_history_allocations = 3"

record zstd_walk =
  zw_held :: int
  zw_read :: nat
  zw_retained :: int
  zw_allocations :: nat
  zw_pos :: nat

definition zstd_window_at :: "bytes \<Rightarrow> nat" where
  "zstd_window_at b = (case zstd_declared_window b of None \<Rightarrow> 0 | Some window \<Rightarrow> window)"

text \<open>A frame that needs more history than is retained makes one, unless it would be a fourth.\<close>

definition walk_history :: "nat \<Rightarrow> zstd_walk \<Rightarrow> zstd_walk option" where
  "walk_history window w =
     (let need = zstd_history window in
      if need > zw_retained w then
        (if zw_allocations w = zstd_history_allocations then None
         else Some (w\<lparr>zw_allocations := zw_allocations w + 1,
                      zw_held := max (zw_held w) (allocated (zw_retained w) + allocated need),
                      zw_retained := need\<rparr>))
      else Some w)"

lemma walk_history_pos: "walk_history window w = Some w' \<Longrightarrow> zw_pos w' = zw_pos w"
  by (auto simp: walk_history_def Let_def split: if_splits)

text \<open>One pass of the loop: the result where it returns, or the walk past one more frame.\<close>

definition walk_frame :: "bytes \<Rightarrow> nat \<Rightarrow> zstd_walk \<Rightarrow> (int \<times> nat \<times> nat option) + zstd_walk" where
  "walk_frame b limit w =
     (let rest = length b - zw_pos w; here = drop (zw_pos w) b in
      if rest < 4 then Inl (zw_held w, zw_read w + rest, None)
      else let magic = le32 here in
        if is_skippable magic then
          (if rest < 8 then Inl (zw_held w, zw_read w + rest, None)
           else let size = le32 (drop 4 here); read = zw_read w + 8 in
             if size > rest - 8 then Inl (zw_held w, read, None)
             else Inr (w\<lparr>zw_read := read, zw_pos := zw_pos w + (8 + size)\<rparr>))
        else let read = zw_read w + 4 in
          if magic \<noteq> zstd_magic \<or> rest < 5 then Inl (zw_held w, read, None)
          else let descriptor = byte_at here 4; header = zstd_header_size descriptor in
            if rest < header then Inl (zw_held w, read + rest - 4, None)
            else let read = read + (header - 4); window = zstd_window_at here in
              if window > limit then Inl (zw_held w, read, None)
              else case walk_history window w of
                     None \<Rightarrow> Inl (zw_held w, read, Some (zw_pos w))
                   | Some w1 \<Rightarrow>
                       let (end, blocks) = zstd_frame_end here header (descriptor AND push_bit 2 1 \<noteq> 0);
                           read = read + blocks
                       in if end = 0 then Inl (zw_held w1, read, None)
                          else Inr (w1\<lparr>zw_read := read, zw_pos := zw_pos w1 + end\<rparr>))"

text \<open>A pass that goes on leaves behind exactly the complete frame it stood at.\<close>

lemma walk_frame_passes:
  assumes "walk_frame b limit w = Inr w'"
  shows "zw_pos w' = zw_pos w + zstd_frame_length (drop (zw_pos w) b)" "0 < zstd_frame_length (drop (zw_pos w) b)"
  using assms
  by (auto simp: walk_frame_def zstd_frame_length_def Let_def dest: walk_history_pos
      split: if_splits option.splits prod.splits)

function zstd_planned_loop :: "bytes \<Rightarrow> nat \<Rightarrow> zstd_walk \<Rightarrow> int \<times> nat \<times> nat option" where
  "zstd_planned_loop b limit w =
     (case walk_frame b limit w of Inl r \<Rightarrow> r | Inr w' \<Rightarrow> zstd_planned_loop b limit w')"
  by pat_completeness auto
termination
  by (relation "measure (\<lambda>(b, limit, w). length b - zw_pos w)")
    (simp_all add: walk_frame_passes zstd_frame_length_advances)

declare zstd_planned_loop.simps [simp del]

text \<open>The most history held, the bytes read, and where the stage cuts the input (\<open>-1\<close> as \<open>None\<close>).\<close>

definition zstd_planned :: "bytes \<Rightarrow> nat \<Rightarrow> int \<times> nat \<times> nat option" where
  "zstd_planned b limit =
     zstd_planned_loop b limit \<lparr>zw_held = 0, zw_read = 0, zw_retained = 0, zw_allocations = 0, zw_pos = 0\<rparr>"

definition zstd_plan :: "bytes \<Rightarrow> nat \<Rightarrow> int \<times> nat" where
  "zstd_plan b limit = (let (held, read, cut) = zstd_planned b limit in (held, read))"

definition zstd_window_growth :: "nat \<Rightarrow> int" where
  "zstd_window_growth limit =
     sum_list (map (\<lambda>exponent.
         let base = push_bit (10 + exponent) 1;
             windows = takeWhile (\<lambda>window. window \<le> limit) (map (\<lambda>mantissa. base + base div 8 * mantissa) [0..<8])
         in sum_list (map (\<lambda>window. if int window < zstd_block then allocated (int window + 17) else 0) windows))
       (takeWhile (\<lambda>exponent. push_bit (10 + exponent) 1 \<le> limit) [0..<32]))"

section \<open>Output buffers\<close>

definition first_capacity :: int where
  "first_capacity = 4096"

definition ceil_shift :: "int \<Rightarrow> nat \<Rightarrow> int" where
  "ceil_shift n shift =
     (let q = drop_bit shift n in if n AND (push_bit shift 1 - 1) \<noteq> 0 then q + 1 else q)"

fun output_growth_loop :: "int \<Rightarrow> nat list \<Rightarrow> int \<Rightarrow> int \<Rightarrow> int" where
  "output_growth_loop limit [] acc previous = acc"
| "output_growth_loop limit (shift # rest) acc previous =
     (let capacity = ceil_shift limit shift in
      if capacity < first_capacity \<and> capacity < limit then output_growth_loop limit rest acc previous
      else if capacity > previous then output_growth_loop limit rest (acc + allocated capacity) capacity
      else output_growth_loop limit rest acc previous)"

definition output_growth :: "int \<Rightarrow> int" where
  "output_growth bound = output_growth_loop (bound + 1) (rev [0..<63]) 0 0"

fun isqrt_loop :: "int \<Rightarrow> nat \<Rightarrow> int \<Rightarrow> int" where
  "isqrt_loop n 0 r = r"
| "isqrt_loop n (Suc k) r =
     (let bit = push_bit k 1 in isqrt_loop n k (if (r + bit) * (r + bit) \<le> n then r + bit else r))"

definition isqrt :: "int \<Rightarrow> int" where
  "isqrt n = isqrt_loop n 31 0"

section \<open>The bounds of a stage and of a decode\<close>

definition plan :: "coding \<Rightarrow> bytes \<Rightarrow> int \<Rightarrow> int \<times> nat" where
  "plan c input bound =
     (let bound = clamp_bound bound in
      case c of
        Gzip \<Rightarrow> (flate_fixed + flate_links + stage_overhead, 0)
      | Deflate \<Rightarrow> (flate_fixed + flate_links + stage_overhead, 0)
      | Brotli \<Rightarrow>
          if input = [] then (0, 0)
          else let (bits, large) = brotli_window_bits (input ! 0) in
            if large \<or> push_bit bits 1 - 16 > max bound brotli_smallest_window then (0, 1)
            else (brotli_fixed + 2 * brotli_trees + brotli_maps + brotli_ring_held (brotli_ring bits) + stage_overhead, 1)
      | Zstd \<Rightarrow>
          let (history, read) = zstd_plan input (zstd_window bound)
          in (zstd_fixed + history + 2 * zstd_block_buffers + stage_overhead, read)
      | Coding_value _ \<Rightarrow> (0, 0))"

definition workspace :: "coding \<Rightarrow> bytes \<Rightarrow> int \<Rightarrow> int" where
  "workspace c input bound = fst (plan c input bound)"

definition workspace_ceiling :: "coding \<Rightarrow> int \<Rightarrow> int" where
  "workspace_ceiling c bound =
     (let bound = clamp_bound bound in
      case c of
        Gzip \<Rightarrow> flate_fixed + flate_links + stage_overhead
      | Deflate \<Rightarrow> flate_fixed + flate_links + stage_overhead
      | Brotli \<Rightarrow> brotli_fixed + 2 * brotli_trees + brotli_maps + brotli_ring_held (brotli_largest_ring bound) + stage_overhead
      | Zstd \<Rightarrow> zstd_fixed + 2 * allocated (zstd_history_envelope (zstd_window bound)) + 2 * zstd_block_buffers + stage_overhead
      | Coding_value _ \<Rightarrow> 0)"

record allocation =
  al_decoder :: int
  al_output :: int
  al_link_tables :: int
  al_ring :: int
  al_trees :: int
  al_context_maps :: int
  al_history :: int
  al_blocks :: int
  al_pool_misses :: int

definition zero_allocation :: allocation where
  "zero_allocation = \<lparr>al_decoder = 0, al_output = 0, al_link_tables = 0, al_ring = 0, al_trees = 0,
     al_context_maps = 0, al_history = 0, al_blocks = 0, al_pool_misses = 0\<rparr>"

definition allocation_total :: "allocation \<Rightarrow> int" where
  "allocation_total a = wrap64 (al_decoder a + al_output a + al_link_tables a + al_ring a + al_trees a
     + al_context_maps a + al_history a + al_blocks a + al_pool_misses a)"

definition stage_allocation :: "coding \<Rightarrow> int \<Rightarrow> int \<Rightarrow> allocation" where
  "stage_allocation c bound input_len =
     (let b = clamp_bound bound; l = max input_len 0; a = zero_allocation\<lparr>al_output := output_growth b\<rparr>;
          flate = a\<lparr>al_decoder := flate_fixed + stage_overhead, al_link_tables := flate_link_growth\<rparr> in
      case c of
        Gzip \<Rightarrow> flate
      | Deflate \<Rightarrow> flate
      | Brotli \<Rightarrow> a\<lparr>al_decoder := brotli_fixed + stage_overhead,
          al_ring := brotli_ring_growth (brotli_largest_ring b),
          al_trees := brotli_trees + min brotli_tree_growth (wrap64 (brotli_tree_bytes_per_input_byte * l)),
          al_context_maps := brotli_maps\<rparr>
      | Zstd \<Rightarrow>
          let window = zstd_window b; growths = isqrt (2 * (b + 1)) + 1 in
          a\<lparr>al_decoder := zstd_fixed + zstd_block_buffers + stage_overhead,
            al_history := int zstd_history_allocations * allocated (zstd_history_envelope window),
            al_blocks := wrap64 (zstd_window_growth window + 14 * (b + 1) + 4 * 40 * growths
              + wrap64 (zstd_block_data_bytes_per_input_byte * l)),
            al_pool_misses := wrap64 (zstd_pool_bytes_per_input_byte * l)\<rparr>
      | Coding_value _ \<Rightarrow> zero_allocation)"

definition cumulative :: "coding \<Rightarrow> int \<Rightarrow> int" where
  "cumulative c bound =
     (let a = stage_allocation c bound (clamp_bound bound)
      in if a = zero_allocation then 0 else wrap64 (decode_overhead + allocation_total a))"

definition charges :: "coding \<Rightarrow> int \<Rightarrow> int" where
  "charges c bound =
     (let w = workspace_ceiling c bound in
      if w = 0 then 0
      else let n = clamp_bound bound + 1 in n + (n + 1) div 2 + w)"

definition peak :: "coding \<Rightarrow> int \<Rightarrow> int \<Rightarrow> int" where
  "peak c bound encoded_len = wrap64 (max encoded_len 0 + charges c bound)"

end
