(* ===== verification/Content_Limits.thy ===== *)
theory Content_Limits
  imports Content_Bounds
begin

text \<open>
  What \<open>Content_Bounds\<close> promises: the workspace planned from a stream against the ceiling computed
  from the bound alone, where the ceiling falls short, and that a zstd stream is cut only
  between complete frames.
\<close>

section \<open>Sizes\<close>

lemma allocated_simps:
  "n \<le> 0 \<Longrightarrow> allocated n = 0"
  "0 < n \<Longrightarrow> n \<le> 32768 \<Longrightarrow> allocated n = n + n div 4 + 16"
  "32768 < n \<Longrightarrow> allocated n = (n + 8191) div 8192 * 8192"
  by (simp_all add: allocated_def size_class_limit_def page_size_def)

lemma allocated_nonneg [simp]: "0 \<le> allocated n"
  by (cases "n \<le> 0"; cases "n \<le> 32768") (simp_all add: allocated_simps)

lemma allocated_small: "x \<le> 32768 \<Longrightarrow> allocated x \<le> 40976"
  by (cases "x \<le> 0") (simp_all add: allocated_simps)

lemma allocated_large: "32768 < y \<Longrightarrow> 40960 \<le> allocated y"
  by (simp add: allocated_simps)

text \<open>\<open>allocated\<close> is monotone but where the larger size is just past the size classes.\<close>

lemma allocated_mono:
  assumes "x \<le> y" "y \<le> 32768 \<or> 40960 < y"
  shows "allocated x \<le> allocated y"
proof (cases "x \<le> 32768")
  case True
  show ?thesis
  proof (cases "y \<le> 32768")
    case True
    with assms(1) show ?thesis
      by (cases "x \<le> 0") (simp_all add: allocated_simps zdiv_mono1)
  next
    case False
    with assms have "49152 \<le> allocated y" by (simp add: allocated_simps)
    with allocated_small [OF True] show ?thesis by simp
  qed
next
  case False
  with assms(1) show ?thesis by (simp add: allocated_simps zdiv_mono1)
qed

section \<open>Histories\<close>

lemma zstd_history_simps:
  "w < 2097151 \<Longrightarrow> zstd_history w = 2 * int w"
  "2097151 \<le> w \<Longrightarrow> zstd_history w = int w + 1048575"
  by (simp_all add: zstd_history_def zstd_large_window_def)

lemma zstd_history_envelope: "w \<le> limit \<Longrightarrow> zstd_history w \<le> zstd_history_envelope limit"
  by (cases "w < 2097151"; cases "limit < 2097151")
    (auto simp: zstd_history_envelope_def zstd_large_window_def zstd_history_simps not_less min_def le_max_iff_disj)

lemma zstd_envelope_small: "limit < 2097151 \<Longrightarrow> zstd_history_envelope limit = 2 * int limit"
  by (simp add: zstd_history_envelope_def zstd_large_window_def zstd_history_simps min_def)

lemma zstd_envelope_large: "2097151 \<le> limit \<Longrightarrow> 40960 < zstd_history_envelope limit"
  by (simp add: zstd_history_envelope_def zstd_large_window_def zstd_history_simps min_def)

text \<open>What two histories held together can take beyond twice the largest.\<close>

definition envelope_slack :: "nat \<Rightarrow> int" where
  "envelope_slack limit = (if 16385 \<le> limit \<and> limit \<le> 20480 then 29 else 0)"

lemma envelope_cases:
  obtains (monotone) "zstd_history_envelope limit \<le> 32768 \<or> 40960 < zstd_history_envelope limit"
  | (short) "allocated (zstd_history_envelope limit) = 40960" "envelope_slack limit = 29"
proof (cases "16385 \<le> limit \<and> limit \<le> 20480")
  case True
  then show ?thesis
    by (intro short) (simp_all add: zstd_envelope_small envelope_slack_def allocated_simps, linarith)
next
  case False
  then show ?thesis
    by (intro monotone; cases "limit < 2097151") (auto simp: zstd_envelope_small zstd_envelope_large)
qed

lemma two_histories:
  assumes v: "a = 0 \<or> a = zstd_history v" and w: "w \<le> limit" and less: "a < zstd_history w"
  shows "allocated a + allocated (zstd_history w) \<le> 2 * allocated (zstd_history_envelope limit) + envelope_slack limit"
proof (cases limit rule: envelope_cases)
  case monotone
  have "zstd_history w \<le> zstd_history_envelope limit" using w by (rule zstd_history_envelope)
  moreover from this less have "a \<le> zstd_history_envelope limit" by simp
  ultimately have "allocated (zstd_history w) \<le> allocated (zstd_history_envelope limit)"
    "allocated a \<le> allocated (zstd_history_envelope limit)"
    using monotone by (auto intro: allocated_mono)
  then show ?thesis by (simp add: envelope_slack_def)
next
  case short
  have "zstd_history w \<le> 40960"
    using short zstd_history_envelope [OF w] by (simp add: envelope_slack_def zstd_envelope_small split: if_splits)
  have "allocated a + allocated (zstd_history w) \<le> 81949"
  proof (cases "zstd_history w \<le> 32768")
    case True
    then have "a \<le> 32766"
      using v less by (cases "v < 2097151"; cases "w < 2097151") (auto simp: zstd_history_simps)
    then have "allocated a \<le> allocated 32766" by (intro allocated_mono) auto
    with allocated_small [OF True] show ?thesis by (simp add: allocated_simps)
  next
    case False
    with \<open>zstd_history w \<le> 40960\<close> have "allocated (zstd_history w) = 40960" by (simp add: allocated_simps)
    moreover have "allocated a \<le> 40976"
    proof (cases "a \<le> 32768")
      case False
      then show ?thesis
        using less \<open>zstd_history w \<le> 40960\<close> zdiv_mono1 [of "a + 8191" 49151 8192] by (simp add: allocated_simps)
    qed (rule allocated_small)
    ultimately show ?thesis by simp
  qed
  with short show ?thesis by simp
qed

section \<open>The zstd plan\<close>

definition walk_ok :: "nat \<Rightarrow> zstd_walk \<Rightarrow> bool" where
  "walk_ok limit w \<longleftrightarrow> 0 \<le> zw_held w
   \<and> zw_held w \<le> 2 * allocated (zstd_history_envelope limit) + envelope_slack limit
   \<and> (\<exists>v. zw_retained w = 0 \<or> zw_retained w = zstd_history v)"

lemma walk_history_ok:
  assumes ok: "walk_ok limit w" and w: "window \<le> limit" and h: "walk_history window w = Some w'"
  shows "walk_ok limit w'"
proof -
  from ok obtain v where v: "zw_retained w = 0 \<or> zw_retained w = zstd_history v"
    by (auto simp: walk_ok_def)
  show ?thesis
    using ok h two_histories [OF v w] by (auto simp: walk_ok_def walk_history_def Let_def split: if_splits)
qed

lemma walk_frame_ok:
  assumes "walk_ok limit w"
  shows "case walk_frame b limit w of
      Inl (held, _) \<Rightarrow> 0 \<le> held \<and> held \<le> 2 * allocated (zstd_history_envelope limit) + envelope_slack limit
    | Inr w' \<Rightarrow> walk_ok limit w'"
proof -
  have upd: "walk_ok limit (w1\<lparr>zw_read := r, zw_pos := p\<rparr>) = walk_ok limit w1" for w1 r p
    by (simp add: walk_ok_def)
  have held: "walk_ok limit w1 \<Longrightarrow> 0 \<le> zw_held w1" "walk_ok limit w1 \<Longrightarrow> zw_held w1 \<le> 2 * allocated (zstd_history_envelope limit) + envelope_slack limit" for w1
    by (simp_all add: walk_ok_def)
  note hist = walk_history_ok [OF assms]
  show ?thesis
    using assms held [OF assms]
    by (auto simp: walk_frame_def Let_def upd not_less dest: hist intro: held split: prod.splits option.splits)
qed

lemma zstd_planned_loop_held:
  "walk_ok limit w \<Longrightarrow> 0 \<le> fst (zstd_planned_loop b limit w)
     \<and> fst (zstd_planned_loop b limit w) \<le> 2 * allocated (zstd_history_envelope limit) + envelope_slack limit"
proof (induction b limit w rule: zstd_planned_loop.induct)
  case (1 b limit w)
  show ?case
    using walk_frame_ok [OF 1(2), of b] 1(1)
    by (simp add: zstd_planned_loop.simps [of b limit w] split: sum.splits) auto
qed

lemma zstd_plan_held:
  "0 \<le> fst (zstd_plan b limit)"
  "fst (zstd_plan b limit) \<le> 2 * allocated (zstd_history_envelope limit) + envelope_slack limit"
proof -
  let ?w = "\<lparr>zw_held = 0, zw_read = 0, zw_retained = 0, zw_allocations = 0, zw_pos = 0\<rparr>"
  have "walk_ok limit ?w" by (simp add: walk_ok_def envelope_slack_def)
  from zstd_planned_loop_held [OF this, of b]
  show "0 \<le> fst (zstd_plan b limit)" "fst (zstd_plan b limit) \<le> 2 * allocated (zstd_history_envelope limit) + envelope_slack limit"
    by (simp_all add: zstd_plan_def zstd_planned_def case_prod_beta)
qed

section \<open>The brotli ring\<close>

lemma and_7: "x AND 7 = x mod (8 :: nat)"
  using take_bit_eq_mask [of 3 x] by (simp add: take_bit_eq_mod mask_eq_exp_minus_1)

lemma brotli_window_bits_range:
  assumes "brotli_window_bits c = (bits, False)"
  shows "10 \<le> bits \<and> bits \<le> 24"
proof -
  have "x mod 8 < 8" for x :: nat by simp
  then show ?thesis
    using assms by (auto simp: brotli_window_bits_def Let_def and_7 less_Suc_eq_le split: if_splits)
qed

text \<open>The loop over window sizes ends at the largest admitted power.\<close>

lemma largest_ring_loop_power:
  "\<exists>m. largest_ring_loop bound (2 ^ k) [Suc k..<n] = 2 ^ m \<and> k \<le> m \<and> (m < n \<or> m = k)
     \<and> (\<forall>j. k < j \<and> j < n \<and> 2 ^ j - 16 \<le> max bound brotli_smallest_window \<longrightarrow> j \<le> m)"
proof (induction "n - k" arbitrary: k)
  case 0
  then show ?case by (intro exI [of _ k]) auto
next
  case (Suc d)
  show ?case
  proof (cases "Suc k < n \<and> 2 ^ Suc k - 16 \<le> max bound brotli_smallest_window")
    case True
    from Suc(2) have "d = n - Suc k" by simp
    from Suc(1) [OF this] obtain m where m: "largest_ring_loop bound (2 ^ Suc k) [Suc (Suc k)..<n] = 2 ^ m"
      "Suc k \<le> m" "m < n \<or> m = Suc k"
      "\<And>j. Suc k < j \<Longrightarrow> j < n \<Longrightarrow> 2 ^ j - 16 \<le> max bound brotli_smallest_window \<Longrightarrow> j \<le> m"
      by auto
    have "j \<le> m" if "k < j" "j < n" "2 ^ j - 16 \<le> max bound brotli_smallest_window" for j
      using that m(2,4) by (cases "j = Suc k") auto
    moreover from m(2) have "k \<le> m" by simp
    ultimately show ?thesis
      using True m(1,3) by (intro exI [of _ m]) (auto simp: upt_conv_Cons push_bit_eq_mult)
  next
    case False
    have "2 ^ Suc k \<le> (2 :: int) ^ j" if "k < j" for j
      using that by (intro power_increasing) auto
    then have "\<not> (k < j \<and> j < n \<and> 2 ^ j - 16 \<le> max bound brotli_smallest_window)" for j
      using False by (smt (verit) Suc_lessI less_trans)
    moreover have "largest_ring_loop bound (2 ^ k) [Suc k..<n] = 2 ^ k"
      using False by (cases "Suc k < n") (auto simp: upt_conv_Cons push_bit_eq_mult)
    ultimately show ?thesis by (intro exI [of _ k]) auto
  qed
qed

lemma brotli_ring_held_Suc:
  assumes "10 \<le> k" "k < 24"
  shows "brotli_ring_held (2 ^ k) \<le> brotli_ring_held (2 ^ Suc k)"
proof -
  have "k \<in> {10, 11, 12, 13, 14, 15, 16, 17, 18, 19, 20, 21, 22, 23}"
    using assms by (simp, presburger)
  then show ?thesis
    by (elim insertE emptyE) (simp_all add: brotli_ring_held_def brotli_ring_slack_def allocated_simps)
qed

lemma brotli_ring_held_mono:
  assumes "10 \<le> i" "i \<le> j" "j \<le> 24"
  shows "brotli_ring_held (2 ^ i) \<le> brotli_ring_held (2 ^ j)"
  using assms(2,3)
proof (induction j rule: dec_induct)
  case (step n)
  have "brotli_ring_held (2 ^ i) \<le> brotli_ring_held (2 ^ n)" using step by simp
  also have "\<dots> \<le> brotli_ring_held (2 ^ Suc n)"
    using step assms(1) by (intro brotli_ring_held_Suc) auto
  finally show ?case .
qed simp

text \<open>Every admitted ring takes no more than the largest one.\<close>

lemma brotli_ring_within:
  assumes "10 \<le> bits" "bits \<le> 24" "push_bit bits 1 - 16 \<le> max (clamp_bound bound) brotli_smallest_window"
  shows "brotli_ring_held (brotli_ring bits) \<le> brotli_ring_held (brotli_largest_ring bound)"
proof -
  obtain m where m: "largest_ring_loop (clamp_bound bound) (2 ^ 10) [Suc 10..<25] = 2 ^ m" "10 \<le> m" "m < 25 \<or> m = 10"
    "\<And>j. 10 < j \<Longrightarrow> j < 25 \<Longrightarrow> 2 ^ j - 16 \<le> max (clamp_bound bound) brotli_smallest_window \<Longrightarrow> j \<le> m"
    using largest_ring_loop_power [of "clamp_bound bound" 10 25] by blast
  have "bits \<le> m"
    using assms m(2) m(4) [of bits] by (cases "bits = 10") (auto simp: push_bit_eq_mult)
  then have "brotli_ring_held (2 ^ bits) \<le> brotli_ring_held (2 ^ m)"
    using assms(1) m(3) by (intro brotli_ring_held_mono) auto
  then show ?thesis
    using m(1) by (simp add: brotli_largest_ring_def brotli_ring_def push_bit_eq_mult)
qed

lemma clamp_bound_idem [simp]: "clamp_bound (clamp_bound bound) = clamp_bound bound"
  by (simp add: clamp_bound_def max_bound_def)

lemma zstd_window_clamp [simp]: "zstd_window (clamp_bound bound) = zstd_window bound"
  by (simp add: zstd_window_def)

section \<open>The ceiling\<close>

definition ceiling_slack :: "coding \<Rightarrow> int \<Rightarrow> int" where
  "ceiling_slack c bound = (if c = Zstd \<and> 16385 \<le> bound \<and> bound \<le> 20480 then 29 else 0)"

lemma envelope_slack_window: "envelope_slack (zstd_window bound) = ceiling_slack Zstd bound"
  by (auto simp: envelope_slack_def ceiling_slack_def zstd_window_def zstd_smallest_window_def clamp_bound_def max_bound_def
      min_def max_def)

lemma parts_nonneg:
  "0 \<le> brotli_ring_held r" "0 \<le> flate_fixed" "0 \<le> flate_links" "0 \<le> brotli_fixed" "0 \<le> brotli_trees"
  "0 \<le> brotli_maps" "0 \<le> zstd_block_buffers" "0 \<le> zstd_fixed"
  by (simp_all add: brotli_ring_held_def flate_fixed_def flate_links_def brotli_fixed_def brotli_trees_def tree_group_def
      brotli_maps_def zstd_block_buffers_def zstd_fixed_def)

lemma workspace_ceiling_positive: "c \<in> {Gzip, Deflate, Brotli, Zstd} \<Longrightarrow> 0 < workspace_ceiling c bound"
  by (auto simp: workspace_ceiling_def Let_def stage_overhead_def parts_nonneg intro!: add_nonneg_pos add_nonneg_nonneg)

lemma workspace_ceiling_bound:
  "workspace c input bound \<le> workspace_ceiling c bound + ceiling_slack c bound"
proof (cases c)
  case Brotli
  have z: "0 \<le> workspace_ceiling Brotli bound"
    using workspace_ceiling_positive [of Brotli bound] by simp
  show ?thesis
    using Brotli z brotli_window_bits_range [of "input ! 0"] brotli_ring_within [of _ "clamp_bound bound"]
    by (auto simp: workspace_def plan_def Let_def ceiling_slack_def workspace_ceiling_def not_less split: prod.splits)
next
  case Zstd
  then show ?thesis
    using zstd_plan_held(2) [of input "zstd_window bound"]
    by (simp add: workspace_def plan_def Let_def workspace_ceiling_def envelope_slack_window case_prod_beta)
qed (simp_all add: workspace_def plan_def workspace_ceiling_def ceiling_slack_def)

text \<open>Every stage that runs asks for a workspace of its own.\<close>

lemma workspace_positive:
  assumes "c \<in> {Gzip, Deflate, Zstd} \<or> c = Brotli \<and> input \<noteq> [] \<and> \<not> snd (brotli_window_bits (input ! 0))
      \<and> push_bit (fst (brotli_window_bits (input ! 0))) 1 - 16 \<le> max (clamp_bound bound) brotli_smallest_window"
  shows "0 < workspace c input bound"
proof (cases "c = Brotli")
  case True
  obtain bits where b: "brotli_window_bits (input ! 0) = (bits, False)"
    using assms True by (cases "brotli_window_bits (input ! 0)") auto
  then show ?thesis
    using assms True parts_nonneg(1) [of "brotli_ring bits"] parts_nonneg(4-6)
    by (simp add: workspace_def plan_def stage_overhead_def not_less [symmetric])
next
  case False
  then show ?thesis
    using assms parts_nonneg(2,3,7,8) zstd_plan_held(1) [of input "zstd_window bound"]
    by (auto simp: workspace_def plan_def Let_def stage_overhead_def case_prod_beta)
qed

text \<open>
  Two frames of empty blocks, declaring windows of 16383 and of 16384 bytes: histories of 32766 and
  32768 bytes, each just below the size classes' limit.
\<close>

definition two_windows :: bytes where
  "two_windows = map char_of [0x28, 0xb5, 0x2f, 0xfd, 0x60, 0xff, 0x3e, 1, 0, 0,
     0x28, 0xb5, 0x2f, 0xfd, 0, 0x20, 1, 0, 0 :: nat]"

definition sixteen_k :: bytes where
  "sixteen_k = map char_of [0x28, 0xb5, 0x2f, 0xfd, 0, 0x20, 1, 0, 0 :: nat]"

lemma two_windows_at:
  "length two_windows = 19" "drop 10 two_windows = sixteen_k" "length sixteen_k = 9"
  by (simp_all add: two_windows_def sixteen_k_def)

lemma two_windows_bytes:
  "byte_at two_windows 0 = 40" "byte_at two_windows 1 = 181" "byte_at two_windows 2 = 47" "byte_at two_windows 3 = 253" "byte_at two_windows 4 = 96" "byte_at two_windows 5 = 255" "byte_at two_windows 6 = 62" "byte_at two_windows 7 = 1" "byte_at two_windows 8 = 0" "byte_at two_windows 9 = 0"
  "byte_at sixteen_k 0 = 40" "byte_at sixteen_k 1 = 181" "byte_at sixteen_k 2 = 47" "byte_at sixteen_k 3 = 253" "byte_at sixteen_k 4 = 0" "byte_at sixteen_k 5 = 32" "byte_at sixteen_k 6 = 1" "byte_at sixteen_k 7 = 0" "byte_at sixteen_k 8 = 0"
  by (simp_all add: two_windows_def sixteen_k_def byte_at_def)

lemma content_value_2: "content_value b pos 2 content = push_bit 8 (push_bit 8 content OR byte_at b (pos + 1)) OR byte_at b pos"
  by (simp add: numeral_2_eq_2)

lemmas frame_eval = two_windows_at two_windows_bytes two_windows_bytes [unfolded One_nat_def] le32_def zstd_magic_def zstd_header_size_def zstd_window_at_def
  zstd_declared_window_def zstd_smallest_window_def push_bit_eq_mult drop_bit_eq_div content_value_2 is_skippable_def
  zstd_frame_end_def frame_end_loop.simps block_step_def block_header_def block_size_def frame_checksum_def

lemma first_frame:
  "le32 two_windows = zstd_magic" "zstd_header_size 96 = 7" "zstd_window_at two_windows = 16383"
  "zstd_frame_end two_windows 7 False = (10, 3)"
  by (simp_all add: frame_eval)

lemma second_frame:
  "le32 sixteen_k = zstd_magic" "zstd_header_size 0 = 6" "zstd_window_at sixteen_k = 16384"
  "zstd_frame_end sixteen_k 6 False = (9, 3)"
  by (simp_all add: frame_eval)

lemma not_skippable: "\<not> is_skippable zstd_magic"
  by (simp add: is_skippable_def zstd_magic_def)

lemma two_windows_walk:
  "walk_frame two_windows 20000 \<lparr>zw_held = 0, zw_read = 0, zw_retained = 0, zw_allocations = 0, zw_pos = 0\<rparr> =
     Inr \<lparr>zw_held = 40973, zw_read = 10, zw_retained = 32766, zw_allocations = 1, zw_pos = 10\<rparr>"
  "walk_frame two_windows 20000 \<lparr>zw_held = 40973, zw_read = 10, zw_retained = 32766, zw_allocations = 1, zw_pos = 10\<rparr> =
     Inr \<lparr>zw_held = 81949, zw_read = 19, zw_retained = 32768, zw_allocations = 2, zw_pos = 19\<rparr>"
  "walk_frame two_windows 20000 \<lparr>zw_held = 81949, zw_read = 19, zw_retained = 32768, zw_allocations = 2, zw_pos = 19\<rparr> =
     Inl (81949, 19, None)"
  by (simp_all add: walk_frame_def two_windows_at two_windows_bytes first_frame second_frame not_skippable walk_history_def
      zstd_history_simps zstd_history_allocations_def allocated_simps push_bit_eq_mult)

lemma two_windows_pass_ceiling:
  "workspace Zstd two_windows 20000 = workspace_ceiling Zstd 20000 + 29"
proof -
  have w: "zstd_window 20000 = 20000"
    by (simp add: zstd_window_def clamp_bound_def max_bound_def zstd_smallest_window_def)
  have "fst (zstd_plan two_windows 20000) = 81949"
    unfolding zstd_plan_def zstd_planned_def
    by (subst zstd_planned_loop.simps, subst two_windows_walk, simp only: sum.case,
        subst zstd_planned_loop.simps, subst two_windows_walk, simp only: sum.case,
        subst zstd_planned_loop.simps, subst two_windows_walk, simp)
  then show ?thesis
    by (simp add: workspace_def plan_def workspace_ceiling_def Let_def case_prod_beta w zstd_envelope_small allocated_simps)
qed

text \<open>
  C11: The workspace a stage reserves, planned from what its stream declares, is within the ceiling
  computed from the bound alone, whatever the input and the bound, but for zstd under a bound
  from 16385 to 20480: \<open>allocated\<close> is not monotone there, and the plan passes \<open>WorkspaceCeiling\<close> by at most 29 bytes.
  That much is reached: under a bound of 20000 a stream of two frames with windows of 16383 and 16384
  bytes makes \<open>Workspace\<close> ask for 29 bytes more than the ceiling, and so \<open>Charges\<close> and \<open>Peak\<close> are too low by as much.
\<close>

theorem workspace_within_ceiling:
  "workspace c input bound
     \<le> workspace_ceiling c bound + (if c = Zstd \<and> 16385 \<le> bound \<and> bound \<le> 20480 then 29 else 0)
   \<and> workspace Zstd two_windows 20000 = workspace_ceiling Zstd 20000 + 29"
  using workspace_ceiling_bound [of c input bound] two_windows_pass_ceiling by (simp only: ceiling_slack_def)

section \<open>Where a stream is cut\<close>

text \<open>A frame ends where its bytes say, whatever follows it.\<close>

lemma byte_at_take [simp]: "i < n \<Longrightarrow> byte_at (take n b) i = byte_at b i"
  by (simp add: byte_at_def)

lemma le32_take [simp]: "4 \<le> n \<Longrightarrow> le32 (take n b) = le32 b"
  by (simp add: le32_def)

lemma block_header_take [simp]: "pos + 3 \<le> n \<Longrightarrow> block_header (take n b) pos = block_header b pos"
  by (simp add: block_header_def)

lemma block_step_take:
  "block_step b ck pos r = Inr (pos', r') \<Longrightarrow> pos' \<le> n \<Longrightarrow> block_step (take n b) ck pos r = Inr (pos', r')"
  "block_step b ck pos r = Inl (e, r') \<Longrightarrow> 0 < e \<Longrightarrow> e \<le> n \<Longrightarrow> block_step (take n b) ck pos r = Inl (e, r')"
  by (auto simp: block_step_def Let_def frame_checksum_def split: if_splits option.splits)

lemma frame_end_loop_range:
  "frame_end_loop b ck pos r = (e, r') \<Longrightarrow> 0 < e \<Longrightarrow> pos + 3 \<le> e \<and> e \<le> length b"
proof (induction b ck pos r arbitrary: e r' rule: frame_end_loop.induct)
  case (1 b ck pos r)
  show ?case
  proof (cases "block_step b ck pos r")
    case (Inl res)
    with 1 show ?thesis
      using block_step_range(2) [of b ck pos r e r'] by (simp add: frame_end_loop.simps [of b ck pos r])
  next
    case (Inr p)
    obtain pos1 r1 where p: "p = (pos1, r1)" by (cases p)
    have "pos1 + 3 \<le> e \<and> e \<le> length b"
      using 1 Inr p by (simp add: frame_end_loop.simps [of b ck pos r])
    moreover have "pos \<le> pos1"
      using block_step_range(1) Inr p by fastforce
    ultimately show ?thesis by simp
  qed
qed

lemma frame_end_loop_take:
  "frame_end_loop b ck pos r = (e, r') \<Longrightarrow> 0 < e \<Longrightarrow> e \<le> n \<Longrightarrow> frame_end_loop (take n b) ck pos r = (e, r')"
proof (induction b ck pos r arbitrary: e r' rule: frame_end_loop.induct)
  case (1 b ck pos r)
  show ?case
  proof (cases "block_step b ck pos r")
    case (Inl res)
    with 1 show ?thesis
      using block_step_take(2) [of b ck pos r e r' n]
      by (simp add: frame_end_loop.simps [of b ck pos r] frame_end_loop.simps [of "take n b" ck pos r])
  next
    case (Inr p)
    obtain pos1 r1 where p: "p = (pos1, r1)" by (cases p)
    have e: "frame_end_loop b ck pos1 r1 = (e, r')"
      using 1 Inr p by (simp add: frame_end_loop.simps [of b ck pos r])
    have "pos1 \<le> n"
      using frame_end_loop_range [OF e] 1 by simp
    then have "block_step (take n b) ck pos r = Inr (pos1, r1)"
      using Inr p by (intro block_step_take) auto
    then show ?thesis
      using 1 Inr p e by (simp add: frame_end_loop.simps [of "take n b" ck pos r])
  qed
qed

lemma zstd_frame_length_take:
  assumes "0 < zstd_frame_length b" "zstd_frame_length b \<le> n"
  shows "zstd_frame_length (take n b) = zstd_frame_length b"
proof (cases "is_skippable (le32 b)")
  case True
  with assms show ?thesis
    by (auto simp: zstd_frame_length_def Let_def drop_take split: if_splits)
next
  case False
  let ?h = "zstd_header_size (byte_at b 4)" and ?ck = "byte_at b 4 AND push_bit 2 1 \<noteq> 0"
  obtain e r where e: "frame_end_loop b ?ck ?h 0 = (e, r)" by (cases "frame_end_loop b ?ck ?h 0")
  have l: "4 \<le> length b" "le32 b = zstd_magic" "5 \<le> length b" "?h \<le> length b" "zstd_frame_length b = e"
    using assms(1) False e by (auto simp: zstd_frame_length_def Let_def zstd_frame_end_def split: if_splits)
  have h: "5 \<le> ?h" by (simp add: zstd_header_size_def)
  have r: "?h + 3 \<le> e" "e \<le> length b" using frame_end_loop_range [OF e] assms(1) l by auto
  have "frame_end_loop (take n b) ?ck ?h 0 = (e, r)"
    using frame_end_loop_take [OF e] assms l by simp
  with l h r assms False show ?thesis
    by (simp add: zstd_frame_length_def Let_def zstd_frame_end_def)
qed

lemma zstd_frame_length_le: "zstd_frame_length b \<le> length b"
  by (cases "frame_end_loop b (byte_at b 4 AND push_bit 2 1 \<noteq> 0) (zstd_header_size (byte_at b 4)) 0")
    (auto simp: zstd_frame_length_def Let_def zstd_frame_end_def dest: frame_end_loop_range)

text \<open>The offsets where complete frames end, from the start of an input.\<close>

inductive frames_to :: "bytes \<Rightarrow> nat \<Rightarrow> bool" for b where
  start: "frames_to b 0"
| frame: "frames_to b j \<Longrightarrow> 0 < zstd_frame_length (drop j b) \<Longrightarrow> frames_to b (j + zstd_frame_length (drop j b))"

lemma frames_to_le: "frames_to b j \<Longrightarrow> j \<le> length b"
proof (induction rule: frames_to.induct)
  case (frame j)
  then show ?case using zstd_frame_length_le [of "drop j b"] by simp
qed simp

lemma frames_to_walk: "frames_to b j \<Longrightarrow> j \<le> k \<Longrightarrow> frames_end_loop (take k b) 0 = frames_end_loop (take k b) j"
proof (induction rule: frames_to.induct)
  case (frame j)
  let ?n = "zstd_frame_length (drop j b)"
  have "zstd_frame_length (drop j (take k b)) = ?n"
    using frame by (simp add: drop_take zstd_frame_length_take)
  then have "frames_end_loop (take k b) j = frames_end_loop (take k b) (j + ?n)"
    using frame(2) by (simp add: frames_end_loop.simps [of _ j])
  with frame show ?case by simp
qed simp

lemma frames_to_end: "frames_to b j \<Longrightarrow> zstd_frames_end (take j b) = j"
  using frames_to_walk [of b j j] by (simp add: zstd_frames_end_def frames_end_loop.simps [of _ j] zstd_frame_length_def)

lemma zstd_planned_loop_cut:
  "zstd_planned_loop b limit w = (held, read, Some p) \<Longrightarrow> frames_to b (zw_pos w) \<Longrightarrow>
     frames_to b p \<and> p < length b \<and> le32 (drop p b) = zstd_magic \<and> zstd_window_at (drop p b) \<le> limit"
proof (induction b limit w rule: zstd_planned_loop.induct)
  case (1 b limit w)
  show ?case
  proof (cases "walk_frame b limit w")
    case (Inl r)
    with 1(2,3) show ?thesis
      by (auto simp: zstd_planned_loop.simps [of b limit w] walk_frame_def Let_def split: if_splits option.splits prod.splits)
  next
    case (Inr w')
    then have "frames_to b (zw_pos w')"
      using frames_to.frame [OF 1(3)] walk_frame_passes [OF Inr] by simp
    with 1 Inr show ?thesis by (simp add: zstd_planned_loop.simps [of b limit w])
  qed
qed

lemma zstd_planned_cut:
  assumes "zstd_planned b limit = (held, read, Some p)"
  shows "frames_to b p" "p < length b" "le32 (drop p b) = zstd_magic" "zstd_window_at (drop p b) \<le> limit"
  using zstd_planned_loop_cut [OF assms [unfolded zstd_planned_def]] by (simp_all add: frames_to.start)

section \<open>Which history a stream is cut at\<close>

text \<open>
  Said without the walk: the complete frames from the start of a stream up to an offset, with the
  history each needs, and how often a need exceeds every one before it, which is when the decoder
  makes its history anew.
\<close>

fun rises :: "int \<Rightarrow> int list \<Rightarrow> nat" where
  "rises m [] = 0"
| "rises m (x # xs) = (if m < x then Suc (rises x xs) else rises m xs)"

lemma rises_snoc: "rises m (xs @ [x]) = rises m xs + (if foldl max m xs < x then 1 else 0)"
  by (induction xs arbitrary: m) (auto simp: max_def)

inductive frames_needing :: "bytes \<Rightarrow> nat \<Rightarrow> nat \<Rightarrow> int list \<Rightarrow> bool" for b limit where
  none: "frames_needing b limit 0 []"
| skipped: "frames_needing b limit j hs \<Longrightarrow> 0 < zstd_frame_length (drop j b) \<Longrightarrow> is_skippable (le32 (drop j b)) \<Longrightarrow>
    frames_needing b limit (j + zstd_frame_length (drop j b)) hs"
| decoded: "frames_needing b limit j hs \<Longrightarrow> 0 < zstd_frame_length (drop j b) \<Longrightarrow> \<not> is_skippable (le32 (drop j b)) \<Longrightarrow>
    zstd_window_at (drop j b) \<le> limit \<Longrightarrow>
    frames_needing b limit (j + zstd_frame_length (drop j b)) (hs @ [zstd_history (zstd_window_at (drop j b))])"

text \<open>A frame whose header is all there and whose window the limit admits.\<close>

definition frame_admitted :: "bytes \<Rightarrow> nat \<Rightarrow> bool" where
  "frame_admitted f limit \<longleftrightarrow> 5 \<le> length f \<and> le32 f = zstd_magic \<and> zstd_header_size (byte_at f 4) \<le> length f \<and> zstd_window_at f \<le> limit"

definition fourth_history_at :: "bytes \<Rightarrow> nat \<Rightarrow> nat \<Rightarrow> bool" where
  "fourth_history_at b limit p \<longleftrightarrow>
     (\<exists>hs. frames_needing b limit p hs \<and> frame_admitted (drop p b) limit \<and> rises 0 hs = 3
        \<and> rises 0 (hs @ [zstd_history (zstd_window_at (drop p b))]) = 4)"

text \<open>The walk's counts at an offset are those of the frames before it.\<close>

definition walked :: "bytes \<Rightarrow> nat \<Rightarrow> int list \<Rightarrow> zstd_walk \<Rightarrow> bool" where
  "walked b limit hs w \<longleftrightarrow> frames_needing b limit (zw_pos w) hs \<and> zw_allocations w = rises 0 hs \<and> zw_retained w = foldl max 0 hs"

lemma walk_history_rises:
  assumes "zw_allocations w = rises 0 hs" "zw_retained w = foldl max 0 hs" "walk_history window w = Some w'"
  shows "zw_allocations w' = rises 0 (hs @ [zstd_history window])" "zw_retained w' = foldl max 0 (hs @ [zstd_history window])"
  using assms by (auto simp: walk_history_def Let_def rises_snoc split: if_splits)

lemma not_skippable_magic: "\<not> is_skippable zstd_magic"
  by (simp add: is_skippable_def zstd_magic_def)

lemma walk_frame_walked:
  assumes w: "walked b limit hs w" and step: "walk_frame b limit w = Inr w'"
  shows "\<exists>hs'. walked b limit hs' w'"
proof (cases "is_skippable (le32 (drop (zw_pos w) b))")
  case True
  with step have "zw_allocations w' = zw_allocations w" "zw_retained w' = zw_retained w"
    by (auto simp: walk_frame_def Let_def split: if_splits)
  with w walk_frame_passes [OF step] frames_needing.skipped [OF _ _ True] show ?thesis
    by (auto simp: walked_def)
next
  case False
  let ?window = "zstd_window_at (drop (zw_pos w) b)"
  from step False obtain w1 where h: "walk_history ?window w = Some w1" "?window \<le> limit"
    "zw_allocations w' = zw_allocations w1" "zw_retained w' = zw_retained w1"
    by (auto simp: walk_frame_def Let_def split: if_splits option.splits prod.splits)
  with w walk_frame_passes [OF step] frames_needing.decoded [OF _ _ False h(2)] walk_history_rises [OF _ _ h(1), of hs] show ?thesis
    by (intro exI [of _ "hs @ [zstd_history ?window]"]) (simp add: walked_def)
qed

lemma walk_frame_cuts:
  assumes w: "walked b limit hs w" and step: "walk_frame b limit w = Inl (held, read, Some p)"
  shows "fourth_history_at b limit p"
proof -
  from step have p: "p = zw_pos w" and admitted: "frame_admitted (drop p b) limit"
    and h: "walk_history (zstd_window_at (drop p b)) w = None"
    by (auto simp: walk_frame_def frame_admitted_def Let_def split: if_splits option.splits prod.splits)
  from h w have "rises 0 hs = 3" "foldl max 0 hs < zstd_history (zstd_window_at (drop p b))"
    by (auto simp: walk_history_def walked_def zstd_history_allocations_def Let_def split: if_splits)
  with w p admitted show ?thesis
    by (auto simp: fourth_history_at_def walked_def rises_snoc intro!: exI [of _ hs])
qed

lemma planned_loop_cuts:
  "zstd_planned_loop b limit w = (held, read, Some p) \<Longrightarrow> walked b limit hs w \<Longrightarrow> fourth_history_at b limit p"
proof (induction b limit w arbitrary: hs rule: zstd_planned_loop.induct)
  case (1 b limit w)
  show ?case
  proof (cases "walk_frame b limit w")
    case (Inl r)
    with 1(2) walk_frame_cuts [OF 1(3)] show ?thesis by (simp add: zstd_planned_loop.simps [of b limit w])
  next
    case (Inr w')
    with walk_frame_walked [OF 1(3)] obtain hs' where "walked b limit hs' w'" by blast
    with 1(1) [OF Inr] 1(2) Inr show ?thesis by (simp add: zstd_planned_loop.simps [of b limit w])
  qed
qed

text \<open>Conversely, the walk comes to every such offset while no more than three histories were made.\<close>

lemma walk_frame_goes_on:
  assumes "0 < zstd_frame_length (drop (zw_pos w) b)"
    and "is_skippable (le32 (drop (zw_pos w) b)) \<or> zstd_window_at (drop (zw_pos w) b) \<le> limit
      \<and> walk_history (zstd_window_at (drop (zw_pos w) b)) w \<noteq> None"
  shows "\<exists>w'. walk_frame b limit w = Inr w'"
  using assms
  by (auto simp: walk_frame_def zstd_frame_length_def Let_def not_skippable_magic split: if_splits option.splits prod.splits)

lemma walk_comes_to:
  assumes "frames_needing b limit j hs" "rises 0 hs \<le> 3"
  shows "\<exists>w. zw_pos w = j \<and> walked b limit hs w \<and> zstd_planned b limit = zstd_planned_loop b limit w"
  using assms
proof (induction rule: frames_needing.induct)
  case none
  show ?case
    by (intro exI [of _ "\<lparr>zw_held = 0, zw_read = 0, zw_retained = 0, zw_allocations = 0, zw_pos = 0\<rparr>"])
      (simp add: walked_def frames_needing.none zstd_planned_def)
next
  case (skipped j hs)
  then obtain w where w: "zw_pos w = j" "walked b limit hs w" "zstd_planned b limit = zstd_planned_loop b limit w" by blast
  with skipped obtain w' where step: "walk_frame b limit w = Inr w'" using walk_frame_goes_on [of w b limit] by auto
  with skipped w have "zw_allocations w' = zw_allocations w" "zw_retained w' = zw_retained w"
    by (auto simp: walk_frame_def Let_def split: if_splits)
  with w walk_frame_passes [OF step] frames_needing.skipped [OF skipped(1-3)] step show ?case
    by (intro exI [of _ w']) (auto simp: walked_def zstd_planned_loop.simps [of b limit w])
next
  case (decoded j hs)
  let ?window = "zstd_window_at (drop j b)"
  have "rises 0 hs \<le> 3" using decoded(6) by (simp add: rises_snoc)
  with decoded obtain w where w: "zw_pos w = j" "walked b limit hs w" "zstd_planned b limit = zstd_planned_loop b limit w" by blast
  obtain w1 where h: "walk_history ?window w = Some w1"
    using decoded(6) w(2) by (auto simp: walk_history_def walked_def rises_snoc zstd_history_allocations_def Let_def split: if_splits)
  with decoded w obtain w' where step: "walk_frame b limit w = Inr w'" using walk_frame_goes_on [of w b limit] by auto
  with decoded w h have "zw_allocations w' = zw_allocations w1" "zw_retained w' = zw_retained w1"
    by (auto simp: walk_frame_def Let_def split: if_splits prod.splits)
  with w walk_history_rises [OF _ _ h, of hs] walk_frame_passes [OF step] frames_needing.decoded [OF decoded(1-4)] step show ?case
    by (intro exI [of _ w']) (auto simp: walked_def zstd_planned_loop.simps [of b limit w])
qed

lemma zstd_cut_iff: "snd (snd (zstd_planned b limit)) = Some p \<longleftrightarrow> fourth_history_at b limit p"
proof
  assume "snd (snd (zstd_planned b limit)) = Some p"
  then have "zstd_planned_loop b limit \<lparr>zw_held = 0, zw_read = 0, zw_retained = 0, zw_allocations = 0, zw_pos = 0\<rparr> =
      (fst (zstd_planned b limit), fst (snd (zstd_planned b limit)), Some p)"
    by (simp add: zstd_planned_def prod_eq_iff)
  from planned_loop_cuts [OF this, of "[]"] show "fourth_history_at b limit p"
    by (simp add: walked_def frames_needing.none)
next
  assume "fourth_history_at b limit p"
  then obtain hs where hs: "frames_needing b limit p hs" "frame_admitted (drop p b) limit" "rises 0 hs = 3"
    "rises 0 (hs @ [zstd_history (zstd_window_at (drop p b))]) = 4"
    by (auto simp: fourth_history_at_def)
  from walk_comes_to [OF hs(1)] hs(3) obtain w where w: "zw_pos w = p" "walked b limit hs w"
    "zstd_planned b limit = zstd_planned_loop b limit w" by auto
  have "walk_history (zstd_window_at (drop p b)) w = None"
    using hs(3,4) w(2) by (auto simp: walk_history_def walked_def rises_snoc zstd_history_allocations_def Let_def split: if_splits)
  then have "\<exists>h r. walk_frame b limit w = Inl (h, r, Some p)"
    using hs(2) w(1) by (auto simp: walk_frame_def frame_admitted_def not_skippable_magic Let_def)
  with w(3) show "snd (snd (zstd_planned b limit)) = Some p"
    by (auto simp: zstd_planned_loop.simps [of b limit w])
qed

text \<open>Four frames of one empty block each, with windows of 1024, 1152, 1280 and 1408 bytes.\<close>

definition small_frame :: "nat \<Rightarrow> bytes" where
  "small_frame c = map char_of [0x28, 0xb5, 0x2f, 0xfd, 0, c, 1, 0, 0 :: nat]"

definition four_windows :: bytes where
  "four_windows = small_frame 0 @ small_frame 1 @ small_frame 2 @ small_frame 3"

lemma small_frame_bytes:
  assumes "c < 8"
  shows "length (small_frame c) = 9" "byte_at (small_frame c @ rest) 0 = 0x28" "byte_at (small_frame c @ rest) 1 = 0xb5"
    "byte_at (small_frame c @ rest) 2 = 0x2f" "byte_at (small_frame c @ rest) 3 = 0xfd" "byte_at (small_frame c @ rest) 4 = 0"
    "byte_at (small_frame c @ rest) 5 = c" "byte_at (small_frame c @ rest) 6 = 1" "byte_at (small_frame c @ rest) 7 = 0"
    "byte_at (small_frame c @ rest) 8 = 0"
  using assms by (simp_all add: small_frame_def byte_at_def)

lemma small_frame_reads:
  assumes "c < 8"
  shows "le32 (small_frame c @ rest) = zstd_magic" "zstd_frame_length (small_frame c @ rest) = 9"
    "zstd_window_at (small_frame c @ rest) = 1024 + 128 * c" "frame_admitted (small_frame c @ rest) limit \<longleftrightarrow> 1024 + 128 * c \<le> limit"
proof -
  note at = small_frame_bytes(1) [OF assms] small_frame_bytes(2-10) [OF assms, of rest] small_frame_bytes(3) [OF assms, of rest, unfolded One_nat_def]
  have low: "drop_bit 3 c = 0" "c AND 7 = c"
    using assms take_bit_eq_mask [of 3 c] by (simp_all add: drop_bit_eq_div take_bit_eq_mod mask_eq_exp_minus_1)
  show m: "le32 (small_frame c @ rest) = zstd_magic" by (simp add: le32_def at zstd_magic_def)
  have "zstd_frame_end (small_frame c @ rest) 6 False = (9, 3)"
    by (simp add: zstd_frame_end_def frame_end_loop.simps block_step_def block_header_def block_size_def frame_checksum_def at)
  then show "zstd_frame_length (small_frame c @ rest) = 9"
    by (simp add: zstd_frame_length_def m not_skippable_magic at zstd_header_size_def Let_def)
  show w: "zstd_window_at (small_frame c @ rest) = 1024 + 128 * c"
    by (simp add: zstd_window_at_def zstd_declared_window_def m at low push_bit_eq_mult Let_def)
  show "frame_admitted (small_frame c @ rest) limit \<longleftrightarrow> 1024 + 128 * c \<le> limit"
    by (simp add: frame_admitted_def m w at zstd_header_size_def)
qed

lemma four_windows_cut: "snd (snd (zstd_planned four_windows (zstd_window 2000))) = Some 27"
proof -
  note first = small_frame_reads [of 0 "small_frame 1 @ small_frame 2 @ small_frame 3", folded four_windows_def]
  have at: "drop 9 four_windows = small_frame 1 @ small_frame 2 @ small_frame 3" "drop 18 four_windows = small_frame 2 @ small_frame 3"
    "drop 27 four_windows = small_frame 3"
    by (simp_all add: four_windows_def small_frame_def)
  have w: "zstd_window 2000 = 2000"
    by (simp add: zstd_window_def clamp_bound_def max_bound_def zstd_smallest_window_def)
  note step = frames_needing.decoded [of four_windows 2000]
  have "frames_needing four_windows 2000 9 [2048]"
    using step [OF frames_needing.none] by (simp add: first not_skippable_magic zstd_history_def zstd_large_window_def)
  from step [OF this] have "frames_needing four_windows 2000 18 [2048, 2304]"
    by (simp add: at small_frame_reads not_skippable_magic zstd_history_def zstd_large_window_def)
  from step [OF this] have "frames_needing four_windows 2000 27 [2048, 2304, 2560]"
    by (simp add: at small_frame_reads not_skippable_magic zstd_history_def zstd_large_window_def)
  then have "fourth_history_at four_windows 2000 27"
    unfolding fourth_history_at_def
    by (intro exI [of _ "[2048, 2304, 2560]"]) (simp add: at small_frame_reads [of 3 "[]", unfolded append_Nil2] zstd_history_def zstd_large_window_def)
  then show ?thesis by (simp add: zstd_cut_iff w)
qed

end
