(* ===== verification/Content_Decode.thy ===== *)
theory Content_Decode
  imports Content_Limits
begin

text \<open>
  Undoing a message's content coding (\<open>src/contentcoding/decode.go\<close>, \<open>fault.go\<close>, \<open>flate.go\<close>,
  \<open>brotli.go\<close> and \<open>zstd.go\<close>): the stage that runs one decoder under its guard, the output buffer that
  grows under a reservation, the framing of gzip members and zlib streams with their checksums, and
  \<open>Decode\<close>.

  The decoder libraries (klauspost/compress and internal/brotli) are a parameter: a \<open>decoder\<close> record per
  coding.  Each of its operations says how many bytes of the input it read, and returns \<open>None\<close> where
  the library panicked; nothing else is assumed of it.  A read may return any count, any bytes
  and any error.  The reserver's state is passed through, and what \<open>Observe\<close> is told is part of
  the result.  The test seams of \<open>within\<close> (\<open>feed\<close> and \<open>inject\<close>) are nil in \<open>Decode\<close> and left out.
\<close>

unbundle bit_operations_syntax

section \<open>Checksums\<close>

text \<open>\<open>crc32.ChecksumIEEE\<close> and \<open>adler32.Checksum\<close>.\<close>

definition crc_bit :: "32 word \<Rightarrow> 32 word" where
  "crc_bit c = (if c AND 1 = 1 then drop_bit 1 c XOR 0xEDB88320 else drop_bit 1 c)"

definition crc_byte :: "32 word \<Rightarrow> byte \<Rightarrow> 32 word" where
  "crc_byte c b =
     crc_bit (crc_bit (crc_bit (crc_bit (crc_bit (crc_bit (crc_bit (crc_bit (c XOR of_char b))))))))"

definition crc32 :: "bytes \<Rightarrow> nat" where
  "crc32 b = unat (NOT (foldl crc_byte (NOT 0) b))"

definition adler_byte :: "nat \<times> nat \<Rightarrow> byte \<Rightarrow> nat \<times> nat" where
  "adler_byte = (\<lambda>(s1, s2) c. let s1 = (s1 + of_char c) mod 65521 in (s1, (s2 + s1) mod 65521))"

definition adler32 :: "bytes \<Rightarrow> nat" where
  "adler32 b = (let (s1, s2) = foldl adler_byte (1, 0) b in 65536 * s2 + s1)"

text \<open>\<open>binary.BigEndian.Uint32\<close>.\<close>

definition be32 :: "bytes \<Rightarrow> nat" where
  "be32 b = le32 (rev (take 4 b))"

section \<open>Charges\<close>

datatype charge_kind = WorkspaceCharge | OutputCharge

record content_charge =
  cc_kind :: charge_kind
  cc_stage :: nat
  cc_bytes :: int

record 'r content_reserver =
  cr_reserve :: "'r \<Rightarrow> content_charge \<Rightarrow> bool \<times> 'r"
  cr_release :: "'r \<Rightarrow> content_charge \<Rightarrow> 'r"

definition granted_reserver :: "'r content_reserver" where
  "granted_reserver = \<lparr>cr_reserve = (\<lambda>r c. (True, r)), cr_release = (\<lambda>r c. r)\<rparr>"

definition release_charge :: "'r content_reserver \<Rightarrow> charge_kind \<Rightarrow> nat \<Rightarrow> int \<Rightarrow> 'r \<Rightarrow> 'r" where
  "release_charge R kind stage n r =
     (if n > 0 then cr_release R r \<lparr>cc_kind = kind, cc_stage = stage, cc_bytes = n\<rparr> else r)"

section \<open>Input\<close>

record stage_input =
  in_b :: bytes
  in_pos :: nat

definition input_read :: "stage_input \<Rightarrow> nat \<Rightarrow> bytes \<times> stage_input" where
  "input_read i n =
     (let b = take n (drop (in_pos i) (in_b i)) in (b, i\<lparr>in_pos := in_pos i + length b\<rparr>))"

definition input_read_byte :: "stage_input \<Rightarrow> (byte \<times> stage_input) option" where
  "input_read_byte i =
     (if in_pos i \<ge> length (in_b i) then None
      else Some (in_b i ! in_pos i, i\<lparr>in_pos := in_pos i + 1\<rparr>))"

definition input_next :: "stage_input \<Rightarrow> nat \<Rightarrow> (bytes \<times> stage_input) option" where
  "input_next i n =
     (if length (in_b i) - in_pos i < n then None
      else Some (take n (drop (in_pos i) (in_b i)), i\<lparr>in_pos := in_pos i + n\<rparr>))"

definition remaining :: "stage_input \<Rightarrow> nat" where
  "remaining i = length (in_b i) - in_pos i"

text \<open>What is left of the input, and the input after a library read some of it.\<close>

definition input_rest :: "stage_input \<Rightarrow> bytes" where
  "input_rest i = drop (in_pos i) (in_b i)"

definition library_reads :: "nat \<Rightarrow> stage_input \<Rightarrow> stage_input" where
  "library_reads n i = snd (input_read i n)"

section \<open>The decoder libraries and their guard\<close>

datatype read_error =
  Read_EOF | Read_too_costly | Read_window_exceeded | Read_size_exceeded | Read_other
| Read_short_buffer | Read_no_progress | Read_fault

text \<open>
  A library: making a decoder (from the settings the stage gives, over what is left of the input)
  and resetting one say whether they returned an error; a read is given the space and returns a
  count, what the space then holds, and an error.  The number beside each is what it read of the
  input; \<open>None\<close> and \<open>False\<close> are a panic.
\<close>

record 'd decoder =
  dc_make :: "nat list \<Rightarrow> bytes \<Rightarrow> nat \<times> ('d \<times> bool) option"
  dc_reset :: "'d \<Rightarrow> bytes \<Rightarrow> nat \<times> ('d \<times> bool) option"
  dc_read :: "'d \<Rightarrow> bytes \<Rightarrow> nat \<Rightarrow> nat \<times> 'd \<times> (int \<times> (nat \<Rightarrow> byte) \<times> read_error option) option"
  dc_close :: "'d \<Rightarrow> bytes \<Rightarrow> nat \<times> bool"
  dc_work :: "'d \<Rightarrow> int"

record stage_output =
  out_buf :: bytes
  out_cap :: int
  out_limit :: int
  out_charge :: int
  out_returned :: int

text \<open>What a stage works on: the reserver's state, its input and output, and the library's guard.\<close>

record 'r stage_state =
  ss_reserver :: 'r
  ss_in :: stage_input
  ss_out :: stage_output
  ss_faulted :: bool

text \<open>\<open>library.call\<close> when making or resetting a decoder: \<open>None\<close> where it panicked.\<close>

definition guard_decoder :: "nat \<times> ('d \<times> bool) option \<Rightarrow> 'r stage_state \<Rightarrow> ('d \<times> bool) option \<times> 'r stage_state" where
  "guard_decoder call s =
     (let (n, res) = call; s = s\<lparr>ss_in := library_reads n (ss_in s)\<rparr>
      in case res of None \<Rightarrow> (None, s\<lparr>ss_faulted := True\<rparr>) | Some x \<Rightarrow> (Some x, s))"

definition library_make :: "'d decoder \<Rightarrow> nat list \<Rightarrow> 'r stage_state \<Rightarrow> ('d \<times> bool) option \<times> 'r stage_state" where
  "library_make D settings s = guard_decoder (dc_make D settings (input_rest (ss_in s))) s"

definition library_reset :: "'d decoder \<Rightarrow> 'd \<Rightarrow> 'r stage_state \<Rightarrow> ('d \<times> bool) option \<times> 'r stage_state" where
  "library_reset D d s = guard_decoder (dc_reset D d (input_rest (ss_in s))) s"

definition library_close :: "'d decoder \<Rightarrow> 'd \<Rightarrow> 'r stage_state \<Rightarrow> 'r stage_state" where
  "library_close D d s =
     (if ss_faulted s then s
      else let (n, ok) = dc_close D d (input_rest (ss_in s)); s = s\<lparr>ss_in := library_reads n (ss_in s)\<rparr>
        in if ok then s else s\<lparr>ss_faulted := True\<rparr>)"

definition guarded_read ::
  "'d decoder \<Rightarrow> 'd \<Rightarrow> nat \<Rightarrow> 'r stage_state \<Rightarrow> (int \<times> (nat \<Rightarrow> byte) \<times> read_error option) \<times> 'd \<times> 'r stage_state" where
  "guarded_read D d space s =
     (let fault = (0, \<lambda>_. CHR 0x00, Some Read_fault) in
      if ss_faulted s then (fault, d, s)
      else let (n, d, res) = dc_read D d (input_rest (ss_in s)) space; s = s\<lparr>ss_in := library_reads n (ss_in s)\<rparr>
        in case res of None \<Rightarrow> (fault, d, s\<lparr>ss_faulted := True\<rparr>) | Some x \<Rightarrow> (x, d, s))"

section \<open>Output\<close>

datatype decode_outcome = Decoded | Identity | DecodingFailed | DecodedTooLarge | Refused | DecodingTooCostly

definition reason_decoding_failed :: string where
  "reason_decoding_failed = ''content_decoding_failed''"

definition reason_decoded_too_large :: string where
  "reason_decoded_too_large = ''content_decoded_too_large''"

definition reason_decoding_too_costly :: string where
  "reason_decoding_too_costly = ''content_decoding_too_costly''"

fun outcome_reason :: "decode_outcome \<Rightarrow> string" where
  "outcome_reason DecodingFailed = reason_decoding_failed"
| "outcome_reason DecodedTooLarge = reason_decoded_too_large"
| "outcome_reason DecodingTooCostly = reason_decoding_too_costly"
| "outcome_reason _ = []"

fun grow_next :: "int \<Rightarrow> int \<Rightarrow> int \<Rightarrow> nat list \<Rightarrow> int" where
  "grow_next limit current next [] = next"
| "grow_next limit current next (shift # rest) =
     (let smaller = ceil_shift limit shift in
      if smaller \<le> current \<or> smaller < first_capacity then next
      else grow_next limit current smaller rest)"

definition grow :: "'r content_reserver \<Rightarrow> 'r stage_state \<Rightarrow> bool \<times> 'r stage_state" where
  "grow R s =
     (let out = ss_out s; next = grow_next (out_limit out) (out_cap out) (out_limit out) [1..<63];
          (ok, r) = cr_reserve R (ss_reserver s) \<lparr>cc_kind = OutputCharge, cc_stage = 1, cc_bytes = next\<rparr>
      in if \<not> ok then (False, s\<lparr>ss_reserver := r\<rparr>)
         else (True, s\<lparr>ss_reserver := release_charge R OutputCharge 1 (out_charge out) r,
                       ss_out := out\<lparr>out_cap := next, out_charge := next\<rparr>\<rparr>))"

text \<open>One pass of \<open>fill\<close>: how it ended with the error returned, or the idle reads so far.\<close>

definition fill_step ::
  "'d decoder \<Rightarrow> 'r content_reserver \<Rightarrow> 'r stage_state \<Rightarrow> 'd \<Rightarrow> nat
     \<Rightarrow> ((decode_outcome \<times> read_error option) + nat) \<times> 'd \<times> 'r stage_state" where
  "fill_step D R s d idle =
     (let full = int (length (out_buf (ss_out s))) = out_cap (ss_out s) in
      if full \<and> out_cap (ss_out s) \<ge> out_limit (ss_out s) then (Inl (DecodedTooLarge, None), d, s)
      else let (ok, s) = (if full then grow R s else (True, s)) in
        if \<not> ok then (Inl (Refused, None), d, s)
        else let space = nat (out_cap (ss_out s)) - length (out_buf (ss_out s));
                 ((n, content, err), d, s) = guarded_read D d space s
          in if n < 0 \<or> n > int space then (Inl (DecodingFailed, Some Read_short_buffer), d, s)
             else let out = ss_out s; buf = out_buf out @ map content [0..<nat n];
                      s = s\<lparr>ss_out := out\<lparr>out_buf := buf, out_returned := out_returned out + n\<rparr>\<rparr>
               in if int (length buf) \<ge> out_limit out then (Inl (DecodedTooLarge, None), d, s)
                  else case err of
                         Some e \<Rightarrow> (Inl (if e = Read_EOF then (Decoded, None) else (DecodingFailed, Some e)), d, s)
                       | None \<Rightarrow>
                           if n = 0 then
                             (if idle + 1 = 100 then (Inl (DecodingFailed, Some Read_no_progress), d, s)
                              else (Inr (idle + 1), d, s))
                           else (Inr 0, d, s))"

partial_function (option) fill_loop ::
  "'d decoder \<Rightarrow> 'r content_reserver \<Rightarrow> 'r stage_state \<Rightarrow> 'd \<Rightarrow> nat
     \<Rightarrow> ((decode_outcome \<times> read_error option) \<times> 'd \<times> 'r stage_state) option" where
  "fill_loop D R s d idle =
     (case fill_step D R s d idle of
        (Inl res, d, s) \<Rightarrow> Some (res, d, s)
      | (Inr idle, d, s) \<Rightarrow> fill_loop D R s d idle)"

definition fill ::
  "'d decoder \<Rightarrow> 'r content_reserver \<Rightarrow> 'd \<Rightarrow> 'r stage_state
     \<Rightarrow> ((decode_outcome \<times> read_error option) \<times> 'd \<times> 'r stage_state) option" where
  "fill D R d s = fill_loop D R s d 0"

section \<open>Gzip\<close>

text \<open>A zero-terminated field, skipped where it lies.\<close>

function skip_field :: "stage_input \<Rightarrow> stage_input option" where
  "skip_field i =
     (case input_read_byte i of
        None \<Rightarrow> None
      | Some (c, i) \<Rightarrow> if c = CHR 0x00 then Some i else skip_field i)"
  by pat_completeness auto
termination
  by (relation "measure (\<lambda>i. length (in_b i) - in_pos i)") (auto simp: input_read_byte_def split: if_splits)

declare skip_field.simps [simp del]

definition skip_if :: "bool \<Rightarrow> (stage_input \<Rightarrow> stage_input option) \<Rightarrow> stage_input \<Rightarrow> stage_input option" where
  "skip_if b f i = (if b then f i else Some i)"

definition skip_extra :: "stage_input \<Rightarrow> stage_input option" where
  "skip_extra i =
     (case input_next i 2 of
        None \<Rightarrow> None
      | Some (sz, i) \<Rightarrow> map_option snd (input_next i (le16 sz)))"

definition check_header_crc :: "nat \<Rightarrow> stage_input \<Rightarrow> stage_input option" where
  "check_header_crc start i =
     (let checksum = crc32 (take (in_pos i - start) (drop start (in_b i))) in
      case input_next i 2 of
        None \<Rightarrow> None
      | Some (stored, i) \<Rightarrow> if le16 stored \<noteq> checksum mod 2 ^ 16 then None else Some i)"

definition gzip_header :: "stage_input \<Rightarrow> stage_input option" where
  "gzip_header i0 =
     (case input_next i0 10 of
        None \<Rightarrow> None
      | Some (fixed, i) \<Rightarrow>
          let flags = byte_at fixed 3 in
          if byte_at fixed 0 \<noteq> 0x1f \<or> byte_at fixed 1 \<noteq> 0x8b \<or> byte_at fixed 2 \<noteq> 8 \<or> flags AND 0xe0 \<noteq> 0 then None
          else Option.bind (skip_if (flags AND push_bit 2 1 \<noteq> 0) skip_extra i) (\<lambda>i.
               Option.bind (skip_if (flags AND push_bit 3 1 \<noteq> 0) skip_field i) (\<lambda>i.
               Option.bind (skip_if (flags AND push_bit 4 1 \<noteq> 0) skip_field i) (\<lambda>i.
               skip_if (flags AND push_bit 1 1 \<noteq> 0) (check_header_crc (in_pos i0)) i))))"

text \<open>The decoder of the members: made for the first, reset for each after.\<close>

definition member_decoder :: "'d decoder \<Rightarrow> 'd option \<Rightarrow> 'r stage_state \<Rightarrow> 'd option \<times> bool \<times> 'r stage_state" where
  "member_decoder D inflater s =
     (case inflater of
        None \<Rightarrow> (case library_make D [] s of (None, s) \<Rightarrow> (None, False, s) | (Some (d, _), s) \<Rightarrow> (Some d, True, s))
      | Some d0 \<Rightarrow>
          (case library_reset D d0 s of
             (None, s) \<Rightarrow> (Some d0, False, s)
           | (Some (d, failed), s) \<Rightarrow> (Some d, \<not> failed, s)))"

text \<open>What follows a member's stream: its checksum and its length, over the content it added.\<close>

definition member_trailer :: "nat \<Rightarrow> 'r stage_state \<Rightarrow> bool \<times> 'r stage_state" where
  "member_trailer start s =
     (case input_next (ss_in s) 8 of
        None \<Rightarrow> (False, s)
      | Some (trailer, i) \<Rightarrow>
          let content = drop start (out_buf (ss_out s))
          in (le32 trailer = crc32 content \<and> le32 (drop 4 trailer) = length content mod 2 ^ 32, s\<lparr>ss_in := i\<rparr>))"

text \<open>One member; \<open>Inr\<close> goes on to the next with the decoder made.\<close>

definition gzip_member ::
  "'d decoder \<Rightarrow> 'r content_reserver \<Rightarrow> 'd option \<Rightarrow> 'r stage_state
     \<Rightarrow> ((decode_outcome + unit) \<times> 'd option \<times> 'r stage_state) option" where
  "gzip_member D R inflater s =
     (case gzip_header (ss_in s) of
        None \<Rightarrow> Some (Inl DecodingFailed, inflater, s)
      | Some i \<Rightarrow>
          let (inflater, ok, s) = member_decoder D inflater (s\<lparr>ss_in := i\<rparr>) in
          case (inflater, ok) of
            (Some d, True) \<Rightarrow>
              let start = length (out_buf (ss_out s)) in
              (case fill D R d s of
                 None \<Rightarrow> None
               | Some ((outcome, err), d, s) \<Rightarrow>
                   if outcome \<noteq> Decoded then Some (Inl outcome, Some d, s)
                   else let (ok, s) = member_trailer start s
                     in Some (if ok then Inr () else Inl DecodingFailed, Some d, s))
          | _ \<Rightarrow> Some (Inl DecodingFailed, inflater, s))"

partial_function (option) gzip_members ::
  "'d decoder \<Rightarrow> 'r content_reserver \<Rightarrow> nat \<Rightarrow> 'd option \<Rightarrow> 'r stage_state
     \<Rightarrow> (decode_outcome \<times> 'd option \<times> 'r stage_state) option" where
  "gzip_members D R members inflater s =
     (if remaining (ss_in s) = 0 then Some (if members = 0 then DecodingFailed else Decoded, inflater, s)
      else case gzip_member D R inflater s of
             None \<Rightarrow> None
           | Some (Inl outcome, inflater, s) \<Rightarrow> Some (outcome, inflater, s)
           | Some (Inr u, inflater, s) \<Rightarrow> gzip_members D R (members + 1) inflater s)"

definition gzip_stage :: "'d decoder \<Rightarrow> 'r content_reserver \<Rightarrow> 'r stage_state \<Rightarrow> (decode_outcome \<times> 'r stage_state) option" where
  "gzip_stage D R s =
     (case gzip_members D R 0 None s of
        None \<Rightarrow> None
      | Some (outcome, inflater, s) \<Rightarrow>
          Some (outcome, case inflater of None \<Rightarrow> s | Some d \<Rightarrow> library_close D d s))"

section \<open>Deflate\<close>

definition zlib_header :: "nat \<Rightarrow> nat \<Rightarrow> bool" where
  "zlib_header cmf flg \<longleftrightarrow> cmf AND 0x0f = 8 \<and> drop_bit 4 cmf \<le> 7 \<and> (push_bit 8 cmf OR flg) mod 31 = 0"

definition zlib_preset_dictionary :: nat where
  "zlib_preset_dictionary = 0x20"

text \<open>What follows the stream: the Adler-32 of a zlib stream, and then nothing.\<close>

definition deflate_end :: "bool \<Rightarrow> 'r stage_state \<Rightarrow> decode_outcome \<times> 'r stage_state" where
  "deflate_end wrapped s =
     (let (ok, s) = (if \<not> wrapped then (True, s)
        else case input_next (ss_in s) 4 of
               None \<Rightarrow> (False, s)
             | Some (trailer, i) \<Rightarrow> (be32 trailer = adler32 (out_buf (ss_out s)), s\<lparr>ss_in := i\<rparr>))
      in if \<not> ok then (DecodingFailed, s)
         else if remaining (ss_in s) \<noteq> 0 then (DecodingFailed, s)
         else (Decoded, s))"

definition deflate_stage :: "'d decoder \<Rightarrow> 'r content_reserver \<Rightarrow> 'r stage_state \<Rightarrow> (decode_outcome \<times> 'r stage_state) option" where
  "deflate_stage D R s =
     (let b = in_b (ss_in s); wrapped = (length b \<ge> 2 \<and> zlib_header (byte_at b 0) (byte_at b 1)) in
      if wrapped \<and> byte_at b 1 AND zlib_preset_dictionary \<noteq> 0 then Some (DecodingFailed, s)
      else let s = (if wrapped then s\<lparr>ss_in := (ss_in s)\<lparr>in_pos := 2\<rparr>\<rparr> else s) in
        case library_make D [] s of
          (None, s) \<Rightarrow> Some (DecodingFailed, s)
        | (Some (d, _), s) \<Rightarrow>
            (case fill D R d s of
               None \<Rightarrow> None
             | Some ((outcome, err), d, s) \<Rightarrow>
                 let s = library_close D d s
                 in Some (if outcome \<noteq> Decoded then (outcome, s) else deflate_end wrapped s)))"

section \<open>Brotli\<close>

record work_budget =
  wb_base :: nat
  wb_per_byte :: nat
  wb_most :: nat

definition brotli_budget :: work_budget where
  "brotli_budget = \<lparr>wb_base = 2 ^ 22, wb_per_byte = 1024, wb_most = 2 ^ 30\<rparr>"

text \<open>What refuses a brotli stage from its header alone; \<open>None\<close> lets it run.\<close>

definition brotli_header :: "bytes \<Rightarrow> int \<Rightarrow> decode_outcome option" where
  "brotli_header b bound =
     (if b = [] then Some DecodingFailed
      else let (bits, large) = brotli_window_bits (b ! 0) in
        if large then Some DecodingFailed
        else if push_bit bits 1 - 16 > max bound brotli_smallest_window then Some DecodedTooLarge
        else None)"

definition brotli_stage ::
  "'d decoder \<Rightarrow> 'r content_reserver \<Rightarrow> work_budget \<Rightarrow> 'r stage_state \<Rightarrow> (decode_outcome \<times> int \<times> 'r stage_state) option" where
  "brotli_stage D R budget s =
     (case library_make D [wb_base budget, wb_per_byte budget, wb_most budget] s of
        (None, s) \<Rightarrow> Some (DecodingFailed, 0, s)
      | (Some (d, _), s) \<Rightarrow>
          (case fill D R d s of
             None \<Rightarrow> None
           | Some ((outcome, err), d, s) \<Rightarrow>
               let work = wrap64 (dc_work D d) in
               if outcome = DecodingFailed \<and> err = Some Read_too_costly then Some (DecodingTooCostly, work, s)
               else if outcome \<noteq> Decoded then Some (outcome, work, s)
               else if remaining (ss_in s) \<noteq> 0 then Some (DecodingFailed, work, s)
               else Some (Decoded, work, s)))"

section \<open>Zstd\<close>

text \<open>What a zstd stage makes of how its decoder ended.\<close>

definition zstd_ended :: "nat option \<Rightarrow> nat \<Rightarrow> decode_outcome \<Rightarrow> read_error option \<Rightarrow> stage_input \<Rightarrow> decode_outcome" where
  "zstd_ended cut_at window outcome err i =
     (if outcome = DecodingFailed then
        (if (err = Some Read_window_exceeded \<or> err = Some Read_size_exceeded)
             \<and> zstd_declares_more (in_b i) (in_pos i) window
         then DecodedTooLarge else DecodingFailed)
      else if outcome \<noteq> Decoded then outcome
      else if zstd_frames_end (in_b i) \<noteq> length (in_b i) then DecodingFailed
      else if cut_at \<noteq> None then DecodingTooCostly
      else Decoded)"

definition zstd_stage ::
  "'d decoder \<Rightarrow> 'r content_reserver \<Rightarrow> int \<Rightarrow> 'r stage_state \<Rightarrow> (decode_outcome \<times> 'r stage_state) option" where
  "zstd_stage D R bound s =
     (if in_b (ss_in s) = [] then Some (DecodingFailed, s)
      else let window = zstd_window bound; (_, _, cut_at) = zstd_planned (in_b (ss_in s)) window;
               s = (case cut_at of None \<Rightarrow> s | Some p \<Rightarrow> s\<lparr>ss_in := (ss_in s)\<lparr>in_b := take p (in_b (ss_in s))\<rparr>\<rparr>)
        in case library_make D [window] s of
             (None, s) \<Rightarrow> Some (DecodingFailed, s)
           | (Some (d, failed), s) \<Rightarrow>
               if failed then Some (DecodingFailed, s)
               else (case fill D R d s of
                  None \<Rightarrow> None
                | Some ((outcome, err), d, s) \<Rightarrow>
                    let s = library_close D d s in Some (zstd_ended cut_at window outcome err (ss_in s), s)))"

section \<open>One stage, and Decode\<close>

record stage_io =
  io_stage :: nat
  io_coding :: coding
  io_input :: int
  io_read :: int
  io_returned :: int
  io_planned :: int
  io_workspace :: int
  io_work :: int

definition run_coding ::
  "(coding \<Rightarrow> 'd decoder) \<Rightarrow> 'r content_reserver \<Rightarrow> int \<Rightarrow> coding \<Rightarrow> 'r stage_state
     \<Rightarrow> (decode_outcome \<times> int \<times> 'r stage_state) option" where
  "run_coding libs R bound c s =
     (let plain = map_option (\<lambda>(outcome, s). (outcome, 0, s)) in
      case c of
        Gzip \<Rightarrow> plain (gzip_stage (libs c) R s)
      | Deflate \<Rightarrow> plain (deflate_stage (libs c) R s)
      | Brotli \<Rightarrow> brotli_stage (libs c) R brotli_budget s
      | Zstd \<Rightarrow> plain (zstd_stage (libs c) R bound s)
      | Coding_value _ \<Rightarrow> Some (DecodingFailed, 0, s))"

record 'r stage_result =
  sr_out :: "stage_output option"
  sr_outcome :: decode_outcome
  sr_fault :: bool
  sr_observed :: "stage_io option"
  sr_reserver :: 'r

definition new_output :: "int \<Rightarrow> stage_output" where
  "new_output bound = \<lparr>out_buf = [], out_cap = 0, out_limit = bound + 1, out_charge = 0, out_returned = 0\<rparr>"

definition run_stage ::
  "(coding \<Rightarrow> 'd decoder) \<Rightarrow> 'r content_reserver \<Rightarrow> int \<Rightarrow> coding \<Rightarrow> bytes \<Rightarrow> 'r \<Rightarrow> 'r stage_result option" where
  "run_stage libs R bound c b r =
     (case (if c = Brotli then brotli_header b bound else None) of
        Some outcome \<Rightarrow>
          Some \<lparr>sr_out = None, sr_outcome = outcome, sr_fault = False, sr_observed = None, sr_reserver = r\<rparr>
      | None \<Rightarrow>
          let (workspace, planned) = plan c b bound;
              (ok, r) = cr_reserve R r \<lparr>cc_kind = WorkspaceCharge, cc_stage = 1, cc_bytes = workspace\<rparr>
          in if \<not> ok
             then Some \<lparr>sr_out = None, sr_outcome = Refused, sr_fault = False, sr_observed = None, sr_reserver = r\<rparr>
             else map_option (\<lambda>(outcome, work, s).
               \<lparr>sr_out = Some (ss_out s), sr_outcome = (if ss_faulted s then DecodingFailed else outcome),
                sr_fault = ss_faulted s,
                sr_observed = Some \<lparr>io_stage = 1, io_coding = c, io_input = int (length b), io_read = int (in_pos (ss_in s)),
                  io_returned = out_returned (ss_out s), io_planned = int planned, io_workspace = workspace, io_work = work\<rparr>,
                sr_reserver = release_charge R WorkspaceCharge 1 workspace (ss_reserver s)\<rparr>)
               (run_coding libs R bound c \<lparr>ss_reserver = r, ss_in = \<lparr>in_b = b, in_pos = 0\<rparr>, ss_out = new_output bound, ss_faulted = False\<rparr>))"

record decode_result =
  dr_outcome :: decode_outcome
  dr_body :: bytes
  dr_charge :: int
  dr_stage :: nat
  dr_fault :: bool

definition decode ::
  "(coding \<Rightarrow> 'd decoder) \<Rightarrow> 'r content_reserver \<Rightarrow> coding_list \<Rightarrow> bytes \<Rightarrow> int \<Rightarrow> 'r
     \<Rightarrow> (decode_result \<times> stage_io option \<times> 'r) option" where
  "decode libs R l encoded bound r =
     (if li_n l = 0
      then Some (\<lparr>dr_outcome = Identity, dr_body = [], dr_charge = 0, dr_stage = 0, dr_fault = False\<rparr>, None, r)
      else map_option (\<lambda>res.
        if sr_outcome res \<noteq> Decoded
        then (\<lparr>dr_outcome = sr_outcome res, dr_body = [], dr_charge = 0, dr_stage = 1, dr_fault = sr_fault res\<rparr>,
              sr_observed res,
              case sr_out res of None \<Rightarrow> sr_reserver res
              | Some out \<Rightarrow> release_charge R OutputCharge 1 (out_charge out) (sr_reserver res))
        else (\<lparr>dr_outcome = Decoded, dr_body = (case sr_out res of None \<Rightarrow> [] | Some out \<Rightarrow> out_buf out),
               dr_charge = (case sr_out res of None \<Rightarrow> 0 | Some out \<Rightarrow> out_charge out), dr_stage = 0, dr_fault = False\<rparr>,
              sr_observed res, sr_reserver res))
        (run_stage libs R (clamp_bound bound) (li_codings l ! 0) encoded r))"

end
