(* ===== verification/Content_Charges.thy ===== *)
theory Content_Charges
  imports Content_Decode "HOL-Library.Multiset"
begin

text \<open>
  What a decode returns and what it holds while it runs.  \<open>fill\<close> and the loop over gzip members
  return whatever the library does; the contract of a \<open>Reserver\<close> is the locale \<open>charge_ledger\<close>, in
  which every stage is shown to release each charge once and to hold no more at any moment than
  \<open>Charges\<close> allows.  A reserver that records its calls interprets it.
\<close>

section \<open>Loops\<close>

lemma grow_keeps:
  "grow R s = (ok, s') \<Longrightarrow> out_buf (ss_out s') = out_buf (ss_out s) \<and> out_limit (ss_out s') = out_limit (ss_out s)
     \<and> out_returned (ss_out s') = out_returned (ss_out s) \<and> ss_in s' = ss_in s \<and> ss_faulted s' = ss_faulted s"
  by (auto simp: grow_def Let_def split: prod.splits if_splits)

lemma library_reads_keeps [simp]:
  "in_b (library_reads n i) = in_b i" "in_pos i \<le> in_pos (library_reads n i)"
  by (simp_all add: library_reads_def input_read_def Let_def)

lemma guarded_read_keeps:
  "guarded_read D d space s = (x, d', s') \<Longrightarrow>
     ss_out s' = ss_out s \<and> ss_reserver s' = ss_reserver s \<and> in_b (ss_in s') = in_b (ss_in s) \<and> in_pos (ss_in s) \<le> in_pos (ss_in s')"
  by (auto simp: guarded_read_def Let_def split: prod.splits if_splits option.splits)

text \<open>How much \<open>fill\<close> has left to do: bytes below its limit, and idle reads for each.\<close>

definition fill_left :: "'r stage_state \<Rightarrow> nat" where
  "fill_left s = nat (out_limit (ss_out s) - int (length (out_buf (ss_out s))))"

lemma fill_step_progress:
  assumes "fill_step D R s d idle = (Inr idle', d', s')" "idle < 100"
  shows "idle' < 100" "fill_left s' < fill_left s \<or> fill_left s' = fill_left s \<and> idle < idle'"
proof -
  from assms(1) obtain ok s1 n content err s2 where
    g: "(if int (length (out_buf (ss_out s))) = out_cap (ss_out s) then grow R s else (True, s)) = (ok, s1)"
    and rd: "guarded_read D d (nat (out_cap (ss_out s1)) - length (out_buf (ss_out s1))) s1 = ((n, content, err), d', s2)"
    and n: "0 \<le> n"
    and s': "s' = s2\<lparr>ss_out := (ss_out s2)\<lparr>out_buf := out_buf (ss_out s2) @ map content [0..<nat n], out_returned := out_returned (ss_out s2) + n\<rparr>\<rparr>"
    and lim: "int (length (out_buf (ss_out s2) @ map content [0..<nat n])) < out_limit (ss_out s2)"
    and i: "if n = 0 then idle + 1 \<noteq> 100 \<and> idle' = idle + 1 else idle' = 0"
    by (auto simp: fill_step_def Let_def split: prod.splits if_splits option.splits)
  have eq: "out_buf (ss_out s2) = out_buf (ss_out s)" "out_limit (ss_out s2) = out_limit (ss_out s)"
    using grow_keeps [of R s ok s1] g guarded_read_keeps [OF rd] by (auto split: if_splits)
  show "idle' < 100" using i assms(2) by (auto split: if_splits)
  show "fill_left s' < fill_left s \<or> fill_left s' = fill_left s \<and> idle < idle'"
    using i n lim by (auto simp: fill_left_def s' eq split: if_splits)
qed

text \<open>\<open>fill\<close> returns; what its passes keep, and end with, holds of its result.\<close>

lemma fill_rule:
  assumes start: "P s"
    and step: "\<And>s d idle idle' d' s'. P s \<Longrightarrow> fill_step D R s d idle = (Inr idle', d', s') \<Longrightarrow> P s'"
    and final: "\<And>s d idle res d' s'. P s \<Longrightarrow> fill_step D R s d idle = (Inl res, d', s') \<Longrightarrow> Q res s'"
  obtains res d' s' where "fill D R d s = Some (res, d', s')" "Q res s'"
proof -
  have "\<exists>res d' s'. fill_loop D R s d idle = Some (res, d', s') \<and> Q res s'" if "P s" "idle < 100" for s d idle
    using that
  proof (induction "(fill_left s, 100 - idle)" arbitrary: s d idle rule: wf_induct_rule [OF wf_lex_prod [OF wf_less_than wf_less_than]])
    case 1
    obtain x d1 s1 where x: "fill_step D R s d idle = (x, d1, s1)" by (cases "fill_step D R s d idle")
    show ?case
    proof (cases x)
      case (Inl res)
      with x final [OF 1(2)] show ?thesis by (auto simp: fill_loop.simps)
    next
      case (Inr idle1)
      from fill_step_progress [OF x [unfolded Inr] 1(3)]
      have "((fill_left s1, 100 - idle1), (fill_left s, 100 - idle)) \<in> less_than <*lex*> less_than"
        using 1(3) by auto
      from 1(1) [OF this step [OF 1(2) x [unfolded Inr]]] fill_step_progress(1) [OF x [unfolded Inr] 1(3)] x Inr
      show ?thesis by (auto simp: fill_loop.simps [of D R s])
    qed
  qed
  from this [OF start, of 0 d] that show thesis by (auto simp: fill_def)
qed

section \<open>Capacities\<close>

lemma ceil_shift_eq: "ceil_shift n shift = (n + (2 ^ shift - 1)) div 2 ^ shift"
proof -
  have m: "n AND (2 ^ shift - 1) = n mod 2 ^ shift"
    using take_bit_eq_mask [of shift n] by (simp add: take_bit_eq_mod mask_eq_exp_minus_1)
  define d :: int where "d = 2 ^ shift"
  have d: "0 < d" by (simp add: d_def)
  have "(n + (d - 1)) div d = (if n mod d \<noteq> 0 then n div d + 1 else n div d)"
  proof (cases "n mod d = 0")
    case True
    then have "n = d * (n div d)" using mult_div_mod_eq [of d n] by simp
    then have "(n + (d - 1)) div d = (d - 1 + d * (n div d)) div d" by (simp add: algebra_simps)
    also have "\<dots> = n div d" using d by (simp add: div_pos_pos_trivial)
    finally show ?thesis using True by simp
  next
    case False
    have e: "n + (d - 1) = (n mod d - 1) + d * (n div d + 1)"
      using mult_div_mod_eq [of d n] by (simp add: algebra_simps)
    have "(n + (d - 1)) div d = ((n mod d - 1) + d * (n div d + 1)) div d" by (simp only: e)
    also have "\<dots> = (n mod d - 1) div d + (n div d + 1)" using d by (subst div_mult_self2) auto
    also have "(n mod d - 1) div d = 0"
      using d False pos_mod_bound [of d n] pos_mod_sign [of d n] by (intro div_pos_pos_trivial) linarith+
    finally show ?thesis using False by simp
  qed
  then show ?thesis by (simp add: ceil_shift_def m drop_bit_eq_div push_bit_eq_mult Let_def d_def)
qed

lemma ceil_shift_half:
  assumes "0 < n" "1 \<le> shift"
  shows "ceil_shift n shift \<le> (n + 1) div 2"
proof -
  obtain k where k: "shift = Suc k" using assms(2) by (cases shift) auto
  have "(n + (2 * 2 ^ k - 1)) div (2 * 2 ^ k) = (n + (2 * 2 ^ k - 1)) div 2 div 2 ^ k"
    by (rule zdiv_zmult2_eq) simp
  also have "(n + (2 * 2 ^ k - 1)) div 2 = (n + 1) div 2 + (2 ^ k - 1)" 
  proof -
    have "n + (2 * 2 ^ k - 1) = (n + 1) + 2 * (2 ^ k - 1)" by simp
    then show ?thesis by (simp only: div_mult_self2)
  qed
  also have "((n + 1) div 2 + (2 ^ k - 1)) div 2 ^ k \<le> (n + 1) div 2"
  proof -
    define m :: int and d :: int where "m = (n + 1) div 2" and "d = 2 ^ k"
    have "1 \<le> m" "1 \<le> d" using assms(1) by (simp_all add: m_def d_def)
    then have "m + (d - 1) \<le> m * d"
      using mult_nonneg_nonneg [of "m - 1" "d - 1"] by (simp add: algebra_simps)
    then have "(m + (d - 1)) div d \<le> m * d div d" using \<open>1 \<le> d\<close> by (intro zdiv_mono1) auto
    then show ?thesis using \<open>1 \<le> d\<close> by (simp add: m_def d_def)
  qed
  finally show ?thesis by (simp add: ceil_shift_eq k)
qed

lemma grow_next_range:
  assumes "current < next" "next = limit \<or> next \<le> (limit + 1) div 2" "0 < limit" "\<forall>k\<in>set ks. 1 \<le> k"
  shows "current < grow_next limit current next ks
    \<and> (grow_next limit current next ks = limit \<or> grow_next limit current next ks \<le> (limit + 1) div 2)"
  using assms
proof (induction ks arbitrary: "next")
  case (Cons k ks)
  show ?case
    using Cons.prems Cons.IH [of "ceil_shift limit k"] ceil_shift_half [of limit k] by (simp add: Let_def)
qed simp

section \<open>Headers and trailers only read\<close>

text \<open>\<open>advances n\<close>: the input after at least \<open>n\<close> more of its bytes were read.\<close>

definition advances :: "nat \<Rightarrow> stage_input \<Rightarrow> stage_input \<Rightarrow> bool" where
  "advances n i i' \<longleftrightarrow> in_b i' = in_b i \<and> in_pos i + n \<le> in_pos i'"

lemma advances_refl [simp]: "advances 0 i i"
  by (simp add: advances_def)

lemma advances_trans: "advances m i j \<Longrightarrow> advances n j k \<Longrightarrow> advances m i k"
  by (simp add: advances_def)

lemma input_next_advances: "input_next i n = Some (b, i') \<Longrightarrow> advances n i i'"
  by (auto simp: input_next_def advances_def split: if_splits)

lemma skip_field_advances: "skip_field i = Some i' \<Longrightarrow> advances 0 i i'"
proof (induction i rule: skip_field.induct)
  case (1 i)
  obtain c j where r: "input_read_byte i = Some (c, j)"
    using 1(2) by (auto simp: skip_field.simps [of i] split: option.splits)
  then have "advances 0 i j" by (auto simp: input_read_byte_def advances_def split: if_splits)
  moreover have "advances 0 j i'"
    using 1(1) [OF r refl] 1(2) r by (auto simp: skip_field.simps [of i] split: if_splits)
  ultimately show ?case by (rule advances_trans)
qed

lemma skip_if_advances:
  "skip_if b f i = Some i' \<Longrightarrow> (\<And>i'. f i = Some i' \<Longrightarrow> advances 0 i i') \<Longrightarrow> advances 0 i i'"
  by (auto simp: skip_if_def split: if_splits)

lemma skip_extra_advances: "skip_extra i = Some i' \<Longrightarrow> advances 0 i i'"
  by (auto simp: skip_extra_def advances_def input_next_def split: option.splits if_splits)

lemma check_header_crc_advances: "check_header_crc start i = Some i' \<Longrightarrow> advances 0 i i'"
  by (auto simp: check_header_crc_def Let_def advances_def input_next_def split: option.splits if_splits)

lemma gzip_header_advances:
  assumes "gzip_header i = Some i'"
  shows "advances 10 i i'"
proof -
  from assms obtain f i0 i1 i2 i3 where "input_next i 10 = Some (f, i0)"
    "skip_if (byte_at f 3 AND push_bit 2 1 \<noteq> 0) skip_extra i0 = Some i1"
    "skip_if (byte_at f 3 AND push_bit 3 1 \<noteq> 0) skip_field i1 = Some i2"
    "skip_if (byte_at f 3 AND push_bit 4 1 \<noteq> 0) skip_field i2 = Some i3"
    "skip_if (byte_at f 3 AND push_bit 1 1 \<noteq> 0) (check_header_crc (in_pos i)) i3 = Some i'"
    by (auto simp: gzip_header_def Let_def bind_eq_Some_conv split: option.splits if_splits)
  note read = this
  have "advances 10 i i0" by (rule input_next_advances [OF read(1)])
  moreover have "advances 0 i0 i1" by (rule skip_if_advances [OF read(2) skip_extra_advances])
  moreover have "advances 0 i1 i2" by (rule skip_if_advances [OF read(3) skip_field_advances])
  moreover have "advances 0 i2 i3" by (rule skip_if_advances [OF read(4) skip_field_advances])
  moreover have "advances 0 i3 i'" by (rule skip_if_advances [OF read(5) check_header_crc_advances])
  ultimately show ?thesis by (simp add: advances_def)
qed

lemma library_reads_advances: "advances 0 i (library_reads n i)"
  by (simp add: advances_def)

text \<open>Making, resetting and closing a decoder read input and may fault; they touch nothing else.\<close>

definition only_reads :: "'r stage_state \<Rightarrow> 'r stage_state \<Rightarrow> bool" where
  "only_reads s s' \<longleftrightarrow> ss_out s' = ss_out s \<and> ss_reserver s' = ss_reserver s \<and> advances 0 (ss_in s) (ss_in s')"

lemma library_only_reads:
  "library_make D settings s = (x, s') \<Longrightarrow> only_reads s s'"
  "library_reset D d s = (x, s') \<Longrightarrow> only_reads s s'"
  "only_reads s (library_close D d s)"
  by (auto simp: library_make_def library_reset_def guard_decoder_def library_close_def only_reads_def library_reads_advances Let_def
      split: prod.splits option.splits)

lemma member_decoder_only_reads: "member_decoder D inflater s = (d, ok, s') \<Longrightarrow> only_reads s s'"
  by (auto simp: member_decoder_def dest: library_only_reads(1,2) split: option.splits prod.splits)

lemma member_trailer_only_reads: "member_trailer start s = (ok, s') \<Longrightarrow> only_reads s s'"
  by (auto simp: member_trailer_def only_reads_def Let_def advances_def dest: input_next_advances split: option.splits)

lemma deflate_end_only_reads: "deflate_end wrapped s = (outcome, s') \<Longrightarrow> only_reads s s' \<and> outcome \<noteq> Identity"
  by (auto simp: deflate_end_def only_reads_def Let_def advances_def dest!: input_next_advances split: option.splits if_splits prod.splits)

section \<open>The contract of a reserver\<close>

definition bytes_held :: "content_charge multiset \<Rightarrow> int" where
  "bytes_held M = sum_mset (image_mset cc_bytes M)"

lemma bytes_held_simps [simp]:
  "bytes_held {#} = 0" "bytes_held (add_mset c M) = cc_bytes c + bytes_held M" "bytes_held (M + N) = bytes_held M + bytes_held N"
  by (simp_all add: bytes_held_def)

abbreviation output_charge :: "int \<Rightarrow> content_charge" where
  "output_charge n \<equiv> \<lparr>cc_kind = OutputCharge, cc_stage = 1, cc_bytes = n\<rparr>"

abbreviation workspace_charge :: "int \<Rightarrow> content_charge" where
  "workspace_charge n \<equiv> \<lparr>cc_kind = WorkspaceCharge, cc_stage = 1, cc_bytes = n\<rparr>"

definition charge_mset :: "content_charge \<Rightarrow> content_charge multiset" where
  "charge_mset c = (if cc_bytes c > 0 then {#c#} else {#})"

lemma bytes_charge_mset [simp]: "bytes_held (charge_mset c) = max (cc_bytes c) 0"
  by (simp add: charge_mset_def)

text \<open>
  \<open>acct M r\<close>: in state \<open>r\<close> exactly the charges \<open>M\<close> are held.  A caller asks for a positive charge that
  keeps the whole within \<open>most\<close>, and gives back what it holds.
\<close>

locale charge_ledger =
  fixes R :: "'r content_reserver"
    and acct :: "content_charge multiset \<Rightarrow> 'r \<Rightarrow> bool"
    and most :: int
  assumes reserve_answers:
      "acct M r \<Longrightarrow> 0 < cc_bytes c \<Longrightarrow> bytes_held M + cc_bytes c \<le> most \<Longrightarrow> cr_reserve R r c = (ok, r') \<Longrightarrow>
         acct (if ok then add_mset c M else M) r'"
    and release_returns: "acct (add_mset c M) r \<Longrightarrow> acct M (cr_release R r c)"
begin

lemma release_charge_returns:
  assumes "acct (M + charge_mset \<lparr>cc_kind = kind, cc_stage = stage, cc_bytes = n\<rparr>) r"
  shows "acct M (release_charge R kind stage n r)"
  using assms by (auto simp: release_charge_def charge_mset_def intro: release_returns)

end

text \<open>What a stage's output buffer keeps to, under the limit \<open>L\<close>.\<close>

definition output_ok :: "int \<Rightarrow> stage_output \<Rightarrow> bool" where
  "output_ok L out \<longleftrightarrow> out_limit out = L \<and> 0 < L \<and> int (length (out_buf out)) \<le> out_cap out \<and> out_cap out \<le> L
     \<and> (out_cap out = L \<or> out_cap out \<le> (L + 1) div 2) \<and> out_charge out = out_cap out
     \<and> out_returned out = int (length (out_buf out))"

context charge_ledger
begin

definition stage_inv :: "content_charge multiset \<Rightarrow> int \<Rightarrow> 'r stage_state \<Rightarrow> bool" where
  "stage_inv M L s \<longleftrightarrow> bytes_held M + L + (L + 1) div 2 \<le> most \<and> output_ok L (ss_out s)
     \<and> acct (M + charge_mset (output_charge (out_charge (ss_out s)))) (ss_reserver s)"

lemma stage_inv_cong:
  "ss_out s' = ss_out s \<Longrightarrow> ss_reserver s' = ss_reserver s \<Longrightarrow> stage_inv M L s' = stage_inv M L s"
  by (simp add: stage_inv_def)

lemma stage_inv_update [simp]:
  "stage_inv M L (s\<lparr>ss_in := i\<rparr>) = stage_inv M L s" "stage_inv M L (s\<lparr>ss_faulted := b\<rparr>) = stage_inv M L s"
  by (simp_all add: stage_inv_def)

lemma grow_inv:
  assumes inv: "stage_inv M L s" and room: "out_cap (ss_out s) < L" and g: "grow R s = (ok, s')"
  shows "stage_inv M L s'" "ok \<Longrightarrow> out_cap (ss_out s) < out_cap (ss_out s')"
proof -
  let ?o = "ss_out s"
  define n where "n = grow_next L (out_cap ?o) L [1..<63]"
  have o: "out_limit ?o = L" "0 < L" "out_charge ?o = out_cap ?o" "0 \<le> out_cap ?o" "out_cap ?o \<le> (L + 1) div 2"
    "int (length (out_buf ?o)) \<le> out_cap ?o"
    and acct: "acct (M + charge_mset (output_charge (out_cap ?o))) (ss_reserver s)"
    and most: "bytes_held M + L + (L + 1) div 2 \<le> most"
    using inv room by (auto simp: stage_inv_def output_ok_def)
  have n: "out_cap ?o < n" "n = L \<or> n \<le> (L + 1) div 2"
    using grow_next_range [of "out_cap ?o" L L "[1..<63]"] room o by (auto simp: n_def)
  have "n \<le> L" using n o by auto
  obtain ok' r where r: "cr_reserve R (ss_reserver s) (output_charge n) = (ok', r)" by fastforce
  have "acct (if ok' then add_mset (output_charge n) (M + charge_mset (output_charge (out_cap ?o)))
      else M + charge_mset (output_charge (out_cap ?o))) r"
    using most n \<open>n \<le> L\<close> o by (intro reserve_answers [OF acct _ _ r]) auto
  then have a: "acct (if ok' then (M + {#output_charge n#}) + charge_mset (output_charge (out_cap ?o))
      else M + charge_mset (output_charge (out_cap ?o))) r"
    by (simp split: if_splits)
  have e: "(ok, s') = (if ok' then (True, s\<lparr>ss_reserver := release_charge R OutputCharge 1 (out_cap ?o) r,
      ss_out := ?o\<lparr>out_cap := n, out_charge := n\<rparr>\<rparr>) else (False, s\<lparr>ss_reserver := r\<rparr>))"
    using g r o(1,3) by (auto simp: grow_def n_def Let_def split: if_splits)
  show "stage_inv M L s'"
  proof (cases ok')
    case True
    have "acct (M + {#output_charge n#}) (release_charge R OutputCharge 1 (out_cap ?o) r)"
      using a True by (intro release_charge_returns) simp
    moreover have "charge_mset (output_charge n) = {#output_charge n#}" using n o by (simp add: charge_mset_def)
    ultimately show ?thesis
      using e True inv n \<open>n \<le> L\<close> o by (auto simp: stage_inv_def output_ok_def)
  next
    case False
    then show ?thesis
      using e a inv o by (auto simp: stage_inv_def output_ok_def)
  qed
  show "out_cap ?o < out_cap (ss_out s')" if ok
    using that e n by (auto split: if_splits)
qed

lemma fill_step_inv:
  assumes inv: "stage_inv M L s" and step: "fill_step D R s d idle = (x, d', s')"
  shows "stage_inv M L s'" "in_b (ss_in s') = in_b (ss_in s)" "in_pos (ss_in s) \<le> in_pos (ss_in s')"
    "x = Inl (Decoded, err) \<Longrightarrow> int (length (out_buf (ss_out s'))) < L \<and> 0 < out_charge (ss_out s')"
    "x \<noteq> Inl (Identity, err)"
proof -
  let ?full = "int (length (out_buf (ss_out s))) = out_cap (ss_out s)"
  have L: "out_limit (ss_out s) = L" using inv by (simp add: stage_inv_def output_ok_def)
  obtain ok s1 where g: "(if ?full then grow R s else (True, s)) = (ok, s1)" by fastforce
  obtain n content e d2 s2 where
    rd: "guarded_read D d (nat (out_cap (ss_out s1)) - length (out_buf (ss_out s1))) s1 = ((n, content, e), d2, s2)"
    by (metis prod_cases3)
  note keeps = guarded_read_keeps [OF rd]
  let ?s = "s2\<lparr>ss_out := (ss_out s2)\<lparr>out_buf := out_buf (ss_out s2) @ map content [0..<nat n], out_returned := out_returned (ss_out s2) + n\<rparr>\<rparr>"
  consider (large) "s' = s" "x = Inl (DecodedTooLarge, None)"
    | (refused) "?full \<longrightarrow> out_cap (ss_out s) < L" "s' = s1" "x = Inl (Refused, None)"
    | (short) "?full \<longrightarrow> out_cap (ss_out s) < L" "s' = s2" "x = Inl (DecodingFailed, Some Read_short_buffer)"
    | (more) "?full \<longrightarrow> out_cap (ss_out s) < L" ok "0 \<le> n" "n \<le> int (nat (out_cap (ss_out s1)) - length (out_buf (ss_out s1)))"
      "s' = ?s" "x = Inl (Decoded, err) \<Longrightarrow> int (length (out_buf (ss_out ?s))) < out_limit (ss_out s2)" "x \<noteq> Inl (Identity, err)"
    using step L unfolding fill_step_def Let_def g prod.case rd
    by (auto split: if_splits option.splits)
  note cases = this
  have one: "stage_inv M L s1 \<and> ss_in s1 = ss_in s" if "?full \<longrightarrow> out_cap (ss_out s) < L"
    using that g inv grow_inv(1) [OF inv] grow_keeps [of R s ok s1] by (auto split: if_splits)
  have two: "stage_inv M L s2 \<and> in_b (ss_in s2) = in_b (ss_in s) \<and> in_pos (ss_in s) \<le> in_pos (ss_in s2)"
    if "?full \<longrightarrow> out_cap (ss_out s) < L"
    using one [OF that] keeps stage_inv_cong [of s2 s1] by auto
  have out: "stage_inv M L ?s" if "?full \<longrightarrow> out_cap (ss_out s) < L" "0 \<le> n"
    "n \<le> int (nat (out_cap (ss_out s1)) - length (out_buf (ss_out s1)))"
    using two [OF that(1)] that(2,3) keeps by (auto simp: stage_inv_def output_ok_def)
  show "stage_inv M L s'"
    using inv one two out by (cases rule: cases) auto
  show "in_b (ss_in s') = in_b (ss_in s)" "in_pos (ss_in s) \<le> in_pos (ss_in s')"
    using one two by (cases rule: cases; auto)+
  have room: "0 < out_cap (ss_out s1)" if "?full \<longrightarrow> out_cap (ss_out s) < L" ok
  proof (cases ?full)
    case True
    then have "out_cap (ss_out s) < out_cap (ss_out s1)"
      using that g grow_inv(2) [OF inv, of ok s1] by simp
    with True show ?thesis by linarith
  next
    case False
    then show ?thesis using g inv by (auto simp: stage_inv_def output_ok_def)
  qed
  show "int (length (out_buf (ss_out s'))) < L \<and> 0 < out_charge (ss_out s')" if "x = Inl (Decoded, err)"
    using that two room keeps by (cases rule: cases) (auto simp: stage_inv_def output_ok_def)
  show "x \<noteq> Inl (Identity, err)"
    by (cases rule: cases) auto
qed

lemma stage_inv_reads: "only_reads s s' \<Longrightarrow> stage_inv M L s' = stage_inv M L s"
  by (rule stage_inv_cong) (simp_all add: only_reads_def)

text \<open>What a stage's part ends with: the invariant, and a decoded output below the limit.\<close>

definition ends_with :: "content_charge multiset \<Rightarrow> int \<Rightarrow> decode_outcome \<Rightarrow> 'r stage_state \<Rightarrow> bool" where
  "ends_with M L outcome s \<longleftrightarrow>
     stage_inv M L s \<and> outcome \<noteq> Identity \<and> (outcome = Decoded \<longrightarrow> int (length (out_buf (ss_out s))) < L \<and> 0 < out_charge (ss_out s))"

lemma ends_with_reads: "only_reads s s' \<Longrightarrow> ends_with M L outcome s' = ends_with M L outcome s"
  using stage_inv_reads [of s s'] by (simp add: ends_with_def only_reads_def)

lemma ends_with_close [simp]: "ends_with M L outcome (library_close D d s) = ends_with M L outcome s"
  by (rule ends_with_reads) (rule library_only_reads(3))

lemma fill_ends:
  assumes "stage_inv M L s"
  obtains outcome err d' s' where "fill D R d s = Some ((outcome, err), d', s')" "ends_with M L outcome s'"
    "advances 0 (ss_in s) (ss_in s')"
proof -
  let ?P = "\<lambda>s'. stage_inv M L s' \<and> advances 0 (ss_in s) (ss_in s')"
  have "?P s" using assms by simp
  then obtain res d' s' where "fill D R d s = Some (res, d', s')" "ends_with M L (fst res) s' \<and> advances 0 (ss_in s) (ss_in s')"
  proof (rule fill_rule [where P = ?P and Q = "\<lambda>res s'. ends_with M L (fst res) s' \<and> advances 0 (ss_in s) (ss_in s')"])
    fix s1 d idle idle' d' s'
    assume p: "?P s1" and f: "fill_step D R s1 d idle = (Inr idle', d', s')"
    show "?P s'" using fill_step_inv(1-3) [OF conjunct1 [OF p] f] p by (auto simp: advances_def)
  next
    fix s1 d idle res d' s'
    assume p: "?P s1" and f: "fill_step D R s1 d idle = (Inl res, d', s')"
    show "ends_with M L (fst res) s' \<and> advances 0 (ss_in s) (ss_in s')"
      using fill_step_inv(1-3) [OF conjunct1 [OF p] f] fill_step_inv(4,5) [OF conjunct1 [OF p] f, where err = "snd res"] p
      by (cases res) (auto simp: advances_def ends_with_def)
  qed blast
  then show thesis by (cases res) (auto intro: that)
qed

lemma ends_with_inv: "ends_with M L outcome s \<Longrightarrow> stage_inv M L s"
  by (simp add: ends_with_def)

lemma inv_ends_failed: "stage_inv M L s \<Longrightarrow> ends_with M L DecodingFailed s"
  by (simp add: ends_with_def)

text \<open>One member, and the members: the loop reads at least a header's ten bytes each time.\<close>

lemma gzip_member_ends:
  assumes inv: "stage_inv M L s"
  obtains x inflater' s' where "gzip_member D R inflater s = Some (x, inflater', s')"
    "case x of Inl outcome \<Rightarrow> ends_with M L outcome s'
     | Inr _ \<Rightarrow> ends_with M L Decoded s' \<and> advances 10 (ss_in s) (ss_in s')"
proof (cases "gzip_header (ss_in s)")
  case None
  then show thesis
    using inv_ends_failed [OF inv] by (intro that [of "Inl DecodingFailed"]) (simp_all add: gzip_member_def)
next
  case (Some i)
  obtain infl ok s1 where m: "member_decoder D inflater (s\<lparr>ss_in := i\<rparr>) = (infl, ok, s1)" by (metis prod_cases3)
  note reads = member_decoder_only_reads [OF m]
  have inv1: "stage_inv M L s1" using inv stage_inv_reads [OF reads] by simp
  have adv1: "advances 10 (ss_in s) (ss_in s1)"
    using gzip_header_advances [OF Some] reads by (auto simp: only_reads_def advances_def)
  show thesis
  proof (cases "ok \<and> infl \<noteq> None")
    case True
    then obtain d where d: "infl = Some d" by auto
    obtain outcome err d' s2 where f: "fill D R d s1 = Some ((outcome, err), d', s2)" "ends_with M L outcome s2"
      "advances 0 (ss_in s1) (ss_in s2)"
      by (rule fill_ends [OF inv1])
    obtain ok2 s3 where t: "member_trailer (length (out_buf (ss_out s1))) s2 = (ok2, s3)" by fastforce
    note end3 = ends_with_reads [OF member_trailer_only_reads [OF t]]
    have adv3: "advances 10 (ss_in s) (ss_in s3)"
      using adv1 f(3) member_trailer_only_reads [OF t] by (auto simp: only_reads_def advances_def)
    show thesis
    proof (cases "outcome = Decoded")
      case True
      with \<open>ok \<and> infl \<noteq> None\<close> Some m d f t end3 adv3 inv_ends_failed [OF ends_with_inv [OF f(2)]] show thesis
        by (intro that [of "if ok2 then Inr () else Inl DecodingFailed"]) (auto simp: gzip_member_def)
    next
      case False
      with \<open>ok \<and> infl \<noteq> None\<close> Some m d f show thesis
        by (intro that [of "Inl outcome"]) (auto simp: gzip_member_def)
    qed
  next
    case False
    with Some m inv_ends_failed [OF inv1] show thesis
      by (intro that [of "Inl DecodingFailed" infl s1]) (auto simp: gzip_member_def split: option.splits bool.splits)
  qed
qed

lemma gzip_members_ends:
  assumes "stage_inv M L s" "members \<noteq> 0 \<Longrightarrow> ends_with M L Decoded s"
  shows "\<exists>outcome inflater' s'. gzip_members D R members inflater s = Some (outcome, inflater', s') \<and> ends_with M L outcome s'"
  using assms
proof (induction "remaining (ss_in s)" arbitrary: s members inflater rule: less_induct)
  case less
  show ?case
  proof (cases "remaining (ss_in s) = 0")
    case True
    with less(2,3) show ?thesis by (auto simp: gzip_members.simps intro: inv_ends_failed)
  next
    case False
    obtain x infl s' where m: "gzip_member D R inflater s = Some (x, infl, s')"
      "case x of Inl outcome \<Rightarrow> ends_with M L outcome s'
       | Inr _ \<Rightarrow> ends_with M L Decoded s' \<and> advances 10 (ss_in s) (ss_in s')"
      by (rule gzip_member_ends [OF less(2)])
    show ?thesis
    proof (cases x)
      case (Inl outcome)
      with m False show ?thesis by (simp add: gzip_members.simps)
    next
      case (Inr u)
      with m False have "remaining (ss_in s') < remaining (ss_in s)"
        by (auto simp: remaining_def advances_def)
      from less(1) [OF this, of "members + 1" infl] m Inr ends_with_inv False show ?thesis
        by (auto simp: gzip_members.simps [of D R members])
    qed
  qed
qed

lemma gzip_stage_ends:
  assumes "stage_inv M L s"
  obtains outcome s' where "gzip_stage D R s = Some (outcome, s')" "ends_with M L outcome s'"
proof -
  from gzip_members_ends [OF assms, of 0 D None] obtain outcome inflater s1 where
    m: "gzip_members D R 0 None s = Some (outcome, inflater, s1)" "ends_with M L outcome s1" by auto
  then show thesis
    by (cases inflater) (auto simp: gzip_stage_def intro: that)
qed

lemma deflate_stage_ends:
  assumes inv: "stage_inv M L s"
  obtains outcome s' where "deflate_stage D R s = Some (outcome, s')" "ends_with M L outcome s'"
proof -
  let ?b = "in_b (ss_in s)"
  define wrapped where "wrapped = (length ?b \<ge> 2 \<and> zlib_header (byte_at ?b 0) (byte_at ?b 1))"
  define s0 where "s0 = (if wrapped then s\<lparr>ss_in := (ss_in s)\<lparr>in_pos := 2\<rparr>\<rparr> else s)"
  obtain x s1 where mk: "library_make D [] s0 = (x, s1)" by fastforce
  have inv1: "stage_inv M L s1"
    using inv stage_inv_reads [OF library_only_reads(1) [OF mk]] by (simp add: s0_def)
  show thesis
  proof (cases "wrapped \<and> byte_at ?b 1 AND zlib_preset_dictionary \<noteq> 0")
    case True
    then show thesis
      using inv_ends_failed [OF inv] by (intro that [of DecodingFailed s]) (simp_all add: deflate_stage_def wrapped_def)
  next
    case False
    have st: "deflate_stage D R s = (case (x, s1) of
          (None, s) \<Rightarrow> Some (DecodingFailed, s)
        | (Some (d, _), s) \<Rightarrow>
            (case fill D R d s of
               None \<Rightarrow> None
             | Some ((outcome, err), d, s) \<Rightarrow>
                 let s = library_close D d s
                 in Some (if outcome \<noteq> Decoded then (outcome, s) else deflate_end wrapped s)))"
      unfolding deflate_stage_def Let_def wrapped_def [symmetric] if_not_P [OF False] s0_def [symmetric] mk by (rule refl)
    show thesis
    proof (cases x)
      case None
      then show thesis using inv_ends_failed [OF inv1] st by (intro that) simp_all
    next
      case (Some df)
      obtain outcome err d' s2 where f: "fill D R (fst df) s1 = Some ((outcome, err), d', s2)" "ends_with M L outcome s2"
        by (rule fill_ends [OF inv1])
      have c: "ends_with M L outcome (library_close D d' s2)"
        using f(2) by simp
      obtain outcome' s3 where e: "deflate_end wrapped (library_close D d' s2) = (outcome', s3)" by fastforce
      show thesis
      proof (cases "outcome = Decoded")
        case True
        have "ends_with M L outcome' s3"
          using c True deflate_end_only_reads [OF e] ends_with_reads [of "library_close D d' s2" s3 M L]
          by (auto simp: ends_with_def)
        with Some f e True st show thesis by (intro that [of outcome' s3]) (auto simp: Let_def split: prod.splits)
      next
        case False
        with Some f c st show thesis by (intro that [of outcome "library_close D d' s2"]) (auto simp: Let_def split: prod.splits)
      qed
    qed
  qed
qed

lemma brotli_stage_ends:
  assumes inv: "stage_inv M L s"
  obtains outcome work s' where "brotli_stage D R budget s = Some (outcome, work, s')" "ends_with M L outcome s'"
proof -
  obtain x s1 where mk: "library_make D [wb_base budget, wb_per_byte budget, wb_most budget] s = (x, s1)" by fastforce
  have inv1: "stage_inv M L s1" using inv stage_inv_reads [OF library_only_reads(1) [OF mk]] by simp
  show thesis
  proof (cases x)
    case None
    then show thesis using inv_ends_failed [OF inv1] mk by (intro that) (simp_all add: brotli_stage_def)
  next
    case (Some df)
    obtain outcome err d' s2 where f: "fill D R (fst df) s1 = Some ((outcome, err), d', s2)" "ends_with M L outcome s2"
      by (rule fill_ends [OF inv1])
    let ?o = "if outcome = DecodingFailed \<and> err = Some Read_too_costly then DecodingTooCostly
      else if outcome \<noteq> Decoded then outcome else if remaining (ss_in s2) \<noteq> 0 then DecodingFailed else Decoded"
    have "ends_with M L ?o s2" using f(2) by (auto simp: ends_with_def)
    with Some f mk show thesis
      by (intro that [of ?o "wrap64 (dc_work D d')" s2]) (auto simp: brotli_stage_def Let_def split: prod.splits)
  qed
qed

lemma zstd_stage_ends:
  assumes inv: "stage_inv M L s"
  obtains outcome s' where "zstd_stage D R bound s = Some (outcome, s')" "ends_with M L outcome s'"
proof (cases "in_b (ss_in s) = []")
  case True
  then show thesis using inv_ends_failed [OF inv] by (intro that) (simp_all add: zstd_stage_def)
next
  case False
  obtain held read cut_at where p: "zstd_planned (in_b (ss_in s)) (zstd_window bound) = (held, read, cut_at)"
    by (metis prod_cases3)
  define s0 where "s0 = (case cut_at of None \<Rightarrow> s | Some p \<Rightarrow> s\<lparr>ss_in := (ss_in s)\<lparr>in_b := take p (in_b (ss_in s))\<rparr>\<rparr>)"
  have inv0: "stage_inv M L s0" using inv by (simp add: s0_def split: option.splits)
  obtain x s1 where mk: "library_make D [zstd_window bound] s0 = (x, s1)" by fastforce
  have inv1: "stage_inv M L s1" using inv0 stage_inv_reads [OF library_only_reads(1) [OF mk]] by simp
  have st: "zstd_stage D R bound s = (case (x, s1) of
       (None, s) \<Rightarrow> Some (DecodingFailed, s)
     | (Some (d, failed), s) \<Rightarrow>
         if failed then Some (DecodingFailed, s)
         else (case fill D R d s of
            None \<Rightarrow> None
          | Some ((outcome, err), d, s) \<Rightarrow>
              let s = library_close D d s in Some (zstd_ended cut_at (zstd_window bound) outcome err (ss_in s), s)))"
    unfolding mk [symmetric] s0_def zstd_stage_def Let_def p using False by simp
  show thesis
  proof (cases "\<exists>d. x = Some (d, False)")
    case True
    then obtain d where x: "x = Some (d, False)" ..
    obtain outcome err d' s2 where f: "fill D R d s1 = Some ((outcome, err), d', s2)" "ends_with M L outcome s2"
      by (rule fill_ends [OF inv1])
    let ?s = "library_close D d' s2"
    let ?o = "zstd_ended cut_at (zstd_window bound) outcome err (ss_in ?s)"
    have "ends_with M L outcome ?s" using f(2) by simp
    then have "ends_with M L ?o ?s" by (auto simp: ends_with_def zstd_ended_def)
    with x f st show thesis by (intro that [of ?o ?s]) (simp_all add: Let_def)
  next
    case False
    then show thesis
      using inv_ends_failed [OF inv1] st by (intro that [of DecodingFailed s1]) (auto split: option.splits prod.splits)
  qed
qed

lemma run_coding_ends:
  assumes "stage_inv M L s"
  obtains outcome work s' where "run_coding libs R bound c s = Some (outcome, work, s')" "ends_with M L outcome s'"
proof (cases c)
  case Gzip
  with gzip_stage_ends [OF assms, of "libs c"] that show thesis by (auto simp: run_coding_def)
next
  case Deflate
  with deflate_stage_ends [OF assms, of "libs c"] that show thesis by (auto simp: run_coding_def)
next
  case Brotli
  with brotli_stage_ends [OF assms, of "libs c" brotli_budget] that show thesis by (auto simp: run_coding_def)
next
  case Zstd
  with zstd_stage_ends [OF assms, of "libs c" bound] that show thesis by (auto simp: run_coding_def)
next
  case (Coding_value v)
  with inv_ends_failed [OF assms] that show thesis by (auto simp: run_coding_def)
qed

text \<open>A stage: its workspace is given back before it returns, its output's charge goes with the output.\<close>

definition stage_holds :: "content_charge multiset \<Rightarrow> int \<Rightarrow> 'r stage_result \<Rightarrow> bool" where
  "stage_holds M L res \<longleftrightarrow> sr_outcome res \<noteq> Identity
     \<and> acct (M + (case sr_out res of None \<Rightarrow> {#} | Some out \<Rightarrow> charge_mset (output_charge (out_charge out)))) (sr_reserver res)
     \<and> (sr_outcome res = Decoded \<longrightarrow> \<not> sr_fault res \<and>
         (\<exists>out. sr_out res = Some out \<and> output_ok L out \<and> int (length (out_buf out)) < L \<and> 0 < out_charge out))"

lemma run_stage_holds:
  assumes c: "c \<in> {Gzip, Deflate, Brotli, Zstd}" and bound: "clamp_bound bound = bound" and acct: "acct M r"
    and most: "bytes_held M + workspace c b bound + (bound + 1) + (bound + 2) div 2 \<le> most"
  obtains res where "run_stage libs R bound c b r = Some res" "stage_holds M (bound + 1) res"
proof (cases "if c = Brotli then brotli_header b bound else None")
  case (Some outcome)
  then have "outcome \<noteq> Identity \<and> outcome \<noteq> Decoded"
    by (auto simp: brotli_header_def Let_def split: if_splits prod.splits)
  moreover have "run_stage libs R bound c b r =
      Some \<lparr>sr_out = None, sr_outcome = outcome, sr_fault = False, sr_observed = None, sr_reserver = r\<rparr>"
    using Some by (simp add: run_stage_def)
  ultimately show thesis using acct by (intro that) (auto simp: stage_holds_def)
next
  case None
  obtain w planned where p: "plan c b bound = (w, planned)" by fastforce
  then have w: "workspace c b bound = w" by (simp add: workspace_def)
  have "0 < workspace c b bound"
    using c None bound by (intro workspace_positive) (auto simp: brotli_header_def Let_def not_less split: if_splits prod.splits)
  with w have pos: "0 < w" by simp
  have "0 \<le> bound" using bound by (metis clamp_bound_def max.cobounded2 max_bound_def min.bounded_iff zero_le_numeral zero_le_power)
  obtain ok r1 where rs: "cr_reserve R r (workspace_charge w) = (ok, r1)" by fastforce
  have a: "acct (if ok then add_mset (workspace_charge w) M else M) r1"
    using most w pos \<open>0 \<le> bound\<close> by (intro reserve_answers [OF acct _ _ rs]) auto
  show thesis
  proof (cases ok)
    case False
    then have "run_stage libs R bound c b r =
        Some \<lparr>sr_out = None, sr_outcome = Refused, sr_fault = False, sr_observed = None, sr_reserver = r1\<rparr>"
      using None p rs by (simp add: run_stage_def)
    with a False show thesis by (intro that) (auto simp: stage_holds_def)
  next
    case True
    let ?s = "\<lparr>ss_reserver = r1, ss_in = \<lparr>in_b = b, in_pos = 0\<rparr>, ss_out = new_output bound, ss_faulted = False\<rparr>"
    have "stage_inv (add_mset (workspace_charge w) M) (bound + 1) ?s"
      using a True most w \<open>0 \<le> bound\<close> by (simp add: stage_inv_def output_ok_def new_output_def charge_mset_def)
    then obtain outcome work s where rc: "run_coding libs R bound c ?s = Some (outcome, work, s)"
      "ends_with (add_mset (workspace_charge w) M) (bound + 1) outcome s"
      by (rule run_coding_ends)
    let ?out = "charge_mset (output_charge (out_charge (ss_out s)))"
    have "acct (add_mset (workspace_charge w) M + ?out) (ss_reserver s)"
      using rc(2) by (simp add: ends_with_def stage_inv_def)
    then have "acct ((M + ?out) + charge_mset (workspace_charge w)) (ss_reserver s)"
      using pos by (simp add: charge_mset_def)
    then have "acct (M + ?out) (release_charge R WorkspaceCharge 1 w (ss_reserver s))"
      by (rule release_charge_returns)
    note gives = this
    obtain res where res: "run_stage libs R bound c b r = Some res" "sr_out res = Some (ss_out s)" "sr_fault res = ss_faulted s"
      "sr_outcome res = (if ss_faulted s then DecodingFailed else outcome)"
      "sr_reserver res = release_charge R WorkspaceCharge 1 w (ss_reserver s)"
      using None p rs True rc(1) by (simp add: run_stage_def)
    with gives rc(2) show thesis
      by (intro that [OF res(1)]) (auto simp: stage_holds_def ends_with_def stage_inv_def)
  qed
qed

text \<open>\<open>Decode\<close>: what is still held is the charge of the body it returns.\<close>

definition decode_holds :: "content_charge multiset \<Rightarrow> int \<Rightarrow> decode_result \<Rightarrow> 'r \<Rightarrow> bool" where
  "decode_holds M bound res r \<longleftrightarrow> acct (M + charge_mset (output_charge (dr_charge res))) r
     \<and> (if dr_outcome res = Decoded
        then 0 < dr_charge res \<and> int (length (dr_body res)) \<le> bound \<and> int (length (dr_body res)) \<le> dr_charge res \<and> dr_charge res \<le> bound + 1
        else dr_body res = [] \<and> dr_charge res = 0)"

lemma decode_holds:
  assumes c: "li_n l = 0 \<or> c \<in> {Gzip, Deflate, Brotli, Zstd} \<and> li_codings l ! 0 = c" and acct: "acct M r"
    and most: "bytes_held M + charges c bound + ceiling_slack c bound \<le> most"
  obtains res io r' where "decode libs R l b bound r = Some (res, io, r')" "decode_holds M (clamp_bound bound) res r'"
    "(dr_outcome res = Identity) = (li_n l = 0)"
proof (cases "li_n l = 0")
  case True
  then have "decode libs R l b bound r =
      Some (\<lparr>dr_outcome = Identity, dr_body = [], dr_charge = 0, dr_stage = 0, dr_fault = False\<rparr>, None, r)"
    by (simp add: decode_def)
  with acct True show thesis by (intro that) (auto simp: decode_holds_def charge_mset_def)
next
  case False
  let ?b = "clamp_bound bound"
  have c: "c \<in> {Gzip, Deflate, Brotli, Zstd}" "li_codings l ! 0 = c" using c False by auto
  have "charges c bound = ?b + 1 + (?b + 2) div 2 + workspace_ceiling c bound"
    using workspace_ceiling_positive [OF c(1), of bound] by (simp add: charges_def Let_def add.commute)
  moreover have "workspace c b ?b \<le> workspace_ceiling c bound + ceiling_slack c bound"
    using workspace_ceiling_bound [of c b bound] by (simp add: workspace_def plan_def)
  ultimately have "bytes_held M + workspace c b ?b + (?b + 1) + (?b + 2) div 2 \<le> most" using most by linarith
  then obtain res where res: "run_stage libs R ?b c b r = Some res" "stage_holds M (?b + 1) res"
    by (rule run_stage_holds [OF c(1) clamp_bound_idem acct])
  show thesis
  proof (cases "sr_outcome res = Decoded")
    case True
    then obtain out where out: "sr_out res = Some out" "output_ok (?b + 1) out" "int (length (out_buf out)) < ?b + 1" "0 < out_charge out"
      using res(2) by (auto simp: stage_holds_def)
    have "decode libs R l b bound r = Some (\<lparr>dr_outcome = Decoded, dr_body = out_buf out, dr_charge = out_charge out,
        dr_stage = 0, dr_fault = False\<rparr>, sr_observed res, sr_reserver res)"
      using True False c res(1) out(1) by (simp add: decode_def)
    with False res(2) out show thesis
      by (intro that) (auto simp: decode_holds_def stage_holds_def output_ok_def)
  next
    case not_decoded: False
    have "acct M (case sr_out res of None \<Rightarrow> sr_reserver res
        | Some out \<Rightarrow> release_charge R OutputCharge 1 (out_charge out) (sr_reserver res))"
      using res(2) by (auto simp: stage_holds_def intro: release_charge_returns split: option.splits)
    moreover have "decode libs R l b bound r = Some (\<lparr>dr_outcome = sr_outcome res, dr_body = [], dr_charge = 0,
        dr_stage = 1, dr_fault = sr_fault res\<rparr>, sr_observed res, case sr_out res of None \<Rightarrow> sr_reserver res
        | Some out \<Rightarrow> release_charge R OutputCharge 1 (out_charge out) (sr_reserver res))"
      using not_decoded False c res(1) by (simp add: decode_def)
    ultimately show thesis
      using not_decoded False res(2) by (intro that) (auto simp: decode_holds_def stage_holds_def charge_mset_def)
  qed
qed

end

section \<open>A reserver that records its calls\<close>

text \<open>What happened to each charge, as the worker reports it (\<open>chargeEvent\<close> of \<open>src/processing/content.go\<close>).\<close>

datatype charge_event = Charge_reserved content_charge | Charge_refused content_charge | Charge_returned content_charge

definition recorded :: "'r content_reserver \<Rightarrow> ('r \<times> charge_event list) content_reserver" where
  "recorded R = \<lparr>
     cr_reserve = (\<lambda>(r, es) c. let (ok, r) = cr_reserve R r c
       in (ok, r, es @ [if ok then Charge_reserved c else Charge_refused c])),
     cr_release = (\<lambda>(r, es) c. (cr_release R r c, es @ [Charge_returned c]))\<rparr>"

text \<open>
  The charges held after a record, from those held before: \<open>None\<close> where it gives back a charge that
  is not held, asks for none at all, or holds more than \<open>most\<close> at any moment.
\<close>

fun held_after :: "int \<Rightarrow> content_charge multiset \<Rightarrow> charge_event list \<Rightarrow> content_charge multiset option" where
  "held_after most M [] = Some M"
| "held_after most M (Charge_reserved c # es) =
     (if 0 < cc_bytes c \<and> bytes_held M + cc_bytes c \<le> most then held_after most (add_mset c M) es else None)"
| "held_after most M (Charge_refused c # es) = (if 0 < cc_bytes c then held_after most M es else None)"
| "held_after most M (Charge_returned c # es) = (if c \<in># M then held_after most (M - {#c#}) es else None)"

lemma held_after_append:
  "held_after most M (es @ fs) = (case held_after most M es of None \<Rightarrow> None | Some M' \<Rightarrow> held_after most M' fs)"
  by (induction most M es rule: held_after.induct) simp_all

interpretation recording: charge_ledger "recorded R" "\<lambda>M (r, es). held_after most {#} es = Some M" most
  for R :: "'r content_reserver" and most
  by unfold_locales (auto simp: recorded_def held_after_append split: prod.splits if_splits)


lemma parse_list_coding:
  "li_n (fst (parse_list values)) = 0
     \<or> li_codings (fst (parse_list values)) ! 0 \<in> {Gzip, Deflate, Brotli, Zstd}"
proof (cases "parse_list values")
  case (Pair l v)
  then show ?thesis
    using parse_list_supported [of "values" l] parse_list_unsupported [of "values" l v]
    by (cases v) (auto simp: zero_list_def)
qed

text \<open>
  C8: A decode accounts for everything it holds.  Whatever the Content-Encoding fields were, whatever the
  encoded body and the bound, however the decoder library behaves - any counts, any errors, panics -
  and whatever the reserver answers, \<open>Decode\<close> returns.  The record of its reservations shows each charge positive,
  given back at most once and only while held, and never more held together than \<open>Charges\<close> allows
  (29 bytes more for zstd where \<open>WorkspaceCeiling\<close> falls short).  At the end exactly the charge of the body returned is
  held.  A decoded body is within the bound and within its charge; any other outcome returns no
  body and no charge.
\<close>

theorem decode_accounts_for_charges:
  "let l = fst (parse_list values); c = li_codings l ! 0 in
    \<exists>res io r' es. decode libs (recorded R) l encoded bound (r, []) = Some (res, io, r', es)
    \<and> held_after (charges c bound + (if c = Zstd \<and> 16385 \<le> bound \<and> bound \<le> 20480 then 29 else 0)) {#} es =
        Some (if dr_outcome res = Decoded then {#output_charge (dr_charge res)#} else {#})
    \<and> (if dr_outcome res = Decoded
       then 0 < dr_charge res \<and> int (length (dr_body res)) \<le> clamp_bound bound \<and> int (length (dr_body res)) \<le> dr_charge res
         \<and> dr_charge res \<le> clamp_bound bound + 1
       else dr_body res = [] \<and> dr_charge res = 0)"
proof -
  define l c where "l = fst (parse_list values)" and "c = li_codings l ! 0"
  note defs = this
  let ?most = "charges c bound + ceiling_slack c bound"
  have c: "li_n l = 0 \<or> c \<in> {Gzip, Deflate, Brotli, Zstd} \<and> li_codings l ! 0 = c"
    unfolding defs using parse_list_coding by blast
  have "case (r, []) of (r, es) \<Rightarrow> held_after ?most {#} es = Some {#}" by simp
  moreover have "bytes_held {#} + charges c bound + ceiling_slack c bound \<le> ?most" by simp
  ultimately obtain res io x where
    d: "decode libs (recorded R) l encoded bound (r, []) = Some (res, io, x)"
    "recording.decode_holds ?most {#} (clamp_bound bound) res x"
    using recording.decode_holds [OF c] by metis
  then show ?thesis
    unfolding Let_def defs [symmetric]
    by (cases x) (auto simp: recording.decode_holds_def ceiling_slack_def charge_mset_def)
qed

section \<open>A zstd stream cut at a frame\<close>



end
