(* ===== verification/Content_Prepare.thy ===== *)
theory Content_Prepare
  imports Content_Charges Reconstruct Intake
begin

text \<open>
  What the processing worker does with an exchange the pairing handed over
  (\<open>src/processing/content.go\<close>, \<open>unstopped\<close> of \<open>dispatch.go\<close>): \<open>prepare\<close> classifies it, decodes its bodies under the
  shared allowance and decides whether it is written, excluded alone, or stops or cuts its
  connection.  \<open>decodeReserver\<close> charges the intake store and the connection's own count; it
  interprets \<open>charge_ledger\<close>, so what a decode holds is what both counts show.

  The decoder libraries and the JSON decoder are parameters.  The state is the part of the worker and of
  the connection's \<open>parsing\<close> that these functions read and write.  \<open>observeCharge\<close> and the replaceable
  \<open>decoder\<close> are test seams, nil in the program, and left out.
\<close>

section \<open>Messages\<close>

text \<open>The loop over the headers: an Upgrade, or a transfer coding other than one chunked, stops it.\<close>

fun unstopped_headers :: "nat \<Rightarrow> header list \<Rightarrow> bool" where
  "unstopped_headers encodings [] = True"
| "unstopped_headers encodings (h # hs) =
     (let name = to_lower (Name h) in
      if name = ''upgrade'' then False
      else if name = ''transfer-encoding'' then
        (if encodings + 1 > 1 \<or> \<not> equal_fold (trim_space (Value h)) ''chunked'' then False
         else unstopped_headers (encodings + 1) hs)
      else unstopped_headers encodings hs)"

definition unstopped :: "shaped_message option \<Rightarrow> bool" where
  "unstopped x =
     (case x of
        None \<Rightarrow> False
      | Some sm \<Rightarrow>
          let m = sg_message sm in
          if \<not> m_complete m \<or> \<not> m_framed m \<or> m_defect m \<noteq> DefectNone \<or> m_body_holed m \<noteq> 0 \<or> m_body_elided m \<noteq> 0 then False
          else if m_protocol m \<noteq> ''HTTP/1.0'' \<and> m_protocol m \<noteq> ''HTTP/1.1'' then False
          else if equal_fold (m_method m) ''CONNECT'' \<or> m_kind m = Response \<and> m_status m < 200 then False
          else unstopped_headers 0 (m_headers m))"

definition content_encodings :: "message \<Rightarrow> bytes list" where
  "content_encodings m = map Value (filter (\<lambda>h. equal_fold (Name h) ''content-encoding'') (m_headers m))"

definition eligible_message :: "shaped_message option \<Rightarrow> bool" where
  "eligible_message x =
     (if \<not> unstopped x then False
      else case x of
             None \<Rightarrow> False
           | Some sm \<Rightarrow>
               let fields = content_encodings (sg_message sm) in
               if fields = [] then True
               else let (_, verdict) = parse_list fields in verdict = Supported \<or> verdict = verdict.Unsupported)"

definition bodiless :: "message \<Rightarrow> bool" where
  "bodiless m \<longleftrightarrow> m_body_length m = 0"

definition body_bound :: "limits \<Rightarrow> int" where
  "body_bound limits = (if MaxBodyBytes limits \<le> 0 then MaxBodyBytes default_limits else MaxBodyBytes limits)"

section \<open>The shared allowance\<close>

record exclusions =
  xc_coding_unsupported :: nat
  xc_decoding_failed :: nat
  xc_decoded_too_large :: nat
  xc_decoding_too_costly :: nat

definition exclusions_total :: "exclusions \<Rightarrow> nat" where
  "exclusions_total e =
     add64 (add64 (add64 (xc_coding_unsupported e) (xc_decoding_failed e)) (xc_decoded_too_large e)) (xc_decoding_too_costly e)"

definition exclusions_add :: "exclusions \<Rightarrow> string \<Rightarrow> exclusions" where
  "exclusions_add e reason =
     (if reason = reason_coding_unsupported then e\<lparr>xc_coding_unsupported := add64 (xc_coding_unsupported e) 1\<rparr>
      else if reason = reason_decoding_failed then e\<lparr>xc_decoding_failed := add64 (xc_decoding_failed e) 1\<rparr>
      else if reason = reason_decoded_too_large then e\<lparr>xc_decoded_too_large := add64 (xc_decoded_too_large e) 1\<rparr>
      else if reason = reason_decoding_too_costly then e\<lparr>xc_decoding_too_costly := add64 (xc_decoding_too_costly e) 1\<rparr>
      else e)"

text \<open>The store, the worker's counts, and what these functions use of a connection's \<open>parsing\<close>.\<close>

record preparing =
  pr_store :: store
  pr_faults :: nat
  pr_excluded_all :: exclusions
  pr_charged :: int
  pr_excluded :: bool
  pr_exchanges :: nat
  pr_exclusions :: exclusions
  pr_released :: "direction \<Rightarrow> nat"

definition decode_reserve :: "preparing \<Rightarrow> content_charge \<Rightarrow> bool \<times> preparing" where
  "decode_reserve s c =
     (let (ok, st) = reserve (pr_store s) Parsing (cc_bytes c) in
      if \<not> ok then (False, s\<lparr>pr_store := st\<rparr>)
      else (True, s\<lparr>pr_store := st, pr_charged := wrap64 (pr_charged s + cc_bytes c)\<rparr>))"

definition decode_release :: "preparing \<Rightarrow> content_charge \<Rightarrow> preparing" where
  "decode_release s c =
     s\<lparr>pr_store := give_back (pr_store s) Parsing (cc_bytes c), pr_charged := wrap64 (pr_charged s - cc_bytes c)\<rparr>"

definition decode_reserver :: "preparing content_reserver" where
  "decode_reserver = \<lparr>cr_reserve = decode_reserve, cr_release = decode_release\<rparr>"

section \<open>Preparing an exchange\<close>

datatype exchange_verdict = VerdictWrite | VerdictStop | VerdictExclude | VerdictCut

text \<open>The two charges of \<open>content\<close>, the request's first: \<open>None\<close> is the zero charge.\<close>

record prepared =
  pp_verdict :: exchange_verdict
  pp_reason :: string
  pp_exchange :: exchange
  pp_index :: nat
  pp_content :: "content_charge option list"

definition zero_exchange :: exchange where
  "zero_exchange = \<lparr>ex_request = None, ex_response = None, ex_complete = False, ex_charge = 0\<rparr>"

definition plain_prepared :: "exchange_verdict \<Rightarrow> nat \<Rightarrow> prepared" where
  "plain_prepared v index =
     \<lparr>pp_verdict = v, pp_reason = [], pp_exchange = zero_exchange, pp_index = index, pp_content = [None, None]\<rparr>"

definition return_content :: "content_charge option \<Rightarrow> preparing \<Rightarrow> preparing" where
  "return_content held s =
     (case held of
        None \<Rightarrow> s
      | Some c \<Rightarrow>
          if cc_bytes c = 0 then s
          else s\<lparr>pr_store := give_back (pr_store s) Parsing (cc_bytes c), pr_charged := wrap64 (pr_charged s - cc_bytes c)\<rparr>)"

definition release_content :: "preparing \<Rightarrow> prepared \<Rightarrow> preparing \<times> prepared" where
  "release_content s prep =
     (fold return_content (pp_content prep) s, prep\<lparr>pp_content := [None, None]\<rparr>)"

definition ranked :: "string list \<Rightarrow> string" where
  "ranked reasons =
     (case List.find (\<lambda>reason. reasons ! 0 = reason \<or> reasons ! 1 = reason)
             [reason_decoding_failed, reason_decoded_too_large, reason_decoding_too_costly] of
        None \<Rightarrow> []
      | Some reason \<Rightarrow> reason)"

definition side_message :: "exchange \<Rightarrow> nat \<Rightarrow> shaped_message option" where
  "side_message x i = (if i = 0 then ex_request x else ex_response x)"

definition put_side_message :: "nat \<Rightarrow> shaped_message \<Rightarrow> exchange \<Rightarrow> exchange" where
  "put_side_message i sm x = (if i = 0 then x\<lparr>ex_request := Some sm\<rparr> else x\<lparr>ex_response := Some sm\<rparr>)"

text \<open>The names of a list's codings; \<open>At\<close> does not panic below \<open>Len\<close>.\<close>

definition list_names :: "coding_list \<Rightarrow> string list" where
  "list_names l = map (\<lambda>n. case list_at l (int n) of None \<Rightarrow> [] | Some c \<Rightarrow> coding_string c) [0..<list_len l]"

record decode_settings =
  ds_limits :: reconstruct_limits
  ds_json :: json_decoder

text \<open>
  One message's decoding, its list not empty: what is prepared so far, the two reasons and the
  state, or the cut that ends the exchange.
\<close>

definition decode_side ::
  "(coding \<Rightarrow> 'd decoder) \<Rightarrow> decode_settings \<Rightarrow> nat \<Rightarrow> coding_list \<Rightarrow> shaped_message
     \<Rightarrow> prepared \<times> string list \<times> preparing
     \<Rightarrow> ((prepared \<times> preparing) + (prepared \<times> string list \<times> preparing)) option" where
  "decode_side libs settings i l sm st =
     (let (out, reasons, s) = st; m = sg_message sm in
      case decode libs decode_reserver l (m_body m) (body_bound (HTTP_limits (ds_limits settings))) s of
        None \<Rightarrow> None
      | Some (result, io, s) \<Rightarrow>
          (case dr_outcome result of
             Decoded \<Rightarrow>
               map_option (\<lambda>d. Inr (out\<lparr>
                   pp_content := (pp_content out)[i := Some \<lparr>cc_kind = OutputCharge, cc_stage = list_len l, cc_bytes = dr_charge result\<rparr>],
                   pp_exchange := put_side_message i d (pp_exchange out)\<rparr>, reasons, s))
                 (decoded (ds_json settings) sm (dr_body result)
                   \<lparr>ct_codings = list_names l, ct_values = content_encodings m, ct_length = length (dr_body result)\<rparr>
                   (JSON_limits (ds_limits settings)))
           | decode_outcome.Refused \<Rightarrow>
               let (s, out) = release_content s out
               in Some (Inl (plain_prepared VerdictCut (pp_index out), s))
           | Identity \<Rightarrow> Some (Inr (out, reasons[i := reason_decoding_failed], s))
           | outcome \<Rightarrow>
               Some (Inr (out, reasons[i := outcome_reason outcome],
                 if dr_fault result then s\<lparr>pr_faults := add64 (pr_faults s) 1\<rparr> else s))))"

fun decode_sides ::
  "(coding \<Rightarrow> 'd decoder) \<Rightarrow> decode_settings \<Rightarrow> (nat \<times> coding_list \<times> shaped_message) list
     \<Rightarrow> prepared \<times> string list \<times> preparing
     \<Rightarrow> ((prepared \<times> preparing) + (prepared \<times> string list \<times> preparing)) option" where
  "decode_sides libs settings [] st = Some (Inr st)"
| "decode_sides libs settings ((i, l, sm) # rest) st =
     (if list_len l = 0 then decode_sides libs settings rest st
      else case decode_side libs settings i l sm st of
             None \<Rightarrow> None
           | Some (Inl res) \<Rightarrow> Some (Inl res)
           | Some (Inr st) \<Rightarrow> decode_sides libs settings rest st)"

text \<open>The codings of a message's body; \<open>None\<close> where a coding is not undone.\<close>

definition body_list :: "message \<Rightarrow> coding_list option" where
  "body_list m =
     (if bodiless m then Some zero_list
      else let (l, verdict) = parse_list (content_encodings m) in if verdict = verdict.Unsupported then None else Some l)"

text \<open>The end of \<open>prepare\<close>: a cut as it is, otherwise the reason the two messages' outcomes rank first.\<close>

definition conclude :: "(prepared \<times> preparing) + (prepared \<times> string list \<times> preparing) \<Rightarrow> prepared \<times> preparing" where
  "conclude res =
     (case res of
        Inl cut_off \<Rightarrow> cut_off
      | Inr (out, reasons, s) \<Rightarrow>
          (let reason = ranked reasons
           in if reason \<noteq> [] then (out\<lparr>pp_verdict := VerdictExclude, pp_reason := reason\<rparr>, s) else (out, s)))"

definition prepare ::
  "(coding \<Rightarrow> 'd decoder) \<Rightarrow> decode_settings \<Rightarrow> exchange \<Rightarrow> preparing \<Rightarrow> (prepared \<times> preparing) option" where
  "prepare libs settings x s =
     (if pr_excluded s \<or> \<not> ex_complete x \<or> \<not> eligible_message (ex_request x) \<or> \<not> eligible_message (ex_response x)
      then Some (plain_prepared VerdictStop (pr_exchanges s), s)
      else case (ex_request x, ex_response x) of
        (Some request, Some response) \<Rightarrow>
          (case (body_list (sg_message request), body_list (sg_message response)) of
             (Some l0, Some l1) \<Rightarrow>
               let out = (plain_prepared VerdictWrite (pr_exchanges s))\<lparr>pp_exchange := x\<rparr> in
               map_option conclude
                 (decode_sides libs settings [(0, l0, request), (1, l1, response)] (out, [[], []], s))
           | _ \<Rightarrow> Some ((plain_prepared VerdictExclude (pr_exchanges s))
                   \<lparr>pp_reason := reason_coding_unsupported, pp_exchange := x\<rparr>, s))
      | _ \<Rightarrow> Some (plain_prepared VerdictStop (pr_exchanges s), s))"

section \<open>An exchange excluded alone\<close>

definition role_directions :: "role \<Rightarrow> direction \<times> direction" where
  "role_directions r =
     (case r of Client \<Rightarrow> (Sent, Received) | Server \<Rightarrow> (Received, Sent) | RoleUnknown \<Rightarrow> (Unknown, Unknown))"

definition account_side :: "direction \<Rightarrow> shaped_message option \<Rightarrow> preparing \<Rightarrow> preparing" where
  "account_side d x s =
     (case x of
        None \<Rightarrow> s
      | Some sm \<Rightarrow>
          if d = Unknown then s
          else s\<lparr>pr_released := (pr_released s)(d := max (pr_released s d) (m_end (sg_message sm)))\<rparr>)"

text \<open>\<open>ident\<close> is what the release's \<open>nextID\<close> gave: 0 once it is closed.\<close>

definition exclude_alone :: "nat \<Rightarrow> exchange \<Rightarrow> role \<Rightarrow> string \<Rightarrow> preparing \<Rightarrow> nat \<times> nat \<times> preparing" where
  "exclude_alone ident x r reason s =
     (let index = pr_exchanges s; s = s\<lparr>pr_exchanges := pr_exchanges s + 1\<rparr> in
      if ident = 0 then (index, 0, s)
      else let s = s\<lparr>pr_exclusions := exclusions_add (pr_exclusions s) reason,
                     pr_excluded_all := exclusions_add (pr_excluded_all s) reason\<rparr>;
               (request, response) = role_directions r
        in (index, ident, account_side response (ex_response x) (account_side request (ex_request x) s)))"

section \<open>The worker's counts are a ledger\<close>

definition allowance_holds :: "int \<Rightarrow> int \<Rightarrow> content_charge multiset \<Rightarrow> preparing \<Rightarrow> bool" where
  "allowance_holds charged parsing M s \<longleftrightarrow> (\<forall>c\<in>#M. 0 < cc_bytes c)
     \<and> wrap64 (pr_charged s) = wrap64 (charged + bytes_held M)
     \<and> wrap64 (ParsingCharge (pr_store s)) = wrap64 (parsing + bytes_held M)"

lemma wrap64_step:
  assumes "wrap64 x = wrap64 y"
  shows "wrap64 (x + z) = wrap64 (y + z)" "wrap64 (x - z) = wrap64 (y - z)"
  using wrap64_wrap_add(1) [of x z] wrap64_wrap_add(1) [of y z] wrap64_wrap_add(1) [of x "- z"] wrap64_wrap_add(1) [of y "- z"]
    assms by simp_all

lemma decode_reserve_counts:
  assumes "decode_reserve s c = (ok, s')"
  shows "wrap64 (pr_charged s') = wrap64 (pr_charged s + (if ok then cc_bytes c else 0))"
    "wrap64 (ParsingCharge (pr_store s')) = wrap64 (ParsingCharge (pr_store s) + (if ok then cc_bytes c else 0))"
  using assms by (auto simp: decode_reserve_def reserve_def Let_def split: if_splits prod.splits)

lemma decode_release_counts:
  assumes "0 < cc_bytes c"
  shows "wrap64 (pr_charged (decode_release s c)) = wrap64 (pr_charged s - cc_bytes c)"
    "wrap64 (ParsingCharge (pr_store (decode_release s c))) = wrap64 (ParsingCharge (pr_store s) - cc_bytes c)"
  using assms by (simp_all add: decode_release_def give_back_def)

interpretation allowance: charge_ledger decode_reserver "allowance_holds charged parsing" most
  for charged parsing most
proof unfold_locales
  fix M r c ok r'
  assume "allowance_holds charged parsing M r" "0 < cc_bytes c" "cr_reserve decode_reserver r c = (ok, r')"
  then show "allowance_holds charged parsing (if ok then add_mset c M else M) r'"
    using decode_reserve_counts [of r c ok r'] wrap64_step(1) [of "pr_charged r" _ "cc_bytes c"]
      wrap64_step(1) [of "ParsingCharge (pr_store r)" _ "cc_bytes c"]
    by (auto simp: allowance_holds_def decode_reserver_def ac_simps)
next
  fix M r c
  assume a: "allowance_holds charged parsing (add_mset c M) r"
  then have "0 < cc_bytes c" by (simp add: allowance_holds_def)
  with a show "allowance_holds charged parsing M (cr_release decode_reserver r c)"
    using decode_release_counts [of c r] wrap64_step(2) [of "pr_charged r" _ "cc_bytes c"]
      wrap64_step(2) [of "ParsingCharge (pr_store r)" _ "cc_bytes c"]
    by (simp add: allowance_holds_def decode_reserver_def algebra_simps)
qed

text \<open>Any coding list \<open>ParseList\<close> returns can be decoded under the allowance.\<close>

lemma allowance_decode:
  assumes l: "li_n l = 1" "li_codings l ! 0 \<in> {Gzip, Deflate, Brotli, Zstd}" and s: "allowance_holds charged parsing M s"
  obtains res io s' where "decode libs decode_reserver l b bound s = Some (res, io, s')"
    "allowance_holds charged parsing (M + charge_mset (output_charge (dr_charge res))) s'" "dr_outcome res \<noteq> Identity"
    "if dr_outcome res = Decoded
     then 0 < dr_charge res \<and> int (length (dr_body res)) \<le> clamp_bound bound \<and> int (length (dr_body res)) \<le> dr_charge res
     else dr_charge res = 0"
proof -
  let ?c = "li_codings l ! 0"
  obtain res io s' where d: "decode libs decode_reserver l b bound s = Some (res, io, s')"
    "allowance.decode_holds charged parsing M (clamp_bound bound) res s'" "(dr_outcome res = Identity) = (li_n l = 0)"
    using allowance.decode_holds [OF _ s, of l ?c bound "bytes_held M + charges ?c bound + ceiling_slack ?c bound" libs b] l
    by auto
  then show thesis
    using l by (intro that [OF d(1)]) (auto simp: allowance.decode_holds_def split: if_splits)
qed

definition held_content :: "content_charge option list \<Rightarrow> content_charge multiset" where
  "held_content cs = sum_list (map (\<lambda>c. case c of None \<Rightarrow> {#} | Some c \<Rightarrow> {#c#}) cs)"

lemma held_content_simps [simp]:
  "held_content [] = {#}" "held_content (None # cs) = held_content cs"
  "held_content (Some c # cs) = add_mset c (held_content cs)"
  by (simp_all add: held_content_def)

lemma held_content_update:
  "i < length cs \<Longrightarrow> cs ! i = None \<Longrightarrow> held_content (cs[i := Some c]) = add_mset c (held_content cs)"
proof (induction cs arbitrary: i)
  case (Cons x cs)
  then show ?case by (cases i; cases x) auto
qed simp

lemma return_content_ledger:
  "allowance_holds charged parsing (held_content (x # cs)) s \<Longrightarrow> allowance_holds charged parsing (held_content cs) (return_content x s)"
  using allowance.release_returns [of charged parsing _ "held_content cs" s]
  by (cases x) (auto simp: return_content_def decode_reserver_def decode_release_def allowance_holds_def)

lemma release_all_ledger:
  "allowance_holds charged parsing (held_content cs) s \<Longrightarrow> allowance_holds charged parsing {#} (fold return_content cs s)"
  by (induction cs arbitrary: s) (simp_all del: held_content_simps(2,3) add: return_content_ledger)

text \<open>
  The specification of one message's decoding.  \<open>side_result\<close> is what \<open>Decode\<close> returns for its
  body under the body bound, with the state after it and a contained fault counted; a message no
  coding applies to counts as \<open>Identity\<close>.
\<close>

definition side_result ::
  "(coding \<Rightarrow> 'd decoder) \<Rightarrow> decode_settings \<Rightarrow> coding_list \<Rightarrow> shaped_message \<Rightarrow> preparing \<Rightarrow> (decode_result \<times> preparing) option" where
  "side_result libs settings l sm s =
     (if list_len l = 0 then Some (\<lparr>dr_outcome = Identity, dr_body = [], dr_charge = 0, dr_stage = 0, dr_fault = False\<rparr>, s)
      else map_option (\<lambda>(r, io, s'). (r, if dr_fault r then s'\<lparr>pr_faults := add64 (pr_faults s') 1\<rparr> else s'))
        (decode libs decode_reserver l (m_body (sg_message sm)) (body_bound (HTTP_limits (ds_limits settings))) s))"

text \<open>What a decoded body shows: the shape of all its bytes, or why it has none.\<close>

definition shown_shape :: "decode_settings \<Rightarrow> bytes \<Rightarrow> shaped_message \<Rightarrow> bool" where
  "shown_shape settings content d =
     (if content = [] then sg_shape d = None \<and> sg_refused d = None
      else case extract_body (ds_json settings) content (JSON_limits (ds_limits settings)) of
             None \<Rightarrow> False
           | Some (Inl err) \<Rightarrow> sg_shape d = None \<and> sg_refused d = Some (NotOneValue err)
           | Some (Inr sh) \<Rightarrow> sg_shape d = Some sh \<and> sg_refused d = None)"

text \<open>
  A decoded message is the one handed over with exactly the bytes \<open>Decode\<close> returned, the record of
  the decoding and the shape of those bytes; its charge is the one \<open>Decode\<close> left held, and its
  length is within the body bound and within that charge.
\<close>

definition decoded_from ::
  "decode_settings \<Rightarrow> coding_list \<Rightarrow> shaped_message \<Rightarrow> decode_result \<Rightarrow> shaped_message option \<Rightarrow> content_charge option \<Rightarrow> bool" where
  "decoded_from settings l sm r got held \<longleftrightarrow>
     held = Some (output_charge (dr_charge r))
   \<and> (\<exists>d. got = Some d \<and> sg_message d = (sg_message sm)\<lparr>m_body := dr_body r\<rparr>
        \<and> sg_content d = Some \<lparr>ct_codings = list_names l, ct_values = content_encodings (sg_message sm), ct_length = length (dr_body r)\<rparr>
        \<and> shown_shape settings (dr_body r) d)
   \<and> int (length (dr_body r)) \<le> clamp_bound (body_bound (HTTP_limits (ds_limits settings)))
   \<and> int (length (dr_body r)) \<le> dr_charge r"

text \<open>What an exchange carries of a message: its decoding where that completed, the message handed over otherwise.\<close>

definition message_carried ::
  "decode_settings \<Rightarrow> coding_list \<Rightarrow> shaped_message \<Rightarrow> decode_result \<Rightarrow> shaped_message option \<Rightarrow> content_charge option \<Rightarrow> bool" where
  "message_carried settings l sm r got held =
     (if dr_outcome r = Decoded then decoded_from settings l sm r got held else got = Some sm \<and> held = None)"

definition side_came_to ::
  "decode_settings \<Rightarrow> coding_list \<Rightarrow> shaped_message \<Rightarrow> decode_result \<Rightarrow> nat \<Rightarrow> prepared \<Rightarrow> string list \<Rightarrow> bool" where
  "side_came_to settings l sm r i out reasons \<longleftrightarrow> reasons ! i = outcome_reason (dr_outcome r)
     \<and> message_carried settings l sm r (side_message (pp_exchange out) i) (pp_content out ! i)"

lemma put_side_message_simps [simp]:
  "side_message (put_side_message i d x) i = Some d"
  "j < 2 \<Longrightarrow> i < 2 \<Longrightarrow> j \<noteq> i \<Longrightarrow> side_message (put_side_message i d x) j = side_message x j"
  by (auto simp: side_message_def put_side_message_def)

lemma decoded_returns:
  "\<exists>d. decoded (ds_json settings) sm b c (JSON_limits (ds_limits settings)) = Some d
     \<and> sg_message d = (sg_message sm)\<lparr>m_body := b\<rparr> \<and> sg_content d = Some c \<and> shown_shape settings b d"
proof -
  obtain r where "extract_body (ds_json settings) b (JSON_limits (ds_limits settings)) = Some r" using extract_body_returns by blast
  then show ?thesis by (cases r) (auto simp: decoded_def with_shape_def shown_shape_def Let_def)
qed

lemma decode_fault: "decode libs R l b bound s = Some (r, io, s') \<Longrightarrow> dr_outcome r = Decoded \<Longrightarrow> \<not> dr_fault r"
  by (auto simp: decode_def split: if_splits)

text \<open>One message's decoding keeps the counts exact and touches its own side only.\<close>

lemma decode_side_came_to:
  assumes l: "li_n l = 1" "li_codings l ! 0 \<in> {Gzip, Deflate, Brotli, Zstd}"
    and s: "allowance_holds charged parsing (held_content (pp_content out)) s"
    and i: "i < 2" "length (pp_content out) = 2" "length reasons = 2" "pp_content out ! i = None" "reasons ! i = []"
      "side_message (pp_exchange out) i = Some sm"
  obtains (cut_off) r s1 s' where "side_result libs settings l sm s = Some (r, s1)" "dr_outcome r = decode_outcome.Refused"
      "decode_side libs settings i l sm (out, reasons, s) = Some (Inl (plain_prepared VerdictCut (pp_index out), s'))"
      "allowance_holds charged parsing {#} s'"
  | (decided) r out' reasons' s' where "side_result libs settings l sm s = Some (r, s')" "dr_outcome r \<noteq> decode_outcome.Refused"
      "decode_side libs settings i l sm (out, reasons, s) = Some (Inr (out', reasons', s'))"
      "allowance_holds charged parsing (held_content (pp_content out')) s'" "length (pp_content out') = 2" "length reasons' = 2"
      "side_came_to settings l sm r i out' reasons'"
      "pp_verdict out' = pp_verdict out" "pp_reason out' = pp_reason out" "pp_index out' = pp_index out"
      "\<And>j. j < 2 \<Longrightarrow> j \<noteq> i \<Longrightarrow> side_message (pp_exchange out') j = side_message (pp_exchange out) j
         \<and> pp_content out' ! j = pp_content out ! j \<and> reasons' ! j = reasons ! j"
proof -
  let ?bound = "body_bound (HTTP_limits (ds_limits settings))"
  obtain r io s1 where d: "decode libs decode_reserver l (m_body (sg_message sm)) ?bound s = Some (r, io, s1)"
    and held: "allowance_holds charged parsing (held_content (pp_content out) + charge_mset (output_charge (dr_charge r))) s1"
    and o: "dr_outcome r \<noteq> Identity"
      "if dr_outcome r = Decoded
       then 0 < dr_charge r \<and> int (length (dr_body r)) \<le> clamp_bound ?bound \<and> int (length (dr_body r)) \<le> dr_charge r
       else dr_charge r = 0"
    by (rule allowance_decode [OF l s])
  let ?s = "if dr_fault r then s1\<lparr>pr_faults := add64 (pr_faults s1) 1\<rparr> else s1"
  have result: "side_result libs settings l sm s = Some (r, ?s)"
    using d l(1) by (simp add: side_result_def list_len_def)
  have ledger: "allowance_holds charged parsing (held_content (pp_content out)) s1" if "dr_outcome r \<noteq> Decoded"
    using held o(2) that by (simp add: charge_mset_def)
  have faults: "allowance_holds charged parsing M (s1\<lparr>pr_faults := n\<rparr>) = allowance_holds charged parsing M s1" for M n
    by (simp add: allowance_holds_def)
  consider (dec) "dr_outcome r = Decoded" | (ref) "dr_outcome r = decode_outcome.Refused"
    | (bad) "dr_outcome r \<in> {DecodingFailed, DecodedTooLarge, DecodingTooCostly}"
    using o(1) by (cases "dr_outcome r") auto
  then show thesis
  proof cases
    case dec
    let ?c = "\<lparr>ct_codings = list_names l, ct_values = content_encodings (sg_message sm), ct_length = length (dr_body r)\<rparr>"
    obtain x where x: "decoded (ds_json settings) sm (dr_body r) ?c (JSON_limits (ds_limits settings)) = Some x"
      "sg_message x = (sg_message sm)\<lparr>m_body := dr_body r\<rparr>" "sg_content x = Some ?c" "shown_shape settings (dr_body r) x"
      using decoded_returns by blast
    let ?out = "out\<lparr>pp_content := (pp_content out)[i := Some (output_charge (dr_charge r))],
      pp_exchange := put_side_message i x (pp_exchange out)\<rparr>"
    have "decode_side libs settings i l sm (out, reasons, s) = Some (Inr (?out, reasons, ?s))"
      using d dec x(1) l(1) decode_fault [OF d] by (simp add: decode_side_def list_len_def)
    moreover have "held_content (pp_content ?out) = held_content (pp_content out) + charge_mset (output_charge (dr_charge r))"
      using i dec o(2) by (simp add: held_content_update charge_mset_def)
    moreover have "side_came_to settings l sm r i ?out reasons"
      using i x o(2) dec by (simp add: side_came_to_def message_carried_def decoded_from_def)
    ultimately show thesis
      using held i dec decode_fault [OF d] by (intro decided [OF result, of ?out reasons]) simp_all
  next
    case ref
    have "decode_side libs settings i l sm (out, reasons, s) =
        Some (Inl (plain_prepared VerdictCut (pp_index out), fold return_content (pp_content out) s1))"
      using d ref by (simp add: decode_side_def release_content_def)
    then show thesis
      using release_all_ledger ledger ref by (intro cut_off [OF result]) auto
  next
    case bad
    have "decode_side libs settings i l sm (out, reasons, s) =
        Some (Inr (out, reasons[i := outcome_reason (dr_outcome r)], ?s))"
      using d bad by (auto simp: decode_side_def)
    moreover have "side_came_to settings l sm r i out (reasons[i := outcome_reason (dr_outcome r)])"
      using i bad by (auto simp: side_came_to_def message_carried_def)
    ultimately show thesis
      using ledger bad i faults by (intro decided [OF result, of out "reasons[i := outcome_reason (dr_outcome r)]"]) auto
  qed
qed

text \<open>A message no coding applies to is carried as it is.\<close>

lemma side_untouched:
  assumes "list_len l = 0" "side_message (pp_exchange out) i = Some sm" "pp_content out ! i = None" "reasons ! i = []"
  obtains r where "side_result libs settings l sm s = Some (r, s)" "dr_outcome r \<noteq> decode_outcome.Refused"
    "side_came_to settings l sm r i out reasons"
  using assms by (intro that [of "\<lparr>dr_outcome = Identity, dr_body = [], dr_charge = 0, dr_stage = 0, dr_fault = False\<rparr>"])
    (simp_all add: side_result_def side_came_to_def message_carried_def)

text \<open>A body's list is empty or one coding that is undone.\<close>

lemma body_list_cases:
  assumes "body_list m = Some l"
  shows "list_len l = 0 \<or> li_n l = 1 \<and> li_codings l ! 0 \<in> {Gzip, Deflate, Brotli, Zstd}"
proof (cases "bodiless m")
  case True
  with assms show ?thesis by (auto simp: body_list_def list_len_def zero_list_def)
next
  case False
  obtain l' v where p: "parse_list (content_encodings m) = (l', v)" by fastforce
  with False assms have "l = l'" "v \<noteq> verdict.Unsupported" by (auto simp: body_list_def split: if_splits)
  then show ?thesis
    using p parse_list_supported [of "content_encodings m" l'] parse_list_unsupported [of "content_encodings m" l' v]
    by (cases v) (auto simp: list_len_def zero_list_def)
qed

text \<open>
  What decoding the messages of an exchange comes to, the request first: a cut that holds nothing where
  a decoding was refused, the response then not decoded where it was the request's; otherwise
  both messages settled, with the counts exact.
\<close>

type_synonym sides_outcome = "(prepared \<times> preparing) + (prepared \<times> string list \<times> preparing)"

definition cut_result :: "int \<Rightarrow> int \<Rightarrow> nat \<Rightarrow> sides_outcome \<Rightarrow> bool" where
  "cut_result charged parsing index res \<longleftrightarrow>
     (\<exists>s'. res = Inl (plain_prepared VerdictCut index, s') \<and> allowance_holds charged parsing {#} s')"

definition same_start :: "prepared \<Rightarrow> prepared \<Rightarrow> bool" where
  "same_start out out' \<longleftrightarrow> pp_verdict out' = pp_verdict out \<and> pp_reason out' = pp_reason out \<and> pp_index out' = pp_index out"

definition second_settled ::
  "int \<Rightarrow> int \<Rightarrow> (coding \<Rightarrow> 'd decoder) \<Rightarrow> decode_settings \<Rightarrow> coding_list \<Rightarrow> shaped_message \<Rightarrow> decode_result
     \<Rightarrow> coding_list \<Rightarrow> shaped_message \<Rightarrow> preparing \<Rightarrow> prepared \<Rightarrow> sides_outcome \<Rightarrow> bool" where
  "second_settled charged parsing libs settings l0 m0 r0 l1 m1 s0 out res \<longleftrightarrow>
     (\<exists>r1 s1. side_result libs settings l1 m1 s0 = Some (r1, s1) \<and>
       (if dr_outcome r1 = decode_outcome.Refused then cut_result charged parsing (pp_index out) res
        else \<exists>out' reasons. res = Inr (out', reasons, s1) \<and> allowance_holds charged parsing (held_content (pp_content out')) s1
          \<and> length reasons = 2 \<and> same_start out out'
          \<and> side_came_to settings l0 m0 r0 0 out' reasons \<and> side_came_to settings l1 m1 r1 1 out' reasons))"

definition sides_settled ::
  "int \<Rightarrow> int \<Rightarrow> (coding \<Rightarrow> 'd decoder) \<Rightarrow> decode_settings \<Rightarrow> coding_list \<Rightarrow> shaped_message
     \<Rightarrow> coding_list \<Rightarrow> shaped_message \<Rightarrow> preparing \<Rightarrow> prepared \<Rightarrow> sides_outcome \<Rightarrow> bool" where
  "sides_settled charged parsing libs settings l0 m0 l1 m1 s out res \<longleftrightarrow>
     (\<exists>r0 s0. side_result libs settings l0 m0 s = Some (r0, s0) \<and>
       (if dr_outcome r0 = decode_outcome.Refused then cut_result charged parsing (pp_index out) res
        else second_settled charged parsing libs settings l0 m0 r0 l1 m1 s0 out res))"

lemma decode_second_side:
  assumes l1: "list_len l1 = 0 \<or> li_n l1 = 1 \<and> li_codings l1 ! 0 \<in> {Gzip, Deflate, Brotli, Zstd}"
    and s: "allowance_holds charged parsing (held_content (pp_content out)) s"
    and len: "length (pp_content out) = 2" "length reasons = 2" and first: "side_came_to settings l0 m0 r0 0 out reasons"
    and side: "side_message (pp_exchange out) 1 = Some m1" "pp_content out ! 1 = None" "reasons ! 1 = []"
  shows "\<exists>res. decode_sides libs settings [(1, l1, m1)] (out, reasons, s) = Some res
    \<and> second_settled charged parsing libs settings l0 m0 r0 l1 m1 s out res"
proof (cases "list_len l1 = 0")
  case True
  obtain r1 where "side_result libs settings l1 m1 s = Some (r1, s)" "dr_outcome r1 \<noteq> decode_outcome.Refused"
    "side_came_to settings l1 m1 r1 1 out reasons"
    by (rule side_untouched [OF True side])
  with True s len first show ?thesis by (auto simp: second_settled_def same_start_def)
next
  case False
  with l1 have l: "li_n l1 = 1" "li_codings l1 ! 0 \<in> {Gzip, Deflate, Brotli, Zstd}" by auto
  show ?thesis
  proof (rule decode_side_came_to [OF l s, of 1 reasons m1 libs settings])
    fix r s1 s'
    assume "side_result libs settings l1 m1 s = Some (r, s1)" "dr_outcome r = decode_outcome.Refused"
      "decode_side libs settings 1 l1 m1 (out, reasons, s) = Some (Inl (plain_prepared VerdictCut (pp_index out), s'))"
      "allowance_holds charged parsing {#} s'"
    with False show ?thesis by (simp add: second_settled_def cut_result_def)
  next
    fix r out' reasons' s'
    assume d: "side_result libs settings l1 m1 s = Some (r, s')" "dr_outcome r \<noteq> decode_outcome.Refused"
      "decode_side libs settings 1 l1 m1 (out, reasons, s) = Some (Inr (out', reasons', s'))"
      "allowance_holds charged parsing (held_content (pp_content out')) s'" "length reasons' = 2"
      "side_came_to settings l1 m1 r 1 out' reasons'"
      "pp_verdict out' = pp_verdict out" "pp_reason out' = pp_reason out" "pp_index out' = pp_index out"
      and j: "\<And>j. j < 2 \<Longrightarrow> j \<noteq> 1 \<Longrightarrow> side_message (pp_exchange out') j = side_message (pp_exchange out) j
        \<and> pp_content out' ! j = pp_content out ! j \<and> reasons' ! j = reasons ! j"
    have "side_came_to settings l0 m0 r0 0 out' reasons'"
      using first j [of 0] by (simp add: side_came_to_def)
    with d False show ?thesis by (simp add: second_settled_def same_start_def)
  qed (use assms in auto)
qed

lemma decode_sides_settled:
  assumes l0: "list_len l0 = 0 \<or> li_n l0 = 1 \<and> li_codings l0 ! 0 \<in> {Gzip, Deflate, Brotli, Zstd}"
    and l1: "list_len l1 = 0 \<or> li_n l1 = 1 \<and> li_codings l1 ! 0 \<in> {Gzip, Deflate, Brotli, Zstd}"
    and s: "allowance_holds charged parsing {#} s"
    and out: "pp_content out = [None, None]" "ex_request (pp_exchange out) = Some m0" "ex_response (pp_exchange out) = Some m1"
  shows "\<exists>res. decode_sides libs settings [(0, l0, m0), (1, l1, m1)] (out, [[], []], s) = Some res
    \<and> sides_settled charged parsing libs settings l0 m0 l1 m1 s out res"
proof -
  have side: "side_message (pp_exchange out) 0 = Some m0" "side_message (pp_exchange out) 1 = Some m1"
    using out by (simp_all add: side_message_def)
  have s0: "allowance_holds charged parsing (held_content (pp_content out)) s" using s out by simp
  show ?thesis
  proof (cases "list_len l0 = 0")
    case True
    obtain r0 where r0: "side_result libs settings l0 m0 s = Some (r0, s)" "dr_outcome r0 \<noteq> decode_outcome.Refused"
      "side_came_to settings l0 m0 r0 0 out [[], []]"
      by (rule side_untouched [OF True side(1)]) (use out(1) in auto)
    then have "\<exists>res. decode_sides libs settings [(1, l1, m1)] (out, [[], []], s) = Some res
        \<and> second_settled charged parsing libs settings l0 m0 r0 l1 m1 s out res"
      using out side by (intro decode_second_side [OF l1 s0]) auto
    with True r0 show ?thesis by (simp add: sides_settled_def)
  next
    case False
    with l0 have l: "li_n l0 = 1" "li_codings l0 ! 0 \<in> {Gzip, Deflate, Brotli, Zstd}" by auto
    show ?thesis
    proof (rule decode_side_came_to [OF l s0, of 0 "[[], []]" m0 libs settings])
      fix r s1 s'
      assume "side_result libs settings l0 m0 s = Some (r, s1)" "dr_outcome r = decode_outcome.Refused"
        "decode_side libs settings 0 l0 m0 (out, [[], []], s) = Some (Inl (plain_prepared VerdictCut (pp_index out), s'))"
        "allowance_holds charged parsing {#} s'"
      with False show ?thesis by (simp add: sides_settled_def cut_result_def)
    next
      fix r out1 reasons1 s1
      assume r: "side_result libs settings l0 m0 s = Some (r, s1)" "dr_outcome r \<noteq> decode_outcome.Refused"
        and d: "decode_side libs settings 0 l0 m0 (out, [[], []], s) = Some (Inr (out1, reasons1, s1))"
        "allowance_holds charged parsing (held_content (pp_content out1)) s1" "length (pp_content out1) = 2" "length reasons1 = 2"
        "side_came_to settings l0 m0 r 0 out1 reasons1"
        and same: "pp_verdict out1 = pp_verdict out" "pp_reason out1 = pp_reason out" "pp_index out1 = pp_index out"
        and j: "\<And>j. j < 2 \<Longrightarrow> j \<noteq> 0 \<Longrightarrow> side_message (pp_exchange out1) j = side_message (pp_exchange out) j
          \<and> pp_content out1 ! j = pp_content out ! j \<and> reasons1 ! j = [[], []] ! j"
      have "\<exists>res. decode_sides libs settings [(1, l1, m1)] (out1, reasons1, s1) = Some res
          \<and> second_settled charged parsing libs settings l0 m0 r l1 m1 s1 out1 res"
        using j [of 1] side out by (intro decode_second_side [OF l1 d(2-5)]) auto
      moreover have "second_settled charged parsing libs settings l0 m0 r l1 m1 s1 out1 =
          second_settled charged parsing libs settings l0 m0 r l1 m1 s1 out"
        by (intro ext) (simp only: second_settled_def same_start_def same)
      ultimately show ?thesis
        using d(1) r False by (simp add: sides_settled_def decode_sides.simps(2) [of _ _ 0] del: decode_sides.simps)
    qed (use out side in auto)
  qed
qed

text \<open>The counts after an exchange, and after what it holds is given back.\<close>

definition counts_from :: "preparing \<Rightarrow> int \<Rightarrow> preparing \<Rightarrow> bool" where
  "counts_from s n s' \<longleftrightarrow> wrap64 (pr_charged s') = wrap64 (pr_charged s + n)
     \<and> wrap64 (ParsingCharge (pr_store s')) = wrap64 (ParsingCharge (pr_store s) + n)"

lemma allowance_counts:
  "allowance_holds (pr_charged s) (ParsingCharge (pr_store s)) M s' \<Longrightarrow> counts_from s (bytes_held M) s'"
  by (simp add: allowance_holds_def counts_from_def)

section \<open>What preparing an exchange promises\<close>

text \<open>The reason two outcomes give: a failed decoding before one too large before one too costly.\<close>

definition exclusion_reason :: "decode_outcome \<Rightarrow> decode_outcome \<Rightarrow> string" where
  "exclusion_reason a b =
     (if a = DecodingFailed \<or> b = DecodingFailed then ''content_decoding_failed''
      else if a = DecodedTooLarge \<or> b = DecodedTooLarge then ''content_decoded_too_large''
      else if a = DecodingTooCostly \<or> b = DecodingTooCostly then ''content_decoding_too_costly''
      else [])"

lemma ranked_outcomes:
  assumes "length reasons = 2" "reasons ! 0 = outcome_reason a" "reasons ! 1 = outcome_reason b"
  shows "ranked reasons = exclusion_reason a b"
  unfolding ranked_def assms(2,3)
  by (cases a; cases b; simp add: exclusion_reason_def reason_decoding_failed_def reason_decoded_too_large_def
      reason_decoding_too_costly_def)

definition stops :: "preparing \<Rightarrow> exchange \<Rightarrow> bool" where
  "stops s x \<longleftrightarrow> pr_excluded s \<or> \<not> ex_complete x \<or> \<not> eligible_message (ex_request x) \<or> \<not> eligible_message (ex_response x)"

text \<open>Both messages decoded, in the order request and response, and what comes of it.\<close>

definition decided_as ::
  "(coding \<Rightarrow> 'd decoder) \<Rightarrow> decode_settings \<Rightarrow> coding_list \<Rightarrow> shaped_message \<Rightarrow> coding_list \<Rightarrow> shaped_message
     \<Rightarrow> preparing \<Rightarrow> prepared \<Rightarrow> preparing \<Rightarrow> bool" where
  "decided_as libs settings l0 m0 l1 m1 s prep s' \<longleftrightarrow>
     (\<exists>r0 s0. side_result libs settings l0 m0 s = Some (r0, s0) \<and>
       (if dr_outcome r0 = decode_outcome.Refused then pp_verdict prep = VerdictCut \<and> pp_content prep = [None, None]
        else \<exists>r1 s1. side_result libs settings l1 m1 s0 = Some (r1, s1) \<and>
          (if dr_outcome r1 = decode_outcome.Refused then pp_verdict prep = VerdictCut \<and> pp_content prep = [None, None]
           else s' = s1 \<and> pp_reason prep = exclusion_reason (dr_outcome r0) (dr_outcome r1)
             \<and> pp_verdict prep = (if pp_reason prep = [] then VerdictWrite else VerdictExclude)
             \<and> message_carried settings l0 m0 r0 (ex_request (pp_exchange prep)) (pp_content prep ! 0)
             \<and> message_carried settings l1 m1 r1 (ex_response (pp_exchange prep)) (pp_content prep ! 1))))"

definition prepared_as ::
  "(coding \<Rightarrow> 'd decoder) \<Rightarrow> decode_settings \<Rightarrow> exchange \<Rightarrow> preparing \<Rightarrow> prepared \<Rightarrow> preparing \<Rightarrow> bool" where
  "prepared_as libs settings x s prep s' \<longleftrightarrow> pp_index prep = pr_exchanges s \<and>
     (if stops s x then pp_verdict prep = VerdictStop \<and> pp_content prep = [None, None] \<and> s' = s
      else \<exists>m0 m1. ex_request x = Some m0 \<and> ex_response x = Some m1 \<and>
        (case (body_list (sg_message m0), body_list (sg_message m1)) of
           (Some l0, Some l1) \<Rightarrow> decided_as libs settings l0 m0 l1 m1 s prep s'
         | _ \<Rightarrow> pp_verdict prep = VerdictExclude \<and> pp_reason prep = ''content_coding_unsupported'' \<and> pp_exchange prep = x
             \<and> pp_content prep = [None, None] \<and> s' = s))"

lemma conclude_cut:
  assumes "cut_result charged parsing n res" "conclude res = (prep, s')"
  shows "allowance_holds charged parsing (held_content (pp_content prep)) s'" "pp_index prep = n"
    "pp_verdict prep = VerdictCut" "pp_content prep = [None, None]"
  using assms by (auto simp: cut_result_def conclude_def plain_prepared_def)

lemma conclude_ok:
  assumes settled: "sides_settled charged parsing libs settings l0 m0 l1 m1 s ((plain_prepared VerdictWrite n)\<lparr>pp_exchange := x\<rparr>) res"
    and c: "conclude res = (prep, s')"
  shows "allowance_holds charged parsing (held_content (pp_content prep)) s' \<and> pp_index prep = n
    \<and> decided_as libs settings l0 m0 l1 m1 s prep s'"
proof -
  let ?out = "(plain_prepared VerdictWrite n)\<lparr>pp_exchange := x\<rparr>"
  have n: "pp_index ?out = n" by (simp add: plain_prepared_def)
  note cut_off = conclude_cut [OF _ c]
  obtain r0 s0 where r0: "side_result libs settings l0 m0 s = Some (r0, s0)"
    and first: "if dr_outcome r0 = decode_outcome.Refused then cut_result charged parsing n res
      else second_settled charged parsing libs settings l0 m0 r0 l1 m1 s0 ?out res"
    using settled unfolding sides_settled_def n by blast
  show ?thesis
  proof (cases "dr_outcome r0 = decode_outcome.Refused")
    case True
    with first r0 cut_off show ?thesis by (simp add: decided_as_def)
  next
    case False
    then obtain r1 s1 where r1: "side_result libs settings l1 m1 s0 = Some (r1, s1)"
      and second: "if dr_outcome r1 = decode_outcome.Refused then cut_result charged parsing n res
        else \<exists>out' reasons. res = Inr (out', reasons, s1) \<and> allowance_holds charged parsing (held_content (pp_content out')) s1
          \<and> length reasons = 2 \<and> same_start ?out out'
          \<and> side_came_to settings l0 m0 r0 0 out' reasons \<and> side_came_to settings l1 m1 r1 1 out' reasons"
      using first unfolding second_settled_def n by auto
    show ?thesis
    proof (cases "dr_outcome r1 = decode_outcome.Refused")
      case True
      with False r0 r1 second cut_off show ?thesis by (simp add: decided_as_def)
    next
      case both: False
      with second obtain out' reasons where res: "res = Inr (out', reasons, s1)"
        and held: "allowance_holds charged parsing (held_content (pp_content out')) s1" "length reasons = 2" "same_start ?out out'"
        and came: "side_came_to settings l0 m0 r0 0 out' reasons" "side_came_to settings l1 m1 r1 1 out' reasons"
        by auto
      have "ranked reasons = exclusion_reason (dr_outcome r0) (dr_outcome r1)"
        using held(2) came by (intro ranked_outcomes) (simp_all add: side_came_to_def)
      with False both r0 r1 res held came c show ?thesis
        by (auto simp: decided_as_def conclude_def Let_def same_start_def plain_prepared_def side_came_to_def side_message_def split: if_splits)
    qed
  qed
qed

lemma prepare_ok:
  "\<exists>prep s'. prepare libs settings x s = Some (prep, s')
    \<and> allowance_holds (pr_charged s) (ParsingCharge (pr_store s)) (held_content (pp_content prep)) s'
    \<and> prepared_as libs settings x s prep s'"
proof (cases "stops s x")
  case True
  then have "prepare libs settings x s = Some (plain_prepared VerdictStop (pr_exchanges s), s)"
    by (simp add: prepare_def stops_def)
  with True show ?thesis by (simp add: prepared_as_def plain_prepared_def allowance_holds_def)
next
  case False
  then obtain m0 m1 where m: "ex_request x = Some m0" "ex_response x = Some m1"
    by (auto simp: stops_def eligible_message_def unstopped_def split: if_splits option.splits)
  show ?thesis
  proof (cases "body_list (sg_message m0) = None \<or> body_list (sg_message m1) = None")
    case True
    let ?p = "(plain_prepared VerdictExclude (pr_exchanges s))\<lparr>pp_reason := reason_coding_unsupported, pp_exchange := x\<rparr>"
    have "prepare libs settings x s = Some (?p, s)"
      using False True m by (auto simp: prepare_def stops_def split: option.splits)
    moreover have "prepared_as libs settings x s ?p s"
      using False True m by (auto simp: prepared_as_def plain_prepared_def reason_coding_unsupported_def split: option.splits)
    ultimately show ?thesis by (simp add: plain_prepared_def allowance_holds_def)
  next
    case lists: False
    then obtain l0 l1 where l: "body_list (sg_message m0) = Some l0" "body_list (sg_message m1) = Some l1" by auto
    let ?out = "(plain_prepared VerdictWrite (pr_exchanges s))\<lparr>pp_exchange := x\<rparr>"
    have start: "allowance_holds (pr_charged s) (ParsingCharge (pr_store s)) {#} s" by (simp add: allowance_holds_def)
    have out: "pp_content ?out = [None, None]" "ex_request (pp_exchange ?out) = Some m0" "ex_response (pp_exchange ?out) = Some m1"
      using m by (simp_all add: plain_prepared_def)
    obtain res where res: "decode_sides libs settings [(0, l0, m0), (1, l1, m1)] (?out, [[], []], s) = Some res"
      "sides_settled (pr_charged s) (ParsingCharge (pr_store s)) libs settings l0 m0 l1 m1 s ?out res"
      using decode_sides_settled [OF body_list_cases [OF l(1)] body_list_cases [OF l(2)] start out] by blast
    obtain prep s' where c: "conclude res = (prep, s')" by fastforce
    have "prepare libs settings x s = Some (prep, s')"
      using False m l res(1) c by (simp add: prepare_def stops_def Let_def del: decode_sides.simps)
    with conclude_ok [OF res(2) c] False m l show ?thesis by (simp add: prepared_as_def)
  qed
qed

text \<open>
  C9: Every exchange the pairing hands over is prepared, and the shared allowance is exact.  Whatever the exchange,
  the decoder libraries, the JSON decoder and the state of the allowance, \<open>prepare\<close> returns; the
  connection's count and the store's have grown, as 64-bit values, by exactly the charges of the
  decoded content it keeps, and giving that content back restores both.  The verdict is decided by the
  standing stops first, then by a coding that is not undone, before any decoder runs, then by what
  \<open>Decode\<close> returns for the request and, unless that was refused, for the response: a refusal cuts and keeps
  nothing; otherwise the exchange is excluded for a failed decoding of either message before one too
  large before one too costly, and written where there is neither.  A message whose decoding completed is
  carried with exactly the bytes \<open>Decode\<close> returned, their shape and their charge, within the body bound and
  within the charge; any other is carried as it was handed over.
\<close>

theorem prepare_accounts_for_content:
  "\<exists>prep s'. prepare libs settings x s = Some (prep, s')
    \<and> counts_from s (bytes_held (held_content (pp_content prep))) s'
    \<and> counts_from s 0 (fst (release_content s' prep))
    \<and> prepared_as libs settings x s prep s'"
proof -
  obtain prep s' where p: "prepare libs settings x s = Some (prep, s')"
    "allowance_holds (pr_charged s) (ParsingCharge (pr_store s)) (held_content (pp_content prep)) s'"
    "prepared_as libs settings x s prep s'"
    using prepare_ok by blast
  show ?thesis
    using p(1,3) allowance_counts [OF p(2)] allowance_counts [OF release_all_ledger [OF p(2)]]
    by (simp add: release_content_def)
qed

end
