(* ===== verification/Target_Admission.thy ===== *)
theory Target_Admission
  imports Connection
begin

text \<open>
  What the observer publishes about a process it admitted (\<open>src/admission/admission.go\<close>): the instance and its
  validation, the descendant mode with the behaviours it answers, the provenance of a grant, denials
  and selections.  The texts are built as the source's formats build them.  \<open>Namespace\<close>, \<open>Start\<close>,
  \<open>Instance\<close> and \<open>Key\<close> are declared with the fragments and connection records that carry them.

  A mode's word is read back as the mode, whatever white space surrounds it; a wider mode
  answers at least what a narrower one does; and a valid selection names where it came from.
\<close>

section \<open>Instances\<close>

definition namespace_string :: "namespace \<Rightarrow> string" where
  "namespace_string n =
     (if \<not> namespace_known n then ''a pid namespace nothing here names''
      else ''pid namespace '' @ itoa (ns_device n) @ '':'' @ itoa (ns_inode n))"

definition determinate :: "nat \<Rightarrow> start" where
  "determinate ticks = \<lparr>st_ticks = ticks, st_determined = True\<rparr>"

definition indeterminate :: start where
  "indeterminate = \<lparr>st_ticks = 0, st_determined = False\<rparr>"

definition start_string :: "start \<Rightarrow> string" where
  "start_string s =
     (if \<not> st_determined s then ''a start identity that could not be read''
      else ''started at tick '' @ itoa (st_ticks s))"

definition kernel_generations :: nat where
  "kernel_generations = 2 ^ 63"

definition from_kernel :: "nat \<Rightarrow> bool" where
  "from_kernel g \<longleftrightarrow> g \<ge> kernel_generations"

definition admission_generation_string :: "nat \<Rightarrow> string" where
  "admission_generation_string g =
     (if g = 0 then ''no admission generation''
      else if from_kernel g then ''kernel admission generation '' @ itoa (g - kernel_generations + 1)
      else ''admission generation '' @ itoa g)"

definition same_instance :: "instance_rec \<Rightarrow> instance_rec \<Rightarrow> bool" where
  "same_instance i other \<longleftrightarrow> instance_key i = instance_key other"

datatype admission_error =
  NoNamespace | NoProcess | NoGeneration | DeniedByNothing
| NoAdmissionKind | NoDescendantMode | DescentWithoutParent | TargetWithoutName
| ModeMissing | ModeUnknown

definition instance_validate :: "instance_rec \<Rightarrow> admission_error option" where
  "instance_validate i =
     (if \<not> namespace_known (in_namespace i) then Some NoNamespace
      else if in_pid i \<le> 0 then Some NoProcess
      else if in_generation i = 0 then Some NoGeneration
      else None)"

definition instance_string :: "instance_rec \<Rightarrow> string" where
  "instance_string i =
     (let at = (if in_executable i = [] then ''an executable that could not be read'' else in_executable i)
      in ''pid '' @ itoa_int (in_pid i) @ '' in '' @ namespace_string (in_namespace i) @ '', '' @ start_string (in_start i)
         @ '', '' @ admission_generation_string (in_generation i) @ '', running '' @ at)"

section \<open>Kinds and modes\<close>

datatype admission_kind = KindUnknown | ByTarget | ByDescent

definition admission_kind_string :: "admission_kind \<Rightarrow> string" where
  "admission_kind_string k =
     (case k of
        ByTarget \<Rightarrow> ''named by a target''
      | ByDescent \<Rightarrow> ''created by an admitted process''
      | KindUnknown \<Rightarrow> ''admitted by nothing this names'')"

datatype descendant_mode = ModeUnset | ModeNone | ModeExisting | ModeFollow

definition mode_string :: "descendant_mode \<Rightarrow> string" where
  "mode_string m =
     (case m of ModeNone \<Rightarrow> ''none'' | ModeExisting \<Rightarrow> ''existing'' | ModeFollow \<Rightarrow> ''follow'' | ModeUnset \<Rightarrow> ''unset'')"

definition parse_mode :: "string \<Rightarrow> admission_error + descendant_mode" where
  "parse_mode text =
     (let word = trim_space text in
      if word = ''none'' then Inr ModeNone
      else if word = ''existing'' then Inr ModeExisting
      else if word = ''follow'' then Inr ModeFollow
      else if word = [] then Inl ModeMissing
      else Inl ModeUnknown)"

datatype grant_boundary = BoundaryUnset | ExecEndsTheGrant

definition boundary_string :: "grant_boundary \<Rightarrow> string" where
  "boundary_string b =
     (case b of
        ExecEndsTheGrant \<Rightarrow> ''a successful exec ends the grant; reparenting and a cgroup move do not, ''
          @ ''and an unenumerated pid namespace is never entered''
      | BoundaryUnset \<Rightarrow> ''no boundary answer'')"

datatype root_exit = RootExitUnset | SurvivorsKeepTheirGrants

definition root_exit_string :: "root_exit \<Rightarrow> string" where
  "root_exit_string r =
     (case r of
        SurvivorsKeepTheirGrants \<Rightarrow> ''the root'' @ [CHR 0x27] @ ''s own grant ends and nothing else'' @ [CHR 0x27] @ ''s''
      | RootExitUnset \<Rightarrow> ''no root-exit answer'')"

datatype root_replacement = ReplacementUnset | ReplacementNeedsRestart

definition replacement_string :: "root_replacement \<Rightarrow> string" where
  "replacement_string r =
     (case r of
        ReplacementNeedsRestart \<Rightarrow> ''a replacement root is covered only after a restart re-resolves the policy''
      | ReplacementUnset \<Rightarrow> ''no replacement answer'')"

record mode_answers =
  an_existing :: bool
  an_future :: bool
  an_boundary :: grant_boundary
  an_root_exit :: root_exit
  an_replacement :: root_replacement

definition answers_of :: "descendant_mode \<Rightarrow> mode_answers" where
  "answers_of m =
     (let answers = \<lparr>an_existing = False, an_future = False, an_boundary = ExecEndsTheGrant,
            an_root_exit = SurvivorsKeepTheirGrants, an_replacement = ReplacementNeedsRestart\<rparr>
      in case m of
           ModeExisting \<Rightarrow> answers\<lparr>an_existing := True\<rparr>
         | ModeFollow \<Rightarrow> answers\<lparr>an_existing := True, an_future := True\<rparr>
         | _ \<Rightarrow> answers)"

datatype propagation = PropagationUnknown | CanPropagate | CannotPropagate

definition propagation_string :: "propagation \<Rightarrow> string" where
  "propagation_string p =
     (case p of
        CanPropagate \<Rightarrow> ''its own fork can be named here''
      | CannotPropagate \<Rightarrow> ''nothing it forks can be named here''
      | PropagationUnknown \<Rightarrow> ''whether its fork can be named here was not established'')"

section \<open>Grants and denials\<close>

record provenance =
  pv_target :: string
  pv_number :: int
  pv_rule :: int
  pv_parent :: instance_key

definition no_key :: instance_key where
  "no_key = \<lparr>key_namespace = \<lparr>ns_device = 0, ns_inode = 0\<rparr>, key_pid = 0, key_generation = 0\<rparr>"

definition inherited :: "provenance \<Rightarrow> bool" where
  "inherited p \<longleftrightarrow> pv_parent p \<noteq> no_key"

definition provenance_string :: "provenance \<Rightarrow> string" where
  "provenance_string p =
     (let name = (if pv_target p = [] then ''target '' @ itoa_int (pv_number p) else pv_target p) in
      if inherited p then name @ '', inherited from pid '' @ itoa_int (key_pid (pv_parent p)) @ '' in ''
        @ namespace_string (key_namespace (pv_parent p))
      else name)"

record denial =
  dn_instance :: instance_rec
  dn_provenance :: provenance
  dn_observer_pid :: int

definition denial_validate :: "denial \<Rightarrow> admission_error option" where
  "denial_validate d =
     (case instance_validate (dn_instance d) of
        Some err \<Rightarrow> Some err
      | None \<Rightarrow> if pv_number (dn_provenance d) \<le> 0 \<and> \<not> inherited (dn_provenance d) then Some DeniedByNothing else None)"

definition denial_string :: "denial \<Rightarrow> string" where
  "denial_string d = instance_string (dn_instance d) @ '': denied by '' @ provenance_string (dn_provenance d)"

record selection =
  se_instance :: instance_rec
  se_kind :: admission_kind
  se_provenance :: provenance
  se_also_named_by :: "provenance list"
  se_mode :: descendant_mode
  se_propagation :: propagation
  se_observer_pid :: int
  se_adopted :: bool

definition selection_answers :: "selection \<Rightarrow> mode_answers" where
  "selection_answers s = answers_of (se_mode s)"

definition selection_validate :: "selection \<Rightarrow> admission_error option" where
  "selection_validate s =
     (case instance_validate (se_instance s) of
        Some err \<Rightarrow> Some err
      | None \<Rightarrow>
          if se_kind s \<noteq> ByTarget \<and> se_kind s \<noteq> ByDescent then Some NoAdmissionKind
          else if se_mode s = ModeUnset then Some NoDescendantMode
          else if se_kind s = ByDescent \<and> \<not> inherited (se_provenance s) then Some DescentWithoutParent
          else if se_kind s = ByTarget \<and> pv_number (se_provenance s) \<le> 0 then Some TargetWithoutName
          else None)"

definition named_by :: "selection \<Rightarrow> provenance list" where
  "named_by s = [se_provenance s] @ se_also_named_by s"

definition selection_string :: "selection \<Rightarrow> string" where
  "selection_string s =
     (let named = foldl (\<lambda>named also. named @ '' and '' @ provenance_string also)
            (provenance_string (se_provenance s)) (se_also_named_by s)
      in instance_string (se_instance s) @ '': '' @ admission_kind_string (se_kind s) @ '', '' @ named
         @ '', descendants '' @ mode_string (se_mode s) @ '', '' @ propagation_string (se_propagation s))"

section \<open>Lemmas\<close>

lemma parse_mode_round_trip:
  assumes "trim_space text = mode_string m" "m \<noteq> ModeUnset"
  shows "parse_mode text = Inr m"
  using assms by (cases m) (simp_all add: parse_mode_def mode_string_def)

lemma parse_mode_sound: "parse_mode text = Inr m \<Longrightarrow> m \<noteq> ModeUnset \<and> trim_space text = mode_string m"
  by (auto simp: parse_mode_def mode_string_def Let_def split: if_splits)

text \<open>A wider mode never answers less, and the three common answers do not depend on it.\<close>

lemma answers_widen:
  "an_existing (answers_of ModeExisting)" "an_existing (answers_of ModeFollow)" "an_future (answers_of ModeFollow)"
  "an_future (answers_of m) \<Longrightarrow> an_existing (answers_of m)"
  "an_boundary (answers_of m) = ExecEndsTheGrant \<and> an_root_exit (answers_of m) = SurvivorsKeepTheirGrants
     \<and> an_replacement (answers_of m) = ReplacementNeedsRestart"
  by (cases m; simp add: answers_of_def Let_def)+

text \<open>The identity of a valid instance is never the zero key.\<close>

lemma valid_instance_key: "instance_validate i = None \<Longrightarrow> instance_key i \<noteq> no_key"
  by (auto simp: instance_validate_def instance_key_def no_key_def namespace_known_def split: if_splits)

text \<open>A grant inherited from a valid instance shows that it is inherited.\<close>

lemma inherited_from_valid: "instance_validate i = None \<Longrightarrow> pv_parent p = instance_key i \<Longrightarrow> inherited p"
  using valid_instance_key by (simp add: inherited_def)

lemma selection_valid:
  "selection_validate s = None \<longleftrightarrow>
     instance_validate (se_instance s) = None \<and> se_mode s \<noteq> ModeUnset
   \<and> (se_kind s = ByDescent \<and> inherited (se_provenance s) \<or> se_kind s = ByTarget \<and> 0 < pv_number (se_provenance s))"
  by (cases "se_kind s") (auto simp: selection_validate_def split: option.splits)

end
