(* ===== verification/Spec2Isabelle.thy ===== *)
theory Spec2Isabelle
  imports Http_Parser_Accounting Connection_Seal Intake_Slots Sink_Queue Spool Ceiling Pairing_Conservation
    Content_Prepare Target_Admission
begin

text \<open>
  A verification development of the edge observer: a Go program that records the plaintext
  approved processes pass through OpenSSL and reconstructs the HTTP/1.1 exchanges in it.

  \<^bold>\<open>The program and its parts.\<close>  Kernel probes deliver fragments of each direction of each connection.
  A delivery gate (\<open>probe\<close>) bounds how many are admitted; admitted fragments and connection
  records are stored in the intake (\<open>intake\<close>), optionally also in a spool on disk (\<open>spool\<close>).
  A fragment carries its offset and what capture can vouch for (\<open>fragment\<close>); connection
  records say what a connection was bound to and which positions are known (\<open>connection\<close>).
  Fragments are assembled into streams with explicit holes (\<open>stream\<close>), read as HTTP messages
  (\<open>http1\<close>), either whole or part by part with every retained byte reserved first, and
  paired (\<open>reconstruct\<close>), with the shape of JSON bodies (\<open>jsonshape\<close>).  The worker undoes the content coding of each
  body under the shared allowance (\<open>contentcoding\<close>, \<open>processing\<close>).  Finished lines leave through a bounded queue to files or streams
  (\<open>sink\<close>).  At the end of a run the counters of every stage are reconciled and sealed
  (\<open>connection/account.go\<close>, \<open>connection/seal.go\<close>).

  \<^bold>\<open>Shared theories.\<close>
  \<^item> \<open>Prelude\<close>: unsigned 64-bit sums that wrap (\<open>add64\<close>, \<open>sub64\<close>), list lemmas, named collections.
    \<open>Int64\<close>: the wrap of signed sums.  \<open>Go_Strings\<close>: the functions of \<open>strings\<close> and \<open>strconv\<close> used.

  \<^bold>\<open>Capture records and streams.\<close>
  \<^item> \<open>Fragment\<close> (\<open>src/fragment\<close>): records, evidence, every validation rule, the order of streams.
  \<^item> \<open>Reassembly\<close> (\<open>src/stream/stream.go\<close>): \<open>Assemble\<close>.  It refines a reference reading in which the
    first covering record decides each offset; parts tile the extent; arrival order is
    irrelevant; counts are exact.  Offsets wrap as in the source.
  \<^item> \<open>Cursor\<close> (\<open>src/stream/cursor.go\<close>): each method is a list operation on the stream's cells.

  \<^bold>\<open>HTTP.\<close>
  \<^item> \<open>Http_Syntax\<close> (\<open>src/http1/http1.go\<close>): start lines, fields, chunk sizes, framing.  Round trips,
    and that no message is framed two ways at once.
  \<^item> \<open>Http_Parser\<close> (\<open>src/http1/parser.go\<close>): \<open>Feed\<close>, \<open>Answer\<close> and \<open>End\<close> with the reserver's state passed
    through; \<open>Http_Parser_Invariant\<close> and \<open>Http_Parser_History\<close> give the invariant and what holds of
    everything handed over; \<open>Http_Parser_Accounting\<close> proves, inside the locale \<open>accounting\<close> of
    \<open>Reserver\<close>, that every charge is reserved once and leaves once.
  \<^item> \<open>Http_Parse\<close>: \<open>Parse\<close> and \<open>ParseResponses\<close>, which return on every assembled stream and account for
    each of its offsets.
  \<^item> \<open>Opening\<close> (\<open>src/reconstruct\<close>): the side of a connection, whole and as its bytes arrive; the two agree.
  \<^item> \<open>Json_Shape\<close> (\<open>src/jsonshape\<close>): the bounded shape of a body over the tokens of the standard decoder; it shows
    member names and kinds only, and \<open>Extract\<close> always answers.
  \<^item> \<open>Reconstruct\<close> (\<open>src/reconstruct/reconstruct.go\<close>): \<open>Run\<close> over the reassembly, the parse and the shapes; every
    connection once, responses with their requests, every offset placed or counted.
  \<^item> \<open>Pairing\<close> (\<open>src/reconstruct/pairing.go\<close>): both directions of a connection fed part by part.
    \<open>Pairing_Invariant\<close>, \<open>Pairing_Reading\<close>, \<open>Pairing_Pump\<close>, \<open>Pairing_Accept\<close> and \<open>Pairing_Calls\<close> give its
    invariant and what each call does; \<open>Pairing_Run\<close> the order of the exchanges and the offsets
    accounted for; \<open>Pairing_Conservation\<close>, inside \<open>accounting\<close>, that every charge leaves once.

  \<^bold>\<open>Bounds on what is held.\<close>
  \<^item> \<open>Held\<close> (\<open>src/held\<close>): churned maps, loss tokens, the \<open>Slot\<close> interface (locale \<open>slot_pool\<close>).
  \<^item> \<open>Delivery_Gate\<close> (\<open>src/probe/delivery_gate.go\<close>): interprets \<open>slot_pool\<close>; counts, permanence of an
    invalidation, refunds, recovery.
  \<^item> \<open>Intake\<close> (\<open>src/intake\<close>): a linked queue in a heap of entries under one allowance;
    \<open>Intake_Slots\<close> runs it beside a gate (locale \<open>slot_source\<close>).
  \<^item> \<open>Ceiling\<close> (\<open>src/processing/batch.go\<close>): the worker's reserver over the intake store, an
    interpretation of \<open>accounting\<close> in 64-bit words.

  \<^bold>\<open>Content codings.\<close>
  \<^item> \<open>Content_Coding\<close> (\<open>src/contentcoding/coding.go\<close>): the Content-Encoding fields; \<open>ParseList\<close> is a reference reading.
  \<^item> \<open>Content_Bounds\<close> (\<open>bounds.go\<close> and the stream headers): sizes, plans, ceilings.  \<open>Content_Limits\<close>: the planned
    workspace against its ceiling, where the ceiling falls short, and that a zstd stream is cut between frames.
  \<^item> \<open>Content_Decode\<close> (\<open>decode.go\<close>, \<open>fault.go\<close>, \<open>flate.go\<close>, \<open>brotli.go\<close>, \<open>zstd.go\<close>): \<open>Decode\<close> over the decoder libraries as a
    parameter.  \<open>Content_Charges\<close>: it returns whatever they do, and its charges balance, inside the
    locale \<open>charge_ledger\<close>; a recording reserver interprets it.
  \<^item> \<open>Content_Prepare\<close> (\<open>src/processing/content.go\<close>): the worker's classification and decoding of an exchange;
    its reserver over the intake store interprets \<open>charge_ledger\<close>.

  \<^bold>\<open>Connections and the account of a run.\<close>
  \<^item> \<open>Connection\<close> (\<open>src/connection\<close>): associations, placements, records, their validation and
    agreement with evidence.  \<open>Connection_Seal\<close>: counters, identities, the boundary that seals a run.
  \<^item> \<open>Target_Admission\<close> (\<open>src/admission\<close>): instances, descendant modes and what they answer, provenance,
    denials and selections; mode words round trip, exactly the selections that say where they came from are valid.

  \<^bold>\<open>Output.\<close>
  \<^item> \<open>Sink_Queue\<close> (\<open>src/sink/queue.go\<close>, \<open>final.go\<close>): the queue's critical sections as interleaved steps.
  \<^item> \<open>Sink_Line\<close> (\<open>src/sink\<close>): one line to a file or stream with repair of torn lines, over the
    contracts \<open>exact_sink\<close> and \<open>exact_file\<close>.
  \<^item> \<open>Spool\<close> (\<open>src/spool\<close>): both files under one bound, over \<open>exact_file\<close>.

  \<^bold>\<open>Conventions.\<close>  Go errors are constructors of a sum's left side or an \<open>option\<close>; a panic is an error
  value or \<open>None\<close>.  Signed 64-bit sums wrap through \<open>wrap64\<close>, unsigned ones through \<open>add64\<close> or
  \<open>64 word\<close>.  A lock makes a critical section one step, and interleavings are sequences of
  steps.  What the compiler, the operating system and the JSON library decide (\<open>unsafe.Sizeof\<close>,
  files, \<open>json.Marshal\<close>) is a parameter, as are the tokens of the JSON decoder and the decoder libraries.

  \<^bold>\<open>Loops.\<close>  Recursion follows the source's loops.  \<open>Cursor.read_line_loop\<close> is a partial function, shown to
  return on assembled streams.  \<open>Content_Decode.fill_loop\<close> and \<open>gzip_members\<close> are partial functions too, shown to
  return whatever the library does.  \<open>Intake.close_loop\<close> has the number of entries as fuel and
  \<open>Http_Parse.parse_part\<close> the length of its part; both are shown to be enough.  In \<open>Pairing\<close> a part is read with
  its length as fuel, held input with its number of parts and length, and finished messages are handed over
  with their number; \<open>pairing_answers_in_order\<close> says that every call returns.

  \<^bold>\<open>Not modelled.\<close>  The kernel programs and their loader, probes, capture, process discovery,
  attachment, activation, preflight, privileges and the command line act through system calls and
  the kernel.  The published contracts and outputs are encodings over the JSON library.  The
  decoders of gzip, deflate, zstd and brotli are third-party or vendored.  The worker's scheduling and the extension
  protocol are concurrent I/O; of package \<open>processing\<close> the reserver and the preparation of exchanges are
  modelled.  Left out too: the matching of processes to targets (\<open>process\<close>), the kernel account, the policy settings,
  the rendering of a reconstruction as text, the nil reserver of \<open>NewPairing\<close>, and the hooks only tests set.
\<close>

end
